(* ===== verification/Prelude.thy ===== *)
theory Prelude
  imports Main "HOL-Library.Word" "HOL-Library.Monad_Syntax"
begin

text \<open>
  Shared vocabulary of the development: the machine integer types, pointers, the
  ``does not return'' monad every stateful operation lives in, and the generic facts on
  lists, options and words that the component theories use.

  A C function that can abort is a HOL function into an option type. \<open>None\<close> means that the
  call does not return to its caller: a failed \<^verbatim>\<open>assert\<close> (the library is built
  without \<^verbatim>\<open>NDEBUG\<close>), a dereferenced null pointer, or a spin on a condition that
  only another thread can change. Sequencing is \<open>Option.bind\<close> in do-notation.
\<close>

unbundle bit_operations_syntax

section \<open>Collections of rewrite rules\<close>

named_theorems c_consts \<open>the numeric values of the C preprocessor constants\<close>
named_theorems run_simps \<open>evaluation of the option monad\<close>
named_theorems run_elims \<open>inversion of a computation that returned\<close>

section \<open>Machine integers and pointers\<close>

type_synonym u8 = "8 word"
type_synonym u16 = "16 word"
type_synonym u32 = "32 word"
type_synonym u64 = "64 word"

text \<open>A pointer is a 64-bit address; the null pointer is the address 0.\<close>

type_synonym ptr = "64 word"

abbreviation (input) NULL :: ptr where "NULL \<equiv> 0"

text \<open>
  A right shift of a 64-bit value by a 64-bit count. The target is x86-64 (the program needs
  Intel PEBS), where the shift instruction uses the low six bits of its count.
\<close>

definition shr64 :: "u64 \<Rightarrow> u64 \<Rightarrow> u64" where
  "shr64 x n = drop_bit (unat n mod 64) x"

lemma shr64_0 [simp]: "shr64 x 0 = x"
  by (simp add: shr64_def)

lemma shr64_le: "shr64 x n \<le> x"
proof -
  have "unat (drop_bit (unat n mod 64) x) \<le> unat x"
    unfolding unat_drop_bit_eq by (simp add: drop_bit_eq_div)
  then show ?thesis
    by (simp add: shr64_def word_le_nat_alt)
qed

section \<open>Assertions and the option monad\<close>

definition assert :: "bool \<Rightarrow> unit option" where
  "assert b = (if b then Some () else None)"

lemma assert_eq_Some [simp]: "assert b = Some u \<longleftrightarrow> b"
  by (simp add: assert_def)

lemma assert_eq_None [simp]: "assert b = None \<longleftrightarrow> \<not> b"
  by (simp add: assert_def)

lemma assert_simps [simp, run_simps]: "assert True = Some ()" "assert False = None"
  by (simp_all add: assert_def)

lemma bind_assert [simp, run_simps]: "(assert b \<bind> f) = (if b then f () else None)"
  by (simp add: assert_def)

lemma bind_Some_iff [run_elims]:
  "(m \<bind> f) = Some y \<longleftrightarrow> (\<exists>x. m = Some x \<and> f x = Some y)"
  by (cases m) auto

lemma if_None_iff [run_elims]: "(if b then m else None) = Some y \<longleftrightarrow> b \<and> m = Some y"
  by auto

lemma bind_SomeI: "m = Some x \<Longrightarrow> f x = Some y \<Longrightarrow> (m \<bind> f) = Some y"
  by simp

section \<open>Lists\<close>

definition hd_or :: "'a \<Rightarrow> 'a list \<Rightarrow> 'a" where
  "hd_or d xs = (case xs of [] \<Rightarrow> d | x # _ \<Rightarrow> x)"

definition last_or :: "'a \<Rightarrow> 'a list \<Rightarrow> 'a" where
  "last_or d xs = (if xs = [] then d else last xs)"

lemma hd_or_simps [simp]: "hd_or d [] = d" "hd_or d (x # xs) = x"
  by (simp_all add: hd_or_def)

lemma last_or_simps [simp]: "last_or d [] = d" "last_or d (xs @ [x]) = x"
  by (simp_all add: last_or_def)

lemma last_or_Cons: "last_or d (x # xs) = last_or x xs"
  by (simp add: last_or_def)

lemma hd_or_append: "hd_or d (xs @ ys) = hd_or (hd_or d ys) xs"
  by (cases xs) auto

lemma last_or_append: "last_or d (xs @ ys) = last_or (last_or d xs) ys"
  by (auto simp: last_or_def)

lemma hd_or_in: "xs \<noteq> [] \<Longrightarrow> hd_or d xs \<in> set xs"
  by (cases xs) auto

lemma last_or_in: "xs \<noteq> [] \<Longrightarrow> last_or d xs \<in> set xs"
  by (simp add: last_or_def)

lemma hd_or_NULL_iff: "NULL \<notin> set xs \<Longrightarrow> hd_or NULL xs = NULL \<longleftrightarrow> xs = []"
  by (cases xs) auto

lemma last_or_NULL_iff: "NULL \<notin> set xs \<Longrightarrow> last_or NULL xs = NULL \<longleftrightarrow> xs = []"
  by (metis last_or_in last_or_simps(1))

lemma remove1_split: "x \<notin> set ys \<Longrightarrow> remove1 x (ys @ x # zs) = ys @ zs"
  by (simp add: remove1_append)

lemma distinct_snoc: "distinct (xs @ [x]) \<longleftrightarrow> distinct xs \<and> x \<notin> set xs"
  by auto

lemma last_notin_butlast: "distinct xs \<Longrightarrow> xs \<noteq> [] \<Longrightarrow> last xs \<notin> set (butlast xs)"
  by (metis append_butlast_last_id distinct_snoc)

section \<open>Word arithmetic\<close>

text \<open>On words divisibility is weaker than a zero remainder, so the two must not be mixed.\<close>

declare mod_0_imp_dvd [rule del]

text \<open>A duplicate-free list of non-null pointers is shorter than the range of a counter.\<close>

lemma ptr_list_length:
  fixes xs :: "ptr list"
  assumes "distinct xs" and "NULL \<notin> set xs"
  shows "length xs < 2 ^ 64"
proof -
  have "length xs = card (set xs)"
    using assms(1) by (simp add: distinct_card)
  also have "\<dots> \<le> card (UNIV - {NULL :: ptr})"
    using assms(2) by (intro card_mono) auto
  also have "\<dots> < CARD(ptr)"
    by (simp add: card_Diff_singleton card_word)
  finally show ?thesis
    by (simp add: card_word)
qed

lemma unat_of_nat_ptrs:
  fixes xs :: "ptr list"
  assumes "distinct xs" and "NULL \<notin> set xs"
  shows "unat (of_nat (length xs) :: u64) = length xs"
  using ptr_list_length [OF assms] by (simp add: unat_of_nat)

lemma div_eq_iff_between:
  fixes c d t :: nat
  assumes "0 < c"
  shows "d div c = t \<longleftrightarrow> t * c \<le> d \<and> d < t * c + c"
proof
  show "t * c \<le> d \<and> d < t * c + c" if "d div c = t"
    using div_mult_mod_eq [of d c] mod_less_divisor [OF assms, of d] that
    by (metis add_less_cancel_left le_add1)
  show "d div c = t" if "t * c \<le> d \<and> d < t * c + c"
    using that assms by (intro div_nat_eqI) (auto simp: algebra_simps)
qed

lemma unat_less_power: "unat (x :: 'a :: len word) < 2 ^ LENGTH('a)"
  by (simp add: unsigned_less)

lemma unat_plus_1:
  assumes "(x :: 'a :: len word) < y"
  shows "unat (x + 1) = unat x + 1"
proof -
  have "unat x + 1 < 2 ^ LENGTH('a)"
    using assms le_less_trans [OF Suc_leI unat_less_power [of y]] by (simp add: word_less_nat_alt)
  then show ?thesis
    using unat_add_lem [of x 1] by simp
qed

lemma of_nat_word_inj:
  "a < 2 ^ LENGTH('a) \<Longrightarrow> b < 2 ^ LENGTH('a) \<Longrightarrow> (of_nat a :: 'a :: len word) = of_nat b \<longleftrightarrow> a = b"
  by (metis mod_less unat_of_nat)

lemma of_nat_Suc_neq0: "Suc n < 2 ^ 64 \<Longrightarrow> (of_nat (Suc n) :: u64) \<noteq> 0"
  by (auto simp: word_of_nat_eq_0_iff simp del: of_nat_Suc dest: dvd_imp_le)

end
