(* ===== verification/Spsc_Ring.thy ===== *)
theory Spsc_Ring
  imports Prelude "HOL-Library.Sublist"
begin

text \<open>
  \<^verbatim>\<open>src/spsc-ring.c\<close>: the ring buffer through which the sampling thread and the
  application threads send pages to the policy thread. Ring handles are never null (the only
  constructor asserts that), so a handle is the ring itself; \<open>buffer\<close> maps an index to the pointer
  stored there, and the invariant \<open>ring_ok\<close> keeps every index that is used below \<open>capacity\<close>.
  One slot always stays free: a ring of capacity \<open>c\<close> holds at most \<open>c - 1\<close> entries.
\<close>

section \<open>The operations\<close>

record ring_buf_t =
  buffer :: "u64 \<Rightarrow> ptr"
  head :: u64
  tail :: u64
  capacity :: u64

definition ring_buf_full :: "ring_buf_t \<Rightarrow> bool" where
  "ring_buf_full rbuf =
     (let h = head rbuf + 1;
          h = (if h = capacity rbuf then 0 else h)
      in h = tail rbuf)"

definition ring_buf_empty :: "ring_buf_t \<Rightarrow> bool" where
  "ring_buf_empty rbuf \<longleftrightarrow> \<not> ring_buf_full rbuf \<and> head rbuf = tail rbuf"

definition retreat_pointer :: "ring_buf_t \<Rightarrow> ring_buf_t" where
  "retreat_pointer rbuf =
     (let rbuf = rbuf\<lparr>tail := tail rbuf + 1\<rparr>
      in if tail rbuf = capacity rbuf then rbuf\<lparr>tail := 0\<rparr> else rbuf)"

definition advance_pointer :: "ring_buf_t \<Rightarrow> ring_buf_t" where
  "advance_pointer rbuf =
     (let rbuf = (if ring_buf_full rbuf
                  then let rbuf = rbuf\<lparr>tail := tail rbuf + 1\<rparr>
                       in if tail rbuf = capacity rbuf then rbuf\<lparr>tail := 0\<rparr> else rbuf
                  else rbuf);
          rbuf = rbuf\<lparr>head := head rbuf + 1\<rparr>
      in if head rbuf = capacity rbuf then rbuf\<lparr>head := 0\<rparr> else rbuf)"

definition ring_buf_reset :: "ring_buf_t \<Rightarrow> ring_buf_t" where
  "ring_buf_reset rbuf = rbuf\<lparr>head := 0, tail := 0\<rparr>"

text \<open>The storage (\<open>None\<close> for a null pointer), the size and whether \<^verbatim>\<open>malloc\<close> found memory.\<close>

definition ring_buf_init :: "(u64 \<Rightarrow> ptr) option \<Rightarrow> u64 \<Rightarrow> bool \<Rightarrow> ring_buf_t option" where
  "ring_buf_init buf sz malloc_ok = do {
     b \<leftarrow> buf;
     assert (sz \<noteq> 0);
     assert malloc_ok;
     let rbuf = ring_buf_reset \<lparr>buffer = b, head = 0, tail = 0, capacity = sz\<rparr>;
     assert (ring_buf_empty rbuf);
     Some rbuf
   }"

definition ring_buf_size :: "ring_buf_t \<Rightarrow> u64" where
  "ring_buf_size rbuf =
     (if \<not> ring_buf_full rbuf then
        (if head rbuf \<ge> tail rbuf then head rbuf - tail rbuf
         else capacity rbuf + head rbuf - tail rbuf)
      else capacity rbuf)"

definition ring_buf_capacity :: "ring_buf_t \<Rightarrow> u64" where
  "ring_buf_capacity rbuf = capacity rbuf"

definition ring_buf_put :: "ptr \<Rightarrow> ring_buf_t \<Rightarrow> ring_buf_t" where
  "ring_buf_put data rbuf =
     advance_pointer (rbuf\<lparr>buffer := (buffer rbuf)(head rbuf := data)\<rparr>)"

definition ring_buf_put2 :: "ptr \<Rightarrow> ring_buf_t \<Rightarrow> int \<times> ring_buf_t" where
  "ring_buf_put2 data rbuf =
     (if \<not> ring_buf_full rbuf
      then (0, advance_pointer (rbuf\<lparr>buffer := (buffer rbuf)(head rbuf := data)\<rparr>))
      else (- 1, rbuf))"

definition ring_buf_get :: "ring_buf_t \<Rightarrow> ptr \<times> ring_buf_t" where
  "ring_buf_get rbuf =
     (if \<not> ring_buf_empty rbuf then (buffer rbuf (tail rbuf), retreat_pointer rbuf)
      else (NULL, rbuf))"

section \<open>The contents of a ring\<close>

definition ring_ok :: "ring_buf_t \<Rightarrow> bool" where
  "ring_ok r \<longleftrightarrow> 2 \<le> unat (capacity r) \<and> head r < capacity r \<and> tail r < capacity r"

definition ring_count :: "ring_buf_t \<Rightarrow> nat" where
  "ring_count r = (unat (head r) + unat (capacity r) - unat (tail r)) mod unat (capacity r)"

definition cells :: "(u64 \<Rightarrow> ptr) \<Rightarrow> nat \<Rightarrow> nat \<Rightarrow> nat \<Rightarrow> ptr list" where
  "cells b c t n = map (\<lambda>i. b (of_nat ((t + i) mod c))) [0..<n]"

definition ring_list :: "ring_buf_t \<Rightarrow> ptr list" where
  "ring_list r = cells (buffer r) (unat (capacity r)) (unat (tail r)) (ring_count r)"

definition next_index :: "u64 \<Rightarrow> u64 \<Rightarrow> u64" where
  "next_index c i = (if i + 1 = c then 0 else i + 1)"

lemma unat_next_index:
  assumes "i < c"
  shows "unat (next_index c i) = (unat i + 1) mod unat c" and "next_index c i < c"
proof -
  have lt: "unat i < unat c"
    using assms by (simp add: word_less_nat_alt)
  then have s: "unat (i + 1) = unat i + 1"
    using assms by (simp add: unat_plus_1)
  have eq: "i + 1 = c \<longleftrightarrow> unat i + 1 = unat c"
    using s by (metis word_unat_eq_iff)
  show *: "unat (next_index c i) = (unat i + 1) mod unat c"
    using lt by (auto simp: next_index_def s eq)
  show "next_index c i < c"
    using lt by (simp add: word_less_nat_alt *)
qed

lemma ring_pointer_simps:
  "ring_buf_full r \<longleftrightarrow> next_index (capacity r) (head r) = tail r"
  "retreat_pointer r = r\<lparr>tail := next_index (capacity r) (tail r)\<rparr>"
  "advance_pointer r =
    (if ring_buf_full r then r\<lparr>tail := next_index (capacity r) (tail r),
       head := next_index (capacity r) (head r)\<rparr> else r\<lparr>head := next_index (capacity r) (head r)\<rparr>)"
  by (simp_all add: ring_buf_full_def retreat_pointer_def advance_pointer_def next_index_def Let_def)

lemma cells_snoc: "cells b c t (Suc n) = cells b c t n @ [b (of_nat ((t + n) mod c))]"
  by (simp add: cells_def)

lemma cells_Cons:
  assumes "t < c"
  shows "cells b c t (Suc n) = b (of_nat t) # cells b c ((t + 1) mod c) n"
proof -
  have "((t + 1) mod c + i) mod c = (t + Suc i) mod c" for i
    by (simp add: mod_add_left_eq)
  with assms show ?thesis
    by (simp add: cells_def map_upt_Suc del: upt_Suc)
qed

lemma cells_upd:
  assumes "n < c" and "c < 2 ^ 64"
  shows "cells (b(of_nat ((t + n) mod c) := v)) c t n = cells b c t n"
proof -
  have "(of_nat ((t + i) mod c) :: u64) \<noteq> of_nat ((t + n) mod c)" if i: "i < n" for i
  proof
    assume *: "(of_nat ((t + i) mod c) :: u64) = of_nat ((t + n) mod c)"
    have lt: "(t + k) mod c < 2 ^ LENGTH(64)" for k
      using assms by (intro order_less_trans [OF mod_less_divisor]) auto
    from * have "(t + i) mod c = (t + n) mod c"
      using of_nat_word_inj [where 'a = 64, OF lt lt] by simp
    then have "c dvd n - i"
      using i mod_eq_dvd_iff_nat [of "t + i" "t + n" c] by simp
    with i assms show False
      by (auto dest: dvd_imp_le)
  qed
  then show ?thesis
    by (simp add: cells_def)
qed

text \<open>Distances on a circle of \<open>c\<close> positions.\<close>

lemma circle_distance:
  fixes h t c :: nat
  assumes "h < c" and "t < c"
  shows "(h + c - t) mod c = (if t \<le> h then h - t else h + c - t)"
    and "h = (t + (h + c - t) mod c) mod c"
proof -
  show *: "(h + c - t) mod c = (if t \<le> h then h - t else h + c - t)"
  proof (cases "t \<le> h")
    case True
    then have "h + c - t = (h - t) + c" by simp
    then have "(h + c - t) mod c = (h - t) mod c"
      by (metis mod_add_self2)
    with True assms show ?thesis by simp
  qed (use assms in simp)
  show "h = (t + (h + c - t) mod c) mod c"
    unfolding * using assms by simp
qed

lemma circle_step:
  fixes h t c :: nat
  assumes "h < c" and "t < c"
  shows "(h + 1) mod c = t \<longleftrightarrow> (h + c - t) mod c + 1 = c"
    and "(h + 1) mod c \<noteq> t \<Longrightarrow> ((h + 1) mod c + c - t) mod c = (h + c - t) mod c + 1"
    and "h \<noteq> t \<Longrightarrow> (h + c - (t + 1) mod c) mod c + 1 = (h + c - t) mod c"
proof -
  have c: "0 < c" using assms by simp
  have h: "(h + 1) mod c = (if h + 1 = c then 0 else h + 1)" "(h + 1) mod c < c"
    "(t + 1) mod c = (if t + 1 = c then 0 else t + 1)" "(t + 1) mod c < c"
    using assms by auto
  note d = circle_distance(1) [OF assms] circle_distance(1) [OF h(2) assms(2)]
    circle_distance(1) [OF assms(1) h(4)]
  show "(h + 1) mod c = t \<longleftrightarrow> (h + c - t) mod c + 1 = c"
    unfolding d(1) h(1) using assms by auto
  show "((h + 1) mod c + c - t) mod c = (h + c - t) mod c + 1" if "(h + 1) mod c \<noteq> t"
    using that assms unfolding d(1,2) unfolding h(1) by auto
  show "(h + c - (t + 1) mod c) mod c + 1 = (h + c - t) mod c" if "h \<noteq> t"
    using that assms unfolding d(1,3) unfolding h(3) by auto
qed

lemma ring_okD:
  assumes "ring_ok r"
  shows "2 \<le> unat (capacity r)" and "unat (head r) < unat (capacity r)"
    and "unat (tail r) < unat (capacity r)" and "head r < capacity r" and "tail r < capacity r"
    and "unat (capacity r) < 2 ^ 64" and "ring_count r < unat (capacity r)"
  using assms unat_less_power [of "capacity r"]
  by (auto simp: ring_ok_def word_less_nat_alt ring_count_def)

lemma ring_head:
  assumes "ring_ok r"
  shows "head r = of_nat ((unat (tail r) + ring_count r) mod unat (capacity r))"
  unfolding ring_count_def circle_distance(2) [OF ring_okD(2,3), OF assms assms, symmetric] by simp

lemma ring_full_iff:
  assumes "ring_ok r"
  shows "ring_buf_full r \<longleftrightarrow> ring_count r + 1 = unat (capacity r)"
  using circle_step(1) [OF ring_okD(2,3), OF assms assms] unat_next_index(1) [OF ring_okD(4) [OF assms]]
  by (simp add: ring_pointer_simps ring_count_def word_unat_eq_iff)

lemma ring_empty_iff:
  assumes "ring_ok r"
  shows "ring_buf_empty r \<longleftrightarrow> ring_count r = 0"
  using ring_full_iff [OF assms] ring_okD(1,2,3) [OF assms] circle_distance(1) [OF ring_okD(2,3), OF assms assms]
  by (auto simp: ring_buf_empty_def ring_count_def word_unat_eq_iff)

section \<open>The operations on the contents\<close>

lemma ring_list_length: "length (ring_list r) = ring_count r"
  by (simp add: ring_list_def cells_def)

lemma ring_list_full:
  "ring_ok r \<Longrightarrow> ring_buf_full r \<longleftrightarrow> length (ring_list r) + 1 = unat (capacity r)"
  by (simp add: ring_full_iff ring_list_length)

lemma ring_list_empty: "ring_ok r \<Longrightarrow> ring_buf_empty r \<longleftrightarrow> ring_list r = []"
  by (simp add: ring_empty_iff flip: ring_list_length)

lemma ring_get_law:
  assumes ok: "ring_ok r" and xs: "ring_list r = x # xs"
  shows "fst (ring_buf_get r) = x" and "ring_ok (snd (ring_buf_get r))"
    and "ring_list (snd (ring_buf_get r)) = xs" and "capacity (snd (ring_buf_get r)) = capacity r"
proof -
  note d = ring_okD [OF ok] and nx = unat_next_index [OF ring_okD(5) [OF ok]]
  obtain n where n: "ring_count r = Suc n"
    using xs ring_list_length [of r] by (metis length_Cons)
  have ne: "unat (head r) \<noteq> unat (tail r)"
  proof
    assume "unat (head r) = unat (tail r)"
    then have "ring_count r = 0" by (simp add: ring_count_def)
    with n show False by simp
  qed
  let ?r = "r\<lparr>tail := next_index (capacity r) (tail r)\<rparr>"
  have get: "ring_buf_get r = (buffer r (tail r), ?r)"
    using ring_list_empty [OF ok] xs by (simp add: ring_buf_get_def ring_pointer_simps)
  have "ring_count ?r = n"
    using circle_step(3) [OF d(2,3) ne] n by (simp add: ring_count_def nx)
  then have "ring_list r = buffer r (tail r) # ring_list ?r"
    by (simp add: ring_list_def n cells_Cons [OF d(3)] nx)
  with xs get show "fst (ring_buf_get r) = x" "ring_list (snd (ring_buf_get r)) = xs"
    by auto
  show "ring_ok (snd (ring_buf_get r))" "capacity (snd (ring_buf_get r)) = capacity r"
    using ok nx(2) by (simp_all add: get ring_ok_def)
qed

lemma ring_get_empty: "ring_ok r \<Longrightarrow> ring_list r = [] \<Longrightarrow> ring_buf_get r = (NULL, r)"
  by (simp add: ring_buf_get_def ring_list_empty)

lemma ring_put_law:
  assumes ok: "ring_ok r" and room: "\<not> ring_buf_full r"
  shows "ring_ok (ring_buf_put d r)" and "ring_list (ring_buf_put d r) = ring_list r @ [d]"
    and "capacity (ring_buf_put d r) = capacity r"
proof -
  note o = ring_okD [OF ok] and nx = unat_next_index [OF ring_okD(4) [OF ok]]
  let ?b = "(buffer r)(head r := d)"
  have put: "ring_buf_put d r = r\<lparr>buffer := ?b, head := next_index (capacity r) (head r)\<rparr>"
    using room by (simp add: ring_buf_put_def ring_pointer_simps)
  have "(unat (head r) + 1) mod unat (capacity r) \<noteq> unat (tail r)"
    using room circle_step(1) [OF o(2,3)] by (simp add: ring_full_iff [OF ok] ring_count_def)
  then have "ring_count (ring_buf_put d r) = Suc (ring_count r)"
    using circle_step(2) [OF o(2,3)] by (simp add: put ring_count_def nx)
  then show "ring_list (ring_buf_put d r) = ring_list r @ [d]"
    using cells_upd [OF o(7,6), of "buffer r" "unat (tail r)" d]
    by (simp add: put ring_list_def cells_snoc ring_head [OF ok, symmetric])
  show "ring_ok (ring_buf_put d r)" "capacity (ring_buf_put d r) = capacity r"
    using ok nx(2) by (simp_all add: put ring_ok_def)
qed

text \<open>On a full ring \<^verbatim>\<open>ring_buf_put\<close> overwrites: the oldest entry is lost.\<close>

lemma ring_put_full:
  assumes ok: "ring_ok r" and full: "ring_buf_full r"
  shows "ring_buf_put d r = ring_buf_put d (snd (ring_buf_get r))"
    and "\<not> ring_buf_full (snd (ring_buf_get r))" and "ring_list r \<noteq> []"
proof -
  note o = ring_okD [OF ok] and nx = unat_next_index [OF ring_okD(5) [OF ok]]
  let ?r = "r\<lparr>tail := next_index (capacity r) (tail r)\<rparr>"
  show ne: "ring_list r \<noteq> []"
    using o(1) full by (auto simp: ring_list_full [OF ok])
  then have get: "snd (ring_buf_get r) = ?r"
    using ring_list_empty [OF ok] by (simp add: ring_buf_get_def ring_pointer_simps)
  have "(unat (tail r) + 1) mod unat (capacity r) \<noteq> unat (tail r)"
    using o(1,3) by (cases "unat (tail r) + 1 = unat (capacity r)") auto
  then have "next_index (capacity r) (tail r) \<noteq> tail r"
    by (metis nx(1))
  with full show "\<not> ring_buf_full (snd (ring_buf_get r))"
    and "ring_buf_put d r = ring_buf_put d (snd (ring_buf_get r))"
    unfolding get by (auto simp: ring_buf_put_def ring_pointer_simps)
qed

lemma ring_put_overwrites:
  assumes ok: "ring_ok r" and full: "ring_buf_full r"
  shows "ring_ok (ring_buf_put d r)" and "ring_list (ring_buf_put d r) = tl (ring_list r) @ [d]"
    and "capacity (ring_buf_put d r) = capacity r"
proof -
  obtain x xs where "ring_list r = x # xs"
    using ring_put_full(3) [OF assms] by (cases "ring_list r") auto
  with ring_get_law [OF ok] ring_put_law [OF _ ring_put_full(2) [OF assms]]
  show "ring_ok (ring_buf_put d r)" "ring_list (ring_buf_put d r) = tl (ring_list r) @ [d]"
    "capacity (ring_buf_put d r) = capacity r"
    unfolding ring_put_full(1) [OF assms] by simp_all
qed

lemma ring_put2_cases:
  "ring_buf_put2 d r = (if ring_buf_full r then (- 1, r) else (0, ring_buf_put d r))"
  by (simp add: ring_buf_put2_def ring_buf_put_def)

lemma ring_init_law:
  assumes "2 \<le> unat n"
  shows "\<exists>r. ring_buf_init (Some b) n True = Some r \<and> ring_ok r \<and> ring_list r = [] \<and> capacity r = n"
proof -
  let ?r = "\<lparr>buffer = b, head = 0, tail = 0, capacity = n\<rparr>"
  have n: "n \<noteq> 0" "n \<noteq> 1"
    using assms by auto
  then have ok: "ring_ok ?r"
    using assms by (simp add: ring_ok_def word_neq_0_conv)
  moreover have "ring_count ?r = 0"
    by (simp add: ring_count_def)
  ultimately have "ring_buf_empty ?r" "ring_list ?r = []"
    by (simp_all add: ring_empty_iff flip: ring_list_empty)
  with ok n show ?thesis
    by (simp add: ring_buf_init_def ring_buf_reset_def Let_def)
qed

section \<open>Sequences of operations\<close>

text \<open>
  The contract of the two operations, and what follows for sequences of them, each operation as a whole;
  \<open>run_ring\<close> returns what the gets of a sequence have received. How the accesses of a producer and a consumer interleave is the
  subject of \<open>Ring_Threads\<close>.
\<close>

datatype 'e ring_step = Produce 'e | Consume

fun run_ring :: "('e \<Rightarrow> 'r \<Rightarrow> 'r) \<Rightarrow> ('r \<Rightarrow> 'e \<times> 'r) \<Rightarrow> ('r \<Rightarrow> bool) \<Rightarrow> 'e ring_step list \<Rightarrow> 'r \<Rightarrow> 'e list \<times> 'r" where
  "run_ring put get emp [] r = ([], r)"
| "run_ring put get emp (Produce d # ss) r = run_ring put get emp ss (put d r)"
| "run_ring put get emp (Consume # ss) r =
     (if emp r then run_ring put get emp ss r
      else let (x, r) = get r; (xs, r) = run_ring put get emp ss r in (x # xs, r))"

fun produced :: "'e ring_step list \<Rightarrow> 'e list" where
  "produced [] = []"
| "produced (Produce d # ss) = d # produced ss"
| "produced (Consume # ss) = produced ss"

locale overwriting_queue =
  fixes put :: "'e \<Rightarrow> 'r \<Rightarrow> 'r"
    and get :: "'r \<Rightarrow> 'e \<times> 'r"
    and emp :: "'r \<Rightarrow> bool"
    and contents :: "'r \<Rightarrow> 'e list"
    and cap :: "'r \<Rightarrow> nat"
    and invar :: "'r \<Rightarrow> bool"
  assumes emp_iff: "invar r \<Longrightarrow> emp r \<longleftrightarrow> contents r = []"
    and get_law: "invar r \<Longrightarrow> contents r = x # xs \<Longrightarrow>
      fst (get r) = x \<and> invar (snd (get r)) \<and> contents (snd (get r)) = xs \<and> cap (snd (get r)) = cap r"
    and put_law: "invar r \<Longrightarrow> invar (put d r) \<and> cap (put d r) = cap r \<and>
      contents (put d r) = (if length (contents r) < cap r then contents r else tl (contents r)) @ [d]"
    and cap_law: "invar r \<Longrightarrow> length (contents r) \<le> cap r \<and> 0 < cap r"
begin

lemma run_induct [consumes 1, case_names Nil Put Idle Get]:
  assumes "invar r"
    and "\<And>r. invar r \<Longrightarrow> P [] r"
    and "\<And>d ss r. invar r \<Longrightarrow> invar (put d r) \<Longrightarrow> P ss (put d r) \<Longrightarrow> P (Produce d # ss) r"
    and "\<And>ss r. invar r \<Longrightarrow> contents r = [] \<Longrightarrow> P ss r \<Longrightarrow> P (Consume # ss) r"
    and "\<And>ss r x xs. invar r \<Longrightarrow> contents r = x # xs \<Longrightarrow> P ss (snd (get r)) \<Longrightarrow> P (Consume # ss) r"
  shows "P ss r"
  using assms(1)
proof (induction ss arbitrary: r)
  case (Cons s ss)
  show ?case
  proof (cases s)
    case (Produce d)
    with Cons put_law [of r d] show ?thesis by (simp add: assms(3))
  next
    case Consume
    with Cons get_law [of r] show ?thesis
      by (cases "contents r") (simp_all add: assms(4,5))
  qed
qed (rule assms(2))

lemma run_Consume:
  "invar r \<Longrightarrow> contents r = [] \<Longrightarrow> run_ring put get emp (Consume # ss) r = run_ring put get emp ss r"
  "invar r \<Longrightarrow> contents r = x # xs \<Longrightarrow> run_ring put get emp (Consume # ss) r =
     (x # fst (run_ring put get emp ss (snd (get r))), snd (run_ring put get emp ss (snd (get r))))"
  using get_law [of r x xs] by (simp_all add: emp_iff case_prod_beta Let_def)

lemma run_invar:
  "invar r \<Longrightarrow> invar (snd (run_ring put get emp ss r)) \<and> cap (snd (run_ring put get emp ss r)) = cap r"
  by (induction ss r rule: run_induct) (simp_all add: run_Consume get_law put_law del: run_ring.simps(3))

text \<open>The consumer never sees an entry twice or out of order, whatever the order of the operations.\<close>

lemma run_subseq:
  "invar r \<Longrightarrow> subseq (fst (run_ring put get emp ss r) @ contents (snd (run_ring put get emp ss r)))
     (contents r @ produced ss)"
proof (induction ss r rule: run_induct)
  case (Put d ss r)
  have "subseq (contents (put d r)) (contents r @ [d])"
    using put_law [OF Put(1), of d] by (cases "contents r") auto
  then have "subseq (contents (put d r) @ produced ss) ((contents r @ [d]) @ produced ss)"
    by (rule list_emb_append_mono) simp
  with Put.IH show ?case
    by (auto intro: subseq_order.trans)
qed (simp_all add: run_Consume get_law del: run_ring.simps(3))

text \<open>Nothing is lost while the entries produced fit into the ring.\<close>

lemma run_lossless:
  "invar r \<Longrightarrow> length (contents r) + length (produced ss) \<le> cap r \<Longrightarrow>
     fst (run_ring put get emp ss r) @ contents (snd (run_ring put get emp ss r)) =
     contents r @ produced ss"
  by (induction ss r rule: run_induct)
    (simp_all add: run_Consume get_law put_law del: run_ring.simps(3))

end

interpretation ring: overwriting_queue ring_buf_put ring_buf_get ring_buf_empty ring_list
  "\<lambda>r. unat (capacity r) - 1" ring_ok
proof unfold_locales
  fix r d assume ok: "ring_ok r"
  note o = ring_okD [OF ok]
  show "ring_ok (ring_buf_put d r) \<and> unat (capacity (ring_buf_put d r)) - 1 = unat (capacity r) - 1 \<and>
    ring_list (ring_buf_put d r) =
      (if length (ring_list r) < unat (capacity r) - 1 then ring_list r else tl (ring_list r)) @ [d]"
    using ring_put_law [OF ok, of d] ring_put_overwrites [OF ok, of d] ring_list_full [OF ok] o(7)
    by (cases "ring_buf_full r") (auto simp: ring_list_length)
  show "length (ring_list r) \<le> unat (capacity r) - 1 \<and> 0 < unat (capacity r) - 1"
    using o(1,7) by (simp add: ring_list_length)
qed (simp_all add: ring_list_empty ring_get_law)

section \<open>Properties\<close>

text \<open>A ring of capacity 4, with room for three entries.\<close>

definition ring4 :: ring_buf_t where
  "ring4 = \<lparr>buffer = (\<lambda>_. 0), head = 0, tail = 0, capacity = 4\<rparr>"

lemma ring4_ok: "ring_ok ring4" "ring_list ring4 = []" "capacity ring4 = 4"
  by (simp_all add: ring4_def ring_ok_def ring_list_def ring_count_def cells_def)

text \<open>
  C17: as long as the entries sent fit into the free slots of the ring, no sequence of whole puts and gets loses one:
  what the gets return followed by the ring's contents is exactly what was there followed by what
  was sent.
\<close>

theorem ring_no_loss:
  assumes "ring_ok r" and "length (ring_list r) + length (produced sched) < unat (capacity r)"
    and "run_ring ring_buf_put ring_buf_get ring_buf_empty sched r = (out, r')"
  shows "out @ ring_list r' = ring_list r @ produced sched"
  using ring.run_lossless [OF assms(1), of sched] assms(2,3) by simp

theorem ring_no_loss_witness:
  "\<exists>out r'. run_ring ring_buf_put ring_buf_get ring_buf_empty
       [Produce 1, Consume, Consume, Produce 2] ring4 = (out, r') \<and> out @ ring_list r' = [1, 2]"
proof -
  let ?run = "run_ring ring_buf_put ring_buf_get ring_buf_empty [Produce 1, Consume, Consume, Produce 2] ring4"
  obtain out r' where r: "?run = (out, r')" by fastforce
  have "out @ ring_list r' = ring_list ring4 @ produced [Produce 1, Consume, Consume, Produce 2]"
    by (rule ring_no_loss [OF ring4_ok(1) _ r]) (simp add: ring4_ok)
  with r show ?thesis
    by (simp add: ring4_ok)
qed

end
