(* ===== verification/Ring_Threads.thy ===== *)
theory Ring_Threads
  imports Spsc_Ring
begin

text \<open>
  \<^verbatim>\<open>src/spsc-ring.c\<close> takes no lock: one producer and one consumer work on the same ring, and
  their loads and stores may interleave at any point. Here a step is one access to the shared memory
  (sequentially consistent, in the order of the source); \<^verbatim>\<open>head\<close> and \<^verbatim>\<open>tail\<close> are seen at
  \<^verbatim>\<open>capacity\<close> between the increment and the reset, exactly as the code leaves them.
\<close>

section \<open>The two threads\<close>

text \<open>
  The producer sends the entries of a list. \<open>P_Wait\<close> is the loop
  \<^verbatim>\<open>while (ring_buf_full(free_page_ring));\<close> of \<^verbatim>\<open>pebs_remove_page\<close>, which the other
  callers of \<^verbatim>\<open>ring_buf_put\<close> do not have; \<open>P_Store\<close> writes the slot; the rest is
  \<^verbatim>\<open>advance_pointer\<close>: \<open>P_Full\<close> loads the tail for \<^verbatim>\<open>ring_buf_full\<close>, \<open>P_Tail\<close> and
  \<open>P_Tail_Wrap\<close> push the tail of a full ring, \<open>P_Head\<close> and \<open>P_Head_Wrap\<close> move the head.
\<close>

datatype producer_pc = P_Idle | P_Wait ptr | P_Store ptr | P_Full ptr | P_Tail ptr | P_Tail_Wrap ptr | P_Head ptr | P_Head_Wrap

text \<open>
  The consumer is \<^verbatim>\<open>ring_buf_get\<close>: \<open>C_Full\<close> and \<open>C_Empty\<close> are the two loads of the head in
  \<^verbatim>\<open>ring_buf_empty\<close>, \<open>C_Load\<close> reads the slot, \<open>C_Tail\<close> and \<open>C_Tail_Wrap\<close> are
  \<^verbatim>\<open>retreat_pointer\<close>.
\<close>

datatype consumer_pc = C_Full | C_Empty | C_Load | C_Tail ptr | C_Tail_Wrap ptr

record ring_threads =
  ring :: ring_buf_t
  producer :: producer_pc
  consumer :: consumer_pc
  to_send :: "ptr list"
  got :: "ptr list"

definition producer_turn :: "bool \<Rightarrow> ring_threads \<Rightarrow> ring_threads" where
  "producer_turn waits s =
     (let r = ring s in
      case producer s of
        P_Idle \<Rightarrow> (case to_send s of
            [] \<Rightarrow> s
          | d # ds \<Rightarrow> s\<lparr>to_send := ds, producer := (if waits then P_Wait d else P_Store d)\<rparr>)
      | P_Wait d \<Rightarrow> (if ring_buf_full r then s else s\<lparr>producer := P_Store d\<rparr>)
      | P_Store d \<Rightarrow> s\<lparr>ring := r\<lparr>buffer := (buffer r)(head r := d)\<rparr>, producer := P_Full d\<rparr>
      | P_Full d \<Rightarrow> s\<lparr>producer := (if ring_buf_full r then P_Tail d else P_Head d)\<rparr>
      | P_Tail d \<Rightarrow> s\<lparr>ring := r\<lparr>tail := tail r + 1\<rparr>, producer := P_Tail_Wrap d\<rparr>
      | P_Tail_Wrap d \<Rightarrow> s\<lparr>ring := (if tail r = capacity r then r\<lparr>tail := 0\<rparr> else r), producer := P_Head d\<rparr>
      | P_Head d \<Rightarrow> s\<lparr>ring := r\<lparr>head := head r + 1\<rparr>, producer := P_Head_Wrap\<rparr>
      | P_Head_Wrap \<Rightarrow> s\<lparr>ring := (if head r = capacity r then r\<lparr>head := 0\<rparr> else r), producer := P_Idle\<rparr>)"

definition consumer_turn :: "ring_threads \<Rightarrow> ring_threads" where
  "consumer_turn s =
     (let r = ring s in
      case consumer s of
        C_Full \<Rightarrow> s\<lparr>consumer := (if ring_buf_full r then C_Load else C_Empty)\<rparr>
      | C_Empty \<Rightarrow> s\<lparr>consumer := (if head r = tail r then C_Full else C_Load)\<rparr>
      | C_Load \<Rightarrow> s\<lparr>consumer := C_Tail (buffer r (tail r))\<rparr>
      | C_Tail x \<Rightarrow> s\<lparr>ring := r\<lparr>tail := tail r + 1\<rparr>, consumer := C_Tail_Wrap x\<rparr>
      | C_Tail_Wrap x \<Rightarrow> s\<lparr>ring := (if tail r = capacity r then r\<lparr>tail := 0\<rparr> else r), consumer := C_Full,
          got := got s @ [x]\<rparr>)"

text \<open>A schedule says which thread makes the next access: \<open>True\<close> is the producer.\<close>

fun ring_run :: "bool \<Rightarrow> bool list \<Rightarrow> ring_threads \<Rightarrow> ring_threads" where
  "ring_run waits [] s = s"
| "ring_run waits (p # ps) s = ring_run waits ps (if p then producer_turn waits s else consumer_turn s)"

definition ring_start :: "ring_buf_t \<Rightarrow> ptr list \<Rightarrow> ring_threads" where
  "ring_start r ds = \<lparr>ring = r, producer = P_Idle, consumer = C_Full, to_send = ds, got = []\<rparr>"

text \<open>Neither thread is in the middle of an operation.\<close>

definition at_rest :: "ring_threads \<Rightarrow> bool" where
  "at_rest s \<longleftrightarrow> producer s = P_Idle \<and> consumer s = C_Full"

text \<open>
  A schedule that never lets the other thread in between the increment of a pointer to
  \<^verbatim>\<open>capacity\<close> and its reset to 0. Nothing in the code enforces this.
\<close>

definition wrapping :: "bool \<Rightarrow> ring_threads \<Rightarrow> bool" where
  "wrapping p s \<longleftrightarrow> (if p then producer s = P_Head_Wrap \<and> head (ring s) = capacity (ring s)
     else (\<exists>x. consumer s = C_Tail_Wrap x) \<and> tail (ring s) = capacity (ring s))"

fun wraps_whole :: "bool \<Rightarrow> bool list \<Rightarrow> ring_threads \<Rightarrow> bool" where
  "wraps_whole waits [] s = True"
| "wraps_whole waits (p # ps) s = (\<not> wrapping (\<not> p) s \<and>
     wraps_whole waits ps (if p then producer_turn waits s else consumer_turn s))"

section \<open>The invariant\<close>

text \<open>The ring as it is once a pending wrap-around is done.\<close>

definition settled_ring :: "ring_buf_t \<Rightarrow> ring_buf_t" where
  "settled_ring r = r\<lparr>head := (if head r = capacity r then 0 else head r),
     tail := (if tail r = capacity r then 0 else tail r)\<rparr>"

fun sending :: "producer_pc \<Rightarrow> ptr list" where
  "sending (P_Wait d) = [d]"
| "sending (P_Store d) = [d]"
| "sending (P_Full d) = [d]"
| "sending (P_Head d) = [d]"
| "sending _ = []"

fun receiving :: "consumer_pc \<Rightarrow> ptr list" where
  "receiving (C_Tail_Wrap x) = [x]"
| "receiving _ = []"

fun producer_ok :: "bool \<Rightarrow> producer_pc \<Rightarrow> ring_buf_t \<Rightarrow> bool" where
  "producer_ok waits P_Idle r \<longleftrightarrow> head r < capacity r"
| "producer_ok waits (P_Wait d) r \<longleftrightarrow> waits \<and> head r < capacity r"
| "producer_ok waits (P_Store d) r \<longleftrightarrow> head r < capacity r \<and> \<not> ring_buf_full (settled_ring r)"
| "producer_ok waits (P_Full d) r \<longleftrightarrow> head r < capacity r \<and> \<not> ring_buf_full (settled_ring r) \<and> buffer r (head r) = d"
| "producer_ok waits (P_Head d) r \<longleftrightarrow> head r < capacity r \<and> \<not> ring_buf_full (settled_ring r) \<and> buffer r (head r) = d"
| "producer_ok waits P_Head_Wrap r \<longleftrightarrow> head r \<le> capacity r"
| "producer_ok waits (P_Tail d) r \<longleftrightarrow> False"
| "producer_ok waits (P_Tail_Wrap d) r \<longleftrightarrow> False"

fun consumer_ok :: "consumer_pc \<Rightarrow> ring_buf_t \<Rightarrow> bool" where
  "consumer_ok C_Full r \<longleftrightarrow> tail r < capacity r"
| "consumer_ok C_Empty r \<longleftrightarrow> tail r < capacity r"
| "consumer_ok C_Load r \<longleftrightarrow> tail r < capacity r \<and> ring_list (settled_ring r) \<noteq> []"
| "consumer_ok (C_Tail x) r \<longleftrightarrow> tail r < capacity r \<and> ring_list (settled_ring r) \<noteq> [] \<and> buffer r (tail r) = x"
| "consumer_ok (C_Tail_Wrap x) r \<longleftrightarrow> tail r \<le> capacity r"

definition underway :: "bool \<Rightarrow> ptr list \<Rightarrow> ring_threads \<Rightarrow> bool" where
  "underway waits all s \<longleftrightarrow> ring_ok (settled_ring (ring s)) \<and>
     producer_ok waits (producer s) (ring s) \<and> consumer_ok (consumer s) (ring s) \<and>
     got s @ receiving (consumer s) @ ring_list (settled_ring (ring s)) @ sending (producer s) @ to_send s = all \<and>
     (waits \<or> length (ring_list (settled_ring (ring s))) + length (sending (producer s)) + length (to_send s)
        < unat (capacity (ring s)))"

lemma settled_fields [simp]:
  "capacity (settled_ring r) = capacity r" "buffer (settled_ring r) = buffer r"
  "head r < capacity r \<Longrightarrow> head (settled_ring r) = head r" "tail r < capacity r \<Longrightarrow> tail (settled_ring r) = tail r"
  by (auto simp: settled_ring_def)

lemma settled_id: "head r < capacity r \<Longrightarrow> tail r < capacity r \<Longrightarrow> settled_ring r = r"
  by (auto simp: settled_ring_def)

lemma settled_wrap [simp]:
  "settled_ring (if head r = capacity r then r\<lparr>head := 0\<rparr> else r) = settled_ring r"
  "settled_ring (if tail r = capacity r then r\<lparr>tail := 0\<rparr> else r) = settled_ring r"
  by (auto simp: settled_ring_def)

lemma settled_head:
  assumes "head r < capacity r"
  shows "settled_ring (r\<lparr>head := head r + 1\<rparr>) = (settled_ring r)\<lparr>head := next_index (capacity r) (head r)\<rparr>"
  using assms by (auto simp: settled_ring_def next_index_def)

lemma settled_tail:
  assumes "tail r < capacity r"
  shows "settled_ring (r\<lparr>tail := tail r + 1\<rparr>) = (settled_ring r)\<lparr>tail := next_index (capacity r) (tail r)\<rparr>"
  using assms by (auto simp: settled_ring_def next_index_def)

text \<open>Writing the free slot is not seen; moving the head makes the entry part of the contents.\<close>

lemma store_hidden:
  assumes ok: "ring_ok r"
  shows "ring_list (r\<lparr>buffer := (buffer r)(head r := d)\<rparr>) = ring_list r"
proof -
  note o = ring_okD [OF ok]
  have "cells ((buffer r)(head r := d)) (unat (capacity r)) (unat (tail r)) (ring_count r) =
      cells (buffer r) (unat (capacity r)) (unat (tail r)) (ring_count r)"
    using cells_upd [OF o(7,6), of "buffer r" "unat (tail r)" d] by (simp add: ring_head [OF ok, symmetric])
  then show ?thesis
    by (simp add: ring_list_def ring_count_def)
qed

lemma head_publishes:
  assumes ok: "ring_ok r" and room: "\<not> ring_buf_full r" and b: "buffer r (head r) = d"
  shows "ring_ok (r\<lparr>head := next_index (capacity r) (head r)\<rparr>)"
    and "ring_list (r\<lparr>head := next_index (capacity r) (head r)\<rparr>) = ring_list r @ [d]"
proof -
  have "(buffer r)(head r := d) = buffer r"
    using b by auto
  then have "ring_buf_put d r = r\<lparr>head := next_index (capacity r) (head r)\<rparr>"
    using room by (simp add: ring_buf_put_def ring_pointer_simps)
  with ring_put_law [OF ok room, of d] show "ring_ok (r\<lparr>head := next_index (capacity r) (head r)\<rparr>)"
    "ring_list (r\<lparr>head := next_index (capacity r) (head r)\<rparr>) = ring_list r @ [d]"
    by simp_all
qed

lemma tail_consumes:
  assumes ok: "ring_ok r" and ne: "ring_list r \<noteq> []"
  shows "ring_ok (r\<lparr>tail := next_index (capacity r) (tail r)\<rparr>)"
    and "ring_list r = buffer r (tail r) # ring_list (r\<lparr>tail := next_index (capacity r) (tail r)\<rparr>)"
proof -
  obtain x xs where xs: "ring_list r = x # xs"
    using ne by (cases "ring_list r") auto
  have "\<not> ring_buf_empty r"
    using ring_list_empty [OF ok] xs by simp
  then have "ring_buf_get r = (buffer r (tail r), r\<lparr>tail := next_index (capacity r) (tail r)\<rparr>)"
    by (simp add: ring_buf_get_def ring_pointer_simps)
  with ring_get_law [OF ok xs] xs show "ring_ok (r\<lparr>tail := next_index (capacity r) (tail r)\<rparr>)"
    "ring_list r = buffer r (tail r) # ring_list (r\<lparr>tail := next_index (capacity r) (tail r)\<rparr>)"
    by simp_all
qed

lemma next_index_le: "i < c \<Longrightarrow> i + 1 \<le> c" for i c :: u64
  by (rule inc_le)

section \<open>Each access keeps it\<close>

lemma nonempty_apart:
  assumes "ring_ok r" and "ring_list r \<noteq> []"
  shows "head r \<noteq> tail r"
proof
  assume "head r = tail r"
  then have "ring_count r = 0"
    by (simp add: ring_count_def)
  with assms(2) show False
    by (simp flip: ring_list_length)
qed

lemma producer_turn_ok:
  assumes u: "underway waits all s" and w: "\<not> wrapping False s"
  shows "underway waits all (producer_turn waits s)"
proof -
  let ?r = "ring s"
  note u = u [unfolded underway_def]
  have ok: "ring_ok (settled_ring ?r)"
    using u by blast
  have tl: "tail ?r < capacity ?r"
    using u w by (cases "consumer s") (auto simp: wrapping_def)
  have rest: ?thesis if "producer s = P_Idle"
  proof (cases "to_send s")
    case Nil
    with that show ?thesis
      using u by (simp add: producer_turn_def underway_def)
  next
    case (Cons d ds)
    have "\<not> waits \<Longrightarrow> \<not> ring_buf_full (settled_ring ?r)"
      using u Cons by (simp add: ring_list_full [OF ok])
    with that Cons u show ?thesis
      by (auto simp: producer_turn_def underway_def)
  qed
  have store: ?thesis if p: "producer s = P_Store d" for d
  proof -
    have hd: "head ?r < capacity ?r"
      using u p by simp
    note s = settled_id [OF hd tl]
    let ?r' = "?r\<lparr>buffer := (buffer ?r)(head ?r := d)\<rparr>"
    have s': "settled_ring ?r' = ?r'"
      by (rule settled_id) (simp_all add: hd tl)
    have l: "ring_list ?r' = ring_list ?r" "ring_ok ?r'" "ring_buf_full ?r' = ring_buf_full ?r"
      using store_hidden [of ?r d] ok by (simp_all add: s ring_ok_def ring_pointer_simps)
    have "consumer_ok (consumer s) ?r'"
      using u nonempty_apart [of ?r] by (cases "consumer s") (auto simp: s s' l(1))
    with u p hd l show ?thesis
      by (simp add: producer_turn_def underway_def s s' Let_def)
  qed
  have publish: ?thesis if p: "producer s = P_Head d" for d
  proof -
    have h: "head ?r < capacity ?r" "\<not> ring_buf_full ?r" "buffer ?r (head ?r) = d" and k: "ring_ok ?r"
      and s: "settled_ring ?r = ?r"
      using u p tl ok by (auto simp: settled_id)
    let ?r' = "?r\<lparr>head := head ?r + 1\<rparr>"
    have s': "settled_ring ?r' = ?r\<lparr>head := next_index (capacity ?r) (head ?r)\<rparr>"
      using settled_head [OF h(1)] s by simp
    note b = head_publishes [OF k h(2,3)]
    have "consumer_ok (consumer s) ?r'"
      using u by (cases "consumer s") (auto simp: s s' b(2))
    moreover have "head ?r + 1 \<le> capacity ?r"
      by (rule next_index_le [OF h(1)])
    ultimately show ?thesis
      using u p b by (simp add: producer_turn_def underway_def s s' Let_def)
  qed
  show ?thesis
  proof (cases "producer s")
    case P_Head_Wrap
    have c: "head ?r \<le> capacity ?r" "0 < capacity ?r"
      using u P_Head_Wrap ring_okD(1) [OF ok] by (auto simp: word_less_nat_alt)
    then have "head (if head ?r = capacity ?r then ?r\<lparr>head := 0\<rparr> else ?r) < capacity ?r"
      by auto
    moreover have "consumer_ok (consumer s) (if head ?r = capacity ?r then ?r\<lparr>head := 0\<rparr> else ?r)"
      using u settled_wrap(1) [of ?r] by (cases "consumer s") auto
    ultimately show ?thesis
      using u c P_Head_Wrap by (auto simp: producer_turn_def underway_def Let_def)
  next
    case (P_Wait d)
    then show ?thesis
      using u settled_id [OF _ tl] by (simp add: producer_turn_def underway_def)
  next
    case (P_Full d)
    then show ?thesis
      using u settled_id [OF _ tl] by (auto simp: producer_turn_def underway_def)
  qed (use u rest store publish in auto)
qed

lemma consumer_turn_ok:
  assumes u: "underway waits all s" and w: "\<not> wrapping True s"
  shows "underway waits all (consumer_turn s)"
proof -
  let ?r = "ring s"
  note u = u [unfolded underway_def]
  have ok: "ring_ok (settled_ring ?r)"
    using u by blast
  have hd: "head ?r < capacity ?r"
    using u w by (cases "producer s") (auto simp: wrapping_def)
  note s = settled_id [OF hd]
  have take: ?thesis if c: "consumer s = C_Tail x" for x
  proof -
    have t: "tail ?r < capacity ?r" "ring_list ?r \<noteq> []" "buffer ?r (tail ?r) = x" and k: "ring_ok ?r" and s: "settled_ring ?r = ?r"
      using u c ok s by auto
    let ?r' = "?r\<lparr>tail := tail ?r + 1\<rparr>"
    have s': "settled_ring ?r' = ?r\<lparr>tail := next_index (capacity ?r) (tail ?r)\<rparr>"
      using settled_tail [OF t(1)] s by simp
    note b = tail_consumes [OF k t(2)]
    have "\<not> ring_buf_full (settled_ring ?r')"
      using ring_list_full [OF b(1)] b(2) ring_okD(7) [OF k] unfolding s' by (simp add: ring_list_length [symmetric])
    then have "producer_ok waits (producer s) ?r'"
      using u by (cases "producer s") auto
    moreover have "tail ?r + 1 \<le> capacity ?r"
      by (rule next_index_le [OF t(1)])
    moreover have "waits \<or> length (ring_list (settled_ring ?r')) + length (sending (producer s)) + length (to_send s) < unat (capacity ?r)"
      using u b(2) unfolding s s' by auto
    moreover have "got s @ x # ring_list (settled_ring ?r') @ sending (producer s) @ to_send s = all"
      using u b(2) t(3) c unfolding s s' by simp
    ultimately show ?thesis
      using u c b(1) by (simp add: consumer_turn_def underway_def s' Let_def)
  qed
  have test: ?thesis if c: "consumer s = C_Full"
  proof -
    have t: "tail ?r < capacity ?r" "settled_ring ?r = ?r"
      using u c s by auto
    have "ring_buf_full ?r \<Longrightarrow> ring_list ?r \<noteq> []"
      using ring_put_full(3) [of ?r] ok t(2) by simp
    with u c t show ?thesis
      by (simp add: consumer_turn_def underway_def Let_def)
  qed
  have test2: ?thesis if c: "consumer s = C_Empty"
  proof -
    have t: "tail ?r < capacity ?r" "settled_ring ?r = ?r"
      using u c s by auto
    have "head ?r \<noteq> tail ?r \<Longrightarrow> ring_list ?r \<noteq> []"
      using ring_list_empty [of ?r] ok t(2) by (auto simp: ring_buf_empty_def)
    with u c t show ?thesis
      by (simp add: consumer_turn_def underway_def Let_def)
  qed
  show ?thesis
  proof (cases "consumer s")
    case (C_Tail_Wrap x)
    have c: "tail ?r \<le> capacity ?r" "0 < capacity ?r"
      using u C_Tail_Wrap ring_okD(1) [OF ok] by (auto simp: word_less_nat_alt)
    then have "tail (if tail ?r = capacity ?r then ?r\<lparr>tail := 0\<rparr> else ?r) < capacity ?r"
      by auto
    moreover have "producer_ok waits (producer s) (if tail ?r = capacity ?r then ?r\<lparr>tail := 0\<rparr> else ?r)"
      using u settled_wrap(2) [of ?r] by (cases "producer s") auto
    ultimately show ?thesis
      using u c C_Tail_Wrap by (auto simp: consumer_turn_def underway_def Let_def)
  next
    case C_Load
    then show ?thesis
      using u s by (simp add: consumer_turn_def underway_def Let_def)
  qed (use take test test2 in auto)
qed

lemma ring_run_ok:
  "underway waits all s \<Longrightarrow> wraps_whole waits ps s \<Longrightarrow> underway waits all (ring_run waits ps s)"
  by (induction waits ps s rule: ring_run.induct) (auto simp: producer_turn_ok consumer_turn_ok split: if_splits)

lemma ring_start_ok:
  assumes "ring_ok r" and "waits \<or> length (ring_list r) + length ds < unat (capacity r)"
  shows "underway waits (ring_list r @ ds) (ring_start r ds)"
  using assms by (simp add: underway_def ring_start_def ring_ok_def settled_id)

section \<open>Properties\<close>

text \<open>A schedule for one entry through a ring, and a ring of capacity 4 whose head is in the last slot.\<close>

definition one_entry :: "bool \<Rightarrow> bool list" where
  "one_entry waits = (if waits then [True] else []) @ [True, True, True, True]"

definition ring4_last :: ring_buf_t where
  "ring4_last = \<lparr>buffer = (\<lambda>_. 9), head = 3, tail = 3, capacity = 4\<rparr>"

lemma ring4_last_ok: "ring_ok ring4_last" "ring_list ring4_last = []"
  by (simp_all add: ring4_last_def ring_ok_def ring_list_def ring_count_def cells_def)

lemma ring_empty_pointers:
  assumes "ring_ok r" and "ring_list r = []"
  shows "head r = tail r" and "\<not> ring_buf_full r"
  using ring_list_empty [OF assms(1)] assms(2) by (auto simp: ring_buf_empty_def)

text \<open>
  C16: one producer and one consumer share a ring without a lock. Their memory accesses interleave in any
  way, with two conditions: no access of the other thread falls between the increment of a pointer to
  \<^verbatim>\<open>capacity\<close> and its reset to 0, and either the producer waits while the ring is full (as
  \<^verbatim>\<open>pebs_remove_page\<close> does) or the entries fit into the ring. Then at every moment the consumer has
  received a prefix of what was in the ring followed by what is sent; and whenever neither is in the
  middle of an operation, what it received, what is in the ring and what is still to be sent make
  up exactly that: nothing is lost, duplicated, invented or reordered.
\<close>

theorem ring_interleaving:
  assumes "ring_ok r" and "waits \<or> length (ring_list r) + length ds < unat (capacity r)"
    and "wraps_whole waits sched (ring_start r ds)" and "s = ring_run waits sched (ring_start r ds)"
  shows "(\<exists>rest. ring_list r @ ds = got s @ rest) \<and>
    (at_rest s \<longrightarrow> ring_ok (ring s) \<and> got s @ ring_list (ring s) @ to_send s = ring_list r @ ds)"
proof -
  have u: "underway waits (ring_list r @ ds) s"
    unfolding assms(4) by (rule ring_run_ok [OF ring_start_ok [OF assms(1,2)] assms(3)])
  then have "\<exists>rest. ring_list r @ ds = got s @ rest"
    unfolding underway_def by metis
  moreover have "ring_ok (ring s) \<and> got s @ ring_list (ring s) @ to_send s = ring_list r @ ds" if "at_rest s"
  proof -
    have "settled_ring (ring s) = ring s"
      by (rule settled_id) (use u that in \<open>simp_all add: underway_def at_rest_def\<close>)
    then show ?thesis
      using u that by (simp add: underway_def at_rest_def)
  qed
  ultimately show ?thesis by blast
qed

theorem ring_interleaving_witness:
  "\<exists>s. s = ring_run False [True, True, False, True, True, True, False, False, False, False] (ring_start ring4_last [7]) \<and>
     got s = [7] \<and> at_rest s \<and> ring_list (ring s) = []"
proof -
  let ?sched = "[True, True, False, True, True, True, False, False, False, False]"
  let ?s = "ring_run False ?sched (ring_start ring4_last [7])"
  have w: "wraps_whole False ?sched (ring_start ring4_last [7])" "got ?s = [7]" "at_rest ?s" "to_send ?s = []"
    by (simp_all add: ring_start_def producer_turn_def consumer_turn_def wrapping_def at_rest_def ring4_last_def
        ring_pointer_simps next_index_def)
  have "False \<or> length (ring_list ring4_last) + length [7 :: ptr] < unat (capacity ring4_last)"
    by (simp add: ring4_last_ok) (simp add: ring4_last_def)
  from ring_interleaving [OF ring4_last_ok(1) this w(1) refl] w(2-4) show ?thesis
    by (simp add: ring4_last_ok(2))
qed

text \<open>
  Without the first condition the ring invents an entry. When the head of an empty ring is in the last slot and the
  producer has sent one entry but not yet reset the head, a consumer that takes the entry and looks
  again finds the head unequal to its own tail, and is given the stale contents of slot 0, which
  nobody sent.
\<close>

theorem ring_wrap_race:
  assumes "ring_ok r" and "ring_list r = []" and "head r + 1 = capacity r"
  shows "\<exists>sched. got (ring_run waits sched (ring_start r [d])) = [d, buffer r 0]"
proof -
  define h where "h = tail r"
  have e: "head r = h" "tail r = h" "capacity r = h + 1"
    using ring_empty_pointers(1) [OF assms(1,2)] assms(3) by (simp_all add: h_def)
  have h: "h \<noteq> 0" "h + 1 \<noteq> 0"
    using ring_okD(1,4) [OF assms(1)] by (auto simp: e)
  have far: "h + 1 + 1 \<noteq> h"
    by (simp add: add.assoc)
  let ?s = "\<lparr>ring = r\<lparr>buffer := (buffer r)(h := d), head := h + 1\<rparr>, producer = P_Head_Wrap, consumer = C_Full, to_send = [], got = []\<rparr>"
  have p: "ring_run waits (one_entry waits @ ps) (ring_start r [d]) = ring_run waits ps ?s" for ps
    using h by (simp add: one_entry_def ring_start_def producer_turn_def ring_pointer_simps next_index_def e Let_def)
  have "got (ring_run waits [False, False, False, False, False, False, False, False, False, False] ?s) = [d, buffer r 0]"
    using h far by (cases "h + 1 + 1 = 0") (simp_all add: consumer_turn_def ring_pointer_simps next_index_def e Let_def)
  then show ?thesis
    unfolding p [symmetric] by blast
qed

theorem ring_wrap_race_witness:
  "\<exists>sched. got (ring_run True sched (ring_start ring4_last [7])) = [7, 9]"
  using ring_wrap_race [OF ring4_last_ok, of True 7] by (simp add: ring4_last_def)

end
