(* ===== verification/Hemem_Page.thy ===== *)
theory Hemem_Page
  imports Prelude
begin

text \<open>
  The data of \<^verbatim>\<open>src/hemem.h\<close>: page sizes and masks, the enumerations, the page
  descriptor \<^verbatim>\<open>struct hemem_page\<close>, and the memory every component shares: a heap of
  page descriptors and the \<^verbatim>\<open>struct fifo_list\<close> objects (\<^verbatim>\<open>src/fifo.h\<close>) that
  link them.
\<close>

section \<open>Page sizes\<close>

definition BASEPAGE_SIZE :: u64 where [c_consts]: "BASEPAGE_SIZE = 4 * 1024"
definition HUGEPAGE_SIZE :: u64 where [c_consts]: "HUGEPAGE_SIZE = 2 * 1024 * 1024"
definition GIGAPAGE_SIZE :: u64 where [c_consts]: "GIGAPAGE_SIZE = 1024 * 1024 * 1024"
definition PAGE_SIZE :: u64 where [c_consts]: "PAGE_SIZE = HUGEPAGE_SIZE"

definition HUGEPAGE_MASK :: u64 where [c_consts]: "HUGEPAGE_MASK = HUGEPAGE_SIZE - 1"
definition HUGE_PFN_MASK :: u64 where [c_consts]: "HUGE_PFN_MASK = HUGEPAGE_MASK XOR (- 1)"

datatype pagetypes = HUGEP | BASEP | NPAGETYPES

fun pt_to_pagesize :: "pagetypes \<Rightarrow> u64 option" where
  "pt_to_pagesize HUGEP = Some HUGEPAGE_SIZE"
| "pt_to_pagesize BASEP = Some BASEPAGE_SIZE"
| "pt_to_pagesize NPAGETYPES = None"

definition pagesize_to_pt :: "u64 \<Rightarrow> pagetypes option" where
  "pagesize_to_pt pagesize =
     (if pagesize = BASEPAGE_SIZE then Some BASEP
      else if pagesize = HUGEPAGE_SIZE then Some HUGEP
      else None)"

text \<open>\<^verbatim>\<open>PAGE_ROUND_UP\<close> of \<^verbatim>\<open>src/hemem.c\<close>.\<close>

definition PAGE_ROUND_UP :: "u64 \<Rightarrow> u64" where
  "PAGE_ROUND_UP x = (x + HUGEPAGE_SIZE - 1) AND NOT (HUGEPAGE_SIZE - 1)"

section \<open>Page descriptors and lists\<close>

text \<open>The sample buffers of \<^verbatim>\<open>src/pebs.h\<close>; they index the access counters of a page.\<close>

datatype pbuftype = DRAMREAD | NVMREAD

text \<open>The statically allocated lists of the three policies.\<close>

datatype fifo_id =
    dram_hot_list | dram_cold_list | nvm_hot_list | nvm_cold_list
  | dram_free_list | nvm_free_list
  | active_list | inactive_list | nvm_active_list | nvm_inactive_list
  | written_list | nvm_written_list

record hemem_page =
  va :: u64
  devdax_offset :: u64
  in_dram :: bool
  pt :: pagetypes
  migrating :: bool
  present :: bool
  written :: bool
  hot :: bool
  naccesses :: u64
  page_migrations_up :: u64
  page_migrations_down :: u64
  local_clock :: u64
  ring_present :: bool
  accesses :: "pbuftype \<Rightarrow> u64"
  tot_accesses :: "pbuftype \<Rightarrow> u64"
  next_ptr :: ptr
  prev_ptr :: ptr
  list_ptr :: "fifo_id option"
  enforced :: bool

record fifo_list =
  first_ptr :: ptr
  last_ptr :: ptr
  numentries :: u64

text \<open>A descriptor fresh from \<^verbatim>\<open>calloc\<close>, and a list object in zeroed static memory.\<close>

definition zero_page :: hemem_page where
  "zero_page = \<lparr>va = 0, devdax_offset = 0, in_dram = False, pt = HUGEP, migrating = False,
     present = False, written = False, hot = False, naccesses = 0, page_migrations_up = 0,
     page_migrations_down = 0, local_clock = 0, ring_present = False, accesses = (\<lambda>_. 0),
     tot_accesses = (\<lambda>_. 0), next_ptr = NULL, prev_ptr = NULL, list_ptr = None,
     enforced = False\<rparr>"

definition empty_list :: fifo_list where
  "empty_list = \<lparr>first_ptr = NULL, last_ptr = NULL, numentries = 0\<rparr>"

record mem =
  page_heap :: "ptr \<Rightarrow> hemem_page"
  list_heap :: "fifo_id \<Rightarrow> fifo_list"

text \<open>Assignment through a page pointer and to the members of a list object.\<close>

abbreviation upd_page ::
    "ptr \<Rightarrow> (hemem_page \<Rightarrow> hemem_page) \<Rightarrow> 'a mem_scheme \<Rightarrow> 'a mem_scheme" where
  "upd_page p f s \<equiv> s\<lparr>page_heap := (page_heap s)(p := f (page_heap s p))\<rparr>"

abbreviation upd_list ::
    "fifo_id \<Rightarrow> (fifo_list \<Rightarrow> fifo_list) \<Rightarrow> 'a mem_scheme \<Rightarrow> 'a mem_scheme" where
  "upd_list q f s \<equiv> s\<lparr>list_heap := (list_heap s)(q := f (list_heap s q))\<rparr>"

section \<open>Facts about page sizes\<close>

lemma pagesize_positive: "pt_to_pagesize t = Some n \<Longrightarrow> 0 < n"
  by (cases t) (auto simp: c_consts)

lemma pt_to_pagesize_inverse: "pt_to_pagesize t = Some n \<Longrightarrow> pagesize_to_pt n = Some t"
  by (cases t) (auto simp: pagesize_to_pt_def c_consts)

lemma pagesize_to_pt_inverse: "pagesize_to_pt n = Some t \<Longrightarrow> pt_to_pagesize t = Some n"
  by (auto simp: pagesize_to_pt_def split: if_splits)

section \<open>Rounding up to whole pages\<close>

lemma and_not_mask:
  fixes y :: "'a :: len word"
  shows "y AND NOT (mask n) = y - take_bit n y"
proof -
  have "(y AND NOT (mask n)) + take_bit n y = (y AND NOT (mask n)) OR take_bit n y"
    by (rule disjunctive_add_eq_or) (simp add: take_bit_eq_mask ac_simps)
  also have "\<dots> = y"
    by (rule bit_word_eqI) (auto simp: bit_simps)
  finally show ?thesis by (simp add: eq_diff_eq)
qed

lemma PAGE_ROUND_UP_unat:
  assumes "unat len + 2 ^ 21 \<le> 2 ^ 64"
  shows "unat (PAGE_ROUND_UP len) = (unat len + 2 ^ 21 - 1) div 2 ^ 21 * 2 ^ 21"
proof -
  let ?y = "len + HUGEPAGE_SIZE - 1"
  have "?y = len + 2097151"
    by (simp add: c_consts)
  moreover have "unat (len + 2097151) = unat len + 2 ^ 21 - 1"
    using assms by (simp add: unat_plus_if')
  ultimately have y: "unat ?y = unat len + 2 ^ 21 - 1"
    by (simp only:)
  have "HUGEPAGE_SIZE - 1 = (mask 21 :: u64)"
    by (simp add: c_consts mask_eq_exp_minus_1)
  then have "PAGE_ROUND_UP len = ?y - take_bit 21 ?y"
    unfolding PAGE_ROUND_UP_def by (simp only: and_not_mask)
  moreover have t: "unat (take_bit 21 ?y) = unat ?y mod 2 ^ 21"
    by (simp add: unsigned_take_bit_eq take_bit_nat_def)
  then have "take_bit 21 ?y \<le> ?y"
    by (simp add: word_le_nat_alt)
  ultimately have "unat (PAGE_ROUND_UP len) = unat ?y - unat ?y mod 2 ^ 21"
    by (simp only: unat_sub t)
  then show ?thesis
    by (simp add: y minus_mod_eq_div_mult)
qed

lemma round_up_pages:
  assumes "0 < len" and "unat len + 2 ^ 21 \<le> 2 ^ 64"
  shows "PAGE_ROUND_UP len = of_nat (unat (PAGE_ROUND_UP len div PAGE_SIZE)) * PAGE_SIZE" and "0 < unat (PAGE_ROUND_UP len div PAGE_SIZE)"
    and "PAGE_ROUND_UP len \<noteq> 0" and "len \<le> PAGE_ROUND_UP len"
proof -
  have p: "0 < unat len"
    using assms(1) by (simp add: word_less_nat_alt)
  note r = PAGE_ROUND_UP_unat [OF assms(2)]
  have d: "unat (PAGE_ROUND_UP len div PAGE_SIZE) = (unat len + 2 ^ 21 - 1) div 2 ^ 21"
    by (simp add: unat_div r) (simp add: c_consts)
  have pos: "1 \<le> (unat len + 2 ^ 21 - 1) div 2 ^ 21"
    using p by (simp add: le_div_geq)
  then show "0 < unat (PAGE_ROUND_UP len div PAGE_SIZE)"
    by (simp add: d)
  show "PAGE_ROUND_UP len \<noteq> 0"
    using r pos by auto
  show "len \<le> PAGE_ROUND_UP len"
    unfolding word_le_nat_alt r
    using div_mult_mod_eq [of "unat len + 2 ^ 21 - 1" "2 ^ 21"] mod_less_divisor [of "2 ^ 21" "unat len + 2 ^ 21 - 1", simplified]
    by simp
  have "PAGE_ROUND_UP len = of_nat (unat (PAGE_ROUND_UP len))"
    by simp
  also have "\<dots> = of_nat (unat (PAGE_ROUND_UP len div PAGE_SIZE)) * PAGE_SIZE"
    unfolding r d by (simp add: c_consts)
  finally show "PAGE_ROUND_UP len = of_nat (unat (PAGE_ROUND_UP len div PAGE_SIZE)) * PAGE_SIZE" .
qed

end
