(* ===== verification/Queue_Interface.thy ===== *)
theory Queue_Interface
  imports Prelude
begin

text \<open>
  The contract between a family of intrusive queues and its clients. \<^verbatim>\<open>src/fifo.c\<close>
  provides it for page descriptors and \<^verbatim>\<open>src/policies/hemem-mmgr.c\<close> for its own list
  nodes; the policies rely on nothing else of the link fields.

  The state holds a family of queues indexed by \<open>'q\<close>; \<open>contents s q\<close> is a queue from its
  newest to its oldest entry, \<open>load s p\<close> the part of an entry the queues never touch, and
  \<open>frame s s'\<close> says that only the queues' own memory differs.
\<close>

text \<open>
  The entries on some queue, and the drivers that enqueue a list of entries one after the other
  and dequeue \<open>n\<close> times.
\<close>

definition members :: "('s \<Rightarrow> 'q \<Rightarrow> 'p list) \<Rightarrow> 's \<Rightarrow> 'p set" where
  "members contents s = (\<Union>q. set (contents s q))"

fun enq_all :: "('q \<Rightarrow> 'p \<Rightarrow> 's \<Rightarrow> 's option) \<Rightarrow> 'q \<Rightarrow> 'p list \<Rightarrow> 's \<Rightarrow> 's option" where
  "enq_all enq q [] s = Some s"
| "enq_all enq q (p # ps) s = enq q p s \<bind> enq_all enq q ps"

fun deq_n :: "('q \<Rightarrow> 's \<Rightarrow> ('p \<times> 's) option) \<Rightarrow> 'q \<Rightarrow> nat \<Rightarrow> 's \<Rightarrow> ('p list \<times> 's) option" where
  "deq_n deq q 0 s = Some ([], s)"
| "deq_n deq q (Suc n) s =
     deq q s \<bind> (\<lambda>(p, s). deq_n deq q n s \<bind> (\<lambda>(ps, s). Some (p # ps, s)))"

locale linked_queues =
  fixes enq :: "'q \<Rightarrow> 'p \<Rightarrow> 's \<Rightarrow> 's option"
    and deq :: "'q \<Rightarrow> 's \<Rightarrow> ('p \<times> 's) option"
    and rem :: "'q \<Rightarrow> 'p \<Rightarrow> 's \<Rightarrow> 's option"
    and contents :: "'s \<Rightarrow> 'q \<Rightarrow> 'p list"
    and invar :: "'s \<Rightarrow> bool"
    and load :: "'s \<Rightarrow> 'p \<Rightarrow> 'd"
    and frame :: "'s \<Rightarrow> 's \<Rightarrow> bool"
    and nil :: 'p
  assumes distinct_contents: "invar s \<Longrightarrow> distinct (contents s q)"
    and nil_contents: "invar s \<Longrightarrow> nil \<notin> set (contents s q)"
    and disjoint_contents:
      "invar s \<Longrightarrow> p \<in> set (contents s q) \<Longrightarrow> p \<in> set (contents s q') \<Longrightarrow> q = q'"
    and enq_law: "invar s \<Longrightarrow> p \<noteq> nil \<Longrightarrow> \<forall>q. p \<notin> set (contents s q) \<Longrightarrow>
      \<exists>s'. enq q p s = Some s' \<and> invar s' \<and> contents s' = (contents s)(q := p # contents s q) \<and>
        load s' = load s \<and> frame s s'"
    and deq_law: "invar s \<Longrightarrow> contents s q = ys @ [x] \<Longrightarrow>
      \<exists>s'. deq q s = Some (x, s') \<and> invar s' \<and> contents s' = (contents s)(q := ys) \<and>
        load s' = load s \<and> frame s s'"
    and deq_empty_law: "invar s \<Longrightarrow> contents s q = [] \<Longrightarrow> deq q s = Some (nil, s)"
    and rem_law: "invar s \<Longrightarrow> p \<in> set (contents s q) \<Longrightarrow>
      \<exists>s'. rem q p s = Some s' \<and> invar s' \<and>
        contents s' = (contents s)(q := remove1 p (contents s q)) \<and> load s' = load s \<and> frame s s'"
    and frame_refl: "frame s s"
    and frame_trans: "frame s t \<Longrightarrow> frame t u \<Longrightarrow> frame s u"
begin

lemma members_iff: "p \<in> members contents s \<longleftrightarrow> (\<exists>q. p \<in> set (contents s q))"
  by (simp add: members_def)

lemma members_upd:
  "(\<And>r. set (contents t r) = set (contents s r) - {p}) \<Longrightarrow> members contents t = members contents s - {p}"
  by (simp add: members_def)

lemma members_insert:
  "contents t = (contents s)(q := p # contents s q) \<Longrightarrow> members contents t = insert p (members contents s)"
  by (auto simp: members_def split: if_splits)

lemma move_law:
  assumes inv: "invar s" and p: "p \<in> set (contents s q)"
  shows "\<exists>s'. (rem q p s \<bind> enq q' p) = Some s' \<and> invar s' \<and>
    contents s' = (let c = (contents s)(q := remove1 p (contents s q)) in c(q' := p # c q')) \<and>
    members contents s' = members contents s \<and> load s' = load s \<and> frame s s'"
proof -
  from rem_law [OF inv p] obtain t where t: "rem q p s = Some t" "invar t"
    "contents t = (contents s)(q := remove1 p (contents s q))" "load t = load s" "frame s t"
    by blast
  have "p \<notin> set (contents t r)" for r
    using disjoint_contents [OF inv p, of r] distinct_contents [OF inv, of q]
    by (cases "r = q") (auto simp: t(3))
  moreover have "p \<noteq> nil"
    using p nil_contents [OF inv, of q] by auto
  ultimately obtain s' where s': "enq q' p t = Some s'" "invar s'"
    "contents s' = (contents t)(q' := p # contents t q')" "load s' = load t" "frame t s'"
    using enq_law [OF t(2)] by blast
  have "set (contents t r) = set (contents s r) - {p}" for r
    using disjoint_contents [OF inv p, of r] distinct_contents [OF inv, of q]
    by (cases "r = q") (auto simp: t(3))
  then have "members contents t = members contents s - {p}"
    by (rule members_upd)
  moreover have "members contents s' = insert p (members contents t)"
    by (rule members_insert) (rule s'(3))
  ultimately have "members contents s' = members contents s"
    using p by (auto simp: members_def)
  with t s' frame_trans [OF t(5) s'(5)] show ?thesis
    by (simp add: Let_def)
qed

lemma transfer_law:
  assumes inv: "invar s" and q: "contents s q = ys @ [x]"
  shows "\<exists>s'. (deq q s \<bind> (\<lambda>(p, s). enq q' p s)) = Some s' \<and> invar s' \<and>
    contents s' = (let c = (contents s)(q := ys) in c(q' := x # c q')) \<and>
    members contents s' = members contents s \<and> load s' = load s \<and> frame s s'"
proof -
  have x: "x \<in> set (contents s q)" and ys: "x \<notin> set ys" "remove1 x (ys @ [x]) = ys"
    using q distinct_contents [OF inv, of q] by (auto simp: remove1_append)
  from deq_law [OF inv q] obtain t where t: "deq q s = Some (x, t)" "invar t"
    "contents t = (contents s)(q := ys)" "load t = load s" "frame s t"
    by blast
  have "x \<notin> set (contents t r)" for r
    using disjoint_contents [OF inv x, of r] ys by (cases "r = q") (auto simp: t(3))
  moreover have "x \<noteq> nil"
    using x nil_contents [OF inv, of q] by auto
  ultimately obtain s' where s': "enq q' x t = Some s'" "invar s'"
    "contents s' = (contents t)(q' := x # contents t q')" "load s' = load t" "frame t s'"
    using enq_law [OF t(2)] by blast
  have "set (contents t r) = set (contents s r) - {x}" for r
    using disjoint_contents [OF inv x, of r] ys q by (cases "r = q") (auto simp: t(3))
  then have "members contents t = members contents s - {x}"
    by (rule members_upd)
  moreover have "members contents s' = insert x (members contents t)"
    by (rule members_insert) (rule s'(3))
  ultimately have "members contents s' = members contents s"
    using x by (auto simp: members_def)
  with t s' frame_trans [OF t(5) s'(5)] show ?thesis
    by (simp add: Let_def)
qed

lemma enq_all_law:
  assumes "invar s" and "distinct ps" and "nil \<notin> set ps" and "\<forall>q. set ps \<inter> set (contents s q) = {}"
  shows "\<exists>s'. enq_all enq q ps s = Some s' \<and> invar s' \<and>
    contents s' = (contents s)(q := rev ps @ contents s q) \<and> load s' = load s \<and> frame s s'"
  using assms
proof (induction ps arbitrary: s)
  case Nil
  then show ?case by (simp add: frame_refl)
next
  case (Cons p ps)
  then obtain t where t: "enq q p s = Some t" "invar t"
    "contents t = (contents s)(q := p # contents s q)" "load t = load s" "frame s t"
    using enq_law [of s p q] by auto
  with Cons.prems have "\<forall>q. set ps \<inter> set (contents t q) = {}"
    by auto
  moreover from Cons.prems have "distinct ps" "nil \<notin> set ps"
    by simp_all
  ultimately obtain s' where "enq_all enq q ps t = Some s'" "invar s'"
    "contents s' = (contents t)(q := rev ps @ contents t q)" "load s' = load t" "frame t s'"
    using Cons.IH [OF t(2)] by blast
  with t frame_trans [OF t(5)] show ?case
    by (simp add: fun_eq_iff)
qed

lemma deq_n_law:
  assumes "invar s" and "contents s q = ys @ zs"
  shows "\<exists>s'. deq_n deq q (length zs) s = Some (rev zs, s') \<and> invar s' \<and>
    contents s' = (contents s)(q := ys) \<and> load s' = load s \<and> frame s s'"
  using assms
proof (induction zs arbitrary: s rule: rev_induct)
  case Nil
  then show ?case by (simp add: frame_refl fun_upd_idem)
next
  case (snoc x zs)
  then obtain t where t: "deq q s = Some (x, t)" "invar t"
    "contents t = (contents s)(q := ys @ zs)" "load t = load s" "frame s t"
    using deq_law [of s q "ys @ zs" x] by auto
  then have "contents t q = ys @ zs"
    by simp
  from snoc.IH [OF t(2) this] obtain s' where "deq_n deq q (length zs) t = Some (rev zs, s')" "invar s'"
    "contents s' = (contents t)(q := ys)" "load s' = load t" "frame t s'"
    by blast
  with t frame_trans [OF t(5)] show ?case
    by (simp add: fun_eq_iff)
qed

text \<open>Entries leave a queue in the order they came, behind those that were there before.\<close>

lemma fifo_order:
  assumes inv: "invar s" and ps: "distinct ps" "nil \<notin> set ps" "\<forall>q. set ps \<inter> set (contents s q) = {}"
  shows "\<exists>s'. (enq_all enq q ps s \<bind> deq_n deq q (length (contents s q) + length ps)) =
      Some (rev (contents s q) @ ps, s') \<and> invar s' \<and> contents s' = (contents s)(q := []) \<and>
      load s' = load s \<and> frame s s'"
proof -
  from enq_all_law [OF assms] obtain t where t: "enq_all enq q ps s = Some t" "invar t"
    "contents t = (contents s)(q := rev ps @ contents s q)" "load t = load s" "frame s t"
    by blast
  from t(3) have "contents t q = [] @ (rev ps @ contents s q)"
    by simp
  from deq_n_law [OF t(2) this] obtain s' where
    "deq_n deq q (length (rev ps @ contents s q)) t = Some (rev (rev ps @ contents s q), s')" "invar s'"
    "contents s' = (contents t)(q := [])" "load s' = load t" "frame t s'"
    by blast
  with t frame_trans [OF t(5)] show ?thesis
    by (simp add: add.commute)
qed

end

end
