(* ===== verification/Fifo.thy ===== *)
theory Fifo
  imports Hemem_Page Queue_Interface
begin

text \<open>
  \<^verbatim>\<open>src/fifo.c\<close>: the intrusive doubly linked lists of page descriptors. New entries go
  to the front (\<^verbatim>\<open>first\<close>), old ones leave from the back (\<^verbatim>\<open>last\<close>). Every
  operation runs with the list's lock held, so it is one atomic function here.

  The well-formedness predicate \<open>mem_ok\<close> relates the link fields, the counters and the
  back pointers of all lists; \<open>queue_of\<close> reads a list's contents off the heap. The four
  operations are shown to implement the abstract queues of the locale \<open>page_queues\<close>.
\<close>

section \<open>The operations\<close>

definition enqueue_fifo :: "fifo_id \<Rightarrow> ptr \<Rightarrow> 'a mem_scheme \<Rightarrow> 'a mem_scheme option" where
  "enqueue_fifo queue entry s = do {
     assert (entry \<noteq> NULL);
     assert (prev_ptr (page_heap s entry) = NULL);
     let s = upd_page entry (\<lambda>p. p\<lparr>next_ptr := first_ptr (list_heap s queue)\<rparr>) s;
     s \<leftarrow> (if first_ptr (list_heap s queue) \<noteq> NULL then do {
             assert (prev_ptr (page_heap s (first_ptr (list_heap s queue))) = NULL);
             Some (upd_page (first_ptr (list_heap s queue)) (\<lambda>p. p\<lparr>prev_ptr := entry\<rparr>) s)
           } else do {
             assert (last_ptr (list_heap s queue) = NULL);
             assert (numentries (list_heap s queue) = 0);
             Some (upd_list queue (\<lambda>l. l\<lparr>last_ptr := entry\<rparr>) s)
           });
     let s = upd_list queue (\<lambda>l. l\<lparr>first_ptr := entry\<rparr>) s;
     let s = upd_page entry (\<lambda>p. p\<lparr>list_ptr := Some queue\<rparr>) s;
     Some (upd_list queue (\<lambda>l. l\<lparr>numentries := numentries l + 1\<rparr>) s)
   }"

definition dequeue_fifo :: "fifo_id \<Rightarrow> 'a mem_scheme \<Rightarrow> (ptr \<times> 'a mem_scheme) option" where
  "dequeue_fifo queue s =
     (let ret = last_ptr (list_heap s queue) in
      if ret = NULL then Some (NULL, s)
      else do {
        let s = upd_list queue (\<lambda>l. l\<lparr>last_ptr := prev_ptr (page_heap s ret)\<rparr>) s;
        let s = (if last_ptr (list_heap s queue) \<noteq> NULL
                 then upd_page (last_ptr (list_heap s queue)) (\<lambda>p. p\<lparr>next_ptr := NULL\<rparr>) s
                 else upd_list queue (\<lambda>l. l\<lparr>first_ptr := NULL\<rparr>) s);
        let s = upd_page ret (\<lambda>p. p\<lparr>prev_ptr := NULL, next_ptr := NULL\<rparr>) s;
        let s = upd_page ret (\<lambda>p. p\<lparr>list_ptr := None\<rparr>) s;
        assert (numentries (list_heap s queue) > 0);
        let s = upd_list queue (\<lambda>l. l\<lparr>numentries := numentries l - 1\<rparr>) s;
        Some (ret, s)
      })"

definition page_list_remove_page :: "fifo_id \<Rightarrow> ptr \<Rightarrow> 'a mem_scheme \<Rightarrow> 'a mem_scheme option" where
  "page_list_remove_page list page s =
     (if first_ptr (list_heap s list) = NULL then do {
        assert (last_ptr (list_heap s list) = NULL);
        assert (numentries (list_heap s list) = 0);
        Some s
      } else do {
        assert (page \<noteq> NULL);
        let s = (if first_ptr (list_heap s list) = page
                 then upd_list list (\<lambda>l. l\<lparr>first_ptr := next_ptr (page_heap s page)\<rparr>) s else s);
        let s = (if last_ptr (list_heap s list) = page
                 then upd_list list (\<lambda>l. l\<lparr>last_ptr := prev_ptr (page_heap s page)\<rparr>) s else s);
        let s = (if next_ptr (page_heap s page) \<noteq> NULL
                 then upd_page (next_ptr (page_heap s page))
                        (\<lambda>p. p\<lparr>prev_ptr := prev_ptr (page_heap s page)\<rparr>) s else s);
        let s = (if prev_ptr (page_heap s page) \<noteq> NULL
                 then upd_page (prev_ptr (page_heap s page))
                        (\<lambda>p. p\<lparr>next_ptr := next_ptr (page_heap s page)\<rparr>) s else s);
        assert (numentries (list_heap s list) > 0);
        let s = upd_list list (\<lambda>l. l\<lparr>numentries := numentries l - 1\<rparr>) s;
        Some (upd_page page (\<lambda>p. p\<lparr>next_ptr := NULL, prev_ptr := NULL, list_ptr := None\<rparr>) s)
      })"

definition next_page :: "fifo_id \<Rightarrow> ptr \<Rightarrow> 'a mem_scheme \<Rightarrow> ptr option" where
  "next_page list page s =
     (if page = NULL then Some (last_ptr (list_heap s list))
      else do {
        assert (list_ptr (page_heap s page) = Some list);
        Some (prev_ptr (page_heap s page))
      })"

section \<open>List segments in the heap\<close>

fun dll :: "(ptr \<Rightarrow> hemem_page) \<Rightarrow> ptr \<Rightarrow> ptr list \<Rightarrow> ptr \<Rightarrow> bool" where
  "dll h before [] after \<longleftrightarrow> True"
| "dll h before (x # xs) after \<longleftrightarrow>
     prev_ptr (h x) = before \<and> next_ptr (h x) = hd_or after xs \<and> dll h x xs after"

lemma dll_append:
  "dll h before (xs @ ys) after \<longleftrightarrow>
     dll h before xs (hd_or after ys) \<and> dll h (last_or before xs) ys after"
  by (induction xs arbitrary: before) (auto simp: last_or_Cons hd_or_append)

lemma dll_cong:
  "(\<And>x. x \<in> set xs \<Longrightarrow> prev_ptr (h' x) = prev_ptr (h x) \<and> next_ptr (h' x) = next_ptr (h x)) \<Longrightarrow>
   dll h' before xs after = dll h before xs after"
  by (induction xs arbitrary: before) auto

text \<open>\<open>fifo_ok h l q xs\<close>: the list object \<open>l\<close> with address \<open>q\<close> holds exactly \<open>xs\<close>, front first.\<close>

definition fifo_ok :: "(ptr \<Rightarrow> hemem_page) \<Rightarrow> fifo_list \<Rightarrow> fifo_id \<Rightarrow> ptr list \<Rightarrow> bool" where
  "fifo_ok h l q xs \<longleftrightarrow>
     first_ptr l = hd_or NULL xs \<and> last_ptr l = last_or NULL xs \<and>
     numentries l = of_nat (length xs) \<and> distinct xs \<and> NULL \<notin> set xs \<and>
     dll h NULL xs NULL \<and> (\<forall>p. list_ptr (h p) = Some q \<longleftrightarrow> p \<in> set xs)"

text \<open>Reading the contents of a list by following the next pointers.\<close>

fun walk :: "(ptr \<Rightarrow> hemem_page) \<Rightarrow> ptr \<Rightarrow> nat \<Rightarrow> ptr list" where
  "walk h p 0 = []"
| "walk h p (Suc n) = (if p = NULL then [] else p # walk h (next_ptr (h p)) n)"

definition queue_of :: "'a mem_scheme \<Rightarrow> fifo_id \<Rightarrow> ptr list" where
  "queue_of s q =
     walk (page_heap s) (first_ptr (list_heap s q)) (unat (numentries (list_heap s q)))"

definition mem_ok :: "'a mem_scheme \<Rightarrow> bool" where
  "mem_ok s \<longleftrightarrow>
     (\<forall>q. fifo_ok (page_heap s) (list_heap s q) q (queue_of s q)) \<and>
     (\<forall>p. list_ptr (page_heap s p) = None \<longrightarrow> prev_ptr (page_heap s p) = NULL)"

text \<open>The descriptor without its link fields: what the list operations never change.\<close>

definition strip :: "hemem_page \<Rightarrow> hemem_page" where
  "strip p = p\<lparr>next_ptr := NULL, prev_ptr := NULL, list_ptr := None\<rparr>"

definition payload :: "'a mem_scheme \<Rightarrow> ptr \<Rightarrow> hemem_page" where
  "payload s p = strip (page_heap s p)"

text \<open>Only the page and list heaps differ between two states.\<close>

definition heaps_only :: "'a mem_scheme \<Rightarrow> 'a mem_scheme \<Rightarrow> bool" where
  "heaps_only s s' \<longleftrightarrow> mem.more s' = mem.more s"

lemma walk_dll: "dll h before xs NULL \<Longrightarrow> NULL \<notin> set xs \<Longrightarrow> walk h (hd_or NULL xs) (length xs) = xs"
  by (induction xs arbitrary: before) auto

lemma queue_of_eq: "fifo_ok (page_heap s) (list_heap s q) q xs \<Longrightarrow> queue_of s q = xs"
  unfolding queue_of_def fifo_ok_def
  by (elim conjE, simp only: unat_of_nat_ptrs not_False_eq_True walk_dll)

lemma mem_okI:
  assumes "\<And>q. fifo_ok (page_heap s) (list_heap s q) q (A q)"
    and "\<And>p. list_ptr (page_heap s p) = None \<Longrightarrow> prev_ptr (page_heap s p) = NULL"
  shows "mem_ok s" and "queue_of s = A"
proof -
  show "queue_of s = A"
    using assms(1) by (auto intro: queue_of_eq)
  then show "mem_ok s"
    using assms by (simp add: mem_ok_def)
qed

lemma mem_ok_fifo: "mem_ok s \<Longrightarrow> fifo_ok (page_heap s) (list_heap s q) q (queue_of s q)"
  by (simp add: mem_ok_def)

lemma in_queue_iff:
  "mem_ok s \<Longrightarrow> p \<in> set (queue_of s q) \<longleftrightarrow> list_ptr (page_heap s p) = Some q"
  by (auto simp: mem_ok_def fifo_ok_def)

lemma queue_of_distinct: "mem_ok s \<Longrightarrow> distinct (queue_of s q)"
  by (auto simp: mem_ok_def fifo_ok_def)

lemma queue_of_not_NULL: "mem_ok s \<Longrightarrow> NULL \<notin> set (queue_of s q)"
  by (auto simp: mem_ok_def fifo_ok_def)

lemma queue_of_disjoint:
  "mem_ok s \<Longrightarrow> p \<in> set (queue_of s q) \<Longrightarrow> p \<in> set (queue_of s q') \<Longrightarrow> q = q'"
  by (simp add: in_queue_iff)

lemma unlisted_iff: "mem_ok s \<Longrightarrow> list_ptr (page_heap s p) = None \<longleftrightarrow> (\<forall>q. p \<notin> set (queue_of s q))"
  by (metis in_queue_iff option.collapse option.distinct(1))

lemma heaps_only_refl [simp]: "heaps_only s s"
  by (simp add: heaps_only_def)

lemma heaps_only_trans: "heaps_only s t \<Longrightarrow> heaps_only t u \<Longrightarrow> heaps_only s u"
  by (simp add: heaps_only_def)

lemma heaps_only_upd [simp]:
  "heaps_only s (t\<lparr>page_heap := h\<rparr>) = heaps_only s t"
  "heaps_only s (t\<lparr>list_heap := l\<rparr>) = heaps_only s t"
  by (simp_all add: heaps_only_def)

lemma heaps_only_eq:
  "heaps_only s s' \<Longrightarrow> s' = s\<lparr>page_heap := page_heap s', list_heap := list_heap s'\<rparr>"
  by (rule mem.equality) (simp_all add: heaps_only_def)

lemma mem_upd_commute:
  "s\<lparr>list_heap := l, page_heap := h\<rparr> = s\<lparr>page_heap := h, list_heap := l\<rparr>"
  by simp

lemma fifo_ok_frame:
  assumes "fifo_ok h l q xs"
    and "\<And>x. x \<in> set xs \<Longrightarrow> prev_ptr (h' x) = prev_ptr (h x) \<and> next_ptr (h' x) = next_ptr (h x)"
    and "\<And>p. (list_ptr (h' p) = Some q) = (list_ptr (h p) = Some q)"
  shows "fifo_ok h' l q xs"
  using assms dll_cong [of xs h' h NULL NULL] by (simp add: fifo_ok_def)

lemma mem_ok_update:
  assumes ok: "mem_ok s" and own: "fifo_ok h' l' q xs'"
    and links: "\<And>x q'. q' \<noteq> q \<Longrightarrow> list_ptr (page_heap s x) = Some q' \<Longrightarrow>
      prev_ptr (h' x) = prev_ptr (page_heap s x) \<and> next_ptr (h' x) = next_ptr (page_heap s x)"
    and other: "\<And>x q'. q' \<noteq> q \<Longrightarrow>
      (list_ptr (h' x) = Some q') = (list_ptr (page_heap s x) = Some q')"
    and none: "\<And>x. list_ptr (h' x) = None \<Longrightarrow> prev_ptr (h' x) = NULL"
  shows "mem_ok (s\<lparr>page_heap := h', list_heap := (list_heap s)(q := l')\<rparr>)" (is "mem_ok ?s")
    and "queue_of (s\<lparr>page_heap := h', list_heap := (list_heap s)(q := l')\<rparr>) = (queue_of s)(q := xs')"
proof -
  have "fifo_ok (page_heap ?s) (list_heap ?s q') q' (((queue_of s)(q := xs')) q')" for q'
  proof (cases "q' = q")
    case True
    with own show ?thesis by simp
  next
    case False
    have "fifo_ok h' (list_heap s q') q' (queue_of s q')"
      using mem_ok_fifo [OF ok]
      by (rule fifo_ok_frame) (use False ok in \<open>simp_all add: in_queue_iff links other\<close>)
    with False show ?thesis by simp
  qed
  moreover have "prev_ptr (page_heap ?s x) = NULL" if "list_ptr (page_heap ?s x) = None" for x
    using that none by simp
  ultimately show "mem_ok ?s" and "queue_of ?s = (queue_of s)(q := xs')"
    using mem_okI [of ?s "(queue_of s)(q := xs')"] by blast+
qed

lemma strip_links [simp]:
  "strip (p\<lparr>next_ptr := n\<rparr>) = strip p" "strip (p\<lparr>prev_ptr := n\<rparr>) = strip p"
  "strip (p\<lparr>list_ptr := l\<rparr>) = strip p"
  by (simp_all add: strip_def)

lemma mem_ok_unlisted: "mem_ok s \<Longrightarrow> list_ptr (page_heap s p) = None \<Longrightarrow> prev_ptr (page_heap s p) = NULL"
  by (simp add: mem_ok_def)

lemma fifo_ok_empty: "fifo_ok h l q [] \<longleftrightarrow>
  first_ptr l = NULL \<and> last_ptr l = NULL \<and> numentries l = 0 \<and> (\<forall>p. list_ptr (h p) \<noteq> Some q)"
  by (auto simp: fifo_ok_def)

section \<open>The operations implement the queues\<close>

lemma enqueue_fifo_spec:
  assumes ok: "mem_ok s" and e: "e \<noteq> NULL" and un: "list_ptr (page_heap s e) = None"
  shows "\<exists>s'. enqueue_fifo q e s = Some s' \<and> mem_ok s' \<and>
    queue_of s' = (queue_of s)(q := e # queue_of s q) \<and> payload s' = payload s \<and> heaps_only s s'"
proof (cases "queue_of s q")
  case Nil
  let ?h' = "(page_heap s)(e := (page_heap s e)\<lparr>next_ptr := NULL, list_ptr := Some q\<rparr>)"
  let ?l' = "(list_heap s q)\<lparr>last_ptr := e, first_ptr := e, numentries := 1\<rparr>"
  note pe = mem_ok_unlisted [OF ok un]
  from mem_ok_fifo [OF ok, of q] Nil
  have l: "first_ptr (list_heap s q) = NULL" "last_ptr (list_heap s q) = NULL"
    "numentries (list_heap s q) = 0" "\<And>p. list_ptr (page_heap s p) \<noteq> Some q"
    by (auto simp: fifo_ok_empty)
  have own: "fifo_ok ?h' ?l' q [e]"
    using e pe l(4) by (auto simp: fifo_ok_def last_or_def)
  have "mem_ok (s\<lparr>page_heap := ?h', list_heap := (list_heap s)(q := ?l')\<rparr>)"
    "queue_of (s\<lparr>page_heap := ?h', list_heap := (list_heap s)(q := ?l')\<rparr>) = (queue_of s)(q := [e])"
    by (rule mem_ok_update [OF ok own]; use un mem_ok_unlisted [OF ok] in \<open>auto split: if_splits\<close>)+
  moreover have "enqueue_fifo q e s = Some (s\<lparr>page_heap := ?h', list_heap := (list_heap s)(q := ?l')\<rparr>)"
    using e pe l by (simp add: enqueue_fifo_def Let_def)
  ultimately show ?thesis
    by (simp add: payload_def fun_eq_iff Nil)
next
  case (Cons y ys)
  let ?h' = "(page_heap s)(e := (page_heap s e)\<lparr>next_ptr := y, list_ptr := Some q\<rparr>,
    y := (page_heap s y)\<lparr>prev_ptr := e\<rparr>)"
  let ?l' = "(list_heap s q)\<lparr>first_ptr := e, numentries := numentries (list_heap s q) + 1\<rparr>"
  note pe = mem_ok_unlisted [OF ok un]
  from mem_ok_fifo [OF ok, of q] Cons have l: "fifo_ok (page_heap s) (list_heap s q) q (y # ys)"
    by simp
  then have mem: "\<And>p. list_ptr (page_heap s p) = Some q \<longleftrightarrow> p \<in> set (y # ys)"
    and d: "distinct (y # ys)" "NULL \<notin> set (y # ys)"
    unfolding fifo_ok_def by blast+
  with un have y: "y \<noteq> NULL" "y \<noteq> e" "list_ptr (page_heap s y) = Some q" "y \<notin> set ys" "e \<notin> set ys"
    using mem [of e] by auto
  have "dll ?h' y ys NULL = dll (page_heap s) y ys NULL"
    by (rule dll_cong) (use y in auto)
  then have own: "fifo_ok ?h' ?l' q (e # y # ys)"
    using e pe l y by (auto simp: fifo_ok_def last_or_Cons set_eq_iff)
  have "mem_ok (s\<lparr>page_heap := ?h', list_heap := (list_heap s)(q := ?l')\<rparr>)"
    "queue_of (s\<lparr>page_heap := ?h', list_heap := (list_heap s)(q := ?l')\<rparr>) = (queue_of s)(q := e # y # ys)"
    by (rule mem_ok_update [OF ok own]; use y un mem_ok_unlisted [OF ok] in \<open>auto split: if_splits\<close>)+
  moreover have "enqueue_fifo q e s = Some (s\<lparr>page_heap := ?h', list_heap := (list_heap s)(q := ?l')\<rparr>)"
    using e pe l y by (simp add: enqueue_fifo_def Let_def fifo_ok_def fun_upd_twist)
  ultimately show ?thesis
    by (simp add: payload_def fun_eq_iff Cons)
qed


text \<open>The heap and the list object after unlinking \<open>p\<close> from \<open>ys @ p # zs\<close>.\<close>

definition unlink_pages ::
    "ptr list \<Rightarrow> ptr \<Rightarrow> ptr list \<Rightarrow> (ptr \<Rightarrow> hemem_page) \<Rightarrow> ptr \<Rightarrow> hemem_page" where
  "unlink_pages ys p zs h =
     (let h1 = (if zs = [] then h else h(hd zs := (h (hd zs))\<lparr>prev_ptr := last_or NULL ys\<rparr>));
          h2 = (if ys = [] then h1 else h1(last ys := (h1 (last ys))\<lparr>next_ptr := hd_or NULL zs\<rparr>))
      in h2(p := (h2 p)\<lparr>next_ptr := NULL, prev_ptr := NULL, list_ptr := None\<rparr>))"

definition unlink_list :: "ptr list \<Rightarrow> ptr list \<Rightarrow> fifo_list \<Rightarrow> fifo_list" where
  "unlink_list ys zs l =
     (let l1 = (if ys = [] then l\<lparr>first_ptr := hd_or NULL zs\<rparr> else l);
          l2 = (if zs = [] then l1\<lparr>last_ptr := last_or NULL ys\<rparr> else l1)
      in l2\<lparr>numentries := numentries l - 1\<rparr>)"

lemma unlink_pages_fields:
  "x \<noteq> p \<Longrightarrow> prev_ptr (unlink_pages ys p zs h x) =
     (if zs \<noteq> [] \<and> x = hd zs then last_or NULL ys else prev_ptr (h x))"
  "x \<noteq> p \<Longrightarrow> next_ptr (unlink_pages ys p zs h x) =
     (if ys \<noteq> [] \<and> x = last ys then hd_or NULL zs else next_ptr (h x))"
  "prev_ptr (unlink_pages ys p zs h p) = NULL"
  "list_ptr (unlink_pages ys p zs h x) = (if x = p then None else list_ptr (h x))"
  "strip (unlink_pages ys p zs h x) = strip (h x)"
  by (simp_all add: unlink_pages_def Let_def)

lemma unlink_pages_dll:
  assumes d: "distinct (ys @ p # zs)" and links: "dll h NULL ys p" "dll h p zs NULL"
  shows "dll (unlink_pages ys p zs h) NULL (ys @ zs) NULL"
proof -
  let ?h' = "unlink_pages ys p zs h"
  have "dll ?h' NULL ys (hd_or NULL zs)"
  proof (cases ys rule: rev_cases)
    case (snoc us u)
    with d have nx: "x \<noteq> p \<and> x \<noteq> u \<and> x \<notin> set zs" if "x \<in> set us" for x
      using that by auto
    have "dll ?h' NULL us u = dll h NULL us u"
      by (rule dll_cong) (use nx in \<open>cases zs; simp add: unlink_pages_fields snoc\<close>)
    with snoc d links(1) show ?thesis
      by (cases zs) (auto simp: dll_append unlink_pages_fields)
  qed simp
  moreover have "dll ?h' (last_or NULL ys) zs NULL"
  proof (cases zs)
    case (Cons z zs')
    with d have nx: "x \<noteq> p \<and> x \<noteq> z \<and> x \<notin> set ys" if "x \<in> set zs'" for x
      using that by auto
    have "dll ?h' z zs' NULL = dll h z zs' NULL"
      by (rule dll_cong) (use nx in \<open>cases ys rule: rev_cases; simp add: unlink_pages_fields Cons\<close>)
    with Cons d links(2) show ?thesis
      by (cases ys rule: rev_cases) (auto simp: unlink_pages_fields)
  qed simp
  ultimately show ?thesis
    by (simp add: dll_append)
qed

lemma fifo_ok_split:
  assumes "fifo_ok h l q (ys @ p # zs)"
  shows "first_ptr l = hd_or p ys" and "last_ptr l = last_or p zs"
    and "numentries l = of_nat (Suc (length (ys @ zs)))" and "numentries l > 0"
    and "dll h NULL ys p" and "prev_ptr (h p) = last_or NULL ys"
    and "next_ptr (h p) = hd_or NULL zs" and "dll h p zs NULL"
    and "distinct (ys @ p # zs)" and "NULL \<notin> set (ys @ p # zs)"
    and "list_ptr (h x) = Some q \<longleftrightarrow> x \<in> set (ys @ p # zs)"
proof -
  show d: "distinct (ys @ p # zs)" "NULL \<notin> set (ys @ p # zs)"
    and "list_ptr (h x) = Some q \<longleftrightarrow> x \<in> set (ys @ p # zs)"
    using assms unfolding fifo_ok_def by blast+
  show "first_ptr l = hd_or p ys" "last_ptr l = last_or p zs"
    and n: "numentries l = of_nat (Suc (length (ys @ zs)))"
    and "dll h NULL ys p" "prev_ptr (h p) = last_or NULL ys"
      "next_ptr (h p) = hd_or NULL zs" "dll h p zs NULL"
    using assms by (simp_all add: fifo_ok_def dll_append hd_or_append last_or_append last_or_Cons)
  show "numentries l > 0"
    using n ptr_list_length [OF d] of_nat_Suc_neq0 [of "length (ys @ zs)"]
    by (simp add: word_gt_0)
qed

lemma unlink_fifo_ok:
  assumes f: "fifo_ok h l q (ys @ p # zs)"
  shows "fifo_ok (unlink_pages ys p zs h) (unlink_list ys zs l) q (ys @ zs)"
proof -
  note s = fifo_ok_split [OF f]
  have "first_ptr (unlink_list ys zs l) = hd_or NULL (ys @ zs)"
    "last_ptr (unlink_list ys zs l) = last_or NULL (ys @ zs)"
    "numentries (unlink_list ys zs l) = of_nat (length (ys @ zs))"
    using s(1-3) by (cases ys; cases zs; simp add: unlink_list_def last_or_def)+
  with unlink_pages_dll [OF s(9,5,8)] s(9-11) show ?thesis
    by (auto simp: fifo_ok_def unlink_pages_fields)
qed

lemma page_list_remove_page_run:
  assumes "fifo_ok (page_heap s) (list_heap s q) q (ys @ p # zs)"
  shows "page_list_remove_page q p s = Some (s\<lparr>page_heap := unlink_pages ys p zs (page_heap s),
    list_heap := (list_heap s)(q := unlink_list ys zs (list_heap s q))\<rparr>)"
proof -
  note f = fifo_ok_split [OF assms]
  have ne: "hd_or p ys \<noteq> NULL" "ys \<noteq> [] \<Longrightarrow> hd_or p ys \<noteq> p" "zs \<noteq> [] \<Longrightarrow> last_or p zs \<noteq> p"
    using f(9,10) hd_or_in [of ys p] last_or_in [of zs p] by (cases ys; auto)+
  note unfolds = page_list_remove_page_def unlink_pages_def unlink_list_def Let_def
    last_or_Cons mem_upd_commute
  show ?thesis
  proof (cases ys rule: rev_cases; cases zs)
    assume "ys = []" "zs = []"
    with f(1,2,4,6,7,9,10) ne show ?thesis by (simp add: unfolds)
  next
    fix z zs' assume "ys = []" "zs = z # zs'"
    with f(1,2,4,6,7,9,10) ne show ?thesis by (simp add: unfolds)
  next
    fix us u assume "ys = us @ [u]" "zs = []"
    with f(1,2,4,6,7,9,10) ne show ?thesis by (simp add: unfolds)
  next
    fix us u z zs' assume "ys = us @ [u]" "zs = z # zs'"
    with f(1,2,4,6,7,9,10) ne show ?thesis by (simp add: unfolds)
  qed
qed

lemma page_list_remove_page_spec:
  assumes ok: "mem_ok s" and p: "list_ptr (page_heap s p) = Some q"
  shows "\<exists>s'. page_list_remove_page q p s = Some s' \<and> mem_ok s' \<and>
    queue_of s' = (queue_of s)(q := remove1 p (queue_of s q)) \<and> payload s' = payload s \<and>
    heaps_only s s'"
proof -
  let ?h = "page_heap s" and ?l = "list_heap s q"
  from ok p obtain ys zs where xs: "queue_of s q = ys @ p # zs"
    by (auto simp: in_queue_iff [symmetric] in_set_conv_decomp)
  with mem_ok_fifo [OF ok, of q] have f: "fifo_ok ?h ?l q (ys @ p # zs)"
    by simp
  note own = unlink_fifo_ok [OF f] and d = fifo_ok_split(9) [OF f]
  let ?h' = "unlink_pages ys p zs ?h"
  have frame: "prev_ptr (?h' x) = prev_ptr (?h x) \<and> next_ptr (?h' x) = next_ptr (?h x)"
    if "list_ptr (?h x) \<noteq> Some q" for x
  proof -
    from that fifo_ok_split(11) [OF f, of x] have "x \<notin> set ys" "x \<noteq> p" "x \<notin> set zs"
      by simp_all
    then have "x \<noteq> p" "\<not> (zs \<noteq> [] \<and> x = hd zs)" "\<not> (ys \<noteq> [] \<and> x = last ys)"
      using hd_in_set [of zs] last_in_set [of ys] by blast+
    then show ?thesis by (simp only: unlink_pages_fields(1,2) if_False simp_thms)
  qed
  have none: "prev_ptr (?h' x) = NULL" if "list_ptr (?h' x) = None" for x
    using that frame [of x] mem_ok_unlisted [OF ok, of x] unlink_pages_fields(3)
    by (cases "x = p") (simp_all add: unlink_pages_fields(4))
  let ?s' = "s\<lparr>page_heap := ?h', list_heap := (list_heap s)(q := unlink_list ys zs ?l)\<rparr>"
  have "mem_ok ?s'" "queue_of ?s' = (queue_of s)(q := ys @ zs)"
    by (rule mem_ok_update [OF ok own]; use frame none p in \<open>simp add: unlink_pages_fields(4)\<close>)+
  with page_list_remove_page_run [OF f] d show ?thesis
    by (simp add: payload_def fun_eq_iff xs remove1_split unlink_pages_fields(5))
qed



lemma last_ptr_queue: "mem_ok s \<Longrightarrow> last_ptr (list_heap s q) = last_or NULL (queue_of s q)"
  using mem_ok_fifo [of s q] by (simp add: fifo_ok_def)

lemma first_ptr_queue: "mem_ok s \<Longrightarrow> first_ptr (list_heap s q) = hd_or NULL (queue_of s q)"
  using mem_ok_fifo [of s q] by (simp add: fifo_ok_def)

lemma numentries_queue: "mem_ok s \<Longrightarrow> unat (numentries (list_heap s q)) = length (queue_of s q)"
  using mem_ok_fifo [of s q] by (auto simp: fifo_ok_def unat_of_nat_ptrs)

lemma prev_ptr_queue:
  assumes "mem_ok s" and "queue_of s q = ys @ p # zs"
  shows "prev_ptr (page_heap s p) = last_or NULL ys" and "next_ptr (page_heap s p) = hd_or NULL zs"
  using mem_ok_fifo [OF assms(1), of q] assms(2) by (auto simp: fifo_ok_def dll_append)

lemma links_commute:
  "p\<lparr>prev_ptr := a, next_ptr := b\<rparr> = p\<lparr>next_ptr := b, prev_ptr := a\<rparr>"
  "l\<lparr>last_ptr := c, first_ptr := d\<rparr> = l\<lparr>first_ptr := d, last_ptr := c\<rparr>"
  by simp_all

lemma dequeue_fifo_remove:
  assumes ok: "mem_ok s" and q: "queue_of s q = ys @ [x]"
  shows "dequeue_fifo q s = page_list_remove_page q x s \<bind> (\<lambda>s'. Some (x, s'))"
proof -
  from queue_of_distinct [OF ok, of q] queue_of_not_NULL [OF ok, of q] q
  have d: "distinct (ys @ [x])" "x \<noteq> NULL" "NULL \<notin> set ys" by auto
  have l: "first_ptr (list_heap s q) = hd_or x ys" "last_ptr (list_heap s q) = x"
    "prev_ptr (page_heap s x) = last_or NULL ys" "next_ptr (page_heap s x) = NULL"
    using first_ptr_queue [OF ok, of q] last_ptr_queue [OF ok, of q] prev_ptr_queue [OF ok, of q ys x "[]"] q
    by (simp_all add: hd_or_append)
  show ?thesis
  proof (cases ys rule: rev_cases)
    case Nil
    with d l show ?thesis
      by (simp add: dequeue_fifo_def page_list_remove_page_def Let_def mem_upd_commute links_commute)
  next
    case (snoc us u)
    moreover from snoc d have "hd_or x ys \<noteq> x" "hd_or x ys \<noteq> NULL"
      by (cases us; auto)+
    ultimately show ?thesis using d l
      by (simp add: dequeue_fifo_def page_list_remove_page_def Let_def mem_upd_commute links_commute)
  qed
qed

lemma dequeue_fifo_empty: "mem_ok s \<Longrightarrow> queue_of s q = [] \<Longrightarrow> dequeue_fifo q s = Some (NULL, s)"
  by (simp add: dequeue_fifo_def last_ptr_queue)

lemma dequeue_fifo_spec:
  assumes ok: "mem_ok s" and q: "queue_of s q = ys @ [x]"
  shows "\<exists>s'. dequeue_fifo q s = Some (x, s') \<and> mem_ok s' \<and> queue_of s' = (queue_of s)(q := ys) \<and>
    payload s' = payload s \<and> heaps_only s s'"
proof -
  from ok q have "list_ptr (page_heap s x) = Some q"
    by (simp add: in_queue_iff [symmetric])
  moreover have "remove1 x (ys @ [x]) = ys"
    using queue_of_distinct [OF ok, of q] q by (simp add: remove1_append)
  ultimately show ?thesis
    using page_list_remove_page_spec [OF ok, of x q] by (auto simp: dequeue_fifo_remove [OF ok q] q)
qed

lemma next_page_NULL: "mem_ok s \<Longrightarrow> next_page q NULL s = Some (last_or NULL (queue_of s q))"
  by (simp add: next_page_def last_ptr_queue)

lemma next_page_spec:
  assumes "mem_ok s" and q: "queue_of s q = ys @ p # zs"
  shows "next_page q p s = Some (last_or NULL ys)"
proof -
  from assms have "list_ptr (page_heap s p) = Some q" "p \<noteq> NULL"
    using queue_of_not_NULL [of s q] by (auto simp: in_queue_iff [symmetric])
  then show ?thesis
    by (simp add: next_page_def prev_ptr_queue [OF assms])
qed


section \<open>The queue interface\<close>

interpretation ff: linked_queues enqueue_fifo dequeue_fifo page_list_remove_page queue_of mem_ok
  payload heaps_only NULL
proof unfold_locales
  show "\<exists>s'. enqueue_fifo q p s = Some s' \<and> mem_ok s' \<and> queue_of s' = (queue_of s)(q := p # queue_of s q) \<and>
      payload s' = payload s \<and> heaps_only s s'"
    if "mem_ok s" "p \<noteq> NULL" "\<forall>q. p \<notin> set (queue_of s q)" for s :: "'a mem_scheme" and p q
    using enqueue_fifo_spec [OF that(1,2)] that(3) unlisted_iff [OF that(1)] by blast
  show "\<exists>s'. page_list_remove_page q p s = Some s' \<and> mem_ok s' \<and>
      queue_of s' = (queue_of s)(q := remove1 p (queue_of s q)) \<and> payload s' = payload s \<and> heaps_only s s'"
    if "mem_ok s" "p \<in> set (queue_of s q)" for s :: "'a mem_scheme" and p q
    using page_list_remove_page_spec [OF that(1)] that(2) in_queue_iff [OF that(1)] by blast
qed (rule queue_of_distinct queue_of_not_NULL queue_of_disjoint dequeue_fifo_spec dequeue_fifo_empty
    heaps_only_refl heaps_only_trans; assumption)+

section \<open>Assignments that leave the links alone\<close>

definition keeps_links :: "(hemem_page \<Rightarrow> hemem_page) \<Rightarrow> bool" where
  "keeps_links f \<longleftrightarrow> (\<forall>p. next_ptr (f p) = next_ptr p \<and> prev_ptr (f p) = prev_ptr p \<and>
     list_ptr (f p) = list_ptr p)"

lemma mem_ok_upd_page:
  assumes ok: "mem_ok s" and f: "keeps_links f"
  shows "mem_ok (upd_page p f s)" and "queue_of (upd_page p f s) = queue_of s"
proof -
  have *: "fifo_ok (page_heap (upd_page p f s)) (list_heap (upd_page p f s) q) q (queue_of s q)" for q
    using mem_ok_fifo [OF ok, of q] f
    by simp (erule fifo_ok_frame; simp add: keeps_links_def)
  moreover have "prev_ptr (page_heap (upd_page p f s) x) = NULL"
    if "list_ptr (page_heap (upd_page p f s) x) = None" for x
    using that mem_ok_unlisted [OF ok] f by (auto simp: keeps_links_def split: if_splits)
  ultimately show "mem_ok (upd_page p f s)" "queue_of (upd_page p f s) = queue_of s"
    using mem_okI [of "upd_page p f s" "queue_of s"] by blast+
qed

lemma payload_upd_page: "payload (upd_page p f s) = (payload s)(p := strip (f (page_heap s p)))"
  by (simp add: payload_def fun_eq_iff)

text \<open>The invariant, the contents and the payload are functions of the two heaps.\<close>

lemma mem_ok_cong:
  assumes "page_heap s' = page_heap s" and "list_heap s' = list_heap s"
  shows "queue_of s' = queue_of s" and "mem_ok s' = mem_ok s" and "payload s' = payload s"
proof -
  show q: "queue_of s' = queue_of s"
    by (rule ext) (simp add: queue_of_def assms)
  show "mem_ok s' = mem_ok s"
    by (simp add: mem_ok_def q assms)
  show "payload s' = payload s"
    by (rule ext) (simp add: payload_def assms)
qed

section \<open>Properties\<close>

text \<open>All lists empty, as in zeroed static memory.\<close>

definition mem_boot :: mem where
  "mem_boot = \<lparr>page_heap = (\<lambda>_. zero_page), list_heap = (\<lambda>_. empty_list)\<rparr>"

lemma mem_ok_boot:
  assumes "\<And>p. list_ptr (page_heap s p) = None" and "\<And>p. prev_ptr (page_heap s p) = NULL"
    and "\<And>q. list_heap s q = empty_list"
  shows "mem_ok s" and "queue_of s = (\<lambda>_. [])"
proof -
  have "fifo_ok (page_heap s) (list_heap s q) q []" for q
    using assms by (simp add: fifo_ok_empty empty_list_def)
  then show "mem_ok s" "queue_of s = (\<lambda>_. [])"
    using mem_okI [of s "\<lambda>_. []"] assms(2) by blast+
qed

lemma mem_boot_ok: "mem_ok mem_boot" "queue_of mem_boot = (\<lambda>_. [])"
  by (rule mem_ok_boot; simp add: mem_boot_def zero_page_def)+

text \<open>
  C12: the page lists are first-in first-out. Enqueueing any fresh pages and then dequeueing
  everything returns the pages that were on the list before, oldest first, and then the new ones in
  the order they were enqueued; no assertion fails, the list ends up empty, the other lists and all
  page contents are untouched.
\<close>

theorem fifo_drain_order:
  assumes "mem_ok s" and "distinct ps" and "NULL \<notin> set ps"
    and "\<forall>q. set ps \<inter> set (queue_of s q) = {}"
  shows "\<exists>s'. (enq_all enqueue_fifo q ps s \<bind>
        deq_n dequeue_fifo q (length (queue_of s q) + length ps)) =
      Some (rev (queue_of s q) @ ps, s') \<and> mem_ok s' \<and> queue_of s' = (queue_of s)(q := []) \<and>
      payload s' = payload s \<and> heaps_only s s'"
  by (rule ff.fifo_order [OF assms])

theorem fifo_drain_order_witness:
  "\<exists>s'. (enq_all enqueue_fifo dram_free_list [4096, 8192, 12288] mem_boot \<bind>
      deq_n dequeue_fifo dram_free_list 3) = Some ([4096, 8192, 12288], s')"
  using fifo_drain_order [OF mem_boot_ok(1), of "[4096, 8192, 12288]" dram_free_list]
  by (simp add: mem_boot_ok(2) numeral_3_eq_3 del: enq_all.simps deq_n.simps) blast

text \<open>
  C15: unlinking a page from the list it is on and enqueueing it on any list never trips an
  assertion of the list code, keeps every list well linked, moves exactly that page, and loses no
  page from the lists.
\<close>

theorem page_move_ok:
  assumes "mem_ok s" and "p \<in> set (queue_of s q)"
  shows "\<exists>s'. (page_list_remove_page q p s \<bind> enqueue_fifo q' p) = Some s' \<and> mem_ok s' \<and>
    queue_of s' = (let c = (queue_of s)(q := remove1 p (queue_of s q)) in c(q' := p # c q')) \<and>
    members queue_of s' = members queue_of s \<and> payload s' = payload s \<and> heaps_only s s'"
  by (rule ff.move_law [OF assms])

theorem page_move_ok_witness:
  "\<exists>s s'. enqueue_fifo nvm_cold_list 4096 mem_boot = Some s \<and>
     (page_list_remove_page nvm_cold_list 4096 s \<bind> enqueue_fifo nvm_hot_list 4096) = Some s' \<and>
     queue_of s' nvm_hot_list = [4096] \<and> queue_of s' nvm_cold_list = []"
proof -
  obtain s where s: "enqueue_fifo nvm_cold_list 4096 mem_boot = Some s" "mem_ok s"
    "queue_of s = (\<lambda>_. [])(nvm_cold_list := [4096])"
    using ff.enq_law [OF mem_boot_ok(1), of 4096 nvm_cold_list] by (auto simp: mem_boot_ok(2))
  with page_move_ok [OF s(2), of 4096 nvm_cold_list nvm_hot_list] show ?thesis
    by (auto simp: Let_def)
qed

end
