(* ===== verification/Platform.thy ===== *)
theory Platform
  imports Prelude
begin

text \<open>
  The platform under the library: the system calls, the \<^verbatim>\<open>userfaultfd\<close> requests (some of
  them only exist in the modified kernel, an empty submodule of the repository) and the memory
  writes the library performs through its own mappings. None of this is code of the repository, so
  it is a parameter: a record of functions on an abstract kernel state \<open>'k\<close>, together with
  the compile-time configuration. \<open>platform_ok\<close> collects what the library relies on, stated
  over two observers: \<open>vmap\<close>, the device location behind a virtual byte address, and
  \<open>dev\<close>, the byte stored at a device location. \<open>sim\<close> is a concrete platform that
  satisfies it.
\<close>

section \<open>Constants of the system interface\<close>

definition PROT_READ :: u32 where [c_consts]: "PROT_READ = 1"
definition PROT_WRITE :: u32 where [c_consts]: "PROT_WRITE = 2"
definition MAP_SHARED :: u32 where [c_consts]: "MAP_SHARED = 1"
definition MAP_PRIVATE :: u32 where [c_consts]: "MAP_PRIVATE = 2"
definition MAP_FIXED :: u32 where [c_consts]: "MAP_FIXED = 16"
definition MAP_ANONYMOUS :: u32 where [c_consts]: "MAP_ANONYMOUS = 32"
definition MAP_STACK :: u32 where [c_consts]: "MAP_STACK = 131072"
definition MAP_POPULATE :: u32 where [c_consts]: "MAP_POPULATE = 32768"
definition MAP_NORESERVE :: u32 where [c_consts]: "MAP_NORESERVE = 16384"
definition MAP_HUGETLB :: u32 where [c_consts]: "MAP_HUGETLB = 262144"
definition MAP_FAILED :: ptr where [c_consts]: "MAP_FAILED = - 1"

datatype errno = EBADF | ENOENT | EOTHER

section \<open>The interface\<close>

type_synonym loc = "int \<times> u64"

record 'k platform =
  USE_DMA :: bool
  LLAMA :: bool
  ALLOC_LRU :: bool
  sys_mmap :: "ptr \<Rightarrow> u64 \<Rightarrow> u32 \<Rightarrow> u32 \<Rightarrow> int \<Rightarrow> u64 \<Rightarrow> 'k \<Rightarrow> ptr \<times> 'k"
  sys_munmap :: "ptr \<Rightarrow> u64 \<Rightarrow> 'k \<Rightarrow> int \<times> 'k"
  uffdio_register :: "u64 \<Rightarrow> u64 \<Rightarrow> 'k \<Rightarrow> int \<times> 'k"
  uffdio_cr3 :: "'k \<Rightarrow> int \<times> u64 \<times> 'k"
  uffdio_dma_copy :: "u64 \<Rightarrow> u64 \<Rightarrow> u64 \<Rightarrow> 'k \<Rightarrow> int \<times> 'k"
  uffdio_writeprotect :: "u64 \<Rightarrow> u64 \<Rightarrow> bool \<Rightarrow> 'k \<Rightarrow> int \<times> errno \<times> 'k"
  uffdio_wake :: "u64 \<Rightarrow> u64 \<Rightarrow> 'k \<Rightarrow> int \<times> 'k"
  uffdio_tlbflush :: "u64 \<Rightarrow> u64 \<Rightarrow> 'k \<Rightarrow> int \<times> 'k"
  uffdio_get_flag :: "u64 \<Rightarrow> 'k \<Rightarrow> int \<times> u64 \<times> u64 \<times> 'k"
  uffdio_clear_flag :: "u64 \<Rightarrow> 'k \<Rightarrow> int \<times> u64 \<times> 'k"
  mem_copy :: "u64 \<Rightarrow> u64 \<Rightarrow> u64 \<Rightarrow> 'k \<Rightarrow> 'k"
  mem_set :: "u64 \<Rightarrow> u8 \<Rightarrow> u64 \<Rightarrow> 'k \<Rightarrow> 'k"
  vmap :: "'k \<Rightarrow> u64 \<Rightarrow> loc option"
  dev :: "'k \<Rightarrow> loc \<Rightarrow> u8"

text \<open>\<open>a\<close> lies in the \<open>n\<close> bytes from \<open>b\<close>, addresses wrapping as they do in C.\<close>

definition in_range :: "u64 \<Rightarrow> u64 \<Rightarrow> u64 \<Rightarrow> bool" where
  "in_range b n a \<longleftrightarrow> a - b < n"

text \<open>What a program reads at a virtual address.\<close>

definition load8 :: "'k platform \<Rightarrow> 'k \<Rightarrow> u64 \<Rightarrow> u8 option" where
  "load8 E k a = map_option (dev E k) (vmap E k a)"

section \<open>What the library relies on\<close>

definition same_memory :: "'k platform \<Rightarrow> 'k \<Rightarrow> 'k \<Rightarrow> bool" where
  "same_memory E k k' \<longleftrightarrow> vmap E k' = vmap E k \<and> dev E k' = dev E k"

text \<open>
  A range that is a plain window onto a device: consecutive addresses see consecutive locations.
\<close>

definition window :: "'k platform \<Rightarrow> 'k \<Rightarrow> u64 \<Rightarrow> u64 \<Rightarrow> int \<Rightarrow> u64 \<Rightarrow> bool" where
  "window E k b n fd off \<longleftrightarrow> (\<forall>i < n. vmap E k (b + i) = Some (fd, off + i))"

text \<open>
  \<^verbatim>\<open>mmap(2)\<close>: a successful \<^verbatim>\<open>MAP_FIXED\<close> mapping is placed where it was asked for
  and replaces what was there; the bytes of the device do not change.
\<close>

definition mmap_ok :: "'k platform \<Rightarrow> bool" where
  "mmap_ok E \<longleftrightarrow> (\<forall>a n pr fl fd off k p k'. sys_mmap E a n pr fl fd off k = (p, k') \<longrightarrow>
     fl AND MAP_FIXED = MAP_FIXED \<longrightarrow> p \<noteq> MAP_FAILED \<longrightarrow>
     p = a \<and> dev E k' = dev E k \<and>
     vmap E k' = (\<lambda>x. if in_range a n x then Some (fd, off + (x - a)) else vmap E k x))"

text \<open>The \<^verbatim>\<open>userfaultfd\<close> requests change neither mappings nor bytes.\<close>

definition uffd_ok :: "'k platform \<Rightarrow> bool" where
  "uffd_ok E \<longleftrightarrow>
     (\<forall>a n k. same_memory E k (snd (uffdio_register E a n k))) \<and>
     (\<forall>k. same_memory E k (snd (snd (uffdio_cr3 E k)))) \<and>
     (\<forall>a n w k. same_memory E k (snd (snd (uffdio_writeprotect E a n w k)))) \<and>
     (\<forall>a n k. same_memory E k (snd (uffdio_wake E a n k))) \<and>
     (\<forall>a n k. same_memory E k (snd (uffdio_tlbflush E a n k)))"

text \<open>
  \<^verbatim>\<open>memcpy(3)\<close> and the DMA copy between two windows on disjoint locations: the destination
  gets the bytes of the source, no other byte changes.
\<close>

definition copied :: "'k platform \<Rightarrow> loc \<Rightarrow> loc \<Rightarrow> u64 \<Rightarrow> 'k \<Rightarrow> 'k \<Rightarrow> bool" where
  "copied E d s n k k' \<longleftrightarrow> vmap E k' = vmap E k \<and>
     dev E k' = (\<lambda>(fd, x). if fd = fst d \<and> in_range (snd d) n x
                           then dev E k (fst s, snd s + (x - snd d)) else dev E k (fd, x))"

definition copy_ok :: "'k platform \<Rightarrow> bool" where
  "copy_ok E \<longleftrightarrow> (\<forall>k dst src n fd off fs offs.
     window E k dst n fd off \<longrightarrow> window E k src n fs offs \<longrightarrow> fd \<noteq> fs \<longrightarrow>
     copied E (fd, off) (fs, offs) n k (mem_copy E dst src n k) \<and>
     (fst (uffdio_dma_copy E src dst n k) \<noteq> - 1 \<longrightarrow>
        copied E (fd, off) (fs, offs) n k (snd (uffdio_dma_copy E src dst n k))))"

definition set_ok :: "'k platform \<Rightarrow> bool" where
  "set_ok E \<longleftrightarrow> (\<forall>k dst c n fd off. window E k dst n fd off \<longrightarrow>
     vmap E (mem_set E dst c n k) = vmap E k \<and>
     dev E (mem_set E dst c n k) =
       (\<lambda>(f, x). if f = fd \<and> in_range off n x then c else dev E k (f, x)))"

definition platform_ok :: "'k platform \<Rightarrow> bool" where
  "platform_ok E \<longleftrightarrow> mmap_ok E \<and> uffd_ok E \<and> copy_ok E \<and> set_ok E"

lemma same_memory_refl [simp]: "same_memory E k k"
  by (simp add: same_memory_def)

lemma in_range_self [simp]: "in_range b n b \<longleftrightarrow> 0 < n"
  by (simp add: in_range_def)

lemma in_range_offset: "in_range b n (b + i) \<longleftrightarrow> i < n"
  by (simp add: in_range_def)

lemma in_range_add: "in_range (b + i) n x \<longleftrightarrow> in_range i n (x - b)"
  by (simp add: in_range_def algebra_simps)

lemma in_range_nat:
  assumes "unat b + unat n \<le> 2 ^ 64"
  shows "in_range b n x \<longleftrightarrow> unat b \<le> unat x \<and> unat x < unat b + unat n"
proof (cases "b \<le> x")
  case True
  then show ?thesis
    by (auto simp: in_range_def word_less_nat_alt word_le_nat_alt unat_sub)
next
  case False
  then have lt: "unat x < unat b"
    by (simp add: word_less_nat_alt not_le)
  then have "unat (x - b) = 2 ^ 64 + unat x - unat b"
    using unat_sub_if' [of x b] by simp
  with lt assms show ?thesis
    by (simp add: in_range_def word_less_nat_alt)
qed

lemma window_loc:
  assumes "window E k b n fd off" and "in_range b n a"
  shows "vmap E k a = Some (fd, off + (a - b))"
  using assms by (auto simp: window_def in_range_def dest: spec [of _ "a - b"])

lemma window_sub:
  assumes "window E k b n fd off" and "unat i + unat m \<le> unat n"
  shows "window E k (b + i) m fd (off + i)"
proof -
  have "i + j < n" if "j < m" for j
    using that assms(2) unat_less_power [of n]
    by (simp add: word_less_nat_alt unat_plus_if')
  with assms(1) show ?thesis
    by (simp add: window_def add.assoc)
qed

section \<open>A concrete platform\<close>

text \<open>
  Address translation and device bytes as two functions, every request succeeding; a mapping
  without an address hint goes to \<open>2 ^ 40\<close>.
\<close>

record sim_state =
  sim_map :: "u64 \<Rightarrow> loc option"
  sim_dev :: "loc \<Rightarrow> u8"

definition sim_copy :: "u64 \<Rightarrow> u64 \<Rightarrow> u64 \<Rightarrow> sim_state \<Rightarrow> sim_state" where
  "sim_copy dst src n k =
     (case (sim_map k dst, sim_map k src) of
        (Some (fd, off), Some (fs, offs)) \<Rightarrow>
          k\<lparr>sim_dev := (\<lambda>(f, x). if f = fd \<and> in_range off n x then sim_dev k (fs, offs + (x - off))
                                else sim_dev k (f, x))\<rparr>
      | _ \<Rightarrow> k)"

definition sim_set :: "u64 \<Rightarrow> u8 \<Rightarrow> u64 \<Rightarrow> sim_state \<Rightarrow> sim_state" where
  "sim_set dst c n k =
     (case sim_map k dst of
        Some (fd, off) \<Rightarrow>
          k\<lparr>sim_dev := (\<lambda>(f, x). if f = fd \<and> in_range off n x then c else sim_dev k (f, x))\<rparr>
      | None \<Rightarrow> k)"

definition sim_mmap :: "ptr \<Rightarrow> u64 \<Rightarrow> int \<Rightarrow> u64 \<Rightarrow> sim_state \<Rightarrow> ptr \<times> sim_state" where
  "sim_mmap a n fd off k =
     (a, k\<lparr>sim_map := (\<lambda>x. if in_range a n x then Some (fd, off + (x - a)) else sim_map k x)\<rparr>)"

definition sim_munmap :: "ptr \<Rightarrow> u64 \<Rightarrow> sim_state \<Rightarrow> sim_state" where
  "sim_munmap a n k = k\<lparr>sim_map := (\<lambda>x. if in_range a n x then None else sim_map k x)\<rparr>"

definition sim :: "bool \<Rightarrow> bool \<Rightarrow> bool \<Rightarrow> sim_state platform" where
  "sim dma llama lru = \<lparr>USE_DMA = dma, LLAMA = llama, ALLOC_LRU = lru,
     sys_mmap = (\<lambda>a n pr fl fd off. sim_mmap (if fl AND MAP_FIXED = MAP_FIXED \<or> a \<noteq> 0 then a else 2 ^ 40) n fd off),
     sys_munmap = (\<lambda>a n k. (0, sim_munmap a n k)),
     uffdio_register = (\<lambda>a n k. (0, k)), uffdio_cr3 = (\<lambda>k. (0, 0, k)),
     uffdio_dma_copy = (\<lambda>src dst n k. (0, sim_copy dst src n k)),
     uffdio_writeprotect = (\<lambda>a n w k. (0, EOTHER, k)),
     uffdio_wake = (\<lambda>a n k. (0, k)), uffdio_tlbflush = (\<lambda>a n k. (0, k)),
     uffdio_get_flag = (\<lambda>a k. (0, 0, 0, k)), uffdio_clear_flag = (\<lambda>a k. (0, 0, k)),
     mem_copy = sim_copy, mem_set = sim_set, vmap = sim_map, dev = sim_dev\<rparr>"

lemmas sim_defs = sim_def sim_copy_def sim_set_def sim_mmap_def sim_munmap_def

lemma sim_select:
  "USE_DMA (sim d l a) = d" "LLAMA (sim d l a) = l" "ALLOC_LRU (sim d l a) = a"
  "vmap (sim d l a) = sim_map" "dev (sim d l a) = sim_dev"
  "sys_mmap (sim d l a) p n pr fl fd off =
     sim_mmap (if fl AND MAP_FIXED = MAP_FIXED \<or> p \<noteq> 0 then p else 2 ^ 40) n fd off"
  "sys_munmap (sim d l a) p n k = (0, sim_munmap p n k)"
  "uffdio_register (sim d l a) x n k = (0, k)" "uffdio_cr3 (sim d l a) k = (0, 0, k)"
  "uffdio_dma_copy (sim d l a) src dst n k = (0, sim_copy dst src n k)"
  "uffdio_writeprotect (sim d l a) x n w k = (0, EOTHER, k)"
  "uffdio_wake (sim d l a) x n k = (0, k)" "uffdio_tlbflush (sim d l a) x n k = (0, k)"
  "uffdio_get_flag (sim d l a) x k = (0, 0, 0, k)" "uffdio_clear_flag (sim d l a) x k = (0, 0, k)"
  "mem_copy (sim d l a) = sim_copy" "mem_set (sim d l a) = sim_set"
  by (simp_all add: sim_def)

lemma window_empty: "\<not> 0 < n \<Longrightarrow> \<not> in_range off (n :: u64) x"
  by (simp add: in_range_def word_neq_0_conv [symmetric])

lemma window_start: "window E k b n fd off \<Longrightarrow> 0 < n \<Longrightarrow> vmap E k b = Some (fd, off)"
  using window_loc [of E k b n fd off b] by simp

lemma sim_set_ok: "set_ok (sim d l a)"
proof -
  have "sim_map (sim_set dst c n k) = sim_map k \<and> sim_dev (sim_set dst c n k) =
      (\<lambda>(f, x). if f = fd \<and> in_range off n x then c else sim_dev k (f, x))"
    if w: "window (sim d l a) k dst n fd off" for k dst c n fd off
  proof (cases "0 < n")
    case True
    from window_start [OF w this] show ?thesis
      by (simp add: sim_set_def sim_select)
  next
    case False
    then show ?thesis
      by (auto simp: sim_set_def window_empty split: option.splits)
  qed
  then show ?thesis
    unfolding set_ok_def sim_select by blast
qed

lemma sim_copy_ok: "copy_ok (sim d l a)"
proof -
  have "copied (sim d l a) (fd, off) (fs, offs) n k (sim_copy dst src n k)"
    if w: "window (sim d l a) k dst n fd off" "window (sim d l a) k src n fs offs"
    for k dst src n fd off fs offs
  proof (cases "0 < n")
    case True
    from window_start [OF w(1) this] window_start [OF w(2) this] show ?thesis
      by (auto simp: copied_def sim_copy_def sim_select fun_eq_iff)
  next
    case False
    then show ?thesis
      by (auto simp: copied_def sim_copy_def sim_select window_empty fun_eq_iff split: option.splits)
  qed
  then show ?thesis
    by (simp add: copy_ok_def sim_select)
qed

lemma sim_ok: "platform_ok (sim d l a)"
  using sim_set_ok sim_copy_ok
  by (auto simp: platform_ok_def mmap_ok_def uffd_ok_def sim_select sim_mmap_def fun_eq_iff)

end
