(* ===== verification/Hemem.thy ===== *)
theory Hemem
  imports Fifo Platform
begin

text \<open>
  \<^verbatim>\<open>src/hemem.c\<close>: the memory manager proper. It owns the table of managed pages, serves
  \<^verbatim>\<open>mmap\<close>, \<^verbatim>\<open>munmap\<close> and page faults for the application, and moves a page between
  the two devices. Which page to hand out and when to move one is the policy's business: the
  policy's \<^verbatim>\<open>pagefault\<close> and \<^verbatim>\<open>mmgr_remove\<close> are arguments of the functions that
  call them (the policy is chosen when the library is compiled).

  The state is the record \<open>hemem\<close>: the global variables, the heaps of the page
  descriptors and lists it extends, the \<^verbatim>\<open>uthash\<close> table \<^verbatim>\<open>pages\<close> as a map from a virtual
  address to a descriptor, the calling thread's \<^verbatim>\<open>internal_call\<close>, and the kernel's state. A
  section under a mutex is one step. Logging and timing have no effect on the state.
\<close>

section \<open>The state\<close>

record 'k hemem = mem +
  nvmsize :: u64
  dramsize :: u64
  nvmoffset :: u64
  dramoffset :: u64
  dramfd :: int
  nvmfd :: int
  is_init :: bool
  mem_mmaped :: u64
  mem_allocated :: u64
  pages_allocated :: u64
  pages_freed :: u64
  missing_faults_handled :: u64
  migrations_up :: u64
  migrations_down :: u64
  bytes_migrated :: u64
  memcpys :: u64
  memsets :: u64
  migration_waits :: u64
  cr3_set :: bool
  cr3 :: u64
  dram_devdax_mmap :: ptr
  nvm_devdax_mmap :: ptr
  internal_call :: bool
  pages :: "u64 \<rightharpoonup> ptr"
  kern :: 'k

text \<open>The values of the globals when the library is loaded.\<close>

definition hemem_boot :: "'k \<Rightarrow> 'k hemem" where
  "hemem_boot k = \<lparr>page_heap = (\<lambda>_. zero_page), list_heap = (\<lambda>_. empty_list), nvmsize = 0,
     dramsize = 0, nvmoffset = 0, dramoffset = 0, dramfd = - 1, nvmfd = - 1, is_init = False,
     mem_mmaped = 0, mem_allocated = 0, pages_allocated = 0, pages_freed = 0,
     missing_faults_handled = 0, migrations_up = 0, migrations_down = 0, bytes_migrated = 0,
     memcpys = 0, memsets = 0, migration_waits = 0, cr3_set = False, cr3 = 0,
     dram_devdax_mmap = NULL, nvm_devdax_mmap = NULL, internal_call = False, pages = Map.empty,
     kern = k\<rparr>"

section \<open>The page table of the library\<close>

definition find_page :: "u64 \<Rightarrow> ('k, 'a) hemem_scheme \<Rightarrow> ptr" where
  "find_page v s = (case pages s v of None \<Rightarrow> NULL | Some p \<Rightarrow> p)"

definition get_hemem_page :: "u64 \<Rightarrow> ('k, 'a) hemem_scheme \<Rightarrow> ptr" where
  "get_hemem_page v s = find_page v s"

definition add_page :: "ptr \<Rightarrow> ('k, 'a) hemem_scheme \<Rightarrow> ('k, 'a) hemem_scheme option" where
  "add_page page s = do {
     let p = find_page (va (page_heap s page)) s;
     assert (p = NULL);
     Some (s\<lparr>pages := (pages s)(va (page_heap s page) \<mapsto> page)\<rparr>)
   }"

text \<open>\<^verbatim>\<open>HASH_DEL\<close> unlinks the descriptor's own handle, not a key.\<close>

definition remove_page :: "ptr \<Rightarrow> ('k, 'a) hemem_scheme \<Rightarrow> ('k, 'a) hemem_scheme" where
  "remove_page page s = s\<lparr>pages := (\<lambda>v. if pages s v = Some page then None else pages s v)\<rparr>"

section \<open>Calls into the platform\<close>

definition libc_mmap :: "'k platform \<Rightarrow> ptr \<Rightarrow> u64 \<Rightarrow> u32 \<Rightarrow> u32 \<Rightarrow> int \<Rightarrow> u64 \<Rightarrow>
    ('k, 'a) hemem_scheme \<Rightarrow> ptr \<times> ('k, 'a) hemem_scheme" where
  "libc_mmap E addr len prot fl fd off s =
     (let (p, k) = sys_mmap E addr len prot fl fd off (kern s) in (p, s\<lparr>kern := k\<rparr>))"

text \<open>The registration every new mapping gets; the process aborts when it fails.\<close>

definition register_uffd ::
    "'k platform \<Rightarrow> u64 \<Rightarrow> u64 \<Rightarrow> ('k, 'a) hemem_scheme \<Rightarrow> ('k, 'a) hemem_scheme option" where
  "register_uffd E start len s =
     (let (r, k) = uffdio_register E start len (kern s)
      in do { assert (r \<noteq> - 1); Some (s\<lparr>kern := k\<rparr>) })"

section \<open>Parallel copies\<close>

definition MAX_COPY_THREADS :: u64 where [c_consts]: "MAX_COPY_THREADS = 4"

text \<open>
  One round of a copy thread, between the two barrier waits; \<open>dst\<close>, \<open>src\<close>,
  \<open>len\<close> and \<open>zeros\<close> are the fields of the shared \<^verbatim>\<open>struct pmemcpy\<close>.
\<close>

definition hemem_parallel_memcpy_thread :: "'k platform \<Rightarrow> u64 \<Rightarrow> u64 \<Rightarrow> u64 \<Rightarrow> bool \<Rightarrow> u64 \<Rightarrow>
    ('k, 'a) hemem_scheme \<Rightarrow> ('k, 'a) hemem_scheme option" where
  "hemem_parallel_memcpy_thread E dst src len zeros tid s = do {
     assert (tid < MAX_COPY_THREADS);
     let s = (if tid = 0 then s\<lparr>memcpys := memcpys s + 1\<rparr> else s);
     let chunk_size = len div MAX_COPY_THREADS;
     let dst = dst + tid * chunk_size;
     Some (if \<not> zeros
           then let src = src + tid * chunk_size in s\<lparr>kern := mem_copy E dst src chunk_size (kern s)\<rparr>
           else s\<lparr>kern := mem_set E dst 0 chunk_size (kern s)\<rparr>)
   }"

text \<open>The rounds of the threads \<open>tids\<close>, in the order in which they get to run.\<close>

fun run_copy_threads :: "'k platform \<Rightarrow> u64 \<Rightarrow> u64 \<Rightarrow> u64 \<Rightarrow> bool \<Rightarrow> u64 list \<Rightarrow>
    ('k, 'a) hemem_scheme \<Rightarrow> ('k, 'a) hemem_scheme option" where
  "run_copy_threads E dst src len zeros [] s = Some s"
| "run_copy_threads E dst src len zeros (tid # tids) s =
     hemem_parallel_memcpy_thread E dst src len zeros tid s \<bind>
     run_copy_threads E dst src len zeros tids"

definition hemem_parallel_memcpy :: "'k platform \<Rightarrow> u64 \<Rightarrow> u64 \<Rightarrow> u64 \<Rightarrow>
    ('k, 'a) hemem_scheme \<Rightarrow> ('k, 'a) hemem_scheme option" where
  "hemem_parallel_memcpy E dst src len s = run_copy_threads E dst src len False [0, 1, 2, 3] s"

definition hemem_parallel_memset :: "'k platform \<Rightarrow> u64 \<Rightarrow> u8 \<Rightarrow> u64 \<Rightarrow>
    ('k, 'a) hemem_scheme \<Rightarrow> ('k, 'a) hemem_scheme option" where
  "hemem_parallel_memset E addr c n s = run_copy_threads E addr 0 n True [0, 1, 2, 3] s"

text \<open>
  Copying a page for a migration, and clearing a new one, under the build's \<^verbatim>\<open>#ifdef\<close>s: with
  \<^verbatim>\<open>USE_DMA\<close> a page is cleared only in the \<^verbatim>\<open>LLAMA\<close> build.
\<close>

definition copy_page :: "'k platform \<Rightarrow> u64 \<Rightarrow> u64 \<Rightarrow> u64 \<Rightarrow>
    ('k, 'a) hemem_scheme \<Rightarrow> ('k, 'a) hemem_scheme option" where
  "copy_page E new_addr old_addr pagesize s =
     (if USE_DMA E
      then let (r, k) = uffdio_dma_copy E old_addr new_addr pagesize (kern s)
           in do { assert (r \<noteq> - 1); Some (s\<lparr>kern := k\<rparr>) }
      else hemem_parallel_memcpy E new_addr old_addr pagesize s)"

definition clear_page :: "'k platform \<Rightarrow> u64 \<Rightarrow> u64 \<Rightarrow>
    ('k, 'a) hemem_scheme \<Rightarrow> ('k, 'a) hemem_scheme option" where
  "clear_page E tmpaddr pagesize s =
     (if \<not> USE_DMA E then hemem_parallel_memset E tmpaddr 0 pagesize s
      else if LLAMA E then Some (s\<lparr>kern := mem_set E tmpaddr 0 pagesize (kern s)\<rparr>)
      else Some s)"

section \<open>Accessed and dirty bits, write protection\<close>

definition hemem_tlb_shootdown ::
    "'k platform \<Rightarrow> u64 \<Rightarrow> ('k, 'a) hemem_scheme \<Rightarrow> ('k, 'a) hemem_scheme option" where
  "hemem_tlb_shootdown E v s = do {
     let page_boundry = v AND NOT (PAGE_SIZE - 1);
     let (ret, k) = uffdio_tlbflush E page_boundry PAGE_SIZE (kern s);
     assert (\<not> ret < 0);
     Some (s\<lparr>kern := k\<rparr>)
   }"

text \<open>The migrations flush the translation of a moved page in the LRU builds only.\<close>

definition flush_migrated ::
    "'k platform \<Rightarrow> u64 \<Rightarrow> ('k, 'a) hemem_scheme \<Rightarrow> ('k, 'a) hemem_scheme option" where
  "flush_migrated E v s = (if ALLOC_LRU E then hemem_tlb_shootdown E v s else Some s)"

text \<open>
  \<^verbatim>\<open>hemem_clear_bits\<close> reads nothing of its argument but the address; the LRU policy calls it
  with a descriptor on the stack that has no other member set.
\<close>

definition clear_bits_at ::
    "'k platform \<Rightarrow> u64 \<Rightarrow> ('k, 'a) hemem_scheme \<Rightarrow> ('k, 'a) hemem_scheme option" where
  "clear_bits_at E v s = do {
     assert (v mod HUGEPAGE_SIZE = 0);
     let (r, res1, k) = uffdio_clear_flag E v (kern s);
     assert (\<not> r < 0);
     Some (s\<lparr>kern := k\<rparr>)
   }"

definition hemem_clear_bits ::
    "'k platform \<Rightarrow> ptr \<Rightarrow> ('k, 'a) hemem_scheme \<Rightarrow> ('k, 'a) hemem_scheme option" where
  "hemem_clear_bits E page s = clear_bits_at E (va (page_heap s page)) s"

definition hemem_get_bits ::
    "'k platform \<Rightarrow> ptr \<Rightarrow> ('k, 'a) hemem_scheme \<Rightarrow> (u64 \<times> ('k, 'a) hemem_scheme) option" where
  "hemem_get_bits E page s = do {
     let v = va (page_heap s page);
     assert (v mod HUGEPAGE_SIZE = 0);
     let (r, res1, res2, k) = uffdio_get_flag E v (kern s);
     assert (\<not> r < 0);
     Some (res1 OR res2, s\<lparr>kern := k\<rparr>)
   }"

definition hemem_wp_page ::
    "'k platform \<Rightarrow> ptr \<Rightarrow> bool \<Rightarrow> ('k, 'a) hemem_scheme \<Rightarrow> ('k, 'a) hemem_scheme option" where
  "hemem_wp_page E page protect s = do {
     assert (page \<noteq> NULL);
     let addr = va (page_heap s page);
     pagesize \<leftarrow> pt_to_pagesize (pt (page_heap s page));
     let s = s\<lparr>internal_call := True\<rparr>;
     assert (addr \<noteq> 0);
     assert (addr mod HUGEPAGE_SIZE = 0);
     let (ret, err, k) = uffdio_writeprotect E addr pagesize protect (kern s);
     let s = s\<lparr>kern := k\<rparr>;
     assert (\<not> (ret < 0 \<and> \<not> (err = EBADF \<or> err = ENOENT)));
     Some (s\<lparr>internal_call := False\<rparr>)
   }"

section \<open>Migration\<close>

definition hemem_migrate_up ::
    "'k platform \<Rightarrow> ptr \<Rightarrow> u64 \<Rightarrow> ('k, 'a) hemem_scheme \<Rightarrow> ('k, 'a) hemem_scheme option" where
  "hemem_migrate_up E page dram_offset s = do {
     let s = s\<lparr>internal_call := True\<rparr>;
     assert (page \<noteq> NULL);
     assert (\<not> in_dram (page_heap s page));
     pagesize \<leftarrow> pt_to_pagesize (pt (page_heap s page));
     let old_addr_offset = devdax_offset (page_heap s page);
     let new_addr_offset = dram_offset;
     let old_addr = nvm_devdax_mmap s + (old_addr_offset - nvmoffset s);
     assert (old_addr_offset - nvmoffset s < nvmsize s);
     assert (old_addr_offset - nvmoffset s + pagesize \<le> nvmsize s);
     let new_addr = dram_devdax_mmap s + (new_addr_offset - dramoffset s);
     assert (new_addr_offset - dramoffset s < dramsize s);
     assert (new_addr_offset - dramoffset s + pagesize \<le> dramsize s);
     s \<leftarrow> copy_page E new_addr old_addr pagesize s;
     let (newptr, s) = libc_mmap E (va (page_heap s page)) pagesize (PROT_READ OR PROT_WRITE)
           (MAP_SHARED OR MAP_POPULATE OR MAP_FIXED) (dramfd s) new_addr_offset s;
     assert (newptr \<noteq> MAP_FAILED);
     assert (va (page_heap s page) mod HUGEPAGE_SIZE = 0);
     s \<leftarrow> register_uffd E newptr pagesize s;
     let s = upd_page page (\<lambda>p. p\<lparr>page_migrations_up := page_migrations_up p + 1\<rparr>) s;
     let s = s\<lparr>migrations_up := migrations_up s + 1\<rparr>;
     let s = upd_page page (\<lambda>p. p\<lparr>devdax_offset := dram_offset, in_dram := True\<rparr>) s;
     s \<leftarrow> flush_migrated E (va (page_heap s page)) s;
     let s = s\<lparr>bytes_migrated := bytes_migrated s + pagesize\<rparr>;
     Some (s\<lparr>internal_call := False\<rparr>)
   }"

definition hemem_migrate_down ::
    "'k platform \<Rightarrow> ptr \<Rightarrow> u64 \<Rightarrow> ('k, 'a) hemem_scheme \<Rightarrow> ('k, 'a) hemem_scheme option" where
  "hemem_migrate_down E page nvm_offset s = do {
     let s = s\<lparr>internal_call := True\<rparr>;
     assert (page \<noteq> NULL);
     assert (in_dram (page_heap s page));
     pagesize \<leftarrow> pt_to_pagesize (pt (page_heap s page));
     let old_addr_offset = devdax_offset (page_heap s page);
     let new_addr_offset = nvm_offset;
     let old_addr = dram_devdax_mmap s + (old_addr_offset - dramoffset s);
     assert (old_addr_offset - dramoffset s < dramsize s);
     assert (old_addr_offset - dramoffset s + pagesize \<le> dramsize s);
     let new_addr = nvm_devdax_mmap s + (new_addr_offset - nvmoffset s);
     assert (new_addr_offset - nvmoffset s < nvmsize s);
     assert (new_addr_offset - nvmoffset s + pagesize \<le> nvmsize s);
     s \<leftarrow> copy_page E new_addr old_addr pagesize s;
     let (newptr, s) = libc_mmap E (va (page_heap s page)) pagesize (PROT_READ OR PROT_WRITE)
           (MAP_SHARED OR MAP_POPULATE OR MAP_FIXED) (nvmfd s) new_addr_offset s;
     assert (newptr \<noteq> MAP_FAILED);
     assert (va (page_heap s page) mod HUGEPAGE_SIZE = 0);
     s \<leftarrow> register_uffd E newptr pagesize s;
     let s = upd_page page (\<lambda>p. p\<lparr>page_migrations_down := page_migrations_down p + 1\<rparr>) s;
     let s = s\<lparr>migrations_down := migrations_down s + 1\<rparr>;
     let s = upd_page page (\<lambda>p. p\<lparr>devdax_offset := nvm_offset, in_dram := False\<rparr>) s;
     s \<leftarrow> flush_migrated E (va (page_heap s page)) s;
     let s = s\<lparr>bytes_migrated := bytes_migrated s + pagesize\<rparr>;
     Some (s\<lparr>internal_call := False\<rparr>)
   }"

section \<open>Mapping and unmapping\<close>

text \<open>
  The body of the loop of \<^verbatim>\<open>hemem_mmap_populate\<close>: the policy finds a frame, which is mapped
  at \<open>page_boundry\<close> and entered into the table. The result is the next boundary.
\<close>

definition populate_page :: "'k platform \<Rightarrow> (('k, 'a) hemem_scheme \<Rightarrow> (ptr \<times> ('k, 'a) hemem_scheme) option) \<Rightarrow>
    u64 \<Rightarrow> ('k, 'a) hemem_scheme \<Rightarrow> (u64 \<times> ('k, 'a) hemem_scheme) option" where
  "populate_page E pagefault page_boundry s = do {
     (page, s) \<leftarrow> pagefault s;
     assert (page \<noteq> NULL);
     let offset = devdax_offset (page_heap s page);
     let dram = in_dram (page_heap s page);
     pagesize \<leftarrow> pt_to_pagesize (pt (page_heap s page));
     let tmpaddr = (if dram then dram_devdax_mmap s + (offset - dramoffset s)
                    else nvm_devdax_mmap s + (offset - nvmoffset s));
     s \<leftarrow> clear_page E tmpaddr pagesize s;
     let s = s\<lparr>memsets := memsets s + 1\<rparr>;
     let (newptr, s) = libc_mmap E page_boundry pagesize (PROT_READ OR PROT_WRITE)
           (MAP_SHARED OR MAP_POPULATE OR MAP_FIXED) (if dram then dramfd s else nvmfd s) offset s;
     assert (newptr \<noteq> MAP_FAILED);
     s \<leftarrow> register_uffd E newptr pagesize s;
     let s = upd_page page (\<lambda>p. p\<lparr>va := newptr\<rparr>) s;
     assert (va (page_heap s page) \<noteq> 0);
     assert (va (page_heap s page) mod HUGEPAGE_SIZE = 0);
     let s = upd_page page (\<lambda>p. p\<lparr>migrating := False,
           page_migrations_up := 0, page_migrations_down := 0\<rparr>) s;
     let s = s\<lparr>mem_allocated := mem_allocated s + pagesize\<rparr>;
     let s = s\<lparr>pages_allocated := pages_allocated s + 1\<rparr>;
     s \<leftarrow> add_page page s;
     Some (page_boundry + pagesize, s)
   }"

partial_function (option) populate_loop :: "'k platform \<Rightarrow>
    (('k, 'a) hemem_scheme \<Rightarrow> (ptr \<times> ('k, 'a) hemem_scheme) option) \<Rightarrow>
    u64 \<Rightarrow> u64 \<Rightarrow> ('k, 'a) hemem_scheme \<Rightarrow> ('k, 'a) hemem_scheme option" where
  "populate_loop E pagefault limit page_boundry s =
     (if page_boundry < limit then do {
        (page_boundry, s) \<leftarrow> populate_page E pagefault page_boundry s;
        populate_loop E pagefault limit page_boundry s
      } else Some s)"

definition hemem_mmap_populate :: "'k platform \<Rightarrow>
    (('k, 'a) hemem_scheme \<Rightarrow> (ptr \<times> ('k, 'a) hemem_scheme) option) \<Rightarrow>
    u64 \<Rightarrow> u64 \<Rightarrow> ('k, 'a) hemem_scheme \<Rightarrow> ('k, 'a) hemem_scheme option" where
  "hemem_mmap_populate E pagefault addr len s = do {
     assert (addr \<noteq> 0);
     assert (len \<noteq> 0);
     populate_loop E pagefault (addr + len) addr s
   }"

definition mmap_flags :: "u32 \<Rightarrow> u32" where
  "mmap_flags fl =
     (let fl = (if fl AND MAP_PRIVATE = MAP_PRIVATE then (fl AND NOT MAP_PRIVATE) OR MAP_SHARED else fl);
          fl = (if fl AND MAP_ANONYMOUS = MAP_ANONYMOUS then fl AND NOT MAP_ANONYMOUS else fl);
          fl = (if fl AND MAP_HUGETLB = MAP_HUGETLB then fl AND NOT MAP_HUGETLB else fl)
      in fl)"

definition hemem_mmap :: "'k platform \<Rightarrow>
    (('k, 'a) hemem_scheme \<Rightarrow> (ptr \<times> ('k, 'a) hemem_scheme) option) \<Rightarrow>
    ptr \<Rightarrow> u64 \<Rightarrow> u32 \<Rightarrow> u32 \<Rightarrow> int \<Rightarrow> u64 \<Rightarrow> ('k, 'a) hemem_scheme \<Rightarrow>
    (ptr \<times> ('k, 'a) hemem_scheme) option" where
  "hemem_mmap E pagefault addr len prot fl fd offset s = do {
     let s = s\<lparr>internal_call := True\<rparr>;
     assert (is_init s);
     assert (len \<noteq> 0);
     let fl = mmap_flags fl;
     let len = PAGE_ROUND_UP len;
     let (p, s) = libc_mmap E addr len prot fl (dramfd s) (offset + dramoffset s) s;
     assert (p \<noteq> NULL \<and> p \<noteq> MAP_FAILED);
     s \<leftarrow> register_uffd E p len s;
     s \<leftarrow> (if \<not> cr3_set s then
             let (r, c, k) = uffdio_cr3 E (kern s)
             in do { assert (\<not> r < 0); Some (s\<lparr>kern := k, cr3 := c, cr3_set := True\<rparr>) }
           else Some s);
     s \<leftarrow> hemem_mmap_populate E pagefault p len s;
     let s = s\<lparr>mem_mmaped := len\<rparr>;
     Some (p, s\<lparr>internal_call := False\<rparr>)
   }"

definition unmap_page :: "(ptr \<Rightarrow> ('k, 'a) hemem_scheme \<Rightarrow> ('k, 'a) hemem_scheme option) \<Rightarrow>
    u64 \<Rightarrow> ('k, 'a) hemem_scheme \<Rightarrow> (u64 \<times> ('k, 'a) hemem_scheme) option" where
  "unmap_page mmgr_remove page_boundry s =
     (let page = find_page page_boundry s in
      if page \<noteq> NULL then do {
        let s = remove_page page s;
        s \<leftarrow> mmgr_remove page s;
        pagesize \<leftarrow> pt_to_pagesize (pt (page_heap s page));
        let s = s\<lparr>mem_allocated := mem_allocated s - pagesize\<rparr>;
        let s = s\<lparr>mem_mmaped := mem_mmaped s - pagesize\<rparr>;
        let s = s\<lparr>pages_freed := pages_freed s + 1\<rparr>;
        Some (page_boundry + pagesize, s)
      } else Some (page_boundry + BASEPAGE_SIZE, s))"

partial_function (option) munmap_loop :: "(ptr \<Rightarrow> ('k, 'a) hemem_scheme \<Rightarrow> ('k, 'a) hemem_scheme option) \<Rightarrow>
    u64 \<Rightarrow> u64 \<Rightarrow> ('k, 'a) hemem_scheme \<Rightarrow> ('k, 'a) hemem_scheme option" where
  "munmap_loop mmgr_remove limit page_boundry s =
     (if page_boundry < limit then do {
        (page_boundry, s) \<leftarrow> unmap_page mmgr_remove page_boundry s;
        munmap_loop mmgr_remove limit page_boundry s
      } else Some s)"

definition hemem_munmap :: "'k platform \<Rightarrow>
    (ptr \<Rightarrow> ('k, 'a) hemem_scheme \<Rightarrow> ('k, 'a) hemem_scheme option) \<Rightarrow>
    ptr \<Rightarrow> u64 \<Rightarrow> ('k, 'a) hemem_scheme \<Rightarrow> (int \<times> ('k, 'a) hemem_scheme) option" where
  "hemem_munmap E mmgr_remove addr len s = do {
     let s = s\<lparr>internal_call := True\<rparr>;
     s \<leftarrow> munmap_loop mmgr_remove (addr + len) addr s;
     let (ret, k) = sys_munmap E addr len (kern s);
     let s = s\<lparr>kern := k\<rparr>;
     Some (ret, s\<lparr>internal_call := False\<rparr>)
   }"

section \<open>Page faults\<close>

definition handle_wp_fault :: "u64 \<Rightarrow> ('k, 'a) hemem_scheme \<Rightarrow> ('k, 'a) hemem_scheme option" where
  "handle_wp_fault page_boundry s = do {
     let s = s\<lparr>internal_call := True\<rparr>;
     let page = find_page page_boundry s;
     assert (page \<noteq> NULL);
     let s = s\<lparr>migration_waits := migration_waits s + 1\<rparr>;
     assert (\<not> migrating (page_heap s page));
     Some (s\<lparr>internal_call := False\<rparr>)
   }"

definition handle_missing_fault :: "'k platform \<Rightarrow>
    (('k, 'a) hemem_scheme \<Rightarrow> (ptr \<times> ('k, 'a) hemem_scheme) option) \<Rightarrow>
    u64 \<Rightarrow> ('k, 'a) hemem_scheme \<Rightarrow> ('k, 'a) hemem_scheme option" where
  "handle_missing_fault E pagefault page_boundry s = do {
     let s = s\<lparr>internal_call := True\<rparr>;
     assert (page_boundry \<noteq> 0);
     (page, s) \<leftarrow> pagefault s;
     assert (page \<noteq> NULL);
     let offset = devdax_offset (page_heap s page);
     let dram = in_dram (page_heap s page);
     pagesize \<leftarrow> pt_to_pagesize (pt (page_heap s page));
     let tmp_offset = (if dram then dram_devdax_mmap s + (offset - dramoffset s)
                       else nvm_devdax_mmap s + (offset - nvmoffset s));
     s \<leftarrow> clear_page E tmp_offset pagesize s;
     let s = s\<lparr>memsets := memsets s + 1\<rparr>;
     let (newptr, s) = libc_mmap E page_boundry pagesize (PROT_READ OR PROT_WRITE)
           (MAP_SHARED OR MAP_POPULATE OR MAP_FIXED) (if dram then dramfd s else nvmfd s) offset s;
     assert (newptr \<noteq> MAP_FAILED);
     assert (newptr = page_boundry);
     s \<leftarrow> register_uffd E newptr pagesize s;
     let s = upd_page page (\<lambda>p. p\<lparr>va := newptr\<rparr>) s;
     assert (va (page_heap s page) \<noteq> 0);
     assert (va (page_heap s page) mod HUGEPAGE_SIZE = 0);
     let s = upd_page page (\<lambda>p. p\<lparr>migrating := False,
           page_migrations_up := 0, page_migrations_down := 0\<rparr>) s;
     let s = s\<lparr>mem_allocated := mem_allocated s + pagesize\<rparr>;
     s \<leftarrow> add_page page s;
     let s = s\<lparr>missing_faults_handled := missing_faults_handled s + 1\<rparr>;
     let s = s\<lparr>pages_allocated := pages_allocated s + 1\<rparr>;
     Some (s\<lparr>internal_call := False\<rparr>)
   }"

text \<open>A message read from the \<^verbatim>\<open>userfaultfd\<close> descriptor.\<close>

record uffd_msg =
  event :: u8
  fault_address :: u64
  fault_flags :: u64

definition UFFD_EVENT_PAGEFAULT :: u8 where [c_consts]: "UFFD_EVENT_PAGEFAULT = 18"
definition UFFD_EVENT_REMOVE :: u8 where [c_consts]: "UFFD_EVENT_REMOVE = 21"
definition UFFD_EVENT_UNMAP :: u8 where [c_consts]: "UFFD_EVENT_UNMAP = 22"
definition UFFD_PAGEFAULT_FLAG_WP :: u64 where [c_consts]: "UFFD_PAGEFAULT_FLAG_WP = 2"
definition SIZEOF_UFFD_MSG :: int where [c_consts]: "SIZEOF_UFFD_MSG = 32"
definition MAX_UFFD_MSGS :: int where [c_consts]: "MAX_UFFD_MSGS = 1"
definition POLLIN :: u16 where [c_consts]: "POLLIN = 1"
definition POLLERR :: u16 where [c_consts]: "POLLERR = 8"

definition handle_msg :: "'k platform \<Rightarrow>
    (('k, 'a) hemem_scheme \<Rightarrow> (ptr \<times> ('k, 'a) hemem_scheme) option) \<Rightarrow>
    uffd_msg \<Rightarrow> ('k, 'a) hemem_scheme \<Rightarrow> ('k, 'a) hemem_scheme option" where
  "handle_msg E pagefault msg s =
     (if event msg AND UFFD_EVENT_PAGEFAULT \<noteq> 0 then do {
        let page_boundry = fault_address msg AND NOT (PAGE_SIZE - 1);
        s \<leftarrow> (if fault_flags msg AND UFFD_PAGEFAULT_FLAG_WP \<noteq> 0
              then handle_wp_fault page_boundry s
              else handle_missing_fault E pagefault page_boundry s);
        let (ret, k) = uffdio_wake E page_boundry PAGE_SIZE (kern s);
        assert (\<not> ret < 0);
        Some (s\<lparr>kern := k\<rparr>)
      }
      else if event msg AND UFFD_EVENT_UNMAP \<noteq> 0 then None
      else if event msg AND UFFD_EVENT_REMOVE \<noteq> 0 then None
      else None)"

fun handle_msgs :: "'k platform \<Rightarrow>
    (('k, 'a) hemem_scheme \<Rightarrow> (ptr \<times> ('k, 'a) hemem_scheme) option) \<Rightarrow>
    uffd_msg list \<Rightarrow> ('k, 'a) hemem_scheme \<Rightarrow> ('k, 'a) hemem_scheme option" where
  "handle_msgs E pagefault [] s = Some s"
| "handle_msgs E pagefault (m # ms) s = handle_msg E pagefault m s \<bind> handle_msgs E pagefault ms"

text \<open>
  What one turn of the fault thread gets from \<^verbatim>\<open>poll\<close> and \<^verbatim>\<open>read\<close>: the results, whether
  \<^verbatim>\<open>errno\<close> is \<^verbatim>\<open>EAGAIN\<close>, and the buffer of messages.
\<close>

record fault_input =
  pollres :: int
  revents :: u16
  nread :: int
  eagain :: bool
  msg :: "uffd_msg list"

definition handle_fault_turn :: "'k platform \<Rightarrow>
    (('k, 'a) hemem_scheme \<Rightarrow> (ptr \<times> ('k, 'a) hemem_scheme) option) \<Rightarrow>
    fault_input \<Rightarrow> ('k, 'a) hemem_scheme \<Rightarrow> ('k, 'a) hemem_scheme option" where
  "handle_fault_turn E pagefault i s =
     (if pollres i = - 1 then None
      else if pollres i = 0 then Some s
      else if pollres i \<noteq> 1 then None
      else if revents i AND POLLERR \<noteq> 0 then None
      else if (if revents i = 0 then 1 else 0) AND POLLIN \<noteq> 0 then Some s
      else if nread i = 0 then None
      else if nread i < 0 then (if eagain i then Some s else None)
      else if nread i mod SIZEOF_UFFD_MSG \<noteq> 0 then None
      else handle_msgs E pagefault (take (nat (nread i div SIZEOF_UFFD_MSG)) (msg i)) s)"

fun handle_fault :: "'k platform \<Rightarrow>
    (('k, 'a) hemem_scheme \<Rightarrow> (ptr \<times> ('k, 'a) hemem_scheme) option) \<Rightarrow>
    fault_input list \<Rightarrow> ('k, 'a) hemem_scheme \<Rightarrow> ('k, 'a) hemem_scheme option" where
  "handle_fault E pagefault [] s = Some s"
| "handle_fault E pagefault (i # is) s =
     handle_fault_turn E pagefault i s \<bind> handle_fault E pagefault is"

section \<open>Statistics\<close>

definition hemem_clear_stats :: "('k, 'a) hemem_scheme \<Rightarrow> ('k, 'a) hemem_scheme" where
  "hemem_clear_stats s = s\<lparr>pages_allocated := 0, pages_freed := 0, missing_faults_handled := 0,
     migrations_up := 0, migrations_down := 0\<rparr>"

definition hemem_clear_stats_full :: "('k, 'a) hemem_scheme \<Rightarrow> ('k, 'a) hemem_scheme" where
  "hemem_clear_stats_full s = hemem_clear_stats (s\<lparr>migration_waits := 0, bytes_migrated := 0\<rparr>)"

end
