(* ===== verification/Migration.thy ===== *)
theory Migration
  imports Hemem
begin

text \<open>
  What \<^verbatim>\<open>src/hemem.c\<close> does to memory: the copy threads, the effect of
  \<^verbatim>\<open>hemem_migrate_up\<close> and \<^verbatim>\<open>hemem_migrate_down\<close> on the descriptor and on
  the bytes, and when these functions return. The theorems say that a migration cannot be
  observed by the application.
\<close>

section \<open>The copy threads\<close>

lemma chunk_bounds:
  fixes n t :: u64
  assumes n: "unat n mod 4 = 0" and t: "t < MAX_COPY_THREADS"
  defines "c \<equiv> n div MAX_COPY_THREADS"
  shows "unat n = 4 * unat c" and "unat t < 4" and "unat (t * c) = unat t * unat c"
    and "unat (t * c) + unat c \<le> unat n"
proof -
  have "unat c = unat n div 4"
    by (simp add: c_def MAX_COPY_THREADS_def unat_div)
  then show n4: "unat n = 4 * unat c"
    using n by presburger
  show t4: "unat t < 4"
    using t by (simp add: MAX_COPY_THREADS_def word_less_nat_alt)
  have "unat t * unat c \<le> 3 * unat c"
    using t4 by simp
  also have "\<dots> < 2 ^ 64"
    using n4 unat_less_power [of n] by simp
  finally show tc: "unat (t * c) = unat t * unat c"
    using unat_mult_lem [of t c] by simp
  show "unat (t * c) + unat c \<le> unat n"
    using t4 n4 by (simp add: tc)
qed

lemma chunk_index:
  fixes d n t :: u64
  assumes n: "unat n mod 4 = 0" "0 < n" and t: "t < MAX_COPY_THREADS"
  defines "c \<equiv> n div MAX_COPY_THREADS"
  shows "in_range (t * c) c d \<longleftrightarrow> in_range 0 n d \<and> d div c = t"
proof -
  note b = chunk_bounds [OF n(1) t, folded c_def]
  have c0: "0 < unat c"
    using b(1) n(2) by (simp add: word_less_nat_alt)
  have "in_range (t * c) c d \<longleftrightarrow> unat t * unat c \<le> unat d \<and> unat d < unat t * unat c + unat c"
    using in_range_nat [of "t * c" c d] unat_less_power [of n] b(3,4) by simp
  also have "\<dots> \<longleftrightarrow> unat d div unat c = unat t"
    by (rule div_eq_iff_between [OF c0, symmetric])
  also have "\<dots> \<longleftrightarrow> in_range 0 n d \<and> d div c = t"
  proof -
    have "unat d div unat c = unat t \<Longrightarrow> unat d < unat n"
      using b(1,2) c0 by (metis div_less_iff_less_mult)
    then show ?thesis
      by (auto simp: in_range_def word_less_nat_alt unat_div word_unat_eq_iff)
  qed
  finally show ?thesis .
qed

text \<open>Only the kernel's state and the copy counter differ.\<close>

definition copy_frame :: "('k, 'a) hemem_scheme \<Rightarrow> ('k, 'a) hemem_scheme \<Rightarrow> bool" where
  "copy_frame s s' \<longleftrightarrow> (\<exists>k m. s' = s\<lparr>memcpys := m, kern := k\<rparr>)"

lemma copy_frame_upd [intro, simp]: "copy_frame s (s\<lparr>memcpys := m, kern := k\<rparr>)"
  by (auto simp: copy_frame_def)

lemma copy_frame_intros [intro, simp]: "copy_frame s (s\<lparr>kern := k\<rparr>)" "copy_frame s s"
  using copy_frame_upd [where s = s and m = "memcpys s"] copy_frame_upd [where s = s and m = "memcpys s" and k = "kern s"] by simp_all

lemma copy_frame_trans: "copy_frame s t \<Longrightarrow> copy_frame t u \<Longrightarrow> copy_frame s u"
  unfolding copy_frame_def by fastforce

text \<open>The bytes a copy thread writes, and the effect of the threads that have run, in any order.\<close>

definition filled :: "'k platform \<Rightarrow> loc \<Rightarrow> loc \<Rightarrow> bool \<Rightarrow> (u64 \<Rightarrow> bool) \<Rightarrow> 'k \<Rightarrow> 'k \<Rightarrow> bool" where
  "filled E d s zeros R k k' \<longleftrightarrow> vmap E k' = vmap E k \<and>
     (\<forall>f x. dev E k' (f, x) = (if f = fst d \<and> R (x - snd d)
        then if zeros then 0 else dev E k (fst s, snd s + (x - snd d)) else dev E k (f, x)))"

lemma copied_filled: "copied E d s n k k' \<longleftrightarrow> filled E d s False (in_range 0 n) k k'"
  by (simp add: copied_def filled_def fun_eq_iff in_range_def)

lemma copy_thread_filled:
  assumes E: "platform_ok E" and n: "unat n mod 4 = 0" "0 < n" and t: "t < MAX_COPY_THREADS"
    and w: "window E (kern s) dst n fd off"
    and src: "zeros \<or> fd \<noteq> fs \<and> window E (kern s) src n fs offs"
  shows "\<exists>s'. hemem_parallel_memcpy_thread E dst src n zeros t s = Some s' \<and>
    copy_frame s s' \<and>
    filled E (fd, off) (fs, offs) zeros (\<lambda>d. in_range 0 n d \<and> d div (n div MAX_COPY_THREADS) = t)
      (kern s) (kern s')"
proof -
  let ?c = "n div MAX_COPY_THREADS"
  note sub = chunk_bounds(4) [OF n(1) t] and w' = window_sub [OF w chunk_bounds(4) [OF n(1) t]]
  define k' where "k' = (if zeros then mem_set E (dst + t * ?c) 0 ?c (kern s)
    else mem_copy E (dst + t * ?c) (src + t * ?c) ?c (kern s))"
  define s' where "s' = (if t = 0 then s\<lparr>memcpys := memcpys s + 1\<rparr> else s)\<lparr>kern := k'\<rparr>"
  have "filled E (fd, off + t * ?c) (fs, offs + t * ?c) zeros (in_range 0 ?c) (kern s) k'"
  proof (cases zeros)
    case True
    have "vmap E (mem_set E (dst + t * ?c) 0 ?c (kern s)) = vmap E (kern s) \<and>
      dev E (mem_set E (dst + t * ?c) 0 ?c (kern s)) =
        (\<lambda>(f, x). if f = fd \<and> in_range (off + t * ?c) ?c x then 0 else dev E (kern s) (f, x))"
      using E w' unfolding platform_ok_def set_ok_def by blast
    with True show ?thesis
      by (simp add: filled_def k'_def in_range_def)
  next
    case False
    then have "window E (kern s) (src + t * ?c) ?c fs (offs + t * ?c)" "fd \<noteq> fs"
      using src window_sub [OF _ sub] by auto
    then have "copied E (fd, off + t * ?c) (fs, offs + t * ?c) ?c (kern s)
        (mem_copy E (dst + t * ?c) (src + t * ?c) ?c (kern s))"
      using E w' unfolding platform_ok_def copy_ok_def by blast
    with False show ?thesis
      by (simp add: copied_filled k'_def)
  qed
  moreover have "in_range 0 ?c (x - (off + t * ?c)) \<longleftrightarrow> in_range 0 n (x - off) \<and> (x - off) div ?c = t" for x
    using chunk_index [OF n t, of "x - off"] by (simp add: in_range_def algebra_simps)
  ultimately have "filled E (fd, off) (fs, offs) zeros (\<lambda>d. in_range 0 n d \<and> d div ?c = t) (kern s) k'"
    by (simp add: filled_def algebra_simps)
  then show ?thesis
    using t by (intro exI [of _ s'])
      (auto simp: hemem_parallel_memcpy_thread_def s'_def k'_def Let_def)
qed

lemma run_copy_threads_filled:
  assumes E: "platform_ok E" and n: "unat n mod 4 = 0" "0 < n"
    and "\<forall>t \<in> set tids. t < MAX_COPY_THREADS" and "window E (kern s) dst n fd off"
    and "zeros \<or> fd \<noteq> fs \<and> window E (kern s) src n fs offs"
  shows "\<exists>s'. run_copy_threads E dst src n zeros tids s = Some s' \<and>
    copy_frame s s' \<and>
    filled E (fd, off) (fs, offs) zeros
      (\<lambda>d. in_range 0 n d \<and> d div (n div MAX_COPY_THREADS) \<in> set tids) (kern s) (kern s')"
  using assms(4-6)
proof (induction tids arbitrary: s)
  case Nil
  then show ?case by (simp add: filled_def)
next
  case (Cons t tids)
  obtain s1 where s1: "hemem_parallel_memcpy_thread E dst src n zeros t s = Some s1"
    "copy_frame s s1"
    "filled E (fd, off) (fs, offs) zeros (\<lambda>d. in_range 0 n d \<and> d div (n div MAX_COPY_THREADS) = t)
      (kern s) (kern s1)"
    using copy_thread_filled [OF E n _ Cons.prems(2,3), of t] Cons.prems(1) by auto
  then have vm: "vmap E (kern s1) = vmap E (kern s)"
    by (simp add: filled_def)
  obtain s' where s': "run_copy_threads E dst src n zeros tids s1 = Some s'"
    "copy_frame s1 s'"
    "filled E (fd, off) (fs, offs) zeros
      (\<lambda>d. in_range 0 n d \<and> d div (n div MAX_COPY_THREADS) \<in> set tids) (kern s1) (kern s')"
    using Cons.IH [of s1] Cons.prems by (auto simp: window_def vm)
  have "copy_frame s s'"
    using s1(2) s'(2) by (rule copy_frame_trans)
  moreover have "filled E (fd, off) (fs, offs) zeros
      (\<lambda>d. in_range 0 n d \<and> d div (n div MAX_COPY_THREADS) \<in> set (t # tids)) (kern s) (kern s')"
    using s1(3) s'(3) Cons.prems(3) by (auto simp: filled_def)
  moreover have "run_copy_threads E dst src n zeros (t # tids) s = Some s'"
    by (simp add: s1(1) s'(1))
  ultimately show ?case
    by (intro exI [of _ s'] conjI)
qed

lemma all_chunks:
  fixes n d :: u64
  assumes n: "unat n mod 4 = 0" "0 < n" and "in_range 0 n d" and "{0, 1, 2, 3} \<subseteq> set tids"
  shows "d div (n div MAX_COPY_THREADS) \<in> set tids"
proof -
  let ?c = "n div MAX_COPY_THREADS"
  have n4: "unat n = 4 * unat ?c"
    by (rule chunk_bounds(1) [OF n(1), of 0]) (simp add: MAX_COPY_THREADS_def)
  have "unat d < 4 * unat ?c"
    unfolding n4 [symmetric] using assms(3) by (simp add: in_range_def word_less_nat_alt)
  then have "unat (d div ?c) < 4"
    unfolding unat_div by (rule less_mult_imp_div_less)
  then have "unat (d div ?c) \<in> {0, 1, 2, 3}"
    by auto
  then have "d div ?c \<in> {0, 1, 2, 3}"
    by (auto simp: word_unat_eq_iff)
  with assms(4) show ?thesis
    by blast
qed

lemma parallel_filled:
  assumes "platform_ok E" and n: "unat n mod 4 = 0" "0 < n"
    and "set tids = {0, 1, 2, 3}" and "window E (kern s) dst n fd off"
    and "zeros \<or> fd \<noteq> fs \<and> window E (kern s) src n fs offs"
  shows "\<exists>s'. run_copy_threads E dst src n zeros tids s = Some s' \<and>
    copy_frame s s' \<and>
    filled E (fd, off) (fs, offs) zeros (in_range 0 n) (kern s) (kern s')"
proof -
  have *: "(\<lambda>d. in_range 0 n d \<and> d div (n div MAX_COPY_THREADS) \<in> set tids) = in_range 0 n"
    using all_chunks [OF n, of _ tids] assms(4) by (auto simp: fun_eq_iff)
  show ?thesis
    using run_copy_threads_filled [OF assms(1-3) _ assms(5,6), of tids] assms(4)
    unfolding * by (auto simp: MAX_COPY_THREADS_def)
qed

lemma pagesize_chunks: "pt_to_pagesize t = Some n \<Longrightarrow> unat n mod 4 = 0 \<and> 0 < n"
  by (cases t) (auto simp: c_consts)

lemma copy_page_copied:
  assumes E: "platform_ok E" and n: "pt_to_pagesize t = Some n" and fd: "fd \<noteq> fs"
    and w: "window E (kern s) dst n fd off" "window E (kern s) src n fs offs"
    and run: "copy_page E dst src n s = Some s'"
  shows "copied E (fd, off) (fs, offs) n (kern s) (kern s') \<and> copy_frame s s'"
proof (cases "USE_DMA E")
  case True
  obtain r k where dma: "uffdio_dma_copy E src dst n (kern s) = (r, k)"
    by fastforce
  with run True have "r \<noteq> - 1" "s' = s\<lparr>kern := k\<rparr>"
    by (auto simp: copy_page_def run_elims)
  moreover have "fst (uffdio_dma_copy E src dst n (kern s)) \<noteq> - 1 \<longrightarrow>
      copied E (fd, off) (fs, offs) n (kern s) (snd (uffdio_dma_copy E src dst n (kern s)))"
    using E w fd unfolding platform_ok_def copy_ok_def by blast
  ultimately show ?thesis
    using dma by simp
next
  case False
  have "\<exists>s'. run_copy_threads E dst src n False [0, 1, 2, 3] s = Some s' \<and> copy_frame s s' \<and>
      filled E (fd, off) (fs, offs) False (in_range 0 n) (kern s) (kern s')"
    by (rule parallel_filled) (use E n fd w pagesize_chunks in auto)
  with run False show ?thesis
    by (auto simp: copy_page_def hemem_parallel_memcpy_def copied_filled)
qed

lemma run_copy_threads_frame: "run_copy_threads E dst src n zeros tids s = Some s' \<Longrightarrow> copy_frame s s'"
proof (induction tids arbitrary: s)
  case (Cons t tids)
  then obtain s1 where s1: "hemem_parallel_memcpy_thread E dst src n zeros t s = Some s1"
    "copy_frame s1 s'"
    by (auto simp: run_elims)
  then have "copy_frame s s1"
    by (auto simp: hemem_parallel_memcpy_thread_def Let_def run_elims)
  with s1(2) show ?case
    by (blast intro: copy_frame_trans)
qed simp

lemma copy_page_frame: "copy_page E dst src n s = Some s' \<Longrightarrow> copy_frame s s'"
  by (auto simp: copy_page_def hemem_parallel_memcpy_def run_elims dest: run_copy_threads_frame
      simp del: run_copy_threads.simps split: if_splits prod.splits)

lemma clear_page_frame: "clear_page E dst n s = Some s' \<Longrightarrow> copy_frame s s'"
  by (auto simp: clear_page_def hemem_parallel_memset_def dest: run_copy_threads_frame
      simp del: run_copy_threads.simps split: if_splits)

text \<open>
  The memory after a migration of the \<open>n\<close> bytes at \<open>v\<close> from location
  \<open>src\<close> to location \<open>dst\<close>.
\<close>

definition migrated :: "'k platform \<Rightarrow> u64 \<Rightarrow> u64 \<Rightarrow> loc \<Rightarrow> loc \<Rightarrow> 'k \<Rightarrow> 'k \<Rightarrow> bool" where
  "migrated E v n dst src k k' \<longleftrightarrow>
     vmap E k' = (\<lambda>x. if in_range v n x then Some (fst dst, snd dst + (x - v)) else vmap E k x) \<and>
     (\<exists>k1. copied E dst src n k k1 \<and> dev E k' = dev E k1)"

lemma migrated_load8:
  assumes "migrated E v n (fd, off) (fs, offs) k k'" and "window E k v n fs offs" and "fd \<noteq> fs"
    and "\<And>x. in_range off n x \<Longrightarrow> vmap E k a \<noteq> Some (fd, x)"
  shows "load8 E k' a = load8 E k a"
proof (cases "in_range v n a")
  case True
  with window_loc [OF assms(2) True] assms(1,3) show ?thesis
    by (auto simp: load8_def migrated_def copied_def in_range_def)
next
  case False
  show ?thesis
  proof (cases "vmap E k a")
    case (Some l)
    obtain f x where "l = (f, x)" by fastforce
    with False Some assms(1) assms(4) [of x] show ?thesis
      by (auto simp: load8_def migrated_def copied_def)
  qed (use False assms(1) in \<open>auto simp: load8_def migrated_def\<close>)
qed

lemma MAP_FIXED_flag: "(MAP_SHARED OR MAP_POPULATE OR MAP_FIXED) AND MAP_FIXED = MAP_FIXED"
  by (simp add: c_consts)

lemma libc_mmap_fixed:
  assumes "platform_ok E" and "libc_mmap E a n pr (MAP_SHARED OR MAP_POPULATE OR MAP_FIXED) fd off s = (p, s')"
    and "p \<noteq> MAP_FAILED"
  shows "p = a" and "s' = s\<lparr>kern := kern s'\<rparr>" and "dev E (kern s') = dev E (kern s)"
    and "vmap E (kern s') = (\<lambda>x. if in_range a n x then Some (fd, off + (x - a)) else vmap E (kern s) x)"
proof -
  obtain k where k: "sys_mmap E a n pr (MAP_SHARED OR MAP_POPULATE OR MAP_FIXED) fd off (kern s) = (p, k)"
    and s': "s' = s\<lparr>kern := k\<rparr>"
    using assms(2) by (auto simp: libc_mmap_def split: prod.splits)
  have "p = a \<and> dev E k = dev E (kern s) \<and>
      vmap E k = (\<lambda>x. if in_range a n x then Some (fd, off + (x - a)) else vmap E (kern s) x)"
    using assms(1,3) k MAP_FIXED_flag unfolding platform_ok_def mmap_ok_def by blast
  then show "p = a" "s' = s\<lparr>kern := kern s'\<rparr>" "dev E (kern s') = dev E (kern s)"
    "vmap E (kern s') = (\<lambda>x. if in_range a n x then Some (fd, off + (x - a)) else vmap E (kern s) x)"
    by (simp_all add: s')
qed

lemma register_uffd_kern:
  assumes "platform_ok E" and "register_uffd E a n s = Some s'"
  shows "s' = s\<lparr>kern := kern s'\<rparr> \<and> same_memory E (kern s) (kern s')"
  using assms by (auto simp: register_uffd_def platform_ok_def uffd_ok_def run_elims split: prod.splits)
    (metis snd_conv)

lemma flush_migrated_kern:
  assumes "platform_ok E" and "flush_migrated E v s = Some s'"
  shows "\<exists>k. s' = s\<lparr>kern := k\<rparr> \<and> same_memory E (kern s) k"
proof (cases "ALLOC_LRU E")
  case True
  obtain r k where f: "uffdio_tlbflush E (v AND NOT (PAGE_SIZE - 1)) PAGE_SIZE (kern s) = (r, k)"
    by fastforce
  have "same_memory E (kern s) (snd (uffdio_tlbflush E (v AND NOT (PAGE_SIZE - 1)) PAGE_SIZE (kern s)))"
    using assms(1) unfolding platform_ok_def uffd_ok_def by blast
  with assms(2) True f show ?thesis
    by (auto simp: flush_migrated_def hemem_tlb_shootdown_def Let_def run_elims)
next
  case False
  with assms(2) show ?thesis
    by (intro exI [of _ "kern s"]) (simp add: flush_migrated_def)
qed

text \<open>The state a successful migration leaves, up to the kernel's part and the copy counter.\<close>

definition after_up :: "ptr \<Rightarrow> u64 \<Rightarrow> u64 \<Rightarrow> u64 \<Rightarrow> 'k \<Rightarrow> ('k, 'a) hemem_scheme \<Rightarrow> ('k, 'a) hemem_scheme" where
  "after_up p off n m k s = s\<lparr>page_heap := (page_heap s)(p := (page_heap s p)\<lparr>
       page_migrations_up := page_migrations_up (page_heap s p) + 1, devdax_offset := off, in_dram := True\<rparr>),
     migrations_up := migrations_up s + 1, bytes_migrated := bytes_migrated s + n, memcpys := m,
     internal_call := False, kern := k\<rparr>"

definition after_down :: "ptr \<Rightarrow> u64 \<Rightarrow> u64 \<Rightarrow> u64 \<Rightarrow> 'k \<Rightarrow> ('k, 'a) hemem_scheme \<Rightarrow> ('k, 'a) hemem_scheme" where
  "after_down p off n m k s = s\<lparr>page_heap := (page_heap s)(p := (page_heap s p)\<lparr>
       page_migrations_down := page_migrations_down (page_heap s p) + 1, devdax_offset := off, in_dram := False\<rparr>),
     migrations_down := migrations_down s + 1, bytes_migrated := bytes_migrated s + n, memcpys := m,
     internal_call := False, kern := k\<rparr>"

text \<open>
  Both devices are visible through the windows the library mapped at start-up. Their sizes are
  those of real devices, far below \<open>2 ^ 63\<close>.
\<close>

definition devices_mapped :: "'k platform \<Rightarrow> ('k, 'a) hemem_scheme \<Rightarrow> bool" where
  "devices_mapped E s \<longleftrightarrow> dramfd s \<noteq> nvmfd s \<and> dramsize s \<le> 2 ^ 63 \<and> nvmsize s \<le> 2 ^ 63 \<and>
     window E (kern s) (dram_devdax_mmap s) (dramsize s) (dramfd s) (dramoffset s) \<and>
     window E (kern s) (nvm_devdax_mmap s) (nvmsize s) (nvmfd s) (nvmoffset s)"

lemma pagesize_small: "pt_to_pagesize t = Some n \<Longrightarrow> unat n \<le> 2 ^ 21"
  by (cases t) (auto simp: c_consts)

lemma frame_window:
  assumes w: "window E k b sz fd base" and "off - base < sz" and "off - base + n \<le> sz"
    and "sz \<le> 2 ^ 63" and "pt_to_pagesize t = Some n"
  shows "window E k (b + (off - base)) n fd off"
proof -
  have "unat (off - base) + unat n < 2 ^ 64"
    using assms(2,4) pagesize_small [OF assms(5)] by (simp add: word_less_nat_alt word_le_nat_alt)
  then have "unat (off - base) + unat n \<le> unat sz"
    using assms(3) unat_add_lem [of "off - base" n] by (simp add: word_le_nat_alt)
  from window_sub [OF w this] show ?thesis by simp
qed

lemma copy_frameE:
  assumes "copy_frame s s'"
  obtains m k where "s' = s\<lparr>memcpys := m, kern := k\<rparr>"
  using assms by (auto simp: copy_frame_def)

lemma remap_effect:
  assumes E: "platform_ok E" and cp: "copied E (fd, off) src n (kern s) (kern s1)"
    and mm: "libc_mmap E v n pr (MAP_SHARED OR MAP_POPULATE OR MAP_FIXED) fd off s1 = (q, s2)"
    and q: "q \<noteq> MAP_FAILED" and rg: "register_uffd E q n s2 = Some s3"
    and tail: "same_memory E (kern s3) k"
  shows "migrated E v n (fd, off) src (kern s) k" and "s3 = s1\<lparr>kern := kern s3\<rparr>" and "q = v"
proof -
  note m = libc_mmap_fixed [OF E mm q] and r = register_uffd_kern [OF E rg]
  show "q = v" by (rule m(1))
  show "s3 = s1\<lparr>kern := kern s3\<rparr>"
    using r m(2) by (metis hemem.surjective hemem.update_convs(25))
  have "vmap E k = vmap E (kern s2)" "dev E k = dev E (kern s1)"
    using r tail m(3) by (simp_all add: same_memory_def)
  with m(4) cp show "migrated E v n (fd, off) src (kern s) k"
    by (auto simp: migrated_def copied_def)
qed

lemma hemem_migrate_up_effect:
  assumes E: "platform_ok E" and dv: "devices_mapped E s" and run: "hemem_migrate_up E p off s = Some s'"
  shows "\<exists>n m k. pt_to_pagesize (pt (page_heap s p)) = Some n \<and> p \<noteq> NULL \<and> \<not> in_dram (page_heap s p) \<and>
    s' = after_up p off n m k s \<and>
    migrated E (va (page_heap s p)) n (dramfd s, off) (nvmfd s, devdax_offset (page_heap s p)) (kern s) k"
proof -
  let ?P = "page_heap s p" and ?s = "s\<lparr>internal_call := True\<rparr>"
  from run obtain n s1 where n: "pt_to_pagesize (pt ?P) = Some n" and p: "p \<noteq> NULL" "\<not> in_dram ?P"
    and old: "devdax_offset ?P - nvmoffset s < nvmsize s" "devdax_offset ?P - nvmoffset s + n \<le> nvmsize s"
    and new: "off - dramoffset s < dramsize s" "off - dramoffset s + n \<le> dramsize s"
    and cp: "copy_page E (dram_devdax_mmap s + (off - dramoffset s))
      (nvm_devdax_mmap s + (devdax_offset ?P - nvmoffset s)) n ?s = Some s1"
    by (auto simp: hemem_migrate_up_def Let_def run_elims)
  have "window E (kern ?s) (dram_devdax_mmap s + (off - dramoffset s)) n (dramfd s) off"
    and "window E (kern ?s) (nvm_devdax_mmap s + (devdax_offset ?P - nvmoffset s)) n (nvmfd s) (devdax_offset ?P)"
    using dv old new n by (auto simp: devices_mapped_def intro: frame_window)
  from copy_page_copied [OF E n _ this cp] dv
  obtain m k1 where cpd: "copied E (dramfd s, off) (nvmfd s, devdax_offset ?P) n (kern s) (kern s1)"
    and s1: "s1 = ?s\<lparr>memcpys := m, kern := k1\<rparr>"
    by (auto simp: devices_mapped_def elim: copy_frameE)
  obtain q k2 where sm: "sys_mmap E (va ?P) n (PROT_READ OR PROT_WRITE)
      (MAP_SHARED OR MAP_POPULATE OR MAP_FIXED) (dramfd s) off k1 = (q, k2)"
    by fastforce
  let ?s2 = "s1\<lparr>kern := k2\<rparr>"
  from sm have mm: "libc_mmap E (va ?P) n (PROT_READ OR PROT_WRITE)
      (MAP_SHARED OR MAP_POPULATE OR MAP_FIXED) (dramfd s) off s1 = (q, ?s2)"
    by (simp add: libc_mmap_def s1)
  obtain r k3 where rk: "uffdio_register E q n k2 = (r, k3)"
    by fastforce
  from run n p old new cp mm rk have q: "q \<noteq> MAP_FAILED" and r: "r \<noteq> - 1"
    unfolding s1 by (simp_all add: hemem_migrate_up_def Let_def register_uffd_def run_elims)
  let ?s3 = "s1\<lparr>kern := k3\<rparr>"
  from rk r have rg: "register_uffd E q n ?s2 = Some ?s3"
    by (simp add: register_uffd_def)
  let ?s4 = "s\<lparr>internal_call := True, memcpys := m, kern := k3, migrations_up := migrations_up s + 1,
    page_heap := (page_heap s)(p := ?P\<lparr>page_migrations_up := page_migrations_up ?P + 1,
      devdax_offset := off, in_dram := True\<rparr>)\<rparr>"
  from run n p old new cp mm rg q obtain s5 where
    s5: "flush_migrated E (va ?P) ?s4 = Some s5"
    and s': "s' = s5\<lparr>bytes_migrated := bytes_migrated s5 + n, internal_call := False\<rparr>"
    unfolding s1 by (auto simp: hemem_migrate_up_def Let_def run_elims)
  from flush_migrated_kern [OF E s5] obtain k where k: "s5 = ?s4\<lparr>kern := k\<rparr>" "same_memory E k3 k"
    by (auto simp: after_up_def)
  have "migrated E (va ?P) n (dramfd s, off) (nvmfd s, devdax_offset ?P) (kern s) k"
    by (rule remap_effect(1) [OF E cpd mm q rg]) (use k in simp)
  moreover have "s' = after_up p off n m k s"
    by (rule hemem.equality) (simp_all add: s' k(1) after_up_def)
  ultimately show ?thesis
    using n p by blast
qed

lemma hemem_migrate_down_effect:
  assumes E: "platform_ok E" and dv: "devices_mapped E s" and run: "hemem_migrate_down E p off s = Some s'"
  shows "\<exists>n m k. pt_to_pagesize (pt (page_heap s p)) = Some n \<and> p \<noteq> NULL \<and> in_dram (page_heap s p) \<and>
    s' = after_down p off n m k s \<and>
    migrated E (va (page_heap s p)) n (nvmfd s, off) (dramfd s, devdax_offset (page_heap s p)) (kern s) k"
proof -
  let ?P = "page_heap s p" and ?s = "s\<lparr>internal_call := True\<rparr>"
  from run obtain n s1 where n: "pt_to_pagesize (pt ?P) = Some n" and p: "p \<noteq> NULL" "in_dram ?P"
    and old: "devdax_offset ?P - dramoffset s < dramsize s" "devdax_offset ?P - dramoffset s + n \<le> dramsize s"
    and new: "off - nvmoffset s < nvmsize s" "off - nvmoffset s + n \<le> nvmsize s"
    and cp: "copy_page E (nvm_devdax_mmap s + (off - nvmoffset s))
      (dram_devdax_mmap s + (devdax_offset ?P - dramoffset s)) n ?s = Some s1"
    by (auto simp: hemem_migrate_down_def Let_def run_elims)
  have "window E (kern ?s) (nvm_devdax_mmap s + (off - nvmoffset s)) n (nvmfd s) off"
    and "window E (kern ?s) (dram_devdax_mmap s + (devdax_offset ?P - dramoffset s)) n (dramfd s) (devdax_offset ?P)"
    using dv old new n by (auto simp: devices_mapped_def intro: frame_window)
  from copy_page_copied [OF E n _ this cp] dv
  obtain m k1 where cpd: "copied E (nvmfd s, off) (dramfd s, devdax_offset ?P) n (kern s) (kern s1)"
    and s1: "s1 = ?s\<lparr>memcpys := m, kern := k1\<rparr>"
    by (auto simp: devices_mapped_def elim: copy_frameE)
  obtain q k2 where sm: "sys_mmap E (va ?P) n (PROT_READ OR PROT_WRITE)
      (MAP_SHARED OR MAP_POPULATE OR MAP_FIXED) (nvmfd s) off k1 = (q, k2)"
    by fastforce
  let ?s2 = "s1\<lparr>kern := k2\<rparr>"
  from sm have mm: "libc_mmap E (va ?P) n (PROT_READ OR PROT_WRITE)
      (MAP_SHARED OR MAP_POPULATE OR MAP_FIXED) (nvmfd s) off s1 = (q, ?s2)"
    by (simp add: libc_mmap_def s1)
  obtain r k3 where rk: "uffdio_register E q n k2 = (r, k3)"
    by fastforce
  from run n p old new cp mm rk have q: "q \<noteq> MAP_FAILED" and r: "r \<noteq> - 1"
    unfolding s1 by (simp_all add: hemem_migrate_down_def Let_def register_uffd_def run_elims)
  let ?s3 = "s1\<lparr>kern := k3\<rparr>"
  from rk r have rg: "register_uffd E q n ?s2 = Some ?s3"
    by (simp add: register_uffd_def)
  let ?s4 = "s\<lparr>internal_call := True, memcpys := m, kern := k3, migrations_down := migrations_down s + 1,
    page_heap := (page_heap s)(p := ?P\<lparr>page_migrations_down := page_migrations_down ?P + 1,
      devdax_offset := off, in_dram := False\<rparr>)\<rparr>"
  from run n p old new cp mm rg q obtain s5 where
    s5: "flush_migrated E (va ?P) ?s4 = Some s5"
    and s': "s' = s5\<lparr>bytes_migrated := bytes_migrated s5 + n, internal_call := False\<rparr>"
    unfolding s1 by (auto simp: hemem_migrate_down_def Let_def run_elims)
  from flush_migrated_kern [OF E s5] obtain k where k: "s5 = ?s4\<lparr>kern := k\<rparr>" "same_memory E k3 k"
    by (auto simp: after_down_def)
  have "migrated E (va ?P) n (nvmfd s, off) (dramfd s, devdax_offset ?P) (kern s) k"
    by (rule remap_effect(1) [OF E cpd mm q rg]) (use k in simp)
  moreover have "s' = after_down p off n m k s"
    by (rule hemem.equality) (simp_all add: s' k(1) after_down_def)
  ultimately show ?thesis
    using n p by blast
qed

text \<open>
  No request of the library is refused: what the ``does not abort'' statements assume of the
  platform.
\<close>

definition requests_succeed :: "'k platform \<Rightarrow> bool" where
  "requests_succeed E \<longleftrightarrow>
     (\<forall>a n pr fl fd off k. n \<noteq> 0 \<longrightarrow> a mod HUGEPAGE_SIZE = 0 \<longrightarrow>
        fst (sys_mmap E a n pr fl fd off k) \<noteq> MAP_FAILED \<and>
        fst (sys_mmap E a n pr fl fd off k) mod HUGEPAGE_SIZE = 0 \<and>
        (fl AND MAP_FIXED \<noteq> MAP_FIXED \<longrightarrow> fst (sys_mmap E a n pr fl fd off k) \<noteq> NULL)) \<and>
     (\<forall>a n k. fst (uffdio_register E a n k) = 0) \<and>
     (\<forall>a b n k. fst (uffdio_dma_copy E a b n k) = 0) \<and>
     (\<forall>a n w k. fst (uffdio_writeprotect E a n w k) = 0) \<and>
     (\<forall>a n k. fst (uffdio_tlbflush E a n k) = 0) \<and>
     (\<forall>a n k. fst (uffdio_wake E a n k) = 0) \<and>
     (\<forall>k. fst (uffdio_cr3 E k) = 0)"

lemma requests_succeedD:
  assumes "requests_succeed E"
  shows "n \<noteq> 0 \<Longrightarrow> a mod HUGEPAGE_SIZE = 0 \<Longrightarrow> fst (sys_mmap E a n pr fl fd off k) \<noteq> MAP_FAILED"
    and "fst (uffdio_register E a n k) = 0" and "fst (uffdio_dma_copy E a b n k) = 0"
    and "fst (uffdio_writeprotect E a n w k) = 0" and "fst (uffdio_tlbflush E a n k) = 0"
    and "fst (uffdio_wake E a n k) = 0" and "fst (uffdio_cr3 E k) = 0"
  using assms by (simp_all add: requests_succeed_def)

lemma sim_requests_succeed: "requests_succeed (sim d l a)"
proof -
  have "MAP_FAILED mod HUGEPAGE_SIZE \<noteq> 0" "(2 ^ 40 :: u64) mod HUGEPAGE_SIZE = 0" "(2 ^ 40 :: u64) \<noteq> MAP_FAILED"
    by code_simp+
  then show ?thesis
    by (auto simp: requests_succeed_def sim_select sim_mmap_def)
qed

lemma copy_page_returns:
  assumes "requests_succeed E"
  shows "\<exists>s'. copy_page E dst src n s = Some s'"
  using requests_succeedD(3) [OF assms, of src dst n "kern s"]
  by (auto simp: copy_page_def hemem_parallel_memcpy_def hemem_parallel_memcpy_thread_def
      MAX_COPY_THREADS_def Let_def split: prod.splits)

lemma clear_page_returns: "\<exists>s'. clear_page E dst n s = Some s'"
  by (auto simp: clear_page_def hemem_parallel_memset_def hemem_parallel_memcpy_thread_def
      MAX_COPY_THREADS_def Let_def)

lemma register_uffd_returns: "requests_succeed E \<Longrightarrow> \<exists>k. register_uffd E a n s = Some (s\<lparr>kern := k\<rparr>)"
proof -
  assume "requests_succeed E"
  then have "fst (uffdio_register E a n (kern s)) = 0"
    by (rule requests_succeedD(2))
  then show ?thesis
    by (auto simp: register_uffd_def split: prod.splits)
qed

lemma flush_migrated_returns: "requests_succeed E \<Longrightarrow> \<exists>s'. flush_migrated E v s = Some s'"
proof -
  assume "requests_succeed E"
  then have "fst (uffdio_tlbflush E (v AND NOT (PAGE_SIZE - 1)) PAGE_SIZE (kern s)) = 0"
    by (rule requests_succeedD(5))
  then show ?thesis
    by (auto simp: flush_migrated_def hemem_tlb_shootdown_def Let_def split: prod.splits)
qed

lemma libc_mmap_returns:
  assumes "requests_succeed E" and "n \<noteq> 0" and "a mod HUGEPAGE_SIZE = 0"
  shows "\<exists>p k. libc_mmap E a n pr fl fd off s = (p, s\<lparr>kern := k\<rparr>) \<and> p \<noteq> MAP_FAILED"
proof -
  have "fst (sys_mmap E a n pr fl fd off (kern s)) \<noteq> MAP_FAILED"
    by (rule requests_succeedD(1) [OF assms])
  then show ?thesis
    by (cases "sys_mmap E a n pr fl fd off (kern s)") (auto simp: libc_mmap_def)
qed

lemma hemem_wp_page_effect:
  assumes "platform_ok E" and "hemem_wp_page E p w s = Some s'"
  shows "\<exists>k. s' = s\<lparr>internal_call := False, kern := k\<rparr> \<and> same_memory E (kern s) k"
proof -
  obtain n where n: "pt_to_pagesize (pt (page_heap s p)) = Some n"
    using assms(2) by (auto simp: hemem_wp_page_def Let_def run_elims)
  obtain r e k where f: "uffdio_writeprotect E (va (page_heap s p)) n w (kern s) = (r, e, k)"
    by (metis prod_cases3)
  have "same_memory E (kern s) (snd (snd (uffdio_writeprotect E (va (page_heap s p)) n w (kern s))))"
    using assms(1) unfolding platform_ok_def uffd_ok_def by blast
  moreover from assms(2) n f have "s' = s\<lparr>internal_call := False, kern := k\<rparr>"
    by (auto simp: hemem_wp_page_def Let_def run_elims)
  ultimately show ?thesis
    using f by auto
qed

lemma hemem_wp_page_returns:
  assumes "requests_succeed E" and "p \<noteq> NULL" and "pt (page_heap s p) \<noteq> NPAGETYPES"
    and "va (page_heap s p) \<noteq> 0" and "va (page_heap s p) mod HUGEPAGE_SIZE = 0"
  shows "\<exists>s'. hemem_wp_page E p w s = Some s'"
proof -
  obtain n where n: "pt_to_pagesize (pt (page_heap s p)) = Some n"
    using assms(3) by (cases "pt (page_heap s p)") auto
  have "fst (uffdio_writeprotect E (va (page_heap s p)) n w (kern s)) = 0"
    by (rule requests_succeedD(4) [OF assms(1)])
  with assms n show ?thesis
    by (auto simp: hemem_wp_page_def Let_def split: prod.splits)
qed

lemma migrate_guard:
  fixes off base n sz :: u64
  assumes "unat (off - base) + unat n \<le> unat sz" and "0 < n"
  shows "off - base < sz" and "off - base + n \<le> sz"
proof -
  have "unat (off - base) + unat n < 2 ^ 64"
    using assms(1) unat_less_power [of sz] by simp
  then have "unat (off - base + n) = unat (off - base) + unat n"
    using unat_add_lem [of "off - base" n] by simp
  with assms show "off - base < sz" "off - base + n \<le> sz"
    by (simp_all add: word_less_nat_alt word_le_nat_alt)
qed

text \<open>A frame at offset \<open>off\<close> lies inside a device that starts at \<open>base\<close>.\<close>

definition frame_in :: "u64 \<Rightarrow> u64 \<Rightarrow> u64 \<Rightarrow> u64 \<Rightarrow> bool" where
  "frame_in base sz off n \<longleftrightarrow> unat (off - base) + unat n \<le> unat sz"

lemma hemem_migrate_up_returns:
  assumes E: "requests_succeed E" and "p \<noteq> NULL" and "\<not> in_dram (page_heap s p)"
    and n: "pt_to_pagesize (pt (page_heap s p)) = Some n"
    and "frame_in (nvmoffset s) (nvmsize s) (devdax_offset (page_heap s p)) n"
    and "frame_in (dramoffset s) (dramsize s) off n"
    and va: "va (page_heap s p) mod HUGEPAGE_SIZE = 0"
  shows "\<exists>s'. hemem_migrate_up E p off s = Some s'"
proof -
  let ?P = "page_heap s p"
  note g = migrate_guard [OF assms(5) [unfolded frame_in_def]] migrate_guard [OF assms(6) [unfolded frame_in_def]]
  note n0 = pagesize_positive [OF n]
  obtain m k1 where cp: "copy_page E (dram_devdax_mmap s + (off - dramoffset s))
      (nvm_devdax_mmap s + (devdax_offset ?P - nvmoffset s)) n (s\<lparr>internal_call := True\<rparr>) =
      Some (s\<lparr>internal_call := True, memcpys := m, kern := k1\<rparr>)"
    using copy_page_returns [OF E] copy_page_frame by (metis copy_frameE)
  obtain q k2 where mm: "libc_mmap E (va ?P) n (PROT_READ OR PROT_WRITE)
      (MAP_SHARED OR MAP_POPULATE OR MAP_FIXED) (dramfd s) off
      (s\<lparr>internal_call := True, memcpys := m, kern := k1\<rparr>) =
      (q, s\<lparr>internal_call := True, memcpys := m, kern := k2\<rparr>)" "q \<noteq> MAP_FAILED"
    using libc_mmap_returns [OF E _ va, where n = n and fd = "dramfd s" and off = off and pr = "PROT_READ OR PROT_WRITE"
        and fl = "MAP_SHARED OR MAP_POPULATE OR MAP_FIXED"
        and s = "s\<lparr>internal_call := True, memcpys := m, kern := k1\<rparr>"] n0
    by (auto simp: word_neq_0_conv)
  obtain k3 where rg: "register_uffd E q n (s\<lparr>internal_call := True, memcpys := m, kern := k2\<rparr>) =
      Some (s\<lparr>internal_call := True, memcpys := m, kern := k3\<rparr>)"
    using register_uffd_returns [OF E, of q n "s\<lparr>internal_call := True, memcpys := m, kern := k2\<rparr>"]
    by auto
  let ?s4 = "s\<lparr>internal_call := True, memcpys := m, kern := k3, migrations_up := migrations_up s + 1,
    page_heap := (page_heap s)(p := ?P\<lparr>page_migrations_up := page_migrations_up ?P + 1,
      devdax_offset := off, in_dram := True\<rparr>)\<rparr>"
  obtain s5 where "flush_migrated E (va ?P) ?s4 = Some s5"
    using flush_migrated_returns [OF E] by blast
  with assms(2,3) n g n0 cp mm rg va show ?thesis
    by (simp add: hemem_migrate_up_def Let_def)
qed

lemma hemem_migrate_down_returns:
  assumes E: "requests_succeed E" and "p \<noteq> NULL" and "in_dram (page_heap s p)"
    and n: "pt_to_pagesize (pt (page_heap s p)) = Some n"
    and "frame_in (dramoffset s) (dramsize s) (devdax_offset (page_heap s p)) n"
    and "frame_in (nvmoffset s) (nvmsize s) off n"
    and va: "va (page_heap s p) mod HUGEPAGE_SIZE = 0"
  shows "\<exists>s'. hemem_migrate_down E p off s = Some s'"
proof -
  let ?P = "page_heap s p"
  note g = migrate_guard [OF assms(5) [unfolded frame_in_def]] migrate_guard [OF assms(6) [unfolded frame_in_def]]
  note n0 = pagesize_positive [OF n]
  obtain m k1 where cp: "copy_page E (nvm_devdax_mmap s + (off - nvmoffset s))
      (dram_devdax_mmap s + (devdax_offset ?P - dramoffset s)) n (s\<lparr>internal_call := True\<rparr>) =
      Some (s\<lparr>internal_call := True, memcpys := m, kern := k1\<rparr>)"
    using copy_page_returns [OF E] copy_page_frame by (metis copy_frameE)
  obtain q k2 where mm: "libc_mmap E (va ?P) n (PROT_READ OR PROT_WRITE)
      (MAP_SHARED OR MAP_POPULATE OR MAP_FIXED) (nvmfd s) off
      (s\<lparr>internal_call := True, memcpys := m, kern := k1\<rparr>) =
      (q, s\<lparr>internal_call := True, memcpys := m, kern := k2\<rparr>)" "q \<noteq> MAP_FAILED"
    using libc_mmap_returns [OF E _ va, where n = n and fd = "nvmfd s" and off = off and pr = "PROT_READ OR PROT_WRITE"
        and fl = "MAP_SHARED OR MAP_POPULATE OR MAP_FIXED"
        and s = "s\<lparr>internal_call := True, memcpys := m, kern := k1\<rparr>"] n0
    by (auto simp: word_neq_0_conv)
  obtain k3 where rg: "register_uffd E q n (s\<lparr>internal_call := True, memcpys := m, kern := k2\<rparr>) =
      Some (s\<lparr>internal_call := True, memcpys := m, kern := k3\<rparr>)"
    using register_uffd_returns [OF E, of q n "s\<lparr>internal_call := True, memcpys := m, kern := k2\<rparr>"]
    by auto
  let ?s4 = "s\<lparr>internal_call := True, memcpys := m, kern := k3, migrations_down := migrations_down s + 1,
    page_heap := (page_heap s)(p := ?P\<lparr>page_migrations_down := page_migrations_down ?P + 1,
      devdax_offset := off, in_dram := False\<rparr>)\<rparr>"
  obtain s5 where "flush_migrated E (va ?P) ?s4 = Some s5"
    using flush_migrated_returns [OF E] by blast
  with assms(2,3) n g n0 cp mm rg va show ?thesis
    by (simp add: hemem_migrate_down_def Let_def)
qed

section \<open>A concrete state\<close>

text \<open>
  Two devices of four huge pages, mapped at \<open>2 ^ 40\<close> and \<open>2 ^ 41\<close>, and the page with the
  descriptor at address 4096, mapped at \<open>2 ^ 30\<close> on the second frame of the NVM device.
\<close>

definition demo_map :: "u64 \<Rightarrow> loc option" where
  "demo_map a =
     (if in_range (2 ^ 40) (4 * HUGEPAGE_SIZE) a then Some (3, a - 2 ^ 40)
      else if in_range (2 ^ 41) (4 * HUGEPAGE_SIZE) a then Some (4, a - 2 ^ 41)
      else if in_range (2 ^ 30) HUGEPAGE_SIZE a then Some (4, HUGEPAGE_SIZE + (a - 2 ^ 30))
      else None)"

definition demo_page :: hemem_page where
  "demo_page = zero_page\<lparr>va := 2 ^ 30, devdax_offset := HUGEPAGE_SIZE, present := True\<rparr>"

definition demo_state :: "sim_state hemem" where
  "demo_state = (hemem_boot \<lparr>sim_map = demo_map, sim_dev = (\<lambda>(f, x). ucast x)\<rparr>)
     \<lparr>page_heap := (\<lambda>_. zero_page)(4096 := demo_page), nvmsize := 4 * HUGEPAGE_SIZE,
      dramsize := 4 * HUGEPAGE_SIZE, dramfd := 3, nvmfd := 4, dram_devdax_mmap := 2 ^ 40,
      nvm_devdax_mmap := 2 ^ 41, is_init := True\<rparr>"

lemma demo_select:
  "page_heap demo_state 4096 = demo_page" "dramfd demo_state = 3" "nvmfd demo_state = 4"
  "nvmsize demo_state = 4 * HUGEPAGE_SIZE" "dramsize demo_state = 4 * HUGEPAGE_SIZE"
  "nvmoffset demo_state = 0" "dramoffset demo_state = 0"
  "dram_devdax_mmap demo_state = 2 ^ 40" "nvm_devdax_mmap demo_state = 2 ^ 41"
  "sim_map (kern demo_state) = demo_map" "sim_dev (kern demo_state) = (\<lambda>(f, x). ucast x)"
  by (simp_all add: demo_state_def hemem_boot_def)

lemma demo_ranges:
  fixes i :: u64
  assumes "unat i < 2 ^ 23"
  shows "\<not> in_range (2 ^ 40) (4 * HUGEPAGE_SIZE) (2 ^ 41 + i)"
    and "\<not> in_range (2 ^ 40) (4 * HUGEPAGE_SIZE) (2 ^ 30 + i)"
    and "\<not> in_range (2 ^ 41) (4 * HUGEPAGE_SIZE) (2 ^ 30 + i)"
  using assms unat_add_lem [of "2 ^ 41" i] unat_add_lem [of "2 ^ 30" i]
  by (simp_all add: in_range_nat HUGEPAGE_SIZE_def)

lemma demo_windows:
  "window (sim d l a) (kern demo_state) (2 ^ 40) (4 * HUGEPAGE_SIZE) 3 0"
  "window (sim d l a) (kern demo_state) (2 ^ 41) (4 * HUGEPAGE_SIZE) 4 0"
  "window (sim d l a) (kern demo_state) (2 ^ 30) HUGEPAGE_SIZE 4 HUGEPAGE_SIZE"
proof -
  have lt: "unat i < 2 ^ 23" if "i < 4 * HUGEPAGE_SIZE \<or> i < HUGEPAGE_SIZE" for i :: u64
    using that by (auto simp: word_less_nat_alt HUGEPAGE_SIZE_def)
  show "window (sim d l a) (kern demo_state) (2 ^ 40) (4 * HUGEPAGE_SIZE) 3 0"
    "window (sim d l a) (kern demo_state) (2 ^ 41) (4 * HUGEPAGE_SIZE) 4 0"
    "window (sim d l a) (kern demo_state) (2 ^ 30) HUGEPAGE_SIZE 4 HUGEPAGE_SIZE"
    unfolding window_def sim_select demo_select demo_map_def
    by (intro allI impI, simp only: in_range_offset demo_ranges lt simp_thms if_True if_False
        add_diff_cancel_left' add_0)+
qed

lemma demo_devices: "devices_mapped (sim d l a) demo_state"
  unfolding devices_mapped_def demo_select using demo_windows by (simp add: HUGEPAGE_SIZE_def)

lemma demo_returns: "\<exists>s'. hemem_migrate_up (sim d l a) 4096 0 demo_state = Some s'"
  by (rule hemem_migrate_up_returns [OF sim_requests_succeed, where n = HUGEPAGE_SIZE])
    (simp_all add: demo_select demo_page_def zero_page_def frame_in_def HUGEPAGE_SIZE_def)

section \<open>Migration is transparent\<close>

text \<open>
  C3: moving a page from NVM to DRAM is invisible. When the page is mapped on its NVM frame,
  every byte the application reads afterwards, at any address that is not mapped on the target
  frame, is the byte it would have read before; the page's addresses are among them.
\<close>

theorem migrate_up_transparent:
  assumes "platform_ok E" and "devices_mapped E s"
    and "hemem_migrate_up E p off s = Some s'"
    and "pt_to_pagesize (pt (page_heap s p)) = Some n"
    and "window E (kern s) (va (page_heap s p)) n (nvmfd s) (devdax_offset (page_heap s p))"
    and "\<And>x. in_range off n x \<Longrightarrow> vmap E (kern s) a \<noteq> Some (dramfd s, x)"
  shows "load8 E (kern s') a = load8 E (kern s) a"
proof -
  obtain m k where "s' = after_up p off n m k s"
    and "migrated E (va (page_heap s p)) n (dramfd s, off) (nvmfd s, devdax_offset (page_heap s p)) (kern s) k"
    using hemem_migrate_up_effect [OF assms(1-3)] assms(4) by auto
  with migrated_load8 [OF _ assms(5) _ assms(6)] assms(2) show ?thesis
    by (simp add: after_up_def devices_mapped_def)
qed

theorem migrate_up_transparent_witness:
  "\<exists>s'. hemem_migrate_up (sim True False False) 4096 0 demo_state = Some s' \<and>
     load8 (sim True False False) (kern s') (2 ^ 30 + 5) = Some 5"
proof -
  obtain s' where s': "hemem_migrate_up (sim True False False) 4096 0 demo_state = Some s'"
    using demo_returns by blast
  have v: "vmap (sim True False False) (kern demo_state) (2 ^ 30 + 5) = Some (4, HUGEPAGE_SIZE + 5)"
    using window_loc [OF demo_windows(3), of "2 ^ 30 + 5"] by (simp add: in_range_def HUGEPAGE_SIZE_def)
  have "load8 (sim True False False) (kern s') (2 ^ 30 + 5) =
      load8 (sim True False False) (kern demo_state) (2 ^ 30 + 5)"
    by (rule migrate_up_transparent [OF sim_ok demo_devices s', where n = HUGEPAGE_SIZE])
      (use v demo_windows(3) in \<open>simp_all add: demo_select demo_page_def zero_page_def\<close>)
  also have "\<dots> = Some 5"
    using v by (simp add: load8_def sim_select demo_select HUGEPAGE_SIZE_def)
  finally show ?thesis
    using s' by blast
qed

end
