(* ===== verification/Typed_Lists.thy ===== *)
theory Typed_Lists
  imports Fifo
begin

text \<open>
  The page lists as the policies use them: which descriptors are on them and what the page on a list
  looks like. The policies differ only in the typing of their lists; the list operations preserve
  any typing in the same way.
\<close>

section \<open>Descriptors without their links\<close>

lemma strip_select [simp]:
  "va (strip p) = va p" "devdax_offset (strip p) = devdax_offset p" "in_dram (strip p) = in_dram p"
  "pt (strip p) = pt p" "migrating (strip p) = migrating p" "present (strip p) = present p"
  "written (strip p) = written p" "hot (strip p) = hot p" "naccesses (strip p) = naccesses p"
  "local_clock (strip p) = local_clock p" "ring_present (strip p) = ring_present p"
  "accesses (strip p) = accesses p" "tot_accesses (strip p) = tot_accesses p"
  "enforced (strip p) = enforced p" "page_migrations_up (strip p) = page_migrations_up p"
  "page_migrations_down (strip p) = page_migrations_down p"
  by (simp_all add: strip_def)

lemma payload_select:
  "va (page_heap s p) = va (payload s p)" "devdax_offset (page_heap s p) = devdax_offset (payload s p)"
  "in_dram (page_heap s p) = in_dram (payload s p)" "pt (page_heap s p) = pt (payload s p)"
  "migrating (page_heap s p) = migrating (payload s p)" "present (page_heap s p) = present (payload s p)"
  "hot (page_heap s p) = hot (payload s p)" "ring_present (page_heap s p) = ring_present (payload s p)"
  "accesses (page_heap s p) = accesses (payload s p)"
  "tot_accesses (page_heap s p) = tot_accesses (payload s p)"
  "enforced (page_heap s p) = enforced (payload s p)"
  "local_clock (page_heap s p) = local_clock (payload s p)"
  by (simp_all add: payload_def)

text \<open>An assignment to fields other than the links.\<close>

definition pay_fun :: "(hemem_page \<Rightarrow> hemem_page) \<Rightarrow> bool" where
  "pay_fun f \<longleftrightarrow> keeps_links f \<and> (\<forall>p. strip (f p) = f (strip p))"

lemma upd_page_spec:
  assumes "mem_ok s" and "pay_fun f"
  shows "mem_ok (upd_page p f s)" and "queue_of (upd_page p f s) = queue_of s"
    and "payload (upd_page p f s) = (payload s)(p := f (payload s p))"
    and "list_ptr (page_heap (upd_page p f s) x) = list_ptr (page_heap s x)"
proof -
  have f: "keeps_links f" "\<And>p. strip (f p) = f (strip p)"
    using assms(2) by (simp_all add: pay_fun_def)
  show "mem_ok (upd_page p f s)" "queue_of (upd_page p f s) = queue_of s"
    by (rule mem_ok_upd_page [OF assms(1) f(1)])+
  show "payload (upd_page p f s) = (payload s)(p := f (payload s p))"
    unfolding payload_upd_page by (simp add: f(2) payload_def)
  show "list_ptr (page_heap (upd_page p f s) x) = list_ptr (page_heap s x)"
    using f(1) by (simp add: keeps_links_def)
qed

section \<open>Typed lists\<close>

text \<open>
  The descriptors of \<open>U\<close> are on the lists, except those of \<open>X\<close>, which nobody has linked;
  \<open>T\<close> says what a page on a list looks like.
\<close>

definition typed_lists :: "(fifo_id \<Rightarrow> hemem_page \<Rightarrow> bool) \<Rightarrow> ptr set \<Rightarrow> ptr set \<Rightarrow> 'a mem_scheme \<Rightarrow> bool" where
  "typed_lists T U X s \<longleftrightarrow> mem_ok s \<and> X \<subseteq> U \<and> NULL \<notin> U \<and> members queue_of s = U - X \<and>
     (\<forall>q. \<forall>p \<in> set (queue_of s q). T q (payload s p))"

lemma typed_listsD:
  assumes "typed_lists T U X s"
  shows "mem_ok s" and "X \<subseteq> U" and "NULL \<notin> U" and "p \<in> set (queue_of s q) \<Longrightarrow> p \<in> U - X"
    and "p \<in> set (queue_of s q) \<Longrightarrow> T q (payload s p)"
    and "p \<in> U - X \<Longrightarrow> \<exists>q. p \<in> set (queue_of s q)" and "members queue_of s = U - X"
  using assms unfolding typed_lists_def members_def by blast+

lemma typed_lists_cong:
  assumes "page_heap s' = page_heap s" and "list_heap s' = list_heap s"
  shows "typed_lists T U X s' = typed_lists T U X s"
  unfolding typed_lists_def members_def mem_ok_cong [OF assms] ..

lemma typed_lists_deq:
  assumes ok: "typed_lists T U X s" and q: "queue_of s q = ys @ [x]"
  shows "\<exists>s'. dequeue_fifo q s = Some (x, s') \<and> typed_lists T U (insert x X) s' \<and>
    queue_of s' = (queue_of s)(q := ys) \<and> payload s' = payload s \<and> heaps_only s s'"
proof -
  note d = typed_listsD [OF ok]
  obtain s' where s': "dequeue_fifo q s = Some (x, s')" "mem_ok s'" "queue_of s' = (queue_of s)(q := ys)"
    "payload s' = payload s" "heaps_only s s'"
    using dequeue_fifo_spec [OF d(1) q] by blast
  have x: "x \<in> set (queue_of s q)" "x \<notin> set ys"
    using q queue_of_distinct [OF d(1), of q] by auto
  have "set (queue_of s' r) = set (queue_of s r) - {x}" for r
  proof (cases "r = q")
    case False
    then have "x \<notin> set (queue_of s r)"
      using queue_of_disjoint [OF d(1) x(1)] by blast
    with False show ?thesis by (simp add: s'(3))
  qed (simp add: s'(3) q x(2))
  then have "members queue_of s' = members queue_of s - {x}"
    by (rule ff.members_upd)
  then have "members queue_of s' = U - insert x X"
    by (simp only: d(7) Diff_insert [of U x X])
  moreover have "T r (payload s' p)" if "p \<in> set (queue_of s' r)" for r p
    using d(5) [of p r] that q by (cases "r = q") (auto simp: s'(3,4))
  ultimately show ?thesis
    using s' d(2,3) d(4) [OF x(1)] by (auto simp: typed_lists_def)
qed

lemma typed_lists_rem:
  assumes ok: "typed_lists T U X s" and x: "x \<in> set (queue_of s q)"
  shows "\<exists>s'. page_list_remove_page q x s = Some s' \<and> typed_lists T U (insert x X) s' \<and>
    queue_of s' = (queue_of s)(q := remove1 x (queue_of s q)) \<and> payload s' = payload s \<and> heaps_only s s'"
proof -
  note d = typed_listsD [OF ok]
  obtain s' where s': "page_list_remove_page q x s = Some s'" "mem_ok s'"
    "queue_of s' = (queue_of s)(q := remove1 x (queue_of s q))" "payload s' = payload s" "heaps_only s s'"
    using page_list_remove_page_spec [OF d(1), of x q] x in_queue_iff [OF d(1)] by blast
  have sub: "set (queue_of s' r) = set (queue_of s r) - {x}" for r
  proof (cases "r = q")
    case False
    then have "x \<notin> set (queue_of s r)"
      using queue_of_disjoint [OF d(1) x(1)] by blast
    with False show ?thesis by (simp add: s'(3))
  qed (simp add: s'(3) queue_of_distinct [OF d(1)])
  then have "members queue_of s' = members queue_of s - {x}"
    by (rule ff.members_upd)
  then have "members queue_of s' = U - insert x X"
    by (simp only: d(7) Diff_insert [of U x X])
  moreover have "T r (payload s' p)" if "p \<in> set (queue_of s' r)" for r p
    using d(5) [of p r] that sub [of r] by (auto simp: s'(4))
  ultimately show ?thesis
    using s' d(2,3) d(4) [OF x(1)] by (auto simp: typed_lists_def)
qed

lemma typed_lists_enq:
  assumes ok: "typed_lists T U X s" and x: "x \<in> X" "T q (payload s x)"
  shows "\<exists>s'. enqueue_fifo q x s = Some s' \<and> typed_lists T U (X - {x}) s' \<and>
    queue_of s' = (queue_of s)(q := x # queue_of s q) \<and> payload s' = payload s \<and> heaps_only s s'"
proof -
  note d = typed_listsD [OF ok]
  have "x \<noteq> NULL" "\<forall>q. x \<notin> set (queue_of s q)"
    using x(1) d(2,3) d(4) by blast+
  then obtain s' where s': "enqueue_fifo q x s = Some s'" "mem_ok s'" "queue_of s' = (queue_of s)(q := x # queue_of s q)"
    "payload s' = payload s" "heaps_only s s'"
    using ff.enq_law [OF d(1)] by blast
  have "members queue_of s' = insert x (members queue_of s)"
    by (rule ff.members_insert) (rule s'(3))
  then have "members queue_of s' = U - (X - {x})"
    unfolding d(7) using x(1) d(2) by auto
  moreover have "T r (payload s' p)" if "p \<in> set (queue_of s' r)" for r p
    using d(5) [of p r] that x(2) by (cases "r = q") (auto simp: s'(3,4))
  ultimately show ?thesis
    using s' d(2,3) by (auto simp: typed_lists_def)
qed

lemma typed_lists_upd:
  assumes ok: "typed_lists T U X s" and x: "x \<in> X" and f: "pay_fun f"
  shows "typed_lists T U X (upd_page x f s)"
proof -
  note d = typed_listsD [OF ok] and u = upd_page_spec [OF typed_listsD(1) [OF ok] f, of x]
  have "T q (payload (upd_page x f s) p)" if "p \<in> set (queue_of s q)" for p q
    using d(4,5) [OF that] x by (auto simp: u(3))
  then show ?thesis
    using ok u(1) unfolding typed_lists_def members_def u(2) by simp
qed

section \<open>Pages in use and free pages\<close>

definition used_pages :: "ptr set \<Rightarrow> 'a mem_scheme \<Rightarrow> ptr set" where
  "used_pages U s = {p \<in> U. present (payload s p)}"

definition free_pages :: "'a mem_scheme \<Rightarrow> ptr set" where
  "free_pages s = set (queue_of s dram_free_list) \<union> set (queue_of s nvm_free_list)"

definition free_count :: "'a mem_scheme \<Rightarrow> nat" where
  "free_count s = length (queue_of s dram_free_list) + length (queue_of s nvm_free_list)"

end
