(* ===== verification/Pebs.thy ===== *)
theory Pebs
  imports Migration Spsc_Ring Typed_Lists
begin

text \<open>
  \<^verbatim>\<open>src/pebs.c\<close>: the sampling policy of the default build. Every managed frame has a descriptor,
  which is on exactly one of six lists: hot, cold or free, for each device. The scan thread counts
  sampled accesses and posts requests on the hot and the cold ring; the policy thread moves pages
  between the lists as the rings ask, migrates hot NVM pages up and cold DRAM pages down, and
  cools the hot lists; application threads allocate pages and post freed ones on the free ring.

  One function per C function; one iteration of each loop of the policy thread has a function of its
  own, and the loops are built from them.
\<close>

section \<open>Constants and state\<close>

definition PEBS_KSWAPD_MIGRATE_RATE :: u64 where [c_consts]: "PEBS_KSWAPD_MIGRATE_RATE = 10 * 1024 * 1024 * 1024"
definition HOT_READ_THRESHOLD :: u64 where [c_consts]: "HOT_READ_THRESHOLD = 8"
definition PEBS_COOLING_THRESHOLD :: u64 where [c_consts]: "PEBS_COOLING_THRESHOLD = 24"
definition HOT_RING_REQS_THRESHOLD :: nat where [c_consts]: "HOT_RING_REQS_THRESHOLD = 1024 * 1024"
definition COLD_RING_REQS_THRESHOLD :: nat where [c_consts]: "COLD_RING_REQS_THRESHOLD = 128"
definition CAPACITY :: u64 where [c_consts]: "CAPACITY = 128 * 1024 * 1024"
definition COOLING_PAGES :: nat where [c_consts]: "COOLING_PAGES = 8192"
definition PEBS_NPROCS :: nat where [c_consts]: "PEBS_NPROCS = 24"

text \<open>
  The globals of \<^verbatim>\<open>src/pebs.c\<close>, the allocation hints of \<^verbatim>\<open>src/interpose.c\<close>, and the two
  cooling cursors, local variables of the policy thread that live across its iterations.
\<close>

record 'k pebs = "'k hemem" +
  hot_ring :: ring_buf_t
  cold_ring :: ring_buf_t
  free_page_ring :: ring_buf_t
  global_clock :: u64
  hemem_pages_cnt :: u64
  other_pages_cnt :: u64
  total_pages_cnt :: u64
  accesses_cnt :: "pbuftype \<Rightarrow> u64"
  core_accesses_cnt :: "nat \<Rightarrow> u64"
  zero_pages_cnt :: u64
  throttle_cnt :: u64
  unthrottle_cnt :: u64
  cools :: u64
  need_cool_dram :: bool
  need_cool_nvm :: bool
  start_dram_page :: ptr
  start_nvm_page :: ptr
  user_hint_tier :: int
  user_hint_persistence :: int
  user_hint_priority :: int
  cur_cool_in_dram :: ptr
  cur_cool_in_nvm :: ptr

definition total_reads :: "hemem_page \<Rightarrow> u64" where
  "total_reads p = accesses p DRAMREAD + accesses p NVMREAD"

section \<open>Sampling\<close>

definition make_hot_request :: "ptr \<Rightarrow> ('k, 'a) pebs_scheme \<Rightarrow> ('k, 'a) pebs_scheme" where
  "make_hot_request page s =
     (let s = upd_page page (\<lambda>p. p\<lparr>ring_present := True\<rparr>) s
      in s\<lparr>hot_ring := ring_buf_put page (hot_ring s)\<rparr>)"

definition make_cold_request :: "ptr \<Rightarrow> ('k, 'a) pebs_scheme \<Rightarrow> ('k, 'a) pebs_scheme" where
  "make_cold_request page s =
     (let s = upd_page page (\<lambda>p. p\<lparr>ring_present := True\<rparr>) s
      in s\<lparr>cold_ring := ring_buf_put page (cold_ring s)\<rparr>)"

text \<open>The record at the tail of a sample buffer: a sampled address, or another kind of record.\<close>

datatype perf_record = PERF_RECORD_SAMPLE u64 | PERF_RECORD_THROTTLE | PERF_RECORD_UNTHROTTLE | UNKNOWN_RECORD

definition age_counts :: "u64 \<Rightarrow> hemem_page \<Rightarrow> hemem_page" where
  "age_counts clock p =
     p\<lparr>accesses := (accesses p)(DRAMREAD := shr64 (accesses p DRAMREAD) (clock - local_clock p),
                                NVMREAD := shr64 (accesses p NVMREAD) (clock - local_clock p)),
       local_clock := clock\<rparr>"

text \<open>A sample of core \<open>i\<close> and buffer \<open>j\<close> that hit the managed page \<open>page\<close>.\<close>

definition sample_page :: "nat \<Rightarrow> pbuftype \<Rightarrow> ptr \<Rightarrow> ('k, 'a) pebs_scheme \<Rightarrow> ('k, 'a) pebs_scheme" where
  "sample_page i j page s =
     (let s = upd_page page (\<lambda>p. p\<lparr>accesses := (accesses p)(j := accesses p j + 1),
                tot_accesses := (tot_accesses p)(j := tot_accesses p j + 1)\<rparr>) s;
          s = (if total_reads (page_heap s page) \<ge> HOT_READ_THRESHOLD then
                 (if \<not> hot (page_heap s page) \<and> \<not> ring_present (page_heap s page)
                  then make_hot_request page s else s)
               else if total_reads (page_heap s page) < HOT_READ_THRESHOLD then
                 (if hot (page_heap s page) \<and> \<not> ring_present (page_heap s page)
                  then make_cold_request page s else s)
               else s);
          s = s\<lparr>accesses_cnt := (accesses_cnt s)(j := accesses_cnt s j + 1),
                core_accesses_cnt := (core_accesses_cnt s)(i := core_accesses_cnt s i + 1)\<rparr>;
          s = upd_page page (age_counts (global_clock s)) s
      in if accesses (page_heap s page) j > PEBS_COOLING_THRESHOLD
         then s\<lparr>global_clock := global_clock s + 1, cools := cools s + 1,
                need_cool_dram := True, need_cool_nvm := True\<rparr>
         else s)"

definition pebs_scan_record :: "nat \<Rightarrow> pbuftype \<Rightarrow> perf_record \<Rightarrow> ('k, 'a) pebs_scheme \<Rightarrow> ('k, 'a) pebs_scheme" where
  "pebs_scan_record i j r s = (case r of
     PERF_RECORD_SAMPLE addr \<Rightarrow>
       (if addr \<noteq> 0 then
          let pfn = addr AND HUGE_PFN_MASK;
              page = get_hemem_page pfn s;
              s = (if page \<noteq> NULL then
                     (let s = (if va (page_heap s page) \<noteq> 0 then sample_page i j page s else s)
                      in s\<lparr>hemem_pages_cnt := hemem_pages_cnt s + 1\<rparr>)
                   else s\<lparr>other_pages_cnt := other_pages_cnt s + 1\<rparr>)
          in s\<lparr>total_pages_cnt := total_pages_cnt s + 1\<rparr>
        else s\<lparr>zero_pages_cnt := zero_pages_cnt s + 1\<rparr>)
   | PERF_RECORD_THROTTLE \<Rightarrow> s\<lparr>throttle_cnt := throttle_cnt s + 1\<rparr>
   | PERF_RECORD_UNTHROTTLE \<Rightarrow> s\<lparr>unthrottle_cnt := unthrottle_cnt s + 1\<rparr>
   | UNKNOWN_RECORD \<Rightarrow> s)"

text \<open>The scan thread on the records it finds, in the order it visits the buffers.\<close>

definition pebs_scan_thread ::
    "(nat \<times> pbuftype \<times> perf_record) list \<Rightarrow> ('k, 'a) pebs_scheme \<Rightarrow> ('k, 'a) pebs_scheme" where
  "pebs_scan_thread rs s = fold (\<lambda>(i, j, r). pebs_scan_record i j r) rs s"

section \<open>Migration and list moves\<close>

definition pebs_migrate_down ::
    "'k platform \<Rightarrow> ptr \<Rightarrow> u64 \<Rightarrow> ('k, 'a) pebs_scheme \<Rightarrow> ('k, 'a) pebs_scheme option" where
  "pebs_migrate_down E page offset s =
     (if enforced (page_heap s page) then Some s
      else do {
        let s = upd_page page (\<lambda>p. p\<lparr>migrating := True\<rparr>) s;
        s \<leftarrow> hemem_wp_page E page True s;
        s \<leftarrow> hemem_migrate_down E page offset s;
        Some (upd_page page (\<lambda>p. p\<lparr>migrating := False\<rparr>) s)
      })"

definition pebs_migrate_up ::
    "'k platform \<Rightarrow> ptr \<Rightarrow> u64 \<Rightarrow> ('k, 'a) pebs_scheme \<Rightarrow> ('k, 'a) pebs_scheme option" where
  "pebs_migrate_up E page offset s = do {
     let s = upd_page page (\<lambda>p. p\<lparr>migrating := True\<rparr>) s;
     s \<leftarrow> hemem_wp_page E page True s;
     s \<leftarrow> hemem_migrate_up E page offset s;
     Some (upd_page page (\<lambda>p. p\<lparr>migrating := False\<rparr>) s)
   }"

definition make_hot :: "ptr \<Rightarrow> ('k, 'a) pebs_scheme \<Rightarrow> ('k, 'a) pebs_scheme option" where
  "make_hot page s = do {
     assert (page \<noteq> NULL);
     assert (va (page_heap s page) \<noteq> 0);
     if hot (page_heap s page) then do {
       (if in_dram (page_heap s page)
        then assert (list_ptr (page_heap s page) = Some dram_hot_list)
        else assert (list_ptr (page_heap s page) = Some nvm_hot_list));
       Some s
     }
     else if in_dram (page_heap s page) then do {
       assert (list_ptr (page_heap s page) = Some dram_cold_list);
       s \<leftarrow> page_list_remove_page dram_cold_list page s;
       let s = upd_page page (\<lambda>p. p\<lparr>hot := True\<rparr>) s;
       enqueue_fifo dram_hot_list page s
     }
     else do {
       assert (list_ptr (page_heap s page) = Some nvm_cold_list);
       s \<leftarrow> page_list_remove_page nvm_cold_list page s;
       let s = upd_page page (\<lambda>p. p\<lparr>hot := True\<rparr>) s;
       enqueue_fifo nvm_hot_list page s
     }
   }"

definition make_cold :: "ptr \<Rightarrow> ('k, 'a) pebs_scheme \<Rightarrow> ('k, 'a) pebs_scheme option" where
  "make_cold page s = do {
     assert (page \<noteq> NULL);
     assert (va (page_heap s page) \<noteq> 0);
     if \<not> hot (page_heap s page) then do {
       (if in_dram (page_heap s page)
        then assert (list_ptr (page_heap s page) = Some dram_cold_list)
        else assert (list_ptr (page_heap s page) = Some nvm_cold_list));
       Some s
     }
     else if in_dram (page_heap s page) then do {
       assert (list_ptr (page_heap s page) = Some dram_hot_list);
       s \<leftarrow> page_list_remove_page dram_hot_list page s;
       let s = upd_page page (\<lambda>p. p\<lparr>hot := False\<rparr>) s;
       enqueue_fifo dram_cold_list page s
     }
     else do {
       assert (list_ptr (page_heap s page) = Some nvm_hot_list);
       s \<leftarrow> page_list_remove_page nvm_hot_list page s;
       let s = upd_page page (\<lambda>p. p\<lparr>hot := False\<rparr>) s;
       enqueue_fifo nvm_cold_list page s
     }
   }"

section \<open>Cooling\<close>

text \<open>
  \<^verbatim>\<open>partial_cool\<close> of the \<^verbatim>\<open>COOL_IN_PLACE\<close> build walks a hot list from its cursor
  towards the front. One step of its loop returns the new cursor, or \<open>None\<close> for the \<^verbatim>\<open>break\<close>.
\<close>

definition cooled_reads :: "u64 \<Rightarrow> hemem_page \<Rightarrow> u64" where
  "cooled_reads clock p =
     shr64 (accesses p DRAMREAD) (clock - local_clock p) + shr64 (accesses p NVMREAD) (clock - local_clock p)"

definition end_sweep :: "bool \<Rightarrow> ptr \<Rightarrow> ('k, 'a) pebs_scheme \<Rightarrow> ('k, 'a) pebs_scheme" where
  "end_sweep dram p s =
     (let s = (if dram \<and> p = start_dram_page s
               then s\<lparr>start_dram_page := NULL, need_cool_dram := False\<rparr> else s)
      in if \<not> dram \<and> p = start_nvm_page s
         then s\<lparr>start_nvm_page := NULL, need_cool_nvm := False\<rparr> else s)"

definition cool_step :: "fifo_id \<Rightarrow> fifo_id \<Rightarrow> bool \<Rightarrow> ptr \<Rightarrow> ('k, 'a) pebs_scheme \<Rightarrow>
    (ptr option \<times> ('k, 'a) pebs_scheme) option" where
  "cool_step hotq coldq dram current s = do {
     p \<leftarrow> next_page hotq current s;
     if p = NULL then Some (None, s)
     else do {
       assert (in_dram (page_heap s p) = dram);
       let s = (if cooled_reads (global_clock s) (page_heap s p) < HOT_READ_THRESHOLD
                then upd_page p (\<lambda>p. p\<lparr>hot := False\<rparr>) s else s);
       let s = end_sweep dram p s;
       if \<not> hot (page_heap s p) then do {
         let current = next_ptr (page_heap s p);
         s \<leftarrow> page_list_remove_page hotq p s;
         s \<leftarrow> enqueue_fifo coldq p s;
         Some (Some current, s)
       }
       else Some (Some p, s)
     }
   }"

fun cool_loop :: "nat \<Rightarrow> fifo_id \<Rightarrow> fifo_id \<Rightarrow> bool \<Rightarrow> ptr \<Rightarrow> ('k, 'a) pebs_scheme \<Rightarrow>
    (ptr \<times> ('k, 'a) pebs_scheme) option" where
  "cool_loop 0 hotq coldq dram current s = Some (current, s)"
| "cool_loop (Suc n) hotq coldq dram current s = do {
     (c, s) \<leftarrow> cool_step hotq coldq dram current s;
     (case c of None \<Rightarrow> Some (current, s) | Some current \<Rightarrow> cool_loop n hotq coldq dram current s)
   }"

definition partial_cool :: "fifo_id \<Rightarrow> fifo_id \<Rightarrow> bool \<Rightarrow> ptr \<Rightarrow> ('k, 'a) pebs_scheme \<Rightarrow>
    (ptr \<times> ('k, 'a) pebs_scheme) option" where
  "partial_cool hotq coldq dram current s =
     (if dram \<and> \<not> need_cool_dram s then Some (current, s)
      else if \<not> dram \<and> \<not> need_cool_nvm s then Some (current, s)
      else
        let s = (if start_dram_page s = NULL \<and> dram
                 then s\<lparr>start_dram_page := last_ptr (list_heap s hotq)\<rparr> else s);
            s = (if start_nvm_page s = NULL \<and> \<not> dram
                 then s\<lparr>start_nvm_page := last_ptr (list_heap s hotq)\<rparr> else s)
        in cool_loop COOLING_PAGES hotq coldq dram current s)"

text \<open>The variant without \<^verbatim>\<open>COOL_IN_PLACE\<close> rotates the hot list instead.\<close>

fun rotate_loop :: "nat \<Rightarrow> fifo_id \<Rightarrow> fifo_id \<Rightarrow> bool \<Rightarrow> ('k, 'a) pebs_scheme \<Rightarrow>
    ('k, 'a) pebs_scheme option" where
  "rotate_loop 0 hotq coldq dram s = Some s"
| "rotate_loop (Suc n) hotq coldq dram s = do {
     (p, s) \<leftarrow> dequeue_fifo hotq s;
     if p = NULL then Some s
     else do {
       assert (in_dram (page_heap s p) = dram);
       let s = (if cooled_reads (global_clock s) (page_heap s p) < HOT_READ_THRESHOLD
                then upd_page p (\<lambda>p. p\<lparr>hot := False\<rparr>) s else s);
       let s = end_sweep dram p s;
       s \<leftarrow> (if hot (page_heap s p) then enqueue_fifo hotq p s else enqueue_fifo coldq p s);
       rotate_loop n hotq coldq dram s
     }
   }"

definition partial_cool_rotate :: "fifo_id \<Rightarrow> fifo_id \<Rightarrow> bool \<Rightarrow> ('k, 'a) pebs_scheme \<Rightarrow>
    ('k, 'a) pebs_scheme option" where
  "partial_cool_rotate hotq coldq dram s =
     (if dram \<and> \<not> need_cool_dram s then Some s
      else if \<not> dram \<and> \<not> need_cool_nvm s then Some s
      else
        let s = (if start_dram_page s = NULL \<and> dram
                 then s\<lparr>start_dram_page := last_ptr (list_heap s hotq)\<rparr> else s);
            s = (if start_nvm_page s = NULL \<and> \<not> dram
                 then s\<lparr>start_nvm_page := last_ptr (list_heap s hotq)\<rparr> else s)
        in rotate_loop COOLING_PAGES hotq coldq dram s)"

definition update_current_cool_page :: "ptr \<Rightarrow> ('k, 'a) pebs_scheme \<Rightarrow> ('k, 'a) pebs_scheme option" where
  "update_current_cool_page page s =
     (if page = NULL then Some s
      else do {
        s \<leftarrow> (if page = cur_cool_in_dram s then do {
                assert (list_ptr (page_heap s page) = Some dram_hot_list);
                c \<leftarrow> next_page dram_hot_list page s;
                Some (s\<lparr>cur_cool_in_dram := c\<rparr>)
              } else Some s);
        (if page = cur_cool_in_nvm s then do {
           assert (list_ptr (page_heap s page) = Some nvm_hot_list);
           c \<leftarrow> next_page nvm_hot_list page s;
           Some (s\<lparr>cur_cool_in_nvm := c\<rparr>)
         } else Some s)
      })"

section \<open>The policy thread\<close>

text \<open>One entry of the free ring: the page goes to the free list of its device.\<close>

definition free_step :: "('k, 'a) pebs_scheme \<Rightarrow> ('k, 'a) pebs_scheme option" where
  "free_step s = do {
     let (page, r) = ring_buf_get (free_page_ring s);
     let s = s\<lparr>free_page_ring := r\<rparr>;
     if page = NULL then Some s
     else do {
       list \<leftarrow> list_ptr (page_heap s page);
       s \<leftarrow> update_current_cool_page page s;
       s \<leftarrow> page_list_remove_page list page s;
       (if in_dram (page_heap s page) then enqueue_fifo dram_free_list page s
        else enqueue_fifo nvm_free_list page s)
     }
   }"

partial_function (option) free_loop :: "('k, 'a) pebs_scheme \<Rightarrow> ('k, 'a) pebs_scheme option" where
  "free_loop s =
     (if \<not> ring_buf_empty (free_page_ring s) then free_step s \<bind> free_loop else Some s)"

text \<open>
  One entry of the hot or the cold ring; the boolean says whether the request counts against the
  bound on requests per iteration.
\<close>

definition freed_page_check :: "ptr \<Rightarrow> ('k, 'a) pebs_scheme \<Rightarrow> unit option" where
  "freed_page_check page s =
     (if in_dram (page_heap s page)
      then assert (list_ptr (page_heap s page) = Some dram_free_list)
      else assert (list_ptr (page_heap s page) = Some nvm_free_list))"

definition hot_step :: "('k, 'a) pebs_scheme \<Rightarrow> (bool \<times> ('k, 'a) pebs_scheme) option" where
  "hot_step s = do {
     let (page, r) = ring_buf_get (hot_ring s);
     let s = s\<lparr>hot_ring := r\<rparr>;
     if page = NULL then Some (False, s)
     else if \<not> present (page_heap s page) then do {
       freed_page_check page s;
       Some (False, s)
     }
     else do {
       s \<leftarrow> update_current_cool_page page s;
       let s = upd_page page (\<lambda>p. p\<lparr>ring_present := False\<rparr>) s;
       s \<leftarrow> make_hot page s;
       Some (True, s)
     }
   }"

definition cold_step :: "('k, 'a) pebs_scheme \<Rightarrow> (bool \<times> ('k, 'a) pebs_scheme) option" where
  "cold_step s = do {
     let (page, r) = ring_buf_get (cold_ring s);
     let s = s\<lparr>cold_ring := r\<rparr>;
     if page = NULL then Some (False, s)
     else if \<not> present (page_heap s page) then do {
       freed_page_check page s;
       Some (False, s)
     }
     else do {
       s \<leftarrow> update_current_cool_page page s;
       let s = upd_page page (\<lambda>p. p\<lparr>ring_present := False\<rparr>) s;
       s \<leftarrow> make_cold page s;
       Some (True, s)
     }
   }"

partial_function (option) hot_loop :: "nat \<Rightarrow> ('k, 'a) pebs_scheme \<Rightarrow> ('k, 'a) pebs_scheme option" where
  "hot_loop num_ring_reqs s =
     (if \<not> ring_buf_empty (hot_ring s) \<and> num_ring_reqs < HOT_RING_REQS_THRESHOLD then do {
        (counted, s) \<leftarrow> hot_step s;
        hot_loop (if counted then num_ring_reqs + 1 else num_ring_reqs) s
      } else Some s)"

partial_function (option) cold_loop :: "nat \<Rightarrow> ('k, 'a) pebs_scheme \<Rightarrow> ('k, 'a) pebs_scheme option" where
  "cold_loop num_ring_reqs s =
     (if \<not> ring_buf_empty (cold_ring s) \<and> num_ring_reqs < COLD_RING_REQS_THRESHOLD then do {
        (counted, s) \<leftarrow> cold_step s;
        cold_loop (if counted then num_ring_reqs + 1 else num_ring_reqs) s
      } else Some s)"

text \<open>The \<^verbatim>\<open>do ... while\<close> that looks for a cold DRAM page that may be moved.\<close>

partial_function (option) dequeue_evictable :: "('k, 'a) pebs_scheme \<Rightarrow> (ptr \<times> ('k, 'a) pebs_scheme) option" where
  "dequeue_evictable s = do {
     (cp, s) \<leftarrow> dequeue_fifo dram_cold_list s;
     if cp \<noteq> NULL \<and> enforced (page_heap s cp) then dequeue_evictable s
     else Some (cp, s)
   }"

text \<open>The descriptor \<open>np\<close> takes over the frame a page has left.\<close>

definition take_frame :: "ptr \<Rightarrow> u64 \<Rightarrow> bool \<Rightarrow> ('k, 'a) pebs_scheme \<Rightarrow> ('k, 'a) pebs_scheme" where
  "take_frame np old_offset dram s =
     upd_page np (\<lambda>p. p\<lparr>devdax_offset := old_offset, in_dram := dram, present := False, hot := False,
       accesses := (\<lambda>_. 0), tot_accesses := (\<lambda>_. 0)\<rparr>) s"

text \<open>
  How an iteration of the migration loop ends: the NVM hot list was empty, the page was cold after
  all, it was moved (with the bytes counted), no DRAM page could be evicted (\<^verbatim>\<open>goto out\<close>), or
  both tries failed.
\<close>

datatype migrate_result = Nothing_Hot | Cooled | Moved u64 | No_Victim | Gave_Up

definition evict_page ::
    "'k platform \<Rightarrow> ptr \<Rightarrow> ('k, 'a) pebs_scheme \<Rightarrow> ('k, 'a) pebs_scheme option" where
  "evict_page E cp s = do {
     (np, s) \<leftarrow> dequeue_fifo nvm_free_list s;
     assert (np \<noteq> NULL);
     assert (\<not> present (page_heap s np));
     let old_offset = devdax_offset (page_heap s cp);
     s \<leftarrow> pebs_migrate_down E cp (devdax_offset (page_heap s np)) s;
     let s = take_frame np old_offset True s;
     s \<leftarrow> enqueue_fifo nvm_cold_list cp s;
     enqueue_fifo dram_free_list np s
   }"

fun try_promote :: "nat \<Rightarrow> 'k platform \<Rightarrow> ptr \<Rightarrow> ('k, 'a) pebs_scheme \<Rightarrow>
    (migrate_result \<times> ('k, 'a) pebs_scheme) option" where
  "try_promote 0 E p s = Some (Gave_Up, s)"
| "try_promote (Suc tries) E p s = do {
     (np, s) \<leftarrow> dequeue_fifo dram_free_list s;
     if np \<noteq> NULL then do {
       assert (\<not> present (page_heap s np));
       let old_offset = devdax_offset (page_heap s p);
       s \<leftarrow> pebs_migrate_up E p (devdax_offset (page_heap s np)) s;
       let s = take_frame np old_offset False s;
       s \<leftarrow> enqueue_fifo dram_hot_list p s;
       s \<leftarrow> enqueue_fifo nvm_free_list np s;
       pagesize \<leftarrow> pt_to_pagesize (pt (page_heap s p));
       Some (Moved pagesize, s)
     }
     else do {
       (cp, s) \<leftarrow> dequeue_evictable s;
       if cp = NULL then do {
         s \<leftarrow> enqueue_fifo nvm_hot_list p s;
         Some (No_Victim, s)
       }
       else do {
         s \<leftarrow> evict_page E cp s;
         try_promote tries E p s
       }
     }
   }"

definition migrate_step :: "'k platform \<Rightarrow> ('k, 'a) pebs_scheme \<Rightarrow>
    (migrate_result \<times> ('k, 'a) pebs_scheme) option" where
  "migrate_step E s = do {
     (p, s) \<leftarrow> dequeue_fifo nvm_hot_list s;
     if p = NULL then Some (Nothing_Hot, s)
     else do {
       let s = (if p = cur_cool_in_nvm s
                then s\<lparr>cur_cool_in_nvm := first_ptr (list_heap s nvm_hot_list)\<rparr> else s);
       if total_reads (page_heap s p) < HOT_READ_THRESHOLD then do {
         let s = upd_page p (\<lambda>p. p\<lparr>hot := False\<rparr>) s;
         s \<leftarrow> enqueue_fifo nvm_cold_list p s;
         Some (Cooled, s)
       }
       else try_promote 2 E p s
     }
   }"

text \<open>The boolean result is true when the iteration ends with the \<^verbatim>\<open>goto out\<close>.\<close>

partial_function (option) migrate_loop :: "'k platform \<Rightarrow> u64 \<Rightarrow> ('k, 'a) pebs_scheme \<Rightarrow>
    (bool \<times> ('k, 'a) pebs_scheme) option" where
  "migrate_loop E migrated_bytes s =
     (if migrated_bytes < PEBS_KSWAPD_MIGRATE_RATE then do {
        (r, s) \<leftarrow> migrate_step E s;
        (case r of
           Nothing_Hot \<Rightarrow> Some (False, s)
         | Cooled \<Rightarrow> migrate_loop E migrated_bytes s
         | Moved n \<Rightarrow> migrate_loop E (migrated_bytes + n) s
         | No_Victim \<Rightarrow> Some (True, s)
         | Gave_Up \<Rightarrow> migrate_loop E migrated_bytes s)
      } else Some (False, s))"

definition cool_lists :: "('k, 'a) pebs_scheme \<Rightarrow> ('k, 'a) pebs_scheme option" where
  "cool_lists s = do {
     (c, s) \<leftarrow> partial_cool dram_hot_list dram_cold_list True (cur_cool_in_dram s) s;
     let s = s\<lparr>cur_cool_in_dram := c\<rparr>;
     (c, s) \<leftarrow> partial_cool nvm_hot_list nvm_cold_list False (cur_cool_in_nvm s) s;
     Some (s\<lparr>cur_cool_in_nvm := c\<rparr>)
   }"

definition pebs_policy_thread :: "'k platform \<Rightarrow> ('k, 'a) pebs_scheme \<Rightarrow> ('k, 'a) pebs_scheme option" where
  "pebs_policy_thread E s = do {
     s \<leftarrow> free_loop s;
     s \<leftarrow> hot_loop 0 s;
     s \<leftarrow> cold_loop 0 s;
     (out, s) \<leftarrow> migrate_loop E 0 s;
     if out then Some s else cool_lists s
   }"

section \<open>Allocation\<close>

definition pebs_allocate_page :: "('k, 'a) pebs_scheme \<Rightarrow> (ptr \<times> ('k, 'a) pebs_scheme) option" where
  "pebs_allocate_page s = do {
     (page, s) \<leftarrow> dequeue_fifo dram_free_list s;
     if page \<noteq> NULL then do {
       assert (in_dram (page_heap s page));
       assert (\<not> present (page_heap s page));
       let s = upd_page page (\<lambda>p. p\<lparr>present := True\<rparr>) s;
       s \<leftarrow> enqueue_fifo dram_cold_list page s;
       Some (page, s)
     }
     else do {
       (page, s) \<leftarrow> dequeue_fifo nvm_free_list s;
       if page \<noteq> NULL then do {
         assert (\<not> in_dram (page_heap s page));
         assert (\<not> present (page_heap s page));
         let s = upd_page page (\<lambda>p. p\<lparr>present := True\<rparr>) s;
         s \<leftarrow> enqueue_fifo nvm_cold_list page s;
         Some (page, s)
       }
       else None
     }
   }"

text \<open>A free DRAM page is handed out under the user's hints, which are then reset.\<close>

definition hinted_page :: "ptr \<Rightarrow> ('k, 'a) pebs_scheme \<Rightarrow> (ptr \<times> ('k, 'a) pebs_scheme) option" where
  "hinted_page page s = do {
     assert (in_dram (page_heap s page));
     assert (\<not> present (page_heap s page));
     let s = upd_page page (\<lambda>p. p\<lparr>present := True\<rparr>) s;
     let s = upd_page page (\<lambda>p. p\<lparr>enforced := (user_hint_persistence s = 1)\<rparr>) s;
     s \<leftarrow> (if user_hint_priority s = 1 then enqueue_fifo dram_hot_list page s
           else enqueue_fifo dram_cold_list page s);
     Some (page, s\<lparr>user_hint_tier := - 1, user_hint_priority := - 1\<rparr>)
   }"

definition user_hinted_dram_pebs_allocate_page ::
    "'k platform \<Rightarrow> ('k, 'a) pebs_scheme \<Rightarrow> (ptr \<times> ('k, 'a) pebs_scheme) option" where
  "user_hinted_dram_pebs_allocate_page E s = do {
     (page, s) \<leftarrow> dequeue_fifo dram_free_list s;
     if page \<noteq> NULL then hinted_page page s
     else do {
       (cold_page, s) \<leftarrow> dequeue_evictable s;
       (free_nvm_page, s) \<leftarrow> dequeue_fifo nvm_free_list s;
       if cold_page \<noteq> NULL \<and> free_nvm_page \<noteq> NULL then do {
         let old_offset = devdax_offset (page_heap s cold_page);
         s \<leftarrow> pebs_migrate_down E cold_page (devdax_offset (page_heap s free_nvm_page)) s;
         let s = take_frame free_nvm_page old_offset True s;
         s \<leftarrow> enqueue_fifo nvm_cold_list cold_page s;
         s \<leftarrow> enqueue_fifo dram_free_list free_nvm_page s;
         (page, s) \<leftarrow> dequeue_fifo dram_free_list s;
         if page \<noteq> NULL then hinted_page page s else None
       }
       else None
     }
   }"

definition pebs_pagefault ::
    "'k platform \<Rightarrow> ('k, 'a) pebs_scheme \<Rightarrow> (ptr \<times> ('k, 'a) pebs_scheme) option" where
  "pebs_pagefault E s = do {
     (page, s) \<leftarrow> (if user_hint_tier s = 0 then user_hinted_dram_pebs_allocate_page E s
                   else pebs_allocate_page s);
     assert (page \<noteq> NULL);
     Some (page, s)
   }"

text \<open>While the free ring is full the caller waits, under a lock, for the policy thread: \<open>None\<close>.\<close>

definition pebs_remove_page :: "ptr \<Rightarrow> ('k, 'a) pebs_scheme \<Rightarrow> ('k, 'a) pebs_scheme option" where
  "pebs_remove_page page s = do {
     assert (page \<noteq> NULL);
     assert (\<not> ring_buf_full (free_page_ring s));
     let s = s\<lparr>free_page_ring := ring_buf_put page (free_page_ring s)\<rparr>;
     Some (upd_page page (\<lambda>p. p\<lparr>present := False, hot := False,
       accesses := (\<lambda>_. 0), tot_accesses := (\<lambda>_. 0)\<rparr>) s)
   }"

section \<open>Start-up and statistics\<close>

text \<open>
  Descriptors for the frames \<open>i, \<dots>, i + n - 1\<close> of a device; \<open>calloc j\<close> is the memory
  for the \<open>j\<close>-th of them.
\<close>

fun init_free_list :: "(nat \<Rightarrow> ptr) \<Rightarrow> fifo_id \<Rightarrow> bool \<Rightarrow> u64 \<Rightarrow> nat \<Rightarrow> nat \<Rightarrow> 'a mem_scheme \<Rightarrow>
    'a mem_scheme option" where
  "init_free_list calloc q dram base i 0 s = Some s"
| "init_free_list calloc q dram base i (Suc n) s = do {
     let p = calloc i;
     assert (p \<noteq> NULL);
     t \<leftarrow> pagesize_to_pt PAGE_SIZE;
     let s = upd_page p (\<lambda>_. zero_page\<lparr>devdax_offset := of_nat i * PAGE_SIZE + base, present := False,
       in_dram := dram, ring_present := False, pt := t\<rparr>) s;
     s \<leftarrow> enqueue_fifo q p s;
     init_free_list calloc q dram base (Suc i) n s
   }"

text \<open>
  \<open>dram_calloc\<close> and \<open>nvm_calloc\<close> give the memory of the descriptors, \<open>bufs\<close>
  that of the three rings (\<open>None\<close> when there is none left).
\<close>

definition pebs_init :: "(nat \<Rightarrow> ptr) \<Rightarrow> (nat \<Rightarrow> ptr) \<Rightarrow> (nat \<Rightarrow> (u64 \<Rightarrow> ptr) option) \<Rightarrow>
    ('k, 'a) pebs_scheme \<Rightarrow> ('k, 'a) pebs_scheme option" where
  "pebs_init dram_calloc nvm_calloc bufs s = do {
     s \<leftarrow> init_free_list dram_calloc dram_free_list True (dramoffset s) 0 (unat (dramsize s div PAGE_SIZE)) s;
     s \<leftarrow> init_free_list nvm_calloc nvm_free_list False (nvmoffset s) 0 (unat (nvmsize s div PAGE_SIZE)) s;
     r \<leftarrow> ring_buf_init (bufs 0) CAPACITY True;
     let s = s\<lparr>hot_ring := r\<rparr>;
     r \<leftarrow> ring_buf_init (bufs 1) CAPACITY True;
     let s = s\<lparr>cold_ring := r\<rparr>;
     r \<leftarrow> ring_buf_init (bufs 2) CAPACITY True;
     Some (s\<lparr>free_page_ring := r\<rparr>)
   }"

text \<open>The counters \<^verbatim>\<open>pebs_stats\<close> prints, and what it resets.\<close>

definition pebs_stats :: "('k, 'a) pebs_scheme \<Rightarrow> u64 list \<times> ('k, 'a) pebs_scheme" where
  "pebs_stats s =
     ([numentries (list_heap s dram_hot_list), numentries (list_heap s dram_cold_list),
       numentries (list_heap s nvm_hot_list), numentries (list_heap s nvm_cold_list),
       hemem_pages_cnt s, total_pages_cnt s, zero_pages_cnt s, throttle_cnt s, unthrottle_cnt s,
       cools s, accesses_cnt s DRAMREAD, accesses_cnt s NVMREAD,
       sum_list (map (core_accesses_cnt s) [0..<PEBS_NPROCS])],
      s\<lparr>core_accesses_cnt := (\<lambda>i. if i < PEBS_NPROCS then 0 else core_accesses_cnt s i),
        accesses_cnt := (\<lambda>_. 0), hemem_pages_cnt := 0, total_pages_cnt := 0, throttle_cnt := 0,
        unthrottle_cnt := 0\<rparr>)"

end
