(* ===== verification/Tiers.thy ===== *)
theory Tiers
  imports Typed_Lists Migration
begin

text \<open>
  What every migrating policy has to keep: each descriptor owns a frame of one device, the pages in
  use are mapped on their frames, and the page lists are typed. The exchange of a page with a
  free frame of the other device keeps this and every byte of the application.
\<close>

section \<open>Fields that do not matter to the lists\<close>

lemma queue_of_hemem [simp]:
  "queue_of (s\<lparr>dramfd := x1\<rparr>) = queue_of s"
  "queue_of (s\<lparr>nvmfd := x2\<rparr>) = queue_of s"
  "queue_of (s\<lparr>nvmsize := x3\<rparr>) = queue_of s"
  "queue_of (s\<lparr>dramsize := x4\<rparr>) = queue_of s"
  "queue_of (s\<lparr>is_init := x5\<rparr>) = queue_of s"
  "queue_of (s\<lparr>mem_mmaped := x6\<rparr>) = queue_of s"
  "queue_of (s\<lparr>mem_allocated := x7\<rparr>) = queue_of s"
  "queue_of (s\<lparr>pages_allocated := x8\<rparr>) = queue_of s"
  "queue_of (s\<lparr>pages_freed := x9\<rparr>) = queue_of s"
  "queue_of (s\<lparr>missing_faults_handled := x10\<rparr>) = queue_of s"
  "queue_of (s\<lparr>migrations_up := x11\<rparr>) = queue_of s"
  "queue_of (s\<lparr>migrations_down := x12\<rparr>) = queue_of s"
  "queue_of (s\<lparr>bytes_migrated := x13\<rparr>) = queue_of s"
  "queue_of (s\<lparr>memcpys := x14\<rparr>) = queue_of s"
  "queue_of (s\<lparr>memsets := x15\<rparr>) = queue_of s"
  "queue_of (s\<lparr>migration_waits := x16\<rparr>) = queue_of s"
  "queue_of (s\<lparr>cr3_set := x17\<rparr>) = queue_of s"
  "queue_of (s\<lparr>cr3 := x18\<rparr>) = queue_of s"
  "queue_of (s\<lparr>internal_call := x19\<rparr>) = queue_of s"
  "queue_of (s\<lparr>pages := x20\<rparr>) = queue_of s"
  "queue_of (s\<lparr>kern := x21\<rparr>) = queue_of s"
  by (rule mem_ok_cong(1); simp)+

lemma mem_ok_hemem [simp]:
  "mem_ok (s\<lparr>dramfd := x22\<rparr>) = mem_ok s"
  "mem_ok (s\<lparr>nvmfd := x23\<rparr>) = mem_ok s"
  "mem_ok (s\<lparr>nvmsize := x24\<rparr>) = mem_ok s"
  "mem_ok (s\<lparr>dramsize := x25\<rparr>) = mem_ok s"
  "mem_ok (s\<lparr>is_init := x26\<rparr>) = mem_ok s"
  "mem_ok (s\<lparr>mem_mmaped := x27\<rparr>) = mem_ok s"
  "mem_ok (s\<lparr>mem_allocated := x28\<rparr>) = mem_ok s"
  "mem_ok (s\<lparr>pages_allocated := x29\<rparr>) = mem_ok s"
  "mem_ok (s\<lparr>pages_freed := x30\<rparr>) = mem_ok s"
  "mem_ok (s\<lparr>missing_faults_handled := x31\<rparr>) = mem_ok s"
  "mem_ok (s\<lparr>migrations_up := x32\<rparr>) = mem_ok s"
  "mem_ok (s\<lparr>migrations_down := x33\<rparr>) = mem_ok s"
  "mem_ok (s\<lparr>bytes_migrated := x34\<rparr>) = mem_ok s"
  "mem_ok (s\<lparr>memcpys := x35\<rparr>) = mem_ok s"
  "mem_ok (s\<lparr>memsets := x36\<rparr>) = mem_ok s"
  "mem_ok (s\<lparr>migration_waits := x37\<rparr>) = mem_ok s"
  "mem_ok (s\<lparr>cr3_set := x38\<rparr>) = mem_ok s"
  "mem_ok (s\<lparr>cr3 := x39\<rparr>) = mem_ok s"
  "mem_ok (s\<lparr>internal_call := x40\<rparr>) = mem_ok s"
  "mem_ok (s\<lparr>pages := x41\<rparr>) = mem_ok s"
  "mem_ok (s\<lparr>kern := x42\<rparr>) = mem_ok s"
  by (rule mem_ok_cong(2); simp)+

lemma payload_hemem [simp]:
  "payload (s\<lparr>dramfd := x43\<rparr>) = payload s"
  "payload (s\<lparr>nvmfd := x44\<rparr>) = payload s"
  "payload (s\<lparr>nvmsize := x45\<rparr>) = payload s"
  "payload (s\<lparr>dramsize := x46\<rparr>) = payload s"
  "payload (s\<lparr>is_init := x47\<rparr>) = payload s"
  "payload (s\<lparr>mem_mmaped := x48\<rparr>) = payload s"
  "payload (s\<lparr>mem_allocated := x49\<rparr>) = payload s"
  "payload (s\<lparr>pages_allocated := x50\<rparr>) = payload s"
  "payload (s\<lparr>pages_freed := x51\<rparr>) = payload s"
  "payload (s\<lparr>missing_faults_handled := x52\<rparr>) = payload s"
  "payload (s\<lparr>migrations_up := x53\<rparr>) = payload s"
  "payload (s\<lparr>migrations_down := x54\<rparr>) = payload s"
  "payload (s\<lparr>bytes_migrated := x55\<rparr>) = payload s"
  "payload (s\<lparr>memcpys := x56\<rparr>) = payload s"
  "payload (s\<lparr>memsets := x57\<rparr>) = payload s"
  "payload (s\<lparr>migration_waits := x58\<rparr>) = payload s"
  "payload (s\<lparr>cr3_set := x59\<rparr>) = payload s"
  "payload (s\<lparr>cr3 := x60\<rparr>) = payload s"
  "payload (s\<lparr>internal_call := x61\<rparr>) = payload s"
  "payload (s\<lparr>pages := x62\<rparr>) = payload s"
  "payload (s\<lparr>kern := x63\<rparr>) = payload s"
  by (rule mem_ok_cong(3); simp)+

section \<open>Assignments to a descriptor\<close>

lemma pay_fun_intros [simp]:
  "pay_fun (\<lambda>p. p\<lparr>hot := b\<rparr>)" "pay_fun (\<lambda>p. p\<lparr>present := b\<rparr>)" "pay_fun (\<lambda>p. p\<lparr>ring_present := b\<rparr>)"
  "pay_fun (\<lambda>p. p\<lparr>migrating := b\<rparr>)" "pay_fun (\<lambda>p. p\<lparr>enforced := b\<rparr>)" "pay_fun (\<lambda>p. p\<lparr>va := v\<rparr>)"
  "pay_fun (\<lambda>p. p\<lparr>migrating := b, page_migrations_up := x, page_migrations_down := y\<rparr>)"
  "pay_fun (\<lambda>p. p\<lparr>devdax_offset := off, in_dram := b, present := c, hot := d,
     accesses := acc, tot_accesses := tot\<rparr>)"
  "pay_fun (\<lambda>p. p\<lparr>present := c, hot := d, accesses := acc, tot_accesses := tot\<rparr>)"
  "pay_fun (\<lambda>p. p\<lparr>page_migrations_up := page_migrations_up p + 1, devdax_offset := off, in_dram := b\<rparr>)"
  "pay_fun (\<lambda>p. p\<lparr>page_migrations_down := page_migrations_down p + 1, devdax_offset := off, in_dram := b\<rparr>)"
  "pay_fun (\<lambda>p. p\<lparr>accesses := (accesses p)(j := accesses p j + 1), tot_accesses := (tot_accesses p)(j := tot_accesses p j + 1)\<rparr>)"
  by (simp_all add: pay_fun_def keeps_links_def strip_def)

section \<open>Aligned ranges\<close>

lemma aligned_range_unique:
  assumes "(x - b) mod HUGEPAGE_SIZE = 0" and "in_range x HUGEPAGE_SIZE a"
  shows "x = a - (a - b) mod HUGEPAGE_SIZE"
proof -
  define X where "X = unat (x - b)"
  define A where "A = unat (a - b)"
  have H: "unat HUGEPAGE_SIZE = 2 ^ 21"
    by (simp add: HUGEPAGE_SIZE_def)
  have X: "X mod 2 ^ 21 = 0"
    using assms(1) unfolding X_def H [symmetric] unat_mod [symmetric] by simp
  have lt: "unat ((a - b) - (x - b)) < 2 ^ 21"
    using assms(2) by (simp add: in_range_def word_less_nat_alt H)
  have le: "x - b \<le> a - b"
  proof (rule ccontr)
    assume "\<not> x - b \<le> a - b"
    then have "A < X" and "2 ^ 64 + A - X < 2 ^ 21"
      using lt unat_sub_if' [of "a - b" "x - b"]
      by (auto simp: X_def A_def word_le_nat_alt not_le)
    moreover have "X < 2 ^ 64"
      using unat_less_power [of "x - b"] by (simp add: X_def)
    moreover obtain k where "X = 2 ^ 21 * k"
      using X unfolding mod_eq_0_iff_dvd by (rule dvdE)
    ultimately show False
      by auto
  qed
  have "unat ((a - b) - (x - b)) = A - X" "X \<le> A"
    using unat_sub [OF le] le by (simp_all add: A_def X_def word_le_nat_alt)
  then have "A = X + unat ((a - b) - (x - b))"
    by simp
  then have "unat ((a - b) mod HUGEPAGE_SIZE) = unat ((a - b) - (x - b))"
    using X lt unfolding unat_mod H A_def [symmetric] by (simp add: mod_add_eq [symmetric, of X])
  then have "(a - b) mod HUGEPAGE_SIZE = a - x"
    by (simp add: word_unat_eq_iff)
  then show ?thesis by simp
qed

lemma aligned_ranges_disjoint:
  assumes "(x - b) mod HUGEPAGE_SIZE = 0" "(y - b) mod HUGEPAGE_SIZE = 0"
    and "in_range x HUGEPAGE_SIZE a" "in_range y HUGEPAGE_SIZE a"
  shows "x = y"
  using aligned_range_unique [OF assms(1,3)] aligned_range_unique [OF assms(2,4)] by simp


section \<open>What the list operations leave alone\<close>

definition devs :: "('k, 'a) hemem_scheme \<Rightarrow> (int \<times> u64 \<times> u64 \<times> ptr) \<times> (int \<times> u64 \<times> u64 \<times> ptr)" where
  "devs s = ((dramfd s, dramoffset s, dramsize s, dram_devdax_mmap s),
             (nvmfd s, nvmoffset s, nvmsize s, nvm_devdax_mmap s))"

lemma heaps_only_hemem:
  assumes "heaps_only s s'"
  shows "devs s' = devs s" and "pages s' = pages s" and "kern s' = kern s"
  by (subst heaps_only_eq [OF assms], simp add: devs_def)+

lemma devs_eq:
  "devs s' = devs s \<longleftrightarrow> dramfd s' = dramfd s \<and> dramoffset s' = dramoffset s \<and> dramsize s' = dramsize s \<and>
     dram_devdax_mmap s' = dram_devdax_mmap s \<and> nvmfd s' = nvmfd s \<and> nvmoffset s' = nvmoffset s \<and>
     nvmsize s' = nvmsize s \<and> nvm_devdax_mmap s' = nvm_devdax_mmap s"
  by (auto simp: devs_def)

section \<open>Migration\<close>

lemma same_memory_window: "same_memory E k k' \<Longrightarrow> window E k' b n fd off = window E k b n fd off"
  by (simp add: same_memory_def window_def)

lemma same_memory_migrated: "same_memory E k k1 \<Longrightarrow> migrated E v n d r k1 k' = migrated E v n d r k k'"
proof -
  assume "same_memory E k k1"
  then have e: "vmap E k1 = vmap E k" "dev E k1 = dev E k"
    by (simp_all add: same_memory_def)
  show ?thesis
    unfolding migrated_def copied_def e by (rule refl)
qed

lemma devices_mapped_cong:
  "devs s' = devs s \<Longrightarrow> same_memory E (kern s) (kern s') \<Longrightarrow> devices_mapped E s' = devices_mapped E s"
  by (simp add: devices_mapped_def devs_eq same_memory_window)

text \<open>The device of a tier: descriptor, first offset and size of DRAM (\<open>True\<close>) or NVM.\<close>

definition tier_fd :: "('k, 'a) hemem_scheme \<Rightarrow> bool \<Rightarrow> int" where
  "tier_fd s dram = (if dram then dramfd s else nvmfd s)"

definition tier_base :: "('k, 'a) hemem_scheme \<Rightarrow> bool \<Rightarrow> u64" where
  "tier_base s dram = (if dram then dramoffset s else nvmoffset s)"

definition tier_size :: "('k, 'a) hemem_scheme \<Rightarrow> bool \<Rightarrow> u64" where
  "tier_size s dram = (if dram then dramsize s else nvmsize s)"

lemmas tier_defs = tier_fd_def tier_base_def tier_size_def

definition frame_ok :: "('k, 'a) hemem_scheme \<Rightarrow> hemem_page \<Rightarrow> bool" where
  "frame_ok s pg \<longleftrightarrow> pt pg = HUGEP \<and>
     frame_in (tier_base s (in_dram pg)) (tier_size s (in_dram pg)) (devdax_offset pg) PAGE_SIZE \<and>
     (devdax_offset pg - tier_base s (in_dram pg)) mod PAGE_SIZE = 0"

section \<open>Frames and mappings\<close>

text \<open>No address of the \<open>PAGE_SIZE\<close> bytes at \<open>v\<close> lies in the library's device windows.\<close>

definition apart :: "('k, 'a) hemem_scheme \<Rightarrow> u64 \<Rightarrow> bool" where
  "apart s v \<longleftrightarrow> (\<forall>a. in_range v PAGE_SIZE a \<longrightarrow>
     \<not> in_range (dram_devdax_mmap s) (dramsize s) a \<and> \<not> in_range (nvm_devdax_mmap s) (nvmsize s) a)"

definition mapped_ok :: "'k platform \<Rightarrow> ('k, 'a) hemem_scheme \<Rightarrow> ptr \<Rightarrow> hemem_page \<Rightarrow> bool" where
  "mapped_ok E s p pg \<longleftrightarrow> va pg \<noteq> 0 \<and> va pg mod HUGEPAGE_SIZE = 0 \<and> pages s (va pg) = Some p \<and>
     window E (kern s) (va pg) PAGE_SIZE (tier_fd s (in_dram pg)) (devdax_offset pg) \<and> apart s (va pg)"

text \<open>Every descriptor of \<open>U\<close> owns a frame of its device, and no two own the same.\<close>

definition frames_ok :: "ptr set \<Rightarrow> ('k, 'a) hemem_scheme \<Rightarrow> bool" where
  "frames_ok U s \<longleftrightarrow> NULL \<notin> U \<and> (\<forall>p \<in> U. frame_ok s (payload s p)) \<and>
     inj_on (\<lambda>p. (in_dram (payload s p), devdax_offset (payload s p))) U"

text \<open>The pages handed out are mapped on their frames, and the table lists exactly these.\<close>

definition maps_ok :: "ptr set \<Rightarrow> 'k platform \<Rightarrow> ('k, 'a) hemem_scheme \<Rightarrow> bool" where
  "maps_ok U E s \<longleftrightarrow> devices_mapped E s \<and>
     (\<forall>p \<in> U. present (payload s p) \<longrightarrow> mapped_ok E s p (payload s p)) \<and>
     (\<forall>v p. pages s v = Some p \<longrightarrow> p \<in> U \<and> present (payload s p) \<and> va (payload s p) = v)"

text \<open>The application's memory is the same: its pages are where they were and hold the same bytes.\<close>

definition same_app :: "ptr set \<Rightarrow> 'k platform \<Rightarrow> ('k, 'a) hemem_scheme \<Rightarrow> ('k, 'a) hemem_scheme \<Rightarrow> bool" where
  "same_app U E s s' \<longleftrightarrow> (\<forall>p \<in> U. present (payload s p) \<longrightarrow>
     present (payload s' p) \<and> va (payload s' p) = va (payload s p) \<and>
     (\<forall>a. in_range (va (payload s p)) PAGE_SIZE a \<longrightarrow> load8 E (kern s') a = load8 E (kern s) a))"

lemma same_app_refl [simp]: "same_app U E s s"
  by (simp add: same_app_def)

lemma same_app_trans: "same_app U E s t \<Longrightarrow> same_app U E t u \<Longrightarrow> same_app U E s u"
  by (auto simp: same_app_def)

lemma PAGE_HUGE: "PAGE_SIZE = HUGEPAGE_SIZE"
  by (simp add: PAGE_SIZE_def)

lemma frame_unique:
  assumes f: "frames_ok U s" and "p \<in> U" "q \<in> U" and t: "in_dram (payload s p) = in_dram (payload s q)"
    and "in_range (devdax_offset (payload s p)) PAGE_SIZE x" "in_range (devdax_offset (payload s q)) PAGE_SIZE x"
  shows "p = q"
proof -
  have "frame_ok s (payload s p)" "frame_ok s (payload s q)"
    using f assms(2,3) by (simp_all add: frames_ok_def)
  then have "(devdax_offset (payload s p) - tier_base s (in_dram (payload s q))) mod HUGEPAGE_SIZE = 0"
    "(devdax_offset (payload s q) - tier_base s (in_dram (payload s q))) mod HUGEPAGE_SIZE = 0"
    using t by (simp_all add: frame_ok_def PAGE_HUGE)
  from aligned_ranges_disjoint [OF this, of x] assms(5,6)
  have "devdax_offset (payload s p) = devdax_offset (payload s q)"
    by (simp add: PAGE_HUGE)
  with f assms(2,3) t show ?thesis
    by (auto simp: frames_ok_def inj_on_def)
qed

lemma va_unique:
  assumes m: "maps_ok U E s" and "p \<in> U" "q \<in> U" "present (payload s p)" "present (payload s q)"
    and "in_range (va (payload s p)) PAGE_SIZE a" "in_range (va (payload s q)) PAGE_SIZE a"
  shows "p = q"
proof -
  have mp: "mapped_ok E s p (payload s p)" "mapped_ok E s q (payload s q)"
    using assms by (simp_all add: maps_ok_def)
  then have "(va (payload s p) - 0) mod HUGEPAGE_SIZE = 0" "(va (payload s q) - 0) mod HUGEPAGE_SIZE = 0"
    by (simp_all add: mapped_ok_def)
  from aligned_ranges_disjoint [OF this, of a] assms(6,7)
  have "va (payload s p) = va (payload s q)"
    by (simp add: PAGE_HUGE)
  with mp show ?thesis
    by (simp add: mapped_ok_def)
qed

lemma window_after_migration:
  assumes "migrated E v n d r k k'" and "window E k b m fd off" and "\<And>a. in_range v n a \<Longrightarrow> \<not> in_range b m a"
  shows "window E k' b m fd off"
proof -
  have "\<not> in_range v n (b + i)" if "i < m" for i
    using assms(3) [of "b + i"] that by (auto simp: in_range_offset)
  with assms(1,2) show ?thesis
    by (simp add: window_def migrated_def)
qed


text \<open>
  The heart of a migration: the page \<open>p\<close> moves to the frame of the free descriptor
  \<open>np\<close>, which takes over the frame \<open>p\<close> has left.
\<close>

definition swapped :: "'k platform \<Rightarrow> ptr \<Rightarrow> ptr \<Rightarrow> ('k, 'a) hemem_scheme \<Rightarrow> ('k, 'a) hemem_scheme \<Rightarrow> bool" where
  "swapped E p np s t \<longleftrightarrow>
     present (payload s p) \<and> \<not> present (payload s np) \<and> in_dram (payload s np) = (\<not> in_dram (payload s p)) \<and>
     devs t = devs s \<and> pages t = pages s \<and>
     migrated E (va (payload s p)) PAGE_SIZE
       (tier_fd s (in_dram (payload s np)), devdax_offset (payload s np))
       (tier_fd s (in_dram (payload s p)), devdax_offset (payload s p)) (kern s) (kern t) \<and>
     (\<exists>x y. payload t = (payload s)(p := x, np := y) \<and>
        va x = va (payload s p) \<and> present x \<and> pt x = pt (payload s p) \<and>
        in_dram x = in_dram (payload s np) \<and> devdax_offset x = devdax_offset (payload s np) \<and>
        \<not> present y \<and> pt y = pt (payload s np) \<and> in_dram y = in_dram (payload s p) \<and>
        devdax_offset y = devdax_offset (payload s p))"

lemma devs_tier:
  assumes "devs t = devs s"
  shows "tier_fd t = tier_fd s" and "tier_base t = tier_base s" and "tier_size t = tier_size s"
    and "apart t = apart s"
  using assms by (simp_all add: fun_eq_iff tier_defs apart_def devs_eq)

lemma swappedE:
  assumes "swapped E p np s t"
  obtains "present (payload s p)" "\<not> present (payload s np)" "in_dram (payload s np) = (\<not> in_dram (payload s p))"
    "devs t = devs s" "pages t = pages s"
    "migrated E (va (payload s p)) PAGE_SIZE
       (tier_fd s (in_dram (payload s np)), devdax_offset (payload s np))
       (tier_fd s (in_dram (payload s p)), devdax_offset (payload s p)) (kern s) (kern t)"
    "va (payload t p) = va (payload s p)" "present (payload t p)" "pt (payload t p) = pt (payload s p)"
    "in_dram (payload t p) = in_dram (payload s np)" "devdax_offset (payload t p) = devdax_offset (payload s np)"
    "\<not> present (payload t np)" "pt (payload t np) = pt (payload s np)" "in_dram (payload t np) = in_dram (payload s p)"
    "devdax_offset (payload t np) = devdax_offset (payload s p)"
    "\<And>q. q \<noteq> p \<Longrightarrow> q \<noteq> np \<Longrightarrow> payload t q = payload s q" "p \<noteq> np"
proof -
  have "p \<noteq> np"
    using assms by (auto simp: swapped_def)
  with assms that show thesis
    unfolding swapped_def by auto
qed

lemma swapped_frames:
  assumes f: "frames_ok U s" and U: "p \<in> U" "np \<in> U" and sw: "swapped E p np s t"
  shows "frames_ok U t"
  using sw
proof (rule swappedE)
  assume *: "devs t = devs s" "pt (payload t p) = pt (payload s p)"
    "in_dram (payload t p) = in_dram (payload s np)" "devdax_offset (payload t p) = devdax_offset (payload s np)"
    "pt (payload t np) = pt (payload s np)" "in_dram (payload t np) = in_dram (payload s p)"
    "devdax_offset (payload t np) = devdax_offset (payload s p)"
    "\<And>q. q \<noteq> p \<Longrightarrow> q \<noteq> np \<Longrightarrow> payload t q = payload s q" "p \<noteq> np"
  have "frame_ok t (payload t q)" if "q \<in> U" for q
    using f that U * (2-8) unfolding frames_ok_def frame_ok_def devs_tier [OF * (1)]
    by (cases "q = p"; cases "q = np") auto
  moreover have "inj_on (\<lambda>q. (in_dram (payload t q), devdax_offset (payload t q))) U"
  proof (rule inj_onI)
    fix q r assume qr: "q \<in> U" "r \<in> U"
      "(in_dram (payload t q), devdax_offset (payload t q)) = (in_dram (payload t r), devdax_offset (payload t r))"
    define w where "w a = (if a = p then np else if a = np then p else a)" for a
    have w: "in_dram (payload t a) = in_dram (payload s (w a))" "devdax_offset (payload t a) = devdax_offset (payload s (w a))"
      "a \<in> U \<Longrightarrow> w a \<in> U" for a
      using * (3,4,6-9) U by (simp_all add: w_def)
    have "w q = w r"
      using f qr w [of q] w [of r] by (auto simp: frames_ok_def inj_on_def)
    with * (9) show "q = r"
      by (auto simp: w_def split: if_splits)
  qed
  ultimately show ?thesis
    using f by (simp add: frames_ok_def)
qed

lemma swapped_maps:
  assumes m: "maps_ok U E s" and U: "p \<in> U" "np \<in> U" and sw: "swapped E p np s t"
  shows "maps_ok U E t"
  using sw
proof (rule swappedE)
  assume *: "present (payload s p)" "\<not> present (payload s np)" "devs t = devs s" "pages t = pages s"
    and mig: "migrated E (va (payload s p)) PAGE_SIZE
      (tier_fd s (in_dram (payload s np)), devdax_offset (payload s np))
      (tier_fd s (in_dram (payload s p)), devdax_offset (payload s p)) (kern s) (kern t)"
    and P: "va (payload t p) = va (payload s p)" "present (payload t p)"
      "in_dram (payload t p) = in_dram (payload s np)" "devdax_offset (payload t p) = devdax_offset (payload s np)"
      "\<not> present (payload t np)" "\<And>q. q \<noteq> p \<Longrightarrow> q \<noteq> np \<Longrightarrow> payload t q = payload s q" "p \<noteq> np"
  note tier = devs_tier [OF * (3)]
  have mp: "mapped_ok E s q (payload s q)" if "q \<in> U" "present (payload s q)" for q
    using m that by (simp add: maps_ok_def)
  have "devices_mapped E t"
    using m mp [OF U(1) * (1)] window_after_migration [OF mig] * (3)
    unfolding maps_ok_def devices_mapped_def mapped_ok_def apart_def devs_eq by auto
  moreover have "mapped_ok E t q (payload t q)" if q: "q \<in> U" "present (payload t q)" for q
  proof (cases "q = p")
    case True
    have "window E (kern t) (va (payload s p)) PAGE_SIZE
        (tier_fd s (in_dram (payload s np))) (devdax_offset (payload s np))"
      using mig by (simp add: migrated_def window_def in_range_offset)
    with True mp [OF U(1) * (1)] P * (4) show ?thesis
      by (simp add: mapped_ok_def tier)
  next
    case False
    with q P have qs: "payload t q = payload s q" "present (payload s q)"
      by (cases "q = np"; auto)+
    from mp [OF q(1) qs(2)] have mq: "mapped_ok E s q (payload s q)" .
    have "window E (kern t) (va (payload s q)) PAGE_SIZE (tier_fd s (in_dram (payload s q))) (devdax_offset (payload s q))"
      by (rule window_after_migration [OF mig])
        (use mq va_unique [OF m U(1) q(1) * (1) qs(2)] False in \<open>auto simp: mapped_ok_def\<close>)
    with mq qs * (4) show ?thesis
      by (simp add: mapped_ok_def tier)
  qed
  moreover have "q \<in> U \<and> present (payload t q) \<and> va (payload t q) = v" if "pages t v = Some q" for v q
  proof -
    from m that * (4) have "q \<in> U" "present (payload s q)" "va (payload s q) = v"
      by (auto simp: maps_ok_def)
    with P * (2) show ?thesis
      by (cases "q = p"; cases "q = np") auto
  qed
  ultimately show ?thesis
    by (auto simp: maps_ok_def)
qed

lemma swapped_app:
  assumes f: "frames_ok U s" and m: "maps_ok U E s" and U: "p \<in> U" "np \<in> U" and sw: "swapped E p np s t"
  shows "same_app U E s t"
  using sw
proof (rule swappedE)
  assume *: "present (payload s p)" "\<not> present (payload s np)" "in_dram (payload s np) = (\<not> in_dram (payload s p))"
    and mig: "migrated E (va (payload s p)) PAGE_SIZE
      (tier_fd s (in_dram (payload s np)), devdax_offset (payload s np))
      (tier_fd s (in_dram (payload s p)), devdax_offset (payload s p)) (kern s) (kern t)"
    and P: "va (payload t p) = va (payload s p)" "present (payload t p)"
      "\<And>q. q \<noteq> p \<Longrightarrow> q \<noteq> np \<Longrightarrow> payload t q = payload s q" "p \<noteq> np"
  have mp: "mapped_ok E s q (payload s q)" if "q \<in> U" "present (payload s q)" for q
    using m that by (simp add: maps_ok_def)
  have fds: "tier_fd s c = tier_fd s d \<longleftrightarrow> c = d" for c d
    using m by (auto simp: maps_ok_def devices_mapped_def tier_defs)
  have wp: "window E (kern s) (va (payload s p)) PAGE_SIZE (tier_fd s (in_dram (payload s p))) (devdax_offset (payload s p))"
    using mp [OF U(1) * (1)] by (simp add: mapped_ok_def)
  have "load8 E (kern t) a = load8 E (kern s) a"
    if q: "q \<in> U" "present (payload s q)" "in_range (va (payload s q)) PAGE_SIZE a" for q a
  proof (rule migrated_load8 [OF mig wp])
    show "tier_fd s (in_dram (payload s np)) \<noteq> tier_fd s (in_dram (payload s p))"
      using * (3) by (simp add: fds)
    fix x assume x: "in_range (devdax_offset (payload s np)) PAGE_SIZE x"
    have "window E (kern s) (va (payload s q)) PAGE_SIZE (tier_fd s (in_dram (payload s q))) (devdax_offset (payload s q))"
      using mp [OF q(1,2)] by (simp add: mapped_ok_def)
    from window_loc [OF this q(3)]
    have va: "vmap E (kern s) a = Some (tier_fd s (in_dram (payload s q)), devdax_offset (payload s q) + (a - va (payload s q)))" .
    have rg: "in_range (devdax_offset (payload s q)) PAGE_SIZE (devdax_offset (payload s q) + (a - va (payload s q)))"
      using q(3) by (simp add: in_range_def)
    show "vmap E (kern s) a \<noteq> Some (tier_fd s (in_dram (payload s np)), x)"
      using frame_unique [OF f q(1) U(2), of x] rg x q(2) * (2) by (auto simp: va fds)
  qed
  with P * (2) show ?thesis
    unfolding same_app_def by metis
qed

text \<open>The part of a descriptor that says where the page is.\<close>

definition place :: "hemem_page \<Rightarrow> u64 \<times> bool \<times> pagetypes \<times> u64 \<times> bool" where
  "place pg = (devdax_offset pg, in_dram pg, pt pg, va pg, present pg)"

lemma frames_ok_cong:
  assumes "devs s' = devs s" and "\<And>p. place (payload s' p) = place (payload s p)"
  shows "frames_ok U s' = frames_ok U s"
proof -
  have "devdax_offset (payload s' p) = devdax_offset (payload s p)" "in_dram (payload s' p) = in_dram (payload s p)"
    "pt (payload s' p) = pt (payload s p)" for p
    using assms(2) [of p] by (simp_all add: place_def)
  then show ?thesis
    by (simp add: frames_ok_def frame_ok_def devs_tier [OF assms(1)])
qed

lemma maps_ok_cong:
  assumes "devs s' = devs s" and "\<And>p. place (payload s' p) = place (payload s p)" and "pages s' = pages s"
    and "same_memory E (kern s) (kern s')"
  shows "maps_ok U E s' = maps_ok U E s" and "same_app U E s s'"
proof -
  have f: "devdax_offset (payload s' p) = devdax_offset (payload s p)" "in_dram (payload s' p) = in_dram (payload s p)"
    "va (payload s' p) = va (payload s p)" "present (payload s' p) = present (payload s p)" for p
    using assms(2) [of p] by (simp_all add: place_def)
  show "maps_ok U E s' = maps_ok U E s"
    unfolding maps_ok_def mapped_ok_def f devs_tier [OF assms(1)] assms(3) same_memory_window [OF assms(4)]
      devices_mapped_cong [OF assms(1,4)] ..
  show "same_app U E s s'"
    using assms(4) by (simp add: same_app_def f load8_def same_memory_def)
qed

text \<open>Lists, frames and mappings together; \<open>X\<close> are the pages the running thread holds.\<close>

definition tiers_ok :: "(fifo_id \<Rightarrow> hemem_page \<Rightarrow> bool) \<Rightarrow> ptr set \<Rightarrow> ptr set \<Rightarrow> 'k platform \<Rightarrow> ('k, 'a) hemem_scheme \<Rightarrow> bool" where
  "tiers_ok T U X E s \<longleftrightarrow> typed_lists T U X s \<and> frames_ok U s \<and> maps_ok U E s"

lemma tiers_okD:
  assumes "tiers_ok T U X E s"
  shows "typed_lists T U X s" and "frames_ok U s" and "maps_ok U E s"
  using assms by (simp_all add: tiers_ok_def)

lemma tiers_ok_cong:
  assumes "typed_lists T U X s'" and "tiers_ok T' U X' E s" and "devs s' = devs s"
    and "\<And>p. place (payload s' p) = place (payload s p)" and "pages s' = pages s" and "kern s' = kern s"
  shows "tiers_ok T U X E s'" and "same_app U E s s'"
  using assms frames_ok_cong [OF assms(3,4)] maps_ok_cong [OF assms(3-5)] by (simp_all add: tiers_ok_def)

lemma tiers_heaps:
  assumes "tiers_ok T' U X' E s" and "typed_lists T U X s'" and "payload s' = payload s" and "heaps_only s s'"
  shows "tiers_ok T U X E s'"
  using heaps_only_hemem [OF assms(4)] assms
  by (intro tiers_ok_cong(1) [OF assms(2,1)]) simp_all

lemma tiers_deq:
  assumes ok: "tiers_ok T U X E s" and "queue_of s q = ys @ [x]"
  shows "\<exists>s'. dequeue_fifo q s = Some (x, s') \<and> tiers_ok T U (insert x X) E s' \<and>
    queue_of s' = (queue_of s)(q := ys) \<and> payload s' = payload s \<and> heaps_only s s'"
  using typed_lists_deq [OF tiers_okD(1) [OF ok] assms(2)] tiers_heaps [OF ok] by blast

lemma tiers_rem:
  assumes ok: "tiers_ok T U X E s" and "x \<in> set (queue_of s q)"
  shows "\<exists>s'. page_list_remove_page q x s = Some s' \<and> tiers_ok T U (insert x X) E s' \<and>
    queue_of s' = (queue_of s)(q := remove1 x (queue_of s q)) \<and> payload s' = payload s \<and> heaps_only s s'"
  using typed_lists_rem [OF tiers_okD(1) [OF ok] assms(2)] tiers_heaps [OF ok] by blast

lemma tiers_enq:
  assumes ok: "tiers_ok T U X E s" and "x \<in> X" and "T q (payload s x)"
  shows "\<exists>s'. enqueue_fifo q x s = Some s' \<and> tiers_ok T U (X - {x}) E s' \<and>
    queue_of s' = (queue_of s)(q := x # queue_of s q) \<and> payload s' = payload s \<and> heaps_only s s'"
  using typed_lists_enq [OF tiers_okD(1) [OF ok] assms(2,3)] tiers_heaps [OF ok] by blast

lemma tiers_upd:
  assumes ok: "tiers_ok T U X E s" and x: "x \<in> X" and f: "pay_fun f" "\<And>pg. place (f pg) = place pg"
  shows "tiers_ok T U X E (upd_page x f s)" and "queue_of (upd_page x f s) = queue_of s"
    and "payload (upd_page x f s) = (payload s)(x := f (payload s x))"
proof -
  note u = upd_page_spec [OF typed_listsD(1) [OF tiers_okD(1) [OF ok]] f(1), of x]
  show "queue_of (upd_page x f s) = queue_of s"
    "payload (upd_page x f s) = (payload s)(x := f (payload s x))"
    by (rule u(2,3))+
  show "tiers_ok T U X E (upd_page x f s)"
    by (rule tiers_ok_cong(1) [OF typed_lists_upd [OF tiers_okD(1) [OF ok] x f(1)] ok])
      (simp_all add: u(3) f(2) devs_def)
qed


section \<open>Exchanging frames\<close>

lemma tiers_ok_heap_cong:
  fixes s s' :: "('k, 'a) hemem_scheme"
  assumes "page_heap s' = page_heap s" "list_heap s' = list_heap s" "devs s' = devs s" "pages s' = pages s" "kern s' = kern s"
  shows "tiers_ok T U X E s' = tiers_ok T U X E s"
proof -
  note c = mem_ok_cong [OF assms(1,2)]
  have "typed_lists T U X s' = typed_lists T U X s"
    by (rule typed_lists_cong [OF assms(1,2)])
  moreover have "frames_ok U s' = frames_ok U s"
    by (rule frames_ok_cong [OF assms(3)]) (simp add: c)
  moreover have "maps_ok U E s' = maps_ok U E s"
    by (rule maps_ok_cong(1) [OF assms(3) _ assms(4)]) (simp_all add: c assms(5))
  ultimately show ?thesis by (simp add: tiers_ok_def)
qed

lemma typed_lists_held:
  assumes "typed_lists T U X s" and "mem_ok t" and "queue_of t = queue_of s"
    and "\<And>q. q \<notin> X \<Longrightarrow> payload t q = payload s q"
  shows "typed_lists T U X t"
proof -
  have "T q (payload t p)" if "p \<in> set (queue_of s q)" for p q
    using typed_listsD(4,5) [OF assms(1) that] assms(4) by simp
  with assms(1-3) show ?thesis
    unfolding typed_lists_def members_def by simp
qed

text \<open>Two descriptors, their frames swapped, go to the lists that fit.\<close>

lemma swapped_tiers:
  assumes ok: "tiers_ok T U X E s" and "p \<in> X" "np \<in> X" and sw: "swapped E p np s t"
    and "mem_ok t" "queue_of t = queue_of s"
  shows "tiers_ok T U X E t" and "same_app U E s t"
proof -
  note d = tiers_okD [OF ok] typed_listsD(2) [OF tiers_okD(1) [OF ok]]
  have U: "p \<in> U" "np \<in> U"
    using d(4) assms(2,3) by auto
  have "typed_lists T U X t"
    by (rule typed_lists_held [OF d(1) assms(5,6)]) (use sw assms(2,3) in \<open>auto elim: swappedE\<close>)
  with swapped_frames [OF d(2) U sw] swapped_maps [OF d(3) U sw] show "tiers_ok T U X E t"
    by (simp add: tiers_ok_def)
  show "same_app U E s t"
    by (rule swapped_app [OF d(2,3) U sw])
qed

lemma tiers_enq2:
  assumes ok: "tiers_ok T U {x, y} E s" and "x \<noteq> y" and "T q (payload s x)" "T r (payload s y)" "q \<noteq> r"
  shows "\<exists>s'. (enqueue_fifo q x s \<bind> enqueue_fifo r y) = Some s' \<and> tiers_ok T U {} E s' \<and>
    queue_of s' = (queue_of s)(q := x # queue_of s q, r := y # queue_of s r) \<and> payload s' = payload s \<and> heaps_only s s'"
proof -
  obtain s1 where s1: "enqueue_fifo q x s = Some s1" "tiers_ok T U {y} E s1"
    "queue_of s1 = (queue_of s)(q := x # queue_of s q)" "payload s1 = payload s" "heaps_only s s1"
    using tiers_enq [OF ok, of x q] assms by (auto simp: insert_Diff_if)
  obtain s' where s': "enqueue_fifo r y s1 = Some s'" "tiers_ok T U {} E s'"
    "queue_of s' = (queue_of s1)(r := y # queue_of s1 r)" "payload s' = payload s1" "heaps_only s1 s'"
    using tiers_enq [OF s1(2), of y r] assms s1(4) by auto
  show ?thesis
    using s1 s' assms(5) heaps_only_trans [OF s1(5) s'(5)] by auto
qed

lemma swappedI:
  assumes "present (payload s p)" "\<not> present (payload s np)" "in_dram (payload s np) = (\<not> in_dram (payload s p))"
    and "devs t = devs s" "pages t = pages s"
    and "migrated E (va (payload s p)) PAGE_SIZE
       (tier_fd s (in_dram (payload s np)), devdax_offset (payload s np))
       (tier_fd s (in_dram (payload s p)), devdax_offset (payload s p)) (kern s) (kern t)"
    and "payload t = (payload s)(p := x, np := y)"
    and "va x = va (payload s p)" "present x" "pt x = pt (payload s p)" "in_dram x = in_dram (payload s np)"
      "devdax_offset x = devdax_offset (payload s np)"
    and "\<not> present y" "pt y = pt (payload s np)" "in_dram y = in_dram (payload s p)"
      "devdax_offset y = devdax_offset (payload s p)"
  shows "swapped E p np s t"
  unfolding swapped_def using assms by (intro conjI exI [of _ x] exI [of _ y])

text \<open>What a migration leaves alone: the devices, the table of pages and the policy's own variables.\<close>

definition policy_same :: "('k, 'a) hemem_scheme \<Rightarrow> ('k, 'a) hemem_scheme \<Rightarrow> bool" where
  "policy_same s s' \<longleftrightarrow> devs s' = devs s \<and> pages s' = pages s \<and> hemem.more s' = hemem.more s"

lemma policy_same_refl [simp]: "policy_same s s"
  by (simp add: policy_same_def)

lemma policy_same_trans: "policy_same s t \<Longrightarrow> policy_same t u \<Longrightarrow> policy_same s u"
  by (simp add: policy_same_def)

lemma heaps_only_policy: "heaps_only s s' \<Longrightarrow> policy_same s s'"
  by (subst heaps_only_eq [of s s']) (simp_all add: policy_same_def devs_def)

text \<open>The sequence of both migrating policies: mark the page, write-protect it, move it.\<close>

definition protected_up ::
    "'k platform \<Rightarrow> ptr \<Rightarrow> u64 \<Rightarrow> ('k, 'a) hemem_scheme \<Rightarrow> ('k, 'a) hemem_scheme option" where
  "protected_up E page offset s = do {
     let s = upd_page page (\<lambda>p. p\<lparr>migrating := True\<rparr>) s;
     s \<leftarrow> hemem_wp_page E page True s;
     s \<leftarrow> hemem_migrate_up E page offset s;
     Some (upd_page page (\<lambda>p. p\<lparr>migrating := False\<rparr>) s)
   }"

definition protected_down ::
    "'k platform \<Rightarrow> ptr \<Rightarrow> u64 \<Rightarrow> ('k, 'a) hemem_scheme \<Rightarrow> ('k, 'a) hemem_scheme option" where
  "protected_down E page offset s = do {
     let s = upd_page page (\<lambda>p. p\<lparr>migrating := True\<rparr>) s;
     s \<leftarrow> hemem_wp_page E page True s;
     s \<leftarrow> hemem_migrate_down E page offset s;
     Some (upd_page page (\<lambda>p. p\<lparr>migrating := False\<rparr>) s)
   }"

lemma protected_up_spec:
  assumes E: "platform_ok E" "requests_succeed E" and ok: "mem_ok s" and dv: "devices_mapped E s"
    and p: "p \<noteq> NULL" "frame_ok s (payload s p)" "\<not> in_dram (payload s p)"
    and v: "va (payload s p) \<noteq> 0" "va (payload s p) mod HUGEPAGE_SIZE = 0"
    and off: "frame_in (dramoffset s) (dramsize s) off PAGE_SIZE"
  shows "\<exists>s'. protected_up E p off s = Some s' \<and> mem_ok s' \<and> queue_of s' = queue_of s \<and>
    (\<exists>x. payload s' = (payload s)(p := (payload s p)\<lparr>page_migrations_up := x, devdax_offset := off,
       in_dram := True, migrating := False\<rparr>)) \<and>
    policy_same s s' \<and>
    migrated E (va (payload s p)) PAGE_SIZE (dramfd s, off) (nvmfd s, devdax_offset (payload s p)) (kern s) (kern s')"
proof -
  let ?s1 = "upd_page p (\<lambda>p. p\<lparr>migrating := True\<rparr>) s"
  have pt: "pt (page_heap s p) = HUGEP"
    using p(2) by (simp add: frame_ok_def payload_select)
  obtain k1 where wp: "hemem_wp_page E p True ?s1 = Some (?s1\<lparr>internal_call := False, kern := k1\<rparr>)"
    "same_memory E (kern s) k1"
    using hemem_wp_page_returns [OF E(2), of p ?s1 True] hemem_wp_page_effect [OF E(1), of p True ?s1] p(1) pt v
    by (auto simp: payload_select [of s])
  let ?s2 = "?s1\<lparr>internal_call := False, kern := k1\<rparr>"
  have dv2: "devices_mapped E ?s2"
    using dv wp(2) by (subst devices_mapped_cong [of _ s]) (simp_all add: devs_eq)
  obtain s3 where mig: "hemem_migrate_up E p off ?s2 = Some s3"
    using hemem_migrate_up_returns [OF E(2), of p ?s2 PAGE_SIZE off] p pt v off
    by (auto simp: frame_ok_def tier_defs PAGE_SIZE_def payload_select [of s])
  from hemem_migrate_up_effect [OF E(1) dv2 mig] pt obtain m k where s3: "s3 = after_up p off PAGE_SIZE m k ?s2"
    and mm: "migrated E (va (page_heap ?s2 p)) PAGE_SIZE (dramfd ?s2, off) (nvmfd ?s2, devdax_offset (page_heap ?s2 p)) (kern ?s2) k"
    by (auto simp: PAGE_SIZE_def)
  let ?g = "\<lambda>p. p\<lparr>page_migrations_up := page_migrations_up p + 1, devdax_offset := off, in_dram := True, migrating := False\<rparr>"
  let ?s4 = "upd_page p (\<lambda>p. p\<lparr>migrating := False\<rparr>) s3"
  have g: "pay_fun ?g"
    by (simp add: pay_fun_def keeps_links_def strip_def)
  note u = upd_page_spec [OF ok g, where p = p]
  have "page_heap ?s4 = page_heap (upd_page p ?g s)" "list_heap ?s4 = list_heap (upd_page p ?g s)"
    by (simp_all add: s3 after_up_def)
  note c = mem_ok_cong [OF this]
  have "protected_up E p off s = Some ?s4"
    by (simp add: protected_up_def Let_def wp(1) mig)
  moreover have "mem_ok ?s4" "queue_of ?s4 = queue_of s" "payload ?s4 = (payload s)(p := ?g (payload s p))"
    unfolding c u by (rule refl TrueI | simp only: u)+
  moreover have "policy_same s ?s4" "kern ?s4 = k"
    by (simp_all add: s3 after_up_def policy_same_def devs_def)
  moreover have "migrated E (va (payload s p)) PAGE_SIZE (dramfd s, off) (nvmfd s, devdax_offset (payload s p)) (kern s) k"
    using mm same_memory_migrated [OF wp(2)] by (simp add: payload_select)
  ultimately show ?thesis
    by (intro exI [of _ ?s4]) auto
qed

lemma protected_down_spec:
  assumes E: "platform_ok E" "requests_succeed E" and ok: "mem_ok s" and dv: "devices_mapped E s"
    and p: "p \<noteq> NULL" "frame_ok s (payload s p)" "in_dram (payload s p)"
    and v: "va (payload s p) \<noteq> 0" "va (payload s p) mod HUGEPAGE_SIZE = 0"
    and off: "frame_in (nvmoffset s) (nvmsize s) off PAGE_SIZE"
  shows "\<exists>s'. protected_down E p off s = Some s' \<and> mem_ok s' \<and> queue_of s' = queue_of s \<and>
    (\<exists>x. payload s' = (payload s)(p := (payload s p)\<lparr>page_migrations_down := x, devdax_offset := off,
       in_dram := False, migrating := False\<rparr>)) \<and>
    policy_same s s' \<and>
    migrated E (va (payload s p)) PAGE_SIZE (nvmfd s, off) (dramfd s, devdax_offset (payload s p)) (kern s) (kern s')"
proof -
  let ?s1 = "upd_page p (\<lambda>p. p\<lparr>migrating := True\<rparr>) s"
  have pt: "pt (page_heap s p) = HUGEP"
    using p(2) by (simp add: frame_ok_def payload_select)
  obtain k1 where wp: "hemem_wp_page E p True ?s1 = Some (?s1\<lparr>internal_call := False, kern := k1\<rparr>)"
    "same_memory E (kern s) k1"
    using hemem_wp_page_returns [OF E(2), of p ?s1 True] hemem_wp_page_effect [OF E(1), of p True ?s1] p(1) pt v
    by (auto simp: payload_select [of s])
  let ?s2 = "?s1\<lparr>internal_call := False, kern := k1\<rparr>"
  have dv2: "devices_mapped E ?s2"
    using dv wp(2) by (subst devices_mapped_cong [of _ s]) (simp_all add: devs_eq)
  obtain s3 where mig: "hemem_migrate_down E p off ?s2 = Some s3"
    using hemem_migrate_down_returns [OF E(2), of p ?s2 PAGE_SIZE off] p pt v off
    by (auto simp: frame_ok_def tier_defs PAGE_SIZE_def payload_select [of s])
  from hemem_migrate_down_effect [OF E(1) dv2 mig] pt obtain m k where s3: "s3 = after_down p off PAGE_SIZE m k ?s2"
    and mm: "migrated E (va (page_heap ?s2 p)) PAGE_SIZE (nvmfd ?s2, off) (dramfd ?s2, devdax_offset (page_heap ?s2 p)) (kern ?s2) k"
    by (auto simp: PAGE_SIZE_def)
  let ?g = "\<lambda>p. p\<lparr>page_migrations_down := page_migrations_down p + 1, devdax_offset := off, in_dram := False, migrating := False\<rparr>"
  let ?s4 = "upd_page p (\<lambda>p. p\<lparr>migrating := False\<rparr>) s3"
  have g: "pay_fun ?g"
    by (simp add: pay_fun_def keeps_links_def strip_def)
  note u = upd_page_spec [OF ok g, where p = p]
  have "page_heap ?s4 = page_heap (upd_page p ?g s)" "list_heap ?s4 = list_heap (upd_page p ?g s)"
    by (simp_all add: s3 after_down_def)
  note c = mem_ok_cong [OF this]
  have "protected_down E p off s = Some ?s4"
    by (simp add: protected_down_def Let_def wp(1) mig)
  moreover have "mem_ok ?s4" "queue_of ?s4 = queue_of s" "payload ?s4 = (payload s)(p := ?g (payload s p))"
    unfolding c u by (rule refl TrueI | simp only: u)+
  moreover have "policy_same s ?s4" "kern ?s4 = k"
    by (simp_all add: s3 after_down_def policy_same_def devs_def)
  moreover have "migrated E (va (payload s p)) PAGE_SIZE (nvmfd s, off) (dramfd s, devdax_offset (payload s p)) (kern s) k"
    using mm same_memory_migrated [OF wp(2)] by (simp add: payload_select)
  ultimately show ?thesis
    by (intro exI [of _ ?s4]) auto
qed

text \<open>The free descriptor takes over the frame the page has left.\<close>

definition takes_over :: "u64 \<Rightarrow> bool \<Rightarrow> (hemem_page \<Rightarrow> hemem_page) \<Rightarrow> bool" where
  "takes_over off dram f \<longleftrightarrow> pay_fun f \<and>
     (\<forall>pg. devdax_offset (f pg) = off \<and> in_dram (f pg) = dram \<and> \<not> present (f pg) \<and> pt (f pg) = pt pg)"

lemma exchange_up:
  assumes E: "platform_ok E" "requests_succeed E" and ok: "tiers_ok T U X E s" and X: "p \<in> X" "np \<in> X"
    and p: "present (payload s p)" "\<not> in_dram (payload s p)"
    and np: "\<not> present (payload s np)" "in_dram (payload s np)"
    and f: "takes_over (devdax_offset (payload s p)) False f"
  shows "\<exists>s1. protected_up E p (devdax_offset (payload s np)) s = Some s1 \<and>
    (let t = upd_page np f s1 in
      tiers_ok T U X E t \<and> same_app U E s t \<and> queue_of t = queue_of s \<and> policy_same s t \<and>
      (\<exists>x. payload t = (payload s)(p := (payload s p)\<lparr>page_migrations_up := x,
        devdax_offset := devdax_offset (payload s np), in_dram := True, migrating := False\<rparr>, np := f (payload s np))) \<and>
      pt (payload s p) = HUGEP)"
proof -
  note d = tiers_okD [OF ok] typed_listsD [OF tiers_okD(1) [OF ok]]
  have U: "p \<in> U" "np \<in> U" "p \<noteq> NULL" "p \<noteq> np"
    using d(5,6) X p np by auto
  have fo: "frame_ok s (payload s p)" "frame_ok s (payload s np)"
    using d(2) U by (simp_all add: frames_ok_def)
  have m: "devices_mapped E s" "va (payload s p) \<noteq> 0" "va (payload s p) mod HUGEPAGE_SIZE = 0"
    using d(3) U p(1) by (auto simp: maps_ok_def mapped_ok_def)
  have off: "frame_in (dramoffset s) (dramsize s) (devdax_offset (payload s np)) PAGE_SIZE"
    using fo(2) np(2) by (simp add: frame_ok_def tier_defs)
  obtain s1 x where s1: "protected_up E p (devdax_offset (payload s np)) s = Some s1" "mem_ok s1"
    "queue_of s1 = queue_of s" "payload s1 = (payload s)(p := (payload s p)\<lparr>page_migrations_up := x,
      devdax_offset := devdax_offset (payload s np), in_dram := True, migrating := False\<rparr>)"
    "policy_same s s1"
    "migrated E (va (payload s p)) PAGE_SIZE (dramfd s, devdax_offset (payload s np))
      (nvmfd s, devdax_offset (payload s p)) (kern s) (kern s1)"
    using protected_up_spec [OF E d(4) m(1) U(3) fo(1) p(2) m(2,3) off] by blast
  let ?t = "upd_page np f s1"
  have pf: "pay_fun f"
    using f by (simp add: takes_over_def)
  note t = upd_page_spec [OF s1(2) pf, of np]
  have same: "policy_same s ?t"
    using s1(5) by (simp add: policy_same_def devs_def)
  have pt: "payload ?t = (payload s)(p := payload s1 p, np := f (payload s np))"
    unfolding t(3) using s1(4) U(4) by (auto simp: fun_eq_iff)
  have sw: "swapped E p np s ?t"
    by (rule swappedI [OF p(1) np(1) _ _ _ _ pt])
      (use p np s1 same f in \<open>simp_all add: tier_defs policy_same_def takes_over_def\<close>)
  have q: "queue_of ?t = queue_of s"
    unfolding t(2) by (rule s1(3))
  note r = swapped_tiers [OF ok X sw t(1) q]
  have "pt (payload s p) = HUGEP"
    using fo(1) by (simp add: frame_ok_def)
  then show ?thesis
    using s1(1,4) pt r q same by (intro exI [of _ s1]) (auto simp: Let_def)
qed

lemma exchange_down:
  assumes E: "platform_ok E" "requests_succeed E" and ok: "tiers_ok T U X E s" and X: "p \<in> X" "np \<in> X"
    and p: "present (payload s p)" "in_dram (payload s p)"
    and np: "\<not> present (payload s np)" "\<not> in_dram (payload s np)"
    and f: "takes_over (devdax_offset (payload s p)) True f"
  shows "\<exists>s1. protected_down E p (devdax_offset (payload s np)) s = Some s1 \<and>
    (let t = upd_page np f s1 in
      tiers_ok T U X E t \<and> same_app U E s t \<and> queue_of t = queue_of s \<and> policy_same s t \<and>
      (\<exists>x. payload t = (payload s)(p := (payload s p)\<lparr>page_migrations_down := x,
        devdax_offset := devdax_offset (payload s np), in_dram := False, migrating := False\<rparr>, np := f (payload s np))) \<and>
      pt (payload s p) = HUGEP)"
proof -
  note d = tiers_okD [OF ok] typed_listsD [OF tiers_okD(1) [OF ok]]
  have U: "p \<in> U" "np \<in> U" "p \<noteq> NULL" "p \<noteq> np"
    using d(5,6) X p np by auto
  have fo: "frame_ok s (payload s p)" "frame_ok s (payload s np)"
    using d(2) U by (simp_all add: frames_ok_def)
  have m: "devices_mapped E s" "va (payload s p) \<noteq> 0" "va (payload s p) mod HUGEPAGE_SIZE = 0"
    using d(3) U p(1) by (auto simp: maps_ok_def mapped_ok_def)
  have off: "frame_in (nvmoffset s) (nvmsize s) (devdax_offset (payload s np)) PAGE_SIZE"
    using fo(2) np(2) by (simp add: frame_ok_def tier_defs)
  obtain s1 x where s1: "protected_down E p (devdax_offset (payload s np)) s = Some s1" "mem_ok s1"
    "queue_of s1 = queue_of s" "payload s1 = (payload s)(p := (payload s p)\<lparr>page_migrations_down := x,
      devdax_offset := devdax_offset (payload s np), in_dram := False, migrating := False\<rparr>)"
    "policy_same s s1"
    "migrated E (va (payload s p)) PAGE_SIZE (nvmfd s, devdax_offset (payload s np))
      (dramfd s, devdax_offset (payload s p)) (kern s) (kern s1)"
    using protected_down_spec [OF E d(4) m(1) U(3) fo(1) p(2) m(2,3) off] by blast
  let ?t = "upd_page np f s1"
  have pf: "pay_fun f"
    using f by (simp add: takes_over_def)
  note t = upd_page_spec [OF s1(2) pf, of np]
  have same: "policy_same s ?t"
    using s1(5) by (simp add: policy_same_def devs_def)
  have pt: "payload ?t = (payload s)(p := payload s1 p, np := f (payload s np))"
    unfolding t(3) using s1(4) U(4) by (auto simp: fun_eq_iff)
  have sw: "swapped E p np s ?t"
    by (rule swappedI [OF p(1) np(1) _ _ _ _ pt])
      (use p np s1 same f in \<open>simp_all add: tier_defs policy_same_def takes_over_def\<close>)
  have q: "queue_of ?t = queue_of s"
    unfolding t(2) by (rule s1(3))
  note r = swapped_tiers [OF ok X sw t(1) q]
  have "pt (payload s p) = HUGEP"
    using fo(1) by (simp add: frame_ok_def)
  then show ?thesis
    using s1(1,4) pt r q same by (intro exI [of _ s1]) (auto simp: Let_def)
qed

end
