(* ===== verification/Pebs_Lists.thy ===== *)
theory Pebs_Lists
  imports Pebs Tiers
begin

text \<open>
  The state of \<^verbatim>\<open>src/pebs.c\<close> seen through the queue interface: which fields do not matter to the
  lists, which part of the state a list operation leaves alone, and what a migration of this
  policy does. The invariants are proved on top of these facts.
\<close>

section \<open>Fields that do not matter to the lists\<close>

lemma queue_of_pebs [simp]:
  "queue_of (s\<lparr>hot_ring := x64\<rparr>) = queue_of s"
  "queue_of (s\<lparr>cold_ring := x65\<rparr>) = queue_of s"
  "queue_of (s\<lparr>free_page_ring := x66\<rparr>) = queue_of s"
  "queue_of (s\<lparr>global_clock := x67\<rparr>) = queue_of s"
  "queue_of (s\<lparr>hemem_pages_cnt := x68\<rparr>) = queue_of s"
  "queue_of (s\<lparr>other_pages_cnt := x69\<rparr>) = queue_of s"
  "queue_of (s\<lparr>total_pages_cnt := x70\<rparr>) = queue_of s"
  "queue_of (s\<lparr>accesses_cnt := x71\<rparr>) = queue_of s"
  "queue_of (s\<lparr>core_accesses_cnt := x72\<rparr>) = queue_of s"
  "queue_of (s\<lparr>zero_pages_cnt := x73\<rparr>) = queue_of s"
  "queue_of (s\<lparr>throttle_cnt := x74\<rparr>) = queue_of s"
  "queue_of (s\<lparr>unthrottle_cnt := x75\<rparr>) = queue_of s"
  "queue_of (s\<lparr>cools := x76\<rparr>) = queue_of s"
  "queue_of (s\<lparr>need_cool_dram := x77\<rparr>) = queue_of s"
  "queue_of (s\<lparr>need_cool_nvm := x78\<rparr>) = queue_of s"
  "queue_of (s\<lparr>start_dram_page := x79\<rparr>) = queue_of s"
  "queue_of (s\<lparr>start_nvm_page := x80\<rparr>) = queue_of s"
  "queue_of (s\<lparr>user_hint_tier := x81\<rparr>) = queue_of s"
  "queue_of (s\<lparr>user_hint_priority := x82\<rparr>) = queue_of s"
  "queue_of (s\<lparr>cur_cool_in_dram := x83\<rparr>) = queue_of s"
  "queue_of (s\<lparr>cur_cool_in_nvm := x84\<rparr>) = queue_of s"
  by (rule mem_ok_cong(1); simp)+

lemma mem_ok_pebs [simp]:
  "mem_ok (s\<lparr>hot_ring := x85\<rparr>) = mem_ok s"
  "mem_ok (s\<lparr>cold_ring := x86\<rparr>) = mem_ok s"
  "mem_ok (s\<lparr>free_page_ring := x87\<rparr>) = mem_ok s"
  "mem_ok (s\<lparr>global_clock := x88\<rparr>) = mem_ok s"
  "mem_ok (s\<lparr>hemem_pages_cnt := x89\<rparr>) = mem_ok s"
  "mem_ok (s\<lparr>other_pages_cnt := x90\<rparr>) = mem_ok s"
  "mem_ok (s\<lparr>total_pages_cnt := x91\<rparr>) = mem_ok s"
  "mem_ok (s\<lparr>accesses_cnt := x92\<rparr>) = mem_ok s"
  "mem_ok (s\<lparr>core_accesses_cnt := x93\<rparr>) = mem_ok s"
  "mem_ok (s\<lparr>zero_pages_cnt := x94\<rparr>) = mem_ok s"
  "mem_ok (s\<lparr>throttle_cnt := x95\<rparr>) = mem_ok s"
  "mem_ok (s\<lparr>unthrottle_cnt := x96\<rparr>) = mem_ok s"
  "mem_ok (s\<lparr>cools := x97\<rparr>) = mem_ok s"
  "mem_ok (s\<lparr>need_cool_dram := x98\<rparr>) = mem_ok s"
  "mem_ok (s\<lparr>need_cool_nvm := x99\<rparr>) = mem_ok s"
  "mem_ok (s\<lparr>start_dram_page := x100\<rparr>) = mem_ok s"
  "mem_ok (s\<lparr>start_nvm_page := x101\<rparr>) = mem_ok s"
  "mem_ok (s\<lparr>user_hint_tier := x102\<rparr>) = mem_ok s"
  "mem_ok (s\<lparr>user_hint_priority := x103\<rparr>) = mem_ok s"
  "mem_ok (s\<lparr>cur_cool_in_dram := x104\<rparr>) = mem_ok s"
  "mem_ok (s\<lparr>cur_cool_in_nvm := x105\<rparr>) = mem_ok s"
  by (rule mem_ok_cong(2); simp)+

lemma payload_pebs [simp]:
  "payload (s\<lparr>hot_ring := x106\<rparr>) = payload s"
  "payload (s\<lparr>cold_ring := x107\<rparr>) = payload s"
  "payload (s\<lparr>free_page_ring := x108\<rparr>) = payload s"
  "payload (s\<lparr>global_clock := x109\<rparr>) = payload s"
  "payload (s\<lparr>hemem_pages_cnt := x110\<rparr>) = payload s"
  "payload (s\<lparr>other_pages_cnt := x111\<rparr>) = payload s"
  "payload (s\<lparr>total_pages_cnt := x112\<rparr>) = payload s"
  "payload (s\<lparr>accesses_cnt := x113\<rparr>) = payload s"
  "payload (s\<lparr>core_accesses_cnt := x114\<rparr>) = payload s"
  "payload (s\<lparr>zero_pages_cnt := x115\<rparr>) = payload s"
  "payload (s\<lparr>throttle_cnt := x116\<rparr>) = payload s"
  "payload (s\<lparr>unthrottle_cnt := x117\<rparr>) = payload s"
  "payload (s\<lparr>cools := x118\<rparr>) = payload s"
  "payload (s\<lparr>need_cool_dram := x119\<rparr>) = payload s"
  "payload (s\<lparr>need_cool_nvm := x120\<rparr>) = payload s"
  "payload (s\<lparr>start_dram_page := x121\<rparr>) = payload s"
  "payload (s\<lparr>start_nvm_page := x122\<rparr>) = payload s"
  "payload (s\<lparr>user_hint_tier := x123\<rparr>) = payload s"
  "payload (s\<lparr>user_hint_priority := x124\<rparr>) = payload s"
  "payload (s\<lparr>cur_cool_in_dram := x125\<rparr>) = payload s"
  "payload (s\<lparr>cur_cool_in_nvm := x126\<rparr>) = payload s"
  by (rule mem_ok_cong(3); simp)+

section \<open>What the operations leave alone\<close>

lemma pay_fun_age [simp]: "pay_fun (age_counts clock)"
  by (simp add: pay_fun_def keeps_links_def strip_def age_counts_def)

text \<open>The policy's own variables.\<close>

definition ctl :: "('k, 'a) pebs_scheme \<Rightarrow> (ring_buf_t \<times> ring_buf_t \<times> ring_buf_t) \<times> (ptr \<times> ptr) \<times>
    (u64 \<rightharpoonup> ptr) \<times> (u64 \<times> bool \<times> bool \<times> ptr \<times> ptr) \<times> (int \<times> int \<times> int)" where
  "ctl s = ((hot_ring s, cold_ring s, free_page_ring s), (cur_cool_in_dram s, cur_cool_in_nvm s), pages s,
     (global_clock s, need_cool_dram s, need_cool_nvm s, start_dram_page s, start_nvm_page s),
     (user_hint_tier s, user_hint_persistence s, user_hint_priority s))"

lemma heaps_only_rest:
  assumes "heaps_only s s'"
  shows "devs s' = devs s" and "ctl s' = ctl s" and "kern s' = kern s"
  by (subst heaps_only_eq [OF assms], simp add: devs_def ctl_def)+

lemma ctl_eq:
  "ctl s' = ctl s \<Longrightarrow> hot_ring s' = hot_ring s \<and> cold_ring s' = cold_ring s \<and> free_page_ring s' = free_page_ring s \<and>
     cur_cool_in_dram s' = cur_cool_in_dram s \<and> cur_cool_in_nvm s' = cur_cool_in_nvm s \<and> pages s' = pages s"
  by (simp add: ctl_def)

lemma policy_same_ctl:
  fixes s s' :: "('k, 'a) pebs_scheme"
  shows "policy_same s s' \<Longrightarrow> devs s' = devs s \<and> ctl s' = ctl s"
  by (cases s; cases s') (simp add: policy_same_def ctl_def)

section \<open>Migration\<close>

lemma pebs_migrate_up_eq: "pebs_migrate_up E p off s = protected_up E p off s"
  by (simp add: pebs_migrate_up_def protected_up_def)

lemma pebs_migrate_down_eq: "\<not> enforced (payload s p) \<Longrightarrow> pebs_migrate_down E p off s = protected_down E p off s"
  by (simp add: pebs_migrate_down_def protected_down_def payload_select)

end
