(* ===== verification/Pebs_Inv.thy ===== *)
theory Pebs_Inv
  imports Pebs_Lists
begin

text \<open>
  The invariant of the policy of pebs.c: where the frames of the two devices are, which pages
  are mapped, what the six page lists hold, the cooling cursors and the request rings.
\<close>

section \<open>The lists and the pages on them\<close>

text \<open>
  What a page on a list looks like when no page was allocated under a hint. With \<open>settled\<close>
  every page on a hot or cold list is in use: no freed page waits for the policy thread.
\<close>

fun list_typed :: "bool \<Rightarrow> fifo_id \<Rightarrow> hemem_page \<Rightarrow> bool" where
  "list_typed settled dram_hot_list pg \<longleftrightarrow> in_dram pg \<and> hot pg = present pg \<and> \<not> enforced pg \<and> (settled \<longrightarrow> present pg)"
| "list_typed settled dram_cold_list pg \<longleftrightarrow> in_dram pg \<and> \<not> hot pg \<and> \<not> enforced pg \<and> (settled \<longrightarrow> present pg)"
| "list_typed settled dram_free_list pg \<longleftrightarrow> in_dram pg \<and> \<not> hot pg \<and> \<not> enforced pg \<and> \<not> present pg"
| "list_typed settled nvm_hot_list pg \<longleftrightarrow> \<not> in_dram pg \<and> hot pg = present pg \<and> \<not> enforced pg \<and> (settled \<longrightarrow> present pg)"
| "list_typed settled nvm_cold_list pg \<longleftrightarrow> \<not> in_dram pg \<and> \<not> hot pg \<and> \<not> enforced pg \<and> (settled \<longrightarrow> present pg)"
| "list_typed settled nvm_free_list pg \<longleftrightarrow> \<not> in_dram pg \<and> \<not> hot pg \<and> \<not> enforced pg \<and> \<not> present pg"
| "list_typed settled _ pg \<longleftrightarrow> False"

text \<open>The lists of this policy, with the pages of \<open>X\<close> held by the running thread.\<close>

abbreviation lists_ok :: "bool \<Rightarrow> ptr set \<Rightarrow> ptr set \<Rightarrow> 'a mem_scheme \<Rightarrow> bool" where
  "lists_ok b \<equiv> typed_lists (list_typed b)"

lemmas lists_ok_def = typed_lists_def
lemmas lists_okD = typed_listsD
lemmas lists_ok_cong = typed_lists_cong
lemmas lists_ok_deq = typed_lists_deq
lemmas lists_ok_rem = typed_lists_rem
lemmas lists_ok_enq = typed_lists_enq
lemmas lists_ok_upd = typed_lists_upd

text \<open>Lists, frames and mappings together; \<open>X\<close> are the pages the running thread holds.\<close>

abbreviation core_ok :: "bool \<Rightarrow> ptr set \<Rightarrow> ptr set \<Rightarrow> 'k platform \<Rightarrow> ('k, 'a) hemem_scheme \<Rightarrow> bool" where
  "core_ok b \<equiv> tiers_ok (list_typed b)"

lemmas core_ok_def = tiers_ok_def
lemmas core_okD = tiers_okD
lemmas core_ok_cong = tiers_ok_cong
lemmas core_ok_heap_cong = tiers_ok_heap_cong
lemmas core_heaps = tiers_heaps
lemmas core_deq = tiers_deq
lemmas core_rem = tiers_rem
lemmas core_enq = tiers_enq
lemmas core_enq2 = tiers_enq2
lemmas core_upd = tiers_upd

text \<open>A move of a page from one list to another, with a change of its flags in between.\<close>

lemma core_move:
  assumes ok: "core_ok b U {} E s" and x: "x \<in> set (queue_of s q)"
    and f: "pay_fun f" "\<And>pg. place (f pg) = place pg" and ty: "list_typed b q' (f (payload s x))"
  shows "\<exists>s'. (page_list_remove_page q x s \<bind> (\<lambda>s. enqueue_fifo q' x (upd_page x f s))) = Some s' \<and>
    core_ok b U {} E s' \<and> payload s' = (payload s)(x := f (payload s x)) \<and>
    queue_of s' = (let c = (queue_of s)(q := remove1 x (queue_of s q)) in c(q' := x # c q')) \<and>
    devs s' = devs s \<and> ctl s' = ctl s \<and> kern s' = kern s"
proof -
  obtain s1 where s1: "page_list_remove_page q x s = Some s1" "core_ok b U {x} E s1"
    "queue_of s1 = (queue_of s)(q := remove1 x (queue_of s q))" "payload s1 = payload s" "heaps_only s s1"
    using core_rem [OF ok x] by auto
  note u = core_upd [OF s1(2) _ f, of x, simplified]
  obtain s' where s': "enqueue_fifo q' x (upd_page x f s1) = Some s'" "core_ok b U {} E s'"
    "queue_of s' = (queue_of s1)(q' := x # queue_of s1 q')" "payload s' = (payload s)(x := f (payload s x))"
    "heaps_only (upd_page x f s1) s'"
    using core_enq [OF u(1), of x q'] ty u(2,3) s1(4) by auto
  show ?thesis
    using s1 s' heaps_only_rest [OF s1(5)] heaps_only_rest [OF s'(5)]
    by (auto simp: Let_def devs_def ctl_def)
qed

section \<open>The cooling cursors\<close>

definition cursors_ok :: "('k, 'a) pebs_scheme \<Rightarrow> bool" where
  "cursors_ok s \<longleftrightarrow> (cur_cool_in_dram s = NULL \<or> cur_cool_in_dram s \<in> set (queue_of s dram_hot_list)) \<and>
     (cur_cool_in_nvm s = NULL \<or> cur_cool_in_nvm s \<in> set (queue_of s nvm_hot_list))"

lemma next_page_in:
  assumes ok: "mem_ok s" and p: "p \<in> set (queue_of s q)"
  shows "\<exists>c. next_page q p s = Some c \<and> c \<noteq> p \<and> (c = NULL \<or> c \<in> set (queue_of s q))"
proof -
  obtain ys zs where q: "queue_of s q = ys @ p # zs"
    using p by (meson split_list)
  have "p \<notin> set ys" "p \<noteq> NULL"
    using queue_of_distinct [OF ok, of q] queue_of_not_NULL [OF ok, of q] q by auto
  with next_page_spec [OF ok q] q show ?thesis
    using last_or_in [of ys NULL] by (cases "ys = []") auto
qed

lemma cursors_ok_upd:
  "cursors_ok (s\<lparr>cur_cool_in_dram := c\<rparr>) \<longleftrightarrow> (c = NULL \<or> c \<in> set (queue_of s dram_hot_list)) \<and>
     (cur_cool_in_nvm s = NULL \<or> cur_cool_in_nvm s \<in> set (queue_of s nvm_hot_list))"
  "cursors_ok (s\<lparr>cur_cool_in_nvm := d\<rparr>) \<longleftrightarrow> (d = NULL \<or> d \<in> set (queue_of s nvm_hot_list)) \<and>
     (cur_cool_in_dram s = NULL \<or> cur_cool_in_dram s \<in> set (queue_of s dram_hot_list))"
  by (auto simp: cursors_ok_def)

text \<open>The state with other cursors.\<close>

definition with_cursors :: "ptr \<Rightarrow> ptr \<Rightarrow> ('k, 'a) pebs_scheme \<Rightarrow> ('k, 'a) pebs_scheme" where
  "with_cursors c d s = s\<lparr>cur_cool_in_dram := c, cur_cool_in_nvm := d\<rparr>"

lemma with_cursors_simps [simp]:
  "queue_of (with_cursors c d s) = queue_of s" "payload (with_cursors c d s) = payload s"
  "mem_ok (with_cursors c d s) = mem_ok s" "page_heap (with_cursors c d s) = page_heap s"
  "list_heap (with_cursors c d s) = list_heap s" "kern (with_cursors c d s) = kern s"
  "devs (with_cursors c d s) = devs s" "pages (with_cursors c d s) = pages s"
  "cur_cool_in_dram (with_cursors c d s) = c" "cur_cool_in_nvm (with_cursors c d s) = d"
  "hot_ring (with_cursors c d s) = hot_ring s" "cold_ring (with_cursors c d s) = cold_ring s"
  "free_page_ring (with_cursors c d s) = free_page_ring s"
  by (simp_all add: with_cursors_def devs_def)

lemma with_cursors_same: "with_cursors (cur_cool_in_dram s) (cur_cool_in_nvm s) s = s"
  by (simp add: with_cursors_def)

lemma update_cursors:
  assumes ok: "mem_ok s" and c: "cursors_ok s" and p: "p \<noteq> NULL"
  shows "\<exists>c d. update_current_cool_page p s = Some (with_cursors c d s) \<and> c \<noteq> p \<and> d \<noteq> p \<and>
    cursors_ok (with_cursors c d s)"
proof -
  consider (dram) "p = cur_cool_in_dram s" | (nvm) "p \<noteq> cur_cool_in_dram s" "p = cur_cool_in_nvm s"
    | (none) "p \<noteq> cur_cool_in_dram s" "p \<noteq> cur_cool_in_nvm s"
    by blast
  then show ?thesis
  proof cases
    case dram
    have pd: "p \<in> set (queue_of s dram_hot_list)"
      using c p dram by (simp add: cursors_ok_def)
    then have lp: "list_ptr (page_heap s p) = Some dram_hot_list"
      using in_queue_iff [OF ok] by blast
    then have "p \<notin> set (queue_of s nvm_hot_list)"
      using in_queue_iff [OF ok, of p nvm_hot_list] by simp
    with c p have n: "cur_cool_in_nvm s \<noteq> p"
      by (auto simp: cursors_ok_def)
    obtain c' where c': "next_page dram_hot_list p s = Some c'" "c' \<noteq> p" "c' = NULL \<or> c' \<in> set (queue_of s dram_hot_list)"
      using next_page_in [OF ok pd] by blast
    have "update_current_cool_page p s = Some (s\<lparr>cur_cool_in_dram := c'\<rparr>)"
      using dram [symmetric] n p c'(1) lp by (simp add: update_current_cool_page_def)
    moreover have "s\<lparr>cur_cool_in_dram := c'\<rparr> = with_cursors c' (cur_cool_in_nvm s) s"
      by (simp add: with_cursors_def)
    ultimately show ?thesis
      using c c' n by (intro exI [of _ c'] exI [of _ "cur_cool_in_nvm s"]) (auto simp: cursors_ok_def)
  next
    case nvm
    have pd: "p \<in> set (queue_of s nvm_hot_list)"
      using c p nvm by (simp add: cursors_ok_def)
    then have lp: "list_ptr (page_heap s p) = Some nvm_hot_list"
      using in_queue_iff [OF ok] by blast
    obtain d' where d': "next_page nvm_hot_list p s = Some d'" "d' \<noteq> p" "d' = NULL \<or> d' \<in> set (queue_of s nvm_hot_list)"
      using next_page_in [OF ok pd] by blast
    have "update_current_cool_page p s = Some (s\<lparr>cur_cool_in_nvm := d'\<rparr>)"
      using nvm(1) nvm(2) [symmetric] p d'(1) lp by (simp add: update_current_cool_page_def)
    moreover have "s\<lparr>cur_cool_in_nvm := d'\<rparr> = with_cursors (cur_cool_in_dram s) d' s"
      by (simp add: with_cursors_def)
    ultimately show ?thesis
      using c d' nvm(1) by (intro exI [of _ "cur_cool_in_dram s"] exI [of _ d']) (auto simp: cursors_ok_def)
  next
    case none
    then have "update_current_cool_page p s = Some s"
      by (simp add: update_current_cool_page_def)
    with none c show ?thesis
      by (intro exI [of _ "cur_cool_in_dram s"] exI [of _ "cur_cool_in_nvm s"]) (simp add: with_cursors_same)
  qed
qed

section \<open>Hot and cold requests\<close>

definition home :: "hemem_page \<Rightarrow> fifo_id" where
  "home pg = (if in_dram pg then if hot pg then dram_hot_list else dram_cold_list
              else if hot pg then nvm_hot_list else nvm_cold_list)"

lemma present_home:
  assumes ok: "lists_ok b U {} s" and p: "p \<in> U" "present (payload s p)"
  shows "p \<in> set (queue_of s (home (payload s p)))"
proof -
  obtain q where q: "p \<in> set (queue_of s q)"
    using lists_okD(6) [OF ok, of p] p(1) by auto
  from lists_okD(5) [OF ok q] p(2) have "q = home (payload s p)"
    by (cases q) (auto simp: home_def)
  with q show ?thesis by simp
qed

lemma absent_free:
  assumes ok: "lists_ok True U {} s" and p: "p \<in> U" "\<not> present (payload s p)"
  shows "p \<in> set (queue_of s (if in_dram (payload s p) then dram_free_list else nvm_free_list))"
proof -
  obtain q where q: "p \<in> set (queue_of s q)"
    using lists_okD(6) [OF ok, of p] p(1) by auto
  from lists_okD(5) [OF ok q] p(2) have "q = (if in_dram (payload s p) then dram_free_list else nvm_free_list)"
    by (cases q) auto
  with q show ?thesis by simp
qed

lemma make_hot_eq:
  assumes "p \<noteq> NULL" "va (payload s p) \<noteq> 0" "list_ptr (page_heap s p) = Some (home (payload s p))"
  shows "make_hot p s = (if hot (payload s p) then Some s
    else page_list_remove_page (home (payload s p)) p s \<bind>
      (\<lambda>s'. enqueue_fifo (home ((payload s p)\<lparr>hot := True\<rparr>)) p (upd_page p (\<lambda>p. p\<lparr>hot := True\<rparr>) s')))"
  using assms by (simp add: make_hot_def home_def payload_select Let_def)

lemma make_cold_eq:
  assumes "p \<noteq> NULL" "va (payload s p) \<noteq> 0" "list_ptr (page_heap s p) = Some (home (payload s p))"
  shows "make_cold p s = (if \<not> hot (payload s p) then Some s
    else page_list_remove_page (home (payload s p)) p s \<bind>
      (\<lambda>s'. enqueue_fifo (home ((payload s p)\<lparr>hot := False\<rparr>)) p (upd_page p (\<lambda>p. p\<lparr>hot := False\<rparr>) s')))"
  using assms by (simp add: make_cold_def home_def payload_select Let_def)

lemma home_typed: "present pg \<Longrightarrow> \<not> enforced pg \<Longrightarrow> list_typed b (home pg) pg"
  by (simp add: home_def)

lemma listed_not_enforced: "list_typed b q pg \<Longrightarrow> \<not> enforced pg"
  by (cases q) auto


text \<open>The state after a list move that touches neither the devices nor the policy's variables.\<close>

definition quiet :: "('k, 'a) pebs_scheme \<Rightarrow> ('k, 'a) pebs_scheme \<Rightarrow> bool" where
  "quiet s s' \<longleftrightarrow> devs s' = devs s \<and> ctl s' = ctl s \<and> kern s' = kern s"

lemma quiet_refl [simp]: "quiet s s"
  by (simp add: quiet_def)

lemma quiet_trans: "quiet s t \<Longrightarrow> quiet t u \<Longrightarrow> quiet s u"
  by (simp add: quiet_def)

lemma quiet_heaps: "heaps_only s s' \<Longrightarrow> quiet s s'"
  by (simp add: quiet_def heaps_only_rest)

lemma quiet_upd [simp]: "quiet s (s\<lparr>page_heap := h\<rparr>)"
  by (simp add: quiet_def devs_def ctl_def)

lemma make_hot_spec:
  assumes ok: "core_ok b U {} E s" and p: "p \<in> U" "present (payload s p)"
  shows "\<exists>s'. make_hot p s = Some s' \<and> core_ok b U {} E s' \<and> quiet s s' \<and>
    payload s' = (payload s)(p := (payload s p)\<lparr>hot := True\<rparr>) \<and>
    queue_of s' = (if hot (payload s p) then queue_of s
      else (queue_of s)(home (payload s p) := remove1 p (queue_of s (home (payload s p))),
        home ((payload s p)\<lparr>hot := True\<rparr>) := p # queue_of s (home ((payload s p)\<lparr>hot := True\<rparr>))))"
proof -
  note l = core_okD(1) [OF ok]
  note h = present_home [OF l p]
  have lp: "list_ptr (page_heap s p) = Some (home (payload s p))"
    using h in_queue_iff [OF lists_okD(1) [OF l]] by blast
  have p0: "p \<noteq> NULL" "va (payload s p) \<noteq> 0"
    using lists_okD(3) [OF l] p core_okD(3) [OF ok] by (auto simp: maps_ok_def mapped_ok_def)
  note eq = make_hot_eq [OF p0 lp]
  show ?thesis
  proof (cases "hot (payload s p)")
    case True
    then have "(payload s)(p := (payload s p)\<lparr>hot := True\<rparr>) = payload s"
      by (intro fun_upd_idem) (rule hemem_page.equality; simp)
    with True ok show ?thesis
      by (simp add: eq)
  next
    case False
    have ne: "home ((payload s p)\<lparr>hot := True\<rparr>) \<noteq> home (payload s p)"
      using False by (simp add: home_def)
    have "list_typed b (home ((payload s p)\<lparr>hot := True\<rparr>)) ((payload s p)\<lparr>hot := True\<rparr>)"
      using p(2) listed_not_enforced [OF lists_okD(5) [OF l h]] by (intro home_typed) simp_all
    from core_move [OF ok h pay_fun_intros(1) _ this] False ne show ?thesis
      by (auto simp: eq place_def quiet_def Let_def)
  qed
qed

lemma make_cold_spec:
  assumes ok: "core_ok b U {} E s" and p: "p \<in> U" "present (payload s p)"
  shows "\<exists>s'. make_cold p s = Some s' \<and> core_ok b U {} E s' \<and> quiet s s' \<and>
    payload s' = (payload s)(p := (payload s p)\<lparr>hot := False\<rparr>) \<and>
    queue_of s' = (if \<not> hot (payload s p) then queue_of s
      else (queue_of s)(home (payload s p) := remove1 p (queue_of s (home (payload s p))),
        home ((payload s p)\<lparr>hot := False\<rparr>) := p # queue_of s (home ((payload s p)\<lparr>hot := False\<rparr>))))"
proof -
  note l = core_okD(1) [OF ok]
  note h = present_home [OF l p]
  have lp: "list_ptr (page_heap s p) = Some (home (payload s p))"
    using h in_queue_iff [OF lists_okD(1) [OF l]] by blast
  have p0: "p \<noteq> NULL" "va (payload s p) \<noteq> 0"
    using lists_okD(3) [OF l] p core_okD(3) [OF ok] by (auto simp: maps_ok_def mapped_ok_def)
  note eq = make_cold_eq [OF p0 lp]
  show ?thesis
  proof (cases "\<not> hot (payload s p)")
    case True
    then have "(payload s)(p := (payload s p)\<lparr>hot := False\<rparr>) = payload s"
      by (intro fun_upd_idem) (rule hemem_page.equality; simp)
    with True ok show ?thesis
      by (simp add: eq)
  next
    case False
    have ne: "home ((payload s p)\<lparr>hot := False\<rparr>) \<noteq> home (payload s p)"
      using False by (simp add: home_def)
    have "list_typed b (home ((payload s p)\<lparr>hot := False\<rparr>)) ((payload s p)\<lparr>hot := False\<rparr>)"
      using p(2) listed_not_enforced [OF lists_okD(5) [OF l h]] by (intro home_typed) simp_all
    from core_move [OF ok h pay_fun_intros(1) _ this] False ne show ?thesis
      by (auto simp: eq place_def quiet_def Let_def)
  qed
qed


section \<open>The rings\<close>

text \<open>
  Requests name descriptors of the policy; a page on the free ring is no longer in use, is posted
  once, and is not yet on a free list, and there is no other page in that state.
\<close>

definition on_free_list :: "'a mem_scheme \<Rightarrow> ptr \<Rightarrow> bool" where
  "on_free_list s p \<longleftrightarrow> p \<in> set (queue_of s dram_free_list) \<or> p \<in> set (queue_of s nvm_free_list)"

definition rings_ok :: "ptr set \<Rightarrow> ('k, 'a) pebs_scheme \<Rightarrow> bool" where
  "rings_ok U s \<longleftrightarrow> ring_ok (hot_ring s) \<and> ring_ok (cold_ring s) \<and> ring_ok (free_page_ring s) \<and>
     set (ring_list (hot_ring s)) \<subseteq> U \<and> set (ring_list (cold_ring s)) \<subseteq> U \<and>
     distinct (ring_list (free_page_ring s)) \<and>
     set (ring_list (free_page_ring s)) = {p \<in> U. \<not> present (payload s p) \<and> \<not> on_free_list s p}"

definition pebs_ok :: "bool \<Rightarrow> ptr set \<Rightarrow> 'k platform \<Rightarrow> ('k, 'a) pebs_scheme \<Rightarrow> bool" where
  "pebs_ok b U E s \<longleftrightarrow> core_ok b U {} E s \<and> cursors_ok s \<and> rings_ok U s"

lemma pebs_okD:
  assumes "pebs_ok b U E s"
  shows "core_ok b U {} E s" and "cursors_ok s" and "rings_ok U s" and "lists_ok b U {} s" and "mem_ok s"
  using assms lists_okD(1) by (auto simp: pebs_ok_def core_ok_def)

lemma list_typed_weaken: "list_typed True q pg \<Longrightarrow> list_typed False q pg"
  by (cases q) auto

lemma core_ok_weaken: "core_ok True U X E s \<Longrightarrow> core_ok False U X E s"
  by (auto simp: core_ok_def lists_ok_def intro: list_typed_weaken)

lemma core_ok_settle:
  assumes "core_ok False U {} E s" and "\<And>p. p \<in> U \<Longrightarrow> \<not> present (payload s p) \<Longrightarrow> on_free_list s p"
  shows "core_ok True U {} E s"
proof -
  note l = core_okD(1) [OF assms(1)]
  have "list_typed True q (payload s p)" if q: "p \<in> set (queue_of s q)" for q p
  proof -
    note ty = lists_okD(5) [OF l q] and pU = lists_okD(4) [OF l q]
    have "present (payload s p)" if "q \<noteq> dram_free_list" "q \<noteq> nvm_free_list"
    proof (rule ccontr)
      assume "\<not> present (payload s p)"
      with assms(2) pU have "on_free_list s p" by simp
      with that show False
        using queue_of_disjoint [OF lists_okD(1) [OF l] q] by (auto simp: on_free_list_def)
    qed
    with ty show ?thesis
      by (cases q) auto
  qed
  with assms(1) show ?thesis
    by (auto simp: core_ok_def lists_ok_def)
qed

end
