(* ===== verification/Pebs_Policy.thy ===== *)
theory Pebs_Policy
  imports Pebs_Inv
begin

text \<open>
  The policy thread of pebs.c (\<open>pebs_policy_thread\<close>) keeps the invariant, never reaches one of
  its assertions and leaves every byte of the application in place.
\<close>

section \<open>Serving the request rings\<close>
lemma core_ok_fields [simp]:
  "core_ok b U X E (s\<lparr>hot_ring := r1\<rparr>) = core_ok b U X E s"
  "core_ok b U X E (s\<lparr>cold_ring := r2\<rparr>) = core_ok b U X E s"
  "core_ok b U X E (s\<lparr>free_page_ring := r3\<rparr>) = core_ok b U X E s"
  "core_ok b U X E (s\<lparr>cur_cool_in_dram := c1\<rparr>) = core_ok b U X E s"
  "core_ok b U X E (s\<lparr>cur_cool_in_nvm := c2\<rparr>) = core_ok b U X E s"
  "core_ok b U X E (s\<lparr>start_dram_page := c3\<rparr>) = core_ok b U X E s"
  "core_ok b U X E (s\<lparr>start_nvm_page := c4\<rparr>) = core_ok b U X E s"
  "core_ok b U X E (s\<lparr>need_cool_dram := n1\<rparr>) = core_ok b U X E s"
  "core_ok b U X E (s\<lparr>need_cool_nvm := n2\<rparr>) = core_ok b U X E s"
  "core_ok b U X E (s\<lparr>global_clock := g\<rparr>) = core_ok b U X E s"
  by (rule core_ok_heap_cong; simp add: devs_def)+

lemma core_ok_cursors [simp]: "core_ok b U X E (with_cursors c d s) = core_ok b U X E s"
  by (rule core_ok_heap_cong) simp_all

lemma cursors_ok_move:
  assumes "cursors_ok s" and "cur_cool_in_dram s \<noteq> x" "cur_cool_in_nvm s \<noteq> x"
    and "cur_cool_in_dram s' = cur_cool_in_dram s" "cur_cool_in_nvm s' = cur_cool_in_nvm s"
    and "\<And>q. q \<in> {dram_hot_list, nvm_hot_list} \<Longrightarrow> set (queue_of s q) - {x} \<subseteq> set (queue_of s' q)"
  shows "cursors_ok s'"
  using assms(1-5) assms(6) [of dram_hot_list] assms(6) [of nvm_hot_list]
  unfolding cursors_ok_def by auto

lemma core_transfer:
  assumes "core_ok b U {} E s" and "x \<in> set (queue_of s q)" and "list_typed b q' (payload s x)"
  shows "\<exists>s'. (page_list_remove_page q x s \<bind> enqueue_fifo q' x) = Some s' \<and>
    core_ok b U {} E s' \<and> payload s' = payload s \<and>
    queue_of s' = (let c = (queue_of s)(q := remove1 x (queue_of s q)) in c(q' := x # c q')) \<and> quiet s s'"
  using core_move [OF assms(1,2), of "\<lambda>p. p" q'] assms(3)
  by (simp add: pay_fun_def keeps_links_def place_def quiet_def)

section \<open>Freeing pages\<close>

lemma remove_keeps_tier:
  assumes "mem_ok s" and "x \<in> set (queue_of s q)"
  shows "(page_list_remove_page q x s \<bind> (\<lambda>s. if in_dram (page_heap s x) then enqueue_fifo a x s else enqueue_fifo b x s)) =
    (page_list_remove_page q x s \<bind> enqueue_fifo (if in_dram (payload s x) then a else b) x)"
proof -
  obtain t where "page_list_remove_page q x s = Some t" "payload t = payload s"
    using ff.rem_law [OF assms] by blast
  then show ?thesis
    by (simp add: payload_select)
qed

lemma set_move:
  assumes "mem_ok s" and "x \<in> set (queue_of s q)" and "q' \<noteq> q"
  shows "set ((let c = (queue_of s)(q := remove1 x (queue_of s q)) in c(q' := x # c q')) r) =
    (if r = q' then insert x (set (queue_of s r)) else set (queue_of s r) - {x})"
proof -
  have "x \<notin> set (queue_of s r)" if "r \<noteq> q"
    using queue_of_disjoint [OF assms(1,2)] that by blast
  then show ?thesis
    using assms(3) queue_of_distinct [OF assms(1), of q]
    by (cases "r = q"; cases "r = q'") (simp_all add: Let_def)
qed


lemma free_step_spec:
  assumes ok: "pebs_ok False U E s" and ne: "\<not> ring_buf_empty (free_page_ring s)"
  shows "\<exists>s'. free_step s = Some s' \<and> pebs_ok False U E s' \<and> payload s' = payload s \<and> kern s' = kern s \<and>
    length (ring_list (free_page_ring s')) < length (ring_list (free_page_ring s)) \<and>
    members queue_of s' = members queue_of s"
proof -
  note d = pebs_okD [OF ok]
  have ro: "ring_ok (free_page_ring s)"
    using d(3) by (simp add: rings_ok_def)
  obtain x xs where xs: "ring_list (free_page_ring s) = x # xs"
    using ne ring_list_empty [OF ro] by (cases "ring_list (free_page_ring s)") auto
  define r where "r = snd (ring_buf_get (free_page_ring s))"
  have get: "ring_buf_get (free_page_ring s) = (x, r)" "ring_ok r" "ring_list r = xs"
    using ring_get_law [OF ro xs] by (simp_all add: r_def prod_eq_iff)
  have "x \<in> {p \<in> U. \<not> present (payload s p) \<and> \<not> on_free_list s p}" and dist: "distinct (x # xs)"
    using d(3) xs unfolding rings_ok_def by (metis list.set_intros(1), metis)
  then have x: "x \<in> U" "\<not> present (payload s x)" "\<not> on_free_list s x"
    by simp_all
  obtain q where q: "x \<in> set (queue_of s q)"
    using lists_okD(6) [OF d(4), of x] x(1) by auto
  have qf: "q \<noteq> dram_free_list" "q \<noteq> nvm_free_list"
    using q x(3) by (auto simp: on_free_list_def)
  have lp: "list_ptr (page_heap s x) = Some q"
    using q in_queue_iff [OF d(5)] by blast
  have x0: "x \<noteq> NULL"
    using x(1) lists_okD(3) [OF d(4)] by auto
  define fq where "fq = (if in_dram (payload s x) then dram_free_list else nvm_free_list)"
  let ?s0 = "s\<lparr>free_page_ring := r\<rparr>"
  obtain c e where up: "update_current_cool_page x ?s0 = Some (with_cursors c e ?s0)" "c \<noteq> x" "e \<noteq> x"
    "cursors_ok (with_cursors c e ?s0)"
    using update_cursors [of ?s0 x] d(2,5) x0 by (auto simp: cursors_ok_def)
  let ?s1 = "with_cursors c e ?s0"
  have "list_typed False fq (payload ?s1 x)"
    using lists_okD(5) [OF d(4) q] x(2) by (cases q) (auto simp: fq_def)
  then obtain s' where s': "(page_list_remove_page q x ?s1 \<bind> enqueue_fifo fq x) = Some s'" "core_ok False U {} E s'"
    "payload s' = payload s" "queue_of s' = (let c = (queue_of s)(q := remove1 x (queue_of s q)) in c(fq := x # c fq))"
    "quiet ?s1 s'"
    using core_transfer [of False U E ?s1 x q fq] d(1) q by auto
  have cs: "hot_ring s' = hot_ring s" "cold_ring s' = cold_ring s" "free_page_ring s' = r"
    "cur_cool_in_dram s' = c" "cur_cool_in_nvm s' = e" "kern s' = kern s"
    using ctl_eq [of s' ?s1] s'(5) by (simp_all add: quiet_def)
  have fq: "fq \<noteq> q" "fq = dram_free_list \<or> fq = nvm_free_list"
    using qf by (auto simp: fq_def)
  note sm = set_move [OF d(5) q fq(1), folded s'(4)]
  have "free_step s = Some s'"
    using s'(1) remove_keeps_tier [of ?s1 x q dram_free_list nvm_free_list] d(5) q
    by (simp add: free_step_def get(1) x0 lp up(1) fq_def)
  moreover have "cursors_ok s'"
    by (rule cursors_ok_move [OF up(4), of x]) (use up(2,3) cs sm fq in \<open>auto simp: cursors_ok_def\<close>)
  moreover have "rings_ok U s'"
  proof -
    have "on_free_list s' p \<longleftrightarrow> on_free_list s p \<or> p = x" for p
      using fq(2) x(3) by (auto simp: on_free_list_def sm)
    moreover have "set xs = {p \<in> U. \<not> present (payload s p) \<and> \<not> on_free_list s p} - {x}"
      using d(3) dist xs by (auto simp: rings_ok_def)
    ultimately show ?thesis
      using d(3) dist get(2,3) by (auto simp: rings_ok_def cs s'(3))
  qed
  moreover have "members queue_of s' = members queue_of s"
    using lists_okD(7) [OF core_okD(1) [OF s'(2)]] lists_okD(7) [OF d(4)] by simp
  ultimately show ?thesis
    using s'(2,3) cs(3,6) get(3) xs by (auto simp: pebs_ok_def)
qed


text \<open>When the free ring is empty, every unused page is on a free list.\<close>

lemma pebs_ok_settle:
  assumes "pebs_ok False U E s" and "ring_buf_empty (free_page_ring s)"
  shows "pebs_ok True U E s" and "ring_list (free_page_ring s) = []"
proof -
  note d = pebs_okD [OF assms(1)]
  show e: "ring_list (free_page_ring s) = []"
    using d(3) assms(2) ring_list_empty by (auto simp: rings_ok_def)
  then have "on_free_list s p" if "p \<in> U" "\<not> present (payload s p)" for p
    using d(3) that by (auto simp: rings_ok_def)
  then show "pebs_ok True U E s"
    using core_ok_settle [OF d(1)] d(2,3) by (simp add: pebs_ok_def)
qed

lemma free_loop_spec:
  assumes "pebs_ok False U E s"
  shows "\<exists>s'. free_loop s = Some s' \<and> pebs_ok True U E s' \<and> ring_list (free_page_ring s') = [] \<and>
    payload s' = payload s \<and> kern s' = kern s"
  using assms
proof (induction "length (ring_list (free_page_ring s))" arbitrary: s rule: less_induct)
  case less
  show ?case
  proof (cases "ring_buf_empty (free_page_ring s)")
    case True
    with pebs_ok_settle [OF less.prems True] show ?thesis
      by (simp add: free_loop.simps [of s])
  next
    case False
    obtain t where t: "free_step s = Some t" "pebs_ok False U E t" "payload t = payload s" "kern t = kern s"
      "length (ring_list (free_page_ring t)) < length (ring_list (free_page_ring s))"
      using free_step_spec [OF less.prems False] by blast
    from less.hyps [OF t(5,2)] t(1,3,4) False show ?thesis
      by (simp add: free_loop.simps [of s])
  qed
qed

lemma ring_take:
  assumes "ring_ok r" and "\<not> ring_buf_empty r"
  obtains x xs r' where "ring_list r = x # xs" "ring_buf_get r = (x, r')" "ring_ok r'" "ring_list r' = xs"
proof -
  obtain x xs where xs: "ring_list r = x # xs"
    using assms(2) ring_list_empty [OF assms(1)] by (cases "ring_list r") auto
  show thesis
    using that [OF xs, of "snd (ring_buf_get r)"] ring_get_law [OF assms(1) xs] by (simp add: prod_eq_iff)
qed

section \<open>Serving the rings\<close>

lemma list_typed_cong:
  "in_dram pg' = in_dram pg \<Longrightarrow> hot pg' = hot pg \<Longrightarrow> present pg' = present pg \<Longrightarrow> enforced pg' = enforced pg \<Longrightarrow>
    list_typed b q pg' = list_typed b q pg"
  by (cases q) auto

lemma core_upd_listed:
  assumes ok: "core_ok b U X E s" and f: "pay_fun f" "\<And>pg. place (f pg) = place pg"
    "\<And>pg. hot (f pg) = hot pg" "\<And>pg. enforced (f pg) = enforced pg"
  shows "core_ok b U X E (upd_page x f s)" and "queue_of (upd_page x f s) = queue_of s"
    and "payload (upd_page x f s) = (payload s)(x := f (payload s x))"
proof -
  note l = core_okD(1) [OF ok]
  note u = upd_page_spec [OF lists_okD(1) [OF l] f(1), of x]
  show "queue_of (upd_page x f s) = queue_of s"
    and pay: "payload (upd_page x f s) = (payload s)(x := f (payload s x))"
    by (rule u(2,3))+
  have "list_typed b q (payload (upd_page x f s) p) = list_typed b q (payload s p)" for q p
    by (rule list_typed_cong) (use f(2) [of "payload s x"] in \<open>simp_all add: pay f(3,4) place_def\<close>)
  then have "lists_ok b U X (upd_page x f s)"
    using l u(1) unfolding lists_ok_def members_def u(2) by simp
  then show "core_ok b U X E (upd_page x f s)"
    by (rule core_ok_cong(1) [OF _ ok]) (simp_all add: pay f(2) devs_def)
qed

text \<open>What serving a request for \<open>x\<close> may do: move it between its hot and cold list.\<close>

definition moves :: "bool \<Rightarrow> (ptr \<Rightarrow> ('k, 'a) pebs_scheme \<Rightarrow> ('k, 'a) pebs_scheme option) \<Rightarrow> ptr set \<Rightarrow> 'k platform \<Rightarrow> bool" where
  "moves v mk U E \<longleftrightarrow> (\<forall>x s. core_ok True U {} E s \<longrightarrow> x \<in> U \<longrightarrow> present (payload s x) \<longrightarrow>
     (\<exists>s'. mk x s = Some s' \<and> core_ok True U {} E s' \<and> quiet s s' \<and>
        payload s' = (payload s)(x := (payload s x)\<lparr>hot := v\<rparr>) \<and>
        (\<forall>q. set (queue_of s q) - {x} \<subseteq> set (queue_of s' q)) \<and>
        (\<forall>q \<in> {dram_free_list, nvm_free_list}. queue_of s' q = queue_of s q)))"

lemma home_not_free [simp]: "home pg \<noteq> dram_free_list" "home pg \<noteq> nvm_free_list"
  "dram_free_list \<noteq> home pg" "nvm_free_list \<noteq> home pg"
  by (simp_all add: home_def)

lemma remove1_keeps: "y \<in> set xs \<Longrightarrow> y \<notin> set (remove1 x xs) \<Longrightarrow> y = x"
  by (induction xs) (auto split: if_splits)

lemma moves_hot: "moves True make_hot U E"
  unfolding moves_def
  by (intro allI impI, drule (2) make_hot_spec, elim exE conjE, intro exI conjI)
    (assumption | auto split: if_splits dest: remove1_keeps)+

lemma moves_cold: "moves False make_cold U E"
  unfolding moves_def
  by (intro allI impI, drule (2) make_cold_spec, elim exE conjE, intro exI conjI)
    (assumption | auto split: if_splits dest: remove1_keeps)+

lemma serve_spec:
  assumes ok: "pebs_ok True U E s" and x: "x \<in> U" "present (payload s x)" and mk: "moves v mk U E"
  shows "\<exists>s'. (update_current_cool_page x s \<bind> (\<lambda>s. mk x (upd_page x (\<lambda>p. p\<lparr>ring_present := False\<rparr>) s))) = Some s' \<and>
    pebs_ok True U E s' \<and> kern s' = kern s \<and> hot_ring s' = hot_ring s \<and> cold_ring s' = cold_ring s \<and>
    (\<forall>p. place (payload s' p) = place (payload s p)) \<and> (\<forall>p. accesses (payload s' p) = accesses (payload s p)) \<and>
    queue_of s' dram_free_list = queue_of s dram_free_list \<and> queue_of s' nvm_free_list = queue_of s nvm_free_list \<and>
    hot (payload s' x) = v"
proof -
  note d = pebs_okD [OF ok]
  have x0: "x \<noteq> NULL"
    using x(1) lists_okD(3) [OF d(4)] by auto
  obtain c e where up: "update_current_cool_page x s = Some (with_cursors c e s)" "c \<noteq> x" "e \<noteq> x"
    "cursors_ok (with_cursors c e s)"
    using update_cursors [OF d(5,2) x0] by blast
  let ?s1 = "with_cursors c e s" and ?f = "\<lambda>p. p\<lparr>ring_present := False\<rparr>"
  have c1: "core_ok True U {} E ?s1"
    using d(1) by simp
  note u = core_upd_listed [OF c1 pay_fun_intros(3), where x = x]
  have c2: "core_ok True U {} E (upd_page x ?f ?s1)" "queue_of (upd_page x ?f ?s1) = queue_of s"
    "payload (upd_page x ?f ?s1) = (payload s)(x := (payload s x)\<lparr>ring_present := False\<rparr>)"
    using u by (simp_all add: place_def)
  have "present (payload (upd_page x ?f ?s1) x)"
    unfolding c2(3) using x(2) by simp
  with mk c2(1) x(1) obtain s' where s': "mk x (upd_page x ?f ?s1) = Some s'" "core_ok True U {} E s'"
    "quiet (upd_page x ?f ?s1) s'"
    "payload s' = (payload (upd_page x ?f ?s1))(x := (payload (upd_page x ?f ?s1) x)\<lparr>hot := v\<rparr>)"
    "\<forall>q. set (queue_of (upd_page x ?f ?s1) q) - {x} \<subseteq> set (queue_of s' q)"
    "\<forall>q \<in> {dram_free_list, nvm_free_list}. queue_of s' q = queue_of (upd_page x ?f ?s1) q"
    unfolding moves_def by blast
  have pay: "payload s' = (payload s)(x := (payload s x)\<lparr>ring_present := False, hot := v\<rparr>)"
    unfolding s'(4) c2(3) by simp
  have cs: "hot_ring s' = hot_ring s" "cold_ring s' = cold_ring s" "free_page_ring s' = free_page_ring s"
    "cur_cool_in_dram s' = c" "cur_cool_in_nvm s' = e" "kern s' = kern s"
    using ctl_eq [of s' "upd_page x ?f ?s1"] s'(3) by (simp_all add: quiet_def)
  have "cursors_ok s'"
    by (rule cursors_ok_move [OF up(4), of x]) (use up(2,3) cs s'(5) c2(2) in auto)
  moreover have "rings_ok U s'"
    using d(3) s'(6) unfolding rings_ok_def on_free_list_def cs pay c2(2) by auto
  ultimately show ?thesis
    using s'(1,2,6) up(1) cs pay c2(2) by (auto simp: pebs_ok_def place_def)
qed

lemma hot_step_spec:
  assumes ok: "pebs_ok True U E s" and ne: "\<not> ring_buf_empty (hot_ring s)"
  shows "\<exists>c s'. hot_step s = Some (c, s') \<and> pebs_ok True U E s' \<and> kern s' = kern s \<and>
    length (ring_list (hot_ring s')) < length (ring_list (hot_ring s)) \<and>
    (\<forall>p. place (payload s' p) = place (payload s p)) \<and> (\<forall>p. accesses (payload s' p) = accesses (payload s p)) \<and>
    queue_of s' dram_free_list = queue_of s dram_free_list \<and> queue_of s' nvm_free_list = queue_of s nvm_free_list \<and>
    (let x = hd (ring_list (hot_ring s)) in present (payload s x) \<longrightarrow> c \<and> hot (payload s' x))"
proof -
  note d = pebs_okD [OF ok]
  have ro: "ring_ok (hot_ring s)" "set (ring_list (hot_ring s)) \<subseteq> U"
    using d(3) by (simp_all add: rings_ok_def)
  obtain x xs r where r: "ring_list (hot_ring s) = x # xs" "ring_buf_get (hot_ring s) = (x, r)" "ring_ok r" "ring_list r = xs"
    using ring_take [OF ro(1) ne] .
  have x: "x \<in> U" "x \<noteq> NULL"
    using r(1) ro(2) lists_okD(3) [OF d(4)] by auto
  let ?s0 = "s\<lparr>hot_ring := r\<rparr>"
  have ok0: "pebs_ok True U E ?s0"
    using ok r ro(2) by (auto simp: pebs_ok_def rings_ok_def cursors_ok_def on_free_list_def)
  show ?thesis
  proof (cases "present (payload s x)")
    case False
    have "list_ptr (page_heap s x) = Some (if in_dram (payload s x) then dram_free_list else nvm_free_list)"
      using absent_free [OF d(4) x(1) False] in_queue_iff [OF d(5)] by blast
    then have "hot_step s = Some (False, ?s0)"
      using False x(2) by (simp add: hot_step_def r(2) payload_select freed_page_check_def Let_def)
    with ok0 r(1,3,4) False show ?thesis
      by (intro exI [of _ False] exI [of _ ?s0]) simp
  next
    case True
    obtain s' where s': "(update_current_cool_page x ?s0 \<bind> (\<lambda>s. make_hot x (upd_page x (\<lambda>p. p\<lparr>ring_present := False\<rparr>) s))) = Some s'"
      "pebs_ok True U E s'" "kern s' = kern s" "hot_ring s' = r"
      "\<forall>p. place (payload s' p) = place (payload s p)" "\<forall>p. accesses (payload s' p) = accesses (payload s p)"
      "queue_of s' dram_free_list = queue_of s dram_free_list" "queue_of s' nvm_free_list = queue_of s nvm_free_list" "hot (payload s' x)"
      using serve_spec [OF ok0 x(1) _ moves_hot] True by auto
    have "hot_step s = Some (True, s')"
      using s'(1) True x(2) by (simp add: hot_step_def r(2) payload_select Let_def run_elims bind_Some_iff)
    with s'(2-9) r(1,4) show ?thesis
      by (intro exI [of _ True] exI [of _ s']) simp
  qed
qed

lemma cold_step_spec:
  assumes ok: "pebs_ok True U E s" and ne: "\<not> ring_buf_empty (cold_ring s)"
  shows "\<exists>c s'. cold_step s = Some (c, s') \<and> pebs_ok True U E s' \<and> kern s' = kern s \<and>
    length (ring_list (cold_ring s')) < length (ring_list (cold_ring s)) \<and>
    (\<forall>p. place (payload s' p) = place (payload s p)) \<and> (\<forall>p. accesses (payload s' p) = accesses (payload s p)) \<and>
    queue_of s' dram_free_list = queue_of s dram_free_list \<and> queue_of s' nvm_free_list = queue_of s nvm_free_list"
proof -
  note d = pebs_okD [OF ok]
  have ro: "ring_ok (cold_ring s)" "set (ring_list (cold_ring s)) \<subseteq> U"
    using d(3) by (simp_all add: rings_ok_def)
  obtain x xs r where r: "ring_list (cold_ring s) = x # xs" "ring_buf_get (cold_ring s) = (x, r)" "ring_ok r" "ring_list r = xs"
    using ring_take [OF ro(1) ne] .
  have x: "x \<in> U" "x \<noteq> NULL"
    using r(1) ro(2) lists_okD(3) [OF d(4)] by auto
  let ?s0 = "s\<lparr>cold_ring := r\<rparr>"
  have ok0: "pebs_ok True U E ?s0"
    using ok r ro(2) by (auto simp: pebs_ok_def rings_ok_def cursors_ok_def on_free_list_def)
  show ?thesis
  proof (cases "present (payload s x)")
    case False
    have "list_ptr (page_heap s x) = Some (if in_dram (payload s x) then dram_free_list else nvm_free_list)"
      using absent_free [OF d(4) x(1) False] in_queue_iff [OF d(5)] by blast
    then have "cold_step s = Some (False, ?s0)"
      using False x(2) by (simp add: cold_step_def r(2) payload_select freed_page_check_def Let_def)
    with ok0 r show ?thesis by auto
  next
    case True
    obtain s' where s': "(update_current_cool_page x ?s0 \<bind> (\<lambda>s. make_cold x (upd_page x (\<lambda>p. p\<lparr>ring_present := False\<rparr>) s))) = Some s'"
      "pebs_ok True U E s'" "kern s' = kern s" "cold_ring s' = r"
      "\<forall>p. place (payload s' p) = place (payload s p)" "\<forall>p. accesses (payload s' p) = accesses (payload s p)"
      "queue_of s' dram_free_list = queue_of s dram_free_list" "queue_of s' nvm_free_list = queue_of s nvm_free_list"
      using serve_spec [OF ok0 x(1) _ moves_cold] True by auto
    have "cold_step s = Some (True, s')"
      using s'(1) True x(2) by (simp add: cold_step_def r(2) payload_select Let_def run_elims bind_Some_iff)
    with s' r show ?thesis by auto
  qed
qed

lemma hot_loop_spec:
  assumes "pebs_ok True U E s"
  shows "\<exists>s'. hot_loop n s = Some s' \<and> pebs_ok True U E s' \<and> kern s' = kern s \<and>
    (\<forall>p. place (payload s' p) = place (payload s p)) \<and>
    queue_of s' dram_free_list = queue_of s dram_free_list \<and> queue_of s' nvm_free_list = queue_of s nvm_free_list"
  using assms
proof (induction "length (ring_list (hot_ring s))" arbitrary: s n rule: less_induct)
  case less
  show ?case
  proof (cases "\<not> ring_buf_empty (hot_ring s) \<and> n < HOT_RING_REQS_THRESHOLD")
    case False
    then have "hot_loop n s = Some s"
      by (simp only: hot_loop.simps [of n s] if_False)
    with less.prems show ?thesis by simp
  next
    case True
    obtain c t where t: "hot_step s = Some (c, t)" "pebs_ok True U E t" "kern t = kern s"
      "length (ring_list (hot_ring t)) < length (ring_list (hot_ring s))"
      "\<forall>p. place (payload t p) = place (payload s p)"
      "queue_of t dram_free_list = queue_of s dram_free_list" "queue_of t nvm_free_list = queue_of s nvm_free_list"
      using hot_step_spec [OF less.prems] True by blast
    from less.hyps [OF t(4,2), of "if c then n + 1 else n"] t True obtain s' where
      "hot_loop (if c then n + 1 else n) t = Some s'" "pebs_ok True U E s'" "kern s' = kern s"
      "\<forall>p. place (payload s' p) = place (payload s p)"
      "queue_of s' dram_free_list = queue_of s dram_free_list" "queue_of s' nvm_free_list = queue_of s nvm_free_list"
      by auto
    moreover from this(1) have "hot_loop n s = Some s'"
      using t(1) True by (simp add: hot_loop.simps [of n s])
    ultimately show ?thesis by blast
  qed
qed

lemma cold_loop_spec:
  assumes "pebs_ok True U E s"
  shows "\<exists>s'. cold_loop n s = Some s' \<and> pebs_ok True U E s' \<and> kern s' = kern s \<and>
    (\<forall>p. place (payload s' p) = place (payload s p)) \<and>
    queue_of s' dram_free_list = queue_of s dram_free_list \<and> queue_of s' nvm_free_list = queue_of s nvm_free_list"
  using assms
proof (induction "length (ring_list (cold_ring s))" arbitrary: s n rule: less_induct)
  case less
  show ?case
  proof (cases "\<not> ring_buf_empty (cold_ring s) \<and> n < COLD_RING_REQS_THRESHOLD")
    case False
    then have "cold_loop n s = Some s"
      by (simp only: cold_loop.simps [of n s] if_False)
    with less.prems show ?thesis by simp
  next
    case True
    obtain c t where t: "cold_step s = Some (c, t)" "pebs_ok True U E t" "kern t = kern s"
      "length (ring_list (cold_ring t)) < length (ring_list (cold_ring s))"
      "\<forall>p. place (payload t p) = place (payload s p)"
      "queue_of t dram_free_list = queue_of s dram_free_list" "queue_of t nvm_free_list = queue_of s nvm_free_list"
      using cold_step_spec [OF less.prems] True by blast
    from less.hyps [OF t(4,2), of "if c then n + 1 else n"] t True obtain s' where
      "cold_loop (if c then n + 1 else n) t = Some s'" "pebs_ok True U E s'" "kern s' = kern s"
      "\<forall>p. place (payload s' p) = place (payload s p)"
      "queue_of s' dram_free_list = queue_of s dram_free_list" "queue_of s' nvm_free_list = queue_of s nvm_free_list"
      by auto
    moreover from this(1) have "cold_loop n s = Some s'"
      using t(1) True by (simp add: cold_loop.simps [of n s])
    ultimately show ?thesis by blast
  qed
qed

section \<open>Moving pages between the devices\<close>

lemma take_frame_spec:
  assumes "mem_ok s"
  shows "mem_ok (take_frame np off b s)" and "queue_of (take_frame np off b s) = queue_of s"
    and "payload (take_frame np off b s) = (payload s)(np := (payload s np)\<lparr>devdax_offset := off, in_dram := b,
      present := False, hot := False, accesses := (\<lambda>_. 0), tot_accesses := (\<lambda>_. 0)\<rparr>)"
    and "devs (take_frame np off b s) = devs s" and "ctl (take_frame np off b s) = ctl s"
    and "kern (take_frame np off b s) = kern s"
  unfolding take_frame_def using upd_page_spec [OF assms pay_fun_intros(8), where p = np]
  by (simp_all add: devs_def ctl_def)

lemma promote_frames:
  assumes E: "platform_ok E" "requests_succeed E" and ok: "core_ok b U X E s" and X: "p \<in> X" "np \<in> X"
    and p: "present (payload s p)" "\<not> in_dram (payload s p)"
    and np: "\<not> present (payload s np)" "in_dram (payload s np)"
  shows "\<exists>s1. pebs_migrate_up E p (devdax_offset (payload s np)) s = Some s1 \<and>
    (let t = take_frame np (devdax_offset (payload s p)) False s1 in
      core_ok b U X E t \<and> same_app U E s t \<and> queue_of t = queue_of s \<and> devs t = devs s \<and> ctl t = ctl s \<and>
      hot (payload t p) = hot (payload s p) \<and> enforced (payload t p) = enforced (payload s p) \<and>
      present (payload t p) \<and> in_dram (payload t p) \<and> pt (payload t p) = HUGEP \<and>
      list_typed b nvm_free_list (payload t np) = (\<not> enforced (payload s np)) \<and>
      (\<forall>q. q \<noteq> p \<longrightarrow> q \<noteq> np \<longrightarrow> payload t q = payload s q))"
proof -
  have tk: "takes_over (devdax_offset (payload s p)) False (\<lambda>pg. pg\<lparr>devdax_offset := devdax_offset (payload s p), in_dram := False,
      present := False, hot := False, accesses := (\<lambda>_. 0), tot_accesses := (\<lambda>_. 0)\<rparr>)"
    by (simp add: takes_over_def)
  have "p \<noteq> np"
    using p(1) np(1) by auto
  with exchange_up [OF E ok X p(1,2) np tk] p np show ?thesis
    by (auto simp: pebs_migrate_up_eq take_frame_def Let_def dest: policy_same_ctl)
qed

lemma evict_frames:
  assumes E: "platform_ok E" "requests_succeed E" and ok: "core_ok b U X E s" and X: "p \<in> X" "np \<in> X"
    and p: "present (payload s p)" "in_dram (payload s p)" "\<not> enforced (payload s p)"
    and np: "\<not> present (payload s np)" "\<not> in_dram (payload s np)"
  shows "\<exists>s1. pebs_migrate_down E p (devdax_offset (payload s np)) s = Some s1 \<and>
    (let t = take_frame np (devdax_offset (payload s p)) True s1 in
      core_ok b U X E t \<and> same_app U E s t \<and> queue_of t = queue_of s \<and> devs t = devs s \<and> ctl t = ctl s \<and>
      hot (payload t p) = hot (payload s p) \<and> enforced (payload t p) = enforced (payload s p) \<and>
      present (payload t p) \<and> \<not> in_dram (payload t p) \<and> pt (payload t p) = HUGEP \<and>
      list_typed b dram_free_list (payload t np) = (\<not> enforced (payload s np)) \<and>
      (\<forall>q. q \<noteq> p \<longrightarrow> q \<noteq> np \<longrightarrow> payload t q = payload s q))"
proof -
  have tk: "takes_over (devdax_offset (payload s p)) True (\<lambda>pg. pg\<lparr>devdax_offset := devdax_offset (payload s p), in_dram := True,
      present := False, hot := False, accesses := (\<lambda>_. 0), tot_accesses := (\<lambda>_. 0)\<rparr>)"
    by (simp add: takes_over_def)
  have "p \<noteq> np"
    using p(1) np(1) by auto
  with exchange_down [OF E ok X p(1,2) np tk] p np show ?thesis
    by (auto simp: pebs_migrate_down_eq take_frame_def Let_def dest: policy_same_ctl)
qed

lemma evict_page_spec:
  assumes E: "platform_ok E" "requests_succeed E" and ok: "core_ok b U X E s" and cp: "cp \<in> X"
    "present (payload s cp)" "in_dram (payload s cp)" "\<not> enforced (payload s cp)" "\<not> hot (payload s cp)"
    and q: "queue_of s nvm_free_list = ys @ [np]"
  shows "\<exists>s'. evict_page E cp s = Some s' \<and> core_ok b U (X - {cp}) E s' \<and> same_app U E s s' \<and>
    devs s' = devs s \<and> ctl s' = ctl s \<and> (\<forall>q. q \<in> X - {cp} \<longrightarrow> payload s' q = payload s q) \<and>
    queue_of s' = (queue_of s)(nvm_free_list := ys, nvm_cold_list := cp # queue_of s nvm_cold_list,
      dram_free_list := np # queue_of s dram_free_list)"
proof -
  note d = core_okD [OF ok] lists_okD [OF core_okD(1) [OF ok]]
  have npq: "np \<in> set (queue_of s nvm_free_list)"
    using q by simp
  have np: "np \<in> U - X" "\<not> present (payload s np)" "\<not> in_dram (payload s np)" "\<not> enforced (payload s np)" "np \<noteq> NULL"
    using d(7) [OF npq] d(8) [OF npq] d(6) by auto
  obtain s1 where s1: "dequeue_fifo nvm_free_list s = Some (np, s1)" "core_ok b U (insert np X) E s1"
    "queue_of s1 = (queue_of s)(nvm_free_list := ys)" "payload s1 = payload s" "heaps_only s s1"
    using core_deq [OF ok q] by blast
  note r1 = heaps_only_rest [OF s1(5)]
  obtain s2 where s2: "pebs_migrate_down E cp (devdax_offset (payload s np)) s1 = Some s2"
    and t: "core_ok b U (insert np X) E (take_frame np (devdax_offset (payload s cp)) True s2)"
      "same_app U E s1 (take_frame np (devdax_offset (payload s cp)) True s2)"
      "queue_of (take_frame np (devdax_offset (payload s cp)) True s2) = queue_of s1"
      "devs (take_frame np (devdax_offset (payload s cp)) True s2) = devs s1"
      "ctl (take_frame np (devdax_offset (payload s cp)) True s2) = ctl s1"
      "list_typed b nvm_cold_list (payload (take_frame np (devdax_offset (payload s cp)) True s2) cp)"
      "list_typed b dram_free_list (payload (take_frame np (devdax_offset (payload s cp)) True s2) np)"
      "\<And>q. q \<noteq> cp \<Longrightarrow> q \<noteq> np \<Longrightarrow> payload (take_frame np (devdax_offset (payload s cp)) True s2) q = payload s q"
    using evict_frames [OF E s1(2), of cp np] cp np s1(4) by (auto simp: Let_def)
  let ?t = "take_frame np (devdax_offset (payload s cp)) True s2"
  obtain s3 where s3: "enqueue_fifo nvm_cold_list cp ?t = Some s3" "core_ok b U (insert np X - {cp}) E s3"
    "queue_of s3 = (queue_of ?t)(nvm_cold_list := cp # queue_of ?t nvm_cold_list)" "payload s3 = payload ?t" "heaps_only ?t s3"
    using core_enq [OF t(1) _ t(6)] cp(1) by blast
  have npX: "np \<in> insert np X - {cp}" "insert np X - {cp} - {np} = X - {cp}"
    using np(1) cp(1) by auto
  obtain s' where s': "enqueue_fifo dram_free_list np s3 = Some s'" "core_ok b U (X - {cp}) E s'"
    "queue_of s' = (queue_of s3)(dram_free_list := np # queue_of s3 dram_free_list)" "payload s' = payload s3" "heaps_only s3 s'"
    using core_enq [OF s3(2) npX(1), of dram_free_list] t(7) s3(4) npX(2) by auto
  have "evict_page E cp s = Some s'"
    using s1(1,4) s2 s3(1) s'(1) np(2,5) by (simp add: evict_page_def payload_select Let_def)
  moreover have "same_app U E s s'"
    using t(2) r1 s1(4) s'(4) s3(4) heaps_only_rest(3) [OF s3(5)] heaps_only_rest(3) [OF s'(5)]
    by (simp add: same_app_def)
  moreover have "\<forall>q. q \<in> X - {cp} \<longrightarrow> payload s' q = payload s q"
    using t(8) np(1) s'(4) s3(4) by auto
  ultimately show ?thesis
    using s'(2,3) s3(3) t(3-5) s1(3) r1 heaps_only_rest [OF s3(5)] heaps_only_rest [OF s'(5)]
    by (intro exI [of _ s']) simp
qed

lemma promote_spec:
  assumes E: "platform_ok E" "requests_succeed E" and ok: "core_ok b U {p} E s" and p: "present (payload s p)"
    "\<not> in_dram (payload s p)" "\<not> enforced (payload s p)" "hot (payload s p)"
    and q: "queue_of s dram_free_list = ys @ [np]"
  shows "\<exists>s'. try_promote (Suc n) E p s = Some (Moved PAGE_SIZE, s') \<and> core_ok b U {} E s' \<and> same_app U E s s' \<and>
    devs s' = devs s \<and> ctl s' = ctl s \<and>
    queue_of s' = (queue_of s)(dram_free_list := ys, dram_hot_list := p # queue_of s dram_hot_list,
      nvm_free_list := np # queue_of s nvm_free_list)"
proof -
  note d = core_okD [OF ok] lists_okD [OF core_okD(1) [OF ok]]
  have npq: "np \<in> set (queue_of s dram_free_list)"
    using q by simp
  have np: "np \<in> U - {p}" "\<not> present (payload s np)" "in_dram (payload s np)" "\<not> enforced (payload s np)" "np \<noteq> NULL"
    using d(7) [OF npq] d(8) [OF npq] d(6) by auto
  obtain s1 where s1: "dequeue_fifo dram_free_list s = Some (np, s1)" "core_ok b U {np, p} E s1"
    "queue_of s1 = (queue_of s)(dram_free_list := ys)" "payload s1 = payload s" "heaps_only s s1"
    using core_deq [OF ok q] by blast
  note r1 = heaps_only_rest [OF s1(5)]
  obtain s2 where s2: "pebs_migrate_up E p (devdax_offset (payload s np)) s1 = Some s2"
    and t: "core_ok b U {np, p} E (take_frame np (devdax_offset (payload s p)) False s2)"
      "same_app U E s1 (take_frame np (devdax_offset (payload s p)) False s2)"
      "queue_of (take_frame np (devdax_offset (payload s p)) False s2) = queue_of s1"
      "devs (take_frame np (devdax_offset (payload s p)) False s2) = devs s1"
      "ctl (take_frame np (devdax_offset (payload s p)) False s2) = ctl s1"
      "list_typed b dram_hot_list (payload (take_frame np (devdax_offset (payload s p)) False s2) p)"
      "list_typed b nvm_free_list (payload (take_frame np (devdax_offset (payload s p)) False s2) np)"
      "pt (payload (take_frame np (devdax_offset (payload s p)) False s2) p) = HUGEP"
    using promote_frames [OF E s1(2), of p np] p np s1(4) by (auto simp: Let_def)
  let ?t = "take_frame np (devdax_offset (payload s p)) False s2"
  have sw: "core_ok b U {p, np} E ?t" "p \<noteq> np"
    using t(1) np(1) by (auto simp: insert_commute)
  obtain s' where s': "(enqueue_fifo dram_hot_list p ?t \<bind> enqueue_fifo nvm_free_list np) = Some s'" "core_ok b U {} E s'"
    "queue_of s' = (queue_of ?t)(dram_hot_list := p # queue_of ?t dram_hot_list, nvm_free_list := np # queue_of ?t nvm_free_list)"
    "payload s' = payload ?t" "heaps_only ?t s'"
    using core_enq2 [OF sw(1,2) t(6,7)] by auto
  have "try_promote (Suc n) E p s = Some (Moved PAGE_SIZE, s')"
    using s1(1,4) s2 s'(1,4) np(2,5) t(8) by (auto simp: payload_select Let_def run_elims PAGE_SIZE_def)
  moreover have "same_app U E s s'"
    using t(2) r1 s1(4) s'(4) heaps_only_rest(3) [OF s'(5)] by (simp add: same_app_def)
  ultimately show ?thesis
    using s'(2,3) t(3-5) s1(3) r1 heaps_only_rest [OF s'(5)] by (intro exI [of _ s']) simp
qed

text \<open>
  The search for a victim takes the oldest cold page: without hints none is enforced.
\<close>

lemma dequeue_evictable_spec:
  assumes ok: "core_ok b U X E s"
  shows "queue_of s dram_cold_list = [] \<Longrightarrow> dequeue_evictable s = Some (NULL, s)"
    and "queue_of s dram_cold_list = ys @ [cp] \<Longrightarrow> \<exists>s'. dequeue_evictable s = Some (cp, s') \<and>
      core_ok b U (insert cp X) E s' \<and> queue_of s' = (queue_of s)(dram_cold_list := ys) \<and>
      payload s' = payload s \<and> heaps_only s s'"
proof -
  note d = lists_okD [OF core_okD(1) [OF ok]]
  show "dequeue_evictable s = Some (NULL, s)" if "queue_of s dram_cold_list = []"
    using dequeue_fifo_empty [OF d(1) that] by (simp add: dequeue_evictable.simps [of s])
  show "\<exists>s'. dequeue_evictable s = Some (cp, s') \<and> core_ok b U (insert cp X) E s' \<and>
      queue_of s' = (queue_of s)(dram_cold_list := ys) \<and> payload s' = payload s \<and> heaps_only s s'"
    if q: "queue_of s dram_cold_list = ys @ [cp]"
  proof -
    have "cp \<in> set (queue_of s dram_cold_list)"
      using q by simp
    from d(5) [OF this] have "\<not> enforced (payload s cp)"
      by simp
    with core_deq [OF ok q] show ?thesis
      by (auto simp: dequeue_evictable.simps [of s] payload_select)
  qed
qed

lemma try_promote_spec:
  assumes E: "platform_ok E" "requests_succeed E" and ok: "core_ok True U {p} E s" and p: "present (payload s p)"
    "\<not> in_dram (payload s p)" "\<not> enforced (payload s p)" "hot (payload s p)" and free: "0 < free_count s"
  shows "\<exists>r s'. try_promote 2 E p s = Some (r, s') \<and> (r = Moved PAGE_SIZE \<or> r = No_Victim) \<and>
    core_ok True U {} E s' \<and> same_app U E s s' \<and> devs s' = devs s \<and> ctl s' = ctl s \<and> free_count s' = free_count s \<and>
    set (queue_of s dram_hot_list) \<subseteq> set (queue_of s' dram_hot_list) \<and>
    queue_of s' nvm_hot_list = (if r = No_Victim then p # queue_of s nvm_hot_list else queue_of s nvm_hot_list)"
proof (cases "queue_of s dram_free_list" rule: rev_cases)
  case (snoc ys np)
  then show ?thesis
    using promote_spec [OF E ok p snoc, of 1] by (auto simp: numeral_2_eq_2 free_count_def simp del: try_promote.simps)
next
  case Nil
  note d = core_okD [OF ok] lists_okD [OF core_okD(1) [OF ok]]
  have deq: "dequeue_fifo dram_free_list s = Some (NULL, s)"
    by (rule dequeue_fifo_empty [OF d(4) Nil])
  show ?thesis
  proof (cases "queue_of s dram_cold_list" rule: rev_cases)
    case cold: Nil
    obtain s' where s': "enqueue_fifo nvm_hot_list p s = Some s'" "core_ok True U {} E s'"
      "queue_of s' = (queue_of s)(nvm_hot_list := p # queue_of s nvm_hot_list)" "payload s' = payload s" "heaps_only s s'"
      using core_enq [OF ok, of p nvm_hot_list] p by auto
    have "try_promote 2 E p s = Some (No_Victim, s')"
      using deq dequeue_evictable_spec(1) [OF ok cold] s'(1) by (simp add: numeral_2_eq_2)
    then show ?thesis
      using s' heaps_only_rest [OF s'(5)] by (auto simp: same_app_def free_count_def)
  next
    case (snoc zs cp)
    obtain s1 where s1: "dequeue_evictable s = Some (cp, s1)" "core_ok True U {cp, p} E s1"
      "queue_of s1 = (queue_of s)(dram_cold_list := zs)" "payload s1 = payload s" "heaps_only s s1"
      using dequeue_evictable_spec(2) [OF ok snoc] by blast
    have cpq: "cp \<in> set (queue_of s dram_cold_list)"
      using snoc by simp
    have cp: "cp \<in> U - {p}" "cp \<noteq> NULL" "present (payload s1 cp)" "in_dram (payload s1 cp)" "\<not> enforced (payload s1 cp)"
      "\<not> hot (payload s1 cp)"
      using d(7) [OF cpq] d(8) [OF cpq] d(6) s1(4) by auto
    obtain ys np where nf: "queue_of s1 nvm_free_list = ys @ [np]"
      using free Nil s1(3) by (cases "queue_of s nvm_free_list" rule: rev_cases) (auto simp: free_count_def)
    obtain s2 where s2: "evict_page E cp s1 = Some s2" "core_ok True U {p} E s2" "same_app U E s1 s2"
      "devs s2 = devs s1" "ctl s2 = ctl s1" "payload s2 p = payload s1 p"
      "queue_of s2 = (queue_of s1)(nvm_free_list := ys, nvm_cold_list := cp # queue_of s1 nvm_cold_list,
        dram_free_list := [np])"
      using evict_page_spec [OF E s1(2) _ cp(3-6) nf] cp(1) Nil s1(3) by (auto simp: insert_Diff_if)
    obtain s' where s': "try_promote 1 E p s2 = Some (Moved PAGE_SIZE, s')" "core_ok True U {} E s'" "same_app U E s2 s'"
      "devs s' = devs s2" "ctl s' = ctl s2"
      "queue_of s' = (queue_of s2)(dram_free_list := [], dram_hot_list := p # queue_of s2 dram_hot_list,
        nvm_free_list := np # queue_of s2 nvm_free_list)"
      using promote_spec [OF E s2(2), of "[]" np 0] p s2(6,7) s1(4) by auto
    have "try_promote 2 E p s = Some (Moved PAGE_SIZE, s')"
      using deq s1(1) cp(2) s2(1) s'(1) by (simp add: numeral_2_eq_2)
    moreover have "same_app U E s s1"
      using s1(4) heaps_only_rest(3) [OF s1(5)] by (simp add: same_app_def)
    then have "same_app U E s s'"
      by (blast intro: same_app_trans s2(3) s'(3))
    ultimately show ?thesis
      using s'(2,4-6) s2(4,5,7) s1(3) nf Nil heaps_only_rest(1,2) [OF s1(5)] by (auto simp: free_count_def)
  qed
qed

end
