(* ===== verification/Pebs_Turn.thy ===== *)
theory Pebs_Turn
  imports Pebs_Policy
begin

text \<open>
  An iteration of the policy thread of \<^verbatim>\<open>src/pebs.c\<close>: the migration loop, the cooling of the hot
  lists, and the whole turn. Every loop ends, no assertion fails as long as one managed frame is
  unused, the invariant is kept and the application's memory does not change.
\<close>

lemma settled_absent:
  assumes "lists_ok True U {} s"
  shows "{p \<in> U. \<not> present (payload s p) \<and> \<not> on_free_list s p} = {}"
  using absent_free [OF assms] by (fastforce simp: on_free_list_def split: if_splits)

text \<open>In a settled state the rings only have to keep their contents.\<close>

lemma pebs_ok_rings:
  assumes "pebs_ok True U E s" and c: "core_ok True U {} E s'" and "cursors_ok s'"
    and "hot_ring s' = hot_ring s" "cold_ring s' = cold_ring s" "free_page_ring s' = free_page_ring s"
  shows "pebs_ok True U E s'"
proof -
  have "rings_ok U s"
    by (rule pebs_okD(3) [OF assms(1)])
  then have "rings_ok U s'"
    using settled_absent [OF pebs_okD(4) [OF assms(1)]] settled_absent [OF core_okD(1) [OF c]] assms(4-6)
    by (simp add: rings_ok_def)
  with c assms(3) show ?thesis
    by (simp add: pebs_ok_def)
qed

lemma cursors_ok_mono:
  assumes "cursors_ok s" and "cur_cool_in_dram s' = cur_cool_in_dram s" "cur_cool_in_nvm s' = cur_cool_in_nvm s"
    and "set (queue_of s dram_hot_list) \<subseteq> set (queue_of s' dram_hot_list)"
    and "set (queue_of s nvm_hot_list) \<subseteq> set (queue_of s' nvm_hot_list)"
  shows "cursors_ok s'"
  using assms unfolding cursors_ok_def by auto

text \<open>Taking a page off the NVM hot list moves the cursor that points to it to the front of the list.\<close>

definition leave_cursor :: "ptr \<Rightarrow> ('k, 'a) pebs_scheme \<Rightarrow> ('k, 'a) pebs_scheme" where
  "leave_cursor p s = (if p = cur_cool_in_nvm s
     then s\<lparr>cur_cool_in_nvm := first_ptr (list_heap s nvm_hot_list)\<rparr> else s)"

lemma leave_cursor_fields [simp]:
  "core_ok b U X E (leave_cursor p s) = core_ok b U X E s" "payload (leave_cursor p s) = payload s"
  "queue_of (leave_cursor p s) = queue_of s" "devs (leave_cursor p s) = devs s" "kern (leave_cursor p s) = kern s"
  "hot_ring (leave_cursor p s) = hot_ring s" "cold_ring (leave_cursor p s) = cold_ring s"
  "free_page_ring (leave_cursor p s) = free_page_ring s" "free_count (leave_cursor p s) = free_count s"
  "cur_cool_in_dram (leave_cursor p s) = cur_cool_in_dram s" "page_heap (leave_cursor p s) = page_heap s"
  by (auto simp: leave_cursor_def devs_def free_count_def)

lemma take_hot:
  assumes ok: "pebs_ok True U E s" and q: "queue_of s nvm_hot_list = ys @ [p]"
  shows "\<exists>s1. dequeue_fifo nvm_hot_list s = Some (p, s1) \<and> core_ok True U {p} E (leave_cursor p s1) \<and>
    cursors_ok (leave_cursor p s1) \<and> queue_of s1 = (queue_of s)(nvm_hot_list := ys) \<and> payload s1 = payload s \<and>
    heaps_only s s1"
proof -
  note d = pebs_okD [OF ok]
  obtain s1 where s1: "dequeue_fifo nvm_hot_list s = Some (p, s1)" "core_ok True U {p} E s1"
    "queue_of s1 = (queue_of s)(nvm_hot_list := ys)" "payload s1 = payload s" "heaps_only s s1"
    using core_deq [OF d(1) q] by blast
  have c: "cur_cool_in_dram s1 = cur_cool_in_dram s" "cur_cool_in_nvm s1 = cur_cool_in_nvm s"
    using ctl_eq [OF heaps_only_rest(2) [OF s1(5)]] by simp_all
  have m: "mem_ok s1"
    using lists_okD(1) [OF core_okD(1) [OF s1(2)]] .
  have "first_ptr (list_heap s1 nvm_hot_list) = hd_or NULL ys"
    using first_ptr_queue [OF m, of nvm_hot_list] s1(3) by simp
  then have "cursors_ok (leave_cursor p s1)"
    using d(2) c s1(3) q hd_or_in [of ys NULL] unfolding cursors_ok_def leave_cursor_def
    by (cases "ys = []") auto
  with s1 show ?thesis by simp
qed

lemma migrate_step_eq:
  "migrate_step E s = (dequeue_fifo nvm_hot_list s \<bind> (\<lambda>(p, s).
     if p = NULL then Some (Nothing_Hot, s)
     else let s = leave_cursor p s in
       if total_reads (page_heap s p) < HOT_READ_THRESHOLD
       then enqueue_fifo nvm_cold_list p (upd_page p (\<lambda>p. p\<lparr>hot := False\<rparr>) s) \<bind> (\<lambda>s. Some (Cooled, s))
       else try_promote 2 E p s))"
  unfolding migrate_step_def leave_cursor_def Let_def by (simp cong: if_cong)

text \<open>How an iteration of the migration loop leaves the state.\<close>

definition migrates :: "'k platform \<Rightarrow> ptr set \<Rightarrow> migrate_result \<Rightarrow> ('k, 'a) pebs_scheme \<Rightarrow> ('k, 'a) pebs_scheme \<Rightarrow> bool" where
  "migrates E U r s s' \<longleftrightarrow> pebs_ok True U E s' \<and> same_app U E s s' \<and> devs s' = devs s \<and> free_count s' = free_count s \<and>
     r \<in> {Nothing_Hot, Cooled, Moved PAGE_SIZE, No_Victim} \<and>
     (r \<in> {Cooled, Moved PAGE_SIZE} \<longrightarrow>
        length (queue_of s' nvm_hot_list) < length (queue_of s nvm_hot_list))"

lemma total_reads_payload [simp]: "total_reads (page_heap s p) = total_reads (payload s p)"
  by (simp add: total_reads_def payload_select)

text \<open>What promoting the page \<open>p\<close> that was taken off the NVM hot list leads to, when it returns.\<close>

definition promoted :: "'k platform \<Rightarrow> ptr set \<Rightarrow> ptr \<Rightarrow> ('k, 'a) pebs_scheme \<Rightarrow> migrate_result \<Rightarrow> ('k, 'a) pebs_scheme \<Rightarrow> bool" where
  "promoted E U p s r s' \<longleftrightarrow> (r = Moved PAGE_SIZE \<or> r = No_Victim) \<and>
     core_ok True U {} E s' \<and> same_app U E s s' \<and> devs s' = devs s \<and> ctl s' = ctl s \<and> free_count s' = free_count s \<and>
     set (queue_of s dram_hot_list) \<subseteq> set (queue_of s' dram_hot_list) \<and>
     queue_of s' nvm_hot_list = (if r = No_Victim then p # queue_of s nvm_hot_list else queue_of s nvm_hot_list)"

lemma migrate_step_cool:
  assumes ok: "pebs_ok True U E s" and q: "queue_of s nvm_hot_list = ys @ [p]"
    and cold: "total_reads (payload s p) < HOT_READ_THRESHOLD"
  shows "\<exists>s'. migrate_step E s = Some (Cooled, s') \<and> migrates E U Cooled s s' \<and>
    queue_of s' = (queue_of s)(nvm_hot_list := ys, nvm_cold_list := p # queue_of s nvm_cold_list)"
proof -
  obtain s1 where s1: "dequeue_fifo nvm_hot_list s = Some (p, s1)" "core_ok True U {p} E (leave_cursor p s1)"
    "cursors_ok (leave_cursor p s1)" "queue_of s1 = (queue_of s)(nvm_hot_list := ys)" "payload s1 = payload s"
    "heaps_only s s1"
    using take_hot [OF ok q] by blast
  note r1 = heaps_only_rest [OF s1(6)] ctl_eq [OF heaps_only_rest(2) [OF s1(6)]]
  have p: "p \<in> set (queue_of s nvm_hot_list)"
    using q by simp
  note d = lists_okD [OF pebs_okD(4) [OF ok]]
  have pg: "p \<noteq> NULL" "present (payload s p)" "\<not> in_dram (payload s p)" "\<not> enforced (payload s p)"
    using d(5) [OF p] d(4) [OF p] d(3) by auto
  let ?s = "leave_cursor p s1" and ?f = "\<lambda>p. p\<lparr>hot := False\<rparr>"
  have u: "core_ok True U {p} E (upd_page p ?f ?s)" "queue_of (upd_page p ?f ?s) = queue_of s1"
    "payload (upd_page p ?f ?s) = (payload s)(p := ?f (payload s p))"
    using core_upd [OF s1(2) _ pay_fun_intros(1), of p False] s1(5) by (simp_all add: place_def)
  obtain s' where s': "enqueue_fifo nvm_cold_list p (upd_page p ?f ?s) = Some s'" "core_ok True U {} E s'"
    "queue_of s' = (queue_of s1)(nvm_cold_list := p # queue_of s1 nvm_cold_list)"
    "payload s' = (payload s)(p := ?f (payload s p))" "heaps_only (upd_page p ?f ?s) s'"
    using core_enq [OF u(1), of p nvm_cold_list] u(2,3) pg by auto
  note r2 = heaps_only_rest [OF s'(5)] ctl_eq [OF heaps_only_rest(2) [OF s'(5)]]
  have "migrate_step E s = Some (Cooled, s')"
    using s1(1,5) pg(1) cold s'(1) by (simp add: migrate_step_eq Let_def)
  moreover have "cursors_ok s'"
    by (rule cursors_ok_mono [OF s1(3)]) (use r2 s'(3) s1(4) in simp_all)
  then have "pebs_ok True U E s'"
    by (rule pebs_ok_rings [OF ok s'(2)]) (use r1 r2 in simp_all)
  moreover have "same_app U E s s'"
    using s'(4) r1 r2 by (simp add: same_app_def)
  moreover have "devs (upd_page p ?f ?s) = devs ?s"
    by (simp add: devs_def)
  then have "devs s' = devs s"
    using r1 r2 by simp
  ultimately show ?thesis
    using s'(3) s1(4) q by (auto simp: migrates_def free_count_def)
qed

lemma migrate_step_hot:
  assumes ok: "pebs_ok True U E s" and q: "queue_of s nvm_hot_list = ys @ [p]"
    and hot: "\<not> total_reads (payload s p) < HOT_READ_THRESHOLD"
  shows "\<exists>t. migrate_step E s = try_promote 2 E p t \<and> core_ok True U {p} E t \<and> present (payload t p) \<and>
    \<not> in_dram (payload t p) \<and> \<not> enforced (payload t p) \<and> hot (payload t p) \<and> free_count t = free_count s \<and>
    queue_of t = (queue_of s)(nvm_hot_list := ys) \<and>
    (\<forall>r s'. promoted E U p t r s' \<longrightarrow> migrates E U r s s')"
proof -
  obtain s1 where s1: "dequeue_fifo nvm_hot_list s = Some (p, s1)" "core_ok True U {p} E (leave_cursor p s1)"
    "cursors_ok (leave_cursor p s1)" "queue_of s1 = (queue_of s)(nvm_hot_list := ys)" "payload s1 = payload s"
    "heaps_only s s1"
    using take_hot [OF ok q] by blast
  note r1 = heaps_only_rest [OF s1(6)] ctl_eq [OF heaps_only_rest(2) [OF s1(6)]]
  have p: "p \<in> set (queue_of s nvm_hot_list)"
    using q by simp
  note d = lists_okD [OF pebs_okD(4) [OF ok]]
  have pg: "p \<noteq> NULL" "present (payload s p)" "\<not> in_dram (payload s p)" "\<not> enforced (payload s p)" "hot (payload s p)"
    using d(5) [OF p] d(4) [OF p] d(3) by auto
  let ?s = "leave_cursor p s1"
  have fc: "free_count ?s = free_count s" "same_app U E s ?s"
    using s1(4,5) r1 by (simp_all add: free_count_def same_app_def)
  have "migrates E U r s s'" if "promoted E U p ?s r s'" for r s'
  proof -
    have s': "r = Moved PAGE_SIZE \<or> r = No_Victim" "core_ok True U {} E s'" "same_app U E ?s s'" "devs s' = devs ?s"
      "ctl s' = ctl ?s" "free_count s' = free_count ?s" "set (queue_of ?s dram_hot_list) \<subseteq> set (queue_of s' dram_hot_list)"
      "queue_of s' nvm_hot_list = (if r = No_Victim then p # queue_of ?s nvm_hot_list else queue_of ?s nvm_hot_list)"
      using that unfolding promoted_def by blast+
    note r2 = ctl_eq [OF s'(5)]
    have "cursors_ok s'"
      by (rule cursors_ok_mono [OF s1(3)]) (use r2 s'(7,8) in auto)
    then have "pebs_ok True U E s'"
      by (rule pebs_ok_rings [OF ok s'(2)]) (use r1 r2 in simp_all)
    moreover have "same_app U E s s'"
      by (rule same_app_trans [OF fc(2) s'(3)])
    ultimately show ?thesis
      using s'(1,4,6,8) s1(4) q r1 fc by (auto simp: migrates_def)
  qed
  moreover have "migrate_step E s = try_promote 2 E p ?s"
    using s1(1,5) pg(1) hot by (simp add: migrate_step_eq Let_def del: try_promote.simps)
  ultimately show ?thesis
    using s1(2,4,5) pg fc(1) by (intro exI [of _ ?s]) simp
qed

lemma migrate_step_spec:
  assumes E: "platform_ok E" "requests_succeed E" and ok: "pebs_ok True U E s" and free: "0 < free_count s"
  shows "\<exists>r s'. migrate_step E s = Some (r, s') \<and> migrates E U r s s'"
proof (cases "queue_of s nvm_hot_list" rule: rev_cases)
  case Nil
  then have "migrate_step E s = Some (Nothing_Hot, s)"
    using dequeue_fifo_empty [OF pebs_okD(5) [OF ok] Nil] by (simp add: migrate_step_eq)
  with ok show ?thesis
    by (auto simp: migrates_def)
next
  case (snoc ys p)
  show ?thesis
  proof (cases "total_reads (payload s p) < HOT_READ_THRESHOLD")
    case True
    from migrate_step_cool [OF ok snoc True] show ?thesis by blast
  next
    case False
    obtain t where t: "migrate_step E s = try_promote 2 E p t" "core_ok True U {p} E t" "present (payload t p)"
      "\<not> in_dram (payload t p)" "\<not> enforced (payload t p)" "hot (payload t p)" "free_count t = free_count s"
      "\<And>r s'. promoted E U p t r s' \<Longrightarrow> migrates E U r s s'"
      using migrate_step_hot [OF ok snoc False] by blast
    show ?thesis
      using try_promote_spec [OF E t(2-6)] free t(1,7,8) unfolding promoted_def by metis
  qed
qed

lemma migrate_loop_spec:
  assumes E: "platform_ok E" "requests_succeed E" and "pebs_ok True U E s" and "0 < free_count s"
  shows "\<exists>out s'. migrate_loop E n s = Some (out, s') \<and> pebs_ok True U E s' \<and> same_app U E s s' \<and>
    devs s' = devs s \<and> free_count s' = free_count s"
  using assms(3,4)
proof (induction "length (queue_of s nvm_hot_list)" arbitrary: s n rule: less_induct)
  case less
  show ?case
  proof (cases "n < PEBS_KSWAPD_MIGRATE_RATE")
    case False
    then have "migrate_loop E n s = Some (False, s)"
      by (simp only: migrate_loop.simps [of E n s] if_False)
    with less.prems show ?thesis by auto
  next
    case True
    obtain r t where r: "migrate_step E s = Some (r, t)" and m: "migrates E U r s t"
      using migrate_step_spec [OF E less.prems] by blast
    from m have t: "pebs_ok True U E t" "same_app U E s t" "devs t = devs s" "free_count t = free_count s"
      by (simp_all add: migrates_def)
    consider (stop) b where "migrate_loop E n s = Some (b, t)"
      | (go) n' where "length (queue_of t nvm_hot_list) < length (queue_of s nvm_hot_list)"
        "migrate_loop E n s = migrate_loop E n' t"
    proof -
      assume stop: "\<And>b. migrate_loop E n s = Some (b, t) \<Longrightarrow> thesis"
        and go: "\<And>n'. length (queue_of t nvm_hot_list) < length (queue_of s nvm_hot_list) \<Longrightarrow>
          migrate_loop E n s = migrate_loop E n' t \<Longrightarrow> thesis"
      from m r True consider "migrate_loop E n s = Some (False, t)" | "migrate_loop E n s = Some (True, t)"
        | n' where "length (queue_of t nvm_hot_list) < length (queue_of s nvm_hot_list)"
          "migrate_loop E n s = migrate_loop E n' t"
        by (auto simp: migrates_def migrate_loop.simps [of E n s])
      then show thesis
        using stop go by cases blast+
    qed
    then show ?thesis
    proof cases
      case stop
      with t show ?thesis by blast
    next
      case go
      from less.hyps [OF go(1) t(1), of n'] t(4) less.prems(2) obtain out s' where "migrate_loop E n' t = Some (out, s')"
        "pebs_ok True U E s'" "same_app U E t s'" "devs s' = devs t" "free_count s' = free_count t"
        by auto
      with go(2) t show ?thesis
        using same_app_trans [OF t(2)] by auto
    qed
  qed
qed

section \<open>Cooling\<close>

text \<open>What cooling leaves alone: everything but the order of the hot and cold lists and its own variables.\<close>

definition still :: "('k, 'a) pebs_scheme \<Rightarrow> ('k, 'a) pebs_scheme \<Rightarrow> bool" where
  "still s s' \<longleftrightarrow> devs s' = devs s \<and> kern s' = kern s \<and> pages s' = pages s \<and> hot_ring s' = hot_ring s \<and>
     cold_ring s' = cold_ring s \<and> free_page_ring s' = free_page_ring s \<and>
     cur_cool_in_dram s' = cur_cool_in_dram s \<and> cur_cool_in_nvm s' = cur_cool_in_nvm s \<and>
     global_clock s' = global_clock s \<and> (\<forall>p. place (payload s' p) = place (payload s p))"

lemma still_refl [simp]: "still s s"
  by (simp add: still_def)

lemma still_trans: "still s t \<Longrightarrow> still t u \<Longrightarrow> still s u"
  by (simp add: still_def)

lemma still_app: "still s s' \<Longrightarrow> same_app U E s s'"
  by (auto simp: still_def same_app_def place_def)

lemma end_sweep_fields [simp]:
  "core_ok b U X E (end_sweep dram p s) = core_ok b U X E s" "payload (end_sweep dram p s) = payload s"
  "queue_of (end_sweep dram p s) = queue_of s" "page_heap (end_sweep dram p s) = page_heap s"
  "still s (end_sweep dram p s)"
  by (simp_all add: end_sweep_def still_def devs_def)

lemma end_sweep_upd: "end_sweep dram p (upd_page x f s) = upd_page x f (end_sweep dram p s)"
  by (rule pebs.equality) (simp_all add: end_sweep_def)

lemma core_flip:
  assumes ok: "core_ok b U {} E s" and x: "x \<in> set (queue_of s q)" and qq: "q' \<noteq> q"
    and f: "pay_fun f" "\<And>pg. place (f pg) = place pg" and ty: "list_typed b q' (f (payload s x))"
  shows "\<exists>s'. (page_list_remove_page q x (upd_page x f s) \<bind> enqueue_fifo q' x) = Some s' \<and>
    core_ok b U {} E s' \<and> payload s' = (payload s)(x := f (payload s x)) \<and>
    queue_of s' = (queue_of s)(q := remove1 x (queue_of s q), q' := x # queue_of s q') \<and> quiet s s'"
proof -
  note l = core_okD(1) [OF ok]
  note d = lists_okD [OF l]
  note u = upd_page_spec [OF d(1) f(1), of x]
  obtain s' where s': "(page_list_remove_page q x (upd_page x f s) \<bind> enqueue_fifo q' x) = Some s'" "mem_ok s'"
    "queue_of s' = (let c = (queue_of s)(q := remove1 x (queue_of s q)) in c(q' := x # c q'))"
    "members queue_of s' = members queue_of s" "payload s' = payload (upd_page x f s)"
    "heaps_only (upd_page x f s) s'"
    using ff.move_law [OF u(1), of x q q'] x u(2) by (auto simp: members_def)
  note pay = s'(5) [unfolded u(3)]
  have set: "set (queue_of s' r) = (if r = q' then insert x (set (queue_of s r)) else set (queue_of s r) - {x})" for r
    unfolding s'(3) by (rule set_move [OF d(1) x qq])
  have "list_typed b r (payload s' p)" if "p \<in> set (queue_of s' r)" for r p
    using that ty d(5) [of p r] unfolding set pay by (auto split: if_splits)
  then have "lists_ok b U {} s'"
    using l s'(2,4) by (simp add: lists_ok_def)
  then have "core_ok b U {} E s'"
    by (rule core_ok_cong(1) [OF _ ok]) (use heaps_only_hemem [OF s'(6)] pay f(2) in \<open>simp_all add: devs_def\<close>)
  moreover have "quiet s s'"
    using quiet_trans [OF quiet_upd quiet_heaps [OF s'(6)]] .
  ultimately show ?thesis
    using s'(1,3) pay qq by (simp add: Let_def)
qed

definition tier_hot :: "bool \<Rightarrow> fifo_id" where
  "tier_hot dram = (if dram then dram_hot_list else nvm_hot_list)"

definition tier_cold :: "bool \<Rightarrow> fifo_id" where
  "tier_cold dram = (if dram then dram_cold_list else nvm_cold_list)"

lemma tier_lists [simp]: "tier_cold d \<noteq> tier_hot d" "tier_hot d \<noteq> tier_cold d"
  by (simp_all add: tier_hot_def tier_cold_def)

lemma next_page_cases:
  assumes ok: "mem_ok s" and cur: "c = NULL \<or> c \<in> set (queue_of s q)"
  obtains "next_page q c s = Some NULL"
    | ys p zs where "queue_of s q = ys @ p # zs" "next_page q c s = Some p" "next_ptr (page_heap s p) = c" "p \<noteq> c"
proof (cases "c = NULL")
  case True
  show ?thesis
  proof (cases "queue_of s q" rule: rev_cases)
    case Nil
    with True ok show ?thesis
      using that(1) by (simp add: next_page_def last_ptr_queue)
  next
    case (snoc ys p)
    then show ?thesis
      using that(2) [of ys p "[]"] True ok prev_ptr_queue(2) [OF ok, of q ys p "[]"] queue_of_not_NULL [OF ok, of q]
      by (auto simp: next_page_def last_ptr_queue)
  qed
next
  case False
  with cur obtain ys zs where q: "queue_of s q = ys @ c # zs"
    by (meson split_list)
  show ?thesis
  proof (cases ys rule: rev_cases)
    case Nil
    then show ?thesis
      using that(1) next_page_spec [OF ok q] by simp
  next
    case (snoc xs p)
    then have q': "queue_of s q = xs @ p # c # zs"
      using q by simp
    show ?thesis
      using that(2) [OF q'] next_page_spec [OF ok q] snoc prev_ptr_queue(2) [OF ok q'] queue_of_distinct [OF ok, of q] q'
      by simp
  qed
qed

text \<open>The state reached by cooling: the cursor stays on the list and only the tier's two lists change.\<close>

definition cooled_to :: "bool \<Rightarrow> ptr set \<Rightarrow> 'k platform \<Rightarrow> ('k, 'a) pebs_scheme \<Rightarrow> ptr \<Rightarrow> ('k, 'a) pebs_scheme \<Rightarrow> bool" where
  "cooled_to dram U E s c s' \<longleftrightarrow> core_ok True U {} E s' \<and> still s s' \<and>
     (c = NULL \<or> c \<in> set (queue_of s' (tier_hot dram))) \<and>
     (\<forall>q. q \<noteq> tier_hot dram \<longrightarrow> q \<noteq> tier_cold dram \<longrightarrow> queue_of s' q = queue_of s q)"

lemma cooled_to_trans: "cooled_to dram U E s c t \<Longrightarrow> cooled_to dram U E t c' u \<Longrightarrow> cooled_to dram U E s c' u"
  using still_trans by (auto simp: cooled_to_def)

text \<open>
  How a step of a sweep moves: the list ends at the cursor, or the page \<open>p\<close> ahead of it stays and becomes the
  cursor, or it leaves the list.
\<close>

definition sweeps :: "bool \<Rightarrow> ptr \<Rightarrow> ptr option \<Rightarrow> ('k, 'a) pebs_scheme \<Rightarrow> ('k, 'a) pebs_scheme \<Rightarrow> bool" where
  "sweeps dram c r s s' \<longleftrightarrow> (case r of
     None \<Rightarrow> s' = s
   | Some c' \<Rightarrow> \<exists>ys p zs. queue_of s (tier_hot dram) = ys @ p # zs \<and> hd_or NULL zs = c \<and>
       (c' = p \<and> queue_of s' (tier_hot dram) = ys @ p # zs \<or> c' = c \<and> queue_of s' (tier_hot dram) = ys @ zs))"

lemma sweepsI:
  assumes "queue_of s (tier_hot dram) = ys @ p # zs" and "hd_or NULL zs = c"
  shows "queue_of s' (tier_hot dram) = ys @ p # zs \<Longrightarrow> sweeps dram c (Some p) s s'"
    and "queue_of s' (tier_hot dram) = ys @ zs \<Longrightarrow> sweeps dram c (Some c) s s'"
  unfolding sweeps_def option.case using assms by blast+

lemma cool_step_spec:
  assumes ok: "core_ok True U {} E s" and cur: "c = NULL \<or> c \<in> set (queue_of s (tier_hot dram))"
  shows "\<exists>r s'. cool_step (tier_hot dram) (tier_cold dram) dram c s = Some (r, s') \<and>
    cooled_to dram U E s (case r of None \<Rightarrow> c | Some c' \<Rightarrow> c') s' \<and> sweeps dram c r s s'"
proof -
  note d = lists_okD [OF core_okD(1) [OF ok]]
  from next_page_cases [OF d(1) cur] show ?thesis
  proof cases
    case 1
    with ok cur show ?thesis
      by (auto simp: cool_step_def cooled_to_def sweeps_def)
  next
    case (2 ys p zs)
    have hd: "hd_or NULL zs = c"
      using prev_ptr_queue(2) [OF d(1) 2(1)] 2(3) by simp
    have p: "p \<in> set (queue_of s (tier_hot dram))"
      using 2 by simp
    have pg: "p \<noteq> NULL" "in_dram (payload s p) = dram" "hot (payload s p)" "present (payload s p)" "\<not> enforced (payload s p)"
      using d(5) [OF p] d(4) [OF p] d(3) by (auto simp: tier_hot_def split: if_splits)
    show ?thesis
    proof (cases "cooled_reads (global_clock s) (page_heap s p) < HOT_READ_THRESHOLD")
      case False
      then have "cool_step (tier_hot dram) (tier_cold dram) dram c s = Some (Some p, end_sweep dram p s)"
        using 2 pg by (simp add: cool_step_def payload_select Let_def)
      moreover have "sweeps dram c (Some p) s (end_sweep dram p s)"
        using 2(1) by (intro sweepsI(1) [OF 2(1) hd]) simp
      ultimately show ?thesis
        using ok p by (auto simp: cooled_to_def)
    next
      case True
      let ?t = "end_sweep dram p s" and ?f = "\<lambda>p. p\<lparr>hot := False\<rparr>"
      have "list_typed True (tier_cold dram) (?f (payload ?t p))"
        using pg by (auto simp: tier_cold_def)
      then obtain s' where s': "(page_list_remove_page (tier_hot dram) p (upd_page p ?f ?t) \<bind>
          enqueue_fifo (tier_cold dram) p) = Some s'" "core_ok True U {} E s'"
        "payload s' = (payload s)(p := ?f (payload s p))"
        "queue_of s' = (queue_of s)(tier_hot dram := remove1 p (queue_of s (tier_hot dram)),
           tier_cold dram := p # queue_of s (tier_cold dram))" "quiet ?t s'"
        using core_flip [of True U E ?t p "tier_hot dram" "tier_cold dram" ?f] ok p
        by (auto simp: place_def)
      have "next_ptr (page_heap (upd_page p ?f ?t) p) = c"
        using 2(3) by simp
      then have "cool_step (tier_hot dram) (tier_cold dram) dram c s = Some (Some c, s')"
        using 2(2) pg(1) pg(2) [folded payload_select] True s'(1)
        by (simp add: cool_step_def Let_def end_sweep_upd run_elims bind_Some_iff)
      moreover have "still ?t s'"
        using ctl_eq [of s' ?t] s'(3,5) by (auto simp: still_def quiet_def ctl_def place_def)
      then have "still s s'"
        using still_trans end_sweep_fields(5) by blast
      moreover have "c = NULL \<or> c \<in> set (queue_of s' (tier_hot dram))"
        using cur 2(4) s'(4) by auto
      moreover have "queue_of s' (tier_hot dram) = ys @ zs"
        using s'(4) 2(1) queue_of_distinct [OF d(1), of "tier_hot dram"] by (simp add: remove1_append)
      then have "sweeps dram c (Some c) s s'"
        by (rule sweepsI(2) [OF 2(1) hd])
      ultimately show ?thesis
        using s'(2,4) by (auto simp: cooled_to_def)
    qed
  qed
qed

lemma cool_loop_spec:
  assumes "core_ok True U {} E s" and "c = NULL \<or> c \<in> set (queue_of s (tier_hot dram))"
  shows "\<exists>c' s'. cool_loop n (tier_hot dram) (tier_cold dram) dram c s = Some (c', s') \<and> cooled_to dram U E s c' s'"
  using assms
proof (induction n arbitrary: c s)
  case 0
  then show ?case by (simp add: cooled_to_def)
next
  case (Suc n)
  obtain r t where r: "cool_step (tier_hot dram) (tier_cold dram) dram c s = Some (r, t)"
    "cooled_to dram U E s (case r of None \<Rightarrow> c | Some c' \<Rightarrow> c') t"
    using cool_step_spec [OF Suc.prems] by metis
  show ?case
  proof (cases r)
    case None
    with r show ?thesis by simp
  next
    case (Some c')
    with r(2) have "core_ok True U {} E t" "c' = NULL \<or> c' \<in> set (queue_of t (tier_hot dram))"
      by (simp_all add: cooled_to_def)
    from Suc.IH [OF this] r Some show ?thesis
      using cooled_to_trans by fastforce
  qed
qed

definition begin_sweep :: "bool \<Rightarrow> fifo_id \<Rightarrow> ('k, 'a) pebs_scheme \<Rightarrow> ('k, 'a) pebs_scheme" where
  "begin_sweep dram q s =
     (let s = (if start_dram_page s = NULL \<and> dram then s\<lparr>start_dram_page := last_ptr (list_heap s q)\<rparr> else s)
      in if start_nvm_page s = NULL \<and> \<not> dram then s\<lparr>start_nvm_page := last_ptr (list_heap s q)\<rparr> else s)"

lemma partial_cool_eq:
  "partial_cool hotq coldq dram c s =
     (if (if dram then need_cool_dram s else need_cool_nvm s)
      then cool_loop COOLING_PAGES hotq coldq dram c (begin_sweep dram hotq s) else Some (c, s))"
  by (simp add: partial_cool_def begin_sweep_def Let_def)

lemma begin_sweep_fields [simp]:
  "core_ok b U X E (begin_sweep dram q s) = core_ok b U X E s" "queue_of (begin_sweep dram q s) = queue_of s"
  "still s (begin_sweep dram q s)"
  by (simp_all add: begin_sweep_def Let_def still_def devs_def)

lemma partial_cool_spec:
  assumes ok: "core_ok True U {} E s" and cur: "c = NULL \<or> c \<in> set (queue_of s (tier_hot dram))"
  shows "\<exists>c' s'. partial_cool (tier_hot dram) (tier_cold dram) dram c s = Some (c', s') \<and> cooled_to dram U E s c' s'"
proof -
  let ?t = "begin_sweep dram (tier_hot dram) s"
  have b: "cooled_to dram U E s c s" "cooled_to dram U E s c ?t"
    using ok cur by (simp_all add: cooled_to_def)
  have "\<exists>c' s'. cool_loop COOLING_PAGES (tier_hot dram) (tier_cold dram) dram c ?t = Some (c', s') \<and> cooled_to dram U E ?t c' s'"
    by (rule cool_loop_spec) (use ok cur in simp_all)
  with b show ?thesis
    unfolding partial_cool_eq using cooled_to_trans [OF b(2)] by auto
qed

text \<open>Both sweeps of an iteration, with the cursors the policy thread keeps.\<close>

lemma tier_folds:
  "dram_hot_list = tier_hot True" "dram_cold_list = tier_cold True"
  "nvm_hot_list = tier_hot False" "nvm_cold_list = tier_cold False"
  by (simp_all add: tier_hot_def tier_cold_def)

lemma cool_lists_spec:
  assumes ok: "pebs_ok True U E s"
  shows "\<exists>s'. cool_lists s = Some s' \<and> pebs_ok True U E s' \<and> same_app U E s s' \<and> devs s' = devs s \<and>
    free_count s' = free_count s"
proof -
  note d = pebs_okD [OF ok]
  obtain c s1 where s1: "partial_cool dram_hot_list dram_cold_list True (cur_cool_in_dram s) s = Some (c, s1)"
    "cooled_to True U E s c s1"
    using partial_cool_spec [OF d(1), of "cur_cool_in_dram s" True] d(2)
    unfolding cursors_ok_def tier_folds by blast
  have c1: "core_ok True U {} E (s1\<lparr>cur_cool_in_dram := c\<rparr>)"
    using s1(2) by (simp add: cooled_to_def)
  have q1: "queue_of s1 nvm_hot_list = queue_of s nvm_hot_list"
    using s1(2) by (simp add: cooled_to_def tier_hot_def tier_cold_def)
  have n1: "cur_cool_in_nvm s1 = cur_cool_in_nvm s"
    using s1(2) by (simp add: cooled_to_def still_def)
  obtain e s2 where s2: "partial_cool nvm_hot_list nvm_cold_list False (cur_cool_in_nvm s) (s1\<lparr>cur_cool_in_dram := c\<rparr>) = Some (e, s2)"
    "cooled_to False U E (s1\<lparr>cur_cool_in_dram := c\<rparr>) e s2"
    using partial_cool_spec [OF c1, of "cur_cool_in_nvm s" False] d(2) q1
    unfolding cursors_ok_def tier_folds by auto
  let ?s = "s2\<lparr>cur_cool_in_nvm := e\<rparr>"
  have "cool_lists s = Some ?s"
    using s1(1) s2(1) n1 by (simp add: cool_lists_def)
  moreover have cur: "cursors_ok ?s"
    using s1(2) s2(2) by (auto simp: cursors_ok_def cooled_to_def still_def tier_hot_def tier_cold_def)
  have "pebs_ok True U E ?s"
    by (rule pebs_ok_rings [OF ok _ cur]) (use s1(2) s2(2) in \<open>simp_all add: cooled_to_def still_def\<close>)
  moreover have "same_app U E s ?s"
    using still_app [of s s1 U E] still_app [of "s1\<lparr>cur_cool_in_dram := c\<rparr>" s2 U E] s1(2) s2(2)
    by (simp add: cooled_to_def same_app_def)
  moreover have "devs ?s = devs s" "free_count ?s = free_count s"
    using s1(2) s2(2) by (auto simp: cooled_to_def still_def free_count_def devs_def tier_hot_def tier_cold_def)
  ultimately show ?thesis by blast
qed

section \<open>A whole iteration\<close>

lemma spare_free:
  assumes "lists_ok True U {} s" and "p \<in> U" "\<not> present (payload s p)"
  shows "0 < free_count s"
  using absent_free [OF assms] by (auto simp: free_count_def split: if_splits)

lemma same_app_place:
  "kern s' = kern s \<Longrightarrow> \<forall>p. place (payload s' p) = place (payload s p) \<Longrightarrow> same_app U E s s'"
  by (auto simp: same_app_def place_def)

lemma pebs_policy_thread_spec:
  assumes E: "platform_ok E" "requests_succeed E" and ok: "pebs_ok False U E s"
    and spare: "p \<in> U" "\<not> present (payload s p)"
  shows "\<exists>s'. pebs_policy_thread E s = Some s' \<and> pebs_ok True U E s' \<and> same_app U E s s'"
proof -
  obtain s1 where s1: "free_loop s = Some s1" "pebs_ok True U E s1" "payload s1 = payload s" "kern s1 = kern s"
    using free_loop_spec [OF ok] by blast
  obtain s2 where s2: "hot_loop 0 s1 = Some s2" "pebs_ok True U E s2" "kern s2 = kern s1"
    "\<forall>p. place (payload s2 p) = place (payload s1 p)"
    using hot_loop_spec [OF s1(2)] by blast
  obtain s3 where s3: "cold_loop 0 s2 = Some s3" "pebs_ok True U E s3" "kern s3 = kern s2"
    "\<forall>p. place (payload s3 p) = place (payload s2 p)"
    using cold_loop_spec [OF s2(2)] by blast
  have pl: "\<forall>p. place (payload s3 p) = place (payload s p)"
    using s1(3) s2(4) s3(4) by simp
  then have "\<not> present (payload s3 p)"
    using spare(2) by (simp add: place_def)
  then have "0 < free_count s3"
    by (rule spare_free [OF pebs_okD(4) [OF s3(2)] spare(1)])
  then obtain out s4 where s4: "migrate_loop E 0 s3 = Some (out, s4)" "pebs_ok True U E s4" "same_app U E s3 s4"
    using migrate_loop_spec [OF E s3(2)] by blast
  have a: "same_app U E s s4"
    by (rule same_app_trans [OF same_app_place [OF _ pl] s4(3)]) (simp add: s1(4) s2(3) s3(3))
  have run: "pebs_policy_thread E s = (if out then Some s4 else cool_lists s4)"
    using s1(1) s2(1) s3(1) s4(1) by (simp add: pebs_policy_thread_def)
  show ?thesis
  proof (cases out)
    case True
    with run s4(2) a show ?thesis by simp
  next
    case False
    with run cool_lists_spec [OF s4(2)] same_app_trans [OF a] show ?thesis by auto
  qed
qed

end
