(* ===== verification/Boot_Lists.thy ===== *)
theory Boot_Lists
  imports Typed_Lists Hemem
begin

text \<open>
  The start-up code the policies share: a descriptor for every frame of a device, put on a free list.
\<close>

lemma mem_ok_fresh:
  assumes ok: "mem_ok s" and p: "\<forall>q. p \<notin> set (queue_of s q)" and g: "list_ptr pg = None" "prev_ptr pg = NULL"
  shows "mem_ok (upd_page p (\<lambda>_. pg) s)" and "queue_of (upd_page p (\<lambda>_. pg) s) = queue_of s"
    and "payload (upd_page p (\<lambda>_. pg) s) = (payload s)(p := strip pg)"
proof -
  have u: "list_ptr (page_heap s p) = None"
    using unlisted_iff [OF ok] p by blast
  have *: "fifo_ok (page_heap (upd_page p (\<lambda>_. pg) s)) (list_heap (upd_page p (\<lambda>_. pg) s) q) q (queue_of s q)" for q
    using mem_ok_fifo [OF ok, of q] p g u by simp (erule fifo_ok_frame; auto)
  have q: "queue_of (upd_page p (\<lambda>_. pg) s) = queue_of s"
    by (rule ext, rule queue_of_eq [OF *])
  then show "queue_of (upd_page p (\<lambda>_. pg) s) = queue_of s" .
  show "mem_ok (upd_page p (\<lambda>_. pg) s)"
    unfolding mem_ok_def q using * mem_ok_unlisted [OF ok] g by auto
  show "payload (upd_page p (\<lambda>_. pg) s) = (payload s)(p := strip pg)"
    by (simp add: payload_def fun_eq_iff)
qed

text \<open>The descriptor of the \<open>i\<close>-th frame of a device.\<close>

definition boot_page :: "bool \<Rightarrow> u64 \<Rightarrow> nat \<Rightarrow> hemem_page" where
  "boot_page dram base i =
     zero_page\<lparr>devdax_offset := of_nat i * PAGE_SIZE + base, present := False, in_dram := dram,
       pt := HUGEP\<rparr>"

lemma boot_page_links [simp]:
  "list_ptr (boot_page d b i) = None" "prev_ptr (boot_page d b i) = NULL" "strip (boot_page d b i) = boot_page d b i"
  "present (boot_page d b i) = False" "in_dram (boot_page d b i) = d" "pt (boot_page d b i) = HUGEP"
  "devdax_offset (boot_page d b i) = of_nat i * PAGE_SIZE + b" "hot (boot_page d b i) = False" "enforced (boot_page d b i) = False"
  by (simp_all add: boot_page_def zero_page_def strip_def)

lemma pagesize_to_pt_PAGE: "pagesize_to_pt PAGE_SIZE = Some HUGEP"
  by (simp add: pagesize_to_pt_def c_consts)

text \<open>
  The loop with which every policy puts the frames \<open>i, \<dots>, i + n - 1\<close> of a device on a free list;
  \<open>calloc j\<close> is the memory of the \<open>j\<close>-th descriptor.
\<close>

fun init_frames :: "(nat \<Rightarrow> ptr) \<Rightarrow> fifo_id \<Rightarrow> bool \<Rightarrow> u64 \<Rightarrow> nat \<Rightarrow> nat \<Rightarrow> 'a mem_scheme \<Rightarrow> 'a mem_scheme option" where
  "init_frames calloc q dram base i 0 s = Some s"
| "init_frames calloc q dram base i (Suc n) s = do {
     let p = calloc i;
     assert (p \<noteq> NULL);
     t \<leftarrow> pagesize_to_pt PAGE_SIZE;
     let s = upd_page p (\<lambda>_. zero_page\<lparr>devdax_offset := of_nat i * PAGE_SIZE + base, present := False,
       in_dram := dram, pt := t\<rparr>) s;
     s \<leftarrow> enqueue_fifo q p s;
     init_frames calloc q dram base (Suc i) n s
   }"

lemma init_frames_step:
  "init_frames calloc q dram base i (Suc n) s =
     (if calloc i \<noteq> NULL
      then enqueue_fifo q (calloc i) (upd_page (calloc i) (\<lambda>_. boot_page dram base i) s) \<bind>
        init_frames calloc q dram base (Suc i) n
      else None)"
  by (simp add: Let_def boot_page_def pagesize_to_pt_PAGE)

lemma init_frames_spec:
  assumes "mem_ok s" and "inj_on calloc {i..<i + n}" and "NULL \<notin> calloc ` {i..<i + n}"
    and "\<forall>q. calloc ` {i..<i + n} \<inter> set (queue_of s q) = {}"
  shows "\<exists>s'. init_frames calloc q dram base i n s = Some s' \<and> mem_ok s' \<and> heaps_only s s' \<and>
    queue_of s' = (queue_of s)(q := rev (map calloc [i..<i + n]) @ queue_of s q) \<and>
    (\<forall>j \<in> {i..<i + n}. payload s' (calloc j) = boot_page dram base j) \<and>
    (\<forall>p. p \<notin> calloc ` {i..<i + n} \<longrightarrow> payload s' p = payload s p)"
  using assms
proof (induction n arbitrary: i s)
  case 0
  then show ?case by simp
next
  case (Suc n)
  have split: "{i..<i + Suc n} = insert i {Suc i..<Suc i + n}" "i \<notin> {Suc i..<Suc i + n}"
    by auto
  have fresh: "\<forall>q. calloc i \<notin> set (queue_of s q)" and nn: "calloc i \<noteq> NULL"
  proof -
    have "calloc i \<in> calloc ` {i..<i + Suc n}"
      unfolding split(1) by simp
    with Suc.prems(3,4) show "\<forall>q. calloc i \<notin> set (queue_of s q)" "calloc i \<noteq> NULL"
      by (blast, metis)
  qed
  note u = mem_ok_fresh [OF Suc.prems(1) fresh, of "boot_page dram base i", simplified]
  let ?s1 = "upd_page (calloc i) (\<lambda>_. boot_page dram base i) s"
  obtain s2 where s2: "enqueue_fifo q (calloc i) ?s1 = Some s2" "mem_ok s2"
    "queue_of s2 = (queue_of s)(q := calloc i # queue_of s q)"
    "payload s2 = (payload s)(calloc i := boot_page dram base i)" "heaps_only ?s1 s2"
    using ff.enq_law [of ?s1 "calloc i" q] u nn fresh by auto
  have ho: "heaps_only s s2"
    using s2(5) by (simp add: heaps_only_def)
  have inj: "inj_on calloc {Suc i..<Suc i + n}" "calloc i \<notin> calloc ` {Suc i..<Suc i + n}"
    using Suc.prems(2) split by (auto simp: inj_on_insert simp del: atLeastLessThan_iff)
  have dis: "\<forall>r. calloc ` {Suc i..<Suc i + n} \<inter> set (queue_of s2 r) = {}"
  proof
    fix r
    have "calloc ` {Suc i..<Suc i + n} \<inter> set (queue_of s r) = {}"
      using Suc.prems(4) split by (auto simp del: atLeastLessThan_iff)
    then show "calloc ` {Suc i..<Suc i + n} \<inter> set (queue_of s2 r) = {}"
      using inj(2) unfolding s2(3) by auto
  qed
  have nn2: "NULL \<notin> calloc ` {Suc i..<Suc i + n}"
    using Suc.prems(3) split by auto
  obtain s' where s': "init_frames calloc q dram base (Suc i) n s2 = Some s'" "mem_ok s'" "heaps_only s2 s'"
    "queue_of s' = (queue_of s2)(q := rev (map calloc [Suc i..<Suc i + n]) @ queue_of s2 q)"
    "\<forall>j \<in> {Suc i..<Suc i + n}. payload s' (calloc j) = boot_page dram base j"
    "\<forall>p. p \<notin> calloc ` {Suc i..<Suc i + n} \<longrightarrow> payload s' p = payload s2 p"
    using Suc.IH [OF s2(2) inj(1) nn2 dis] by blast
  have "init_frames calloc q dram base i (Suc n) s = Some s'"
    using s2(1) s'(1) nn unfolding init_frames_step by simp
  moreover have "queue_of s' = (queue_of s)(q := rev (map calloc [i..<i + Suc n]) @ queue_of s q)"
  proof -
    have "[i..<i + Suc n] = i # [Suc i..<Suc i + n]"
      by (simp add: upt_rec)
    then show ?thesis
      unfolding s'(4) s2(3) by simp
  qed
  moreover have "payload s' (calloc i) = boot_page dram base i"
    using s'(6) inj(2) s2(4) by simp
  then have "\<forall>j \<in> {i..<i + Suc n}. payload s' (calloc j) = boot_page dram base j"
    using s'(5) unfolding split(1) by simp
  moreover have "\<forall>p. p \<notin> calloc ` {i..<i + Suc n} \<longrightarrow> payload s' p = payload s p"
    using s'(6) s2(4) unfolding split(1) by simp
  ultimately show ?case
    using s'(2) heaps_only_trans [OF ho s'(3)] by blast
qed

lemma boot_offset:
  fixes sz :: u64
  assumes "i < unat (sz div PAGE_SIZE)"
  shows "unat (of_nat i * PAGE_SIZE :: u64) = i * 2 ^ 21" and "i * 2 ^ 21 + 2 ^ 21 \<le> unat sz"
proof -
  have ps: "unat PAGE_SIZE = 2 ^ 21"
    by (simp add: c_consts)
  have "i < unat sz div 2 ^ 21"
    using assms ps by (simp add: unat_div)
  then show le: "i * 2 ^ 21 + 2 ^ 21 \<le> unat sz"
    by (simp add: less_eq_div_iff_mult_less_eq Suc_le_eq [symmetric])
  then have lt: "i * 2 ^ 21 < 2 ^ 64"
    using unat_less_power [of sz] by simp
  then have "unat (of_nat i :: u64) = i"
    by (simp add: unat_of_nat take_bit_nat_eq_self)
  with lt show "unat (of_nat i * PAGE_SIZE :: u64) = i * 2 ^ 21"
    using unat_mult_lem [of "of_nat i" "PAGE_SIZE :: u64"] ps by simp
qed

lemma boot_offset_inj:
  fixes sz base :: u64
  assumes "i < unat (sz div PAGE_SIZE)" "j < unat (sz div PAGE_SIZE)"
    and "of_nat i * PAGE_SIZE + base = of_nat j * PAGE_SIZE + base"
  shows "i = j"
proof -
  have "unat (of_nat i * PAGE_SIZE :: u64) = unat (of_nat j * PAGE_SIZE :: u64)"
    using assms(3) by simp
  then show ?thesis
    using boot_offset(1) [OF assms(1)] boot_offset(1) [OF assms(2)] by simp
qed

text \<open>
  The descriptors of all frames: \<open>dc i\<close> and \<open>nc i\<close> are the memory \<^verbatim>\<open>calloc\<close>
  returned for the \<open>i\<close>-th DRAM and NVM frame.
\<close>

definition dram_frames :: "('k, 'a) hemem_scheme \<Rightarrow> nat set" where
  "dram_frames s = {0..<unat (dramsize s div PAGE_SIZE)}"

definition nvm_frames :: "('k, 'a) hemem_scheme \<Rightarrow> nat set" where
  "nvm_frames s = {0..<unat (nvmsize s div PAGE_SIZE)}"

definition managed :: "(nat \<Rightarrow> ptr) \<Rightarrow> (nat \<Rightarrow> ptr) \<Rightarrow> ('k, 'a) hemem_scheme \<Rightarrow> ptr set" where
  "managed dc nc s = dc ` dram_frames s \<union> nc ` nvm_frames s"

definition callocs_ok :: "(nat \<Rightarrow> ptr) \<Rightarrow> (nat \<Rightarrow> ptr) \<Rightarrow> ('k, 'a) hemem_scheme \<Rightarrow> bool" where
  "callocs_ok dc nc s \<longleftrightarrow> inj_on dc (dram_frames s) \<and> inj_on nc (nvm_frames s) \<and>
     dc ` dram_frames s \<inter> nc ` nvm_frames s = {} \<and> NULL \<notin> managed dc nc s"

text \<open>The state after the free lists of both devices were filled.\<close>

definition tiers_booted :: "(nat \<Rightarrow> ptr) \<Rightarrow> (nat \<Rightarrow> ptr) \<Rightarrow> ('k, 'a) hemem_scheme \<Rightarrow> ('k, 'a) hemem_scheme \<Rightarrow> bool" where
  "tiers_booted dc nc s t \<longleftrightarrow> mem_ok t \<and> heaps_only s t \<and>
     queue_of t = (\<lambda>_. [])(dram_free_list := rev (map dc [0..<unat (dramsize s div PAGE_SIZE)]),
       nvm_free_list := rev (map nc [0..<unat (nvmsize s div PAGE_SIZE)])) \<and>
     (\<forall>j \<in> dram_frames s. payload t (dc j) = boot_page True (dramoffset s) j) \<and>
     (\<forall>j \<in> nvm_frames s. payload t (nc j) = boot_page False (nvmoffset s) j)"

lemma init_tiers:
  fixes s :: "('k, 'a) hemem_scheme"
  assumes s: "mem_ok s" "queue_of s = (\<lambda>_. [])" and c: "callocs_ok dc nc s"
  shows "\<exists>s1 s2. init_frames dc dram_free_list True (dramoffset s) 0 (unat (dramsize s div PAGE_SIZE)) s = Some s1 \<and>
    init_frames nc nvm_free_list False (nvmoffset s) 0 (unat (nvmsize s div PAGE_SIZE)) s1 = Some s2 \<and>
    heaps_only s s1 \<and> tiers_booted dc nc s s2"
proof -
  note cs = c [unfolded callocs_ok_def managed_def]
  obtain s1 where s1: "init_frames dc dram_free_list True (dramoffset s) 0 (unat (dramsize s div PAGE_SIZE)) s = Some s1"
    "mem_ok s1" "heaps_only s s1"
    "queue_of s1 = (\<lambda>_. [])(dram_free_list := rev (map dc [0..<unat (dramsize s div PAGE_SIZE)]))"
    "\<forall>j \<in> dram_frames s. payload s1 (dc j) = boot_page True (dramoffset s) j"
    using init_frames_spec [of s dc 0 "unat (dramsize s div PAGE_SIZE)" dram_free_list True "dramoffset s"] s cs
    by (auto simp: dram_frames_def)
  have fresh: "\<forall>q. nc ` {0..<0 + unat (nvmsize s div PAGE_SIZE)} \<inter> set (queue_of s1 q) = {}"
    using cs unfolding s1(4) by (auto simp: dram_frames_def nvm_frames_def)
  obtain s2 where s2: "init_frames nc nvm_free_list False (nvmoffset s) 0 (unat (nvmsize s div PAGE_SIZE)) s1 = Some s2"
    "mem_ok s2" "heaps_only s1 s2"
    "queue_of s2 = (queue_of s1)(nvm_free_list := rev (map nc [0..<unat (nvmsize s div PAGE_SIZE)]))"
    "\<forall>j \<in> nvm_frames s. payload s2 (nc j) = boot_page False (nvmoffset s) j"
    "\<forall>p. p \<notin> nc ` nvm_frames s \<longrightarrow> payload s2 p = payload s1 p"
    using init_frames_spec [OF s1(2) _ _ fresh, of nvm_free_list False "nvmoffset s"] cs s1(4)
    by (auto simp: nvm_frames_def)
  have pd: "\<forall>j \<in> dram_frames s. payload s2 (dc j) = boot_page True (dramoffset s) j"
  proof
    fix j
    assume j: "j \<in> dram_frames s"
    then have "dc j \<notin> nc ` nvm_frames s"
      using cs by blast
    with j s1(5) s2(6) show "payload s2 (dc j) = boot_page True (dramoffset s) j"
      by simp
  qed
  have "tiers_booted dc nc s s2"
    using s2(2,4,5) s1(4) pd heaps_only_trans [OF s1(3) s2(3)] by (simp add: tiers_booted_def)
  then show ?thesis
    using s1(1,3) s2(1) by blast
qed

text \<open>Then every managed page is on the free list of its device.\<close>

lemma tiers_booted_typed:
  assumes t: "tiers_booted dc nc s t" and c: "callocs_ok dc nc s"
    and T: "\<And>j. T dram_free_list (boot_page True (dramoffset s) j)" "\<And>j. T nvm_free_list (boot_page False (nvmoffset s) j)"
  shows "typed_lists T (managed dc nc s) {} t"
proof -
  note b = t [unfolded tiers_booted_def] and cs = c [unfolded callocs_ok_def]
  have qd: "set (queue_of t dram_free_list) = dc ` dram_frames s" "set (queue_of t nvm_free_list) = nc ` nvm_frames s"
    using b by (simp_all add: dram_frames_def nvm_frames_def)
  have qo: "queue_of t r = []" if "r \<noteq> dram_free_list" "r \<noteq> nvm_free_list" for r
    using that b by simp
  have "members queue_of t = set (queue_of t dram_free_list) \<union> set (queue_of t nvm_free_list)"
  proof -
    have "x \<in> set (queue_of t dram_free_list) \<union> set (queue_of t nvm_free_list)" if "x \<in> set (queue_of t r)" for x r
      using that qo [of r] by (cases "r = dram_free_list"; cases "r = nvm_free_list") auto
    then show ?thesis
      unfolding members_def by auto
  qed
  then have mem: "members queue_of t = managed dc nc s"
    unfolding qd managed_def .
  have "T r (payload t p)" if pr: "p \<in> set (queue_of t r)" for r p
  proof -
    consider "r = dram_free_list" | "r = nvm_free_list"
      using pr qo [of r] by (cases "r = dram_free_list"; cases "r = nvm_free_list") auto
    then show ?thesis
      using pr b qd T by cases auto
  qed
  then show ?thesis
    using b mem cs by (simp add: typed_lists_def)
qed

end
