(* ===== verification/Placement.thy ===== *)
theory Placement
  imports Tiers Boot_Lists
begin

text \<open>
  The life of a page as \<^verbatim>\<open>src/hemem.c\<close> sees it, for any policy: the frames at start-up, a page
  that is handed out and mapped by \<^verbatim>\<open>hemem_mmap_populate\<close>, and a page that is unmapped again.
\<close>

section \<open>Start-up\<close>

lemma boot_frame:
  fixes s :: "('k, 'a) hemem_scheme"
  assumes "i < unat (tier_size s dram div PAGE_SIZE)"
  shows "frame_ok s (boot_page dram (tier_base s dram) i)"
proof -
  note b = boot_offset [OF assms]
  have "unat (of_nat i * PAGE_SIZE mod PAGE_SIZE :: u64) = 0"
    unfolding unat_mod b(1) by (simp add: c_consts)
  then have "of_nat i * PAGE_SIZE mod PAGE_SIZE = (0 :: u64)"
    by (simp add: unat_eq_0)
  then show ?thesis
    using b by (simp add: frame_ok_def frame_in_def) (simp add: c_consts)
qed

text \<open>Start-up gives every descriptor its own frame, whatever the policy's typing of the free lists.\<close>

lemma boot_tiers:
  assumes b: "devices_mapped E s" "pages s = Map.empty" and c: "callocs_ok dc nc s" and tb: "tiers_booted dc nc s t"
    and T: "\<And>j. T dram_free_list (boot_page True (dramoffset s) j)" "\<And>j. T nvm_free_list (boot_page False (nvmoffset s) j)"
    and t: "devs t = devs s" "kern t = kern s" "pages t = pages s"
  shows "tiers_ok T (managed dc nc s) {} E t"
proof -
  let ?U = "managed dc nc s"
  note cs = c [unfolded callocs_ok_def]
  have l: "typed_lists T ?U {} t"
    by (rule tiers_booted_typed [OF tb c T])
  have pd: "\<forall>j \<in> dram_frames s. payload t (dc j) = boot_page True (dramoffset s) j"
    and pn: "\<forall>j \<in> nvm_frames s. payload t (nc j) = boot_page False (nvmoffset s) j"
    using tb by (simp_all add: tiers_booted_def)
  have dt: "payload t (dc j) = boot_page True (tier_base t True) j" "j < unat (tier_size t True div PAGE_SIZE)"
    if "j \<in> dram_frames s" for j
    using that pd t(1) by (simp_all add: tier_defs devs_def dram_frames_def)
  have nt: "payload t (nc j) = boot_page False (tier_base t False) j" "j < unat (tier_size t False div PAGE_SIZE)"
    if "j \<in> nvm_frames s" for j
    using that pn t(1) by (simp_all add: tier_defs devs_def nvm_frames_def)
  have "frame_ok t (payload t p)" if "p \<in> ?U" for p
    using that dt nt boot_frame [of _ t] by (auto simp: managed_def)
  moreover have "inj_on (\<lambda>p. (in_dram (payload t p), devdax_offset (payload t p))) ?U"
  proof (rule inj_onI)
    fix x y
    assume xy: "x \<in> ?U" "y \<in> ?U"
      and eq: "(in_dram (payload t x), devdax_offset (payload t x)) = (in_dram (payload t y), devdax_offset (payload t y))"
    from xy consider i j where "x = dc i" "y = dc j" "i \<in> dram_frames s" "j \<in> dram_frames s"
      | i j where "x = nc i" "y = nc j" "i \<in> nvm_frames s" "j \<in> nvm_frames s"
      | "in_dram (payload t x) \<noteq> in_dram (payload t y)"
      using dt(1) nt(1) unfolding managed_def by force
    then show "x = y"
    proof cases
      case (1 i j)
      then show ?thesis
        using eq dt boot_offset_inj [of i "tier_size t True" j] by auto
    next
      case (2 i j)
      then show ?thesis
        using eq nt boot_offset_inj [of i "tier_size t False" j] by auto
    qed (use eq in simp)
  qed
  ultimately have f: "frames_ok ?U t"
    using cs by (simp add: frames_ok_def)
  have "\<not> present (payload t p)" if "p \<in> ?U" for p
    using that dt(1) nt(1) by (auto simp: managed_def)
  moreover have "devices_mapped E t"
    using b(1) devices_mapped_cong [OF t(1), of E] t(2) by simp
  ultimately have "maps_ok ?U E t"
    using b(2) t(3) by (simp add: maps_ok_def)
  with l f show ?thesis
    by (simp add: tiers_ok_def)
qed

section \<open>Mapping a page\<close>

text \<open>The builds that clear a page before it is mapped.\<close>

definition clears :: "'k platform \<Rightarrow> bool" where
  "clears E \<longleftrightarrow> \<not> USE_DMA E \<or> LLAMA E"

lemma clear_page_spec:
  assumes E: "platform_ok E" and n: "pt_to_pagesize t = Some n" and w: "window E (kern s) dst n fd off"
  shows "\<exists>m k. clear_page E dst n s = Some (s\<lparr>memcpys := m, kern := k\<rparr>) \<and> vmap E k = vmap E (kern s) \<and>
    (\<forall>f x. dev E k (f, x) = (if clears E \<and> f = fd \<and> in_range off n x then 0 else dev E (kern s) (f, x)))"
proof -
  consider "\<not> USE_DMA E" | "USE_DMA E" "LLAMA E" | "USE_DMA E" "\<not> LLAMA E"
    by blast
  then show ?thesis
  proof cases
    case 1
    have "\<exists>s'. run_copy_threads E dst 0 n True [0, 1, 2, 3] s = Some s' \<and> copy_frame s s' \<and>
        filled E (fd, off) (fd, off) True (in_range 0 n) (kern s) (kern s')"
      by (rule parallel_filled [OF E _ _ _ w]) (use pagesize_chunks [OF n] in auto)
    then obtain m k where "run_copy_threads E dst 0 n True [0, 1, 2, 3] s = Some (s\<lparr>memcpys := m, kern := k\<rparr>)"
      "filled E (fd, off) (fd, off) True (in_range 0 n) (kern s) k"
      by (auto elim!: copy_frameE simp del: run_copy_threads.simps)
    with 1 show ?thesis
      by (intro exI [of _ m] exI [of _ k])
        (simp add: clear_page_def hemem_parallel_memset_def filled_def clears_def in_range_def del: run_copy_threads.simps)
  next
    case 2
    have "vmap E (mem_set E dst 0 n (kern s)) = vmap E (kern s) \<and> dev E (mem_set E dst 0 n (kern s)) =
        (\<lambda>(f, x). if f = fd \<and> in_range off n x then 0 else dev E (kern s) (f, x))"
      using E w unfolding platform_ok_def set_ok_def by blast
    with 2 show ?thesis
      by (intro exI [of _ "memcpys s"] exI [of _ "mem_set E dst 0 n (kern s)"]) (simp add: clear_page_def clears_def)
  next
    case 3
    then show ?thesis
      by (intro exI [of _ "memcpys s"] exI [of _ "kern s"]) (simp add: clear_page_def clears_def)
  qed
qed

text \<open>The memory after a page at address \<open>v\<close> is put on the frame \<open>(fd, off)\<close>.\<close>

definition mapped_at :: "'k platform \<Rightarrow> u64 \<Rightarrow> int \<Rightarrow> u64 \<Rightarrow> 'k \<Rightarrow> 'k \<Rightarrow> bool" where
  "mapped_at E v fd off k k' \<longleftrightarrow>
     vmap E k' = (\<lambda>x. if in_range v PAGE_SIZE x then Some (fd, off + (x - v)) else vmap E k x) \<and>
     (\<forall>f x. dev E k' (f, x) = (if clears E \<and> f = fd \<and> in_range off PAGE_SIZE x then 0 else dev E k (f, x)))"

definition placed_page :: "u64 \<Rightarrow> hemem_page \<Rightarrow> hemem_page" where
  "placed_page v pg = pg\<lparr>va := v, migrating := False, page_migrations_up := 0, page_migrations_down := 0\<rparr>"

lemma placed_page_select [simp]:
  "va (placed_page v pg) = v" "in_dram (placed_page v pg) = in_dram pg" "devdax_offset (placed_page v pg) = devdax_offset pg"
  "pt (placed_page v pg) = pt pg" "present (placed_page v pg) = present pg" "hot (placed_page v pg) = hot pg"
  "enforced (placed_page v pg) = enforced pg"
  by (simp_all add: placed_page_def)

lemma placed_page_pay: "pay_fun (placed_page v)"
  by (simp add: pay_fun_def keeps_links_def strip_def placed_page_def)

text \<open>The state after a page is mapped, up to the kernel's part and the counters.\<close>

definition placed :: "'k platform \<Rightarrow> ptr \<Rightarrow> u64 \<Rightarrow> ('k, 'a) hemem_scheme \<Rightarrow> ('k, 'a) hemem_scheme \<Rightarrow> bool" where
  "placed E p v s s' \<longleftrightarrow>
     (\<exists>m m1 n1 n2 k. s' = s\<lparr>page_heap := (page_heap s)(p := placed_page v (page_heap s p)), memcpys := m, memsets := m1,
        mem_allocated := n1, pages_allocated := n2, pages := (pages s)(v \<mapsto> p), kern := k\<rparr> \<and>
      mapped_at E v (tier_fd s (in_dram (page_heap s p))) (devdax_offset (page_heap s p)) (kern s) k)"

lemma PAGE_SIZE_pt: "pt_to_pagesize HUGEP = Some PAGE_SIZE"
  by (simp add: PAGE_SIZE_def)

lemma frame_ok_window:
  assumes "devices_mapped E s" and "frame_ok s pg"
  shows "window E (kern s) (if in_dram pg then dram_devdax_mmap s + (devdax_offset pg - dramoffset s)
      else nvm_devdax_mmap s + (devdax_offset pg - nvmoffset s)) PAGE_SIZE (tier_fd s (in_dram pg)) (devdax_offset pg)"
proof -
  have *: "unat (devdax_offset pg - tier_base s (in_dram pg)) + unat PAGE_SIZE \<le> unat (tier_size s (in_dram pg))"
    using assms(2) by (simp add: frame_ok_def frame_in_def)
  have "0 < PAGE_SIZE"
    by (simp add: c_consts)
  note g = migrate_guard [OF * this]
  show ?thesis
    using assms(1) frame_window [OF _ g _ PAGE_SIZE_pt] by (auto simp: devices_mapped_def tier_defs)
qed

lemma populate_page_spec:
  fixes s s1 :: "('k, 'a) hemem_scheme"
  assumes E: "platform_ok E" "requests_succeed E" and pf: "pagefault s = Some (p, s1)" and p: "p \<noteq> NULL"
    and dv: "devices_mapped E s1" and fr: "frame_ok s1 (page_heap s1 p)"
    and v: "v \<noteq> 0" "v mod HUGEPAGE_SIZE = 0" "pages s1 v = None"
  shows "\<exists>s'. populate_page E pagefault v s = Some (v + PAGE_SIZE, s') \<and> placed E p v s1 s'"
proof -
  let ?P = "page_heap s1 p"
  let ?tmp = "if in_dram ?P then dram_devdax_mmap s1 + (devdax_offset ?P - dramoffset s1)
      else nvm_devdax_mmap s1 + (devdax_offset ?P - nvmoffset s1)"
  have n: "pt_to_pagesize (pt ?P) = Some PAGE_SIZE"
    using fr by (simp add: frame_ok_def PAGE_HUGE)
  obtain m k1 where c: "clear_page E ?tmp PAGE_SIZE s1 = Some (s1\<lparr>memcpys := m, kern := k1\<rparr>)" "vmap E k1 = vmap E (kern s1)"
    "\<forall>f x. dev E k1 (f, x) = (if clears E \<and> f = tier_fd s1 (in_dram ?P) \<and> in_range (devdax_offset ?P) PAGE_SIZE x
       then 0 else dev E (kern s1) (f, x))"
    using clear_page_spec [OF E(1) PAGE_SIZE_pt frame_ok_window [OF dv fr]] by blast
  let ?s2 = "s1\<lparr>memcpys := m, kern := k1, memsets := memsets s1 + 1\<rparr>"
  obtain q k2 where q: "libc_mmap E v PAGE_SIZE (PROT_READ OR PROT_WRITE) (MAP_SHARED OR MAP_POPULATE OR MAP_FIXED)
      (tier_fd s1 (in_dram ?P)) (devdax_offset ?P) ?s2 = (q, ?s2\<lparr>kern := k2\<rparr>)" "q \<noteq> MAP_FAILED"
    using libc_mmap_returns [OF E(2) _ v(2), of PAGE_SIZE "PROT_READ OR PROT_WRITE" "MAP_SHARED OR MAP_POPULATE OR MAP_FIXED"
        "tier_fd s1 (in_dram ?P)" "devdax_offset ?P" ?s2] by (auto simp: c_consts)
  note mm = libc_mmap_fixed [OF E(1) q]
  obtain k3 where r: "register_uffd E q PAGE_SIZE (?s2\<lparr>kern := k2\<rparr>) = Some (?s2\<lparr>kern := k3\<rparr>)"
    using register_uffd_returns [OF E(2), of q PAGE_SIZE "?s2\<lparr>kern := k2\<rparr>"] by auto
  have sm: "same_memory E k2 k3"
    using register_uffd_kern [OF E(1) r] by simp
  let ?s' = "s1\<lparr>page_heap := (page_heap s1)(p := placed_page v ?P), memcpys := m, memsets := memsets s1 + 1,
    mem_allocated := mem_allocated s1 + PAGE_SIZE, pages_allocated := pages_allocated s1 + 1,
    pages := (pages s1)(v \<mapsto> p), kern := k3\<rparr>"
  have "populate_page E pagefault v s = Some (v + PAGE_SIZE, ?s')"
    using p n c(1) q r mm(1) v
    by (cases "in_dram ?P") (simp_all add: populate_page_def pf Let_def tier_fd_def add_page_def find_page_def placed_page_def)
  moreover have "mapped_at E v (tier_fd s1 (in_dram ?P)) (devdax_offset ?P) (kern s1) k3"
    using sm mm(3,4) c(2,3) by (simp add: mapped_at_def same_memory_def cong: if_cong)
  then have "placed E p v s1 ?s'"
    unfolding placed_def by blast
  ultimately show ?thesis by blast
qed

lemma placed_facts:
  fixes s s' :: "('k, 'a) hemem_scheme"
  assumes "placed E p v s s'" and "mem_ok s"
  shows "mem_ok s'" and "queue_of s' = queue_of s" and "payload s' = (payload s)(p := placed_page v (payload s p))"
    and "devs s' = devs s" and "pages s' = (pages s)(v \<mapsto> p)"
    and "mapped_at E v (tier_fd s (in_dram (payload s p))) (devdax_offset (payload s p)) (kern s) (kern s')"
    and "hemem.more s' = hemem.more s"
proof -
  obtain m m1 n1 n2 k where s': "s' = upd_page p (placed_page v) s\<lparr>memcpys := m, memsets := m1,
      mem_allocated := n1, pages_allocated := n2, pages := (pages s)(v \<mapsto> p), kern := k\<rparr>"
    and k: "mapped_at E v (tier_fd s (in_dram (page_heap s p))) (devdax_offset (page_heap s p)) (kern s) k"
    using assms(1) unfolding placed_def by auto
  note u = upd_page_spec [OF assms(2) placed_page_pay, of p v]
  have h: "page_heap s' = page_heap (upd_page p (placed_page v) s)" "list_heap s' = list_heap (upd_page p (placed_page v) s)"
    unfolding s' by simp_all
  note c = mem_ok_cong [OF h]
  show "mem_ok s'" "queue_of s' = queue_of s" "payload s' = (payload s)(p := placed_page v (payload s p))"
    using u(1-3) unfolding c by simp_all
  show "devs s' = devs s" "pages s' = (pages s)(v \<mapsto> p)" "hemem.more s' = hemem.more s"
    unfolding s' by (simp_all add: devs_def)
  show "mapped_at E v (tier_fd s (in_dram (payload s p))) (devdax_offset (payload s p)) (kern s) (kern s')"
    using k unfolding s' by (simp add: payload_select)
qed

text \<open>Another page does not see the new mapping: neither its addresses nor its frame are touched.\<close>

lemma mapped_at_other:
  assumes m: "mapped_at E v fd off k k'" and w: "window E k b PAGE_SIZE fs offs" and a: "in_range b PAGE_SIZE a"
    and "\<And>a. in_range v PAGE_SIZE a \<Longrightarrow> \<not> in_range b PAGE_SIZE a"
    and "fs = fd \<Longrightarrow> (\<And>x. in_range off PAGE_SIZE x \<Longrightarrow> \<not> in_range offs PAGE_SIZE x)"
  shows "load8 E k' a = load8 E k a"
proof -
  have "vmap E k a = Some (fs, offs + (a - b))"
    by (rule window_loc [OF w a])
  moreover have "\<not> in_range v PAGE_SIZE a"
    using assms(4) a by blast
  moreover have "in_range offs PAGE_SIZE (offs + (a - b))"
    using a by (simp add: in_range_def)
  with assms(5) have "fs = fd \<Longrightarrow> \<not> in_range off PAGE_SIZE (offs + (a - b))"
    by blast
  ultimately show ?thesis
    using m by (auto simp: load8_def mapped_at_def)
qed

lemma window_after_map:
  assumes "mapped_at E v fd off k k'" and "window E k b n fs offs" and "\<And>a. in_range v PAGE_SIZE a \<Longrightarrow> \<not> in_range b n a"
  shows "window E k' b n fs offs"
proof -
  have "\<not> in_range v PAGE_SIZE (b + i)" if "i < n" for i
    using assms(3) [of "b + i"] that by (auto simp: in_range_offset)
  with assms(1,2) show ?thesis
    by (simp add: window_def mapped_at_def)
qed

lemma aligned_apart:
  assumes "v mod HUGEPAGE_SIZE = 0" "w mod HUGEPAGE_SIZE = 0" "v \<noteq> w" "in_range v PAGE_SIZE a"
  shows "\<not> in_range w PAGE_SIZE a"
  using aligned_ranges_disjoint [of v 0 w a] assms by (auto simp: PAGE_HUGE)

text \<open>Mapping the page \<open>p\<close> at a free address completes the invariant.\<close>

lemma placed_tiers:
  fixes s s' :: "('k, 'a) hemem_scheme"
  assumes T: "\<And>q v pg. T q (placed_page v pg) = T q pg" and l: "typed_lists T U {} s" and f: "frames_ok U s" and m: "maps_ok (U - {p}) E s" and p: "p \<in> U" "present (payload s p)"
    and pl: "placed E p v s s'" and v: "v \<noteq> 0" "v mod HUGEPAGE_SIZE = 0" "pages s v = None" "apart s v"
  shows "tiers_ok T U {} E s'" and "same_app (U - {p}) E s s'"
proof -
  note d = placed_facts [OF pl typed_listsD(1) [OF l]]
  note tier = devs_tier [OF d(4)]
  have fds: "tier_fd s c = tier_fd s e \<longleftrightarrow> c = e" for c e
    using m by (auto simp: maps_ok_def devices_mapped_def tier_defs)
  have pl: "in_dram (payload s' x) = in_dram (payload s x)" "devdax_offset (payload s' x) = devdax_offset (payload s x)"
    "pt (payload s' x) = pt (payload s x)" "present (payload s' x) = present (payload s x)" for x
    unfolding d(3) by simp_all
  have "T q (payload s' x) = T q (payload s x)" for q x
    unfolding d(3) by (simp add: T)
  then have "typed_lists T U {} s'"
    using l d(1) unfolding typed_lists_def members_def d(2) by simp
  moreover have "frames_ok U s'"
    using f unfolding frames_ok_def frame_ok_def tier pl .
  moreover have mq: "mapped_ok E s q (payload s q)" if "q \<in> U" "q \<noteq> p" "present (payload s q)" for q
    using m that by (simp add: maps_ok_def)
  have ne: "va (payload s q) \<noteq> v" if "q \<in> U" "q \<noteq> p" "present (payload s q)" for q
    using mq [OF that] v(3) by (auto simp: mapped_ok_def)
  have ap: "\<not> in_range (va (payload s q)) PAGE_SIZE a" if "q \<in> U" "q \<noteq> p" "present (payload s q)" "in_range v PAGE_SIZE a" for q a
    using aligned_apart [OF v(2) _ _ that(4)] mq [OF that(1-3)] ne [OF that(1-3)] by (auto simp: mapped_ok_def)
  have "maps_ok U E s'"
    unfolding maps_ok_def
  proof (intro conjI ballI impI allI)
    show "devices_mapped E s'"
      using m v(4) window_after_map [OF d(6)] d(4) unfolding maps_ok_def devices_mapped_def apart_def devs_eq by auto
    show "mapped_ok E s' q (payload s' q)" if q: "q \<in> U" "present (payload s' q)" for q
    proof (cases "q = p")
      case True
      have "window E (kern s') v PAGE_SIZE (tier_fd s (in_dram (payload s p))) (devdax_offset (payload s p))"
        using d(6) by (simp add: mapped_at_def window_def in_range_offset)
      with True v show ?thesis
        by (simp add: mapped_ok_def tier pl d(5)) (simp add: d(3))
    next
      case False
      then have pr: "present (payload s q)" and va: "payload s' q = payload s q"
        using q(2) by (simp_all add: d(3))
      have "window E (kern s') (va (payload s q)) PAGE_SIZE (tier_fd s (in_dram (payload s q))) (devdax_offset (payload s q))"
        by (rule window_after_map [OF d(6)]) (use mq [OF q(1) False pr] ap [OF q(1) False pr] in \<open>auto simp: mapped_ok_def\<close>)
      with mq [OF q(1) False pr] ne [OF q(1) False pr] show ?thesis
        by (simp add: mapped_ok_def tier va d(5))
    qed
    fix w q
    assume "pages s' w = Some q"
    then have "q \<in> U \<and> present (payload s' q) \<and> va (payload s' q) = w"
      using m p by (auto simp: d(5) d(3) maps_ok_def split: if_splits)
    then show "q \<in> U" "present (payload s' q)" "va (payload s' q) = w"
      by simp_all
  qed
  ultimately show "tiers_ok T U {} E s'"
    by (simp add: tiers_ok_def)
  show "same_app (U - {p}) E s s'"
    unfolding same_app_def
  proof (intro ballI impI conjI allI)
    fix q
    assume q: "q \<in> U - {p}" "present (payload s q)"
    then show "present (payload s' q)" "va (payload s' q) = va (payload s q)"
      by (simp_all add: d(3))
    fix a
    assume a: "in_range (va (payload s q)) PAGE_SIZE a"
    show "load8 E (kern s') a = load8 E (kern s) a"
    proof (rule mapped_at_other [OF d(6) _ a])
      show "window E (kern s) (va (payload s q)) PAGE_SIZE (tier_fd s (in_dram (payload s q))) (devdax_offset (payload s q))"
        using mq q by (auto simp: mapped_ok_def)
      show "\<not> in_range (va (payload s q)) PAGE_SIZE x" if "in_range v PAGE_SIZE x" for x
        using ap [OF _ _ q(2) that] q(1) by auto
      show "\<not> in_range (devdax_offset (payload s q)) PAGE_SIZE x"
        if "tier_fd s (in_dram (payload s q)) = tier_fd s (in_dram (payload s p))" "in_range (devdax_offset (payload s p)) PAGE_SIZE x" for x
        using frame_unique [OF f p(1), of q x] q(1) that by (auto simp: fds)
    qed
  qed
qed

text \<open>What the application finds in the new page.\<close>

lemma placed_contents:
  fixes s s' :: "('k, 'a) hemem_scheme"
  assumes "placed E p v s s'" and "mem_ok s" and a: "in_range v PAGE_SIZE a"
  shows "load8 E (kern s') a = Some (if clears E then 0
    else dev E (kern s) (tier_fd s (in_dram (payload s p)), devdax_offset (payload s p) + (a - v)))"
  using placed_facts(6) [OF assms(1,2)] a by (auto simp: mapped_at_def load8_def in_range_def)

section \<open>Page faults\<close>

text \<open>What a page fault leaves: the page \<open>p\<close> is taken but not yet mapped.\<close>

definition taken :: "(fifo_id \<Rightarrow> hemem_page \<Rightarrow> bool) \<Rightarrow> ptr set \<Rightarrow> ptr \<Rightarrow> ('k, 'a) hemem_scheme \<Rightarrow> ('k, 'a) hemem_scheme \<Rightarrow> bool" where
  "taken T U p s s' \<longleftrightarrow> p \<in> U \<and> p \<noteq> NULL \<and> \<not> present (payload s p) \<and> typed_lists T U {} s' \<and>
     payload s' = (payload s)(p := (payload s p)\<lparr>present := True\<rparr>) \<and> devs s' = devs s \<and> pages s' = pages s \<and> kern s' = kern s"

lemma taken_tiers:
  assumes c: "tiers_ok T U {} E s" and h: "taken T U p s s1"
  shows "frames_ok U s1" and "maps_ok (U - {p}) E s1" and "pages s1 = pages s" and "devices_mapped E s1"
    and "frame_ok s1 (payload s1 p)" and "same_app U E s s1"
proof -
  note cd = tiers_okD [OF c]
  have e: "devs s1 = devs s" "pages s1 = pages s" "kern s1 = kern s" "p \<in> U" "\<not> present (payload s p)"
    and pay: "payload s1 = (payload s)(p := (payload s p)\<lparr>present := True\<rparr>)"
    using h by (auto simp: taken_def)
  note tier = devs_tier [OF e(1)]
  have f: "in_dram (payload s1 x) = in_dram (payload s x)" "devdax_offset (payload s1 x) = devdax_offset (payload s x)"
    "pt (payload s1 x) = pt (payload s x)" "va (payload s1 x) = va (payload s x)" for x
    unfolding pay by simp_all
  show "pages s1 = pages s" by (rule e(2))
  show fr: "frames_ok U s1"
    using cd(2) unfolding frames_ok_def frame_ok_def tier f .
  then show "frame_ok s1 (payload s1 p)"
    using e(4) by (simp add: frames_ok_def)
  show dm: "devices_mapped E s1"
    using cd(3) devices_mapped_cong [OF e(1), of E] e(3) by (simp add: maps_ok_def)
  have "mapped_ok E s1 q (payload s1 q)" if "q \<in> U - {p}" "present (payload s1 q)" for q
    using cd(3) that pay unfolding maps_ok_def mapped_ok_def f tier e(2,3) by auto
  moreover have "q \<in> U - {p} \<and> present (payload s1 q) \<and> va (payload s1 q) = v" if "pages s1 v = Some q" for v q
    using cd(3) that e(2,5) pay by (auto simp: maps_ok_def f)
  ultimately show "maps_ok (U - {p}) E s1"
    using dm by (auto simp: maps_ok_def)
  show "same_app U E s s1"
    unfolding same_app_def f e(3) pay by simp
qed

text \<open>An address at which a page can be placed: aligned, unused and outside the library's own mappings.\<close>

definition vacant :: "('k, 'a) hemem_scheme \<Rightarrow> u64 \<Rightarrow> bool" where
  "vacant s v \<longleftrightarrow> v \<noteq> 0 \<and> v mod HUGEPAGE_SIZE = 0 \<and> pages s v = None \<and> apart s v"

text \<open>A page fault of any policy: the page it finds is mapped, and no other page notices.\<close>

lemma populate_tiers:
  fixes s s1 :: "('k, 'a) hemem_scheme"
  assumes E: "platform_ok E" "requests_succeed E" and T: "\<And>q v pg. T q (placed_page v pg) = T q pg"
    and ok: "tiers_ok T U {} E s" and pf: "pagefault s = Some (p, s1)" and h: "taken T U p s s1" and v: "vacant s v"
  shows "\<exists>s'. populate_page E pagefault v s = Some (v + PAGE_SIZE, s') \<and> tiers_ok T U {} E s' \<and> placed E p v s1 s' \<and>
    same_app U E s s'"
proof -
  note t = taken_tiers [OF ok h] and hd = h [unfolded taken_def]
  have pl: "p \<in> U" "p \<noteq> NULL" "present (payload s1 p)" "typed_lists T U {} s1" "\<not> present (payload s p)"
    using hd by simp_all
  have fo: "frame_ok s1 (page_heap s1 p)"
    using t(5) by (simp add: frame_ok_def payload_select)
  have v1: "v \<noteq> 0" "v mod HUGEPAGE_SIZE = 0" "pages s1 v = None" "apart s1 v"
    using v hd devs_tier(4) [of s1 s] by (simp_all add: vacant_def)
  obtain s' where s': "populate_page E pagefault v s = Some (v + PAGE_SIZE, s')" "placed E p v s1 s'"
    using populate_page_spec [where pagefault = pagefault, OF E pf pl(2) t(4) fo v1(1-3)] by blast
  note c = placed_tiers [OF T pl(4) t(1,2) pl(1,3) s'(2) v1]
  have "same_app U E s s'"
    using t(6) c(2) pl(5) unfolding same_app_def by auto
  with s' c(1) show ?thesis by blast
qed

section \<open>Unmapping\<close>

text \<open>The page \<open>p\<close> left the table and is no longer in use.\<close>

lemma unmap_tiers:
  assumes c: "tiers_ok T U {} E s" and ty: "typed_lists T' U {} t" and p: "p \<in> U" "present (payload s p)" "va (payload s p) = v"
    and t: "payload t = (payload s)(p := f (payload s p))"
      "in_dram (f (payload s p)) = in_dram (payload s p)" "devdax_offset (f (payload s p)) = devdax_offset (payload s p)"
      "pt (f (payload s p)) = pt (payload s p)" "\<not> present (f (payload s p))"
    "devs t = devs s" "kern t = kern s" "pages t = (pages s)(v := None)"
  shows "tiers_ok T' U {} E t"
proof -
  note cd = tiers_okD [OF c]
  note tier = devs_tier [OF t(6)]
  have "frames_ok U t"
  proof -
    have f: "in_dram (payload t x) = in_dram (payload s x)" "devdax_offset (payload t x) = devdax_offset (payload s x)"
      "pt (payload t x) = pt (payload s x)" for x
      unfolding t(1) using t(2-4) by simp_all
    show ?thesis
      using cd(2) unfolding frames_ok_def frame_ok_def tier f .
  qed
  moreover have "maps_ok U E t"
    unfolding maps_ok_def
  proof (intro conjI ballI impI allI)
    show "devices_mapped E t"
      using cd(3) devices_mapped_cong [OF t(6), of E] t(7) by (simp add: maps_ok_def)
    show "mapped_ok E t q (payload t q)" if q: "q \<in> U" "present (payload t q)" for q
    proof -
      have n: "q \<noteq> p" "payload t q = payload s q" "present (payload s q)"
        using q(2) t(5) unfolding t(1) by (auto split: if_splits)
      have mq: "mapped_ok E s q (payload s q)" "mapped_ok E s p (payload s p)"
        using cd(3) q(1) n(3) p(1,2) by (simp_all add: maps_ok_def)
      then have "va (payload s q) \<noteq> v"
        using n(1) p(3) by (auto simp: mapped_ok_def)
      with mq(1) n(2) t(7,8) show ?thesis
        by (simp add: mapped_ok_def tier)
    qed
    fix w q
    assume "pages t w = Some q"
    then have w: "w \<noteq> v" "pages s w = Some q"
      using t(8) by (auto split: if_splits)
    then have "q \<in> U" "present (payload s q)" "va (payload s q) = w"
      using cd(3) by (auto simp: maps_ok_def)
    then show "q \<in> U" "present (payload t q)" "va (payload t q) = w"
      using w(1) p(3) unfolding t(1) by auto
  qed
  ultimately show ?thesis
    using ty by (simp add: tiers_ok_def)
qed

end
