(* ===== verification/Pebs_Boot.thy ===== *)
theory Pebs_Boot
  imports Pebs_Turn Placement
begin

text \<open>
  \<^verbatim>\<open>pebs_init\<close> of \<^verbatim>\<open>src/pebs.c\<close>: every frame of both devices gets a descriptor on the free list
  of its device, and the three rings are created. The lemmas show that this establishes the invariant.
\<close>

section \<open>Start-up\<close>

lemma init_free_list_eq: "init_free_list calloc q dram base i n = init_frames calloc q dram base i n"
  by (induction n arbitrary: i) (rule ext, simp add: Let_def zero_page_def)+

text \<open>The state \<^verbatim>\<open>hemem_init\<close> hands to the policy: devices mapped, no page yet.\<close>

definition booted :: "'k platform \<Rightarrow> ('k, 'a) pebs_scheme \<Rightarrow> bool" where
  "booted E s \<longleftrightarrow> mem_ok s \<and> queue_of s = (\<lambda>_. []) \<and> devices_mapped E s \<and> pages s = Map.empty \<and>
     cur_cool_in_dram s = NULL \<and> cur_cool_in_nvm s = NULL"

lemma boot_core:
  assumes b: "booted E s" and c: "callocs_ok dc nc s" and tb: "tiers_booted dc nc s t"
    and t: "devs t = devs s" "kern t = kern s" "pages t = pages s"
  shows "core_ok True (managed dc nc s) {} E t"
  using b boot_tiers [OF _ _ c tb _ _ t, of E "list_typed True"] by (simp add: booted_def)

lemma pebs_init_spec:
  assumes b: "booted E s" and c: "callocs_ok dc nc s" and bufs: "bufs 0 = Some b0" "bufs 1 = Some b1" "bufs 2 = Some b2"
  shows "\<exists>s'. pebs_init dc nc bufs s = Some s' \<and> pebs_ok True (managed dc nc s) E s' \<and> pages s' = Map.empty \<and> devs s' = devs s \<and>
    kern s' = kern s \<and> user_hint_tier s' = user_hint_tier s \<and> is_init s' = is_init s \<and> internal_call s' = internal_call s \<and>
    queue_of s' dram_free_list = rev (map dc [0..<unat (dramsize s div PAGE_SIZE)]) \<and>
    queue_of s' nvm_free_list = rev (map nc [0..<unat (nvmsize s div PAGE_SIZE)]) \<and>
    ring_list (free_page_ring s') = [] \<and> capacity (free_page_ring s') = CAPACITY"
proof -
  note bs = b [unfolded booted_def]
  obtain s1 s2 where i: "init_free_list dc dram_free_list True (dramoffset s) 0 (unat (dramsize s div PAGE_SIZE)) s = Some s1"
    "init_free_list nc nvm_free_list False (nvmoffset s) 0 (unat (nvmsize s div PAGE_SIZE)) s1 = Some s2"
    "heaps_only s s1" and t: "tiers_booted dc nc s s2"
    using init_tiers [OF _ _ c] bs unfolding init_free_list_eq by blast
  have dv: "nvmoffset s1 = nvmoffset s" "nvmsize s1 = nvmsize s"
    using heaps_only_rest(1) [OF i(3)] by (simp_all add: devs_def)
  note s2 = t [unfolded tiers_booted_def]
  have e: "devs s2 = devs s" "ctl s2 = ctl s" "kern s2 = kern s"
    using heaps_only_rest [of s s2] s2 by blast+
  have ho: "heaps_only s s2"
    using s2 by blast
  have f: "is_init s2 = is_init s" "internal_call s2 = internal_call s"
    by (subst heaps_only_eq [OF ho], simp)+
  have core: "core_ok True (managed dc nc s) {} E s2"
    by (rule boot_core [OF b c t e(1,3)]) (use e(2) in \<open>simp add: ctl_def\<close>)
  obtain x y z where r: "ring_buf_init (bufs 0) CAPACITY True = Some x" "ring_ok x" "ring_list x = []"
    "ring_buf_init (bufs 1) CAPACITY True = Some y" "ring_ok y" "ring_list y = []"
    "ring_buf_init (bufs 2) CAPACITY True = Some z" "ring_ok z" "ring_list z = []" "capacity z = CAPACITY"
    using ring_init_law [of CAPACITY b0] ring_init_law [of CAPACITY b1] ring_init_law [of CAPACITY b2] bufs
    by (auto simp: CAPACITY_def)
  let ?s = "s2\<lparr>hot_ring := x, cold_ring := y, free_page_ring := z\<rparr>"
  have "pebs_init dc nc bufs s = Some ?s"
    using i(1,2) dv r by (simp add: pebs_init_def)
  moreover have core': "core_ok True (managed dc nc s) {} E ?s"
    using core by simp
  then have "pebs_ok True (managed dc nc s) E ?s"
    using settled_absent [OF core_okD(1) [OF core']] r e(2) bs
    by (simp add: pebs_ok_def rings_ok_def cursors_ok_def ctl_def)
  ultimately show ?thesis
    using e f s2 r(9,10) bs by (intro exI [of _ ?s]) (simp add: ctl_def devs_def)
qed

end
