(* ===== verification/Pebs_Calls.thy ===== *)
theory Pebs_Calls
  imports Pebs_Boot
begin

text \<open>
  The calls of the application into the policy of \<^verbatim>\<open>src/pebs.c\<close>: a page fault takes a free page
  and \<^verbatim>\<open>src/hemem.c\<close> maps it, unmapping posts the page on the free ring, and the sampling thread
  counts accesses. Each keeps the invariant and leaves the other pages alone.
\<close>

section \<open>Handing out a page\<close>

definition tier_free :: "bool \<Rightarrow> fifo_id" where
  "tier_free dram = (if dram then dram_free_list else nvm_free_list)"

lemma tier_free_lists [simp]:
  "tier_free d \<noteq> tier_hot e" "tier_free d \<noteq> tier_cold e" "tier_hot e \<noteq> tier_free d" "tier_cold e \<noteq> tier_free d"
  by (simp_all add: tier_free_def tier_hot_def tier_cold_def)

lemma on_free_list_tier: "on_free_list s p \<longleftrightarrow> (\<exists>d. p \<in> set (queue_of s (tier_free d)))"
  by (simp add: on_free_list_def tier_free_def ex_bool_eq)

text \<open>What a page fault leaves: the page \<open>p\<close> is taken but not yet mapped.\<close>

definition handed_out :: "bool \<Rightarrow> ptr set \<Rightarrow> ptr \<Rightarrow> ('k, 'a) pebs_scheme \<Rightarrow> ('k, 'a) pebs_scheme \<Rightarrow> bool" where
  "handed_out b U p s s' \<longleftrightarrow> p \<in> U \<and> p \<noteq> NULL \<and> \<not> present (payload s p) \<and> lists_ok b U {} s' \<and>
     payload s' = (payload s)(p := (payload s p)\<lparr>present := True\<rparr>) \<and> quiet s s' \<and> cursors_ok s' \<and> rings_ok U s'"

lemma hand_out_spec:
  assumes l: "lists_ok b U {} s" and c: "cursors_ok s" and r: "rings_ok U s" and q: "queue_of s (tier_free dram) = ys @ [p]"
  shows "\<exists>s1 s'. dequeue_fifo (tier_free dram) s = Some (p, s1) \<and> payload s1 = payload s \<and>
    in_dram (payload s p) = dram \<and>
    enqueue_fifo (tier_cold dram) p (upd_page p (\<lambda>p. p\<lparr>present := True\<rparr>) s1) = Some s' \<and> handed_out b U p s s' \<and>
    queue_of s' = (queue_of s)(tier_free dram := ys, tier_cold dram := p # queue_of s (tier_cold dram))"
proof -
  note d = TrueI c r l lists_okD(1) [OF l]
  have pq: "p \<in> set (queue_of s (tier_free dram))"
    using q by simp
  have p: "p \<in> U" "p \<noteq> NULL" "\<not> present (payload s p)" "in_dram (payload s p) = dram" "\<not> hot (payload s p)"
    "\<not> enforced (payload s p)"
    using lists_okD(5) [OF d(4) pq] lists_okD(4) [OF d(4) pq] lists_okD(3) [OF d(4)]
    by (auto simp: tier_free_def split: if_splits)
  obtain s1 where s1: "dequeue_fifo (tier_free dram) s = Some (p, s1)" "lists_ok b U {p} s1"
    "queue_of s1 = (queue_of s)(tier_free dram := ys)" "payload s1 = payload s" "heaps_only s s1"
    using lists_ok_deq [OF d(4) q] by auto
  let ?f = "\<lambda>p. p\<lparr>present := True\<rparr>"
  note u = upd_page_spec [OF lists_okD(1) [OF s1(2)] pay_fun_intros(2), of p True]
  have l: "lists_ok b U {p} (upd_page p ?f s1)"
    by (rule lists_ok_upd [OF s1(2)]) simp_all
  have "list_typed b (tier_cold dram) (payload (upd_page p ?f s1) p)"
    using p unfolding u(3) s1(4) by (auto simp: tier_cold_def)
  then obtain s' where s': "enqueue_fifo (tier_cold dram) p (upd_page p ?f s1) = Some s'" "lists_ok b U {} s'"
    "queue_of s' = (queue_of s1)(tier_cold dram := p # queue_of s1 (tier_cold dram))"
    "payload s' = (payload s)(p := ?f (payload s p))" "heaps_only (upd_page p ?f s1) s'"
    using lists_ok_enq [OF l, of p "tier_cold dram"] unfolding u(2,3) s1(4) by auto
  have qt: "quiet s s'"
    using quiet_heaps [OF s1(5)] quiet_heaps [OF s'(5)] quiet_upd quiet_trans by blast
  note c = ctl_eq [of s' s] 
  have hot: "queue_of s' (tier_hot e) = queue_of s (tier_hot e)" for e
    unfolding s'(3) s1(3) by (cases e; cases dram) (simp_all add: tier_hot_def tier_cold_def tier_free_def)
  have "cursors_ok s'"
    using d(2) c qt hot [of True] hot [of False] by (simp add: cursors_ok_def quiet_def tier_hot_def)
  moreover have fr: "set (queue_of s' (tier_free e)) = set (queue_of s (tier_free e)) - {p}" for e
  proof -
    have "p \<notin> set ys" "p \<notin> set (queue_of s (tier_free (\<not> dram)))"
      using q queue_of_distinct [OF d(5), of "tier_free dram"] queue_of_disjoint [OF d(5) pq, of "tier_free (\<not> dram)"]
      by (auto simp: tier_free_def split: if_splits)
    then show ?thesis
      using q unfolding s'(3) s1(3) by (cases e; cases dram) (auto simp: tier_free_def tier_cold_def)
  qed
  have "{x \<in> U. \<not> present (payload s' x) \<and> \<not> on_free_list s' x} =
      {x \<in> U. \<not> present (payload s x) \<and> \<not> on_free_list s x}"
    using pq p(3) unfolding on_free_list_tier fr s'(4) by auto
  then have "rings_ok U s'"
    using d(3) c qt by (simp add: rings_ok_def quiet_def)
  ultimately have "handed_out b U p s s'"
    using p s'(2,4) qt by (simp add: handed_out_def)
  moreover have "queue_of s' = (queue_of s)(tier_free dram := ys, tier_cold dram := p # queue_of s (tier_cold dram))"
    unfolding s'(3) s1(3) by simp
  ultimately show ?thesis
    using s1(1,4) s'(1) p(4) by blast
qed

lemma pebs_allocate_page_eq:
  "pebs_allocate_page s = (dequeue_fifo (tier_free True) s \<bind> (\<lambda>(page, s).
     if page \<noteq> NULL then
       (if in_dram (page_heap s page) \<and> \<not> present (page_heap s page)
        then enqueue_fifo (tier_cold True) page (upd_page page (\<lambda>p. p\<lparr>present := True\<rparr>) s) \<bind> (\<lambda>s. Some (page, s)) else None)
     else dequeue_fifo (tier_free False) s \<bind> (\<lambda>(page, s).
       if page \<noteq> NULL then
         (if \<not> in_dram (page_heap s page) \<and> \<not> present (page_heap s page)
          then enqueue_fifo (tier_cold False) page (upd_page page (\<lambda>p. p\<lparr>present := True\<rparr>) s) \<bind> (\<lambda>s. Some (page, s)) else None)
       else None)))"
  unfolding pebs_allocate_page_def tier_free_def tier_cold_def Let_def if_True if_False
  by (cases "dequeue_fifo dram_free_list s"; simp add: assert_def split: prod.splits)
    (auto simp: assert_def intro!: arg_cong [where f = "Option.bind _"] split: option.splits prod.splits)

text \<open>A page is found as long as a free list has one, in DRAM when there is one.\<close>

lemma pebs_allocate_page_spec:
  assumes ok: "lists_ok b U {} s" "cursors_ok s" "rings_ok U s" and free: "0 < free_count s"
  shows "\<exists>p s' dram. pebs_allocate_page s = Some (p, s') \<and> handed_out b U p s s' \<and>
    in_dram (payload s p) = dram \<and> (dram \<longleftrightarrow> queue_of s dram_free_list \<noteq> []) \<and>
    p = last (queue_of s (tier_free dram)) \<and>
    queue_of s' = (queue_of s)(tier_free dram := butlast (queue_of s (tier_free dram)),
      tier_cold dram := p # queue_of s (tier_cold dram))"
proof (cases "queue_of s (tier_free True)" rule: rev_cases)
  case (snoc ys p)
  then show ?thesis
    using hand_out_spec [OF ok snoc] unfolding pebs_allocate_page_eq handed_out_def
    by (fastforce simp: payload_select tier_free_def)
next
  case Nil
  have e: "dequeue_fifo (tier_free True) s = Some (NULL, s)"
    by (rule dequeue_fifo_empty [OF lists_okD(1) [OF ok(1)] Nil])
  obtain ys p where snoc: "queue_of s (tier_free False) = ys @ [p]"
    using free Nil by (cases "queue_of s (tier_free False)" rule: rev_cases) (auto simp: free_count_def tier_free_def)
  show ?thesis
    using hand_out_spec [OF ok snoc] Nil snoc unfolding pebs_allocate_page_eq e handed_out_def
    by (fastforce simp: payload_select tier_free_def)
qed

section \<open>The application's calls and the sampling thread\<close>

lemma more_ctl:
  fixes s s' :: "('k, 'a) pebs_scheme"
  assumes "hemem.more s' = hemem.more s"
  shows "hot_ring s' = hot_ring s" "cold_ring s' = cold_ring s" "free_page_ring s' = free_page_ring s"
    "cur_cool_in_dram s' = cur_cool_in_dram s" "cur_cool_in_nvm s' = cur_cool_in_nvm s"
    "user_hint_tier s' = user_hint_tier s"
  using assms by (cases s; cases s'; simp)+

lemma placed_typed: "list_typed b q (placed_page v pg) = list_typed b q pg"
  by (rule list_typed_cong) simp_all

lemma handed_out_taken: "handed_out b U p s s1 \<Longrightarrow> taken (list_typed b) U p s s1"
  using ctl_eq [of s1 s] by (auto simp: handed_out_def taken_def quiet_def)

text \<open>Touching a new page: the page the policy found is now mapped at \<open>v\<close>.\<close>

definition touched :: "'k platform \<Rightarrow> ptr set \<Rightarrow> u64 \<Rightarrow> ptr \<Rightarrow> ('k, 'a) pebs_scheme \<Rightarrow> ('k, 'a) pebs_scheme \<Rightarrow> bool" where
  "touched E U v p s s' \<longleftrightarrow> p \<in> U \<and> \<not> present (payload s p) \<and> present (payload s' p) \<and> va (payload s' p) = v \<and>
     pages s' = (pages s)(v \<mapsto> p) \<and> devs s' = devs s \<and> user_hint_tier s' = user_hint_tier s \<and>
     free_page_ring s' = free_page_ring s \<and> cur_cool_in_dram s' = cur_cool_in_dram s \<and> cur_cool_in_nvm s' = cur_cool_in_nvm s \<and>
     queue_of s' dram_hot_list = queue_of s dram_hot_list \<and> queue_of s' nvm_hot_list = queue_of s nvm_hot_list \<and>
     same_app U E s s' \<and> free_count s = Suc (free_count s') \<and>
     (in_dram (payload s' p) \<longleftrightarrow> queue_of s dram_free_list \<noteq> []) \<and>
     (clears E \<longrightarrow> (\<forall>a. in_range v PAGE_SIZE a \<longrightarrow> load8 E (kern s') a = Some 0))"

lemma populate_pebs_spec:
  assumes E: "platform_ok E" "requests_succeed E" and ok: "pebs_ok b U E s" and free: "0 < free_count s"
    and hint: "user_hint_tier s \<noteq> 0" and v: "vacant s v"
  shows "\<exists>p s'. populate_page E (pebs_pagefault E) v s = Some (v + PAGE_SIZE, s') \<and> pebs_ok b U E s' \<and> touched E U v p s s'"
proof -
  obtain p s1 dram where a: "pebs_allocate_page s = Some (p, s1)" "handed_out b U p s s1"
    "in_dram (payload s p) = dram" "dram \<longleftrightarrow> queue_of s dram_free_list \<noteq> []" "p = last (queue_of s (tier_free dram))"
    "queue_of s1 = (queue_of s)(tier_free dram := butlast (queue_of s (tier_free dram)),
      tier_cold dram := p # queue_of s (tier_cold dram))"
    using pebs_allocate_page_spec [OF pebs_okD(4,2,3) [OF ok] free] by blast
  have p: "p \<noteq> NULL" "p \<in> U" "\<not> present (payload s p)" "present (payload s1 p)" "lists_ok b U {} s1" "quiet s s1"
    "payload s1 = (payload s)(p := (payload s p)\<lparr>present := True\<rparr>)" "cursors_ok s1" "rings_ok U s1"
    using a(2) by (auto simp: handed_out_def)
  have pf: "pebs_pagefault E s = Some (p, s1)"
    using hint a(1) p(1) by (simp add: pebs_pagefault_def)
  obtain s' where s': "populate_page E (pebs_pagefault E) v s = Some (v + PAGE_SIZE, s')" "placed E p v s1 s'"
    and c: "core_ok b U {} E s'" and app: "same_app U E s s'"
    using populate_tiers [where pagefault = "pebs_pagefault E", OF E placed_typed pebs_okD(1) [OF ok] pf handed_out_taken [OF a(2)] v]
    by blast
  have ps: "pages s1 = pages s"
    using ctl_eq [of s1 s] p(6) by (simp add: quiet_def)
  note d = placed_facts [OF s'(2) lists_okD(1) [OF p(5)]] and m = more_ctl [OF placed_facts(7) [OF s'(2) lists_okD(1) [OF p(5)]]]
  have pr: "present (payload s' x) = present (payload s1 x)" for x
    unfolding d(3) by simp
  have "cursors_ok s'" "rings_ok U s'"
    using p(8,9) unfolding cursors_ok_def rings_ok_def on_free_list_def m d(2) pr by simp_all
  with c have ok': "pebs_ok b U E s'"
    by (simp add: pebs_ok_def)
  have ne: "queue_of s (tier_free dram) \<noteq> []"
    using a(4) free by (cases dram) (auto simp: tier_free_def free_count_def)
  have cnt: "free_count s = Suc (free_count s')"
    using ne unfolding free_count_def d(2) a(6)
    by (cases dram) (auto simp: tier_free_def tier_cold_def length_butlast neq_Nil_conv)
  have z: "clears E \<longrightarrow> (\<forall>a. in_range v PAGE_SIZE a \<longrightarrow> load8 E (kern s') a = Some 0)"
    using placed_contents [OF s'(2) lists_okD(1) [OF p(5)]] by simp
  have q1: "devs s1 = devs s" "user_hint_tier s1 = user_hint_tier s" "free_page_ring s1 = free_page_ring s"
    "cur_cool_in_dram s1 = cur_cool_in_dram s" "cur_cool_in_nvm s1 = cur_cool_in_nvm s"
    using p(6) by (simp_all add: quiet_def ctl_def)
  have hq: "queue_of s' dram_hot_list = queue_of s dram_hot_list" "queue_of s' nvm_hot_list = queue_of s nvm_hot_list"
    unfolding d(2) a(6) by (simp_all add: tier_free_def tier_cold_def)
  have pp: "present (payload s' p)" "va (payload s' p) = v" "in_dram (payload s' p) \<longleftrightarrow> queue_of s dram_free_list \<noteq> []"
    using p(4) a(3,4) unfolding d(3) p(7) by simp_all
  have "touched E U v p s s'"
    unfolding touched_def using p(2,3) app cnt z pp q1 d(4,5) ps m(3-6) hq by simp
  with s'(1) ok' show ?thesis by blast
qed

text \<open>Freeing: the page leaves the table and waits on the free ring for the policy thread.\<close>

definition released_page :: "hemem_page \<Rightarrow> hemem_page" where
  "released_page pg = pg\<lparr>present := False, hot := False, accesses := (\<lambda>_. 0), tot_accesses := (\<lambda>_. 0)\<rparr>"

lemma released_page_select [simp]:
  "present (released_page pg) = False" "hot (released_page pg) = False" "in_dram (released_page pg) = in_dram pg"
  "devdax_offset (released_page pg) = devdax_offset pg" "pt (released_page pg) = pt pg" "va (released_page pg) = va pg"
  "enforced (released_page pg) = enforced pg" "pay_fun released_page"
  by (simp_all add: released_page_def pay_fun_def keeps_links_def strip_def)

text \<open>The free ring always has room when it is larger than the number of managed pages.\<close>

lemma free_ring_room:
  assumes "rings_ok U s" and "finite U" and "p \<in> U" and "present (payload s p)"
    and "card U < unat (capacity (free_page_ring s))"
  shows "\<not> ring_buf_full (free_page_ring s)"
proof -
  have r: "ring_ok (free_page_ring s)" "distinct (ring_list (free_page_ring s))" "set (ring_list (free_page_ring s)) \<subseteq> U - {p}"
    using assms(1,4) by (auto simp: rings_ok_def)
  have "length (ring_list (free_page_ring s)) \<le> card (U - {p})"
    using distinct_card [OF r(2)] card_mono [OF _ r(3)] assms(2) by simp
  also have "\<dots> < card U"
    using assms(2,3) by (rule card_Diff1_less)
  finally show ?thesis
    using assms(5) ring_list_full [OF r(1)] by simp
qed

definition released :: "ptr set \<Rightarrow> u64 \<Rightarrow> ptr \<Rightarrow> ('k, 'a) pebs_scheme \<Rightarrow> ('k, 'a) pebs_scheme \<Rightarrow> bool" where
  "released U v p s s' \<longleftrightarrow> p \<in> U \<and> present (payload s p) \<and> va (payload s p) = v \<and>
     payload s' = (payload s)(p := released_page (payload s p)) \<and> pages s' = (pages s)(v := None) \<and> kern s' = kern s \<and>
     queue_of s' = queue_of s \<and> devs s' = devs s \<and> user_hint_tier s' = user_hint_tier s \<and>
     ring_list (free_page_ring s') = ring_list (free_page_ring s) @ [p] \<and>
     capacity (free_page_ring s') = capacity (free_page_ring s) \<and> hot_ring s' = hot_ring s \<and> cold_ring s' = cold_ring s"

lemma unmap_core:
  assumes c: "core_ok False U {} E s" and p: "p \<in> U" "present (payload s p)" "va (payload s p) = v"
    and t: "mem_ok t" "queue_of t = queue_of s" "payload t = (payload s)(p := released_page (payload s p))"
    "devs t = devs s" "kern t = kern s" "pages t = (pages s)(v := None)"
  shows "core_ok False U {} E t"
proof -
  note l = lists_okD [OF core_okD(1) [OF c]]
  have "list_typed False q (payload t x)" if x: "x \<in> set (queue_of s q)" for x q
  proof (cases "x = p")
    case True
    with l(5) [OF x] p(2) show ?thesis
      unfolding t(3) by (cases q) auto
  next
    case False
    with l(5) [OF x] show ?thesis
      unfolding t(3) by simp
  qed
  then have "lists_ok False U {} t"
    using core_okD(1) [OF c] t(1) unfolding lists_ok_def members_def t(2) by simp
  from unmap_tiers [where f = released_page, OF c this p t(3) _ _ _ _ t(4-6)] show ?thesis
    by simp
qed

lemma unmap_pebs_spec:
  assumes ok: "pebs_ok b U E s" and room: "\<not> ring_buf_full (free_page_ring s)" and v: "pages s v = Some p"
  shows "\<exists>s'. unmap_page pebs_remove_page v s = Some (v + PAGE_SIZE, s') \<and> pebs_ok False U E s' \<and> released U v p s s'"
proof -
  have c: "core_ok False U {} E s"
    using pebs_okD(1) [OF ok] core_ok_weaken by (cases b) auto
  note d = pebs_okD [OF ok]
  have p: "p \<in> U" "present (payload s p)" "va (payload s p) = v" "p \<noteq> NULL"
    using core_okD(3) [OF c] v lists_okD(3) [OF d(4)] by (auto simp: maps_ok_def)
  have hp: "pages s w = Some p \<longleftrightarrow> w = v" for w
  proof
    assume "pages s w = Some p"
    with core_okD(3) [OF c] have "va (payload s p) = w"
      by (simp add: maps_ok_def)
    with p(3) show "w = v" by simp
  qed (use v in simp)
  have pt: "pt (payload s p) = HUGEP"
    using core_okD(2) [OF c] p(1) by (simp add: frames_ok_def frame_ok_def)
  note u = upd_page_spec [OF d(5) released_page_select(8), of p]
  have rk: "ring_ok (free_page_ring s)"
    using d(3) by (simp add: rings_ok_def)
  note rp = ring_put_law [OF rk room, of p]
  let ?m = "upd_page p released_page s"
  let ?s = "s\<lparr>pages := (pages s)(v := None), free_page_ring := ring_buf_put p (free_page_ring s),
     page_heap := (page_heap s)(p := released_page (page_heap s p)), mem_allocated := mem_allocated s - PAGE_SIZE, mem_mmaped := mem_mmaped s - PAGE_SIZE, pages_freed := pages_freed s + 1\<rparr>"
  have "remove_page p s = s\<lparr>pages := (pages s)(v := None)\<rparr>"
    by (rule hemem.equality) (simp_all add: remove_page_def fun_eq_iff hp)
  then have run: "unmap_page pebs_remove_page v s = Some (v + PAGE_SIZE, ?s)"
    using v p(4) room pt [folded payload_select]
    by (simp add: unmap_page_def find_page_def pebs_remove_page_def Let_def released_page_def PAGE_SIZE_def)
  have h: "page_heap ?s = page_heap ?m" "list_heap ?s = list_heap ?m"
    by simp_all
  note cg = mem_ok_cong [OF h]
  have t: "mem_ok ?s" "queue_of ?s = queue_of s" "payload ?s = (payload s)(p := released_page (payload s p))"
    using u(1-3) unfolding cg by simp_all
  have core: "core_ok False U {} E ?s"
    by (rule unmap_core [OF c p(1-3) t]) (simp_all add: devs_def)
  have "{x \<in> U. \<not> present (payload ?s x) \<and> \<not> on_free_list ?s x} =
      insert p {x \<in> U. \<not> present (payload s x) \<and> \<not> on_free_list s x}"
  proof -
    have "p \<in> set (queue_of s (home (payload s p)))"
      by (rule present_home [OF d(4) p(1,2)])
    then have "\<not> on_free_list s p"
      using queue_of_disjoint [OF d(5)] home_not_free unfolding on_free_list_def by metis
    then show ?thesis
      using p(1) unfolding on_free_list_def t(2,3) by auto
  qed
  moreover have "p \<notin> set (ring_list (free_page_ring s))"
    using d(3) p(2) by (auto simp: rings_ok_def)
  ultimately have "rings_ok U ?s"
    using d(3) rp unfolding rings_ok_def by simp
  moreover have "cursors_ok ?s"
    using d(2) t(2) by (simp add: cursors_ok_def)
  ultimately have "pebs_ok False U E ?s"
    using core by (simp add: pebs_ok_def)
  moreover have "released U v p s ?s"
    unfolding released_def t using p rp by (simp add: devs_def)
  ultimately show ?thesis
    using run by blast
qed

text \<open>Sampling changes counters and posts requests; it never touches the lists or memory.\<close>

lemma ring_put_any:
  assumes "ring_ok r" and "set (ring_list r) \<subseteq> U" and "p \<in> U"
  shows "ring_ok (ring_buf_put p r)" and "set (ring_list (ring_buf_put p r)) \<subseteq> U"
proof -
  have "set (tl (ring_list r)) \<subseteq> U"
    using assms(2) by (cases "ring_list r") auto
  then show "ring_ok (ring_buf_put p r)" "set (ring_list (ring_buf_put p r)) \<subseteq> U"
    using assms ring_put_law [OF assms(1), of p] ring_put_overwrites [OF assms(1), of p]
    by (cases "ring_buf_full r"; simp)+
qed

text \<open>What sampling may do to the state.\<close>

definition sampled :: "ptr set \<Rightarrow> ('k, 'a) pebs_scheme \<Rightarrow> ('k, 'a) pebs_scheme \<Rightarrow> bool" where
  "sampled U s s' \<longleftrightarrow> mem_ok s' \<and> queue_of s' = queue_of s \<and> devs s' = devs s \<and> pages s' = pages s \<and> kern s' = kern s \<and>
     free_page_ring s' = free_page_ring s \<and> cur_cool_in_dram s' = cur_cool_in_dram s \<and>
     cur_cool_in_nvm s' = cur_cool_in_nvm s \<and> user_hint_tier s' = user_hint_tier s \<and>
     (\<forall>p. place (payload s' p) = place (payload s p) \<and> hot (payload s' p) = hot (payload s p) \<and>
        enforced (payload s' p) = enforced (payload s p)) \<and>
     (ring_ok (hot_ring s) \<and> set (ring_list (hot_ring s)) \<subseteq> U \<longrightarrow>
        ring_ok (hot_ring s') \<and> set (ring_list (hot_ring s')) \<subseteq> U) \<and>
     (ring_ok (cold_ring s) \<and> set (ring_list (cold_ring s)) \<subseteq> U \<longrightarrow>
        ring_ok (cold_ring s') \<and> set (ring_list (cold_ring s')) \<subseteq> U)"

lemma sampled_refl: "mem_ok s \<Longrightarrow> sampled U s s"
  by (simp add: sampled_def)

lemma sampled_trans: "sampled U s t \<Longrightarrow> sampled U t u \<Longrightarrow> sampled U s u"
  by (simp add: sampled_def)

lemma sampled_upd:
  assumes "mem_ok s" and "pay_fun f" and "\<And>pg. place (f pg) = place pg" "\<And>pg. hot (f pg) = hot pg"
    "\<And>pg. enforced (f pg) = enforced pg"
  shows "sampled U s (upd_page p f s)"
proof -
  note u = upd_page_spec [OF assms(1,2), of p]
  show ?thesis
    unfolding sampled_def u(2,3) using u(1) assms(3-5) by (simp add: devs_def)
qed

lemma sampled_counters:
  assumes "mem_ok s"
  shows "sampled U s (s\<lparr>accesses_cnt := x1, core_accesses_cnt := x2\<rparr>)" "sampled U s (s\<lparr>global_clock := x3, cools := x4,
      need_cool_dram := x5, need_cool_nvm := x6\<rparr>)"
    "sampled U s (s\<lparr>hemem_pages_cnt := x7\<rparr>)" "sampled U s (s\<lparr>other_pages_cnt := x8\<rparr>)"
    "sampled U s (s\<lparr>total_pages_cnt := x9\<rparr>)" "sampled U s (s\<lparr>zero_pages_cnt := y1\<rparr>)"
    "sampled U s (s\<lparr>throttle_cnt := y2\<rparr>)" "sampled U s (s\<lparr>unthrottle_cnt := y3\<rparr>)"
  using assms by (simp_all add: sampled_def devs_def)

lemma sampled_request:
  assumes ok: "mem_ok s" and p: "p \<in> U"
  shows "sampled U s (make_hot_request p s)" and "sampled U s (make_cold_request p s)"
proof -
  let ?t = "upd_page p (\<lambda>p. p\<lparr>ring_present := True\<rparr>) s"
  have t: "sampled U s ?t"
    by (rule sampled_upd [OF ok]) (simp_all add: place_def)
  then have m: "mem_ok ?t"
    by (simp add: sampled_def)
  have "sampled U ?t (?t\<lparr>hot_ring := ring_buf_put p (hot_ring ?t)\<rparr>)" "sampled U ?t (?t\<lparr>cold_ring := ring_buf_put p (cold_ring ?t)\<rparr>)"
    using m ring_put_any [OF _ _ p] by (simp_all add: sampled_def devs_def)
  then show "sampled U s (make_hot_request p s)" "sampled U s (make_cold_request p s)"
    unfolding make_hot_request_def make_cold_request_def Let_def using sampled_trans [OF t] by blast+
qed

lemma sampled_mem: "sampled U s t \<Longrightarrow> mem_ok t"
  by (simp add: sampled_def)

lemma sample_page_sampled:
  assumes ok: "mem_ok s" and p: "p \<in> U"
  shows "sampled U s (sample_page i j p s)"
proof -
  define s1 where "s1 = upd_page p (\<lambda>p. p\<lparr>accesses := (accesses p)(j := accesses p j + 1),
      tot_accesses := (tot_accesses p)(j := tot_accesses p j + 1)\<rparr>) s"
  define s2 where "s2 = (if total_reads (page_heap s1 p) \<ge> HOT_READ_THRESHOLD then
                 (if \<not> hot (page_heap s1 p) \<and> \<not> ring_present (page_heap s1 p)
                  then make_hot_request p s1 else s1)
               else if total_reads (page_heap s1 p) < HOT_READ_THRESHOLD then
                 (if hot (page_heap s1 p) \<and> \<not> ring_present (page_heap s1 p)
                  then make_cold_request p s1 else s1)
               else s1)"
  define s3 where "s3 = s2\<lparr>accesses_cnt := (accesses_cnt s2)(j := accesses_cnt s2 j + 1),
                core_accesses_cnt := (core_accesses_cnt s2)(i := core_accesses_cnt s2 i + 1)\<rparr>"
  define s4 where "s4 = upd_page p (age_counts (global_clock s3)) s3"
  have 1: "sampled U s s1"
    unfolding s1_def by (rule sampled_upd [OF ok pay_fun_intros(12)]) (simp_all add: place_def)
  have 2: "sampled U s1 s2"
    unfolding s2_def using sampled_request [OF sampled_mem [OF 1] p] sampled_refl [OF sampled_mem [OF 1]] by simp
  have 3: "sampled U s2 s3"
    unfolding s3_def by (rule sampled_counters(1) [OF sampled_mem [OF 2]])
  have 4: "sampled U s3 s4"
    unfolding s4_def by (rule sampled_upd [OF sampled_mem [OF 3] pay_fun_age]) (simp_all add: place_def age_counts_def)
  have "sample_page i j p s = (if accesses (page_heap s4 p) j > PEBS_COOLING_THRESHOLD
         then s4\<lparr>global_clock := global_clock s4 + 1, cools := cools s4 + 1, need_cool_dram := True, need_cool_nvm := True\<rparr>
         else s4)"
    by (simp only: sample_page_def Let_def s1_def s2_def s3_def s4_def)
  moreover have "sampled U s s4"
    using 1 2 3 4 sampled_trans by blast
  ultimately show ?thesis
    using sampled_trans [OF _ sampled_counters(2) [OF sampled_mem [OF 4]]] by simp
qed

lemma pebs_scan_record_sampled:
  assumes ok: "mem_ok s" and t: "\<And>v p. pages s v = Some p \<Longrightarrow> p \<in> U"
  shows "sampled U s (pebs_scan_record i j r s)"
proof (cases r)
  case (PERF_RECORD_SAMPLE addr)
  define p where "p = get_hemem_page (addr AND HUGE_PFN_MASK) s"
  have "p \<in> U" if "p \<noteq> NULL"
    using that t by (auto simp: p_def get_hemem_page_def find_page_def split: option.splits)
  define s1 where "s1 = (if p \<noteq> NULL then
      (let s = (if va (page_heap s p) \<noteq> 0 then sample_page i j p s else s) in s\<lparr>hemem_pages_cnt := hemem_pages_cnt s + 1\<rparr>)
      else s\<lparr>other_pages_cnt := other_pages_cnt s + 1\<rparr>)"
  have s1: "sampled U s s1"
  proof (cases "p = NULL")
    case True
    then show ?thesis
      unfolding s1_def using sampled_counters(4) [OF ok] by simp
  next
    case False
    let ?t = "if va (page_heap s p) \<noteq> 0 then sample_page i j p s else s"
    have t: "sampled U s ?t"
      using sample_page_sampled [OF ok] sampled_refl [OF ok] \<open>p \<noteq> NULL \<Longrightarrow> p \<in> U\<close> False by simp
    then show ?thesis
      unfolding s1_def Let_def using False sampled_trans [OF t sampled_counters(3) [OF sampled_mem [OF t]]] by simp
  qed
  have "pebs_scan_record i j r s = (if addr \<noteq> 0 then s1\<lparr>total_pages_cnt := total_pages_cnt s1 + 1\<rparr>
      else s\<lparr>zero_pages_cnt := zero_pages_cnt s + 1\<rparr>)"
    by (simp add: pebs_scan_record_def PERF_RECORD_SAMPLE s1_def p_def Let_def)
  then show ?thesis
    using sampled_trans [OF s1 sampled_counters(5) [OF sampled_mem [OF s1]]] sampled_counters(6) [OF ok] by simp
qed (use sampled_counters(7,8) [OF ok] sampled_refl [OF ok] in \<open>simp_all add: pebs_scan_record_def\<close>)

lemma pebs_scan_thread_sampled:
  assumes "mem_ok s" and "\<And>v p. pages s v = Some p \<Longrightarrow> p \<in> U"
  shows "sampled U s (pebs_scan_thread rs s)"
  using assms
proof (induction rs arbitrary: s)
  case Nil
  then show ?case by (simp add: pebs_scan_thread_def sampled_refl)
next
  case (Cons r rs)
  obtain i j x where r: "r = (i, j, x)"
    by (metis prod_cases3)
  let ?t = "pebs_scan_record i j x s"
  have t: "sampled U s ?t"
    by (rule pebs_scan_record_sampled [OF Cons.prems])
  have "sampled U ?t (pebs_scan_thread rs ?t)"
    by (rule Cons.IH) (use t Cons.prems(2) in \<open>auto simp: sampled_def\<close>)
  then show ?case
    using sampled_trans [OF t] by (simp add: pebs_scan_thread_def r)
qed

lemma sampled_ok:
  assumes ok: "pebs_ok b U E s" and sm: "sampled U s s'"
  shows "pebs_ok b U E s'" and "same_app U E s s'"
proof -
  note d = pebs_okD [OF ok]
  have f: "queue_of s' = queue_of s" "devs s' = devs s" "pages s' = pages s" "kern s' = kern s"
    "free_page_ring s' = free_page_ring s" "\<And>p. place (payload s' p) = place (payload s p)"
    "\<And>p. hot (payload s' p) = hot (payload s p)" "\<And>p. enforced (payload s' p) = enforced (payload s p)"
    using sm by (simp_all add: sampled_def)
  have pr: "present (payload s' p) = present (payload s p)" "in_dram (payload s' p) = in_dram (payload s p)" for p
    using f(6) [of p] by (simp_all add: place_def)
  have "list_typed b q (payload s' p) = list_typed b q (payload s p)" for q p
    by (rule list_typed_cong) (simp_all add: pr f(7,8))
  then have "lists_ok b U {} s'"
    using d(4) sm unfolding lists_ok_def members_def f(1) by (simp add: sampled_def)
  note core = core_ok_cong [OF this d(1) f(2,6,3,4)]
  show "same_app U E s s'"
    by (rule core(2))
  have "rings_ok U s'"
    using d(3) sm unfolding rings_ok_def on_free_list_def f(1,5) pr by (simp add: sampled_def)
  moreover have "cursors_ok s'"
    using d(2) sm unfolding cursors_ok_def f(1) by (simp add: sampled_def)
  ultimately show "pebs_ok b U E s'"
    using core(1) by (simp add: pebs_ok_def)
qed

end
