(* ===== verification/Pebs_System.thy ===== *)
theory Pebs_System
  imports Pebs_Calls
begin

text \<open>
  The library as a whole with the policy of \<^verbatim>\<open>src/pebs.c\<close>: what happens when memory is full, a concrete
  system, and the properties of the policy's operations one at a time. The threads as they interleave
  are in \<^theory_text>\<open>Pebs_Threads\<close>.
\<close>

section \<open>A full memory\<close>

text \<open>
  With no free frame on either device the search for a victim decides: without a cold DRAM page the
  page goes back, with one the eviction finds no NVM frame and the assertion fails.
\<close>

lemma free_count_0:
  "free_count s = 0 \<longleftrightarrow> queue_of s dram_free_list = [] \<and> queue_of s nvm_free_list = []"
  by (simp add: free_count_def)

lemma evict_page_full:
  assumes "mem_ok s" and "queue_of s nvm_free_list = []"
  shows "evict_page E cp s = None"
  using dequeue_fifo_empty [OF assms] by (simp add: evict_page_def)

lemma try_promote_full:
  assumes ok: "core_ok b U {p} E s" and full: "free_count s = 0" and cold: "queue_of s dram_cold_list \<noteq> []"
  shows "try_promote (Suc n) E p s = None"
proof -
  note d = lists_okD [OF core_okD(1) [OF ok]]
  have deq: "dequeue_fifo dram_free_list s = Some (NULL, s)"
    by (rule dequeue_fifo_empty [OF d(1)]) (use full in \<open>simp add: free_count_0\<close>)
  obtain zs cp where q: "queue_of s dram_cold_list = zs @ [cp]"
    using cold by (cases "queue_of s dram_cold_list" rule: rev_cases) auto
  obtain s1 where s1: "dequeue_evictable s = Some (cp, s1)" "core_ok b U {cp, p} E s1"
    "queue_of s1 = (queue_of s)(dram_cold_list := zs)"
    using dequeue_evictable_spec(2) [OF ok q] by blast
  have "cp \<noteq> NULL"
    using q queue_of_not_NULL [OF d(1), of dram_cold_list] by auto
  moreover have "evict_page E cp s1 = None"
    by (rule evict_page_full [OF lists_okD(1) [OF core_okD(1) [OF s1(2)]]]) (use s1(3) full in \<open>simp add: free_count_0\<close>)
  ultimately show ?thesis
    using deq s1(1) by simp
qed

lemma try_promote_no_victim:
  assumes ok: "core_ok True U {p} E s" and p: "present (payload s p)" "\<not> in_dram (payload s p)" "\<not> enforced (payload s p)"
    "hot (payload s p)" and full: "free_count s = 0" and cold: "queue_of s dram_cold_list = []"
  shows "\<exists>s'. try_promote (Suc n) E p s = Some (No_Victim, s') \<and> core_ok True U {} E s' \<and>
    queue_of s' = (queue_of s)(nvm_hot_list := p # queue_of s nvm_hot_list) \<and> payload s' = payload s \<and> heaps_only s s'"
proof -
  note d = lists_okD [OF core_okD(1) [OF ok]]
  have deq: "dequeue_fifo dram_free_list s = Some (NULL, s)"
    by (rule dequeue_fifo_empty [OF d(1)]) (use full in \<open>simp add: free_count_0\<close>)
  obtain s' where s': "enqueue_fifo nvm_hot_list p s = Some s'" "core_ok True U {} E s'"
    "queue_of s' = (queue_of s)(nvm_hot_list := p # queue_of s nvm_hot_list)" "payload s' = payload s" "heaps_only s s'"
    using core_enq [OF ok, of p nvm_hot_list] p by auto
  then show ?thesis
    using deq dequeue_evictable_spec(1) [OF ok cold] by simp
qed

text \<open>Whatever the number of free frames: an iteration that returns has kept the invariant.\<close>

lemma migrate_step_partial:
  assumes E: "platform_ok E" "requests_succeed E" and ok: "pebs_ok True U E s" and run: "migrate_step E s = Some (r, s')"
  shows "migrates E U r s s'"
proof (cases "free_count s = 0")
  case False
  then show ?thesis
    using migrate_step_spec [OF E ok] run by auto
next
  case full: True
  show ?thesis
  proof (cases "queue_of s nvm_hot_list" rule: rev_cases)
    case Nil
    then show ?thesis
      using dequeue_fifo_empty [OF pebs_okD(5) [OF ok] Nil] run ok by (auto simp: migrate_step_eq migrates_def)
  next
    case (snoc ys p)
    show ?thesis
    proof (cases "total_reads (payload s p) < HOT_READ_THRESHOLD")
      case True
      with migrate_step_cool [OF ok snoc] run show ?thesis by auto
    next
      case False
      obtain t where t: "migrate_step E s = try_promote (Suc 1) E p t" "core_ok True U {p} E t" "present (payload t p)"
        "\<not> in_dram (payload t p)" "\<not> enforced (payload t p)" "hot (payload t p)" "free_count t = 0"
        "\<And>r s'. promoted E U p t r s' \<Longrightarrow> migrates E U r s s'"
        using migrate_step_hot [OF ok snoc False] full by (auto simp: numeral_2_eq_2 simp del: try_promote.simps)
      have cold: "queue_of t dram_cold_list = []"
        using try_promote_full [OF t(2,7), of 1] run t(1) by (cases "queue_of t dram_cold_list = []") auto
      obtain u where u: "try_promote (Suc 1) E p t = Some (No_Victim, u)" "core_ok True U {} E u"
        "queue_of u = (queue_of t)(nvm_hot_list := p # queue_of t nvm_hot_list)" "payload u = payload t" "heaps_only t u"
        using try_promote_no_victim [OF t(2-7) cold, of 1] by blast
      have "promoted E U p t No_Victim u"
        using u(2-4) heaps_only_rest [OF u(5)] by (simp add: promoted_def same_app_def free_count_def)
      with t(1,8) u(1) run show ?thesis
        by (simp del: try_promote.simps)
    qed
  qed
qed

lemma migrate_loop_partial:
  assumes E: "platform_ok E" "requests_succeed E" and "pebs_ok True U E s" and "migrate_loop E n s = Some (out, s')"
  shows "pebs_ok True U E s' \<and> same_app U E s s'"
  using assms(3,4)
proof (induction "length (queue_of s nvm_hot_list)" arbitrary: s n rule: less_induct)
  case less
  show ?case
  proof (cases "n < PEBS_KSWAPD_MIGRATE_RATE")
    case False
    then have "migrate_loop E n s = Some (False, s)"
      by (simp only: migrate_loop.simps [of E n s] if_False)
    with less.prems show ?thesis by auto
  next
    case True
    obtain r t where r: "migrate_step E s = Some (r, t)"
      using less.prems(2) True by (cases "migrate_step E s") (auto simp: migrate_loop.simps [of E n s])
    note m = migrate_step_partial [OF E less.prems(1) r]
    then have t: "pebs_ok True U E t" "same_app U E s t"
      by (simp_all add: migrates_def)
    from m r True less.prems(2) consider "s' = t"
      | n' where "length (queue_of t nvm_hot_list) < length (queue_of s nvm_hot_list)" "migrate_loop E n' t = Some (out, s')"
      by (auto simp: migrates_def migrate_loop.simps [of E n s])
    then show ?thesis
    proof cases
      case (2 n')
      with less.hyps [OF 2(1) t(1) 2(2)] same_app_trans [OF t(2)] show ?thesis by blast
    qed (use t in simp)
  qed
qed

lemma pebs_policy_thread_partial:
  assumes E: "platform_ok E" "requests_succeed E" and ok: "pebs_ok False U E s" and run: "pebs_policy_thread E s = Some s'"
  shows "pebs_ok True U E s'" and "same_app U E s s'"
proof -
  obtain s1 where s1: "free_loop s = Some s1" "pebs_ok True U E s1" "payload s1 = payload s" "kern s1 = kern s"
    using free_loop_spec [OF ok] by blast
  obtain s2 where s2: "hot_loop 0 s1 = Some s2" "pebs_ok True U E s2" "kern s2 = kern s1"
    "\<forall>p. place (payload s2 p) = place (payload s1 p)"
    using hot_loop_spec [OF s1(2)] by blast
  obtain s3 where s3: "cold_loop 0 s2 = Some s3" "pebs_ok True U E s3" "kern s3 = kern s2"
    "\<forall>p. place (payload s3 p) = place (payload s2 p)"
    using cold_loop_spec [OF s2(2)] by blast
  have a3: "same_app U E s s3"
    by (rule same_app_place) (use s1(3,4) s2(3,4) s3(3,4) in simp_all)
  obtain out s4 where s4: "migrate_loop E 0 s3 = Some (out, s4)" "(if out then Some s4 else cool_lists s4) = Some s'"
    using run s1(1) s2(1) s3(1) by (cases "migrate_loop E 0 s3") (auto simp: pebs_policy_thread_def)
  note m = migrate_loop_partial [OF E s3(2) s4(1)]
  have "pebs_ok True U E s' \<and> same_app U E s4 s'"
    using s4(2) m cool_lists_spec [of U E s4] by (cases out) auto
  then show "pebs_ok True U E s'" "same_app U E s s'"
    using same_app_trans [OF a3] m same_app_trans by blast+
qed

section \<open>Calls that fail\<close>

lemma pebs_ok_weaken: "pebs_ok b U E s \<Longrightarrow> pebs_ok False U E s"
  using core_ok_weaken by (cases b) (auto simp: pebs_ok_def)

lemma populate_full:
  assumes "pebs_ok b U E s" and "free_count s = 0" and "user_hint_tier s \<noteq> 0"
  shows "populate_page E (pebs_pagefault E) v s = None"
proof -
  have "pebs_allocate_page s = None"
    using dequeue_fifo_empty [OF pebs_okD(5) [OF assms(1)]] assms(2) by (simp add: pebs_allocate_page_def free_count_0)
  with assms(3) show ?thesis
    by (simp add: populate_page_def pebs_pagefault_def)
qed

lemma unmap_nothing: "pages s v = None \<Longrightarrow> unmap_page rem v s = Some (v + BASEPAGE_SIZE, s)"
  by (simp add: unmap_page_def find_page_def)

lemma unmap_full_ring:
  assumes "pages s v = Some p" and "p \<noteq> NULL" and "ring_buf_full (free_page_ring s)"
  shows "unmap_page pebs_remove_page v s = None"
  using assms by (simp add: unmap_page_def find_page_def pebs_remove_page_def remove_page_def)

section \<open>A concrete system\<close>

text \<open>
  Two devices of four frames each, mapped by the library at \<open>2 ^ 40\<close> and \<open>2 ^ 41\<close>; the
  state before \<^verbatim>\<open>pebs_init\<close>, and the memory its \<^verbatim>\<open>calloc\<close> calls return.
\<close>

definition no_ring :: ring_buf_t where
  "no_ring = \<lparr>buffer = (\<lambda>_. 0), head = 0, tail = 0, capacity = 0\<rparr>"

definition pebs_boot :: "'k \<Rightarrow> 'k pebs" where
  "pebs_boot k = hemem.extend (hemem_boot k) (pebs.fields no_ring no_ring no_ring 0 0 0 0 (\<lambda>_. 0) (\<lambda>_. 0) 0 0 0 0
     False False NULL NULL (- 1) 0 0 NULL NULL)"

definition demo_pebs :: "sim_state pebs" where
  "demo_pebs = (pebs_boot \<lparr>sim_map = demo_map, sim_dev = (\<lambda>(f, x). ucast x)\<rparr>)
     \<lparr>nvmsize := 4 * HUGEPAGE_SIZE, dramsize := 4 * HUGEPAGE_SIZE, dramfd := 3, nvmfd := 4,
      dram_devdax_mmap := 2 ^ 40, nvm_devdax_mmap := 2 ^ 41, is_init := True\<rparr>"

definition demo_dc :: "nat \<Rightarrow> ptr" where
  "demo_dc i = 4096 * (1 + of_nat i)"

definition demo_nc :: "nat \<Rightarrow> ptr" where
  "demo_nc i = 4096 * (9 + of_nat i)"

definition demo_bufs :: "nat \<Rightarrow> (u64 \<Rightarrow> ptr) option" where
  "demo_bufs i = Some (\<lambda>_. 0)"

abbreviation "demo_E \<equiv> sim True False False"
abbreviation "demo_U \<equiv> managed demo_dc demo_nc demo_pebs"

lemma pebs_boot_select [simp]:
  "page_heap (pebs_boot k) = (\<lambda>_. zero_page)" "list_heap (pebs_boot k) = (\<lambda>_. empty_list)"
  "pages (pebs_boot k) = Map.empty" "cur_cool_in_dram (pebs_boot k) = NULL" "cur_cool_in_nvm (pebs_boot k) = NULL"
  "kern (pebs_boot k) = k" "dramoffset (pebs_boot k) = 0" "nvmoffset (pebs_boot k) = 0" "user_hint_tier (pebs_boot k) = - 1"
  by (simp_all add: pebs_boot_def hemem_boot_def hemem.defs pebs.defs)

lemma demo_pebs_select:
  "dramfd demo_pebs = 3" "nvmfd demo_pebs = 4" "nvmsize demo_pebs = 4 * HUGEPAGE_SIZE" "dramsize demo_pebs = 4 * HUGEPAGE_SIZE"
  "nvmoffset demo_pebs = 0" "dramoffset demo_pebs = 0" "dram_devdax_mmap demo_pebs = 2 ^ 40" "nvm_devdax_mmap demo_pebs = 2 ^ 41"
  "kern demo_pebs = kern demo_state" "pages demo_pebs = Map.empty" "user_hint_tier demo_pebs = - 1"
  by (simp_all add: demo_pebs_def demo_state_def hemem_boot_def)

lemma demo_booted: "booted demo_E demo_pebs"
proof -
  have "mem_ok demo_pebs" "queue_of demo_pebs = (\<lambda>_. [])"
    by (rule mem_ok_boot; simp add: demo_pebs_def zero_page_def)+
  moreover have "devices_mapped demo_E demo_pebs"
    unfolding devices_mapped_def demo_pebs_select using demo_windows by (simp add: HUGEPAGE_SIZE_def)
  ultimately show ?thesis
    by (simp add: booted_def demo_pebs_select) (simp add: demo_pebs_def)
qed

lemma demo_frames: "dram_frames demo_pebs = {0, 1, 2, 3}" "nvm_frames demo_pebs = {0, 1, 2, 3}"
proof -
  have "unat (4 * HUGEPAGE_SIZE div PAGE_SIZE) = 4"
    by (simp add: c_consts)
  moreover have "{0..<4} = {0, 1, 2, 3 :: nat}"
    by auto
  ultimately show "dram_frames demo_pebs = {0, 1, 2, 3}" "nvm_frames demo_pebs = {0, 1, 2, 3}"
    by (simp_all add: dram_frames_def nvm_frames_def demo_pebs_select)
qed

lemma demo_callocs: "callocs_ok demo_dc demo_nc demo_pebs"
  by (simp add: callocs_ok_def managed_def demo_frames demo_dc_def demo_nc_def)

lemma demo_U_finite: "finite demo_U" "card demo_U < unat CAPACITY"
  by (simp_all add: managed_def demo_frames demo_dc_def demo_nc_def CAPACITY_def)

lemma demo_init:
  "\<exists>s. pebs_init demo_dc demo_nc demo_bufs demo_pebs = Some s \<and> pebs_ok True demo_U demo_E s \<and> pages s = Map.empty \<and>
     devs s = devs demo_pebs \<and> user_hint_tier s = - 1 \<and> free_count s = 8 \<and> capacity (free_page_ring s) = CAPACITY"
  using pebs_init_spec [where bufs = demo_bufs, OF demo_booted demo_callocs demo_bufs_def demo_bufs_def demo_bufs_def]
  by (auto simp: demo_pebs_select free_count_def c_consts)

lemma demo_vacant:
  assumes "devs s = devs demo_pebs" and "pages s v = None" and v: "v = 2 ^ 30 \<or> v = 2 ^ 30 + 2 ^ 21"
  shows "vacant s v"
proof -
  have "\<not> in_range (2 ^ 40) (4 * HUGEPAGE_SIZE) a \<and> \<not> in_range (2 ^ 41) (4 * HUGEPAGE_SIZE) a"
    if "in_range v PAGE_SIZE a" for a
    using v that by (auto simp: in_range_nat c_consts)
  then have "apart demo_pebs v"
    by (simp add: apart_def demo_pebs_select)
  moreover have "v \<noteq> 0" "v mod HUGEPAGE_SIZE = 0"
    using v by (auto simp: HUGEPAGE_SIZE_def)
  ultimately show ?thesis
    using assms(2) devs_tier(4) [OF assms(1)] by (simp add: vacant_def)
qed

text \<open>The system after start-up and one mapped page.\<close>

lemma demo_touched:
  "\<exists>s0 s p. pebs_init demo_dc demo_nc demo_bufs demo_pebs = Some s0 \<and> vacant s0 (2 ^ 30) \<and> user_hint_tier s0 \<noteq> 0 \<and>
     populate_page demo_E (pebs_pagefault demo_E) (2 ^ 30) s0 = Some (2 ^ 30 + PAGE_SIZE, s) \<and>
     pebs_ok True demo_U demo_E s0 \<and> pebs_ok True demo_U demo_E s \<and> touched demo_E demo_U (2 ^ 30) p s0 s \<and> free_count s = 7 \<and>
     capacity (free_page_ring s) = CAPACITY \<and> user_hint_tier s = - 1 \<and> devs s = devs demo_pebs \<and> pages s0 = Map.empty"
proof -
  obtain s0 where s0: "pebs_init demo_dc demo_nc demo_bufs demo_pebs = Some s0" "pebs_ok True demo_U demo_E s0"
    "pages s0 = Map.empty" "devs s0 = devs demo_pebs" "user_hint_tier s0 = - 1" "free_count s0 = 8"
    "capacity (free_page_ring s0) = CAPACITY"
    using demo_init by blast
  have v: "vacant s0 (2 ^ 30)"
    by (rule demo_vacant) (simp_all add: s0)
  obtain p s where s: "populate_page demo_E (pebs_pagefault demo_E) (2 ^ 30) s0 = Some (2 ^ 30 + PAGE_SIZE, s)"
    "pebs_ok True demo_U demo_E s" "touched demo_E demo_U (2 ^ 30) p s0 s"
    using populate_pebs_spec [OF sim_ok sim_requests_succeed s0(2) _ _ v] s0(5,6) by auto
  then show ?thesis
    using s0 v unfolding touched_def by (intro exI [of _ s0] exI [of _ s] exI [of _ p]) simp
qed

lemma pebs_init_ok:
  assumes "booted E s" and "callocs_ok dc nc s" and "pebs_init dc nc bufs s = Some s'"
  shows "pebs_ok True (managed dc nc s) E s'"
proof -
  have "bufs 0 \<noteq> None" "bufs 1 \<noteq> None" "bufs 2 \<noteq> None"
    using assms(3) by (auto simp: pebs_init_def ring_buf_init_def run_elims)
  then obtain b0 b1 b2 where "bufs 0 = Some b0" "bufs 1 = Some b1" "bufs 2 = Some b2"
    by blast
  from pebs_init_spec [OF assms(1,2) this] assms(3) show ?thesis
    by auto
qed

lemma mapped_isolation:
  assumes ok: "core_ok b U {} E s" and pq: "pages s v = Some p" "pages s w = Some q" "v \<noteq> w"
    and ab: "in_range v PAGE_SIZE x" "in_range w PAGE_SIZE y"
  shows "vmap E (kern s) x \<noteq> None \<and> vmap E (kern s) x \<noteq> vmap E (kern s) y \<and>
    \<not> in_range (dram_devdax_mmap s) (dramsize s) x \<and> \<not> in_range (nvm_devdax_mmap s) (nvmsize s) x"
proof -
  note m = core_okD(3) [OF ok]
  have p: "p \<in> U" "present (payload s p)" "va (payload s p) = v" and q: "q \<in> U" "present (payload s q)" "va (payload s q) = w"
    using m pq by (simp_all add: maps_ok_def)
  then have ne: "p \<noteq> q"
    using pq(3) by auto
  have mp: "mapped_ok E s p (payload s p)" "mapped_ok E s q (payload s q)"
    using m p q by (simp_all add: maps_ok_def)
  then have loc: "vmap E (kern s) x = Some (tier_fd s (in_dram (payload s p)), devdax_offset (payload s p) + (x - v))"
    "vmap E (kern s) y = Some (tier_fd s (in_dram (payload s q)), devdax_offset (payload s q) + (y - w))"
    using window_loc ab p(3) q(3) by (auto simp: mapped_ok_def)
  have fds: "tier_fd s c = tier_fd s e \<longleftrightarrow> c = e" for c e
    using m by (auto simp: maps_ok_def devices_mapped_def tier_defs)
  have "vmap E (kern s) x \<noteq> vmap E (kern s) y"
  proof
    assume "vmap E (kern s) x = vmap E (kern s) y"
    then have e: "in_dram (payload s p) = in_dram (payload s q)"
      "devdax_offset (payload s p) + (x - v) = devdax_offset (payload s q) + (y - w)"
      by (simp_all add: loc fds)
    have "in_range (devdax_offset (payload s p)) PAGE_SIZE (devdax_offset (payload s p) + (x - v))"
      "in_range (devdax_offset (payload s q)) PAGE_SIZE (devdax_offset (payload s q) + (y - w))"
      using ab by (simp_all add: in_range_def)
    with frame_unique [OF core_okD(2) [OF ok] p(1) q(1) e(1)] e(2) ne show False
      by simp
  qed
  moreover have "apart s v"
    using mp(1) p(3) by (simp add: mapped_ok_def)
  ultimately show ?thesis
    using loc ab(1) by (simp add: apart_def)
qed

lemma spare_page:
  assumes "lists_ok b U {} s" and "0 < free_count s"
  shows "\<exists>p. p \<in> U \<and> \<not> present (payload s p)"
proof -
  obtain q p where "p \<in> set (queue_of s q)" "q = dram_free_list \<or> q = nvm_free_list"
    using assms(2) by (cases "queue_of s dram_free_list"; cases "queue_of s nvm_free_list") (force simp: free_count_def)+
  then show ?thesis
    using lists_okD(4,5) [OF assms(1)] by fastforce
qed

section \<open>A full system\<close>

text \<open>
  One DRAM page that is cold and one NVM page that is hot, both in use, and no free frame.
\<close>

definition full_v :: u64 where "full_v = 2 ^ 30 + 2 ^ 21"

definition full_map :: "u64 \<Rightarrow> loc option" where
  "full_map a = (if in_range full_v HUGEPAGE_SIZE a then Some (3, a - full_v) else demo_map a)"

definition full_pages :: "ptr \<Rightarrow> hemem_page" where
  "full_pages = (\<lambda>_. zero_page)
     (4096 := zero_page\<lparr>va := full_v, in_dram := True, pt := HUGEP, present := True\<rparr>,
      8192 := zero_page\<lparr>va := 2 ^ 30, devdax_offset := HUGEPAGE_SIZE, pt := HUGEP, present := True, hot := True,
        accesses := (\<lambda>_. 8)\<rparr>)"

definition small_ring :: ring_buf_t where
  "small_ring = \<lparr>buffer = (\<lambda>_. 0), head = 0, tail = 0, capacity = 2\<rparr>"

definition full_boot :: "sim_state pebs" where
  "full_boot = demo_pebs\<lparr>page_heap := full_pages, pages := [full_v \<mapsto> 4096, 2 ^ 30 \<mapsto> 8192],
     kern := \<lparr>sim_map = full_map, sim_dev = (\<lambda>_. 0)\<rparr>, hot_ring := small_ring, cold_ring := small_ring,
     free_page_ring := small_ring\<rparr>"

lemma full_select:
  "dramfd full_boot = 3" "nvmfd full_boot = 4" "nvmsize full_boot = 4 * HUGEPAGE_SIZE" "dramsize full_boot = 4 * HUGEPAGE_SIZE"
  "nvmoffset full_boot = 0" "dramoffset full_boot = 0" "dram_devdax_mmap full_boot = 2 ^ 40" "nvm_devdax_mmap full_boot = 2 ^ 41"
  "sim_map (kern full_boot) = full_map" "pages full_boot = [full_v \<mapsto> 4096, 2 ^ 30 \<mapsto> 8192]"
  "page_heap full_boot = full_pages" "hot_ring full_boot = small_ring" "cold_ring full_boot = small_ring"
  "free_page_ring full_boot = small_ring" "cur_cool_in_dram full_boot = NULL" "cur_cool_in_nvm full_boot = NULL"
  by (simp_all add: full_boot_def demo_pebs_select) (simp_all add: demo_pebs_def)

lemma full_links: "strip (full_pages p) = full_pages p"
  by (simp add: full_pages_def strip_def zero_page_def)

lemma full_mem: "mem_ok full_boot" "queue_of full_boot = (\<lambda>_. [])" "payload full_boot = full_pages"
proof -
  have "list_ptr (full_pages p) = None" "prev_ptr (full_pages p) = NULL" for p
    by (simp_all add: full_pages_def zero_page_def)
  then show "mem_ok full_boot" "queue_of full_boot = (\<lambda>_. [])"
    by (intro mem_ok_boot; simp add: full_boot_def demo_pebs_def)+
  show "payload full_boot = full_pages"
    by (simp add: payload_def fun_eq_iff full_select full_links)
qed

lemma full_disjoint:
  fixes a :: u64
  shows "in_range (2 ^ 40) (4 * HUGEPAGE_SIZE) a \<Longrightarrow> \<not> in_range full_v HUGEPAGE_SIZE a"
    and "in_range (2 ^ 41) (4 * HUGEPAGE_SIZE) a \<Longrightarrow> \<not> in_range full_v HUGEPAGE_SIZE a"
    and "in_range (2 ^ 30) HUGEPAGE_SIZE a \<Longrightarrow> \<not> in_range full_v HUGEPAGE_SIZE a"
    and "in_range (2 ^ 30) HUGEPAGE_SIZE a \<Longrightarrow> \<not> in_range (2 ^ 40) (4 * HUGEPAGE_SIZE) a"
    and "in_range (2 ^ 30) HUGEPAGE_SIZE a \<Longrightarrow> \<not> in_range (2 ^ 41) (4 * HUGEPAGE_SIZE) a"
  by (simp_all add: in_range_nat HUGEPAGE_SIZE_def full_v_def)

lemma full_windows:
  "window (sim d l a) (kern full_boot) (2 ^ 40) (4 * HUGEPAGE_SIZE) 3 0"
  "window (sim d l a) (kern full_boot) (2 ^ 41) (4 * HUGEPAGE_SIZE) 4 0"
  "window (sim d l a) (kern full_boot) (2 ^ 30) HUGEPAGE_SIZE 4 HUGEPAGE_SIZE"
  "window (sim d l a) (kern full_boot) full_v HUGEPAGE_SIZE 3 0"
proof -
  have k: "vmap (sim d l a) (kern full_boot) x = (if in_range full_v HUGEPAGE_SIZE x then Some (3, x - full_v)
      else vmap (sim d l a) (kern demo_state) x)" for x
    by (simp add: sim_select full_select full_map_def demo_select)
  show "window (sim d l a) (kern full_boot) full_v HUGEPAGE_SIZE 3 0"
    by (simp add: window_def k in_range_offset)
  show "window (sim d l a) (kern full_boot) (2 ^ 40) (4 * HUGEPAGE_SIZE) 3 0"
    "window (sim d l a) (kern full_boot) (2 ^ 41) (4 * HUGEPAGE_SIZE) 4 0"
    "window (sim d l a) (kern full_boot) (2 ^ 30) HUGEPAGE_SIZE 4 HUGEPAGE_SIZE"
    using demo_windows [of d l a] full_disjoint in_range_offset
    unfolding window_def k by (auto simp del: power_numeral)
qed

lemma full_frames: "frames_ok {4096, 8192} full_boot"
  by (auto simp: frames_ok_def frame_ok_def frame_in_def full_mem(3) full_pages_def zero_page_def tier_defs full_select c_consts)

lemma full_maps: "maps_ok {4096, 8192} demo_E full_boot"
proof -
  have "devices_mapped demo_E full_boot"
    unfolding devices_mapped_def full_select using full_windows(1,2) by (simp add: HUGEPAGE_SIZE_def)
  moreover have "apart full_boot full_v" "apart full_boot (2 ^ 30)"
    unfolding apart_def full_select PAGE_HUGE using full_disjoint by blast+
  ultimately show ?thesis
    using full_windows(3,4) [of True False False]
    unfolding maps_ok_def mapped_ok_def full_mem(3) full_select PAGE_HUGE
    by (auto simp: full_pages_def zero_page_def tier_defs full_select full_v_def HUGEPAGE_SIZE_def split: if_splits)
qed

lemma small_ring_ok: "ring_ok small_ring" "ring_list small_ring = []"
  by (simp_all add: ring_ok_def small_ring_def ring_list_def cells_def ring_count_def)

lemma full_state:
  "\<exists>s. (enqueue_fifo dram_cold_list 4096 full_boot \<bind> enqueue_fifo nvm_hot_list 8192) = Some s \<and>
     pebs_ok True {4096, 8192} demo_E s \<and> free_count s = 0 \<and> queue_of s dram_cold_list = [4096] \<and>
     queue_of s nvm_hot_list = [8192] \<and> payload s = full_pages \<and> pages s = [full_v \<mapsto> 4096, 2 ^ 30 \<mapsto> 8192] \<and>
     hot_ring s = small_ring \<and> free_page_ring s = small_ring \<and> global_clock s = 0"
proof -
  have l: "lists_ok True {4096, 8192} {4096, 8192} full_boot"
    using full_mem by (simp add: lists_ok_def members_def)
  have c: "core_ok True {4096, 8192} {4096, 8192} demo_E full_boot"
    using l full_frames full_maps by (simp add: core_ok_def)
  obtain s where s: "(enqueue_fifo dram_cold_list 4096 full_boot \<bind> enqueue_fifo nvm_hot_list 8192) = Some s"
    "core_ok True {4096, 8192} {} demo_E s"
    "queue_of s = (\<lambda>_. [])(dram_cold_list := [4096], nvm_hot_list := [8192])"
    "payload s = full_pages" "heaps_only full_boot s"
    using core_enq2 [OF c, of dram_cold_list nvm_hot_list] full_mem(2,3)
    by (auto simp: full_pages_def zero_page_def)
  note r = ctl_eq [OF heaps_only_rest(2) [OF s(5)]]
  have g: "pages s = pages full_boot" "global_clock s = global_clock full_boot"
    by (subst heaps_only_eq [OF s(5)], simp)+
  have "global_clock full_boot = 0"
    by (simp add: full_boot_def demo_pebs_def pebs_boot_def hemem_boot_def hemem.defs pebs.defs)
  moreover have "rings_ok {4096, 8192} s"
    using settled_absent [OF core_okD(1) [OF s(2)]] r small_ring_ok by (simp add: rings_ok_def full_select)
  moreover have "cursors_ok s"
    using r by (simp add: cursors_ok_def full_select)
  ultimately show ?thesis
    using s r g by (auto simp: pebs_ok_def free_count_def full_select)
qed

section \<open>Properties\<close>

text \<open>
  C18: with both devices full the policy thread aborts. When no frame is free, some DRAM page is cold
  and the oldest page of the NVM hot list is still hot, the migration takes a victim off the
  DRAM cold list, finds no NVM frame for it, and the assertion on the frame fails.
\<close>

theorem full_memory_aborts:
  assumes "pebs_ok True U E s" and "free_count s = 0" and "queue_of s dram_cold_list \<noteq> []"
    and "queue_of s nvm_hot_list = ys @ [p]" and "HOT_READ_THRESHOLD \<le> total_reads (payload s p)"
  shows "migrate_loop E 0 s = None"
proof -
  obtain t where t: "migrate_step E s = try_promote (Suc 1) E p t" "core_ok True U {p} E t" "free_count t = 0"
    "queue_of t dram_cold_list \<noteq> []"
    using migrate_step_hot [OF assms(1,4)] assms(2,3,5)
    by (auto simp: numeral_2_eq_2 not_less simp del: try_promote.simps)
  then have "migrate_step E s = None"
    using try_promote_full [OF t(2-4), of 1] by (simp del: try_promote.simps)
  then show ?thesis
    by (simp add: migrate_loop.simps [of E 0 s] PEBS_KSWAPD_MIGRATE_RATE_def)
qed

theorem full_memory_aborts_witness:
  "\<exists>s. (enqueue_fifo dram_cold_list 4096 full_boot \<bind> enqueue_fifo nvm_hot_list 8192) = Some s \<and>
     pebs_ok True {4096, 8192} demo_E s \<and> migrate_loop demo_E 0 s = None"
proof -
  obtain s where s: "(enqueue_fifo dram_cold_list 4096 full_boot \<bind> enqueue_fifo nvm_hot_list 8192) = Some s"
    "pebs_ok True {4096, 8192} demo_E s" "free_count s = 0" "queue_of s dram_cold_list = [4096]"
    "queue_of s nvm_hot_list = [] @ [8192]" "payload s = full_pages"
    using full_state by auto
  have "HOT_READ_THRESHOLD \<le> total_reads (payload s 8192)"
    unfolding s(6) by (simp add: total_reads_def full_pages_def HOT_READ_THRESHOLD_def)
  from full_memory_aborts [OF s(2,3) _ s(5) this] s(1,2,4) show ?thesis
    by auto
qed

text \<open>
  C13: the first touch of a vacant address succeeds as long as a frame is free. The page comes from
  DRAM whenever DRAM has a free frame, exactly one frame is consumed, the pages already in use keep
  their addresses and contents, and in the builds that clear pages the new page reads as zero.
\<close>

theorem touch_new_page:
  assumes "platform_ok E" and "requests_succeed E" and "pebs_ok b U E s" and "0 < free_count s"
    and "user_hint_tier s \<noteq> 0" and "vacant s v"
  shows "\<exists>p s'. populate_page E (pebs_pagefault E) v s = Some (v + PAGE_SIZE, s') \<and> pebs_ok b U E s' \<and>
    touched E U v p s s'"
  by (rule populate_pebs_spec [OF assms])

theorem touch_new_page_witness:
  "\<exists>s0 s p. pebs_init demo_dc demo_nc demo_bufs demo_pebs = Some s0 \<and>
     populate_page demo_E (pebs_pagefault demo_E) (2 ^ 30) s0 = Some (2 ^ 30 + PAGE_SIZE, s) \<and>
     touched demo_E demo_U (2 ^ 30) p s0 s"
proof -
  obtain s0 where s0: "pebs_init demo_dc demo_nc demo_bufs demo_pebs = Some s0" "pebs_ok True demo_U demo_E s0"
    "pages s0 = Map.empty" "devs s0 = devs demo_pebs" "user_hint_tier s0 = - 1" "free_count s0 = 8"
    using demo_init by blast
  have "vacant s0 (2 ^ 30)"
    by (rule demo_vacant) (simp_all add: s0)
  with touch_new_page [OF sim_ok sim_requests_succeed s0(2)] s0 show ?thesis
    by (metis zero_less_numeral neg_equal_0_iff_equal zero_neq_one)
qed

text \<open>
  C14: a page that is unmapped comes back. Unmapping an address of the table never fails while the free
  ring is larger than the number of managed pages; after the policy thread has worked off the free
  ring the page's frame is on the free list of its device again.
\<close>

theorem unmapped_page_returns:
  assumes "pebs_ok b U E s" and "finite U" and "card U < unat (capacity (free_page_ring s))" and "pages s v = Some p"
  shows "\<exists>s1 s2. unmap_page pebs_remove_page v s = Some (v + PAGE_SIZE, s1) \<and> pages s1 v = None \<and>
    free_loop s1 = Some s2 \<and> pebs_ok True U E s2 \<and>
    p \<in> set (queue_of s2 (if in_dram (payload s p) then dram_free_list else nvm_free_list))"
proof -
  note d = pebs_okD [OF assms(1)]
  have p: "p \<in> U" "present (payload s p)"
    using core_okD(3) [OF d(1)] assms(4) by (auto simp: maps_ok_def)
  obtain s1 where s1: "unmap_page pebs_remove_page v s = Some (v + PAGE_SIZE, s1)" "pebs_ok False U E s1" "released U v p s s1"
    using unmap_pebs_spec [OF assms(1) free_ring_room [OF d(3) assms(2) p assms(3)] assms(4)] by blast
  obtain s2 where s2: "free_loop s1 = Some s2" "pebs_ok True U E s2" "payload s2 = payload s1"
    using free_loop_spec [OF s1(2)] by blast
  have q: "\<not> present (payload s2 p)" "in_dram (payload s2 p) = in_dram (payload s p)"
    using s1(3) s2(3) by (simp_all add: released_def)
  show ?thesis
    using absent_free [OF pebs_okD(4) [OF s2(2)] p(1) q(1)] s1(1,3) s2(1,2) q(2) by (auto simp: released_def)
qed

theorem unmapped_page_returns_witness:
  "\<exists>(s :: sim_state pebs) s1 s2 p. pages s (2 ^ 30) = Some p \<and> unmap_page pebs_remove_page (2 ^ 30) s = Some (2 ^ 30 + PAGE_SIZE, s1) \<and>
     free_loop s1 = Some s2 \<and> pebs_ok True demo_U demo_E s2"
proof -
  obtain s0 s :: "sim_state pebs" and p
    where s: "pebs_ok True demo_U demo_E s" "touched demo_E demo_U (2 ^ 30) p s0 s"
    "capacity (free_page_ring s) = CAPACITY"
    using demo_touched by blast
  then have "pages s (2 ^ 30) = Some p"
    by (simp add: touched_def)
  with unmapped_page_returns [OF s(1) demo_U_finite(1) _ this] demo_U_finite(2) s(3) show ?thesis
    by auto
qed

end
