(* ===== verification/Interpose.thy ===== *)
theory Interpose
  imports Pebs
begin

text \<open>
  \<^verbatim>\<open>src/interpose.c\<close>: the hook on the system calls of the application. \<^verbatim>\<open>mmap\<close> and
  \<^verbatim>\<open>munmap\<close> are answered by the library or forwarded to the kernel, and an \<^verbatim>\<open>mmap\<close> on the
  file descriptor \<open>-420\<close> sets the allocation hints.

  The hook returns 0 when it answered the call and 1 when the kernel has to; \<open>result\<close> is the value
  behind its result pointer. Binding the symbols of the C library and the constructor only
  call the loader and \<^verbatim>\<open>hemem_init\<close>.
\<close>

definition PROT_EXEC :: u32 where [c_consts]: "PROT_EXEC = 4"
definition SYS_mmap :: int where [c_consts]: "SYS_mmap = 9"
definition SYS_munmap :: int where [c_consts]: "SYS_munmap = 11"

text \<open>The conversions of a 64-bit argument: \<^verbatim>\<open>(int)x\<close>, \<^verbatim>\<open>(size_t)x\<close> and a flag word.\<close>

definition c_int :: "u64 \<Rightarrow> int" where
  "c_int x = sint (ucast x :: u32)"

definition mmap_filter :: "'k platform \<Rightarrow> ptr \<Rightarrow> u64 \<Rightarrow> u32 \<Rightarrow> u32 \<Rightarrow> int \<Rightarrow> u64 \<Rightarrow> int \<Rightarrow> int \<Rightarrow> int \<Rightarrow> u64 \<Rightarrow>
    ('k, 'a) pebs_scheme \<Rightarrow> (int \<times> u64 \<times> ('k, 'a) pebs_scheme) option" where
  "mmap_filter E addr len prot flags fd offset tier_code persistence priority result s =
     (if fd = - 420 then
        Some (0, result, s\<lparr>user_hint_tier := tier_code, user_hint_persistence := persistence, user_hint_priority := priority\<rparr>)
      else if \<not> is_init s then Some (1, result, s)
      else if internal_call s then Some (1, result, s)
      else if flags AND MAP_ANONYMOUS \<noteq> MAP_ANONYMOUS \<and> \<not> (fd = dramfd s \<or> fd = nvmfd s) then Some (1, result, s)
      else if prot AND PROT_EXEC = PROT_EXEC then Some (1, result, s)
      else if flags AND MAP_STACK = MAP_STACK then Some (1, result, s)
      else if fd = dramfd s \<or> fd = nvmfd s then Some (1, result, s)
      else if \<not> LLAMA E \<and> len < 1 * 1024 * 1024 * 1024 then Some (1, result, s)
      else do {
        (p, s) \<leftarrow> hemem_mmap E (pebs_pagefault E) addr len prot flags fd offset s;
        Some (0, p, s)
      })"

definition munmap_filter :: "'k platform \<Rightarrow> ptr \<Rightarrow> u64 \<Rightarrow> u64 \<Rightarrow> ('k, 'a) pebs_scheme \<Rightarrow>
    (int \<times> u64 \<times> ('k, 'a) pebs_scheme) option" where
  "munmap_filter E addr len result s =
     (if internal_call s then Some (1, result, s)
      else do {
        (r, s) \<leftarrow> hemem_munmap E pebs_remove_page addr len s;
        Some (0, word_of_int r, s)
      })"

definition hook :: "'k platform \<Rightarrow> int \<Rightarrow> u64 \<Rightarrow> u64 \<Rightarrow> u64 \<Rightarrow> u64 \<Rightarrow> u64 \<Rightarrow> u64 \<Rightarrow> u64 \<Rightarrow> u64 \<Rightarrow> u64 \<Rightarrow> u64 \<Rightarrow>
    ('k, 'a) pebs_scheme \<Rightarrow> (int \<times> u64 \<times> ('k, 'a) pebs_scheme) option" where
  "hook E syscall_number arg0 arg1 arg2 arg3 arg4 arg5 arg6 arg7 arg8 result s =
     (if syscall_number = SYS_mmap then
        (let tier_code = (if arg6 \<noteq> 0 then c_int arg6 else - 1);
             persistence = (if arg7 \<noteq> 0 then c_int arg7 else 0);
             priority = (if arg8 \<noteq> 0 then c_int arg8 else 0)
         in mmap_filter E arg0 arg1 (ucast arg2) (ucast arg3) (c_int arg4) arg5 tier_code persistence priority result s)
      else if syscall_number = SYS_munmap then munmap_filter E arg0 arg1 result s
      else Some (1, result, s))"

text \<open>An argument the application passes as a C \<^verbatim>\<open>int\<close>, sign-extended to 64 bits.\<close>

lemma c_int_of_int:
  assumes "- (2 ^ 31) \<le> i" and "i < 2 ^ 31"
  shows "c_int (word_of_int i) = i"
proof -
  have "(ucast (word_of_int i :: u64) :: u32) = word_of_int i"
    by (rule bit_word_eqI) (auto simp: bit_simps)
  then have "sint (ucast (word_of_int i :: u64) :: u32) = signed_take_bit 31 i"
    by (simp add: signed_of_int)
  also have "\<dots> = i"
    using assms by (simp add: signed_take_bit_int_eq_self)
  finally show ?thesis by (simp add: c_int_def)
qed

end
