(* ===== verification/Pebs_Mmap.thy ===== *)
theory Pebs_Mmap
  imports Pebs_System Interpose
begin

text \<open>
  The way of an allocation through the library: the hook of \<^verbatim>\<open>src/interpose.c\<close>,
  \<^verbatim>\<open>hemem_mmap\<close> of \<^verbatim>\<open>src/hemem.c\<close> and the page faults of \<^verbatim>\<open>src/pebs.c\<close> for every page
  of the new region.
\<close>

section \<open>Populating a region\<close>

text \<open>The address of the \<open>i\<close>-th page of a region.\<close>

definition page_at :: "u64 \<Rightarrow> nat \<Rightarrow> u64" where
  "page_at base i = base + of_nat i * PAGE_SIZE"

lemma page_at_0 [simp]: "page_at base 0 = base"
  by (simp add: page_at_def)

lemma page_at_Suc: "page_at base (Suc i) = page_at (base + PAGE_SIZE) i"
  by (simp add: page_at_def algebra_simps)

lemma unat_page_at:
  assumes "unat base + i * 2 ^ 21 < 2 ^ 64"
  shows "unat (page_at base i) = unat base + i * 2 ^ 21"
proof -
  define N where "N = i * 2 ^ 21"
  have "(of_nat i * PAGE_SIZE :: u64) = of_nat N"
    by (simp add: c_consts N_def)
  moreover have "unat (of_nat N :: u64) = N"
    using assms unfolding N_def [symmetric] by (simp add: unat_of_nat take_bit_nat_eq_self)
  ultimately show ?thesis
    using assms unfolding N_def [symmetric] by (simp add: page_at_def unat_plus_if')
qed

lemma page_at_less:
  assumes "unat base + Suc n * 2 ^ 21 < 2 ^ 64" and "i \<le> n"
  shows "page_at base i < page_at base (Suc n)" and "0 < i \<Longrightarrow> page_at base i \<noteq> base"
proof -
  have b: "unat base + i * 2 ^ 21 < 2 ^ 64" "i * 2 ^ 21 < Suc n * 2 ^ 21"
    using assms by auto
  show "page_at base i < page_at base (Suc n)"
    using unat_page_at [OF b(1)] unat_page_at [OF assms(1)] b(2) by (simp add: word_less_nat_alt)
  assume "0 < i"
  then show "page_at base i \<noteq> base"
    using unat_page_at [OF b(1)] by (auto simp: word_unat_eq_iff)
qed

text \<open>A region of \<open>n\<close> pages that can be populated, and the state after it was.\<close>

definition region_vacant :: "('k, 'a) hemem_scheme \<Rightarrow> u64 \<Rightarrow> nat \<Rightarrow> bool" where
  "region_vacant s base n \<longleftrightarrow> unat base + n * 2 ^ 21 < 2 ^ 64 \<and> (\<forall>i < n. vacant s (page_at base i))"

definition populated :: "'k platform \<Rightarrow> ptr set \<Rightarrow> u64 \<Rightarrow> nat \<Rightarrow> ('k, 'a) pebs_scheme \<Rightarrow> ('k, 'a) pebs_scheme \<Rightarrow> bool" where
  "populated E U base n s s' \<longleftrightarrow> same_app U E s s' \<and> free_count s = n + free_count s' \<and>
     devs s' = devs s \<and> user_hint_tier s' = user_hint_tier s \<and>
     (\<forall>i < n. \<exists>p \<in> U. pages s' (page_at base i) = Some p \<and> present (payload s' p) \<and> va (payload s' p) = page_at base i) \<and>
     (\<forall>v. (\<forall>i < n. v \<noteq> page_at base i) \<longrightarrow> pages s' v = pages s v) \<and>
     (clears E \<longrightarrow> (\<forall>i < n. \<forall>a. in_range (page_at base i) PAGE_SIZE a \<longrightarrow> load8 E (kern s') a = Some 0))"

lemma populate_loop_spec:
  assumes E: "platform_ok E" "requests_succeed E" and "pebs_ok b U E s" and "n \<le> free_count s"
    and "user_hint_tier s \<noteq> 0" and "region_vacant s base n"
  shows "\<exists>s'. populate_loop E (pebs_pagefault E) (page_at base n) base s = Some s' \<and> pebs_ok b U E s' \<and> populated E U base n s s'"
  using assms(3-6)
proof (induction n arbitrary: base s)
  case 0
  then show ?case
    by (simp add: populate_loop.simps [of E _ base base] populated_def)
next
  case (Suc n)
  note v = Suc.prems(4) [unfolded region_vacant_def]
  have "vacant s base"
    using v by (auto dest: spec [of _ 0])
  then obtain p s1 where s1: "populate_page E (pebs_pagefault E) base s = Some (base + PAGE_SIZE, s1)" "pebs_ok b U E s1"
    "touched E U base p s s1"
    using populate_pebs_spec [OF E Suc.prems(1) _ Suc.prems(3)] Suc.prems(2) by (metis less_Suc_eq_0_disj less_le_trans zero_less_Suc)
  note t = s1(3) [unfolded touched_def]
  have f1: "n \<le> free_count s1" "user_hint_tier s1 \<noteq> 0"
    using Suc.prems(2,3) t by simp_all
  have lt: "base < page_at base (Suc n)"
    using page_at_less(1) [of base n 0] v by simp
  have v1: "region_vacant s1 (base + PAGE_SIZE) n"
    unfolding region_vacant_def
  proof (intro conjI allI impI)
    have "unat (page_at base 1) = unat base + 2 ^ 21"
      using unat_page_at [of base 1] v by simp
    then show "unat (base + PAGE_SIZE) + n * 2 ^ 21 < 2 ^ 64"
      using v by (simp add: page_at_def)
    fix i
    assume i: "i < n"
    then have "vacant s (page_at base (Suc i))" "page_at base (Suc i) \<noteq> base"
      using v page_at_less(2) [of base n "Suc i"] by auto
    then show "vacant s1 (page_at (base + PAGE_SIZE) i)"
      using t devs_tier(4) [of s1 s] by (simp add: vacant_def page_at_Suc)
  qed
  obtain s' where s': "populate_loop E (pebs_pagefault E) (page_at base (Suc n)) (base + PAGE_SIZE) s1 = Some s'" "pebs_ok b U E s'"
    "populated E U (base + PAGE_SIZE) n s1 s'"
    using Suc.IH [OF s1(2) f1 v1] by (auto simp: page_at_Suc)
  note d = s'(3) [unfolded populated_def]
  have run: "populate_loop E (pebs_pagefault E) (page_at base (Suc n)) base s = Some s'"
    using lt s1(1) s'(1) by (simp add: populate_loop.simps [of E _ _ base s])
  have out: "base \<noteq> page_at (base + PAGE_SIZE) i" if "i < n" for i
    using page_at_less(2) [of base n "Suc i"] that v by (auto simp: page_at_Suc)
  then have "pages s' base = Some p"
    using d t by auto
  moreover have "present (payload s' p)" "va (payload s' p) = base"
    using d t by (auto simp: same_app_def)
  ultimately have first: "\<exists>p\<in>U. pages s' base = Some p \<and> present (payload s' p) \<and> va (payload s' p) = base"
    using t by blast
  have z: "load8 E (kern s') a = Some 0" if "clears E" "in_range base PAGE_SIZE a" for a
    using d t that by (auto simp: same_app_def)
  have app: "same_app U E s s'"
    by (rule same_app_trans [of U E s s1 s']) (use t d in simp_all)
  have split: "(\<forall>i < Suc n. P (page_at base i)) \<longleftrightarrow> P base \<and> (\<forall>i < n. P (page_at (base + PAGE_SIZE) i))" for P
    unfolding All_less_Suc2 by (simp add: page_at_Suc)
  have "populated E U base (Suc n) s s'"
    unfolding populated_def split [of "\<lambda>v. \<exists>p \<in> U. pages s' v = Some p \<and> present (payload s' p) \<and> va (payload s' p) = v"]
      split [of "\<lambda>v. \<forall>a. in_range v PAGE_SIZE a \<longrightarrow> load8 E (kern s') a = Some 0"]
    using app first d t z by (auto simp: split [of "\<lambda>x. v \<noteq> x" for v])
  with run s'(2) show ?case by blast
qed

section \<open>A new mapping\<close>

text \<open>
  A mapping in a region where no page is and which is not one of the library's own windows
  disturbs nothing.
\<close>

lemma tiers_remap:
  fixes s s' :: "('k, 'a) hemem_scheme"
  assumes ok: "tiers_ok T U X E s" and h: "page_heap s' = page_heap s" "list_heap s' = list_heap s" "devs s' = devs s" "pages s' = pages s"
    and k: "dev E (kern s') = dev E (kern s)" "\<And>a. (\<forall>i < n. \<not> in_range (page_at p i) PAGE_SIZE a) \<Longrightarrow> vmap E (kern s') a = vmap E (kern s) a"
    and v: "\<And>i. i < n \<Longrightarrow> vacant s (page_at p i)"
  shows "tiers_ok T U X E s'" and "same_app U E s s'"
proof -
  note c = mem_ok_cong [OF h(1,2)] and d = tiers_okD [OF ok] and tier = devs_tier [OF h(3)]
  have out: "vmap E (kern s') a = vmap E (kern s) a"
    if "q \<in> U" "present (payload s q)" "in_range (va (payload s q)) PAGE_SIZE a" for q a
  proof (rule k(2), intro allI impI)
    fix i
    assume i: "i < n"
    have m: "va (payload s q) mod HUGEPAGE_SIZE = 0" "pages s (va (payload s q)) = Some q"
      using d(3) that(1,2) by (auto simp: maps_ok_def mapped_ok_def)
    have "page_at p i mod HUGEPAGE_SIZE = 0" "page_at p i \<noteq> va (payload s q)"
      using v [OF i] m(2) by (auto simp: vacant_def)
    then show "\<not> in_range (page_at p i) PAGE_SIZE a"
      using aligned_apart [OF m(1) _ _ that(3)] by auto
  qed
  have win: "window E (kern s') b m fd off" if "window E (kern s) b m fd off" "\<And>a. in_range b m a \<Longrightarrow> vmap E (kern s') a = vmap E (kern s) a" for b m fd off
    using that by (simp add: window_def in_range_offset)
  have dw: "vmap E (kern s') a = vmap E (kern s) a"
    if "in_range (dram_devdax_mmap s) (dramsize s) a \<or> in_range (nvm_devdax_mmap s) (nvmsize s) a" for a
  proof (rule k(2), intro allI impI)
    fix i
    assume "i < n"
    then have "apart s (page_at p i)"
      using v by (simp add: vacant_def)
    with that show "\<not> in_range (page_at p i) PAGE_SIZE a"
      by (auto simp: apart_def)
  qed
  have "typed_lists T U X s'"
    using typed_lists_cong [OF h(1,2)] d(1) by simp
  moreover have "frames_ok U s'"
    using frames_ok_cong [OF h(3)] d(2) by (simp add: c)
  moreover have "devices_mapped E s'"
    using d(3) h(3) win dw unfolding maps_ok_def devices_mapped_def devs_eq by auto
  then have "maps_ok U E s'"
    using d(3) win out unfolding maps_ok_def mapped_ok_def c tier h(4) by blast
  ultimately show "tiers_ok T U X E s'"
    by (simp add: tiers_ok_def)
  show "same_app U E s s'"
    unfolding same_app_def c using out k(1) by (auto simp: load8_def)
qed

lemma in_range_pages:
  assumes "unat p + n * 2 ^ 21 < 2 ^ 64" and "in_range p (of_nat n * PAGE_SIZE) a"
  shows "\<exists>i < n. in_range (page_at p i) PAGE_SIZE a"
proof -
  define d where "d = unat (a - p)"
  have n: "unat (of_nat n * PAGE_SIZE :: u64) = n * 2 ^ 21"
    using unat_page_at [of 0 n] assms(1) by (simp add: page_at_def)
  have lt: "d < n * 2 ^ 21"
    using assms(2) n by (simp add: in_range_def word_less_nat_alt d_def)
  define i where "i = d div 2 ^ 21"
  have i: "i < n"
    using lt by (simp add: i_def less_mult_imp_div_less)
  have u: "unat (of_nat i * PAGE_SIZE :: u64) = i * 2 ^ 21"
    using unat_page_at [of 0 i] i assms(1) by (simp add: page_at_def)
  have le: "(of_nat i * PAGE_SIZE :: u64) \<le> a - p"
    using u by (simp add: word_le_nat_alt d_def [symmetric] i_def)
  have e: "a - page_at p i = (a - p) - of_nat i * PAGE_SIZE"
    by (simp add: page_at_def)
  have "unat (a - page_at p i) = d - i * 2 ^ 21"
    unfolding e unat_sub [OF le] u by (simp add: d_def)
  also have "\<dots> < 2 ^ 21"
    by (simp add: i_def minus_div_mult_eq_mod)
  finally have "in_range (page_at p i) PAGE_SIZE a"
    by (simp add: in_range_def word_less_nat_alt c_consts)
  with i show ?thesis by blast
qed

lemma pebs_ok_transfer:
  fixes s s' :: "('k, 'a) pebs_scheme"
  assumes "pebs_ok b U E s" and "core_ok b U {} E s'" and "page_heap s' = page_heap s" "list_heap s' = list_heap s"
    and "hemem.more s' = hemem.more s"
  shows "pebs_ok b U E s'"
proof -
  note c = mem_ok_cong [OF assms(3,4)] and m = more_ctl [OF assms(5)]
  show ?thesis
    using assms(1,2) unfolding pebs_ok_def cursors_ok_def rings_ok_def on_free_list_def c m by blast
qed

text \<open>
  What the kernel does for an \<^verbatim>\<open>mmap\<close> that leaves the address to it: the region it returns was not
  in use, and nothing else changes.
\<close>

definition mmap_fresh :: "'k platform \<Rightarrow> ptr \<Rightarrow> u64 \<Rightarrow> u32 \<Rightarrow> u32 \<Rightarrow> u64 \<Rightarrow> ('k, 'a) hemem_scheme \<Rightarrow> bool" where
  "mmap_fresh E addr len prot flags offset s \<longleftrightarrow>
     (let n = unat (PAGE_ROUND_UP len div PAGE_SIZE);
          (p, k) = sys_mmap E addr (PAGE_ROUND_UP len) prot (mmap_flags flags) (dramfd s) (offset + dramoffset s) (kern s)
      in p \<noteq> MAP_FAILED \<and> region_vacant s p n \<and> dev E k = dev E (kern s) \<and>
         (\<forall>a. \<not> in_range p (PAGE_ROUND_UP len) a \<longrightarrow> vmap E k a = vmap E (kern s) a))"

text \<open>The whole of \<^verbatim>\<open>hemem_mmap\<close>: a new region, every page of it populated.\<close>

lemma hemem_mmap_spec:
  fixes s :: "('k, 'a) pebs_scheme"
  assumes E: "platform_ok E" "requests_succeed E" and ok: "pebs_ok b U E s" and init: "is_init s" and hint: "user_hint_tier s \<noteq> 0"
    and len: "0 < len" "unat len + 2 ^ 21 \<le> 2 ^ 64" and free: "unat (PAGE_ROUND_UP len div PAGE_SIZE) \<le> free_count s"
    and fresh: "mmap_fresh E addr len prot flags offset s"
  shows "\<exists>p s'. hemem_mmap E (pebs_pagefault E) addr len prot flags fd offset s = Some (p, s') \<and> pebs_ok b U E s' \<and>
    populated E U p (unat (PAGE_ROUND_UP len div PAGE_SIZE)) s s' \<and> \<not> internal_call s' \<and> p \<noteq> MAP_FAILED"
proof -
  let ?L = "PAGE_ROUND_UP len" and ?n = "unat (PAGE_ROUND_UP len div PAGE_SIZE)"
  note r = round_up_pages [OF len]
  obtain p k1 where mm: "sys_mmap E addr ?L prot (mmap_flags flags) (dramfd s) (offset + dramoffset s) (kern s) = (p, k1)"
    by fastforce
  have f: "p \<noteq> MAP_FAILED" "region_vacant s p ?n" "dev E k1 = dev E (kern s)"
    "\<And>a. \<not> in_range p ?L a \<Longrightarrow> vmap E k1 a = vmap E (kern s) a"
    using fresh mm by (simp_all add: mmap_fresh_def Let_def)
  have v: "unat p + ?n * 2 ^ 21 < 2 ^ 64" "\<And>i. i < ?n \<Longrightarrow> vacant s (page_at p i)"
    using f(2) by (simp_all add: region_vacant_def)
  have p: "p \<noteq> NULL"
    using v(2) [OF r(2)] by (simp add: vacant_def)
  let ?s1 = "s\<lparr>internal_call := True, kern := k1\<rparr>"
  obtain k2 where u: "register_uffd E p ?L ?s1 = Some (?s1\<lparr>kern := k2\<rparr>)" "same_memory E k1 k2"
    using register_uffd_returns [OF E(2), of p ?L ?s1] register_uffd_kern [OF E(1), of p ?L ?s1] by auto
  obtain c k3 where cr: "uffdio_cr3 E k2 = (0, c, k3)" "same_memory E k2 k3"
  proof -
    have "fst (uffdio_cr3 E k2) = 0" "same_memory E k2 (snd (snd (uffdio_cr3 E k2)))"
      using requests_succeedD(7) [OF E(2)] E(1) unfolding platform_ok_def uffd_ok_def by blast+
    with that show ?thesis
      by (cases "uffdio_cr3 E k2") auto
  qed
  define s3 where "s3 = (if cr3_set s then ?s1\<lparr>kern := k2\<rparr> else ?s1\<lparr>kern := k3, cr3 := c, cr3_set := True\<rparr>)"
  have h: "page_heap s3 = page_heap s" "list_heap s3 = list_heap s" "devs s3 = devs s" "pages s3 = pages s"
    "hemem.more s3 = hemem.more s" "user_hint_tier s3 = user_hint_tier s" "same_memory E k1 (kern s3)"
    using u(2) cr(2) by (simp_all add: s3_def devs_def same_memory_def)
  have rg: "\<exists>i < ?n. in_range (page_at p i) PAGE_SIZE a" if "in_range p ?L a" for a
    by (rule in_range_pages [OF v(1)]) (simp only: r(1) [symmetric] that)
  have e3: "dev E (kern s3) = dev E k1" "vmap E (kern s3) = vmap E k1"
    using h(7) by (simp_all add: same_memory_def)
  have kd: "dev E (kern s3) = dev E (kern s)"
    by (simp only: e3 f(3))
  have kv: "vmap E (kern s3) a = vmap E (kern s) a" if "\<forall>i < ?n. \<not> in_range (page_at p i) PAGE_SIZE a" for a
  proof -
    have "\<not> in_range p ?L a"
      using rg [of a] that by blast
    from f(4) [OF this] show ?thesis
      by (simp only: e3)
  qed
  note t = tiers_remap [OF pebs_okD(1) [OF ok] h(1-4) kd kv v(2)]
  have ok3: "pebs_ok b U E s3"
    by (rule pebs_ok_transfer [OF ok t(1) h(1,2,5)])
  have q3: "queue_of s3 = queue_of s"
    by (rule mem_ok_cong(1) [OF h(1,2)])
  have rv: "region_vacant s3 p ?n"
    using f(2) h(4) devs_tier(4) [OF h(3)] by (simp add: region_vacant_def vacant_def)
  obtain s4 where s4: "populate_loop E (pebs_pagefault E) (page_at p ?n) p s3 = Some s4" "pebs_ok b U E s4" "populated E U p ?n s3 s4"
    using populate_loop_spec [OF E ok3 _ _ rv] free hint h(6) q3 by (auto simp: free_count_def)
  have lim: "page_at p ?n = p + ?L"
    using r(1) by (simp add: page_at_def)
  let ?s' = "s4\<lparr>mem_mmaped := ?L, internal_call := False\<rparr>"
  have "hemem_mmap E (pebs_pagefault E) addr len prot flags fd offset s = Some (p, ?s')"
    using init len(1) mm f(1) p u(1) cr(1) r(3) s4(1) lim
    by (cases "cr3_set s") (simp_all add: hemem_mmap_def libc_mmap_def hemem_mmap_populate_def s3_def Let_def)
  moreover have "pebs_ok b U E ?s'"
    by (rule pebs_ok_transfer [OF s4(2)]) (simp_all add: core_ok_heap_cong [of _ s4] devs_def pebs_okD(1) [OF s4(2)])
  moreover have "populated E U p ?n s ?s'"
  proof -
    note d = s4(3) [unfolded populated_def]
    have e: "payload ?s' = payload s4" "kern ?s' = kern s4" "pages ?s' = pages s4" "devs ?s' = devs s4"
      "user_hint_tier ?s' = user_hint_tier s4" "free_count ?s' = free_count s4" "free_count s3 = free_count s"
      by (simp_all add: devs_def free_count_def q3)
    have "same_app U E s s4"
      by (rule same_app_trans [OF t(2) conjunct1 [OF d]])
    then have "same_app U E s ?s'"
      unfolding same_app_def e .
    then show ?thesis
      unfolding populated_def e using d [unfolded h(3,4,6) e(7)] by - (elim conjE, intro conjI; assumption)
  qed
  ultimately show ?thesis
    using f(1) by auto
qed

section \<open>The application's view\<close>

text \<open>The calls of the application that the library answers.\<close>

definition managed_call :: "'k platform \<Rightarrow> u64 \<Rightarrow> u64 \<Rightarrow> u64 \<Rightarrow> u64 \<Rightarrow> ('k, 'a) pebs_scheme \<Rightarrow> bool" where
  "managed_call E len prot flags fd s \<longleftrightarrow> is_init s \<and> \<not> internal_call s \<and>
     c_int fd \<notin> {- 420, dramfd s, nvmfd s} \<and> (ucast flags :: u32) AND MAP_ANONYMOUS = MAP_ANONYMOUS \<and>
     (ucast prot :: u32) AND PROT_EXEC \<noteq> PROT_EXEC \<and> (ucast flags :: u32) AND MAP_STACK \<noteq> MAP_STACK \<and>
     (LLAMA E \<or> 2 ^ 30 \<le> len)"

text \<open>
  C8: a large anonymous mapping of the application is delivered whole. When the library is
  initialised, no tier hint is set, the kernel picks a region that is not in use and there are
  enough free frames, the hook answers the call with that region: every page of it is
  mapped on a frame of its own, the pages the application already had are untouched, the invariant holds
  again, exactly as many frames were taken as the region has pages, and a build that clears
  pages delivers zeros.
\<close>

theorem mmap_delivers:
  assumes "platform_ok E" and "requests_succeed E" and "pebs_ok b U E s" and "user_hint_tier s \<noteq> 0"
    and "managed_call E len prot flags fd s" and "0 < len" and "unat len + 2 ^ 21 \<le> 2 ^ 64"
    and "mmap_fresh E addr len (ucast prot) (ucast flags) offset s"
    and "unat (PAGE_ROUND_UP len div PAGE_SIZE) \<le> free_count s"
  shows "\<exists>p s'. hook E SYS_mmap addr len prot flags fd offset h1 h2 h3 r s = Some (0, p, s') \<and> p \<noteq> MAP_FAILED \<and> \<not> internal_call s' \<and>
    pebs_ok b U E s' \<and> populated E U p (unat (PAGE_ROUND_UP len div PAGE_SIZE)) s s'"
proof -
  have c: "is_init s" "\<not> internal_call s" "c_int fd \<noteq> - 420" "c_int fd \<noteq> dramfd s" "c_int fd \<noteq> nvmfd s"
    "(ucast flags :: u32) AND MAP_ANONYMOUS = MAP_ANONYMOUS" "(ucast prot :: u32) AND PROT_EXEC \<noteq> PROT_EXEC"
    "(ucast flags :: u32) AND MAP_STACK \<noteq> MAP_STACK" "\<not> (\<not> LLAMA E \<and> len < 1 * 1024 * 1024 * 1024)"
    using assms(5) by (auto simp: managed_call_def)
  obtain p s' where m: "hemem_mmap E (pebs_pagefault E) addr len (ucast prot) (ucast flags) (c_int fd) offset s = Some (p, s')"
    and r: "pebs_ok b U E s'" "populated E U p (unat (PAGE_ROUND_UP len div PAGE_SIZE)) s s'" "\<not> internal_call s'" "p \<noteq> MAP_FAILED"
    using hemem_mmap_spec [OF assms(1-3) c(1) assms(4,6,7,9,8)] by blast
  have "hook E SYS_mmap addr len prot flags fd offset h1 h2 h3 r s = Some (0, p, s')"
    unfolding hook_def mmap_filter_def Let_def using c m by simp
  with r show ?thesis by blast
qed

text \<open>A mapping of two pages with the start-up state of the concrete system.\<close>

abbreviation "llama_E \<equiv> sim True True False"

lemma demo_flags: "is_init demo_pebs" "\<not> internal_call demo_pebs"
  by (simp_all add: demo_pebs_def pebs_boot_def hemem_boot_def hemem.defs pebs.defs)

lemma llama_init:
  "\<exists>s. pebs_init demo_dc demo_nc demo_bufs demo_pebs = Some s \<and> pebs_ok True demo_U llama_E s \<and> pages s = Map.empty \<and>
     devs s = devs demo_pebs \<and> user_hint_tier s = - 1 \<and> free_count s = 8 \<and> is_init s \<and> \<not> internal_call s"
proof -
  have "booted llama_E demo_pebs"
    using demo_booted demo_windows unfolding booted_def devices_mapped_def demo_pebs_select by (simp add: HUGEPAGE_SIZE_def)
  from pebs_init_spec [where bufs = demo_bufs, OF this demo_callocs demo_bufs_def demo_bufs_def demo_bufs_def] show ?thesis
    by (auto simp: demo_pebs_select demo_flags free_count_def c_consts)
qed

lemma llama_pages: "unat (PAGE_ROUND_UP (2 ^ 22) div PAGE_SIZE) = 2"
  by code_simp

lemma llama_fresh:
  assumes "devs s = devs demo_pebs" and "pages s = Map.empty"
  shows "mmap_fresh llama_E (2 ^ 32) (2 ^ 22) 3 34 0 s"
proof -
  have fl: "mmap_flags 34 AND MAP_FIXED \<noteq> MAP_FIXED"
    by code_simp
  have ap: "apart s (page_at (2 ^ 32) i)" if "i < 2" for i
  proof -
    have "\<not> in_range (2 ^ 40) (4 * HUGEPAGE_SIZE) a \<and> \<not> in_range (2 ^ 41) (4 * HUGEPAGE_SIZE) a"
      if "in_range (page_at (2 ^ 32) i) PAGE_SIZE a" for a
      using that \<open>i < 2\<close> by (auto simp: in_range_nat c_consts page_at_def less_2_cases_iff)
    then have "apart demo_pebs (page_at (2 ^ 32) i)"
      by (simp add: apart_def demo_pebs_select)
    then show ?thesis
      using devs_tier(4) [OF assms(1)] by simp
  qed
  have "vacant s (page_at (2 ^ 32) i)" if "i < 2" for i
    using ap [OF that] that assms(2) by (auto simp: vacant_def page_at_def less_2_cases_iff c_consts)
  then show ?thesis
    using fl by (auto simp: mmap_fresh_def llama_pages [simplified] region_vacant_def sim_select sim_mmap_def MAP_FAILED_def Let_def)
qed

theorem mmap_delivers_witness:
  "\<exists>s p s'. pebs_init demo_dc demo_nc demo_bufs demo_pebs = Some s \<and>
     hook llama_E SYS_mmap (2 ^ 32) (2 ^ 22) 3 34 (- 1) 0 0 0 0 0 s = Some (0, p, s') \<and> populated llama_E demo_U p 2 s s'"
proof -
  obtain s where s: "pebs_init demo_dc demo_nc demo_bufs demo_pebs = Some s" "pebs_ok True demo_U llama_E s" "pages s = Map.empty"
    "devs s = devs demo_pebs" "user_hint_tier s = - 1" "free_count s = 8" "is_init s" "\<not> internal_call s"
    using llama_init by blast
  have "c_int (- 1) = - 1"
    by code_simp
  then have "managed_call llama_E (2 ^ 22) 3 34 (- 1) s"
    using s(4,7,8) by (simp add: managed_call_def sim_select devs_def demo_pebs_select c_consts)
  from mmap_delivers [OF sim_ok sim_requests_succeed s(2) _ this, of "2 ^ 32" 0 0 0 0 0] llama_fresh [OF s(4,3)] s(1,5,6)
  show ?thesis
    by (auto simp: llama_pages [simplified])
qed

section \<open>Hints\<close>

text \<open>
  C23: no hint the application passes as a C \<^verbatim>\<open>int\<close> selects DRAM. After a hint call with any 64-bit argument for
  the tier, the policy's tier code is 0 (DRAM) exactly if the argument is not 0 but its lower half is, as for
  \<open>2\<^sup>3\<^sup>2\<close>: the hook replaces the argument 0 by \<open>-1\<close> before it cuts the rest down to an \<^verbatim>\<open>int\<close>. An argument that is a sign-extended
  \<^verbatim>\<open>int\<close>, the DRAM code 0 included, never gives code 0, and with another code page faults do not
  take the path for pages that must be in DRAM.
\<close>

theorem hint_never_dram:
  assumes "c_int arg4 = - 420"
  shows "\<exists>s'. hook E SYS_mmap arg0 arg1 arg2 arg3 arg4 arg5 arg6 arg7 arg8 result s = Some (0, result, s') \<and>
    (user_hint_tier s' = 0 \<longleftrightarrow> arg6 \<noteq> 0 \<and> ucast arg6 = (0 :: u32)) \<and>
    (\<forall>tier. - (2 ^ 31) \<le> tier \<and> tier < 2 ^ 31 \<and> arg6 = word_of_int tier \<longrightarrow> user_hint_tier s' \<noteq> 0) \<and>
    (user_hint_tier s' \<noteq> 0 \<longrightarrow> pebs_pagefault E s' = (pebs_allocate_page s' \<bind> (\<lambda>(page, s). assert (page \<noteq> NULL) \<bind> (\<lambda>_. Some (page, s)))))"
proof -
  have "c_int arg6 \<noteq> 0" if "- (2 ^ 31) \<le> tier" "tier < 2 ^ 31" "arg6 = word_of_int tier" "arg6 \<noteq> 0" for tier
    using c_int_of_int [OF that(1,2)] that(3,4) by auto
  moreover have "sint x = 0 \<longleftrightarrow> x = 0" for x :: u32
    by (metis signed_0 signed_word_eqI)
  ultimately show ?thesis
    using assms by (auto simp: hook_def mmap_filter_def pebs_pagefault_def Let_def c_int_def)
qed

theorem hint_never_dram_witness:
  "(\<exists>s'. hook demo_E SYS_mmap 0 0 0 0 (word_of_int (- 420)) 0 (word_of_int 0) 0 0 7 demo_pebs = Some (0, 7, s') \<and> user_hint_tier s' \<noteq> 0) \<and>
   (\<exists>s'. hook demo_E SYS_mmap 0 0 0 0 (word_of_int (- 420)) 0 (2 ^ 32) 0 0 7 demo_pebs = Some (0, 7, s') \<and> user_hint_tier s' = 0)"
proof -
  have c: "c_int (word_of_int (- 420)) = - 420"
    by (rule c_int_of_int) simp_all
  from hint_never_dram [OF c, of demo_E 0 0 0 0 0 0 0 0 7 demo_pebs] hint_never_dram [OF c, of demo_E 0 0 0 0 0 "2 ^ 32" 0 0 7 demo_pebs]
  show ?thesis
    by auto
qed

end
