(* ===== verification/Pebs_Threads.thy ===== *)
theory Pebs_Threads
  imports Pebs_System
begin

text \<open>
  The threads of \<^verbatim>\<open>src/pebs.c\<close> as they interleave. Neither \<^verbatim>\<open>pebs_policy_thread\<close> nor
  \<^verbatim>\<open>pebs_scan_thread\<close> holds a lock over an iteration, so a turn of the policy thread treats one
  page: one entry of a ring, one migration (with the eviction it may need), or one page of a cooling
  sweep. Between two turns the other threads may do anything of the following: the scan thread
  treats one record, the application touches a new page, or unmaps one. What remains whole is the
  treatment of one page or record, a page fault and an unmapping.

  An unmapping is a step only while the policy thread sleeps or works off the free ring. The code does not enforce
  this: in the later phases an unmapped page can still be the subject of a request or be picked as
  a victim (see the last property for what happens then).
\<close>

section \<open>The turns of the policy thread\<close>

text \<open>
  Where the policy thread is: working off the free ring (where it also wakes up), the hot ring and the
  cold ring with the number of requests served, migrating with the number of bytes moved, or
  cooling the hot list of a device with the number of pages to go and the local variable
  \<^verbatim>\<open>current\<close>.
\<close>

datatype policy_pc = Freeing | Heating nat | Chilling nat | Migrating u64 | Cooling bool nat ptr

definition cool_cursor :: "bool \<Rightarrow> ('k, 'a) pebs_scheme \<Rightarrow> ptr" where
  "cool_cursor dram s = (if dram then cur_cool_in_dram s else cur_cool_in_nvm s)"

definition begin_cooling :: "bool \<Rightarrow> ('k, 'a) pebs_scheme \<Rightarrow> policy_pc \<times> ('k, 'a) pebs_scheme" where
  "begin_cooling dram s =
     (if (if dram then need_cool_dram s else need_cool_nvm s)
      then (Cooling dram COOLING_PAGES (cool_cursor dram s), begin_sweep dram (tier_hot dram) s)
      else (Cooling dram 0 (cool_cursor dram s), s))"

definition end_cooling :: "bool \<Rightarrow> ptr \<Rightarrow> ('k, 'a) pebs_scheme \<Rightarrow> policy_pc \<times> ('k, 'a) pebs_scheme" where
  "end_cooling dram c s = (if dram then begin_cooling False (s\<lparr>cur_cool_in_dram := c\<rparr>) else (Freeing, s\<lparr>cur_cool_in_nvm := c\<rparr>))"

fun policy_turn :: "'k platform \<Rightarrow> policy_pc \<Rightarrow> ('k, 'a) pebs_scheme \<Rightarrow> (policy_pc \<times> ('k, 'a) pebs_scheme) option" where
  "policy_turn E Freeing s =
     (if \<not> ring_buf_empty (free_page_ring s) then free_step s \<bind> (\<lambda>s. Some (Freeing, s)) else Some (Heating 0, s))"
| "policy_turn E (Heating n) s =
     (if \<not> ring_buf_empty (hot_ring s) \<and> n < HOT_RING_REQS_THRESHOLD
      then hot_step s \<bind> (\<lambda>(counted, s). Some (Heating (if counted then n + 1 else n), s)) else Some (Chilling 0, s))"
| "policy_turn E (Chilling n) s =
     (if \<not> ring_buf_empty (cold_ring s) \<and> n < COLD_RING_REQS_THRESHOLD
      then cold_step s \<bind> (\<lambda>(counted, s). Some (Chilling (if counted then n + 1 else n), s)) else Some (Migrating 0, s))"
| "policy_turn E (Migrating b) s =
     (if b < PEBS_KSWAPD_MIGRATE_RATE
      then migrate_step E s \<bind> (\<lambda>(r, s). Some (case r of
          Nothing_Hot \<Rightarrow> begin_cooling True s
        | Cooled \<Rightarrow> (Migrating b, s)
        | Moved n \<Rightarrow> (Migrating (b + n), s)
        | No_Victim \<Rightarrow> (Freeing, s)
        | Gave_Up \<Rightarrow> (Migrating b, s)))
      else Some (begin_cooling True s))"
| "policy_turn E (Cooling dram 0 c) s = Some (end_cooling dram c s)"
| "policy_turn E (Cooling dram (Suc n) c) s =
     cool_step (tier_hot dram) (tier_cold dram) dram c s \<bind> (\<lambda>(r, s). Some (case r of
         None \<Rightarrow> end_cooling dram c s
       | Some c \<Rightarrow> (Cooling dram n c, s)))"

text \<open>Left alone, the policy thread's turns make up an iteration.\<close>

definition policy_runs :: "'k platform \<Rightarrow> policy_pc \<times> ('k, 'a) pebs_scheme \<Rightarrow> policy_pc \<times> ('k, 'a) pebs_scheme \<Rightarrow> bool" where
  "policy_runs E = (\<lambda>c c'. policy_turn E (fst c) (snd c) = Some c')\<^sup>*\<^sup>*"

lemma policy_runs_refl [simp]: "policy_runs E c c"
  by (simp add: policy_runs_def)

lemma policy_runs_step: "policy_turn E pc s = Some c \<Longrightarrow> policy_runs E c c' \<Longrightarrow> policy_runs E (pc, s) c'"
  unfolding policy_runs_def by (erule converse_rtranclp_into_rtranclp [rotated]) simp

lemma policy_runs_one: "policy_turn E pc s = Some c \<Longrightarrow> policy_runs E (pc, s) c"
  by (rule policy_runs_step [OF _ policy_runs_refl])

lemma policy_runs_trans: "policy_runs E c c' \<Longrightarrow> policy_runs E c' c'' \<Longrightarrow> policy_runs E c c''"
  unfolding policy_runs_def by (rule rtranclp_trans)

lemma free_loop_runs: "free_loop s = Some s' \<Longrightarrow> policy_runs E (Freeing, s) (Heating 0, s')"
proof (induction rule: free_loop.raw_induct [rotated, consumes 1])
  case (1 loop s s')
  show ?case
  proof (cases "ring_buf_empty (free_page_ring s)")
    case True
    with 1(2) show ?thesis
      by (intro policy_runs_one) auto
  next
    case False
    then obtain t where t: "free_step s = Some t" "loop t = Some s'"
      using 1(2) by (cases "free_step s") auto
    show ?thesis
      by (rule policy_runs_step [OF _ 1(1) [OF t(2)]]) (use False t(1) in simp)
  qed
qed

lemma hot_loop_runs: "hot_loop n s = Some s' \<Longrightarrow> policy_runs E (Heating n, s) (Chilling 0, s')"
proof (induction rule: hot_loop.raw_induct [rotated, consumes 1])
  case (1 loop n s s')
  show ?case
  proof (cases "\<not> ring_buf_empty (hot_ring s) \<and> n < HOT_RING_REQS_THRESHOLD")
    case False
    with 1(2) have "s' = s"
      by (simp only: if_False) simp
    with False show ?thesis
      by (intro policy_runs_one) auto
  next
    case True
    then obtain c t where t: "hot_step s = Some (c, t)" "loop (if c then n + 1 else n) t = Some s'"
      using 1(2) by (cases "hot_step s") auto
    show ?thesis
      by (rule policy_runs_step [OF _ 1(1) [OF t(2)]]) (use True t(1) in simp)
  qed
qed

lemma cold_loop_runs: "cold_loop n s = Some s' \<Longrightarrow> policy_runs E (Chilling n, s) (Migrating 0, s')"
proof (induction rule: cold_loop.raw_induct [rotated, consumes 1])
  case (1 loop n s s')
  show ?case
  proof (cases "\<not> ring_buf_empty (cold_ring s) \<and> n < COLD_RING_REQS_THRESHOLD")
    case False
    with 1(2) have "s' = s"
      by (simp only: if_False) simp
    with False show ?thesis
      by (intro policy_runs_one) auto
  next
    case True
    then obtain c t where t: "cold_step s = Some (c, t)" "loop (if c then n + 1 else n) t = Some s'"
      using 1(2) by (cases "cold_step s") auto
    show ?thesis
      by (rule policy_runs_step [OF _ 1(1) [OF t(2)]]) (use True t(1) in simp)
  qed
qed

lemma migrate_loop_runs:
  "migrate_loop E b s = Some (out, s') \<Longrightarrow> policy_runs E (Migrating b, s) (if out then (Freeing, s') else begin_cooling True s')"
proof (induction E b s "(out, s')" rule: migrate_loop.raw_induct [rotated, consumes 1])
  case (1 loop E b s)
  show ?case
  proof (cases "b < PEBS_KSWAPD_MIGRATE_RATE")
    case False
    with 1(2) have "s' = s" "\<not> out"
      by (simp_all only: if_False) simp_all
    with False show ?thesis
      by (intro policy_runs_one) auto
  next
    case True
    then obtain r t where t: "migrate_step E s = Some (r, t)"
      using 1(2) by (cases "migrate_step E s") auto
    have go: "policy_runs E (Migrating b, s) (if out then (Freeing, s') else begin_cooling True s')"
      if "policy_turn E (Migrating b) s = Some (Migrating b', t)" "loop E b' t = Some (out, s')" for b'
      by (rule policy_runs_step [OF that(1) 1(1) [OF that(2)]])
    show ?thesis
    proof (cases r)
      case Nothing_Hot
      with True t 1(2) show ?thesis
        by (auto intro: policy_runs_one)
    next
      case Cooled
      show ?thesis
        by (rule go [of b]) (use Cooled True t 1(2) in simp_all)
    next
      case (Moved n)
      show ?thesis
        by (rule go [of "b + n"]) (use Moved True t 1(2) in simp_all)
    next
      case No_Victim
      with True t 1(2) show ?thesis
        by (auto intro: policy_runs_one)
    next
      case Gave_Up
      show ?thesis
        by (rule go [of b]) (use Gave_Up True t 1(2) in simp_all)
    qed
  qed
qed

lemma cool_loop_runs:
  "cool_loop n (tier_hot dram) (tier_cold dram) dram c s = Some (c', s') \<Longrightarrow>
     policy_runs E (Cooling dram n c, s) (end_cooling dram c' s')"
proof (induction n arbitrary: c s)
  case 0
  then show ?case
    by (intro policy_runs_one) auto
next
  case (Suc n)
  then obtain r t where t: "cool_step (tier_hot dram) (tier_cold dram) dram c s = Some (r, t)"
    by (cases "cool_step (tier_hot dram) (tier_cold dram) dram c s") auto
  with Suc show ?case
    by (cases r) (auto intro: policy_runs_step)
qed

lemma partial_cool_runs:
  assumes "partial_cool (tier_hot dram) (tier_cold dram) dram (cool_cursor dram s) s = Some (c', s')"
  shows "policy_runs E (begin_cooling dram s) (end_cooling dram c' s')"
proof (cases "if dram then need_cool_dram s else need_cool_nvm s")
  case True
  have "cool_loop COOLING_PAGES (tier_hot dram) (tier_cold dram) dram (cool_cursor dram s)
      (begin_sweep dram (tier_hot dram) s) = Some (c', s')"
    using assms True unfolding partial_cool_eq by (cases dram) simp_all
  from cool_loop_runs [OF this] True show ?thesis
    by (simp add: begin_cooling_def)
next
  case False
  with assms show ?thesis
    unfolding partial_cool_eq by (auto simp: begin_cooling_def intro: policy_runs_one split: if_splits)
qed

lemma policy_thread_runs:
  assumes "pebs_policy_thread E s = Some s'"
  shows "policy_runs E (Freeing, s) (Freeing, s')"
proof -
  obtain s1 s2 s3 out s4 where l: "free_loop s = Some s1" "hot_loop 0 s1 = Some s2" "cold_loop 0 s2 = Some s3"
    "migrate_loop E 0 s3 = Some (out, s4)" "(if out then Some s4 else cool_lists s4) = Some s'"
    using assms by (auto simp: pebs_policy_thread_def bind_Some_iff)
  note r = policy_runs_trans [OF free_loop_runs [OF l(1)] policy_runs_trans [OF hot_loop_runs [OF l(2)]
      policy_runs_trans [OF cold_loop_runs [OF l(3)] migrate_loop_runs [OF l(4)]]]]
  show ?thesis
  proof (cases out)
    case True
    with r l(5) show ?thesis by simp
  next
    case False
    then obtain c t d u where c: "partial_cool (tier_hot True) (tier_cold True) True (cool_cursor True s4) s4 = Some (c, t)"
      "partial_cool (tier_hot False) (tier_cold False) False (cool_cursor False (t\<lparr>cur_cool_in_dram := c\<rparr>)) (t\<lparr>cur_cool_in_dram := c\<rparr>) = Some (d, u)"
      "s' = u\<lparr>cur_cool_in_nvm := d\<rparr>"
      using l(5) by (auto simp: cool_lists_def cool_cursor_def tier_hot_def tier_cold_def bind_Some_iff)
    from policy_runs_trans [OF partial_cool_runs [OF c(1)]] partial_cool_runs [OF c(2)]
    have "policy_runs E (begin_cooling True s4) (Freeing, s')"
      by (simp add: end_cooling_def c(3))
    with r False show ?thesis
      using policy_runs_trans by fastforce
  qed
qed

section \<open>Cooling page by page\<close>

text \<open>
  The local cursor of a sweep is on the hot list (or \<^verbatim>\<open>NULL\<close>), and never behind the cursor the
  sweep began with: pages are taken off the list ahead of both.
\<close>

definition cool_ok :: "bool \<Rightarrow> ptr \<Rightarrow> ('k, 'a) pebs_scheme \<Rightarrow> bool" where
  "cool_ok dram c s \<longleftrightarrow> (c = NULL \<or> c \<in> set (queue_of s (tier_hot dram))) \<and>
     (cool_cursor dram s = NULL \<or> (\<exists>ys zs. queue_of s (tier_hot dram) = ys @ c # zs \<and> cool_cursor dram s \<in> set (c # zs)))"

lemma cool_ok_cong:
  "queue_of s' (tier_hot dram) = queue_of s (tier_hot dram) \<Longrightarrow> cool_cursor dram s' = cool_cursor dram s \<Longrightarrow>
     cool_ok dram c s' = cool_ok dram c s"
  by (simp add: cool_ok_def)

lemma cool_ok_begin:
  assumes "cursors_ok s"
  shows "cool_ok dram (cool_cursor dram s) s"
proof -
  have "cool_cursor dram s = NULL \<or> cool_cursor dram s \<in> set (queue_of s (tier_hot dram))"
    using assms by (simp add: cursors_ok_def cool_cursor_def tier_hot_def)
  then show ?thesis
    unfolding cool_ok_def by (metis list.set_intros(1) split_list)
qed

lemma begin_sweep_keeps:
  "hot_ring (begin_sweep dram q s) = hot_ring s" "cold_ring (begin_sweep dram q s) = cold_ring s"
  "free_page_ring (begin_sweep dram q s) = free_page_ring s" "cur_cool_in_dram (begin_sweep dram q s) = cur_cool_in_dram s"
  "cur_cool_in_nvm (begin_sweep dram q s) = cur_cool_in_nvm s" "cool_cursor e (begin_sweep dram q s) = cool_cursor e s"
  by (simp_all add: begin_sweep_def Let_def cool_cursor_def)

lemma begin_sweep_ok:
  assumes "pebs_ok True U E s"
  shows "pebs_ok True U E (begin_sweep dram q s)"
  by (rule pebs_ok_rings [OF assms])
    (use pebs_okD(1,2) [OF assms] in \<open>simp_all add: begin_sweep_keeps cursors_ok_def\<close>)

text \<open>One page of a sweep: the list ends, the page ahead of the cursor is still hot, or it is moved.\<close>

lemma cool_step_ok:
  assumes ok: "pebs_ok True U E s" and cur: "cool_ok dram c s"
  shows "\<exists>r s'. cool_step (tier_hot dram) (tier_cold dram) dram c s = Some (r, s') \<and> pebs_ok True U E s' \<and>
    same_app U E s s' \<and> cool_ok dram (case r of None \<Rightarrow> c | Some c' \<Rightarrow> c') s' \<and> (r = None \<longrightarrow> s' = s)"
proof -
  note k = pebs_okD [OF ok]
  note d = lists_okD [OF k(4)]
  have on: "c = NULL \<or> c \<in> set (queue_of s (tier_hot dram))"
    using cur by (simp add: cool_ok_def)
  obtain r s' where r: "cool_step (tier_hot dram) (tier_cold dram) dram c s = Some (r, s')"
    "cooled_to dram U E s (case r of None \<Rightarrow> c | Some c' \<Rightarrow> c') s'" "sweeps dram c r s s'"
    using cool_step_spec [OF k(1) on] by metis
  have st: "still s s'" and core: "core_ok True U {} E s'" and cc: "cool_cursor dram s' = cool_cursor dram s"
    using r(2) by (simp_all add: cooled_to_def still_def cool_cursor_def)
  have nx: "cool_ok dram (case r of None \<Rightarrow> c | Some c' \<Rightarrow> c') s' \<and> (r = None \<longrightarrow> s' = s)"
  proof (cases r)
    case None
    with r(3) cur show ?thesis by (simp add: sweeps_def)
  next
    case (Some c')
    then obtain ys p zs where q: "queue_of s (tier_hot dram) = ys @ p # zs" "hd_or NULL zs = c"
      "c' = p \<and> queue_of s' (tier_hot dram) = ys @ p # zs \<or> c' = c \<and> queue_of s' (tier_hot dram) = ys @ zs"
      using r(3) by (auto simp: sweeps_def)
    have behind: "cool_cursor dram s \<in> set zs \<and> zs = c # tl zs" if ne: "cool_cursor dram s \<noteq> NULL"
    proof -
      obtain ys' zs' where z: "ys @ p # zs = ys' @ c # zs'" "cool_cursor dram s \<in> set (c # zs')"
        using cur ne q(1) by (auto simp: cool_ok_def)
      have "c \<noteq> NULL"
        using queue_of_not_NULL [OF d(1), of "tier_hot dram"] unfolding q(1) z(1) by auto
      then obtain zs1 where zs: "zs = c # zs1"
        using q(2) by (cases zs) auto
      have "zs1 = zs'"
        using queue_of_distinct [OF d(1), of "tier_hot dram"] z(1) unfolding q(1) zs
        by (auto simp: append_eq_append_conv2 append_eq_Cons_conv Cons_eq_append_conv)
      with z(2) zs show ?thesis by simp
    qed
    have on': "c' = NULL \<or> c' \<in> set (queue_of s' (tier_hot dram))"
      using r(2) Some by (simp add: cooled_to_def)
    show ?thesis
    proof (cases "cool_cursor dram s = NULL")
      case True
      with on' Some cc show ?thesis by (simp add: cool_ok_def)
    next
      case False
      note b = behind [OF False]
      have "\<exists>ys zs. queue_of s' (tier_hot dram) = ys @ c' # zs \<and> cool_cursor dram s' \<in> set (c' # zs)"
        using q(3)
      proof
        assume "c' = p \<and> queue_of s' (tier_hot dram) = ys @ p # zs"
        with b cc show ?thesis by (intro exI [of _ ys] exI [of _ zs]) simp
      next
        assume "c' = c \<and> queue_of s' (tier_hot dram) = ys @ zs"
        with b cc show ?thesis by (intro exI [of _ ys] exI [of _ "tl zs"]) (metis)
      qed
      with on' Some show ?thesis by (simp add: cool_ok_def)
    qed
  qed
  have "cool_cursor dram s' = NULL \<or> cool_cursor dram s' \<in> set (queue_of s' (tier_hot dram))"
    using nx by (fastforce simp: cool_ok_def)
  moreover have "queue_of s' (tier_hot (\<not> dram)) = queue_of s (tier_hot (\<not> dram))"
    using r(2) by (cases dram) (simp_all add: cooled_to_def tier_hot_def tier_cold_def)
  ultimately have "cursors_ok s'"
    using k(2) st by (cases dram) (simp_all add: cursors_ok_def cool_cursor_def tier_hot_def still_def)
  then have "pebs_ok True U E s'"
    by (rule pebs_ok_rings [OF ok core]) (use st in \<open>simp_all add: still_def\<close>)
  with r(1) nx still_app [OF st] show ?thesis by blast
qed

section \<open>Each turn keeps the invariant\<close>

fun thread_ok :: "ptr set \<Rightarrow> 'k platform \<Rightarrow> policy_pc \<Rightarrow> ('k, 'a) pebs_scheme \<Rightarrow> bool" where
  "thread_ok U E Freeing s \<longleftrightarrow> pebs_ok False U E s"
| "thread_ok U E (Cooling dram n c) s \<longleftrightarrow> pebs_ok True U E s \<and> cool_ok dram c s"
| "thread_ok U E _ s \<longleftrightarrow> pebs_ok True U E s"

lemma thread_ok_weak: "thread_ok U E pc s \<Longrightarrow> pebs_ok False U E s"
  using pebs_ok_weaken by (cases pc) auto

text \<open>What the other threads' steps keep is enough for the policy thread.\<close>

lemma thread_ok_other:
  assumes "thread_ok U E pc s" and "\<And>b. pebs_ok b U E s \<Longrightarrow> pebs_ok b U E s'"
    and "cur_cool_in_dram s' = cur_cool_in_dram s" "cur_cool_in_nvm s' = cur_cool_in_nvm s"
    and "queue_of s' dram_hot_list = queue_of s dram_hot_list" "queue_of s' nvm_hot_list = queue_of s nvm_hot_list"
  shows "thread_ok U E pc s'"
proof -
  have "cool_ok dram c s' = cool_ok dram c s" for dram c
    by (rule cool_ok_cong) (use assms(3-6) in \<open>simp_all add: cool_cursor_def tier_hot_def\<close>)
  with assms(1,2) show ?thesis
    by (cases pc) auto
qed

lemma begin_cooling_ok:
  assumes "pebs_ok True U E s"
  shows "thread_ok U E (fst (begin_cooling dram s)) (snd (begin_cooling dram s)) \<and> same_app U E s (snd (begin_cooling dram s))"
proof -
  note k = pebs_okD [OF assms]
  have "cool_ok dram (cool_cursor dram s) (begin_sweep dram (tier_hot dram) s)"
    using cool_ok_begin [OF k(2)] cool_ok_cong [of "begin_sweep dram (tier_hot dram) s" dram s] by (simp add: begin_sweep_keeps)
  moreover have "same_app U E s (begin_sweep dram (tier_hot dram) s)"
    by (rule still_app) simp
  ultimately show ?thesis
    using assms begin_sweep_ok [OF assms, of dram "tier_hot dram"] cool_ok_begin [OF k(2), of dram] by (simp add: begin_cooling_def)
qed

lemma end_cooling_ok:
  assumes ok: "pebs_ok True U E s" and c: "cool_ok dram c s"
  shows "thread_ok U E (fst (end_cooling dram c s)) (snd (end_cooling dram c s)) \<and> same_app U E s (snd (end_cooling dram c s))"
proof -
  let ?s = "if dram then s\<lparr>cur_cool_in_dram := c\<rparr> else s\<lparr>cur_cool_in_nvm := c\<rparr>"
  note k = pebs_okD [OF ok]
  have "cursors_ok ?s"
    using k(2) c by (auto simp: cursors_ok_def cool_ok_def tier_hot_def)
  then have ok': "pebs_ok True U E ?s"
    by (rule pebs_ok_rings [OF ok, rotated]) (use k(1) in simp_all)
  have app: "same_app U E s ?s"
    by (simp add: same_app_def)
  show ?thesis
  proof (cases dram)
    case True
    with ok' app begin_cooling_ok [of U E "s\<lparr>cur_cool_in_dram := c\<rparr>" False] show ?thesis
      using same_app_trans by (fastforce simp: end_cooling_def)
  next
    case False
    with ok' app pebs_ok_weaken show ?thesis
      by (auto simp: end_cooling_def)
  qed
qed

lemma policy_turn_ok:
  assumes E: "platform_ok E" "requests_succeed E" and ok: "thread_ok U E pc s"
  shows "policy_turn E pc s = Some (pc', s') \<Longrightarrow> thread_ok U E pc' s' \<and> same_app U E s s'"
    and "0 < free_count s \<Longrightarrow> policy_turn E pc s \<noteq> None"
proof -
  have "(policy_turn E pc s = Some (pc', s') \<longrightarrow> thread_ok U E pc' s' \<and> same_app U E s s') \<and>
    (0 < free_count s \<longrightarrow> policy_turn E pc s \<noteq> None)"
  proof (cases pc)
    case Freeing
    then have f: "pebs_ok False U E s"
      using ok by simp
    show ?thesis
    proof (cases "ring_buf_empty (free_page_ring s)")
      case True
      with Freeing pebs_ok_settle(1) [OF f True] show ?thesis by auto
    next
      case False
      obtain t where t: "free_step s = Some t" "pebs_ok False U E t" "payload t = payload s" "kern t = kern s"
        using free_step_spec [OF f False] by blast
      have "same_app U E s t"
        by (rule same_app_place) (simp_all add: t)
      with Freeing False t show ?thesis by auto
    qed
  next
    case (Heating n)
    then have h: "pebs_ok True U E s"
      using ok by simp
    show ?thesis
    proof (cases "\<not> ring_buf_empty (hot_ring s) \<and> n < HOT_RING_REQS_THRESHOLD")
      case True
      obtain c t where t: "hot_step s = Some (c, t)" "pebs_ok True U E t" "kern t = kern s"
        "\<forall>p. place (payload t p) = place (payload s p)"
        using hot_step_spec [OF h] True by blast
      have "same_app U E s t"
        by (rule same_app_place) (simp_all add: t)
      with Heating True t show ?thesis by auto
    qed (use Heating h in auto)
  next
    case (Chilling n)
    then have h: "pebs_ok True U E s"
      using ok by simp
    show ?thesis
    proof (cases "\<not> ring_buf_empty (cold_ring s) \<and> n < COLD_RING_REQS_THRESHOLD")
      case True
      obtain c t where t: "cold_step s = Some (c, t)" "pebs_ok True U E t" "kern t = kern s"
        "\<forall>p. place (payload t p) = place (payload s p)"
        using cold_step_spec [OF h] True by blast
      have "same_app U E s t"
        by (rule same_app_place) (simp_all add: t)
      with Chilling True t show ?thesis by auto
    qed (use Chilling h in auto)
  next
    case (Migrating b)
    then have h: "pebs_ok True U E s"
      using ok by simp
    show ?thesis
    proof (cases "b < PEBS_KSWAPD_MIGRATE_RATE")
      case False
      with Migrating begin_cooling_ok [OF h, of True] show ?thesis by auto
    next
      case True
      have ret: "0 < free_count s \<longrightarrow> migrate_step E s \<noteq> None"
        using migrate_step_spec [OF E h] by auto
      show ?thesis
      proof (cases "migrate_step E s")
        case None
        with Migrating True ret show ?thesis by simp
      next
        case (Some x)
        obtain r t where x: "x = (r, t)" by (cases x)
        from Some have st: "migrate_step E s = Some (r, t)"
          unfolding x .
        have m: "pebs_ok True U E t" "same_app U E s t"
          using migrate_step_partial [OF E h st] by (simp_all add: migrates_def)
        from m Migrating True st begin_cooling_ok [OF m(1), of True] pebs_ok_weaken [OF m(1)] same_app_trans [OF m(2)] show ?thesis
          by (cases r) auto
      qed
    qed
  next
    case (Cooling dram n c)
    then have h: "pebs_ok True U E s" and c: "cool_ok dram c s"
      using ok by simp_all
    show ?thesis
    proof (cases n)
      case 0
      with Cooling end_cooling_ok [OF h c] show ?thesis by auto
    next
      case (Suc m)
      obtain r t where t: "cool_step (tier_hot dram) (tier_cold dram) dram c s = Some (r, t)" "pebs_ok True U E t" "same_app U E s t"
        "cool_ok dram (case r of None \<Rightarrow> c | Some c' \<Rightarrow> c') t"
        using cool_step_ok [OF h c] by blast
      with Cooling Suc end_cooling_ok [OF t(2), of dram c] same_app_trans [OF t(3)] show ?thesis
        by (cases r) auto
    qed
  qed
  then show "policy_turn E pc s = Some (pc', s') \<Longrightarrow> thread_ok U E pc' s' \<and> same_app U E s s'"
    and "0 < free_count s \<Longrightarrow> policy_turn E pc s \<noteq> None"
    by blast+
qed

section \<open>The system\<close>

text \<open>
  The steps of the threads: the scan thread treats a record of core \<open>i\<close> and buffer \<open>j\<close>; the policy thread takes
  a turn; the fault path maps a new page at a vacant address; and a page is unmapped.
\<close>

inductive pebs_step :: "'k platform \<Rightarrow> policy_pc \<times> ('k, 'a) pebs_scheme \<Rightarrow> policy_pc \<times> ('k, 'a) pebs_scheme \<Rightarrow> bool" for E where
  sample: "pebs_step E (pc, s) (pc, pebs_scan_record i j r s)"
| policy: "policy_turn E pc s = Some c \<Longrightarrow> pebs_step E (pc, s) c"
| touch: "vacant s v \<Longrightarrow> user_hint_tier s \<noteq> 0 \<Longrightarrow> populate_page E (pebs_pagefault E) v s = Some (w, s') \<Longrightarrow>
    pebs_step E (pc, s) (pc, s')"
| unmap: "unmap_page pebs_remove_page v s = Some (w, s') \<Longrightarrow> pebs_step E (Freeing, s) (Freeing, s')"

inductive_cases pebs_stepE: "pebs_step E c c'"

lemma unmap_step_ok:
  assumes ok: "pebs_ok False U E s" and run: "unmap_page pebs_remove_page v s = Some (w, s')"
  shows "pebs_ok False U E s'"
proof (cases "pages s v")
  case None
  with run unmap_nothing [of s v pebs_remove_page] ok show ?thesis by simp
next
  case (Some p)
  then have "p \<noteq> NULL"
    using core_okD(3) [OF pebs_okD(1) [OF ok]] lists_okD(3) [OF pebs_okD(4) [OF ok]] by (auto simp: maps_ok_def)
  then have "\<not> ring_buf_full (free_page_ring s)"
    using unmap_full_ring [OF Some] run by auto
  with unmap_pebs_spec [OF ok _ Some] run show ?thesis by auto
qed

lemma sampled_record:
  assumes "pebs_ok b U E s"
  shows "sampled U s (pebs_scan_record i j r s)"
  by (rule pebs_scan_record_sampled [OF pebs_okD(5) [OF assms]])
    (use core_okD(3) [OF pebs_okD(1) [OF assms]] in \<open>auto simp: maps_ok_def\<close>)

lemma pebs_step_ok:
  assumes E: "platform_ok E" "requests_succeed E" and step: "pebs_step E c c'" and ok: "thread_ok U E (fst c) (snd c)"
  shows "thread_ok U E (fst c') (snd c')"
  using step
proof (cases rule: pebs_step.cases)
  case (sample pc s i j r)
  then have ok: "thread_ok U E pc s"
    using ok by simp
  note sm = sampled_record [OF thread_ok_weak [OF ok], of i j r]
  have "thread_ok U E pc (pebs_scan_record i j r s)"
    by (rule thread_ok_other [OF ok sampled_ok(1) [OF _ sm]]) (use sm in \<open>simp_all add: sampled_def\<close>)
  with sample show ?thesis by simp
next
  case (policy pc s)
  with policy_turn_ok(1) [OF E, of U pc s "fst c'" "snd c'"] ok show ?thesis by simp
next
  case (touch s v w s' pc)
  then have ok: "thread_ok U E pc s"
    using ok by simp
  note weak = thread_ok_weak [OF ok]
  have free: "0 < free_count s"
    using populate_full [OF weak _ touch(4), of v] touch(5) by (cases "free_count s = 0") auto
  have keep: "pebs_ok b U E s'" if "pebs_ok b U E s" for b
    using populate_pebs_spec [OF E that free touch(4,3)] touch(5) by auto
  obtain p where "touched E U v p s s'"
    using populate_pebs_spec [OF E weak free touch(4,3)] touch(5) by auto
  then have "thread_ok U E pc s'"
    by (intro thread_ok_other [OF ok keep]) (simp_all add: touched_def)
  with touch show ?thesis by simp
next
  case (unmap v s w s')
  with unmap_step_ok [of U E s v w s'] ok show ?thesis by simp
qed

lemma pebs_reachable_ok:
  assumes E: "platform_ok E" "requests_succeed E" and "(pebs_step E)\<^sup>*\<^sup>* c c'" and "thread_ok U E (fst c) (snd c)"
  shows "thread_ok U E (fst c') (snd c')"
  using assms(3,4)
proof (induction rule: rtranclp_induct)
  case (step t u)
  then show ?case
    using pebs_step_ok [OF E step.hyps(2)] by blast
qed

text \<open>After start-up.\<close>

lemma started_ok:
  assumes E: "platform_ok E" "requests_succeed E" and "booted E s0" and "callocs_ok dc nc s0"
    and "pebs_init dc nc bufs s0 = Some s1" and "(pebs_step E)\<^sup>*\<^sup>* (Freeing, s1) (pc, s)"
  shows "thread_ok (managed dc nc s0) E pc s"
proof -
  have "thread_ok (managed dc nc s0) E Freeing s1"
    using pebs_ok_weaken [OF pebs_init_ok [OF assms(3-5)]] by simp
  then show ?thesis
    using pebs_reachable_ok [OF E assms(6)] by simp
qed

lemma rtranclp_two: "r x y \<Longrightarrow> r y z \<Longrightarrow> r\<^sup>*\<^sup>* x z"
  by (meson r_into_rtranclp rtranclp_trans)

section \<open>From samples to the hot list\<close>

text \<open>A page in use with \<open>k\<close> samples since it was idle, all in the current tick of the cooling clock.\<close>

definition sampled_times :: "ptr \<Rightarrow> nat \<Rightarrow> ('k, 'a) pebs_scheme \<Rightarrow> bool" where
  "sampled_times p k s \<longleftrightarrow> (let pg = page_heap s p in
     unat (accesses pg DRAMREAD) + unat (accesses pg NVMREAD) = k \<and> local_clock pg = global_clock s \<and> \<not> hot pg \<and>
     ring_present pg = (8 \<le> k) \<and> ring_ok (hot_ring s) \<and> ring_list (hot_ring s) = (if 8 \<le> k then [p] else []))"

lemma total_reads_nat:
  assumes "unat (accesses pg DRAMREAD) + unat (accesses pg NVMREAD) = k" and "k < 2 ^ 64"
  shows "unat (total_reads pg) = k" and "HOT_READ_THRESHOLD \<le> total_reads pg \<longleftrightarrow> 8 \<le> k"
proof -
  show u: "unat (total_reads pg) = k"
    using assms by (simp add: total_reads_def unat_word_ariths)
  show "HOT_READ_THRESHOLD \<le> total_reads pg \<longleftrightarrow> 8 \<le> k"
    by (simp add: word_le_nat_alt u HOT_READ_THRESHOLD_def)
qed

lemma age_counts_same: "local_clock pg = clock \<Longrightarrow> age_counts clock pg = pg"
  by (cases pg) (simp add: age_counts_def)

lemma sample_page_counts:
  assumes s: "sampled_times p k s" and k: "k < 24"
  shows "sampled_times p (Suc k) (sample_page i j p s)" and "cold_ring (sample_page i j p s) = cold_ring s"
    and "global_clock (sample_page i j p s) = global_clock s"
proof -
  note d = s [unfolded sampled_times_def Let_def]
  define pg where "pg = (page_heap s p)\<lparr>accesses := (accesses (page_heap s p))(j := accesses (page_heap s p) j + 1),
      tot_accesses := (tot_accesses (page_heap s p))(j := tot_accesses (page_heap s p) j + 1)\<rparr>"
  have inc: "unat (accesses (page_heap s p) x + 1) = Suc (unat (accesses (page_heap s p) x))" for x
    using d k by (cases x) (simp_all add: unat_word_ariths)
  have n: "unat (accesses pg DRAMREAD) + unat (accesses pg NVMREAD) = Suc k"
    using d inc by (cases j) (simp_all add: pg_def)
  have t: "HOT_READ_THRESHOLD \<le> total_reads pg \<longleftrightarrow> 8 \<le> Suc k"
    by (rule total_reads_nat(2) [OF n]) (use k in simp)
  have "unat (accesses pg j) \<le> Suc k"
    using n by (cases j) simp_all
  then have c: "\<not> PEBS_COOLING_THRESHOLD < accesses pg j"
    using k by (simp add: word_less_nat_alt PEBS_COOLING_THRESHOLD_def)
  have f: "hot pg = hot (page_heap s p)" "ring_present pg = ring_present (page_heap s p)" "local_clock pg = local_clock (page_heap s p)"
    by (simp_all add: pg_def)
  have put: "ring_ok (ring_buf_put p (hot_ring s)) \<and> ring_list (ring_buf_put p (hot_ring s)) = [p]" if "k < 8"
    using ring_put_law [of "hot_ring s" p] ring_list_empty [of "hot_ring s"] d that by (simp add: ring_buf_empty_def)
  define s1 where "s1 = upd_page p (\<lambda>p. p\<lparr>accesses := (accesses p)(j := accesses p j + 1),
      tot_accesses := (tot_accesses p)(j := tot_accesses p j + 1)\<rparr>) s"
  have s1: "page_heap s1 p = pg" "hot_ring s1 = hot_ring s" "cold_ring s1 = cold_ring s" "global_clock s1 = global_clock s"
    by (simp_all add: s1_def pg_def)
  define s2 where "s2 = (if k = 7 then make_hot_request p s1 else s1)"
  have ask: "(if total_reads pg \<ge> HOT_READ_THRESHOLD then (if \<not> hot pg \<and> \<not> ring_present pg then make_hot_request p s1 else s1)
      else if total_reads pg < HOT_READ_THRESHOLD then (if hot pg \<and> \<not> ring_present pg then make_cold_request p s1 else s1)
      else s1) = s2"
    using d f t by (auto simp: s2_def)
  define pg' where "pg' = (if k = 7 then pg\<lparr>ring_present := True\<rparr> else pg)"
  have s2: "page_heap s2 p = pg'" "cold_ring s2 = cold_ring s" "global_clock s2 = global_clock s"
    "hot_ring s2 = (if k = 7 then ring_buf_put p (hot_ring s) else hot_ring s)"
    using s1 by (simp_all add: s2_def make_hot_request_def pg'_def)
  define s3 where "s3 = s2\<lparr>accesses_cnt := (accesses_cnt s2)(j := accesses_cnt s2 j + 1),
      core_accesses_cnt := (core_accesses_cnt s2)(i := core_accesses_cnt s2 i + 1)\<rparr>"
  define s4 where "s4 = upd_page p (age_counts (global_clock s3)) s3"
  have "local_clock pg' = global_clock s"
    using d f(3) by (simp add: pg'_def)
  then have age: "age_counts (global_clock s) pg' = pg'"
    by (rule age_counts_same)
  have s4: "page_heap s4 p = pg'" "cold_ring s4 = cold_ring s" "global_clock s4 = global_clock s" "hot_ring s4 = hot_ring s2"
    using s2 age by (simp_all add: s4_def s3_def)
  have pg': "accesses pg' = accesses pg" "hot pg' = hot pg" "local_clock pg' = local_clock pg"
    "ring_present pg' = (k = 7 \<or> ring_present pg)"
    by (simp_all add: pg'_def)
  have "sample_page i j p s = (if accesses (page_heap s4 p) j > PEBS_COOLING_THRESHOLD
       then s4\<lparr>global_clock := global_clock s4 + 1, cools := cools s4 + 1, need_cool_dram := True, need_cool_nvm := True\<rparr>
       else s4)"
    unfolding sample_page_def Let_def s1_def [symmetric] s1(1) ask s3_def [symmetric] s4_def [symmetric] by (rule refl)
  then have run: "sample_page i j p s = s4"
    using c s4(1) pg'(1) by simp
  show "cold_ring (sample_page i j p s) = cold_ring s" "global_clock (sample_page i j p s) = global_clock s"
    using s4 by (simp_all add: run)
  show "sampled_times p (Suc k) (sample_page i j p s)"
    using d n f put unfolding run sampled_times_def Let_def s4 s2 pg' by auto
qed

lemma record_counts:
  fixes i :: nat and j :: pbuftype
  assumes ok: "pebs_ok b U E s" and v: "pages s v = Some p" "v \<noteq> 0" and a: "addr \<noteq> 0" "addr AND HUGE_PFN_MASK = v"
    and k: "sampled_times p k s" "k < 24"
  defines "s' \<equiv> pebs_scan_record i j (PERF_RECORD_SAMPLE addr) s"
  shows "sampled_times p (Suc k) s' \<and> pebs_ok b U E s' \<and> pages s' = pages s \<and> cold_ring s' = cold_ring s \<and> global_clock s' = global_clock s"
proof -
  have p: "p \<in> U" "p \<noteq> NULL" "va (page_heap s p) = v"
    using core_okD(3) [OF pebs_okD(1) [OF ok]] lists_okD(3) [OF pebs_okD(4) [OF ok]] v(1) by (auto simp: maps_ok_def payload_select)
  have "s' = (let t = sample_page i j p s in t\<lparr>hemem_pages_cnt := hemem_pages_cnt t + 1, total_pages_cnt := total_pages_cnt t + 1\<rparr>)"
    using a v p by (simp add: s'_def pebs_scan_record_def get_hemem_page_def find_page_def Let_def)
  then have "sampled_times p (Suc k) s'" "cold_ring s' = cold_ring s" "global_clock s' = global_clock s"
    using sample_page_counts [OF k, of i j] by (simp_all add: sampled_times_def Let_def)
  moreover have "sampled U s s'"
    unfolding s'_def by (rule sampled_record [OF ok])
  ultimately show ?thesis
    using sampled_ok(1) [OF ok] by (auto simp: sampled_def)
qed

text \<open>Records of samples in the page at \<open>v\<close>.\<close>

definition samples_of :: "u64 \<Rightarrow> (nat \<times> pbuftype \<times> perf_record) list \<Rightarrow> bool" where
  "samples_of v rs \<longleftrightarrow> (\<forall>(i, j, r) \<in> set rs. \<exists>a. r = PERF_RECORD_SAMPLE a \<and> a \<noteq> 0 \<and> a AND HUGE_PFN_MASK = v)"

lemma records_count:
  assumes "pebs_ok b U E s" and "pages s v = Some p" "v \<noteq> 0" and "samples_of v rs" and "sampled_times p k s" "k + length rs \<le> 24"
  shows "sampled_times p (k + length rs) (pebs_scan_thread rs s) \<and> pebs_ok b U E (pebs_scan_thread rs s) \<and>
    cold_ring (pebs_scan_thread rs s) = cold_ring s"
  using assms
proof (induction rs arbitrary: k s)
  case Nil
  then show ?case by (simp add: pebs_scan_thread_def)
next
  case (Cons r rs)
  obtain i j a where r: "r = (i, j, PERF_RECORD_SAMPLE a)" "a \<noteq> 0" "a AND HUGE_PFN_MASK = v"
    using Cons.prems(4) by (cases r) (auto simp: samples_of_def)
  let ?s = "pebs_scan_record i j (PERF_RECORD_SAMPLE a) s"
  have "sampled_times p (Suc k) ?s" "pebs_ok b U E ?s" "pages ?s = pages s" "cold_ring ?s = cold_ring s"
    using record_counts [OF Cons.prems(1-3) r(2,3) Cons.prems(5)] Cons.prems(6) by simp_all
  moreover have "samples_of v rs"
    using Cons.prems(4) by (simp add: samples_of_def)
  moreover have "pebs_scan_thread (r # rs) s = pebs_scan_thread rs ?s"
    by (simp add: pebs_scan_thread_def r(1))
  ultimately show ?case
    using Cons.IH [of ?s "Suc k"] Cons.prems(2,3,6) by simp
qed

section \<open>Properties\<close>

text \<open>
  C1: an iteration of the policy thread always completes and cannot be observed by the application.
  From any state that satisfies the invariant and has one managed frame that is not in use, and when no other
  thread steps in between, all
  loops of the iteration end, none of its assertions fails, the invariant holds again with every
  freed page back on a free list, and every byte of every page in use is the same as before. (The iteration is a
  sequence of turns that treat one page each; what holds when the steps of the other threads come between the turns is C2.)
\<close>

theorem policy_turn_transparent:
  assumes "platform_ok E" and "requests_succeed E" and "pebs_ok False U E s"
    and "p \<in> U" and "\<not> present (payload s p)"
  shows "\<exists>s'. pebs_policy_thread E s = Some s' \<and> policy_runs E (Freeing, s) (Freeing, s') \<and> pebs_ok True U E s' \<and> same_app U E s s'"
  using pebs_policy_thread_spec [OF assms] policy_thread_runs by blast

theorem policy_turn_transparent_witness:
  "\<exists>s0 s s'. pebs_init demo_dc demo_nc demo_bufs demo_pebs = Some s0 \<and>
     populate_page demo_E (pebs_pagefault demo_E) (2 ^ 30) s0 = Some (2 ^ 30 + PAGE_SIZE, s) \<and>
     pebs_policy_thread demo_E s = Some s' \<and> same_app demo_U demo_E s s'"
proof -
  obtain s0 s where s: "pebs_init demo_dc demo_nc demo_bufs demo_pebs = Some s0"
    "populate_page demo_E (pebs_pagefault demo_E) (2 ^ 30) s0 = Some (2 ^ 30 + PAGE_SIZE, s)"
    "pebs_ok True demo_U demo_E s" "free_count s = 7"
    using demo_touched by blast
  obtain p where "p \<in> demo_U" "\<not> present (payload s p)"
    using spare_page [OF pebs_okD(4) [OF s(3)]] s(4) by auto
  from policy_turn_transparent [OF sim_ok sim_requests_succeed pebs_ok_weaken [OF s(3)] this] s show ?thesis
    by blast
qed

text \<open>
  C2: no interleaving of the turns of the library's threads breaks the invariant. In every state that
  \<^verbatim>\<open>pebs_init\<close> and any sequence of steps lead to, where a step is one sample record, one turn of the
  policy thread (one page or ring entry), one page fault without a DRAM hint, or one unmapping while the policy
  thread sleeps or works off the free ring: each managed page is on exactly the list its flags name, owns a
  frame of its device that no other page owns, and is mapped on that frame when it is in use; the
  request rings name managed pages only; outside the freeing phase every unused page is on a
  free list; and the policy thread's next turn changes no byte of a page in use, and fails no assertion as long as a frame is free.
\<close>

theorem reachable_invariant:
  assumes "platform_ok E" and "requests_succeed E" and "booted E s0" and "callocs_ok dc nc s0"
    and "pebs_init dc nc bufs s0 = Some s1" and "(pebs_step E)\<^sup>*\<^sup>* (Freeing, s1) (pc, s)"
  shows "pebs_ok (pc \<noteq> Freeing) (managed dc nc s0) E s \<and> (free_count s = 0 \<or> policy_turn E pc s \<noteq> None) \<and>
    (\<forall>pc' s'. policy_turn E pc s = Some (pc', s') \<longrightarrow> same_app (managed dc nc s0) E s s')"
proof -
  note ok = started_ok [OF assms]
  have "pebs_ok (pc \<noteq> Freeing) (managed dc nc s0) E s"
    using ok by (cases pc) simp_all
  then show ?thesis
    using policy_turn_ok [OF assms(1,2) ok] by auto
qed

theorem reachable_invariant_witness:
  "\<exists>s1 s t. pebs_init demo_dc demo_nc demo_bufs demo_pebs = Some s1 \<and> (pebs_step demo_E)\<^sup>*\<^sup>* (Freeing, s1) (Freeing, s) \<and>
     pages s (2 ^ 30) \<noteq> None \<and> policy_turn demo_E Freeing s = Some t"
proof -
  obtain s1 s p where s: "pebs_init demo_dc demo_nc demo_bufs demo_pebs = Some s1" "vacant s1 (2 ^ 30)" "user_hint_tier s1 \<noteq> 0"
    "populate_page demo_E (pebs_pagefault demo_E) (2 ^ 30) s1 = Some (2 ^ 30 + PAGE_SIZE, s)" "touched demo_E demo_U (2 ^ 30) p s1 s"
    "free_count s = 7"
    using demo_touched by blast
  have st: "(pebs_step demo_E)\<^sup>*\<^sup>* (Freeing, s1) (Freeing, s)"
    using pebs_step.touch [OF s(2,3,4), of Freeing] by blast
  from reachable_invariant [OF sim_ok sim_requests_succeed demo_booted demo_callocs s(1) this] s(6)
  obtain t where "policy_turn demo_E Freeing s = Some t"
    by auto
  with s(1,5) st show ?thesis
    by (auto simp: touched_def)
qed

text \<open>
  C9: no two pages of the application share memory. In a state that is reached by the steps of C2 (an unmapping
  only while the policy thread sleeps or works off the free ring), two addresses of different pages of the
  table are backed by different device bytes, and none of them is an address of the library's own
  device mappings.
\<close>

theorem reachable_isolation:
  assumes "platform_ok E" and "requests_succeed E" and "booted E s0" and "callocs_ok dc nc s0"
    and "pebs_init dc nc bufs s0 = Some s1" and "(pebs_step E)\<^sup>*\<^sup>* (Freeing, s1) (pc, s)"
    and "pages s v = Some p" and "pages s w = Some q" and "v \<noteq> w"
    and "in_range v PAGE_SIZE a" and "in_range w PAGE_SIZE b"
  shows "vmap E (kern s) a \<noteq> None \<and> vmap E (kern s) a \<noteq> vmap E (kern s) b \<and>
    \<not> in_range (dram_devdax_mmap s) (dramsize s) a \<and> \<not> in_range (nvm_devdax_mmap s) (nvmsize s) a"
  by (rule mapped_isolation [OF pebs_okD(1) [OF thread_ok_weak [OF started_ok [OF assms(1-6)]]] assms(7-11)])

theorem reachable_isolation_witness:
  "\<exists>s1 s. pebs_init demo_dc demo_nc demo_bufs demo_pebs = Some s1 \<and> (pebs_step demo_E)\<^sup>*\<^sup>* (Freeing, s1) (Freeing, s) \<and>
     vmap demo_E (kern s) (2 ^ 30 + 5) \<noteq> vmap demo_E (kern s) (full_v + 5)"
proof -
  obtain s0 s p where s: "pebs_init demo_dc demo_nc demo_bufs demo_pebs = Some s0" "vacant s0 (2 ^ 30)" "user_hint_tier s0 \<noteq> 0"
    "populate_page demo_E (pebs_pagefault demo_E) (2 ^ 30) s0 = Some (2 ^ 30 + PAGE_SIZE, s)"
    "pebs_ok True demo_U demo_E s" "touched demo_E demo_U (2 ^ 30) p s0 s" "free_count s = 7" "user_hint_tier s = - 1"
    "devs s = devs demo_pebs" "pages s0 = Map.empty"
    using demo_touched by blast
  have pg: "pages s (2 ^ 30) = Some p" "pages s full_v = None"
    using s(6,10) by (simp_all add: touched_def full_v_def)
  have v: "vacant s full_v"
    by (rule demo_vacant) (use s(9) pg(2) in \<open>simp_all add: full_v_def\<close>)
  obtain q t where t: "populate_page demo_E (pebs_pagefault demo_E) full_v s = Some (full_v + PAGE_SIZE, t)"
    "touched demo_E demo_U full_v q s t"
    using populate_pebs_spec [OF sim_ok sim_requests_succeed s(5) _ _ v] s(7,8) by auto
  have "user_hint_tier s \<noteq> 0"
    by (simp add: s(8))
  then have "pebs_step demo_E (Freeing, s) (Freeing, t)" "pebs_step demo_E (Freeing, s0) (Freeing, s)"
    using pebs_step.touch [OF v _ t(1)] pebs_step.touch [OF s(2-4)] by blast+
  then have st: "(pebs_step demo_E)\<^sup>*\<^sup>* (Freeing, s0) (Freeing, t)"
    by (meson converse_rtranclp_into_rtranclp r_into_rtranclp)
  have "pages t (2 ^ 30) = Some p" "pages t full_v = Some q"
    using t(2) pg(1) by (auto simp: touched_def full_v_def)
  from reachable_isolation [OF sim_ok sim_requests_succeed demo_booted demo_callocs s(1) st this, of "2 ^ 30 + 5" "full_v + 5"]
  have "vmap demo_E (kern t) (2 ^ 30 + 5) \<noteq> vmap demo_E (kern t) (full_v + 5)"
    by (simp add: full_v_def in_range_def c_consts)
  with s(1) st show ?thesis by blast
qed

text \<open>
  C19: sampling finds the hot pages. Take a page in use that is idle (no counts, not hot, not requested, its
  clock that of the policy) while the hot ring is empty, and let the scan thread find at most
  \<^verbatim>\<open>PEBS_COOLING_THRESHOLD\<close> samples of addresses in the page, from any cores and buffers. Then
  the page's read count is the number of samples, no cold request is posted, and the page is requested as hot exactly once, by the
  sample that reaches \<^verbatim>\<open>HOT_READ_THRESHOLD\<close>, and not before; the policy thread then takes the
  request off the ring and moves the page to the hot list of its device.
\<close>

theorem sampled_page_becomes_hot:
  assumes "pebs_ok True U E s" and "pages s v = Some p" and "v \<noteq> 0"
    and "accesses (payload s p) = (\<lambda>_. 0)" and "local_clock (payload s p) = global_clock s"
    and "\<not> hot (payload s p)" and "\<not> ring_present (payload s p)" and "ring_list (hot_ring s) = []"
    and "samples_of v rs" and "length rs \<le> unat PEBS_COOLING_THRESHOLD" and "s' = pebs_scan_thread rs s"
  shows "pebs_ok True U E s' \<and> unat (total_reads (payload s' p)) = length rs \<and> cold_ring s' = cold_ring s \<and>
    (if length rs < unat HOT_READ_THRESHOLD then ring_list (hot_ring s') = []
     else ring_list (hot_ring s') = [p] \<and>
       (\<exists>s''. hot_step s' = Some (True, s'') \<and> p \<in> set (queue_of s'' (if in_dram (payload s p) then dram_hot_list else nvm_hot_list))))"
proof -
  have "sampled_times p 0 s"
    using assms(4-8) pebs_okD(3) [OF assms(1)] by (simp add: sampled_times_def payload_select rings_ok_def)
  then have st: "sampled_times p (length rs) s'" and ok: "pebs_ok True U E s'" and cr: "cold_ring s' = cold_ring s"
    using records_count [OF assms(1-3,9), of 0] assms(10) by (simp_all add: assms(11) PEBS_COOLING_THRESHOLD_def)
  note d = st [unfolded sampled_times_def Let_def]
  have n: "unat (total_reads (payload s' p)) = length rs"
    using total_reads_nat(1) [of "page_heap s' p" "length rs"] d assms(10) by (simp add: PEBS_COOLING_THRESHOLD_def)
  have sm: "sampled U s s'"
    unfolding assms(11) by (rule pebs_scan_thread_sampled [OF pebs_okD(5) [OF assms(1)]])
      (use core_okD(3) [OF pebs_okD(1) [OF assms(1)]] in \<open>auto simp: maps_ok_def\<close>)
  have p: "p \<in> U" "present (payload s' p)" "in_dram (payload s' p) = in_dram (payload s p)"
    using core_okD(3) [OF pebs_okD(1) [OF assms(1)]] assms(2) sm by (auto simp: maps_ok_def sampled_def place_def)
  have "\<exists>s''. hot_step s' = Some (True, s'') \<and> p \<in> set (queue_of s'' (if in_dram (payload s p) then dram_hot_list else nvm_hot_list))"
    if r: "ring_list (hot_ring s') = [p]"
  proof -
    have "\<not> ring_buf_empty (hot_ring s')"
      using ring_list_empty [of "hot_ring s'"] d r by simp
    from hot_step_spec [OF ok this] r p(2) obtain s'' where h: "hot_step s' = Some (True, s'')" "pebs_ok True U E s''"
      "place (payload s'' p) = place (payload s' p)" "hot (payload s'' p)"
      by auto
    then have "p \<in> set (queue_of s'' (home (payload s'' p)))"
      using present_home [OF pebs_okD(4) [OF h(2)] p(1)] p(2) by (simp add: place_def)
    with h p(3) show ?thesis
      by (auto simp: home_def place_def)
  qed
  with ok n cr d show ?thesis
    by (simp add: HOT_READ_THRESHOLD_def)
qed

text \<open>Eight samples of the cold page of the full system.\<close>

definition eight_samples :: "(nat \<times> pbuftype \<times> perf_record) list" where
  "eight_samples = replicate 8 (0, DRAMREAD, PERF_RECORD_SAMPLE (full_v + 7))"

lemma eight_samples: "samples_of full_v eight_samples" "length eight_samples = 8"
  by (simp_all add: samples_of_def eight_samples_def full_v_def HUGE_PFN_MASK_def HUGEPAGE_MASK_def HUGEPAGE_SIZE_def)

theorem sampled_page_becomes_hot_witness:
  "\<exists>s :: sim_state pebs. \<exists>s''. pages s full_v = Some 4096 \<and> hot_step (pebs_scan_thread eight_samples s) = Some (True, s'') \<and>
     4096 \<in> set (queue_of s'' dram_hot_list)"
proof -
  obtain s :: "sim_state pebs" where s: "pebs_ok True {4096, 8192} demo_E s" "payload s = full_pages" "pages s = [full_v \<mapsto> 4096, 2 ^ 30 \<mapsto> 8192]"
    "hot_ring s = small_ring" "global_clock s = 0"
    using full_state by auto
  have pg: "pages s full_v = Some 4096" "full_v \<noteq> 0"
    by (simp_all add: s(3) full_v_def)
  have "length eight_samples \<le> unat PEBS_COOLING_THRESHOLD"
    by (simp add: eight_samples PEBS_COOLING_THRESHOLD_def)
  from sampled_page_becomes_hot [OF s(1) pg _ _ _ _ _ eight_samples(1) this refl]
  obtain s'' where "hot_step (pebs_scan_thread eight_samples s) = Some (True, s'')" "4096 \<in> set (queue_of s'' dram_hot_list)"
    by (auto simp: s full_pages_def zero_page_def small_ring_ok eight_samples HOT_READ_THRESHOLD_def)
  with pg(1) show ?thesis by blast
qed

text \<open>
  The restriction on unmappings is needed: one that comes later aborts the policy thread. When the thread has worked off the free ring
  and the oldest entry of the hot ring is a page in use, unmapping that page (with room in the free ring)
  succeeds; the thread then takes the entry, finds the page unused but still on the list of a used page,
  and fails the assertion on the page's list.
\<close>

theorem late_unmap_aborts:
  assumes "pebs_ok True U E s" and "ring_list (hot_ring s) = p # xs" and "pages s v = Some p"
    and "\<not> ring_buf_full (free_page_ring s)"
  shows "\<exists>s'. unmap_page pebs_remove_page v s = Some (v + PAGE_SIZE, s') \<and> policy_turn E (Heating 0) s' = None"
proof -
  obtain s' where s': "unmap_page pebs_remove_page v s = Some (v + PAGE_SIZE, s')" "pebs_ok False U E s'" "released U v p s s'"
    using unmap_pebs_spec [OF assms(1,4,3)] by blast
  note d = s'(3) [unfolded released_def]
  note k = pebs_okD [OF assms(1)]
  have p: "p \<in> U" "present (payload s p)" "p \<noteq> NULL"
    using d lists_okD(3) [OF k(4)] by auto
  have ro: "ring_ok (hot_ring s)"
    using k(3) by (simp add: rings_ok_def)
  obtain r where g: "ring_buf_get (hot_ring s) = (p, r)"
    using ring_get_law(1) [OF ro assms(2)] by (cases "ring_buf_get (hot_ring s)") simp
  have ne: "\<not> ring_buf_empty (hot_ring s)"
    using ring_list_empty [OF ro] assms(2) by simp
  have hr: "hot_ring s' = hot_ring s" "\<not> present (payload s' p)"
    using d by simp_all
  have "p \<in> set (queue_of s' (home (payload s p)))"
    using present_home [OF k(4) p(1,2)] d by simp
  then have "list_ptr (page_heap s' p) = Some (home (payload s p))"
    using in_queue_iff [OF pebs_okD(5) [OF s'(2)]] by blast
  then have "freed_page_check p (s'\<lparr>hot_ring := r\<rparr>) = None"
    by (simp add: freed_page_check_def)
  then have "hot_step s' = None"
    using hr p(3) by (simp add: hot_step_def g payload_select Let_def)
  then show ?thesis
    using s'(1) ne hr(1) by (simp add: HOT_RING_REQS_THRESHOLD_def)
qed

theorem late_unmap_aborts_witness:
  "\<exists>(s :: sim_state pebs) s'. unmap_page pebs_remove_page full_v s = Some (full_v + PAGE_SIZE, s') \<and>
     policy_turn demo_E (Heating 0) s' = None"
proof -
  obtain s :: "sim_state pebs" where s: "pebs_ok True {4096, 8192} demo_E s" "payload s = full_pages" "pages s = [full_v \<mapsto> 4096, 2 ^ 30 \<mapsto> 8192]"
    "hot_ring s = small_ring" "free_page_ring s = small_ring" "global_clock s = 0"
    using full_state by auto
  have pg: "pages s full_v = Some 4096" "full_v \<noteq> 0"
    by (simp_all add: s(3) full_v_def)
  let ?s = "pebs_scan_thread eight_samples s"
  have "sampled_times 4096 0 s"
    by (simp add: sampled_times_def payload_select s full_pages_def zero_page_def small_ring_ok)
  then have st: "sampled_times 4096 8 ?s" and ok: "pebs_ok True {4096, 8192} demo_E ?s"
    using records_count [OF s(1) pg eight_samples(1), of 0] by (simp_all add: eight_samples)
  have sm: "sampled {4096, 8192} s ?s"
    by (rule pebs_scan_thread_sampled [OF pebs_okD(5) [OF s(1)]]) (simp add: s(3) split: if_splits)
  have "ring_list (hot_ring ?s) = 4096 # []"
    using st by (simp add: sampled_times_def Let_def)
  moreover have "pages ?s full_v = Some 4096" "\<not> ring_buf_full (free_page_ring ?s)"
    using sm pg(1) s(5) by (simp_all add: sampled_def small_ring_def ring_pointer_simps next_index_def)
  ultimately show ?thesis
    using late_unmap_aborts [OF ok] by blast
qed

end
