(* ===== verification/Policy_Interface.thy ===== *)
theory Policy_Interface
  imports Prelude
begin

text \<open>
  The contract between \<^verbatim>\<open>src/hemem.c\<close> and the memory policy it is built with
  (\<^verbatim>\<open>pagefault\<close> and \<^verbatim>\<open>mmgr_remove\<close>, chosen by \<^verbatim>\<open>src/hemem.h\<close>): a policy hands
  out pages that nobody holds, and a page that was taken back can be handed out again at once.
\<close>

section \<open>A client\<close>

text \<open>
  The memory manager as a client of the policy: it asks for a page (\<open>Get\<close>) or gives back the
  \<open>i\<close>-th page it holds (\<open>Put i\<close>). The driver returns the pages held at the end.
\<close>

datatype page_request = Get | Put nat

fun drive :: "('s \<Rightarrow> ('p \<times> 's) option) \<Rightarrow> ('p \<Rightarrow> 's \<Rightarrow> 's option) \<Rightarrow> page_request list \<Rightarrow> 'p list \<Rightarrow> 's \<Rightarrow>
    ('p list \<times> 's) option" where
  "drive pf rm [] held s = Some (held, s)"
| "drive pf rm (Get # rs) held s = pf s \<bind> (\<lambda>(p, s). drive pf rm rs (held @ [p]) s)"
| "drive pf rm (Put i # rs) held s =
     (if i < length held
      then rm (held ! i) s \<bind> drive pf rm rs (take i held @ drop (Suc i) held)
      else drive pf rm rs held s)"

text \<open>
  Whether the client, holding \<open>k\<close> pages, ever asks for a page while it holds \<open>n\<close>: the number of
  requests is not bounded, only the number of pages held at a time.
\<close>

fun fits :: "nat \<Rightarrow> nat \<Rightarrow> page_request list \<Rightarrow> bool" where
  "fits n k [] = True"
| "fits n k (Get # rs) = (k < n \<and> fits n (Suc k) rs)"
| "fits n k (Put i # rs) = fits n (if i < k then k - 1 else k) rs"

lemma drop_nth_set:
  assumes "distinct xs" and "i < length xs"
  shows "set (take i xs @ drop (Suc i) xs) = set xs - {xs ! i}" and "distinct (take i xs @ drop (Suc i) xs)"
proof -
  define ys x zs where "ys = take i xs" and "x = xs ! i" and "zs = drop (Suc i) xs"
  have "xs = ys @ x # zs"
    unfolding ys_def x_def zs_def by (rule id_take_nth_drop [OF assms(2)])
  with assms(1) have "set (ys @ zs) = set xs - {x}" "distinct (ys @ zs)"
    by auto
  then show "set (take i xs @ drop (Suc i) xs) = set xs - {xs ! i}" "distinct (take i xs @ drop (Suc i) xs)"
    by (simp_all add: ys_def x_def zs_def)
qed

section \<open>The contract\<close>

locale page_policy =
  fixes pf :: "'s \<Rightarrow> ('p \<times> 's) option"
    and rm :: "'p \<Rightarrow> 's \<Rightarrow> 's option"
    and invar :: "'s \<Rightarrow> bool"
    and free :: "'s \<Rightarrow> 'p set"
    and used :: "'s \<Rightarrow> 'p set"
  assumes finite_free: "invar s \<Longrightarrow> finite (free s)"
    and not_both: "invar s \<Longrightarrow> free s \<inter> used s = {}"
    and fault_law: "invar s \<Longrightarrow> free s \<noteq> {} \<Longrightarrow>
      \<exists>p s'. pf s = Some (p, s') \<and> invar s' \<and> p \<in> free s \<and> free s' = free s - {p} \<and> used s' = insert p (used s)"
    and exhausted_law: "invar s \<Longrightarrow> free s = {} \<Longrightarrow> pf s = None"
    and remove_law: "invar s \<Longrightarrow> p \<in> used s \<Longrightarrow>
      \<exists>s'. rm p s = Some s' \<and> invar s' \<and> free s' = insert p (free s) \<and> used s' = used s - {p}"
begin

lemma fault_cases:
  assumes "invar s" and "pf s = Some (p, s')"
  shows "invar s'" and "p \<notin> used s" and "used s' = insert p (used s)" and "free s' = free s - {p}" and "p \<in> free s"
proof -
  have "free s \<noteq> {}"
    using exhausted_law [OF assms(1)] assms(2) by auto
  from fault_law [OF assms(1) this] assms(2) not_both [OF assms(1)]
  show "invar s'" "p \<notin> used s" "used s' = insert p (used s)" "free s' = free s - {p}" "p \<in> free s"
    by auto
qed

text \<open>Whatever the client does, the pages it holds are distinct and exactly those in use.\<close>

lemma drive_ok:
  assumes "invar s" and "distinct held" and "set held = used s" and "drive pf rm rs held s = Some (held', s')"
  shows "invar s' \<and> distinct held' \<and> set held' = used s'"
  using assms
proof (induction rs arbitrary: held s)
  case Nil
  then show ?case by simp
next
  case (Cons r rs)
  show ?case
  proof (cases r)
    case Get
    then obtain p t where p: "pf s = Some (p, t)" "drive pf rm rs (held @ [p]) t = Some (held', s')"
      using Cons.prems(4) by (auto simp: bind_Some_iff)
    note f = fault_cases [OF Cons.prems(1) p(1)]
    show ?thesis
      by (rule Cons.IH [OF f(1) _ _ p(2)]) (use Cons.prems(2,3) f(2,3) in auto)
  next
    case (Put i)
    show ?thesis
    proof (cases "i < length held")
      case True
      have "held ! i \<in> used s"
        using nth_mem [OF True] unfolding Cons.prems(3) .
      from remove_law [OF Cons.prems(1) this] obtain t where t: "rm (held ! i) s = Some t" "invar t"
        "used t = used s - {held ! i}"
        by blast
      note d = drop_nth_set [OF Cons.prems(2) True]
      have "drive pf rm rs (take i held @ drop (Suc i) held) t = Some (held', s')"
        using Cons.prems(4) Put True t(1) by simp
      then show ?thesis
        by (rule Cons.IH [OF t(2) d(2), rotated]) (simp only: d(1) t(3) Cons.prems(3))
    next
      case False
      with Cons Put show ?thesis by simp
    qed
  qed
qed

text \<open>A run of requests fails exactly when it asks for a page while all of them are held.\<close>

lemma drive_fits:
  assumes "invar s" and "distinct held" and "set held = used s"
  shows "(\<exists>held' s'. drive pf rm rs held s = Some (held', s')) \<longleftrightarrow> fits (card (free s) + length held) (length held) rs"
  using assms
proof (induction rs arbitrary: held s)
  case Nil
  then show ?case by simp
next
  case (Cons r rs)
  show ?case
  proof (cases r)
    case Get
    show ?thesis
    proof (cases "free s = {}")
      case True
      with Get exhausted_law [OF Cons.prems(1) True] show ?thesis by simp
    next
      case False
      obtain p t where p: "pf s = Some (p, t)" "invar t" "p \<in> free s" "free t = free s - {p}" "used t = insert p (used s)"
        using fault_law [OF Cons.prems(1) False] by blast
      note fin = finite_free [OF Cons.prems(1)]
      have c: "card (free s) = Suc (card (free t))"
        unfolding p(4) by (rule card_Suc_Diff1 [OF fin p(3), symmetric])
      have "p \<notin> used s"
        using p(3) not_both [OF Cons.prems(1)] by blast
      then have "(\<exists>held' s'. drive pf rm rs (held @ [p]) t = Some (held', s')) \<longleftrightarrow>
          fits (card (free t) + length (held @ [p])) (length (held @ [p])) rs"
        by (intro Cons.IH [OF p(2)]) (use Cons.prems(2,3) in \<open>auto simp: p(5)\<close>)
      with Get p(1) c show ?thesis by simp
    qed
  next
    case (Put i)
    show ?thesis
    proof (cases "i < length held")
      case True
      have u: "held ! i \<in> used s"
        using nth_mem [OF True] unfolding Cons.prems(3) .
      from remove_law [OF Cons.prems(1) this] obtain t where t: "rm (held ! i) s = Some t" "invar t"
        "used t = used s - {held ! i}" "free t = insert (held ! i) (free s)"
        by blast
      note d = drop_nth_set [OF Cons.prems(2) True]
      have "held ! i \<notin> free s"
        using u not_both [OF Cons.prems(1)] by blast
      then have "card (free t) = Suc (card (free s))"
        using finite_free [OF Cons.prems(1)] by (simp add: t(4))
      then have "card (free t) + length (take i held @ drop (Suc i) held) = card (free s) + length held"
        "length (take i held @ drop (Suc i) held) = length held - 1"
        using True by simp_all
      moreover have "(\<exists>held' s'. drive pf rm rs (take i held @ drop (Suc i) held) t = Some (held', s')) \<longleftrightarrow>
          fits (card (free t) + length (take i held @ drop (Suc i) held)) (length (take i held @ drop (Suc i) held)) rs"
        by (intro Cons.IH [OF t(2) d(2)]) (simp only: d(1) t(3) Cons.prems(3))
      ultimately show ?thesis
        using Put True t(1) by simp
    next
      case False
      with Cons Put show ?thesis by simp
    qed
  qed
qed

end

end
