(* ===== verification/Simple.thy ===== *)
theory Simple
  imports Policy_Interface Migration Boot_Lists
begin

text \<open>
  \<^verbatim>\<open>src/policies/simple.c\<close>: the policy without migration. Pages come from DRAM as long as DRAM
  has free frames and from NVM afterwards; a page in use is on no list.
\<close>

section \<open>State and operations\<close>

record 'k simple = "'k hemem" +
  fastmem :: u64
  slowmem :: u64
  slowmem_switch :: bool

definition simple_remove_page :: "ptr \<Rightarrow> ('k, 'a) simple_scheme \<Rightarrow> ('k, 'a) simple_scheme option" where
  "simple_remove_page page s =
     (if in_dram (page_heap s page) then do {
        let s = upd_page page (\<lambda>p. p\<lparr>present := False\<rparr>) s;
        s \<leftarrow> enqueue_fifo dram_free_list page s;
        Some (s\<lparr>fastmem := fastmem s - PAGE_SIZE\<rparr>)
      }
      else do {
        let s = upd_page page (\<lambda>p. p\<lparr>present := False\<rparr>) s;
        s \<leftarrow> enqueue_fifo nvm_free_list page s;
        Some (s\<lparr>slowmem := slowmem s - PAGE_SIZE\<rparr>)
      })"

definition simple_pagefault :: "('k, 'a) simple_scheme \<Rightarrow> (ptr \<times> ('k, 'a) simple_scheme) option" where
  "simple_pagefault s = do {
     (page, s) \<leftarrow> dequeue_fifo dram_free_list s;
     if page \<noteq> NULL then do {
       assert (\<not> present (page_heap s page));
       let s = upd_page page (\<lambda>p. p\<lparr>present := True\<rparr>) s;
       Some (page, s\<lparr>fastmem := fastmem s + PAGE_SIZE\<rparr>)
     }
     else do {
       assert (slowmem s < nvmsize s);
       (page, s) \<leftarrow> dequeue_fifo nvm_free_list s;
       assert (page \<noteq> NULL);
       assert (\<not> present (page_heap s page));
       let s = upd_page page (\<lambda>p. p\<lparr>present := True\<rparr>) s;
       Some (page, s\<lparr>slowmem := slowmem s + PAGE_SIZE\<rparr>)
     }
   }"

fun simple_frames :: "(nat \<Rightarrow> ptr) \<Rightarrow> fifo_id \<Rightarrow> bool \<Rightarrow> u64 \<Rightarrow> nat \<Rightarrow> nat \<Rightarrow> 'a mem_scheme \<Rightarrow> 'a mem_scheme option" where
  "simple_frames calloc q dram base i 0 s = Some s"
| "simple_frames calloc q dram base i (Suc n) s = do {
     let p = calloc i;
     assert (p \<noteq> NULL);
     t \<leftarrow> pagesize_to_pt PAGE_SIZE;
     let s = upd_page p (\<lambda>_. zero_page\<lparr>devdax_offset := of_nat i * PAGE_SIZE + base, present := False,
       in_dram := dram, pt := t\<rparr>) s;
     s \<leftarrow> enqueue_fifo q p s;
     simple_frames calloc q dram base (Suc i) n s
   }"

definition simple_init :: "(nat \<Rightarrow> ptr) \<Rightarrow> (nat \<Rightarrow> ptr) \<Rightarrow> ('k, 'a) simple_scheme \<Rightarrow> ('k, 'a) simple_scheme option" where
  "simple_init dram_calloc nvm_calloc s = do {
     s \<leftarrow> simple_frames dram_calloc dram_free_list True (dramoffset s) 0 (unat (dramsize s div PAGE_SIZE)) s;
     simple_frames nvm_calloc nvm_free_list False (nvmoffset s) 0 (unat (nvmsize s div PAGE_SIZE)) s
   }"

definition simple_stats :: "('k, 'a) simple_scheme \<Rightarrow> u64 list" where
  "simple_stats s = [fastmem s, slowmem s]"

section \<open>The invariant\<close>

fun simple_typed :: "fifo_id \<Rightarrow> hemem_page \<Rightarrow> bool" where
  "simple_typed dram_free_list pg \<longleftrightarrow> in_dram pg \<and> \<not> present pg"
| "simple_typed nvm_free_list pg \<longleftrightarrow> \<not> in_dram pg \<and> \<not> present pg"
| "simple_typed _ pg \<longleftrightarrow> False"

text \<open>The managed pages \<open>U\<close> in use on one device.\<close>

definition used_on :: "bool \<Rightarrow> ptr set \<Rightarrow> 'a mem_scheme \<Rightarrow> ptr set" where
  "used_on dram U s = {p \<in> U. present (payload s p) \<and> in_dram (payload s p) = dram}"

text \<open>
  Pages in use are on no list, and the two counters are the bytes handed out on each device.
\<close>

definition simple_ok :: "ptr set \<Rightarrow> ('k, 'a) simple_scheme \<Rightarrow> bool" where
  "simple_ok U s \<longleftrightarrow> finite U \<and> typed_lists simple_typed U (used_pages U s) s \<and>
     card {p \<in> U. \<not> in_dram (payload s p)} * 2 ^ 21 \<le> unat (nvmsize s) \<and>
     fastmem s = of_nat (card (used_on True U s)) * PAGE_SIZE \<and>
     slowmem s = of_nat (card (used_on False U s)) * PAGE_SIZE"

lemma simple_frames_eq: "simple_frames calloc q dram base i n = init_frames calloc q dram base i n"
  by (induction n arbitrary: i) (rule ext, simp add: Let_def)+

lemma queue_of_simple [simp]:
  "queue_of (s\<lparr>fastmem := x1\<rparr>) = queue_of s" "queue_of (s\<lparr>slowmem := x2\<rparr>) = queue_of s"
  "mem_ok (s\<lparr>fastmem := x1\<rparr>) = mem_ok s" "mem_ok (s\<lparr>slowmem := x2\<rparr>) = mem_ok s"
  "payload (s\<lparr>fastmem := x1\<rparr>) = payload s" "payload (s\<lparr>slowmem := x2\<rparr>) = payload s"
  by (rule mem_ok_cong; simp)+

lemma simple_listed:
  assumes "typed_lists simple_typed U X s" and "p \<in> set (queue_of s q)"
  shows "q = (if in_dram (payload s p) then dram_free_list else nvm_free_list)" and "\<not> present (payload s p)" and "p \<in> U - X" and "p \<noteq> NULL"
proof -
  note d = typed_listsD(3,4,5) [OF assms(1)]
  show "q = (if in_dram (payload s p) then dram_free_list else nvm_free_list)" "\<not> present (payload s p)"
    using d(3) [OF assms(2)] by (cases q; simp)+
  show "p \<in> U - X" "p \<noteq> NULL"
    using d(1) d(2) [OF assms(2)] by auto
qed

lemma free_pages_members:
  assumes "typed_lists simple_typed U X s"
  shows "free_pages s = U - X"
proof
  show "free_pages s \<subseteq> U - X"
    using typed_listsD(4) [OF assms] by (auto simp: free_pages_def)
  show "U - X \<subseteq> free_pages s"
  proof
    fix p
    assume "p \<in> U - X"
    then obtain q where q: "p \<in> set (queue_of s q)"
      using typed_listsD(6) [OF assms] by blast
    with simple_listed(1) [OF assms q] show "p \<in> free_pages s"
      by (cases "in_dram (payload s p)") (simp_all add: free_pages_def)
  qed
qed

text \<open>The counters after a page's \<^verbatim>\<open>present\<close> flag changed.\<close>

lemma used_on_upd:
  assumes "payload t = (payload s)(p := (payload s p)\<lparr>present := b\<rparr>)" and "p \<in> U"
  shows "used_on d U t = (if in_dram (payload s p) = d then (if b then insert p (used_on d U s) else used_on d U s - {p}) else used_on d U s)"
    and "used_pages U t = (if b then insert p (used_pages U s) else used_pages U s - {p})"
    and "{p \<in> U. \<not> in_dram (payload t p)} = {p \<in> U. \<not> in_dram (payload s p)}"
  using assms(2) unfolding used_on_def used_pages_def assms(1) by auto

lemma used_on_finite [simp]: "finite U \<Longrightarrow> finite (used_on d U s)"
  by (simp add: used_on_def)

lemma take_free:
  assumes ok: "typed_lists simple_typed U (used_pages U s) s" and q: "queue_of s q = ys @ [p]"
  shows "\<exists>s1. dequeue_fifo q s = Some (p, s1) \<and> p \<noteq> NULL \<and> p \<in> U \<and> p \<in> free_pages s \<and> \<not> present (payload s p) \<and>
    q = (if in_dram (payload s p) then dram_free_list else nvm_free_list) \<and>
    payload s1 = payload s \<and> heaps_only s s1 \<and>
    typed_lists simple_typed U (insert p (used_pages U s)) (upd_page p (\<lambda>p. p\<lparr>present := True\<rparr>) s1) \<and>
    payload (upd_page p (\<lambda>p. p\<lparr>present := True\<rparr>) s1) = (payload s)(p := (payload s p)\<lparr>present := True\<rparr>)"
proof -
  have pq: "p \<in> set (queue_of s q)"
    using q by simp
  note l = simple_listed [OF ok pq]
  obtain s1 where s1: "dequeue_fifo q s = Some (p, s1)" "typed_lists simple_typed U (insert p (used_pages U s)) s1"
    "payload s1 = payload s" "heaps_only s s1"
    using typed_lists_deq [OF ok q] by blast
  have pf: "pay_fun (\<lambda>p. p\<lparr>present := True\<rparr>)"
    by (simp add: pay_fun_def keeps_links_def strip_def)
  have "typed_lists simple_typed U (insert p (used_pages U s)) (upd_page p (\<lambda>p. p\<lparr>present := True\<rparr>) s1)"
    by (rule typed_lists_upd [OF s1(2) _ pf]) simp
  moreover have "p \<in> free_pages s"
    using free_pages_members [OF ok] l(3) by simp
  ultimately show ?thesis
    using s1 l upd_page_spec(3) [OF typed_listsD(1) [OF s1(2)] pf, of p] by auto
qed

lemma typed_lists_simple [simp]:
  "typed_lists T U X (s\<lparr>fastmem := x1\<rparr>) = typed_lists T U X s"
  "typed_lists T U X (s\<lparr>slowmem := x2\<rparr>) = typed_lists T U X s"
  by (rule typed_lists_cong; simp)+

lemma used_simple [simp]:
  "used_pages U (s\<lparr>fastmem := x1\<rparr>) = used_pages U s" "used_pages U (s\<lparr>slowmem := x2\<rparr>) = used_pages U s"
  "used_on d U (s\<lparr>fastmem := x1\<rparr>) = used_on d U s" "used_on d U (s\<lparr>slowmem := x2\<rparr>) = used_on d U s"
  "free_pages (s\<lparr>fastmem := x1\<rparr>) = free_pages s" "free_pages (s\<lparr>slowmem := x2\<rparr>) = free_pages s"
  by (simp_all add: used_pages_def used_on_def free_pages_def)

lemma heaps_only_simple:
  fixes s s' :: "('k, 'a) simple_scheme"
  assumes "heaps_only s s'"
  shows "fastmem s' = fastmem s" and "slowmem s' = slowmem s" and "nvmsize s' = nvmsize s"
  by (subst heaps_only_eq [OF assms], simp)+

text \<open>The check against the size of the NVM device never fails while NVM has a free page.\<close>

lemma slowmem_room:
  assumes ok: "simple_ok U s" and p: "p \<in> U" "\<not> in_dram (payload s p)" "\<not> present (payload s p)"
  shows "slowmem s < nvmsize s"
proof -
  let ?N = "{p \<in> U. \<not> in_dram (payload s p)}"
  have "used_on False U s \<subset> ?N"
    using p by (auto simp: used_on_def)
  then have lt: "card (used_on False U s) < card ?N"
    using ok by (intro psubset_card_mono) (simp_all add: simple_ok_def)
  then have "(card (used_on False U s) + 1) * 2 ^ 21 \<le> card ?N * 2 ^ 21"
    by simp
  also have "\<dots> \<le> unat (nvmsize s)"
    using ok by (simp add: simple_ok_def)
  finally have le: "card (used_on False U s) * 2 ^ 21 < unat (nvmsize s)"
    by simp
  have "unat (slowmem s) \<le> card (used_on False U s) * 2 ^ 21"
  proof -
    have "slowmem s = of_nat (card (used_on False U s) * 2 ^ 21)"
      using ok by (simp add: simple_ok_def c_consts)
    then show ?thesis
      by (simp only: unat_of_nat mod_less_eq_dividend)
  qed
  with le show ?thesis
    by (simp add: word_less_nat_alt)
qed

lemma simple_fault:
  assumes ok: "simple_ok U s" and ne: "free_pages s \<noteq> {}"
  shows "\<exists>p s'. simple_pagefault s = Some (p, s') \<and> simple_ok U s' \<and> p \<in> free_pages s \<and>
    free_pages s' = free_pages s - {p} \<and> used_pages U s' = insert p (used_pages U s) \<and>
    (in_dram (payload s p) \<longleftrightarrow> queue_of s dram_free_list \<noteq> [])"
proof -
  have fin: "finite U" and tl: "typed_lists simple_typed U (used_pages U s) s"
    and cnt: "fastmem s = of_nat (card (used_on True U s)) * PAGE_SIZE" "slowmem s = of_nat (card (used_on False U s)) * PAGE_SIZE"
    using ok by (simp_all add: simple_ok_def)
  define q where "q = (if queue_of s dram_free_list \<noteq> [] then dram_free_list else nvm_free_list)"
  have "queue_of s q \<noteq> []"
    using ne by (auto simp: q_def free_pages_def)
  then obtain ys p where "queue_of s q = ys @ [p]"
    by (cases "queue_of s q" rule: rev_cases) auto
  from take_free [OF tl this] obtain s1 where s1: "dequeue_fifo q s = Some (p, s1)" "p \<noteq> NULL" "p \<in> U" "p \<in> free_pages s"
    "\<not> present (payload s p)" "q = (if in_dram (payload s p) then dram_free_list else nvm_free_list)"
    "payload s1 = payload s" "heaps_only s s1"
    "typed_lists simple_typed U (insert p (used_pages U s)) (upd_page p (\<lambda>p. p\<lparr>present := True\<rparr>) s1)"
    "payload (upd_page p (\<lambda>p. p\<lparr>present := True\<rparr>) s1) = (payload s)(p := (payload s p)\<lparr>present := True\<rparr>)"
    by blast
  let ?t = "upd_page p (\<lambda>p. p\<lparr>present := True\<rparr>) s1"
  note r = heaps_only_simple [OF s1(8)]
  have np: "\<not> present (page_heap s1 p)"
    using s1(5,7) by (simp add: payload_select)
  note u = used_on_upd [OF s1(10) s1(3)]
  have fr: "free_pages ?t = free_pages s - {p}"
    unfolding free_pages_members [OF s1(9)] free_pages_members [OF tl] by blast
  have nu: "p \<notin> used_on d U s" for d
    using s1(5) by (simp add: used_on_def)
  have dr: "in_dram (payload s p) \<longleftrightarrow> queue_of s dram_free_list \<noteq> []"
    using s1(6) by (auto simp: q_def split: if_splits)
  show ?thesis
  proof (cases "in_dram (payload s p)")
    case True
    let ?s = "?t\<lparr>fastmem := fastmem s + PAGE_SIZE\<rparr>"
    have "simple_pagefault s = Some (p, ?s)"
      using s1(1,2,6) True np r by (simp add: simple_pagefault_def)
    moreover have "simple_ok U ?s"
      using ok True u nu s1(9) r fin cnt by (simp add: simple_ok_def algebra_simps)
    ultimately show ?thesis
      using s1(4) fr u(2) dr by auto
  next
    case False
    let ?s = "?t\<lparr>slowmem := slowmem s + PAGE_SIZE\<rparr>"
    have e: "dequeue_fifo dram_free_list s = Some (NULL, s)"
      by (rule dequeue_fifo_empty [OF typed_listsD(1) [OF tl]]) (use False dr in blast)
    have "slowmem s < nvmsize s"
      by (rule slowmem_room [OF ok s1(3) False s1(5)])
    then have "simple_pagefault s = Some (p, ?s)"
      using s1(1,2,6) False np r e by (simp add: simple_pagefault_def)
    moreover have "simple_ok U ?s"
      using ok False u nu s1(9) r fin cnt by (simp add: simple_ok_def algebra_simps)
    ultimately show ?thesis
      using s1(4) fr u(2) dr by auto
  qed
qed

lemma simple_remove:
  assumes ok: "simple_ok U s" and p: "p \<in> used_pages U s"
  shows "\<exists>s'. simple_remove_page p s = Some s' \<and> simple_ok U s' \<and> free_pages s' = insert p (free_pages s) \<and>
    used_pages U s' = used_pages U s - {p}"
proof -
  have fin: "finite U" and tl: "typed_lists simple_typed U (used_pages U s) s"
    and cnt: "fastmem s = of_nat (card (used_on True U s)) * PAGE_SIZE" "slowmem s = of_nat (card (used_on False U s)) * PAGE_SIZE"
    using ok by (simp_all add: simple_ok_def)
  have pU: "p \<in> U" "present (payload s p)"
    using p by (simp_all add: used_pages_def)
  let ?t = "upd_page p (\<lambda>p. p\<lparr>present := False\<rparr>) s" and ?q = "if in_dram (payload s p) then dram_free_list else nvm_free_list"
  have pf: "pay_fun (\<lambda>p. p\<lparr>present := False\<rparr>)"
    by (simp add: pay_fun_def keeps_links_def strip_def)
  have t: "typed_lists simple_typed U (used_pages U s) ?t"
    by (rule typed_lists_upd [OF tl p pf])
  have pt: "payload ?t = (payload s)(p := (payload s p)\<lparr>present := False\<rparr>)"
    by (rule upd_page_spec(3) [OF typed_listsD(1) [OF tl] pf])
  have "simple_typed ?q (payload ?t p)"
    unfolding pt by simp
  then obtain s1 where s1: "enqueue_fifo ?q p ?t = Some s1" "typed_lists simple_typed U (used_pages U s - {p}) s1"
    "payload s1 = (payload s)(p := (payload s p)\<lparr>present := False\<rparr>)" "heaps_only ?t s1"
    using typed_lists_enq [OF t p] pt by auto
  note u = used_on_upd [OF s1(3) pU(1)] and r = heaps_only_simple [OF s1(4)]
  have fr: "free_pages s1 = insert p (free_pages s)"
    unfolding free_pages_members [OF s1(2)] free_pages_members [OF tl] using p pU(1) by (auto simp: used_pages_def)
  have mem: "p \<in> used_on (in_dram (payload s p)) U s"
    using pU by (simp add: used_on_def)
  have pos: "0 < card (used_on (in_dram (payload s p)) U s)"
    using mem fin by (auto simp: card_gt_0_iff)
  show ?thesis
  proof (cases "in_dram (payload s p)")
    case True
    let ?s = "s1\<lparr>fastmem := fastmem s1 - PAGE_SIZE\<rparr>"
    have "simple_remove_page p s = Some ?s"
      using s1(1) True by (simp add: simple_remove_page_def payload_select Let_def)
    moreover have "simple_ok U ?s"
      using ok True u mem pos s1(2) r fin cnt by (simp add: simple_ok_def algebra_simps of_nat_diff)
    ultimately show ?thesis
      using fr u(2) by auto
  next
    case False
    let ?s = "s1\<lparr>slowmem := slowmem s1 - PAGE_SIZE\<rparr>"
    have "simple_remove_page p s = Some ?s"
      using s1(1) False by (simp add: simple_remove_page_def payload_select Let_def)
    moreover have "simple_ok U ?s"
      using ok False u mem pos s1(2) r fin cnt by (simp add: simple_ok_def algebra_simps of_nat_diff)
    ultimately show ?thesis
      using fr u(2) by auto
  qed
qed

interpretation simple: page_policy simple_pagefault simple_remove_page "simple_ok U" free_pages "used_pages U"
proof unfold_locales
  fix s :: "('a, 'b) simple_scheme"
  assume ok: "simple_ok U s"
  then have tl: "typed_lists simple_typed U (used_pages U s) s" and "finite U"
    by (simp_all add: simple_ok_def)
  then show "finite (free_pages s)" "free_pages s \<inter> used_pages U s = {}"
    by (auto simp: free_pages_members [OF tl])
  show "\<exists>p s'. simple_pagefault s = Some (p, s') \<and> simple_ok U s' \<and> p \<in> free_pages s \<and> free_pages s' = free_pages s - {p} \<and>
      used_pages U s' = insert p (used_pages U s)" if "free_pages s \<noteq> {}"
    using simple_fault [OF ok that] by blast
  show "simple_pagefault s = None" if "free_pages s = {}"
    using that dequeue_fifo_empty [OF typed_listsD(1) [OF tl]] by (simp add: simple_pagefault_def free_pages_def)
  show "\<exists>s'. simple_remove_page p s = Some s' \<and> simple_ok U s' \<and> free_pages s' = insert p (free_pages s) \<and>
      used_pages U s' = used_pages U s - {p}" if "p \<in> used_pages U s" for p
    using simple_remove [OF ok that] by blast
qed

section \<open>Start-up\<close>

lemma simple_init_ok:
  fixes s :: "('k, 'a) simple_scheme"
  assumes s: "mem_ok s" "queue_of s = (\<lambda>_. [])" "fastmem s = 0" "slowmem s = 0" and c: "callocs_ok dc nc s"
  shows "\<exists>s'. simple_init dc nc s = Some s' \<and> simple_ok (managed dc nc s) s' \<and> free_pages s' = managed dc nc s \<and>
    used_pages (managed dc nc s) s' = {}"
proof -
  let ?U = "managed dc nc s"
  obtain s1 s2 where i: "init_frames dc dram_free_list True (dramoffset s) 0 (unat (dramsize s div PAGE_SIZE)) s = Some s1"
    "init_frames nc nvm_free_list False (nvmoffset s) 0 (unat (nvmsize s div PAGE_SIZE)) s1 = Some s2"
    "heaps_only s s1" and t: "tiers_booted dc nc s s2"
    using init_tiers [OF s(1,2) c] by blast
  have dv: "nvmoffset s1 = nvmoffset s" "nvmsize s1 = nvmsize s"
    by (subst heaps_only_eq [OF i(3)], simp)+
  have run: "simple_init dc nc s = Some s2"
    using i(1,2) dv by (simp add: simple_init_def simple_frames_eq)
  have ho: "heaps_only s s2"
    using t by (simp add: tiers_booted_def)
  note r = heaps_only_simple [OF ho]
  have tl: "typed_lists simple_typed ?U {} s2"
    by (rule tiers_booted_typed [OF t c]) simp_all
  have absent: "\<not> present (payload s2 p)" if "p \<in> ?U" for p
    using t that by (auto simp: tiers_booted_def managed_def)
  then have u: "used_pages ?U s2 = {}" "used_on d ?U s2 = {}" for d
    by (auto simp: used_pages_def used_on_def)
  have fin: "finite ?U"
    by (simp add: managed_def dram_frames_def nvm_frames_def)
  have "{p \<in> ?U. \<not> in_dram (payload s2 p)} \<subseteq> nc ` nvm_frames s"
    using t by (auto simp: tiers_booted_def managed_def)
  then have "card {p \<in> ?U. \<not> in_dram (payload s2 p)} \<le> card (nc ` nvm_frames s)"
    by (intro card_mono) (simp_all add: nvm_frames_def)
  also have "\<dots> \<le> unat (nvmsize s div PAGE_SIZE)"
    using card_image_le [of "nvm_frames s" nc] by (simp add: nvm_frames_def)
  finally have "card {p \<in> ?U. \<not> in_dram (payload s2 p)} * 2 ^ 21 \<le> unat (nvmsize s)"
    by (simp add: unat_div c_consts less_eq_div_iff_mult_less_eq)
  then have "simple_ok ?U s2"
    using fin tl u s(3,4) r by (simp add: simple_ok_def)
  with run u(1) free_pages_members [OF tl] show ?thesis by simp
qed

text \<open>A device of two frames for each tier.\<close>

definition simple_demo :: "unit simple" where
  "simple_demo = hemem.extend (hemem_boot ()) (simple.fields 0 0 False)\<lparr>dramsize := 2 * PAGE_SIZE, nvmsize := 2 * PAGE_SIZE\<rparr>"

lemma simple_demo_boot:
  "mem_ok simple_demo" "queue_of simple_demo = (\<lambda>_. [])" "fastmem simple_demo = 0" "slowmem simple_demo = 0"
  "callocs_ok (\<lambda>i. 4096 * (1 + of_nat i)) (\<lambda>i. 4096 * (9 + of_nat i)) simple_demo"
  "card (managed (\<lambda>i. 4096 * (1 + of_nat i)) (\<lambda>i. 4096 * (9 + of_nat i)) simple_demo) = 4"
proof -
  have sel: "page_heap simple_demo = (\<lambda>_. zero_page)" "list_heap simple_demo = (\<lambda>_. empty_list)"
    "dramsize simple_demo = 2 * PAGE_SIZE" "nvmsize simple_demo = 2 * PAGE_SIZE"
    by (simp_all add: simple_demo_def hemem_boot_def hemem.defs simple.defs)
  then show "mem_ok simple_demo" "queue_of simple_demo = (\<lambda>_. [])"
    by (intro mem_ok_boot; simp add: zero_page_def)+
  show "fastmem simple_demo = 0" "slowmem simple_demo = 0"
    by (simp_all add: simple_demo_def hemem_boot_def hemem.defs simple.defs)
  have "unat (2 * PAGE_SIZE div PAGE_SIZE) = 2"
    by (simp add: c_consts)
  moreover have "{0..<2} = {0, 1 :: nat}"
    by auto
  ultimately have "dram_frames simple_demo = {0, 1}" "nvm_frames simple_demo = {0, 1}"
    by (simp_all add: dram_frames_def nvm_frames_def sel)
  then show "callocs_ok (\<lambda>i. 4096 * (1 + of_nat i)) (\<lambda>i. 4096 * (9 + of_nat i)) simple_demo"
    "card (managed (\<lambda>i. 4096 * (1 + of_nat i)) (\<lambda>i. 4096 * (9 + of_nat i)) simple_demo) = 4"
    by (simp_all add: callocs_ok_def managed_def)
qed

text \<open>
  C20: the simple policy never hands out a page twice and recycles every page it gets back. From start-up a sequence of
  page faults and removals of any length is served if and only if it never asks for a page while
  all managed pages are held; when it is served, the pages held at the end are distinct
  managed pages, they are exactly the pages marked in use, and the two counters are the numbers of bytes in
  use on the two devices.
\<close>

theorem simple_policy_safe:
  fixes s :: "('k, 'a) simple_scheme"
  assumes "mem_ok s" and "queue_of s = (\<lambda>_. [])" and "fastmem s = 0" and "slowmem s = 0" and "callocs_ok dc nc s"
  shows "\<exists>s1. simple_init dc nc s = Some s1 \<and>
    ((\<exists>r. drive simple_pagefault simple_remove_page rs [] s1 = Some r) \<longleftrightarrow> fits (card (managed dc nc s)) 0 rs) \<and>
    (\<forall>held s2. drive simple_pagefault simple_remove_page rs [] s1 = Some (held, s2) \<longrightarrow> distinct held \<and>
       set held = used_pages (managed dc nc s) s2 \<and>
       fastmem s2 = of_nat (card (used_on True (managed dc nc s) s2)) * PAGE_SIZE \<and>
       slowmem s2 = of_nat (card (used_on False (managed dc nc s) s2)) * PAGE_SIZE)"
proof -
  obtain s1 where s1: "simple_init dc nc s = Some s1" "simple_ok (managed dc nc s) s1"
    "free_pages s1 = managed dc nc s" "used_pages (managed dc nc s) s1 = {}"
    using simple_init_ok [OF assms(1-5)] by blast
  have "(\<exists>r. drive simple_pagefault simple_remove_page rs [] s1 = Some r) \<longleftrightarrow> fits (card (managed dc nc s)) 0 rs"
    using simple.drive_fits [OF s1(2), of "[]" rs] s1(3,4) by simp
  moreover have "distinct held \<and> set held = used_pages (managed dc nc s) s2 \<and> simple_ok (managed dc nc s) s2"
    if "drive simple_pagefault simple_remove_page rs [] s1 = Some (held, s2)" for held s2
    using simple.drive_ok [OF s1(2) _ _ that] s1(4) by simp
  ultimately show ?thesis
    using s1(1) by (fastforce simp: simple_ok_def)
qed

theorem simple_policy_safe_witness:
  "\<exists>s1 held s2. simple_init (\<lambda>i. 4096 * (1 + of_nat i)) (\<lambda>i. 4096 * (9 + of_nat i)) simple_demo = Some s1 \<and>
     drive simple_pagefault simple_remove_page [Get, Get, Get, Get, Put 1, Get, Put 0, Put 0, Get, Get] [] s1 = Some (held, s2) \<and> distinct held"
  using simple_policy_safe [OF simple_demo_boot(1-5), of "[Get, Get, Get, Get, Put 1, Get, Put 0, Put 0, Get, Get]"] simple_demo_boot(6) by auto

end
