(* ===== verification/Lru.thy ===== *)
theory Lru
  imports Placement
begin

text \<open>
  \<^verbatim>\<open>src/policies/lru.c\<close>: the policy with active and inactive lists. The scan thread reads the
  accessed and dirty bits of the pages and moves them between the lists of their device; the swap
  thread migrates written and active NVM pages to DRAM in exchange for inactive DRAM pages. Pages
  are allocated from DRAM first; with \<^verbatim>\<open>LRU_SWAP\<close> only from DRAM, after moving a page down.

  One function per C function; the threads by one iteration of their endless loop. A descriptor on
  the stack of the scan thread is its address alone. The thread-local \<^verbatim>\<open>in_kswapd\<close> is never read.
\<close>

section \<open>Constants and state\<close>

definition MAX_VAS :: u64 where [c_consts]: "MAX_VAS = 1000000"
definition KSWAPD_MIGRATE_RATE :: u64 where [c_consts]: "KSWAPD_MIGRATE_RATE = 50 * 1024 * 1024 * 1024"
definition HEMEM_ACCESSED_FLAG :: u64 where [c_consts]: "HEMEM_ACCESSED_FLAG = 0x20"
definition HEMEM_DIRTY_FLAG :: u64 where [c_consts]: "HEMEM_DIRTY_FLAG = 0x40"

record 'k lru = "'k hemem" +
  vas :: "nat \<Rightarrow> u64"
  vanum :: u64
  lru_runs :: u64
  in_kscand :: bool

section \<open>Migration\<close>

definition lru_migrate_down ::
    "'k platform \<Rightarrow> ptr \<Rightarrow> u64 \<Rightarrow> ('k, 'a) lru_scheme \<Rightarrow> ('k, 'a) lru_scheme option" where
  "lru_migrate_down E page offset s = do {
     let s = upd_page page (\<lambda>p. p\<lparr>migrating := True\<rparr>) s;
     s \<leftarrow> hemem_wp_page E page True s;
     s \<leftarrow> hemem_migrate_down E page offset s;
     Some (upd_page page (\<lambda>p. p\<lparr>migrating := False\<rparr>) s)
   }"

definition lru_migrate_up ::
    "'k platform \<Rightarrow> ptr \<Rightarrow> u64 \<Rightarrow> ('k, 'a) lru_scheme \<Rightarrow> ('k, 'a) lru_scheme option" where
  "lru_migrate_up E page offset s = do {
     let s = upd_page page (\<lambda>p. p\<lparr>migrating := True\<rparr>) s;
     s \<leftarrow> hemem_wp_page E page True s;
     s \<leftarrow> hemem_migrate_up E page offset s;
     Some (upd_page page (\<lambda>p. p\<lparr>migrating := False\<rparr>) s)
   }"

section \<open>Scanning\<close>

text \<open>\<^verbatim>\<open>assert(vanum < MAX_VAS); vas[vanum++] = page->va;\<close>\<close>

definition push_va :: "ptr \<Rightarrow> ('k, 'a) lru_scheme \<Rightarrow> ('k, 'a) lru_scheme option" where
  "push_va page s = do {
     assert (vanum s < MAX_VAS);
     Some (s\<lparr>vas := (vas s)(unat (vanum s) := va (page_heap s page)), vanum := vanum s + 1\<rparr>)
   }"

fun shrink_loop :: "'k platform \<Rightarrow> fifo_id \<Rightarrow> fifo_id \<Rightarrow> fifo_id \<Rightarrow> nat \<Rightarrow> ('k, 'a) lru_scheme \<Rightarrow>
    ('k, 'a) lru_scheme option" where
  "shrink_loop E active inactive writ 0 s = Some s"
| "shrink_loop E active inactive writ (Suc nr_pages) s =
     (if numentries (list_heap s active) > 0 then do {
        (page, s) \<leftarrow> dequeue_fifo active s;
        assert (page \<noteq> NULL);
        (bits, s) \<leftarrow> hemem_get_bits E page s;
        s \<leftarrow> (if bits AND HEMEM_ACCESSED_FLAG = HEMEM_ACCESSED_FLAG then
                 if bits AND HEMEM_DIRTY_FLAG = HEMEM_DIRTY_FLAG then do {
                   let s = upd_page page (\<lambda>p. p\<lparr>written := True\<rparr>) s;
                   s \<leftarrow> push_va page s;
                   enqueue_fifo writ page s
                 }
                 else do {
                   let s = upd_page page (\<lambda>p. p\<lparr>written := False\<rparr>) s;
                   s \<leftarrow> push_va page s;
                   enqueue_fifo active page s
                 }
               else do {
                 let s = upd_page page (\<lambda>p. p\<lparr>naccesses := 0\<rparr>) s;
                 enqueue_fifo inactive page s
               });
        shrink_loop E active inactive writ nr_pages s
      } else Some s)"

definition shrink_caches :: "'k platform \<Rightarrow> fifo_id \<Rightarrow> fifo_id \<Rightarrow> fifo_id \<Rightarrow> ('k, 'a) lru_scheme \<Rightarrow>
    ('k, 'a) lru_scheme option" where
  "shrink_caches E active inactive writ s =
     shrink_loop E active inactive writ (unat (numentries (list_heap s active))) s"

fun expand_loop :: "'k platform \<Rightarrow> fifo_id \<Rightarrow> fifo_id \<Rightarrow> fifo_id \<Rightarrow> nat \<Rightarrow> ('k, 'a) lru_scheme \<Rightarrow>
    ('k, 'a) lru_scheme option" where
  "expand_loop E active inactive writ 0 s = Some s"
| "expand_loop E active inactive writ (Suc n) s = do {
     (page, s) \<leftarrow> dequeue_fifo inactive s;
     if page = NULL then Some s
     else do {
       (bits, s) \<leftarrow> hemem_get_bits E page s;
       s \<leftarrow> (if bits AND HEMEM_ACCESSED_FLAG = HEMEM_ACCESSED_FLAG then
                if bits AND HEMEM_DIRTY_FLAG = HEMEM_DIRTY_FLAG then do {
                  let s = upd_page page (\<lambda>p. p\<lparr>written := True\<rparr>) s;
                  enqueue_fifo writ page s
                }
                else do {
                  let s = upd_page page (\<lambda>p. p\<lparr>written := False\<rparr>) s;
                  if naccesses (page_heap s page) \<ge> 4 then do {
                    let s = upd_page page (\<lambda>p. p\<lparr>naccesses := 0\<rparr>) s;
                    enqueue_fifo active page s
                  }
                  else do {
                    let s = upd_page page (\<lambda>p. p\<lparr>naccesses := naccesses p + 1\<rparr>) s;
                    s \<leftarrow> push_va page s;
                    enqueue_fifo inactive page s
                  }
                }
              else do {
                let s = upd_page page (\<lambda>p. p\<lparr>naccesses := 0\<rparr>) s;
                enqueue_fifo inactive page s
              });
       expand_loop E active inactive writ n s
     }
   }"

definition expand_caches :: "'k platform \<Rightarrow> fifo_id \<Rightarrow> fifo_id \<Rightarrow> fifo_id \<Rightarrow> ('k, 'a) lru_scheme \<Rightarrow>
    ('k, 'a) lru_scheme option" where
  "expand_caches E active inactive writ s =
     expand_loop E active inactive writ (unat (numentries (list_heap s inactive))) s"

fun check_loop :: "'k platform \<Rightarrow> fifo_id \<Rightarrow> fifo_id \<Rightarrow> fifo_id \<Rightarrow> nat \<Rightarrow> ('k, 'a) lru_scheme \<Rightarrow>
    ('k, 'a) lru_scheme option" where
  "check_loop E active inactive writ 0 s = Some s"
| "check_loop E active inactive writ (Suc n) s = do {
     (page, s) \<leftarrow> dequeue_fifo writ s;
     if page = NULL then Some s
     else do {
       (bits, s) \<leftarrow> hemem_get_bits E page s;
       s \<leftarrow> (if bits AND HEMEM_ACCESSED_FLAG = HEMEM_ACCESSED_FLAG then
                if bits AND HEMEM_DIRTY_FLAG = HEMEM_DIRTY_FLAG then do {
                  let s = upd_page page (\<lambda>p. p\<lparr>written := True\<rparr>) s;
                  s \<leftarrow> push_va page s;
                  enqueue_fifo writ page s
                }
                else do {
                  let s = upd_page page (\<lambda>p. p\<lparr>written := False\<rparr>) s;
                  enqueue_fifo active page s
                }
              else enqueue_fifo inactive page s);
       check_loop E active inactive writ n s
     }
   }"

definition check_writes :: "'k platform \<Rightarrow> fifo_id \<Rightarrow> fifo_id \<Rightarrow> fifo_id \<Rightarrow> ('k, 'a) lru_scheme \<Rightarrow>
    ('k, 'a) lru_scheme option" where
  "check_writes E active inactive writ s =
     check_loop E active inactive writ (unat (numentries (list_heap s writ))) s"

text \<open>The bits of the remembered addresses are cleared after the scan.\<close>

fun clear_loop :: "'k platform \<Rightarrow> nat \<Rightarrow> nat \<Rightarrow> ('k, 'a) lru_scheme \<Rightarrow> ('k, 'a) lru_scheme option" where
  "clear_loop E i 0 s = Some s"
| "clear_loop E i (Suc n) s = clear_bits_at E (vas s i) s \<bind> clear_loop E (Suc i) n"

definition lru_kscand :: "'k platform \<Rightarrow> ('k, 'a) lru_scheme \<Rightarrow> ('k, 'a) lru_scheme option" where
  "lru_kscand E s = do {
     let s = s\<lparr>in_kscand := True\<rparr>;
     let s = s\<lparr>vanum := 0\<rparr>;
     s \<leftarrow> check_writes E active_list inactive_list written_list s;
     s \<leftarrow> check_writes E nvm_active_list nvm_inactive_list nvm_written_list s;
     s \<leftarrow> shrink_caches E active_list inactive_list written_list s;
     s \<leftarrow> shrink_caches E nvm_active_list nvm_inactive_list nvm_written_list s;
     s \<leftarrow> expand_caches E active_list inactive_list written_list s;
     s \<leftarrow> expand_caches E nvm_active_list nvm_inactive_list nvm_written_list s;
     s \<leftarrow> clear_loop E 0 (unat (vanum s)) s;
     s \<leftarrow> hemem_tlb_shootdown E 0 s;
     Some (s\<lparr>in_kscand := False\<rparr>)
   }"

section \<open>Swapping\<close>

text \<open>The free descriptor \<open>np\<close> takes over the frame a page has left.\<close>

definition give_frame :: "ptr \<Rightarrow> u64 \<Rightarrow> bool \<Rightarrow> ('k, 'a) lru_scheme \<Rightarrow> ('k, 'a) lru_scheme" where
  "give_frame np old_offset dram s =
     upd_page np (\<lambda>p. p\<lparr>devdax_offset := old_offset, in_dram := dram, present := False\<rparr>) s"

text \<open>
  How the attempt to move a page ends: it was moved (with the bytes counted), no DRAM page is
  inactive (\<^verbatim>\<open>goto out\<close>), or both tries failed.
\<close>

datatype swap_result = Swapped u64 | All_Hot | Not_Swapped

definition push_down :: "'k platform \<Rightarrow> ptr \<Rightarrow> ptr \<Rightarrow> ('k, 'a) lru_scheme \<Rightarrow> ('k, 'a) lru_scheme option" where
  "push_down E cp np s = do {
     let old_offset = devdax_offset (page_heap s cp);
     s \<leftarrow> lru_migrate_down E cp (devdax_offset (page_heap s np)) s;
     let s = give_frame np old_offset True s;
     s \<leftarrow> enqueue_fifo nvm_inactive_list cp s;
     enqueue_fifo dram_free_list np s
   }"

fun try_swap :: "nat \<Rightarrow> 'k platform \<Rightarrow> ptr \<Rightarrow> bool \<Rightarrow> ('k, 'a) lru_scheme \<Rightarrow>
    (swap_result \<times> ('k, 'a) lru_scheme) option" where
  "try_swap 0 E p from_written_list s = Some (Not_Swapped, s)"
| "try_swap (Suc tries) E p from_written_list s = do {
     (np, s) \<leftarrow> dequeue_fifo dram_free_list s;
     if np \<noteq> NULL then do {
       assert (\<not> present (page_heap s np));
       let old_offset = devdax_offset (page_heap s p);
       s \<leftarrow> lru_migrate_up E p (devdax_offset (page_heap s np)) s;
       let s = give_frame np old_offset False s;
       s \<leftarrow> enqueue_fifo active_list p s;
       s \<leftarrow> enqueue_fifo nvm_free_list np s;
       pagesize \<leftarrow> pt_to_pagesize (pt (page_heap s p));
       Some (Swapped pagesize, s)
     }
     else do {
       (cp, s) \<leftarrow> dequeue_fifo inactive_list s;
       if cp = NULL then do {
         s \<leftarrow> (if from_written_list then enqueue_fifo nvm_written_list p s
                 else enqueue_fifo nvm_active_list p s);
         Some (All_Hot, s)
       }
       else do {
         (np, s) \<leftarrow> dequeue_fifo nvm_free_list s;
         assert (np \<noteq> NULL);
         assert (\<not> present (page_heap s np));
         s \<leftarrow> push_down E cp np s;
         try_swap tries E p from_written_list s
       }
     }
   }"

partial_function (option) swap_loop :: "'k platform \<Rightarrow> u64 \<Rightarrow> ('k, 'a) lru_scheme \<Rightarrow>
    ('k, 'a) lru_scheme option" where
  "swap_loop E migrated_bytes s =
     (if migrated_bytes < KSWAPD_MIGRATE_RATE then do {
        (p, s) \<leftarrow> dequeue_fifo nvm_written_list s;
        let from_written_list = (p \<noteq> NULL);
        (p, s) \<leftarrow> (if p = NULL then dequeue_fifo nvm_active_list s else Some (p, s));
        if p = NULL then Some s
        else do {
          (r, s) \<leftarrow> try_swap 2 E p from_written_list s;
          (case r of
             Swapped n \<Rightarrow> swap_loop E (migrated_bytes + n) s
           | All_Hot \<Rightarrow> Some s
           | Not_Swapped \<Rightarrow> swap_loop E migrated_bytes s)
        }
      } else Some s)"

definition lru_kswapd :: "'k platform \<Rightarrow> ('k, 'a) lru_scheme \<Rightarrow> ('k, 'a) lru_scheme option" where
  "lru_kswapd E s = do {
     s \<leftarrow> swap_loop E 0 s;
     Some (s\<lparr>lru_runs := lru_runs s + 1\<rparr>)
   }"

section \<open>Allocation\<close>

text \<open>A free page is marked in use and put on the active list of its device.\<close>

definition activate :: "bool \<Rightarrow> fifo_id \<Rightarrow> ptr \<Rightarrow> ('k, 'a) lru_scheme \<Rightarrow> (ptr \<times> ('k, 'a) lru_scheme) option" where
  "activate dram active page s = do {
     assert (in_dram (page_heap s page) = dram);
     assert (\<not> present (page_heap s page));
     let s = upd_page page (\<lambda>p. p\<lparr>present := True\<rparr>) s;
     s \<leftarrow> enqueue_fifo active page s;
     Some (page, s)
   }"

text \<open>\<^verbatim>\<open>lru_allocate_page\<close> as built without and with \<^verbatim>\<open>LRU_SWAP\<close>.\<close>

definition lru_allocate_page :: "('k, 'a) lru_scheme \<Rightarrow> (ptr \<times> ('k, 'a) lru_scheme) option" where
  "lru_allocate_page s = do {
     (page, s) \<leftarrow> dequeue_fifo dram_free_list s;
     if page \<noteq> NULL then activate True active_list page s
     else do {
       (page, s) \<leftarrow> dequeue_fifo nvm_free_list s;
       if page \<noteq> NULL then activate False nvm_active_list page s
       else None
     }
   }"

fun lru_swap_allocate :: "nat \<Rightarrow> 'k platform \<Rightarrow> ('k, 'a) lru_scheme \<Rightarrow> (ptr \<times> ('k, 'a) lru_scheme) option" where
  "lru_swap_allocate 0 E s = None"
| "lru_swap_allocate (Suc tries) E s = do {
     (page, s) \<leftarrow> dequeue_fifo dram_free_list s;
     if page \<noteq> NULL then activate True active_list page s
     else do {
       s \<leftarrow> (if numentries (list_heap s inactive_list) = 0
               then shrink_caches E active_list inactive_list written_list s else Some s);
       (cp, s) \<leftarrow> dequeue_fifo inactive_list s;
       (page, s) \<leftarrow> dequeue_fifo nvm_free_list s;
       s \<leftarrow> (if page \<noteq> NULL then do {
                assert (cp \<noteq> NULL);
                push_down E cp page s
              } else Some s);
       lru_swap_allocate tries E s
     }
   }"

definition lru_allocate :: "bool \<Rightarrow> 'k platform \<Rightarrow> ('k, 'a) lru_scheme \<Rightarrow> (ptr \<times> ('k, 'a) lru_scheme) option" where
  "lru_allocate LRU_SWAP E s = (if LRU_SWAP then lru_swap_allocate 2 E s else lru_allocate_page s)"

definition lru_pagefault :: "bool \<Rightarrow> 'k platform \<Rightarrow> ('k, 'a) lru_scheme \<Rightarrow> (ptr \<times> ('k, 'a) lru_scheme) option" where
  "lru_pagefault LRU_SWAP E s = do {
     (page, s) \<leftarrow> lru_allocate LRU_SWAP E s;
     assert (page \<noteq> NULL);
     Some (page, s)
   }"

definition lru_pagefault_unlocked :: "bool \<Rightarrow> 'k platform \<Rightarrow> ('k, 'a) lru_scheme \<Rightarrow> (ptr \<times> ('k, 'a) lru_scheme) option" where
  "lru_pagefault_unlocked LRU_SWAP E s = do {
     (page, s) \<leftarrow> lru_allocate LRU_SWAP E s;
     assert (page \<noteq> NULL);
     Some (page, s)
   }"

text \<open>The removal spins as long as a scan is running.\<close>

definition lru_remove_page :: "ptr \<Rightarrow> ('k, 'a) lru_scheme \<Rightarrow> ('k, 'a) lru_scheme option" where
  "lru_remove_page page s = do {
     assert (\<not> in_kscand s);
     assert (page \<noteq> NULL);
     list \<leftarrow> list_ptr (page_heap s page);
     s \<leftarrow> page_list_remove_page list page s;
     let s = upd_page page (\<lambda>p. p\<lparr>present := False\<rparr>) s;
     if in_dram (page_heap s page) then enqueue_fifo dram_free_list page s
     else enqueue_fifo nvm_free_list page s
   }"

section \<open>Start-up and statistics\<close>

fun lru_frames :: "(nat \<Rightarrow> ptr) \<Rightarrow> fifo_id \<Rightarrow> bool \<Rightarrow> u64 \<Rightarrow> nat \<Rightarrow> nat \<Rightarrow> 'a mem_scheme \<Rightarrow> 'a mem_scheme option" where
  "lru_frames calloc q dram base i 0 s = Some s"
| "lru_frames calloc q dram base i (Suc n) s = do {
     let p = calloc i;
     assert (p \<noteq> NULL);
     t \<leftarrow> pagesize_to_pt PAGE_SIZE;
     let s = upd_page p (\<lambda>_. zero_page\<lparr>devdax_offset := of_nat i * PAGE_SIZE + base, present := False,
       in_dram := dram, pt := t\<rparr>) s;
     s \<leftarrow> enqueue_fifo q p s;
     lru_frames calloc q dram base (Suc i) n s
   }"

text \<open>\<open>thread\<close> is the result of the first \<^verbatim>\<open>pthread_create\<close>, the only one that is looked at.\<close>

definition lru_init :: "int \<Rightarrow> (nat \<Rightarrow> ptr) \<Rightarrow> (nat \<Rightarrow> ptr) \<Rightarrow> ('k, 'a) lru_scheme \<Rightarrow> ('k, 'a) lru_scheme option" where
  "lru_init thread dram_calloc nvm_calloc s = do {
     s \<leftarrow> lru_frames dram_calloc dram_free_list True (dramoffset s) 0 (unat (dramsize s div PAGE_SIZE)) s;
     s \<leftarrow> lru_frames nvm_calloc nvm_free_list False (nvmoffset s) 0 (unat (nvmsize s div PAGE_SIZE)) s;
     assert (thread = 0);
     Some s
   }"

definition lru_stats :: "('k, 'a) lru_scheme \<Rightarrow> u64 list" where
  "lru_stats s = map (\<lambda>q. numentries (list_heap s q))
     [active_list, written_list, inactive_list, nvm_active_list, nvm_written_list, nvm_inactive_list]"

end
