(* ===== verification/Lru_Inv.thy ===== *)
theory Lru_Inv
  imports Lru
begin

text \<open>
  The invariant of the LRU policy and its scan thread: a scan moves pages between the lists of
  their device, remembers no address twice and disturbs no byte of the application.
\<close>

section \<open>The invariant\<close>

fun lru_typed :: "fifo_id \<Rightarrow> hemem_page \<Rightarrow> bool" where
  "lru_typed active_list pg \<longleftrightarrow> in_dram pg \<and> present pg"
| "lru_typed inactive_list pg \<longleftrightarrow> in_dram pg \<and> present pg"
| "lru_typed written_list pg \<longleftrightarrow> in_dram pg \<and> present pg"
| "lru_typed nvm_active_list pg \<longleftrightarrow> \<not> in_dram pg \<and> present pg"
| "lru_typed nvm_inactive_list pg \<longleftrightarrow> \<not> in_dram pg \<and> present pg"
| "lru_typed nvm_written_list pg \<longleftrightarrow> \<not> in_dram pg \<and> present pg"
| "lru_typed dram_free_list pg \<longleftrightarrow> in_dram pg \<and> \<not> present pg"
| "lru_typed nvm_free_list pg \<longleftrightarrow> \<not> in_dram pg \<and> \<not> present pg"
| "lru_typed _ pg \<longleftrightarrow> False"

abbreviation lru_ok :: "ptr set \<Rightarrow> ptr set \<Rightarrow> 'k platform \<Rightarrow> ('k, 'a) hemem_scheme \<Rightarrow> bool" where
  "lru_ok \<equiv> tiers_ok lru_typed"

text \<open>The active, inactive and written list of a device.\<close>

fun lists_of :: "bool \<Rightarrow> fifo_id set" where
  "lists_of True = {active_list, inactive_list, written_list}"
| "lists_of False = {nvm_active_list, nvm_inactive_list, nvm_written_list}"

lemma lists_of_typed: "q \<in> lists_of d \<Longrightarrow> lru_typed q pg \<longleftrightarrow> in_dram pg = d \<and> present pg"
  by (cases d) auto

lemma lists_of_finite [simp]: "finite (lists_of d)"
  by (cases d) auto

text \<open>The number of pages on some lists.\<close>

definition sizes :: "fifo_id set \<Rightarrow> 'a mem_scheme \<Rightarrow> nat" where
  "sizes Q s = (\<Sum>q\<in>Q. length (queue_of s q))"

text \<open>What the scan requests of the kernel do: they are granted and change no memory.\<close>

definition flags_ok :: "'k platform \<Rightarrow> bool" where
  "flags_ok E \<longleftrightarrow>
     (\<forall>a k. \<not> fst (uffdio_get_flag E a k) < 0 \<and> same_memory E k (snd (snd (snd (uffdio_get_flag E a k))))) \<and>
     (\<forall>a k. \<not> fst (uffdio_clear_flag E a k) < 0 \<and> same_memory E k (snd (snd (uffdio_clear_flag E a k))))"

lemma sim_flags_ok: "flags_ok (sim d l a)"
  by (simp add: flags_ok_def sim_select)

section \<open>Fields that do not matter\<close>

lemma queue_of_lru [simp]:
  "queue_of (s\<lparr>vas := x1\<rparr>) = queue_of s" "queue_of (s\<lparr>vanum := x2\<rparr>) = queue_of s"
  "queue_of (s\<lparr>lru_runs := x3\<rparr>) = queue_of s" "queue_of (s\<lparr>in_kscand := x4\<rparr>) = queue_of s"
  "payload (s\<lparr>vas := x1\<rparr>) = payload s" "payload (s\<lparr>vanum := x2\<rparr>) = payload s"
  "payload (s\<lparr>lru_runs := x3\<rparr>) = payload s" "payload (s\<lparr>in_kscand := x4\<rparr>) = payload s"
  by (rule mem_ok_cong; simp)+

lemma tiers_ok_lru [simp]:
  "tiers_ok T U X E (s\<lparr>vas := x1\<rparr>) = tiers_ok T U X E s" "tiers_ok T U X E (s\<lparr>vanum := x2\<rparr>) = tiers_ok T U X E s"
  "tiers_ok T U X E (s\<lparr>lru_runs := x3\<rparr>) = tiers_ok T U X E s" "tiers_ok T U X E (s\<lparr>in_kscand := x4\<rparr>) = tiers_ok T U X E s"
  by (rule tiers_ok_heap_cong; simp add: devs_def)+

lemma tiers_ok_kern:
  assumes "tiers_ok T U X E s" and "same_memory E (kern s) k"
  shows "tiers_ok T U X E (s\<lparr>kern := k\<rparr>)"
proof -
  have "typed_lists T U X (s\<lparr>kern := k\<rparr>) = typed_lists T U X s"
    by (rule typed_lists_cong) simp_all
  moreover have "frames_ok U (s\<lparr>kern := k\<rparr>) = frames_ok U s"
    by (rule frames_ok_cong) (simp_all add: devs_def)
  moreover have "maps_ok U E (s\<lparr>kern := k\<rparr>) = maps_ok U E s"
    by (rule maps_ok_cong(1)) (simp_all add: devs_def assms(2))
  ultimately show ?thesis
    using assms(1) by (simp add: tiers_ok_def)
qed

lemma lru_pay_funs [simp]:
  "pay_fun (\<lambda>p. p\<lparr>written := b\<rparr>)" "pay_fun (\<lambda>p. p\<lparr>naccesses := n\<rparr>)" "pay_fun (\<lambda>p. p)"
  "pay_fun (\<lambda>p. p\<lparr>written := b, naccesses := n\<rparr>)" "pay_fun (\<lambda>p. p\<lparr>written := b, naccesses := naccesses p + 1\<rparr>)"
  by (simp_all add: pay_fun_def keeps_links_def strip_def)

lemma place_scan [simp]:
  "place (pg\<lparr>written := b\<rparr>) = place pg" "place (pg\<lparr>naccesses := n\<rparr>) = place pg"
  by (simp_all add: place_def)

section \<open>One step of a scan\<close>

text \<open>
  The three scan functions differ in what they do with a page, given its bits: the new flags,
  whether the address is remembered and the list it goes to.
\<close>

type_synonym verdict = "u64 \<Rightarrow> hemem_page \<Rightarrow> (hemem_page \<Rightarrow> hemem_page) \<times> bool \<times> fifo_id"

definition verdict_ok :: "bool \<Rightarrow> fifo_id set \<Rightarrow> verdict \<Rightarrow> bool" where
  "verdict_ok d K c \<longleftrightarrow> (\<forall>bits pg. case c bits pg of (f, push, dst) \<Rightarrow>
     pay_fun f \<and> (\<forall>pg. place (f pg) = place pg) \<and> dst \<in> lists_of d \<and> (push \<longrightarrow> dst \<in> K))"

definition scan_step :: "'k platform \<Rightarrow> fifo_id \<Rightarrow> verdict \<Rightarrow> ('k, 'a) lru_scheme \<Rightarrow> ('k, 'a) lru_scheme option" where
  "scan_step E src c s = do {
     (page, s) \<leftarrow> dequeue_fifo src s;
     (bits, s) \<leftarrow> hemem_get_bits E page s;
     let (f, push, dst) = c bits (page_heap s page);
     let s = upd_page page f s;
     s \<leftarrow> (if push then push_va page s else Some s);
     enqueue_fifo dst page s
   }"

definition vas_ok :: "('k, 'a) lru_scheme \<Rightarrow> bool" where
  "vas_ok s \<longleftrightarrow> (\<forall>i < unat (vanum s). vas s i mod HUGEPAGE_SIZE = 0)"

definition scanned :: "'k platform \<Rightarrow> ('k, 'a) lru_scheme \<Rightarrow> ('k, 'a) lru_scheme \<Rightarrow> bool" where
  "scanned E s s' \<longleftrightarrow> devs s' = devs s \<and> pages s' = pages s \<and> (\<forall>p. place (payload s' p) = place (payload s p)) \<and>
     same_memory E (kern s) (kern s') \<and> in_kscand s' = in_kscand s"

lemma scanned_refl [simp]: "scanned E s s"
  by (simp add: scanned_def)

lemma scanned_trans: "scanned E s t \<Longrightarrow> scanned E t u \<Longrightarrow> scanned E s u"
  by (simp add: scanned_def same_memory_def)

lemma scanned_app: "scanned E s s' \<Longrightarrow> same_app U E s s'"
  unfolding scanned_def by (rule maps_ok_cong(2)) auto

lemma scanned_used: "scanned E s s' \<Longrightarrow> used_pages U s' = used_pages U s"
  by (simp add: scanned_def used_pages_def place_def)

lemma heaps_only_lru:
  fixes s s' :: "('k, 'a) lru_scheme"
  assumes "heaps_only s s'"
  shows "vas s' = vas s" and "vanum s' = vanum s" and "lru_runs s' = lru_runs s" and "in_kscand s' = in_kscand s"
    and "kern s' = kern s" and "devs s' = devs s" and "pages s' = pages s"
  by (subst heaps_only_eq [OF assms], simp add: devs_def)+

lemma get_bits_returns:
  assumes "flags_ok E" and "va (page_heap s p) mod HUGEPAGE_SIZE = 0"
  shows "\<exists>bits k. hemem_get_bits E p s = Some (bits, s\<lparr>kern := k\<rparr>) \<and> same_memory E (kern s) k"
proof -
  obtain r r1 r2 k where g: "uffdio_get_flag E (va (page_heap s p)) (kern s) = (r, r1, r2, k)"
    by (cases "uffdio_get_flag E (va (page_heap s p)) (kern s)") auto
  have "\<not> fst (uffdio_get_flag E (va (page_heap s p)) (kern s)) < 0"
    "same_memory E (kern s) (snd (snd (snd (uffdio_get_flag E (va (page_heap s p)) (kern s)))))"
    using assms(1) unfolding flags_ok_def by blast+
  with g assms(2) show ?thesis
    by (auto simp: hemem_get_bits_def Let_def)
qed

lemma sizes_move:
  assumes "finite Q" and "queue_of s src = ys @ [x]"
    and "queue_of s' = (let c = (queue_of s)(src := ys) in c(dst := x # c dst))"
  shows "sizes Q s' + of_bool (src \<in> Q) = sizes Q s + of_bool (dst \<in> Q)"
proof -
  let ?c = "(queue_of s)(src := ys)"
  have sum1: "(\<Sum>q\<in>Q. length ((g(a := z)) q)) + of_bool (a \<in> Q) * length (g a) =
      (\<Sum>q\<in>Q. length (g q)) + of_bool (a \<in> Q) * length z" for g :: "fifo_id \<Rightarrow> ptr list" and a z
  proof (cases "a \<in> Q")
    case True
    then show ?thesis
      using assms(1) by (simp add: sum.remove [of Q a])
  next
    case False
    then have "(\<Sum>q\<in>Q. length ((g(a := z)) q)) = (\<Sum>q\<in>Q. length (g q))"
      by (intro sum.cong) auto
    with False show ?thesis by simp
  qed
  have "(\<Sum>q\<in>Q. length (?c q)) + of_bool (src \<in> Q) * Suc (length ys) = sizes Q s + of_bool (src \<in> Q) * length ys"
    using sum1 [of "queue_of s" src ys] by (simp add: sizes_def assms(2))
  moreover have "sizes Q s' + of_bool (dst \<in> Q) * length (?c dst) = (\<Sum>q\<in>Q. length (?c q)) + of_bool (dst \<in> Q) * Suc (length (?c dst))"
    unfolding sizes_def assms(3) Let_def using sum1 [of ?c dst "x # ?c dst"] by simp
  ultimately show ?thesis
    by (cases "src \<in> Q"; cases "dst \<in> Q") simp_all
qed

lemma push_va_spec:
  assumes "unat (vanum s) < 1000000" and "va (page_heap s p) mod HUGEPAGE_SIZE = 0" and "vas_ok s"
  shows "\<exists>v n. push_va p s = Some (s\<lparr>vas := v, vanum := n\<rparr>) \<and> vas_ok (s\<lparr>vas := v, vanum := n\<rparr>) \<and>
    unat n = Suc (unat (vanum s))"
proof -
  have lt: "vanum s < MAX_VAS"
    using assms(1) by (simp add: word_less_nat_alt MAX_VAS_def)
  have "unat (vanum s + 1) = Suc (unat (vanum s))"
    using assms(1) by (simp add: unat_word_ariths)
  with lt assms show ?thesis
    by (intro exI [of _ "(vas s)(unat (vanum s) := va (page_heap s p))"] exI [of _ "vanum s + 1"])
      (auto simp: push_va_def vas_ok_def less_Suc_eq)
qed

lemma scan_step_spec:
  assumes E: "flags_ok E" and ok: "lru_ok U {} E s" and src: "src \<in> lists_of d" and q: "queue_of s src = ys @ [x]"
    and c: "verdict_ok d K c" and room: "unat (vanum s) < 1000000" and v: "vas_ok s"
  shows "\<exists>s' dst push. scan_step E src c s = Some s' \<and> lru_ok U {} E s' \<and> scanned E s s' \<and> vas_ok s' \<and>
    unat (vanum s') = unat (vanum s) + of_bool push \<and> dst \<in> lists_of d \<and> (push \<longrightarrow> dst \<in> K) \<and>
    queue_of s' = (let c = (queue_of s)(src := ys) in c(dst := x # c dst))"
proof -
  have xq: "x \<in> set (queue_of s src)"
    using q by simp
  note t = typed_listsD [OF tiers_okD(1) [OF ok]]
  have ty: "in_dram (payload s x) = d" "present (payload s x)" and U: "x \<in> U"
    using t(5) [OF xq] lists_of_typed [OF src] t(4) [OF xq] by auto
  have al: "va (payload s x) mod HUGEPAGE_SIZE = 0"
    using tiers_okD(3) [OF ok] U ty(2) by (auto simp: maps_ok_def mapped_ok_def)
  obtain s1 where s1: "dequeue_fifo src s = Some (x, s1)" "lru_ok U {x} E s1" "queue_of s1 = (queue_of s)(src := ys)"
    "payload s1 = payload s" "heaps_only s s1"
    using tiers_deq [OF ok q] by auto
  note r1 = heaps_only_lru [OF s1(5)]
  have al1: "va (page_heap s1 x) mod HUGEPAGE_SIZE = 0"
    using al s1(4) by (simp add: payload_select)
  obtain bits k where g: "hemem_get_bits E x s1 = Some (bits, s1\<lparr>kern := k\<rparr>)" "same_memory E (kern s1) k"
    using get_bits_returns [OF E al1] by blast
  let ?s2 = "s1\<lparr>kern := k\<rparr>"
  obtain f push dst where cc: "c bits (page_heap s1 x) = (f, push, dst)"
    by (cases "c bits (page_heap s1 x)") auto
  have f: "pay_fun f" "\<And>pg. place (f pg) = place pg" "dst \<in> lists_of d" "push \<longrightarrow> dst \<in> K"
    using c [unfolded verdict_ok_def, THEN spec, of bits, THEN spec, of "page_heap s1 x"] unfolding cc by simp_all
  have ok2: "lru_ok U {x} E ?s2"
    by (rule tiers_ok_kern [OF s1(2) g(2)])
  let ?s3 = "upd_page x f ?s2"
  note u = tiers_upd [OF ok2 _ f(1,2), of x, simplified]
  have pl3: "payload ?s3 = (payload s)(x := f (payload s x))"
    using u(3) s1(4) by simp
  have vf: "va (page_heap ?s3 x) mod HUGEPAGE_SIZE = 0"
    using f(2) [of "page_heap s1 x"] al1 by (simp add: place_def)
  have v3: "vas_ok ?s3" "unat (vanum ?s3) < 1000000"
    using v room r1 by (simp_all add: vas_ok_def)
  obtain v' n' where s4: "(if push then push_va x ?s3 else Some ?s3) = Some (?s3\<lparr>vas := v', vanum := n'\<rparr>)"
    "vas_ok (?s3\<lparr>vas := v', vanum := n'\<rparr>)" "unat n' = unat (vanum s) + of_bool push"
  proof (cases push)
    case True
    then show ?thesis
      using push_va_spec [OF v3(2) vf v3(1)] that r1(2) by auto
  next
    case False
    then show ?thesis
      using that [where v' = "vas ?s3" and n' = "vanum ?s3"] v3(1) r1(2) by (simp add: vas_ok_def)
  qed
  define s4 where "s4 = ?s3\<lparr>vas := v', vanum := n'\<rparr>"
  have h4: "page_heap s4 = page_heap ?s3" "list_heap s4 = list_heap ?s3" "devs s4 = devs s" "pages s4 = pages s"
    "kern s4 = k" "in_kscand s4 = in_kscand s" "unat (vanum s4) = unat (vanum s) + of_bool push" "vas_ok s4"
    using s4(2,3) r1 by (simp_all add: s4_def devs_def)
  note c4 = mem_ok_cong [OF h4(1,2)]
  have ok4: "lru_ok U {x} E s4"
    unfolding s4_def using u(1) by simp
  have p4: "payload s4 = (payload s)(x := f (payload s x))"
    unfolding c4 by (rule pl3)
  have "lru_typed dst (payload s4 x)"
    using lists_of_typed [OF f(3)] ty f(2) [of "payload s x"] by (simp add: p4 place_def)
  then obtain s' where s': "enqueue_fifo dst x s4 = Some s'" "lru_ok U {} E s'"
    "queue_of s' = (queue_of s4)(dst := x # queue_of s4 dst)" "payload s' = payload s4" "heaps_only s4 s'"
    using tiers_enq [OF ok4] by auto
  note r5 = heaps_only_lru [OF s'(5)]
  have "scan_step E src c s = Some s'"
    using s1(1) g(1) cc s4(1) s'(1) by (simp add: scan_step_def Let_def s4_def)
  moreover have "scanned E s s'"
    using r5 h4 g(2) r1(5) f(2) by (simp add: scanned_def s'(4) p4)
  moreover have "vas_ok s'" "unat (vanum s') = unat (vanum s) + of_bool push"
    using h4(7,8) r5 by (simp_all add: vas_ok_def)
  moreover have "queue_of s' = (let c = (queue_of s)(src := ys) in c(dst := x # c dst))"
    using s'(3) c4(1) u(2) s1(3) by (simp add: Let_def)
  ultimately show ?thesis
    using s'(2) f(3,4) by blast
qed

section \<open>The scan loops\<close>

text \<open>A loop over \<open>n\<close> pages of a list, each treated by \<open>scan_step\<close>.\<close>

definition scans :: "'k platform \<Rightarrow> fifo_id \<Rightarrow> verdict \<Rightarrow> (nat \<Rightarrow> ('k, 'a) lru_scheme \<Rightarrow> ('k, 'a) lru_scheme option) \<Rightarrow> bool" where
  "scans E src c L \<longleftrightarrow> (\<forall>s. L 0 s = Some s) \<and>
     (\<forall>n s. mem_ok s \<longrightarrow> queue_of s src \<noteq> [] \<longrightarrow> L (Suc n) s = (scan_step E src c s \<bind> L n))"

lemma scan_loop_spec:
  assumes E: "flags_ok E" and L: "scans E src c L" and src: "src \<in> lists_of d" "src \<in> K" and fin: "finite K"
    and c: "verdict_ok d K c" and ok: "lru_ok U {} E s" and v: "vas_ok s"
    and n: "n \<le> length (queue_of s src)" and room: "unat (vanum s) + n \<le> 1000000"
  shows "\<exists>s'. L n s = Some s' \<and> lru_ok U {} E s' \<and> scanned E s s' \<and> vas_ok s' \<and>
    unat (vanum s') + sizes K s \<le> unat (vanum s) + sizes K s' + n \<and>
    sizes (lists_of d) s' = sizes (lists_of d) s \<and> (\<forall>q. q \<notin> lists_of d \<longrightarrow> queue_of s' q = queue_of s q)"
  using ok v n room
proof (induction n arbitrary: s)
  case 0
  then show ?case
    using L by (auto simp: scans_def)
next
  case (Suc n)
  obtain ys x where q: "queue_of s src = ys @ [x]"
    using Suc.prems(3) by (cases "queue_of s src" rule: rev_cases) auto
  have room: "unat (vanum s) < 1000000"
    using Suc.prems(4) by simp
  obtain s1 dst push where s1: "scan_step E src c s = Some s1" "lru_ok U {} E s1" "scanned E s s1" "vas_ok s1"
    "unat (vanum s1) = unat (vanum s) + of_bool push" "dst \<in> lists_of d" "push \<longrightarrow> dst \<in> K"
    "queue_of s1 = (let c = (queue_of s)(src := ys) in c(dst := x # c dst))"
    using scan_step_spec [OF E Suc.prems(1) src(1) q c room Suc.prems(2)] by blast
  have "length ys \<le> length (queue_of s1 src)"
    by (cases "dst = src") (simp_all add: s1(8) Let_def)
  then have n1: "n \<le> length (queue_of s1 src)" "unat (vanum s1) + n \<le> 1000000"
    using Suc.prems(3,4) q s1(5) by (auto simp: of_bool_def)
  obtain s' where s': "L n s1 = Some s'" "lru_ok U {} E s'" "scanned E s1 s'" "vas_ok s'"
    "unat (vanum s') + sizes K s1 \<le> unat (vanum s1) + sizes K s' + n"
    "sizes (lists_of d) s' = sizes (lists_of d) s1" "\<forall>q. q \<notin> lists_of d \<longrightarrow> queue_of s' q = queue_of s1 q"
    using Suc.IH [OF s1(2,4) n1] by blast
  have "mem_ok s"
    by (rule typed_listsD(1) [OF tiers_okD(1) [OF Suc.prems(1)]])
  then have "L (Suc n) s = Some s'"
    using L q s1(1) s'(1) by (simp add: scans_def)
  moreover have "unat (vanum s') + sizes K s \<le> unat (vanum s) + sizes K s' + Suc n"
    using s'(5) s1(5,7) sizes_move [OF fin q s1(8)] src(2) by (auto simp: of_bool_def split: if_splits)
  moreover have "sizes (lists_of d) s' = sizes (lists_of d) s"
    using s'(6) sizes_move [OF lists_of_finite q s1(8), of d] src(1) s1(6) by simp
  moreover have "queue_of s' r = queue_of s r" if "r \<notin> lists_of d" for r
    using s'(7) s1(6,8) src(1) that by (auto simp: Let_def)
  ultimately show ?case
    using s'(2,4) scanned_trans [OF s1(3) s'(3)] by blast
qed

text \<open>What the three scan functions decide.\<close>

definition accessed :: "u64 \<Rightarrow> bool" where
  "accessed bits \<longleftrightarrow> bits AND HEMEM_ACCESSED_FLAG = HEMEM_ACCESSED_FLAG"

definition dirty :: "u64 \<Rightarrow> bool" where
  "dirty bits \<longleftrightarrow> bits AND HEMEM_DIRTY_FLAG = HEMEM_DIRTY_FLAG"

definition check_verdict :: "fifo_id \<Rightarrow> fifo_id \<Rightarrow> fifo_id \<Rightarrow> verdict" where
  "check_verdict a i w bits pg =
     (if accessed bits then
        if dirty bits then (\<lambda>p. p\<lparr>written := True\<rparr>, True, w) else (\<lambda>p. p\<lparr>written := False\<rparr>, False, a)
      else (\<lambda>p. p, False, i))"

definition shrink_verdict :: "fifo_id \<Rightarrow> fifo_id \<Rightarrow> fifo_id \<Rightarrow> verdict" where
  "shrink_verdict a i w bits pg =
     (if accessed bits then
        if dirty bits then (\<lambda>p. p\<lparr>written := True\<rparr>, True, w) else (\<lambda>p. p\<lparr>written := False\<rparr>, True, a)
      else (\<lambda>p. p\<lparr>naccesses := 0\<rparr>, False, i))"

definition expand_verdict :: "fifo_id \<Rightarrow> fifo_id \<Rightarrow> fifo_id \<Rightarrow> verdict" where
  "expand_verdict a i w bits pg =
     (if accessed bits then
        if dirty bits then (\<lambda>p. p\<lparr>written := True\<rparr>, False, w)
        else if naccesses pg \<ge> 4 then (\<lambda>p. p\<lparr>written := False, naccesses := 0\<rparr>, False, a)
        else (\<lambda>p. p\<lparr>written := False, naccesses := naccesses p + 1\<rparr>, True, i)
      else (\<lambda>p. p\<lparr>naccesses := 0\<rparr>, False, i))"

lemma dequeue_nonempty:
  assumes "mem_ok s" and "queue_of s q \<noteq> []"
  shows "\<exists>x s1. dequeue_fifo q s = Some (x, s1) \<and> x \<noteq> NULL \<and> 0 < numentries (list_heap s q)"
proof -
  obtain ys x where q: "queue_of s q = ys @ [x]"
    using assms(2) by (cases "queue_of s q" rule: rev_cases) auto
  have "x \<noteq> NULL"
    using ff.nil_contents [OF assms(1), of q] q by auto
  moreover have "0 < unat (numentries (list_heap s q))"
    using numentries_queue [OF assms(1), of q] q by simp
  ultimately show ?thesis
    using dequeue_fifo_spec [OF assms(1) q] by (auto simp: word_less_nat_alt)
qed

lemma scans_check: "scans E w (check_verdict a i w) (check_loop E a i w)"
proof -
  have "check_loop E a i w (Suc n) s = (scan_step E w (check_verdict a i w) s \<bind> check_loop E a i w n)"
    if q: "mem_ok s" "queue_of s w \<noteq> []" for n and s :: "('a, 'b) lru_scheme"
  proof -
    obtain x s1 where s1: "dequeue_fifo w s = Some (x, s1)" "x \<noteq> NULL" "0 < numentries (list_heap s w)"
      using dequeue_nonempty [OF q] by blast
    show ?thesis
      by (cases "hemem_get_bits E x s1")
        (auto simp: s1 scan_step_def check_verdict_def accessed_def dirty_def Let_def)
  qed
  then show ?thesis by (simp add: scans_def)
qed

lemma scans_shrink: "scans E a (shrink_verdict a i w) (shrink_loop E a i w)"
proof -
  have "shrink_loop E a i w (Suc n) s = (scan_step E a (shrink_verdict a i w) s \<bind> shrink_loop E a i w n)"
    if q: "mem_ok s" "queue_of s a \<noteq> []" for n and s :: "('a, 'b) lru_scheme"
  proof -
    obtain x s1 where s1: "dequeue_fifo a s = Some (x, s1)" "x \<noteq> NULL" "0 < numentries (list_heap s a)"
      using dequeue_nonempty [OF q] by blast
    show ?thesis
      by (cases "hemem_get_bits E x s1")
        (auto simp: s1 scan_step_def shrink_verdict_def accessed_def dirty_def Let_def)
  qed
  then show ?thesis by (simp add: scans_def)
qed

lemma scans_expand: "scans E i (expand_verdict a i w) (expand_loop E a i w)"
proof -
  have "expand_loop E a i w (Suc n) s = (scan_step E i (expand_verdict a i w) s \<bind> expand_loop E a i w n)"
    if q: "mem_ok s" "queue_of s i \<noteq> []" for n and s :: "('a, 'b) lru_scheme"
  proof -
    obtain x s1 where s1: "dequeue_fifo i s = Some (x, s1)" "x \<noteq> NULL" "0 < numentries (list_heap s i)"
      using dequeue_nonempty [OF q] by blast
    show ?thesis
      by (cases "hemem_get_bits E x s1")
        (auto simp: s1 scan_step_def expand_verdict_def accessed_def dirty_def Let_def)
  qed
  then show ?thesis by (simp add: scans_def)
qed

lemma verdicts_ok:
  assumes "a \<in> lists_of d" "i \<in> lists_of d" "w \<in> lists_of d"
  shows "verdict_ok d {w} (check_verdict a i w)" "verdict_ok d {w, a} (shrink_verdict a i w)"
    "verdict_ok d {w, a, i} (expand_verdict a i w)"
  using assms by (simp_all add: verdict_ok_def check_verdict_def shrink_verdict_def expand_verdict_def place_def)

section \<open>A whole scan\<close>

text \<open>
  A scan treats the lists of a device in the order written, active, inactive. The remembered
  addresses are those of distinct pages on the lists treated so far.
\<close>

fun order :: "bool \<Rightarrow> fifo_id list" where
  "order True = [written_list, active_list, inactive_list]"
| "order False = [nvm_written_list, nvm_active_list, nvm_inactive_list]"

abbreviation treated :: "bool \<Rightarrow> nat \<Rightarrow> fifo_id set" where
  "treated d j \<equiv> set (take j (order d))"

definition scan_inv :: "ptr set \<Rightarrow> 'k platform \<Rightarrow> ('k, 'a) lru_scheme \<Rightarrow> (bool \<Rightarrow> nat) \<Rightarrow> ('k, 'a) lru_scheme \<Rightarrow> bool" where
  "scan_inv U E s0 j s \<longleftrightarrow> lru_ok U {} E s \<and> scanned E s0 s \<and> vas_ok s \<and>
     unat (vanum s) \<le> sizes (treated True (j True)) s + sizes (treated False (j False)) s \<and>
     (\<forall>d. sizes (lists_of d) s = sizes (lists_of d) s0)"

lemma order_facts:
  "set (order d) = lists_of d" "distinct (order d)" "length (order d) = 3" "treated d j \<subseteq> lists_of d"
  "lists_of d \<inter> lists_of (\<not> d) = {}"
proof -
  show "set (order d) = lists_of d" "distinct (order d)" "length (order d) = 3" "lists_of d \<inter> lists_of (\<not> d) = {}"
    by (cases d; auto)+
  then show "treated d j \<subseteq> lists_of d"
    using set_take_subset [of j "order d"] by simp
qed

lemma sizes_mono: "A \<subseteq> B \<Longrightarrow> finite B \<Longrightarrow> sizes A s \<le> sizes B s"
  by (simp add: sizes_def sum_mono2)

lemma sizes_treated:
  assumes "j < 3"
  shows "sizes (treated d (Suc j)) s = sizes (treated d j) s + length (queue_of s (order d ! j))"
proof -
  consider "j = 0" | "j = 1" | "j = 2"
    using assms by linarith
  then show ?thesis
    by cases (cases d; simp add: sizes_def numeral_2_eq_2)+
qed

lemma scan_phase:
  assumes E: "flags_ok E" and inv: "scan_inv U E s0 j s" and j: "j d < 3"
    and L: "scans E (order d ! j d) c L" and c: "verdict_ok d (treated d (Suc (j d))) c"
    and few: "sizes (lists_of True) s0 + sizes (lists_of False) s0 \<le> 1000000"
  shows "\<exists>s'. L (unat (numentries (list_heap s (order d ! j d)))) s = Some s' \<and> scan_inv U E s0 (j(d := Suc (j d))) s'"
proof -
  let ?q = "order d ! j d" and ?K = "treated d (Suc (j d))" and ?n = "length (queue_of s (order d ! j d))"
  have i: "lru_ok U {} E s" "scanned E s0 s" "vas_ok s" "\<And>d. sizes (lists_of d) s = sizes (lists_of d) s0"
    using inv by (simp_all add: scan_inv_def)
  have vn: "unat (vanum s) \<le> sizes (treated d (j d)) s + sizes (treated (\<not> d) (j (\<not> d))) s"
    using inv by (cases d) (simp_all add: scan_inv_def)
  have n: "unat (numentries (list_heap s ?q)) = ?n"
    by (rule numentries_queue [OF typed_listsD(1) [OF tiers_okD(1) [OF i(1)]]])
  have q: "?q \<in> lists_of d" "?q \<in> ?K"
    using nth_mem [of "j d" "order d"] j unfolding order_facts(1,3) by (simp_all add: take_Suc_conv_app_nth order_facts(3))
  have le: "sizes (treated e k) t \<le> sizes (lists_of e) t" for e k and t :: "('a, 'b) lru_scheme"
    by (intro sizes_mono order_facts(4)) simp
  have tot: "sizes (lists_of d) s0 + sizes (lists_of (\<not> d)) s0 \<le> 1000000"
    using few by (cases d) simp_all
  have "unat (vanum s) + ?n \<le> 1000000"
    using vn sizes_treated [OF j, where d = d and s = s] le [where e = d and k = "Suc (j d)" and t = s] le [where e = "\<not> d" and k = "j (\<not> d)" and t = s] tot i(4) [of d] i(4) [of "\<not> d"]
    by linarith
  from scan_loop_spec [OF E L q _ c i(1,3) order_refl this]
  obtain s' where s': "L ?n s = Some s'" "lru_ok U {} E s'" "scanned E s s'" "vas_ok s'"
    "unat (vanum s') + sizes ?K s \<le> unat (vanum s) + sizes ?K s' + ?n"
    "sizes (lists_of d) s' = sizes (lists_of d) s" "\<forall>q. q \<notin> lists_of d \<longrightarrow> queue_of s' q = queue_of s q"
    by auto
  have other: "sizes Q s' = sizes Q s" if "Q \<subseteq> lists_of (\<not> d)" for Q
  proof -
    have "queue_of s' x = queue_of s x" if "x \<in> Q" for x
      using that \<open>Q \<subseteq> lists_of (\<not> d)\<close> s'(7) order_facts(5) [of d] by blast
    then show ?thesis
      unfolding sizes_def by (intro sum.cong) simp_all
  qed
  have v': "unat (vanum s') \<le> sizes ?K s' + sizes (treated (\<not> d) (j (\<not> d))) s'"
    using s'(5) vn sizes_treated [OF j, where d = d and s = s] other [OF order_facts(4)] by simp
  have sz: "sizes (lists_of e) s' = sizes (lists_of e) s0" for e
    using s'(6) other [of "lists_of (\<not> d)"] i(4) by (cases "e = d") auto
  have "unat (vanum s') \<le> sizes (treated True ((j(d := Suc (j d))) True)) s' + sizes (treated False ((j(d := Suc (j d))) False)) s'"
    using v' by (cases d) simp_all
  with sz s'(1,2,4) scanned_trans [OF i(2) s'(3)] n show ?thesis
    by (auto simp: scan_inv_def)
qed

lemma clear_loop_spec:
  assumes E: "flags_ok E" and "\<And>k. k < n \<Longrightarrow> vas s (i + k) mod HUGEPAGE_SIZE = 0"
  shows "\<exists>k. clear_loop E i n s = Some (s\<lparr>kern := k\<rparr>) \<and> same_memory E (kern s) k"
  using assms(2)
proof (induction n arbitrary: i s)
  case 0
  then show ?case
    by (intro exI [of _ "kern s"]) simp
next
  case (Suc n)
  obtain r x k where c: "uffdio_clear_flag E (vas s i) (kern s) = (r, x, k)"
    by (cases "uffdio_clear_flag E (vas s i) (kern s)") auto
  have "\<not> fst (uffdio_clear_flag E (vas s i) (kern s)) < 0"
    "same_memory E (kern s) (snd (snd (uffdio_clear_flag E (vas s i) (kern s))))"
    using E unfolding flags_ok_def by blast+
  with c have k: "\<not> r < 0" "same_memory E (kern s) k"
    by simp_all
  have "clear_bits_at E (vas s i) s = Some (s\<lparr>kern := k\<rparr>)"
    using Suc.prems [of 0] c k(1) by (simp add: clear_bits_at_def Let_def)
  moreover obtain k' where "clear_loop E (Suc i) n (s\<lparr>kern := k\<rparr>) = Some (s\<lparr>kern := k'\<rparr>)" "same_memory E k k'"
    using Suc.IH [of "s\<lparr>kern := k\<rparr>" "Suc i"] Suc.prems [of "Suc _"] by auto
  ultimately show ?case
    using k(2) by (intro exI [of _ k']) (simp add: same_memory_def)
qed

lemma tlb_shootdown_returns:
  assumes "platform_ok E" and "requests_succeed E"
  shows "\<exists>k. hemem_tlb_shootdown E v s = Some (s\<lparr>kern := k\<rparr>) \<and> same_memory E (kern s) k"
proof -
  let ?a = "v AND NOT (PAGE_SIZE - 1)"
  obtain r k where c: "uffdio_tlbflush E ?a PAGE_SIZE (kern s) = (r, k)"
    by (cases "uffdio_tlbflush E ?a PAGE_SIZE (kern s)") auto
  have "fst (uffdio_tlbflush E ?a PAGE_SIZE (kern s)) = 0"
    by (rule requests_succeedD(5) [OF assms(2)])
  moreover have "same_memory E (kern s) (snd (uffdio_tlbflush E ?a PAGE_SIZE (kern s)))"
    using assms(1) unfolding platform_ok_def uffd_ok_def by blast
  ultimately show ?thesis
    using c by (intro exI [of _ k]) (simp add: hemem_tlb_shootdown_def Let_def)
qed

lemma order_members: "order d ! 0 \<in> lists_of d" "order d ! 1 \<in> lists_of d" "order d ! 2 \<in> lists_of d"
  by (cases d; simp)+

lemma treated_steps:
  "treated d (Suc 0) = {order d ! 0}" "treated d (Suc 1) = {order d ! 0, order d ! 1}"
  "treated d (Suc 2) = {order d ! 0, order d ! 1, order d ! 2}"
  by (cases d; simp)+

lemma check_phase:
  assumes E: "flags_ok E" and inv: "scan_inv U E s0 j s" and j: "j d = 0"
    and few: "sizes (lists_of True) s0 + sizes (lists_of False) s0 \<le> 1000000"
  shows "\<exists>s'. check_writes E (order d ! 1) (order d ! 2) (order d ! 0) s = Some s' \<and> scan_inv U E s0 (j(d := 1)) s'"
proof -
  let ?v = "check_verdict (order d ! 1) (order d ! 2) (order d ! 0)" and ?L = "check_loop E (order d ! 1) (order d ! 2) (order d ! 0)"
  have l: "scans E (order d ! j d) ?v ?L"
    unfolding j by (rule scans_check)
  have v: "verdict_ok d (treated d (Suc (j d))) ?v"
    unfolding j treated_steps by (rule verdicts_ok(1)) (rule order_members)+
  have "j d < 3"
    by (simp add: j)
  from scan_phase [OF E inv this l v few] show ?thesis
    by (simp add: j check_writes_def numeral_2_eq_2 numeral_3_eq_3)
qed

lemma shrink_phase:
  assumes E: "flags_ok E" and inv: "scan_inv U E s0 j s" and j: "j d = 1"
    and few: "sizes (lists_of True) s0 + sizes (lists_of False) s0 \<le> 1000000"
  shows "\<exists>s'. shrink_caches E (order d ! 1) (order d ! 2) (order d ! 0) s = Some s' \<and> scan_inv U E s0 (j(d := 2)) s'"
proof -
  let ?v = "shrink_verdict (order d ! 1) (order d ! 2) (order d ! 0)" and ?L = "shrink_loop E (order d ! 1) (order d ! 2) (order d ! 0)"
  have l: "scans E (order d ! j d) ?v ?L"
    unfolding j by (rule scans_shrink)
  have v: "verdict_ok d (treated d (Suc (j d))) ?v"
    unfolding j treated_steps by (rule verdicts_ok(2)) (rule order_members)+
  have "j d < 3"
    by (simp add: j)
  from scan_phase [OF E inv this l v few] show ?thesis
    by (simp add: j shrink_caches_def numeral_2_eq_2 numeral_3_eq_3)
qed

lemma expand_phase:
  assumes E: "flags_ok E" and inv: "scan_inv U E s0 j s" and j: "j d = 2"
    and few: "sizes (lists_of True) s0 + sizes (lists_of False) s0 \<le> 1000000"
  shows "\<exists>s'. expand_caches E (order d ! 1) (order d ! 2) (order d ! 0) s = Some s' \<and> scan_inv U E s0 (j(d := 3)) s'"
proof -
  let ?v = "expand_verdict (order d ! 1) (order d ! 2) (order d ! 0)" and ?L = "expand_loop E (order d ! 1) (order d ! 2) (order d ! 0)"
  have l: "scans E (order d ! j d) ?v ?L"
    unfolding j by (rule scans_expand)
  have v: "verdict_ok d (treated d (Suc (j d))) ?v"
    unfolding j treated_steps by (rule verdicts_ok(3)) (rule order_members)+
  have "j d < 3"
    by (simp add: j)
  from scan_phase [OF E inv this l v few] show ?thesis
    by (simp add: j expand_caches_def numeral_2_eq_2 numeral_3_eq_3)
qed

text \<open>
  The scan thread returns from an iteration, provided no more pages are in use than addresses can
  be remembered.
\<close>

lemma lru_kscand_spec:
  assumes E: "platform_ok E" "requests_succeed E" "flags_ok E" and ok: "lru_ok U {} E s"
    and few: "sizes (lists_of True) s + sizes (lists_of False) s \<le> 1000000"
  shows "\<exists>s'. lru_kscand E s = Some s' \<and> lru_ok U {} E s' \<and> scanned E (s\<lparr>in_kscand := False\<rparr>) s' \<and>
    (\<forall>d. sizes (lists_of d) s' = sizes (lists_of d) s)"
proof -
  define s0 where "s0 = s\<lparr>in_kscand := True, vanum := 0\<rparr>"
  have sz: "sizes Q s0 = sizes Q s" for Q
    by (simp add: sizes_def s0_def)
  have inv: "scan_inv U E s0 (\<lambda>_. 0) s0"
    using ok by (simp add: scan_inv_def s0_def vas_ok_def)
  have few0: "sizes (lists_of True) s0 + sizes (lists_of False) s0 \<le> 1000000"
    using few sz by simp
  note phases = check_phase [OF E(3) _ _ few0] shrink_phase [OF E(3) _ _ few0] expand_phase [OF E(3) _ _ few0]
  obtain s1 where s1: "check_writes E active_list inactive_list written_list s0 = Some s1" "scan_inv U E s0 ((\<lambda>_. 0)(True := 1)) s1"
    using phases(1) [OF inv, of True] by auto
  obtain s2 where s2: "check_writes E nvm_active_list nvm_inactive_list nvm_written_list s1 = Some s2"
    "scan_inv U E s0 ((\<lambda>_. 0)(True := 1, False := 1)) s2"
    using phases(1) [OF s1(2), of False] by auto
  obtain s3 where s3: "shrink_caches E active_list inactive_list written_list s2 = Some s3"
    "scan_inv U E s0 ((\<lambda>_. 0)(True := 1, False := 1, True := 2)) s3"
    using phases(2) [OF s2(2), of True] by auto
  obtain s4 where s4: "shrink_caches E nvm_active_list nvm_inactive_list nvm_written_list s3 = Some s4"
    "scan_inv U E s0 ((\<lambda>_. 0)(True := 1, False := 1, True := 2, False := 2)) s4"
    using phases(2) [OF s3(2), of False] by auto
  obtain s5 where s5: "expand_caches E active_list inactive_list written_list s4 = Some s5"
    "scan_inv U E s0 ((\<lambda>_. 0)(True := 1, False := 1, True := 2, False := 2, True := 3)) s5"
    using phases(3) [OF s4(2), of True] by auto
  obtain s6 j where s6: "expand_caches E nvm_active_list nvm_inactive_list nvm_written_list s5 = Some s6" "scan_inv U E s0 j s6"
    using phases(3) [OF s5(2), of False] by auto
  have i: "lru_ok U {} E s6" "scanned E s0 s6" "vas_ok s6" "\<And>d. sizes (lists_of d) s6 = sizes (lists_of d) s0"
    using s6(2) by (simp_all add: scan_inv_def)
  obtain k1 where k1: "clear_loop E 0 (unat (vanum s6)) s6 = Some (s6\<lparr>kern := k1\<rparr>)" "same_memory E (kern s6) k1"
    using clear_loop_spec [OF E(3), of "unat (vanum s6)" s6 0] i(3) by (auto simp: vas_ok_def)
  obtain k2 where k2: "hemem_tlb_shootdown E 0 (s6\<lparr>kern := k1\<rparr>) = Some (s6\<lparr>kern := k2\<rparr>)" "same_memory E k1 k2"
    using tlb_shootdown_returns [OF E(1,2), of 0 "s6\<lparr>kern := k1\<rparr>"] by auto
  let ?s' = "s6\<lparr>kern := k2, in_kscand := False\<rparr>"
  have km: "same_memory E (kern s6) k2"
    using k1(2) k2(2) by (simp add: same_memory_def)
  have "lru_kscand E s = Some ?s'"
    using s1(1) s2(1) s3(1) s4(1) s5(1) s6(1) k1(1) k2(1) by (simp add: lru_kscand_def s0_def Let_def)
  moreover have "lru_ok U {} E ?s'"
    using tiers_ok_kern [OF i(1) km] by simp
  moreover have "scanned E (s\<lparr>in_kscand := False\<rparr>) ?s'"
    using i(2) km by (simp add: scanned_def s0_def devs_def same_memory_def)
  moreover have "sizes (lists_of d) ?s' = sizes (lists_of d) s" for d
    using i(4) [of d] sz by (simp add: sizes_def)
  ultimately show ?thesis by blast
qed

end
