(* ===== verification/Lru_Swap.thy ===== *)
theory Lru_Swap
  imports Lru_Inv
begin

text \<open>
  The swap thread of the LRU policy: it exchanges frames between the devices, keeps the invariant,
  terminates and leaves every byte of the application in place.
\<close>

section \<open>Exchanging frames\<close>

lemma lru_migrate_eq:
  "lru_migrate_up E p off s = protected_up E p off s" "lru_migrate_down E p off s = protected_down E p off s"
  by (simp_all add: lru_migrate_up_def lru_migrate_down_def protected_up_def protected_down_def)

lemma give_frame_takes_over:
  "takes_over off dram (\<lambda>p. p\<lparr>devdax_offset := off, in_dram := dram, present := False\<rparr>)"
  by (simp add: takes_over_def pay_fun_def keeps_links_def strip_def)

text \<open>Nothing but pages on their frames changed: which pages are in use, and the policy's variables, stay.\<close>

definition swapped_to :: "ptr set \<Rightarrow> 'k platform \<Rightarrow> ('k, 'a) lru_scheme \<Rightarrow> ('k, 'a) lru_scheme \<Rightarrow> bool" where
  "swapped_to U E s s' \<longleftrightarrow> same_app U E s s' \<and> policy_same s s' \<and> (\<forall>q. present (payload s' q) = present (payload s q))"

lemma swapped_to_refl [simp]: "swapped_to U E s s"
  by (simp add: swapped_to_def)

lemma swapped_to_trans: "swapped_to U E s t \<Longrightarrow> swapped_to U E t u \<Longrightarrow> swapped_to U E s u"
  unfolding swapped_to_def using same_app_trans policy_same_trans by blast

lemma swapped_to_heaps:
  assumes "payload s' = payload s" and "heaps_only s s'"
  shows "swapped_to U E s s'"
  using assms heaps_only_policy [OF assms(2)] heaps_only_hemem(3) [OF assms(2)]
  by (simp add: swapped_to_def same_app_def)

lemma swapped_to_used: "swapped_to U E s s' \<Longrightarrow> used_pages U s' = used_pages U s"
  by (simp add: swapped_to_def used_pages_def)

lemma push_down_spec:
  assumes E: "platform_ok E" "requests_succeed E" and ok: "lru_ok U X E s" and X: "cp \<in> X" "np \<in> X"
    and cp: "present (payload s cp)" "in_dram (payload s cp)" and np: "\<not> present (payload s np)" "\<not> in_dram (payload s np)"
  shows "\<exists>s'. push_down E cp np s = Some s' \<and> lru_ok U (X - {cp} - {np}) E s' \<and> swapped_to U E s s' \<and>
    queue_of s' = (queue_of s)(nvm_inactive_list := cp # queue_of s nvm_inactive_list,
      dram_free_list := np # queue_of s dram_free_list) \<and>
    (\<forall>q. q \<noteq> cp \<longrightarrow> q \<noteq> np \<longrightarrow> payload s' q = payload s q)"
proof -
  let ?f = "\<lambda>p. p\<lparr>devdax_offset := devdax_offset (payload s cp), in_dram := True, present := False\<rparr>"
  have ne: "cp \<noteq> np"
    using cp(1) np(1) by auto
  obtain s1 x where s1: "protected_down E cp (devdax_offset (payload s np)) s = Some s1"
    "lru_ok U X E (upd_page np ?f s1)" "same_app U E s (upd_page np ?f s1)" "queue_of (upd_page np ?f s1) = queue_of s"
    "policy_same s (upd_page np ?f s1)"
    "payload (upd_page np ?f s1) = (payload s)(cp := (payload s cp)\<lparr>page_migrations_down := x,
      devdax_offset := devdax_offset (payload s np), in_dram := False, migrating := False\<rparr>, np := ?f (payload s np))"
    using exchange_down [OF E ok X cp np give_frame_takes_over] by (auto simp only: Let_def)
  define t where "t = upd_page np ?f s1"
  note t = s1(2-6) [folded t_def]
  have ty: "lru_typed nvm_inactive_list (payload t cp)" "lru_typed dram_free_list (payload t np)"
    using ne cp(1) by (simp_all add: t(5))
  obtain s2 where s2: "enqueue_fifo nvm_inactive_list cp t = Some s2" "lru_ok U (X - {cp}) E s2"
    "queue_of s2 = (queue_of t)(nvm_inactive_list := cp # queue_of t nvm_inactive_list)" "payload s2 = payload t" "heaps_only t s2"
    using tiers_enq [OF t(1) X(1) ty(1)] by blast
  have "np \<in> X - {cp}" "lru_typed dram_free_list (payload s2 np)"
    using X(2) ne ty(2) s2(4) by simp_all
  from tiers_enq [OF s2(2) this] obtain s3 where s3: "enqueue_fifo dram_free_list np s2 = Some s3" "lru_ok U (X - {cp} - {np}) E s3"
    "queue_of s3 = (queue_of s2)(dram_free_list := np # queue_of s2 dram_free_list)" "payload s3 = payload s2" "heaps_only s2 s3"
    by blast
  have "push_down E cp np s = Some s3"
    using s1(1) s2(1) s3(1) by (simp add: push_down_def lru_migrate_eq give_frame_def payload_select Let_def t_def)
  moreover have "swapped_to U E s t"
    using t(2,4) cp(1) np(1) ne by (simp add: swapped_to_def t(5))
  then have "swapped_to U E s s3"
    by (blast intro: swapped_to_trans swapped_to_heaps s2(4,5) s3(4,5))
  ultimately show ?thesis
    using s3(2-4) s2(3,4) t(3,5) by (intro exI [of _ s3]) simp
qed

lemma pull_up_spec:
  assumes E: "platform_ok E" "requests_succeed E" and ok: "lru_ok U {p} E s"
    and p: "present (payload s p)" "\<not> in_dram (payload s p)" and q: "queue_of s dram_free_list = ys @ [np]"
  shows "\<exists>s'. try_swap (Suc n) E p w s = Some (Swapped PAGE_SIZE, s') \<and> lru_ok U {} E s' \<and> swapped_to U E s s' \<and>
    queue_of s' = (queue_of s)(dram_free_list := ys, active_list := p # queue_of s active_list,
      nvm_free_list := np # queue_of s nvm_free_list)"
proof -
  note d = typed_listsD [OF tiers_okD(1) [OF ok]]
  have npq: "np \<in> set (queue_of s dram_free_list)"
    using q by simp
  have np: "np \<in> U - {p}" "\<not> present (payload s np)" "in_dram (payload s np)" "np \<noteq> NULL"
    using d(4) [OF npq] d(5) [OF npq] d(3) by auto
  obtain s0 where s0: "dequeue_fifo dram_free_list s = Some (np, s0)" "lru_ok U {np, p} E s0"
    "queue_of s0 = (queue_of s)(dram_free_list := ys)" "payload s0 = payload s" "heaps_only s s0"
    using tiers_deq [OF ok q] by blast
  let ?f = "\<lambda>pg. pg\<lparr>devdax_offset := devdax_offset (payload s0 p), in_dram := False, present := False\<rparr>"
  have X: "p \<in> {np, p}" "np \<in> {np, p}"
    by simp_all
  have p0: "present (payload s0 p)" "\<not> in_dram (payload s0 p)" and np0: "\<not> present (payload s0 np)" "in_dram (payload s0 np)"
    using p np s0(4) by simp_all
  obtain s1 x where s1: "protected_up E p (devdax_offset (payload s0 np)) s0 = Some s1"
    "lru_ok U {np, p} E (upd_page np ?f s1)" "same_app U E s0 (upd_page np ?f s1)" "queue_of (upd_page np ?f s1) = queue_of s0"
    "policy_same s0 (upd_page np ?f s1)"
    "payload (upd_page np ?f s1) = (payload s0)(p := (payload s0 p)\<lparr>page_migrations_up := x,
      devdax_offset := devdax_offset (payload s0 np), in_dram := True, migrating := False\<rparr>, np := ?f (payload s0 np))"
    "pt (payload s0 p) = HUGEP"
    using exchange_up [OF E s0(2) X p0 np0 give_frame_takes_over] by (auto simp only: Let_def)
  define t where "t = upd_page np ?f s1"
  note t = s1(2-6) [folded t_def]
  have ne: "p \<noteq> np"
    using np(1) by auto
  have ty: "lru_typed active_list (payload t p)" "lru_typed nvm_free_list (payload t np)"
    using ne p0(1) by (simp_all add: t(5))
  have "lru_ok U {p, np} E t"
    using t(1) by (simp only: insert_commute)
  from tiers_enq2 [OF this ne ty] obtain s' where s': "(enqueue_fifo active_list p t \<bind> enqueue_fifo nvm_free_list np) = Some s'"
    "lru_ok U {} E s'" "queue_of s' = (queue_of t)(active_list := p # queue_of t active_list, nvm_free_list := np # queue_of t nvm_free_list)"
    "payload s' = payload t" "heaps_only t s'"
    by auto
  have "pt (page_heap s' p) = HUGEP"
    using ne s1(7) by (simp add: payload_select s'(4) t(5))
  then have "try_swap (Suc n) E p w s = Some (Swapped PAGE_SIZE, s')"
    using s0(1) np0(1) np(4) s1(1) s'(1)
    by (auto simp: lru_migrate_eq give_frame_def payload_select Let_def t_def run_elims PAGE_SIZE_def)
  moreover have "swapped_to U E s0 t"
    using t(2,4) p0 np0 ne by (simp add: swapped_to_def t(5))
  then have "swapped_to U E s s'"
    by (blast intro: swapped_to_trans swapped_to_heaps s'(4,5) s0(4,5))
  ultimately show ?thesis
    using s'(2,3) t(3) s0(3) by (intro exI [of _ s']) simp
qed

section \<open>The swap thread\<close>

text \<open>The NVM pages that wait for DRAM.\<close>

definition waiting :: "'a mem_scheme \<Rightarrow> nat" where
  "waiting s = length (queue_of s nvm_written_list) + length (queue_of s nvm_active_list)"

lemma try_swap_all_hot:
  assumes ok: "lru_ok U {p} E s" and p: "present (payload s p) \<and> \<not> in_dram (payload s p)"
    and e: "queue_of s dram_free_list = []" "queue_of s inactive_list = []"
  shows "\<exists>s'. try_swap 2 E p w s = Some (All_Hot, s') \<and> lru_ok U {} E s' \<and> swapped_to U E s s' \<and> free_count s' = free_count s"
proof -
  note d = typed_listsD [OF tiers_okD(1) [OF ok]]
  let ?q = "if w then nvm_written_list else nvm_active_list"
  have "lru_typed ?q (payload s p)"
    using p by simp
  then obtain s' where s': "enqueue_fifo ?q p s = Some s'" "lru_ok U {} E s'"
    "queue_of s' = (queue_of s)(?q := p # queue_of s ?q)" "payload s' = payload s" "heaps_only s s'"
    using tiers_enq [OF ok] by auto
  have "try_swap 2 E p w s = Some (All_Hot, s')"
    using dequeue_fifo_empty [OF d(1) e(1)] dequeue_fifo_empty [OF d(1) e(2)] s'(1) by (cases w) (simp_all add: numeral_2_eq_2)
  then show ?thesis
    using s'(2,3) swapped_to_heaps [OF s'(4,5)] by (auto simp: free_count_def)
qed

lemma try_swap_spec:
  assumes E: "platform_ok E" "requests_succeed E" and ok: "lru_ok U {p} E s"
    and p: "present (payload s p)" "\<not> in_dram (payload s p)" and free: "0 < free_count s"
  shows "\<exists>r s'. try_swap 2 E p w s = Some (r, s') \<and> lru_ok U {} E s' \<and> swapped_to U E s s' \<and> free_count s' = free_count s \<and>
    (r = Swapped PAGE_SIZE \<and> waiting s' = waiting s \<or> r = All_Hot)"
proof (cases "queue_of s dram_free_list" rule: rev_cases)
  case (snoc ys np)
  then show ?thesis
    using pull_up_spec [OF E ok p snoc, of 1 w]
    by (auto simp: numeral_2_eq_2 free_count_def waiting_def simp del: try_swap.simps)
next
  case Nil
  note d = typed_listsD [OF tiers_okD(1) [OF ok]]
  have deq: "dequeue_fifo dram_free_list s = Some (NULL, s)"
    by (rule dequeue_fifo_empty [OF d(1) Nil])
  show ?thesis
  proof (cases "queue_of s inactive_list" rule: rev_cases)
    case hot: Nil
    show ?thesis
      using try_swap_all_hot [OF ok _ Nil hot] p by blast
  next
    case (snoc zs cp)
    obtain s1 where s1: "dequeue_fifo inactive_list s = Some (cp, s1)" "lru_ok U {cp, p} E s1"
      "queue_of s1 = (queue_of s)(inactive_list := zs)" "payload s1 = payload s" "heaps_only s s1"
      using tiers_deq [OF ok snoc] by auto
    have cpq: "cp \<in> set (queue_of s inactive_list)"
      using snoc by simp
    have cp: "cp \<in> U - {p}" "cp \<noteq> NULL" "present (payload s cp)" "in_dram (payload s cp)"
      using d(4) [OF cpq] d(5) [OF cpq] d(3) by auto
    obtain ys np where nf: "queue_of s1 nvm_free_list = ys @ [np]"
      using free Nil s1(3) by (cases "queue_of s nvm_free_list" rule: rev_cases) (auto simp: free_count_def)
    note d1 = typed_listsD [OF tiers_okD(1) [OF s1(2)]]
    have npq: "np \<in> set (queue_of s1 nvm_free_list)"
      using nf by simp
    have np: "np \<in> U - {cp, p}" "\<not> present (payload s np)" "\<not> in_dram (payload s np)" "np \<noteq> NULL"
      using d1(4) [OF npq] d1(5) [OF npq] d1(3) s1(4) by auto
    obtain s2 where s2: "dequeue_fifo nvm_free_list s1 = Some (np, s2)" "lru_ok U {np, cp, p} E s2"
      "queue_of s2 = (queue_of s1)(nvm_free_list := ys)" "payload s2 = payload s1" "heaps_only s1 s2"
      using tiers_deq [OF s1(2) nf] by auto
    have X: "{np, cp, p} - {cp} - {np} = {p}"
      using np(1) cp(1) by auto
    obtain s3 where s3: "push_down E cp np s2 = Some s3" "lru_ok U {p} E s3" "swapped_to U E s2 s3"
      "queue_of s3 = (queue_of s2)(nvm_inactive_list := cp # queue_of s2 nvm_inactive_list, dram_free_list := np # queue_of s2 dram_free_list)"
      "payload s3 p = payload s p"
      using push_down_spec [OF E s2(2), of cp np] cp np s2(4) s1(4) unfolding X by auto
    have "queue_of s3 dram_free_list = [] @ [np]"
      using Nil by (simp add: s3(4) s2(3) s1(3))
    from pull_up_spec [OF E s3(2) _ _ this, of 0 w] p s3(5)
    obtain s' where s': "try_swap (Suc 0) E p w s3 = Some (Swapped PAGE_SIZE, s')" "lru_ok U {} E s'" "swapped_to U E s3 s'"
      "queue_of s' = (queue_of s3)(dram_free_list := [], active_list := p # queue_of s3 active_list,
        nvm_free_list := np # queue_of s3 nvm_free_list)"
      by auto
    have "try_swap 2 E p w s = Some (Swapped PAGE_SIZE, s')"
      using deq s1(1,4) cp(2) s2(1,4) np(2,4) s3(1) s'(1)
      by (simp add: numeral_2_eq_2 payload_select)
    moreover have "swapped_to U E s s'"
      by (blast intro: swapped_to_trans swapped_to_heaps s1(4,5) s2(4,5) s3(3) s'(3))
    ultimately show ?thesis
      using s'(2,4) s3(4) s2(3) s1(3) nf Nil by (auto simp: free_count_def waiting_def)
  qed
qed

lemma swap_loop_first:
  assumes m: "mem_ok s" and b: "b < KSWAPD_MIGRATE_RATE" and w: "0 < waiting s"
  shows "\<exists>p s1 q ys. q \<in> {nvm_written_list, nvm_active_list} \<and> queue_of s q = ys @ [p] \<and> dequeue_fifo q s = Some (p, s1) \<and>
    mem_ok s1 \<and> queue_of s1 = (queue_of s)(q := ys) \<and>
    swap_loop E b s = (try_swap 2 E p (queue_of s nvm_written_list \<noteq> []) s1 \<bind> (\<lambda>(r, s). case r of
      Swapped n \<Rightarrow> swap_loop E (b + n) s | All_Hot \<Rightarrow> Some s | Not_Swapped \<Rightarrow> swap_loop E b s))"
proof -
  let ?q = "if queue_of s nvm_written_list = [] then nvm_active_list else nvm_written_list"
  have "queue_of s ?q \<noteq> []"
    using w by (auto simp: waiting_def)
  then obtain ys p where q: "queue_of s ?q = ys @ [p]"
    by (cases "queue_of s ?q" rule: rev_cases) auto
  have p: "p \<noteq> NULL"
    using ff.nil_contents [OF m, of ?q] unfolding q by auto
  obtain s1 where s1: "dequeue_fifo ?q s = Some (p, s1)" "mem_ok s1" "queue_of s1 = (queue_of s)(?q := ys)"
    using dequeue_fifo_spec [OF m q] by blast
  have "swap_loop E b s = (try_swap 2 E p (queue_of s nvm_written_list \<noteq> []) s1 \<bind> (\<lambda>(r, s). case r of
      Swapped n \<Rightarrow> swap_loop E (b + n) s | All_Hot \<Rightarrow> Some s | Not_Swapped \<Rightarrow> swap_loop E b s))"
    using b s1(1) p dequeue_fifo_empty [OF m, of nvm_written_list]
    by (cases "queue_of s nvm_written_list = []") (simp_all add: swap_loop.simps [of E b s])
  then show ?thesis
    using q s1 by (intro exI [of _ p] exI [of _ s1] exI [of _ ?q] exI [of _ ys]) simp
qed

lemma swap_loop_spec:
  assumes E: "platform_ok E" "requests_succeed E" and ok: "lru_ok U {} E s" and free: "0 < free_count s"
  shows "\<exists>s'. swap_loop E b s = Some s' \<and> lru_ok U {} E s' \<and> swapped_to U E s s' \<and> free_count s' = free_count s"
  using ok free
proof (induction "waiting s" arbitrary: s b rule: less_induct)
  case less
  note d = typed_listsD [OF tiers_okD(1) [OF less.prems(1)]]
  show ?case
  proof (cases "b < KSWAPD_MIGRATE_RATE \<and> waiting s > 0")
    case False
    have e: "swap_loop E b s = Some s"
    proof (cases "b < KSWAPD_MIGRATE_RATE")
      case True
      with False have "queue_of s nvm_written_list = []" "queue_of s nvm_active_list = []"
        by (simp_all add: waiting_def)
      then show ?thesis
        using dequeue_fifo_empty [OF d(1)] by (simp add: swap_loop.simps [of E b s])
    next
      case f: False
      then show ?thesis
        by (simp only: swap_loop.simps [of E b s] if_False)
    qed
    with less.prems show ?thesis by auto
  next
    case True
    from swap_loop_first [OF d(1) conjunct1 [OF True] conjunct2 [OF True], of E]
    obtain p s0 q ys where q: "q \<in> {nvm_written_list, nvm_active_list}" "queue_of s q = ys @ [p]" "dequeue_fifo q s = Some (p, s0)"
      and run: "swap_loop E b s = (try_swap 2 E p (queue_of s nvm_written_list \<noteq> []) s0 \<bind> (\<lambda>(r, s). case r of
        Swapped n \<Rightarrow> swap_loop E (b + n) s | All_Hot \<Rightarrow> Some s | Not_Swapped \<Rightarrow> swap_loop E b s))"
      by blast
    have pq: "p \<in> set (queue_of s q)"
      using q(2) by simp
    have p: "p \<noteq> NULL" "present (payload s p)" "\<not> in_dram (payload s p)"
      using d(3) d(4) [OF pq] d(5) [OF pq] q(1) by auto
    obtain s1 where s1: "s1 = s0" "lru_ok U {p} E s1" "queue_of s1 = (queue_of s)(q := ys)" "payload s1 = payload s" "heaps_only s s1"
      using tiers_deq [OF less.prems(1) q(2)] q(3) by auto
    have w1: "waiting s1 < waiting s" "free_count s1 = free_count s"
      using q(1,2) by (auto simp: waiting_def free_count_def s1(3))
    note run = run [folded s1(1)]
    obtain r s2 where s2: "try_swap 2 E p (queue_of s nvm_written_list \<noteq> []) s1 = Some (r, s2)" "lru_ok U {} E s2" "swapped_to U E s1 s2"
      "free_count s2 = free_count s1" "r = Swapped PAGE_SIZE \<and> waiting s2 = waiting s1 \<or> r = All_Hot"
      using try_swap_spec [OF E s1(2)] p s1(4) less.prems(2) w1(2) by (metis (no_types, lifting))
    have sw: "swapped_to U E s s2"
      by (rule swapped_to_trans [OF swapped_to_heaps [OF s1(4,5)] s2(3)])
    from s2(5) show ?thesis
    proof
      assume r: "r = Swapped PAGE_SIZE \<and> waiting s2 = waiting s1"
      then have "waiting s2 < waiting s" "0 < free_count s2"
        using w1 s2(4) less.prems(2) by simp_all
      from less.hyps [OF this(1) s2(2) this(2), of "b + PAGE_SIZE"] r show ?thesis
        using run s2(1,4) w1(2) swapped_to_trans [OF sw] by auto
    next
      assume "r = All_Hot"
      then show ?thesis
        using run s2(1,2,4) sw w1(2) by simp
    qed
  qed
qed

end
