(* ===== verification/Lru_System.thy ===== *)
theory Lru_System
  imports Lru_Swap Policy_Interface
begin

text \<open>
  The library with the LRU policy: allocation and removal, the contract of a policy, start-up, whole
  iterations of the two threads, the calls of the application, and a concrete system. The threads
  at the grain of single pages are in \<^theory_text>\<open>Lru_Threads\<close>.
\<close>

section \<open>Allocation and removal\<close>

definition free_of :: "bool \<Rightarrow> fifo_id" where
  "free_of dram = (if dram then dram_free_list else nvm_free_list)"

definition active_of :: "bool \<Rightarrow> fifo_id" where
  "active_of dram = (if dram then active_list else nvm_active_list)"

lemma lru_listed:
  assumes t: "typed_lists lru_typed U X s" and p: "p \<in> set (queue_of s q)"
  shows "(q = dram_free_list \<or> q = nvm_free_list) = (\<not> present (payload s p))" and "q \<in> lists_of d \<Longrightarrow> in_dram (payload s p) = d"
    and "p \<in> U - X" and "p \<noteq> NULL" and "q \<in> lists_of True \<union> lists_of False \<union> {dram_free_list, nvm_free_list}"
    and "q = free_of d \<Longrightarrow> in_dram (payload s p) = d"
proof -
  note d = typed_listsD [OF t]
  show "(q = dram_free_list \<or> q = nvm_free_list) = (\<not> present (payload s p))"
    "q \<in> lists_of True \<union> lists_of False \<union> {dram_free_list, nvm_free_list}"
    using d(5) [OF p] by (cases q; simp)+
  show "q \<in> lists_of d \<Longrightarrow> in_dram (payload s p) = d"
    using d(5) [OF p] lists_of_typed by blast
  show "p \<in> U - X" "p \<noteq> NULL"
    using d(3) d(4) [OF p] by auto
  show "q = free_of d \<Longrightarrow> in_dram (payload s p) = d"
    using d(5) [OF p] by (auto simp: free_of_def split: if_splits)
qed

lemma lru_free_pages:
  assumes t: "typed_lists lru_typed U {} s"
  shows "free_pages s = U - used_pages U s"
proof (intro set_eqI iffI)
  fix p
  assume "p \<in> free_pages s"
  then obtain q where "p \<in> set (queue_of s q)" "q = dram_free_list \<or> q = nvm_free_list"
    by (auto simp: free_pages_def)
  with lru_listed(1,3) [OF t] show "p \<in> U - used_pages U s"
    by (auto simp: used_pages_def)
next
  fix p
  assume p: "p \<in> U - used_pages U s"
  then obtain q where q: "p \<in> set (queue_of s q)"
    using typed_listsD(6) [OF t] by blast
  have "\<not> present (payload s p)"
    using p by (simp add: used_pages_def)
  with lru_listed(1) [OF t q] q show "p \<in> free_pages s"
    by (auto simp: free_pages_def)
qed

lemma activate_spec:
  assumes t: "typed_lists lru_typed U {} s" and q: "queue_of s (free_of dram) = ys @ [p]"
  shows "\<exists>s1 s'. dequeue_fifo (free_of dram) s = Some (p, s1) \<and> activate dram (active_of dram) p s1 = Some (p, s') \<and>
    p \<noteq> NULL \<and> taken lru_typed U p s s' \<and> in_dram (payload s p) = dram \<and> p \<in> free_pages s \<and> hemem.more s' = hemem.more s \<and>
    queue_of s' = (queue_of s)(free_of dram := ys, active_of dram := p # queue_of s (active_of dram))"
proof -
  have pq: "p \<in> set (queue_of s (free_of dram))"
    using q by simp
  note l = lru_listed [OF t pq]
  have p: "\<not> present (payload s p)" "in_dram (payload s p) = dram" "p \<in> U" "p \<noteq> NULL"
    using l(3,4,6) l(1) by (auto simp: free_of_def split: if_splits)
  obtain s1 where s1: "dequeue_fifo (free_of dram) s = Some (p, s1)" "typed_lists lru_typed U {p} s1"
    "queue_of s1 = (queue_of s)(free_of dram := ys)" "payload s1 = payload s" "heaps_only s s1"
    using typed_lists_deq [OF t q] by auto
  let ?f = "\<lambda>p. p\<lparr>present := True\<rparr>"
  note u = upd_page_spec [OF typed_listsD(1) [OF s1(2)] pay_fun_intros(2), of p True]
  have l1: "typed_lists lru_typed U {p} (upd_page p ?f s1)"
    by (rule typed_lists_upd [OF s1(2)]) simp_all
  have "lru_typed (active_of dram) (payload (upd_page p ?f s1) p)"
    using p(2) unfolding u(3) s1(4) by (simp add: active_of_def)
  then obtain s' where s': "enqueue_fifo (active_of dram) p (upd_page p ?f s1) = Some s'" "typed_lists lru_typed U {} s'"
    "queue_of s' = (queue_of s1)(active_of dram := p # queue_of s1 (active_of dram))"
    "payload s' = (payload s)(p := ?f (payload s p))" "heaps_only (upd_page p ?f s1) s'"
    using typed_lists_enq [OF l1, of p "active_of dram"] unfolding u(2,3) s1(4) by auto
  have ho: "heaps_only s s'"
    using s1(5) s'(5) by (simp add: heaps_only_def)
  have "activate dram (active_of dram) p s1 = Some (p, s')"
    using p(1,2) s'(1) s1(4) by (simp add: activate_def payload_select Let_def)
  moreover have "taken lru_typed U p s s'"
    using p s'(2,4) heaps_only_hemem [OF ho] by (simp add: taken_def)
  moreover have "p \<in> free_pages s"
    using pq by (auto simp: free_pages_def free_of_def split: if_splits)
  moreover have "queue_of s' = (queue_of s)(free_of dram := ys, active_of dram := p # queue_of s (active_of dram))"
    unfolding s'(3) s1(3) by (simp add: active_of_def free_of_def)
  moreover have "hemem.more s' = hemem.more s"
    using heaps_only_policy [OF ho] by (simp add: policy_same_def)
  ultimately show ?thesis
    using s1(1) p(2,4) by blast
qed

lemma lru_pagefault_spec:
  assumes t: "typed_lists lru_typed U {} s"
  shows "free_pages s = {} \<Longrightarrow> lru_pagefault False E s = None"
    and "free_pages s \<noteq> {} \<Longrightarrow> \<exists>p s'. lru_pagefault False E s = Some (p, s') \<and> taken lru_typed U p s s' \<and> p \<in> free_pages s \<and>
      in_dram (payload s p) = (queue_of s dram_free_list \<noteq> []) \<and> hemem.more s' = hemem.more s \<and> free_count s = Suc (free_count s')"
proof -
  note e = dequeue_fifo_empty [OF typed_listsD(1) [OF t]]
  show "lru_pagefault False E s = None" if "free_pages s = {}"
    using that e [of dram_free_list] e [of nvm_free_list]
    by (simp add: lru_pagefault_def lru_allocate_def lru_allocate_page_def free_pages_def)
  assume ne: "free_pages s \<noteq> {}"
  define d where "d \<longleftrightarrow> queue_of s dram_free_list \<noteq> []"
  have "queue_of s (free_of d) \<noteq> []"
    using ne by (auto simp: d_def free_of_def free_pages_def)
  then obtain ys p where q: "queue_of s (free_of d) = ys @ [p]"
    by (cases "queue_of s (free_of d)" rule: rev_cases) auto
  obtain s1 s' where a: "dequeue_fifo (free_of d) s = Some (p, s1)" "activate d (active_of d) p s1 = Some (p, s')"
    "p \<noteq> NULL" "taken lru_typed U p s s'" "in_dram (payload s p) = d" "p \<in> free_pages s" "hemem.more s' = hemem.more s"
    "queue_of s' = (queue_of s)(free_of d := ys, active_of d := p # queue_of s (active_of d))"
    using activate_spec [OF t q] by blast
  have "lru_pagefault False E s = Some (p, s')"
  proof (cases d)
    case True
    then show ?thesis
      using a(1-3) by (simp add: lru_pagefault_def lru_allocate_def lru_allocate_page_def free_of_def active_of_def)
  next
    case False
    then have "dequeue_fifo dram_free_list s = Some (NULL, s)"
      using e by (simp add: d_def)
    with False a(1-3) show ?thesis
      by (simp add: lru_pagefault_def lru_allocate_def lru_allocate_page_def free_of_def active_of_def)
  qed
  moreover have "free_count s = Suc (free_count s')"
    using q unfolding free_count_def a(8) by (cases d) (simp_all add: free_of_def active_of_def)
  ultimately show "\<exists>p s'. lru_pagefault False E s = Some (p, s') \<and> taken lru_typed U p s s' \<and> p \<in> free_pages s \<and>
      in_dram (payload s p) = (queue_of s dram_free_list \<noteq> []) \<and> hemem.more s' = hemem.more s \<and> free_count s = Suc (free_count s')"
    using a(4-7) d_def by blast
qed

lemma lru_remove_spec:
  assumes t: "typed_lists lru_typed U {} s" and p: "p \<in> used_pages U s" and k: "\<not> in_kscand s"
  shows "\<exists>s'. lru_remove_page p s = Some s' \<and> typed_lists lru_typed U {} s' \<and> heaps_only s s' \<and>
    payload s' = (payload s)(p := (payload s p)\<lparr>present := False\<rparr>)"
proof -
  have pU: "p \<in> U" "present (payload s p)"
    using p by (simp_all add: used_pages_def)
  obtain q where q: "p \<in> set (queue_of s q)"
    using typed_listsD(6) [OF t] pU(1) by blast
  have lp: "list_ptr (page_heap s p) = Some q" "p \<noteq> NULL"
    using q in_queue_iff [OF typed_listsD(1) [OF t]] lru_listed(4) [OF t q] by auto
  obtain s1 where s1: "page_list_remove_page q p s = Some s1" "typed_lists lru_typed U {p} s1" "payload s1 = payload s" "heaps_only s s1"
    using typed_lists_rem [OF t q] by auto
  let ?f = "\<lambda>p. p\<lparr>present := False\<rparr>" and ?q = "free_of (in_dram (payload s p))"
  note u = upd_page_spec [OF typed_listsD(1) [OF s1(2)] pay_fun_intros(2), of p False]
  have l1: "typed_lists lru_typed U {p} (upd_page p ?f s1)"
    by (rule typed_lists_upd [OF s1(2)]) simp_all
  have "lru_typed ?q (payload (upd_page p ?f s1) p)"
    unfolding u(3) s1(3) by (simp add: free_of_def)
  then obtain s' where s': "enqueue_fifo ?q p (upd_page p ?f s1) = Some s'" "typed_lists lru_typed U {} s'"
    "payload s' = (payload s)(p := ?f (payload s p))" "heaps_only (upd_page p ?f s1) s'"
    using typed_lists_enq [OF l1, of p ?q] unfolding u(3) s1(3) by auto
  have ind: "in_dram (page_heap s1 p) = in_dram (payload s p)"
    using s1(3) by (simp add: payload_select)
  have "lru_remove_page p s = Some s'"
    using lp k s1(1) s'(1) by (cases "in_dram (payload s p)") (simp_all add: lru_remove_page_def ind free_of_def Let_def)
  moreover have "heaps_only s s'"
    using s1(4) s'(4) by (simp add: heaps_only_def)
  ultimately show ?thesis
    using s'(2,3) by blast
qed

section \<open>The contract of a policy\<close>

text \<open>What allocation and removal rely on, apart from the frames.\<close>

definition lru_lists_ok :: "ptr set \<Rightarrow> ('k, 'a) lru_scheme \<Rightarrow> bool" where
  "lru_lists_ok U s \<longleftrightarrow> finite U \<and> typed_lists lru_typed U {} s \<and> \<not> in_kscand s"

lemma in_kscand_more:
  fixes s s' :: "('k, 'a) lru_scheme"
  shows "hemem.more s' = hemem.more s \<Longrightarrow> in_kscand s' = in_kscand s"
  by (cases s; cases s') simp

interpretation lru: page_policy "lru_pagefault False E" lru_remove_page "lru_lists_ok U" free_pages "used_pages U"
proof unfold_locales
  fix s :: "('a, 'b) lru_scheme"
  assume ok: "lru_lists_ok U s"
  then have t: "typed_lists lru_typed U {} s" and fin: "finite U" and k: "\<not> in_kscand s"
    by (simp_all add: lru_lists_ok_def)
  note f = lru_free_pages [OF t]
  show "finite (free_pages s)" "free_pages s \<inter> used_pages U s = {}"
    using fin by (auto simp: f)
  show "lru_pagefault False E s = None" if "free_pages s = {}"
    by (rule lru_pagefault_spec(1) [OF t that])
  show "\<exists>p s'. lru_pagefault False E s = Some (p, s') \<and> lru_lists_ok U s' \<and> p \<in> free_pages s \<and> free_pages s' = free_pages s - {p} \<and>
      used_pages U s' = insert p (used_pages U s)" if ne: "free_pages s \<noteq> {}"
  proof -
    obtain p s' where a: "lru_pagefault False E s = Some (p, s')" "taken lru_typed U p s s'" "p \<in> free_pages s"
      "hemem.more s' = hemem.more s"
      using lru_pagefault_spec(2) [OF t ne] by blast
    have t': "typed_lists lru_typed U {} s'" and us: "used_pages U s' = insert p (used_pages U s)"
      using a(2) by (auto simp: taken_def used_pages_def)
    have "free_pages s' = free_pages s - {p}"
      unfolding lru_free_pages [OF t'] f us by blast
    with a t' us fin k in_kscand_more [OF a(4)] show ?thesis
      by (auto simp: lru_lists_ok_def)
  qed
  show "\<exists>s'. lru_remove_page p s = Some s' \<and> lru_lists_ok U s' \<and> free_pages s' = insert p (free_pages s) \<and>
      used_pages U s' = used_pages U s - {p}" if p: "p \<in> used_pages U s" for p
  proof -
    obtain s' where a: "lru_remove_page p s = Some s'" "typed_lists lru_typed U {} s'" "heaps_only s s'"
      "payload s' = (payload s)(p := (payload s p)\<lparr>present := False\<rparr>)"
      using lru_remove_spec [OF t p k] by blast
    have us: "used_pages U s' = used_pages U s - {p}"
      using p a(4) by (auto simp: used_pages_def)
    have "free_pages s' = insert p (free_pages s)"
      using p unfolding lru_free_pages [OF a(2)] f us by (auto simp: used_pages_def)
    with a us fin k heaps_only_lru(4) [OF a(3)] show ?thesis
      by (auto simp: lru_lists_ok_def)
  qed
qed

section \<open>Start-up\<close>

lemma lru_frames_eq: "lru_frames calloc q dram base i n = init_frames calloc q dram base i n"
  by (induction n arbitrary: i) (rule ext, simp add: Let_def)+

text \<open>The state \<^verbatim>\<open>hemem_init\<close> hands to the policy: devices mapped, no page yet.\<close>

definition lru_booted :: "'k platform \<Rightarrow> ('k, 'a) lru_scheme \<Rightarrow> bool" where
  "lru_booted E s \<longleftrightarrow> mem_ok s \<and> queue_of s = (\<lambda>_. []) \<and> devices_mapped E s \<and> pages s = Map.empty \<and> \<not> in_kscand s"

lemma lru_init_spec:
  assumes b: "lru_booted E s" and c: "callocs_ok dc nc s"
  shows "\<exists>s'. lru_init 0 dc nc s = Some s' \<and> lru_ok (managed dc nc s) {} E s' \<and> \<not> in_kscand s' \<and> pages s' = Map.empty \<and>
    devs s' = devs s \<and> free_count s' = unat (dramsize s div PAGE_SIZE) + unat (nvmsize s div PAGE_SIZE) \<and>
    used_pages (managed dc nc s) s' = {}"
proof -
  note bs = b [unfolded lru_booted_def]
  obtain s1 s2 where i: "lru_frames dc dram_free_list True (dramoffset s) 0 (unat (dramsize s div PAGE_SIZE)) s = Some s1"
    "lru_frames nc nvm_free_list False (nvmoffset s) 0 (unat (nvmsize s div PAGE_SIZE)) s1 = Some s2"
    "heaps_only s s1" and t: "tiers_booted dc nc s s2"
    using init_tiers [OF _ _ c] bs unfolding lru_frames_eq by blast
  have dv: "nvmoffset s1 = nvmoffset s" "nvmsize s1 = nvmsize s"
    using heaps_only_hemem(1) [OF i(3)] by (simp_all add: devs_def)
  have ho: "heaps_only s s2"
    using t by (simp add: tiers_booted_def)
  note e = heaps_only_lru [OF ho]
  have "lru_init 0 dc nc s = Some s2"
    using i(1,2) dv by (simp add: lru_init_def)
  moreover have ok: "lru_ok (managed dc nc s) {} E s2"
    by (rule boot_tiers [OF _ _ c t _ _ e(6,5,7)]) (use bs in simp_all)
  moreover have "free_count s2 = unat (dramsize s div PAGE_SIZE) + unat (nvmsize s div PAGE_SIZE)"
    using t by (simp add: tiers_booted_def free_count_def)
  moreover have "used_pages (managed dc nc s) s2 = {}"
    using t by (auto simp: tiers_booted_def managed_def used_pages_def)
  ultimately show ?thesis
    using e bs by auto
qed

section \<open>The threads\<close>

text \<open>The pages in use are those on the six lists of the scan.\<close>

lemma sizes_used:
  assumes t: "typed_lists lru_typed U {} s"
  shows "sizes (lists_of True) s + sizes (lists_of False) s = card (used_pages U s)"
proof -
  let ?Q = "lists_of True \<union> lists_of False"
  note m = typed_listsD(1) [OF t]
  have "used_pages U s = (\<Union>q\<in>?Q. set (queue_of s q))"
  proof (intro set_eqI iffI)
    fix p
    assume p: "p \<in> used_pages U s"
    then obtain q where q: "p \<in> set (queue_of s q)"
      using typed_listsD(6) [OF t] by (auto simp: used_pages_def)
    have "present (payload s p)"
      using p by (simp add: used_pages_def)
    with lru_listed(1,5) [OF t q] have "q \<in> ?Q"
      by blast
    with q show "p \<in> (\<Union>q\<in>?Q. set (queue_of s q))" by blast
  next
    fix p
    assume "p \<in> (\<Union>q\<in>?Q. set (queue_of s q))"
    then obtain q where q: "q \<in> ?Q" "p \<in> set (queue_of s q)" by blast
    with lru_listed(1,3) [OF t q(2)] show "p \<in> used_pages U s"
      by (auto simp: used_pages_def)
  qed
  also have "card \<dots> = (\<Sum>q\<in>?Q. card (set (queue_of s q)))"
    using queue_of_disjoint [OF m] by (intro card_UN_disjoint) auto
  also have "\<dots> = sizes ?Q s"
    by (simp only: sizes_def distinct_card [OF queue_of_distinct [OF m]])
  also have "\<dots> = sizes (lists_of True) s + sizes (lists_of False) s"
    unfolding sizes_def by (rule sum.union_disjoint) (use order_facts(5) [of True] in auto)
  finally show ?thesis by simp
qed

lemma lru_scan_ok:
  assumes E: "platform_ok E" "requests_succeed E" "flags_ok E" and ok: "lru_ok U {} E s" and few: "card (used_pages U s) \<le> 1000000"
  shows "\<exists>s'. lru_kscand E s = Some s' \<and> lru_ok U {} E s' \<and> same_app U E s s' \<and> used_pages U s' = used_pages U s \<and>
    \<not> in_kscand s' \<and> devs s' = devs s"
proof -
  have "sizes (lists_of True) s + sizes (lists_of False) s \<le> 1000000"
    using few sizes_used [OF tiers_okD(1) [OF ok]] by simp
  from lru_kscand_spec [OF E ok this] obtain s' where s': "lru_kscand E s = Some s'" "lru_ok U {} E s'"
    "scanned E (s\<lparr>in_kscand := False\<rparr>) s'"
    by blast
  have "same_app U E s s'"
    using scanned_app [OF s'(3)] by (simp add: same_app_def)
  moreover have "used_pages U s' = used_pages U s"
    using scanned_used [OF s'(3)] by (simp add: used_pages_def)
  ultimately show ?thesis
    using s' by (simp add: scanned_def devs_def)
qed

lemma swapped_to_kscand:
  assumes "swapped_to U E s s'"
  shows "in_kscand s' = in_kscand s" and "devs s' = devs s"
  using assms in_kscand_more by (auto simp: swapped_to_def policy_same_def)

lemma lru_kswapd_ok:
  assumes E: "platform_ok E" "requests_succeed E" and ok: "lru_ok U {} E s" and free: "0 < free_count s"
  shows "\<exists>s'. lru_kswapd E s = Some s' \<and> lru_ok U {} E s' \<and> same_app U E s s' \<and> used_pages U s' = used_pages U s \<and>
    in_kscand s' = in_kscand s \<and> devs s' = devs s"
proof -
  obtain s1 where s1: "swap_loop E 0 s = Some s1" "lru_ok U {} E s1" "swapped_to U E s s1"
    using swap_loop_spec [OF E ok free] by blast
  then show ?thesis
    using swapped_to_used [OF s1(3)] swapped_to_kscand [OF s1(3)]
    by (auto simp: lru_kswapd_def swapped_to_def same_app_def used_pages_def devs_def)
qed

text \<open>With no free frame on either device a swap that finds an inactive page to move down aborts.\<close>

lemma try_swap_full:
  assumes m: "mem_ok s" and e: "queue_of s dram_free_list = []" "queue_of s nvm_free_list = []" and i: "queue_of s inactive_list \<noteq> []"
  shows "try_swap (Suc n) E p w s = None"
proof -
  obtain ys cp where q: "queue_of s inactive_list = ys @ [cp]"
    using i by (cases "queue_of s inactive_list" rule: rev_cases) auto
  have cp: "cp \<noteq> NULL"
    using ff.nil_contents [OF m, of inactive_list] q by auto
  obtain s1 where s1: "dequeue_fifo inactive_list s = Some (cp, s1)" "mem_ok s1" "queue_of s1 = (queue_of s)(inactive_list := ys)"
    using dequeue_fifo_spec [OF m q] by blast
  have "dequeue_fifo nvm_free_list s1 = Some (NULL, s1)"
    by (rule dequeue_fifo_empty [OF s1(2)]) (simp add: s1(3) e(2))
  then show ?thesis
    using dequeue_fifo_empty [OF m e(1)] s1(1) cp by simp
qed

lemma lru_kswapd_partial:
  assumes E: "platform_ok E" "requests_succeed E" and ok: "lru_ok U {} E s" and run: "lru_kswapd E s = Some s'"
  shows "lru_ok U {} E s' \<and> same_app U E s s' \<and> used_pages U s' = used_pages U s \<and> in_kscand s' = in_kscand s \<and> devs s' = devs s"
proof (cases "0 < free_count s")
  case True
  then show ?thesis
    using lru_kswapd_ok [OF E ok] run by auto
next
  case False
  then have e: "queue_of s dram_free_list = []" "queue_of s nvm_free_list = []"
    by (simp_all add: free_count_def)
  note d = typed_listsD [OF tiers_okD(1) [OF ok]]
  have "\<exists>t. swap_loop E 0 s = Some t \<and> lru_ok U {} E t \<and> swapped_to U E s t"
  proof (cases "0 < waiting s")
    case w: False
    then have "queue_of s nvm_written_list = []" "queue_of s nvm_active_list = []"
      by (simp_all add: waiting_def)
    then have "swap_loop E 0 s = Some s"
      using dequeue_fifo_empty [OF d(1)] by (simp add: swap_loop.simps [of E 0 s] KSWAPD_MIGRATE_RATE_def)
    with ok show ?thesis by auto
  next
    case True
    have "(0 :: u64) < KSWAPD_MIGRATE_RATE"
      by (simp add: KSWAPD_MIGRATE_RATE_def)
    from swap_loop_first [OF d(1) this True, of E]
    obtain p s1 q ys where q: "q \<in> {nvm_written_list, nvm_active_list}" "queue_of s q = ys @ [p]" "dequeue_fifo q s = Some (p, s1)"
      and lp: "swap_loop E 0 s = (try_swap 2 E p (queue_of s nvm_written_list \<noteq> []) s1 \<bind> (\<lambda>(r, s). case r of
        Swapped n \<Rightarrow> swap_loop E (0 + n) s | All_Hot \<Rightarrow> Some s | Not_Swapped \<Rightarrow> swap_loop E 0 s))"
      by blast
    have pq: "p \<in> set (queue_of s q)"
      using q(2) by simp
    have p: "present (payload s p)" "\<not> in_dram (payload s p)"
      using d(5) [OF pq] q(1) by auto
    have s1: "lru_ok U {p} E s1" "queue_of s1 = (queue_of s)(q := ys)" "payload s1 = payload s" "heaps_only s s1"
      using tiers_deq [OF ok q(2)] q(3) by auto
    have e1: "queue_of s1 dram_free_list = []" "queue_of s1 nvm_free_list = []"
      using e q(1) by (auto simp: s1(2))
    have "queue_of s1 inactive_list = []"
      using try_swap_full [OF typed_listsD(1) [OF tiers_okD(1) [OF s1(1)]] e1, of 1 E p] lp run
      by (cases "queue_of s1 inactive_list = []") (auto simp: lru_kswapd_def numeral_2_eq_2 simp del: try_swap.simps)
    from try_swap_all_hot [OF s1(1) _ e1(1) this] p s1(3)
    obtain t where "try_swap 2 E p (queue_of s nvm_written_list \<noteq> []) s1 = Some (All_Hot, t)" "lru_ok U {} E t" "swapped_to U E s1 t"
      by auto
    then show ?thesis
      using lp swapped_to_trans [OF swapped_to_heaps [OF s1(3,4)]] by auto
  qed
  then obtain t where t: "swap_loop E 0 s = Some t" "lru_ok U {} E t" "swapped_to U E s t" by blast
  then have "s' = t\<lparr>lru_runs := lru_runs t + 1\<rparr>"
    using run by (simp add: lru_kswapd_def)
  then show ?thesis
    using t swapped_to_used [OF t(3)] swapped_to_kscand [OF t(3)]
    by (auto simp: swapped_to_def same_app_def used_pages_def devs_def)
qed

section \<open>The application's calls\<close>

lemma lru_placed_typed: "lru_typed q (placed_page v pg) = lru_typed q pg"
  by (cases q) simp_all

lemma free_count_pages: "free_count s = 0 \<longleftrightarrow> free_pages s = {}"
  by (simp add: free_count_def free_pages_def)

lemma lru_touch_ok:
  assumes E: "platform_ok E" "requests_succeed E" and ok: "lru_ok U {} E s" and free: "0 < free_count s" and v: "vacant s v"
  shows "\<exists>p s'. populate_page E (lru_pagefault False E) v s = Some (v + PAGE_SIZE, s') \<and> lru_ok U {} E s' \<and> same_app U E s s' \<and>
    p \<in> U \<and> \<not> present (payload s p) \<and> pages s' = (pages s)(v \<mapsto> p) \<and> hemem.more s' = hemem.more s \<and> devs s' = devs s \<and>
    in_dram (payload s' p) = (queue_of s dram_free_list \<noteq> []) \<and> free_count s = Suc (free_count s') \<and>
    used_pages U s' = insert p (used_pages U s)"
proof -
  have "free_pages s \<noteq> {}"
    using free free_count_pages [of s] by auto
  from lru_pagefault_spec(2) [OF tiers_okD(1) [OF ok] this, of E]
  obtain p s1 where a: "lru_pagefault False E s = Some (p, s1)" "taken lru_typed U p s s1"
    "in_dram (payload s p) = (queue_of s dram_free_list \<noteq> [])" "hemem.more s1 = hemem.more s" "free_count s = Suc (free_count s1)"
    by blast
  obtain s' where s': "populate_page E (lru_pagefault False E) v s = Some (v + PAGE_SIZE, s')" "lru_ok U {} E s'"
    "placed E p v s1 s'" "same_app U E s s'"
    using populate_tiers [where pagefault = "lru_pagefault False E", OF E lru_placed_typed ok a(1,2) v] by blast
  have t: "p \<in> U" "\<not> present (payload s p)" "typed_lists lru_typed U {} s1" "devs s1 = devs s" "pages s1 = pages s"
    "payload s1 = (payload s)(p := (payload s p)\<lparr>present := True\<rparr>)"
    using a(2) by (simp_all add: taken_def)
  note d = placed_facts [OF s'(3) typed_listsD(1) [OF t(3)]]
  have "hemem.more s' = hemem.more s"
    using a(4) d(7) by simp
  moreover have "free_count s' = free_count s1"
    by (simp add: free_count_def d(2))
  moreover have "in_dram (payload s' p) = (queue_of s dram_free_list \<noteq> [])"
    using a(3) by (simp add: d(3) t(6))
  moreover have "used_pages U s' = insert p (used_pages U s)"
    using t(1) by (auto simp: used_pages_def d(3) t(6))
  ultimately show ?thesis
    using s'(1,2,4) t(1,2,4,5) a(5) d(4,5) by auto
qed

lemma lru_unmap_ok:
  assumes ok: "lru_ok U {} E s" and k: "\<not> in_kscand s" and v: "pages s v = Some p"
  shows "\<exists>s'. unmap_page lru_remove_page v s = Some (v + PAGE_SIZE, s') \<and> lru_ok U {} E s' \<and> hemem.more s' = hemem.more s \<and>
    pages s' = (pages s)(v := None) \<and> payload s' = (payload s)(p := (payload s p)\<lparr>present := False\<rparr>) \<and> kern s' = kern s"
proof -
  note t = tiers_okD(1) [OF ok]
  have p: "p \<in> U" "present (payload s p)" "va (payload s p) = v" "p \<noteq> NULL"
    using tiers_okD(3) [OF ok] v typed_listsD(3) [OF t] by (auto simp: maps_ok_def)
  have hp: "pages s w = Some p \<longleftrightarrow> w = v" for w
  proof
    assume "pages s w = Some p"
    with tiers_okD(3) [OF ok] have "va (payload s p) = w"
      by (simp add: maps_ok_def)
    with p(3) show "w = v" by simp
  qed (use v in simp)
  let ?s = "s\<lparr>pages := (pages s)(v := None)\<rparr>"
  have rp: "remove_page p s = ?s"
    by (rule hemem.equality) (simp_all add: remove_page_def fun_eq_iff hp)
  have t1: "typed_lists lru_typed U {} ?s"
    by (subst typed_lists_cong [where s = s]) (simp_all add: t)
  have "p \<in> used_pages U ?s"
    using p(1,2) by (simp add: used_pages_def)
  from lru_remove_spec [OF t1 this] k obtain s1 where s1: "lru_remove_page p ?s = Some s1" "typed_lists lru_typed U {} s1"
    "heaps_only ?s s1" "payload s1 = (payload s)(p := (payload s p)\<lparr>present := False\<rparr>)"
    by auto
  note e = heaps_only_lru [OF s1(3)]
  have pt: "pt (page_heap s1 p) = HUGEP"
    using tiers_okD(2) [OF ok] p(1) by (simp add: payload_select s1(4) frames_ok_def frame_ok_def)
  have e1: "devs s1 = devs s" "kern s1 = kern s" "pages s1 = (pages s)(v := None)" "in_kscand s1 = in_kscand s"
    using e by (simp_all add: devs_def)
  have ok1: "lru_ok U {} E s1"
    by (rule unmap_tiers [where f = "\<lambda>pg. pg\<lparr>present := False\<rparr>", OF ok s1(2) p(1-3) s1(4) _ _ _ _ e1(1-3)]) simp_all
  let ?s' = "s1\<lparr>mem_allocated := mem_allocated s1 - PAGE_SIZE, mem_mmaped := mem_mmaped s1 - PAGE_SIZE, pages_freed := pages_freed s1 + 1\<rparr>"
  have "unmap_page lru_remove_page v s = Some (v + PAGE_SIZE, ?s')"
    using v p(4) rp s1(1) pt by (simp add: unmap_page_def find_page_def Let_def PAGE_SIZE_def)
  moreover have "lru_ok U {} E ?s'"
    by (subst tiers_ok_heap_cong [of _ s1]) (simp_all add: devs_def ok1)
  moreover have "hemem.more s1 = hemem.more s"
    using heaps_only_policy [OF s1(3)] by (simp add: policy_same_def)
  ultimately show ?thesis
    using e1 s1(4) by simp
qed

section \<open>A concrete system\<close>

text \<open>Two devices of four frames each, and the memory \<^verbatim>\<open>calloc\<close> returns for the descriptors.\<close>

definition lru_demo :: "sim_state lru" where
  "lru_demo = (hemem.extend (hemem_boot \<lparr>sim_map = demo_map, sim_dev = (\<lambda>(f, x). ucast x)\<rparr>) (lru.fields (\<lambda>_. 0) 0 0 False))
     \<lparr>nvmsize := 4 * HUGEPAGE_SIZE, dramsize := 4 * HUGEPAGE_SIZE, dramfd := 3, nvmfd := 4,
      dram_devdax_mmap := 2 ^ 40, nvm_devdax_mmap := 2 ^ 41, is_init := True\<rparr>"

definition lru_dc :: "nat \<Rightarrow> ptr" where "lru_dc i = 4096 * (1 + of_nat i)"
definition lru_nc :: "nat \<Rightarrow> ptr" where "lru_nc i = 4096 * (9 + of_nat i)"

abbreviation "lru_U \<equiv> managed lru_dc lru_nc lru_demo"

lemma lru_demo_select:
  "dramfd lru_demo = 3" "nvmfd lru_demo = 4" "nvmsize lru_demo = 4 * HUGEPAGE_SIZE" "dramsize lru_demo = 4 * HUGEPAGE_SIZE"
  "nvmoffset lru_demo = 0" "dramoffset lru_demo = 0" "dram_devdax_mmap lru_demo = 2 ^ 40" "nvm_devdax_mmap lru_demo = 2 ^ 41"
  "kern lru_demo = kern demo_state" "pages lru_demo = Map.empty" "in_kscand lru_demo = False"
  "page_heap lru_demo = (\<lambda>_. zero_page)" "list_heap lru_demo = (\<lambda>_. empty_list)"
  by (simp_all add: lru_demo_def demo_state_def hemem_boot_def hemem.defs lru.defs)

lemma lru_demo_booted: "lru_booted (sim True False True) lru_demo"
proof -
  have "mem_ok lru_demo" "queue_of lru_demo = (\<lambda>_. [])"
    by (rule mem_ok_boot; simp add: lru_demo_select zero_page_def)+
  moreover have "devices_mapped (sim True False True) lru_demo"
    unfolding devices_mapped_def lru_demo_select using demo_windows by (simp add: HUGEPAGE_SIZE_def)
  ultimately show ?thesis
    by (simp add: lru_booted_def lru_demo_select)
qed

lemma lru_demo_frames: "dram_frames lru_demo = {0, 1, 2, 3}" "nvm_frames lru_demo = {0, 1, 2, 3}"
proof -
  have "unat (4 * HUGEPAGE_SIZE div PAGE_SIZE) = 4"
    by (simp add: c_consts)
  moreover have "{0..<4} = {0, 1, 2, 3 :: nat}"
    by auto
  ultimately show "dram_frames lru_demo = {0, 1, 2, 3}" "nvm_frames lru_demo = {0, 1, 2, 3}"
    by (simp_all add: dram_frames_def nvm_frames_def lru_demo_select)
qed

lemma lru_demo_callocs: "callocs_ok lru_dc lru_nc lru_demo" "finite lru_U" "card lru_U = 8"
  by (simp_all add: callocs_ok_def managed_def lru_demo_frames lru_dc_def lru_nc_def)

lemma lru_demo_init:
  "\<exists>s. lru_init 0 lru_dc lru_nc lru_demo = Some s \<and> lru_ok lru_U {} (sim True False True) s \<and> \<not> in_kscand s \<and> pages s = Map.empty \<and>
     devs s = devs lru_demo \<and> free_count s = 8 \<and> used_pages lru_U s = {}"
  using lru_init_spec [OF lru_demo_booted lru_demo_callocs(1)] by (simp add: lru_demo_select c_consts)

lemma lru_demo_vacant:
  assumes "devs s = devs lru_demo" and "pages s (2 ^ 30) = None"
  shows "vacant s (2 ^ 30)"
proof -
  have "\<not> in_range (2 ^ 40) (4 * HUGEPAGE_SIZE) a \<and> \<not> in_range (2 ^ 41) (4 * HUGEPAGE_SIZE) a"
    if "in_range (2 ^ 30) PAGE_SIZE a" for a :: u64
    using that by (auto simp: in_range_nat c_consts)
  then have "apart lru_demo (2 ^ 30)"
    by (simp add: apart_def lru_demo_select)
  then show ?thesis
    using assms(2) devs_tier(4) [OF assms(1)] by (simp add: vacant_def HUGEPAGE_SIZE_def)
qed

section \<open>Properties\<close>



text \<open>
  C22: the swap thread aborts when memory is full. With no free frame on either device, an inactive
  DRAM page and an active NVM page, an iteration of the swap thread fails at
  \<^verbatim>\<open>assert(np != NULL)\<close> instead of leaving the pages where they are.
\<close>

theorem lru_full_swap_aborts:
  assumes "mem_ok s" and "queue_of s dram_free_list = []" and "queue_of s nvm_free_list = []"
    and "queue_of s inactive_list \<noteq> []" and "queue_of s nvm_active_list \<noteq> []"
  shows "lru_kswapd E s = None"
proof -
  have "(0 :: u64) < KSWAPD_MIGRATE_RATE" "0 < waiting s"
    using assms(5) by (simp_all add: KSWAPD_MIGRATE_RATE_def waiting_def)
  from swap_loop_first [OF assms(1) this, of E]
  obtain p s1 q ys where q: "q \<in> {nvm_written_list, nvm_active_list}" "mem_ok s1" "queue_of s1 = (queue_of s)(q := ys)"
    and lp: "swap_loop E 0 s = (try_swap 2 E p (queue_of s nvm_written_list \<noteq> []) s1 \<bind> (\<lambda>(r, s). case r of
      Swapped n \<Rightarrow> swap_loop E (0 + n) s | All_Hot \<Rightarrow> Some s | Not_Swapped \<Rightarrow> swap_loop E 0 s))"
    by blast
  have "try_swap 2 E p w s1 = None" for w
    using try_swap_full [OF q(2), of 1] assms(2-4) q(1) by (auto simp: numeral_2_eq_2 q(3) simp del: try_swap.simps)
  then show ?thesis
    using lp by (simp add: lru_kswapd_def)
qed

theorem lru_full_swap_aborts_witness:
  "\<exists>s. (enqueue_fifo inactive_list 4096 lru_demo \<bind> enqueue_fifo nvm_active_list 8192) = Some s \<and>
     lru_kswapd (sim True False True) s = None"
proof -
  have b: "mem_ok lru_demo" "queue_of lru_demo = (\<lambda>_. [])"
    using lru_demo_booted by (simp_all add: lru_booted_def)
  obtain s1 where s1: "enqueue_fifo inactive_list 4096 lru_demo = Some s1" "mem_ok s1" "queue_of s1 = (\<lambda>_. [])(inactive_list := [4096])"
    using ff.enq_law [OF b(1), of 4096 inactive_list] b(2) by auto
  obtain s where s: "enqueue_fifo nvm_active_list 8192 s1 = Some s" "mem_ok s" "queue_of s = (queue_of s1)(nvm_active_list := [8192])"
    using ff.enq_law [OF s1(2), of 8192 nvm_active_list] by (auto simp: s1(3))
  from lru_full_swap_aborts [OF s(2), of "sim True False True"] s1(1) s(1) show ?thesis
    by (simp add: s(3) s1(3))
qed

end
