(* ===== verification/Lru_Threads.thy ===== *)
theory Lru_Threads
  imports Lru_System
begin

text \<open>
  The threads of \<^verbatim>\<open>src/policies/lru.c\<close> as they interleave. The scan thread takes no lock over an
  iteration (\<^verbatim>\<open>lru_kscand\<close> has its \<^verbatim>\<open>global_lock\<close> commented out), so here a turn of a
  thread treats one page: the scan thread takes one page off a list, looks at its bits and puts
  it on a list; the swap thread takes one NVM page and exchanges frames for it. Between two turns of
  a thread the other thread and the application may do anything. What remains whole: the treatment
  of one page, a page fault (allocation and mapping) and an unmapping. The code releases
  \<^verbatim>\<open>global_lock\<close> between the allocation and the mapping of a fault, and a scan may start while a
  removal that has stopped waiting for it is under way; these two races are outside the model.
\<close>

section \<open>The turns of the threads\<close>

text \<open>
  Where the scan thread is: asleep, in pass \<open>k\<close> of the six calls of an iteration with \<open>n\<close> pages to
  go, or clearing the bits of the remembered addresses from the \<open>i\<close>-th on, \<open>n\<close> of them to go.
\<close>

datatype scan_pc = Scan_Rest | Scan_Pass nat nat | Scan_Clear nat nat

text \<open>The list each pass works off, and the pass itself over \<open>n\<close> pages.\<close>

definition scan_lists :: "fifo_id list" where
  "scan_lists = [written_list, nvm_written_list, active_list, nvm_active_list, inactive_list, nvm_inactive_list]"

fun scan_pass :: "'k platform \<Rightarrow> nat \<Rightarrow> nat \<Rightarrow> ('k, 'a) lru_scheme \<Rightarrow> ('k, 'a) lru_scheme option" where
  "scan_pass E k = [check_loop E active_list inactive_list written_list,
     check_loop E nvm_active_list nvm_inactive_list nvm_written_list,
     shrink_loop E active_list inactive_list written_list,
     shrink_loop E nvm_active_list nvm_inactive_list nvm_written_list,
     expand_loop E active_list inactive_list written_list,
     expand_loop E nvm_active_list nvm_inactive_list nvm_written_list] ! k"

definition begin_pass :: "nat \<Rightarrow> ('k, 'a) lru_scheme \<Rightarrow> scan_pc" where
  "begin_pass k s = (if k < 6 then Scan_Pass k (unat (numentries (list_heap s (scan_lists ! k))))
     else Scan_Clear 0 (unat (vanum s)))"

fun scan_turn :: "'k platform \<Rightarrow> scan_pc \<Rightarrow> ('k, 'a) lru_scheme \<Rightarrow> (scan_pc \<times> ('k, 'a) lru_scheme) option" where
  "scan_turn E Scan_Rest s = (let s = s\<lparr>in_kscand := True, vanum := 0\<rparr> in Some (begin_pass 0 s, s))"
| "scan_turn E (Scan_Pass k n) s =
     (if n = 0 \<or> numentries (list_heap s (scan_lists ! k)) = 0 then Some (begin_pass (Suc k) s, s)
      else scan_pass E k 1 s \<bind> (\<lambda>s. Some (Scan_Pass k (n - 1), s)))"
| "scan_turn E (Scan_Clear i 0) s = hemem_tlb_shootdown E 0 s \<bind> (\<lambda>s. Some (Scan_Rest, s\<lparr>in_kscand := False\<rparr>))"
| "scan_turn E (Scan_Clear i (Suc n)) s = clear_bits_at E (vas s i) s \<bind> (\<lambda>s. Some (Scan_Clear (Suc i) n, s))"

text \<open>The swap thread is asleep or has migrated \<open>b\<close> bytes in this iteration.\<close>

datatype swap_pc = Swap_Rest | Swapping u64

definition swap_page :: "'k platform \<Rightarrow> ('k, 'a) lru_scheme \<Rightarrow> (swap_result option \<times> ('k, 'a) lru_scheme) option" where
  "swap_page E s = do {
     (p, s) \<leftarrow> dequeue_fifo nvm_written_list s;
     let from_written_list = (p \<noteq> NULL);
     (p, s) \<leftarrow> (if p = NULL then dequeue_fifo nvm_active_list s else Some (p, s));
     if p = NULL then Some (None, s)
     else try_swap 2 E p from_written_list s \<bind> (\<lambda>(r, s). Some (Some r, s))
   }"

definition end_swap :: "('k, 'a) lru_scheme \<Rightarrow> swap_pc \<times> ('k, 'a) lru_scheme" where
  "end_swap s = (Swap_Rest, s\<lparr>lru_runs := lru_runs s + 1\<rparr>)"

fun swap_turn :: "'k platform \<Rightarrow> swap_pc \<Rightarrow> ('k, 'a) lru_scheme \<Rightarrow> (swap_pc \<times> ('k, 'a) lru_scheme) option" where
  "swap_turn E Swap_Rest s = Some (Swapping 0, s)"
| "swap_turn E (Swapping b) s =
     (if b < KSWAPD_MIGRATE_RATE
      then swap_page E s \<bind> (\<lambda>(r, s). Some (case r of
          Some (Swapped n) \<Rightarrow> (Swapping (b + n), s)
        | Some Not_Swapped \<Rightarrow> (Swapping b, s)
        | _ \<Rightarrow> end_swap s))
      else Some (end_swap s))"

text \<open>Both threads under a schedule: \<open>True\<close> gives the next turn to the scan thread.\<close>

fun lru_turn :: "'k platform \<Rightarrow> bool \<Rightarrow> scan_pc \<times> swap_pc \<times> ('k, 'a) lru_scheme \<Rightarrow>
    (scan_pc \<times> swap_pc \<times> ('k, 'a) lru_scheme) option" where
  "lru_turn E True (a, b, s) = scan_turn E a s \<bind> (\<lambda>(a, s). Some (a, b, s))"
| "lru_turn E False (a, b, s) = swap_turn E b s \<bind> (\<lambda>(b, s). Some (a, b, s))"

fun lru_threads :: "'k platform \<Rightarrow> bool list \<Rightarrow> scan_pc \<times> swap_pc \<times> ('k, 'a) lru_scheme \<Rightarrow>
    (scan_pc \<times> swap_pc \<times> ('k, 'a) lru_scheme) option" where
  "lru_threads E [] c = Some c"
| "lru_threads E (t # ts) c = lru_turn E t c \<bind> lru_threads E ts"

section \<open>A turn of the scan thread\<close>

lemma less_6: "k < 6 \<Longrightarrow> k = 0 \<or> k = 1 \<or> k = 2 \<or> k = 3 \<or> k = 4 \<or> k = (5 :: nat)"
  by arith

lemma scan_pass_kind:
  assumes "k < 6"
  shows "\<exists>d c K. scan_lists ! k \<in> lists_of d \<and> scans E (scan_lists ! k) c (scan_pass E k) \<and> verdict_ok d K c"
proof -
  have "\<exists>d c K. scan_lists ! 0 \<in> lists_of d \<and> scans E (scan_lists ! 0) c (scan_pass E 0) \<and> verdict_ok d K c"
    "\<exists>d c K. scan_lists ! 2 \<in> lists_of d \<and> scans E (scan_lists ! 2) c (scan_pass E 2) \<and> verdict_ok d K c"
    "\<exists>d c K. scan_lists ! 4 \<in> lists_of d \<and> scans E (scan_lists ! 4) c (scan_pass E 4) \<and> verdict_ok d K c"
    unfolding scan_lists_def scan_pass.simps
    using scans_check [of E written_list active_list inactive_list] scans_shrink [of E active_list inactive_list written_list]
      scans_expand [of E inactive_list active_list written_list] verdicts_ok [of active_list True inactive_list written_list]
    by (force intro!: exI [of _ True])+
  moreover have "\<exists>d c K. scan_lists ! 1 \<in> lists_of d \<and> scans E (scan_lists ! 1) c (scan_pass E 1) \<and> verdict_ok d K c"
    "\<exists>d c K. scan_lists ! 3 \<in> lists_of d \<and> scans E (scan_lists ! 3) c (scan_pass E 3) \<and> verdict_ok d K c"
    "\<exists>d c K. scan_lists ! 5 \<in> lists_of d \<and> scans E (scan_lists ! 5) c (scan_pass E 5) \<and> verdict_ok d K c"
    unfolding scan_lists_def scan_pass.simps
    using scans_check [of E nvm_written_list nvm_active_list nvm_inactive_list] scans_shrink [of E nvm_active_list nvm_inactive_list nvm_written_list]
      scans_expand [of E nvm_inactive_list nvm_active_list nvm_written_list] verdicts_ok [of nvm_active_list False nvm_inactive_list nvm_written_list]
    by (force intro!: exI [of _ False])+
  ultimately show ?thesis
    using less_6 [OF assms] by blast
qed

text \<open>
  The bookkeeping of a scan when no more than \<open>N\<close> pages are in use at any time: a pass adds at most
  \<open>N\<close> addresses to the remembered ones.
\<close>

fun scan_ok :: "nat \<Rightarrow> scan_pc \<Rightarrow> ('k, 'a) lru_scheme \<Rightarrow> bool" where
  "scan_ok N Scan_Rest s \<longleftrightarrow> \<not> in_kscand s"
| "scan_ok N (Scan_Pass k n) s \<longleftrightarrow> in_kscand s \<and> k < 6 \<and> unat (vanum s) + n \<le> Suc k * N \<and> vas_ok s"
| "scan_ok N (Scan_Clear i n) s \<longleftrightarrow> in_kscand s \<and> i + n \<le> unat (vanum s) \<and> vas_ok s"

lemma scan_ok_more:
  fixes s s' :: "('k, 'a) lru_scheme"
  assumes "hemem.more s' = hemem.more s"
  shows "scan_ok N pc s' = scan_ok N pc s" and "in_kscand s' = in_kscand s"
proof -
  have "vas s' = vas s \<and> vanum s' = vanum s \<and> in_kscand s' = in_kscand s"
    using assms by (cases s; cases s') simp
  then show "scan_ok N pc s' = scan_ok N pc s" "in_kscand s' = in_kscand s"
    by (cases pc; simp add: vas_ok_def)+
qed

text \<open>What a turn of either thread leaves alone.\<close>

definition undisturbed :: "ptr set \<Rightarrow> 'k platform \<Rightarrow> ('k, 'a) lru_scheme \<Rightarrow> ('k, 'a) lru_scheme \<Rightarrow> bool" where
  "undisturbed U E s s' \<longleftrightarrow> lru_ok U {} E s' \<and> same_app U E s s' \<and> used_pages U s' = used_pages U s"

lemma undisturbed_trans: "undisturbed U E s t \<Longrightarrow> undisturbed U E t u \<Longrightarrow> undisturbed U E s u"
  unfolding undisturbed_def using same_app_trans by metis

lemma scanned_undisturbed: "lru_ok U {} E s' \<Longrightarrow> scanned E s s' \<Longrightarrow> undisturbed U E s s'"
  by (simp add: undisturbed_def scanned_app scanned_used)

lemma scan_list_length:
  assumes ok: "lru_ok U {} E s" and U: "finite U" and k: "k < 6"
  shows "unat (numentries (list_heap s (scan_lists ! k))) \<le> card (used_pages U s)"
proof -
  note t = tiers_okD(1) [OF ok]
  let ?q = "scan_lists ! k"
  have "?q \<noteq> dram_free_list" "?q \<noteq> nvm_free_list"
    using less_6 [OF k] by (auto simp: scan_lists_def)
  then have "set (queue_of s ?q) \<subseteq> used_pages U s"
    using lru_listed(1,3) [OF t] by (auto simp: used_pages_def)
  then have "card (set (queue_of s ?q)) \<le> card (used_pages U s)"
    using U by (intro card_mono) (auto simp: used_pages_def)
  then show ?thesis
    by (simp add: numentries_queue [OF typed_listsD(1) [OF t]] distinct_card [OF queue_of_distinct [OF typed_listsD(1) [OF t]]])
qed

lemma begin_pass_ok:
  assumes "lru_ok U {} E s" "finite U" "card (used_pages U s) \<le> N" and "in_kscand s" "vas_ok s" "unat (vanum s) \<le> k * N" "k \<le> 6"
  shows "scan_ok N (begin_pass k s) s"
  using scan_list_length [OF assms(1,2), of k] assms(3-7) by (auto simp: begin_pass_def)

lemma scan_one_page:
  assumes E: "flags_ok E" and ok: "lru_ok U {} E s" and k: "k < 6" and ne: "numentries (list_heap s (scan_lists ! k)) \<noteq> 0"
    and room: "unat (vanum s) < 1000000" and v: "vas_ok s"
  shows "\<exists>s'. scan_pass E k 1 s = Some s' \<and> lru_ok U {} E s' \<and> scanned E s s' \<and> vas_ok s' \<and>
    unat (vanum s') \<le> Suc (unat (vanum s))"
proof -
  note m = typed_listsD(1) [OF tiers_okD(1) [OF ok]]
  obtain d c K where c: "scan_lists ! k \<in> lists_of d" "scans E (scan_lists ! k) c (scan_pass E k :: nat \<Rightarrow> ('a, 'b) lru_scheme \<Rightarrow> _)"
    "verdict_ok d K c"
    using scan_pass_kind [OF k, of E] by blast
  have "queue_of s (scan_lists ! k) \<noteq> []"
    using ne numentries_queue [OF m, of "scan_lists ! k"] by (auto simp: unat_eq_0)
  then obtain ys x where q: "queue_of s (scan_lists ! k) = ys @ [x]"
    by (cases "queue_of s (scan_lists ! k)" rule: rev_cases) auto
  obtain s' push where s': "scan_step E (scan_lists ! k) c s = Some s'" "lru_ok U {} E s'" "scanned E s s'" "vas_ok s'"
    "unat (vanum s') = unat (vanum s) + of_bool push"
    using scan_step_spec [OF E ok c(1) q c(3) room v] by blast
  have "scan_pass E k (Suc 0) s = (scan_step E (scan_lists ! k) c s \<bind> scan_pass E k 0)" "scan_pass E k 0 s' = Some s'"
    using c(2) m q unfolding scans_def by (metis snoc_eq_iff_butlast)+
  with s' show ?thesis
    by (cases push) (simp_all del: scan_pass.simps)
qed

lemma scan_turn_ok:
  assumes E: "platform_ok E" "requests_succeed E" "flags_ok E" and U: "finite U" "card (used_pages U s) \<le> N" "6 * N \<le> 1000000"
    and ok: "lru_ok U {} E s" and pc: "scan_ok N pc s"
  shows "\<exists>pc' s'. scan_turn E pc s = Some (pc', s') \<and> undisturbed U E s s' \<and> scan_ok N pc' s'"
proof (cases pc)
  case Scan_Rest
  let ?s = "s\<lparr>in_kscand := True, vanum := 0\<rparr>"
  have ok': "lru_ok U {} E ?s" "undisturbed U E s ?s"
    using ok by (simp_all add: undisturbed_def same_app_def used_pages_def)
  have "scan_ok N (begin_pass 0 ?s) ?s"
    by (rule begin_pass_ok [OF ok'(1) U(1)]) (use U(2) in \<open>simp_all add: vas_ok_def used_pages_def\<close>)
  with Scan_Rest ok'(2) show ?thesis
    by (simp add: Let_def)
next
  case (Scan_Pass k n)
  then have p: "in_kscand s" "k < 6" "unat (vanum s) + n \<le> Suc k * N" "vas_ok s"
    using pc by simp_all
  show ?thesis
  proof (cases "n = 0 \<or> numentries (list_heap s (scan_lists ! k)) = 0")
    case True
    have "scan_ok N (begin_pass (Suc k) s) s"
      by (rule begin_pass_ok [OF ok U(1,2) p(1,4)]) (use p(2,3) in simp_all)
    with True Scan_Pass ok show ?thesis
      by (auto simp: undisturbed_def)
  next
    case False
    have "unat (vanum s) + n \<le> 6 * N"
      by (rule order_trans [OF p(3)]) (use p(2) in \<open>intro mult_le_mono1, simp\<close>)
    then have "unat (vanum s) < 1000000"
      using False U(3) by linarith
    then obtain s' where s': "scan_pass E k 1 s = Some s'" "lru_ok U {} E s'" "scanned E s s'" "vas_ok s'"
      "unat (vanum s') \<le> Suc (unat (vanum s))"
      using scan_one_page [OF E(3) ok p(2) _ _ p(4)] False by blast
    then have "scan_ok N (Scan_Pass k (n - 1)) s'"
      using p False by (simp add: scanned_def)
    with s' Scan_Pass False show ?thesis
      using scanned_undisturbed [OF s'(2,3)] by (simp del: scan_pass.simps)
  qed
next
  case (Scan_Clear i n)
  then have p: "in_kscand s" "i + n \<le> unat (vanum s)" "vas_ok s"
    using pc by simp_all
  have k: "undisturbed U E s (s\<lparr>kern := k\<rparr>)" if "same_memory E (kern s) k" for k
    using tiers_ok_kern [OF ok that] that by (intro scanned_undisturbed) (simp_all add: scanned_def devs_def)
  show ?thesis
  proof (cases n)
    case 0
    obtain k1 where k1: "hemem_tlb_shootdown E 0 s = Some (s\<lparr>kern := k1\<rparr>)" "same_memory E (kern s) k1"
      using tlb_shootdown_returns [OF E(1,2)] by blast
    let ?s = "s\<lparr>kern := k1, in_kscand := False\<rparr>"
    have "undisturbed U E s ?s"
      using k [OF k1(2)] by (simp add: undisturbed_def same_app_def used_pages_def)
    moreover have "scan_turn E pc s = Some (Scan_Rest, ?s)" "scan_ok N Scan_Rest ?s"
      using Scan_Clear 0 k1(1) by simp_all
    ultimately show ?thesis by blast
  next
    case (Suc m)
    have "vas s i mod HUGEPAGE_SIZE = 0"
      using p(2,3) Suc by (simp add: vas_ok_def)
    then obtain k1 where k1: "clear_loop E i 1 s = Some (s\<lparr>kern := k1\<rparr>)" "same_memory E (kern s) k1"
      using clear_loop_spec [OF E(3), of 1 s i] by auto
    have "clear_loop E i 1 s = clear_bits_at E (vas s i) s"
      by (cases "clear_bits_at E (vas s i) s") simp_all
    with k1(1) have "clear_bits_at E (vas s i) s = Some (s\<lparr>kern := k1\<rparr>)"
      by simp
    with Scan_Clear Suc k [OF k1(2)] p show ?thesis
      by (simp add: vas_ok_def)
  qed
qed

section \<open>A turn of the swap thread\<close>

lemma swap_page_none:
  assumes "mem_ok s" and "waiting s = 0"
  shows "swap_page E s = Some (None, s)"
  using assms dequeue_fifo_empty [OF assms(1)] by (simp add: swap_page_def waiting_def)

lemma swap_page_first:
  assumes m: "mem_ok s" and w: "0 < waiting s"
  shows "\<exists>p s1 q ys. q \<in> {nvm_written_list, nvm_active_list} \<and> queue_of s q = ys @ [p] \<and> dequeue_fifo q s = Some (p, s1) \<and>
    swap_page E s = (try_swap 2 E p (queue_of s nvm_written_list \<noteq> []) s1 \<bind> (\<lambda>(r, s). Some (Some r, s)))"
proof -
  let ?q = "if queue_of s nvm_written_list = [] then nvm_active_list else nvm_written_list"
  have "queue_of s ?q \<noteq> []"
    using w by (auto simp: waiting_def)
  then obtain ys p where q: "queue_of s ?q = ys @ [p]"
    by (cases "queue_of s ?q" rule: rev_cases) auto
  have p: "p \<noteq> NULL"
    using ff.nil_contents [OF m, of ?q] unfolding q by auto
  obtain s1 where s1: "dequeue_fifo ?q s = Some (p, s1)"
    using dequeue_fifo_spec [OF m q] by blast
  have "swap_page E s = (try_swap 2 E p (queue_of s nvm_written_list \<noteq> []) s1 \<bind> (\<lambda>(r, s). Some (Some r, s)))"
    using s1 p dequeue_fifo_empty [OF m, of nvm_written_list]
    by (cases "queue_of s nvm_written_list = []") (simp_all add: swap_page_def)
  then show ?thesis
    using q s1 by (intro exI [of _ p] exI [of _ s1] exI [of _ ?q] exI [of _ ys]) simp
qed

text \<open>With a free frame the treatment of a page returns; without one it may abort, but does no damage.\<close>

lemma swap_page_ok:
  assumes E: "platform_ok E" "requests_succeed E" and ok: "lru_ok U {} E s"
  shows "0 < free_count s \<Longrightarrow> swap_page E s \<noteq> None"
    and "swap_page E s = Some (r, s') \<Longrightarrow> lru_ok U {} E s' \<and> swapped_to U E s s'"
proof -
  note d = typed_listsD [OF tiers_okD(1) [OF ok]]
  have *: "(0 < free_count s \<longrightarrow> swap_page E s \<noteq> None) \<and> (\<forall>r s'. swap_page E s = Some (r, s') \<longrightarrow> lru_ok U {} E s' \<and> swapped_to U E s s')"
  proof (cases "0 < waiting s")
    case False
    with swap_page_none [OF d(1), of E] ok show ?thesis by simp
  next
    case True
    from swap_page_first [OF d(1) this, of E]
    obtain p s1 q ys where q: "q \<in> {nvm_written_list, nvm_active_list}" "queue_of s q = ys @ [p]" "dequeue_fifo q s = Some (p, s1)"
      and sp: "swap_page E s = (try_swap 2 E p (queue_of s nvm_written_list \<noteq> []) s1 \<bind> (\<lambda>(r, s). Some (Some r, s)))"
      by blast
    have pq: "p \<in> set (queue_of s q)"
      using q(2) by simp
    have p: "present (payload s p)" "\<not> in_dram (payload s p)"
      using d(5) [OF pq] q(1) by auto
    have s1: "lru_ok U {p} E s1" "queue_of s1 = (queue_of s)(q := ys)" "payload s1 = payload s" "heaps_only s s1"
      using tiers_deq [OF ok q(2)] q(3) by auto
    have fc: "free_count s1 = free_count s"
      using q(1) by (auto simp: s1(2) free_count_def)
    have sw: "swapped_to U E s t" if "swapped_to U E s1 t" for t
      by (rule swapped_to_trans [OF swapped_to_heaps [OF s1(3,4)] that])
    show ?thesis
    proof (cases "0 < free_count s")
      case True
      with try_swap_spec [OF E s1(1), of "queue_of s nvm_written_list \<noteq> []"] p fc
      obtain r s' where "try_swap 2 E p (queue_of s nvm_written_list \<noteq> []) s1 = Some (r, s')" "lru_ok U {} E s'" "swapped_to U E s1 s'"
        unfolding s1(3) by auto
      with sp sw show ?thesis by simp
    next
      case False
      then have e: "queue_of s1 dram_free_list = []" "queue_of s1 nvm_free_list = []"
        using fc by (simp_all add: free_count_def)
      show ?thesis
      proof (cases "queue_of s1 inactive_list = []")
        case True
        from try_swap_all_hot [OF s1(1) _ e(1) True, of "queue_of s nvm_written_list \<noteq> []"] p
        obtain t where "try_swap 2 E p (queue_of s nvm_written_list \<noteq> []) s1 = Some (All_Hot, t)" "lru_ok U {} E t" "swapped_to U E s1 t"
          unfolding s1(3) by auto
        with sp sw False show ?thesis by simp
      next
        case f: False
        have "try_swap 2 E p (queue_of s nvm_written_list \<noteq> []) s1 = None"
          using try_swap_full [OF typed_listsD(1) [OF tiers_okD(1) [OF s1(1)]] e f, of 1 E p]
          by (simp add: numeral_2_eq_2 del: try_swap.simps)
        with sp False show ?thesis by simp
      qed
    qed
  qed
  then show "0 < free_count s \<Longrightarrow> swap_page E s \<noteq> None"
    and "swap_page E s = Some (r, s') \<Longrightarrow> lru_ok U {} E s' \<and> swapped_to U E s s'"
    by blast+
qed

lemma swap_turn_ok:
  assumes E: "platform_ok E" "requests_succeed E" and ok: "lru_ok U {} E s"
  shows "0 < free_count s \<Longrightarrow> swap_turn E pc s \<noteq> None"
    and "swap_turn E pc s = Some (pc', s') \<Longrightarrow> undisturbed U E s s' \<and> (scan_ok N a s' \<longleftrightarrow> scan_ok N a s)"
proof -
  have e: "undisturbed U E s (snd (end_swap t)) \<and> (scan_ok N a (snd (end_swap t)) \<longleftrightarrow> scan_ok N a s)"
    "undisturbed U E s t \<and> (scan_ok N a t \<longleftrightarrow> scan_ok N a s)" if t: "lru_ok U {} E t" "swapped_to U E s t" for t
  proof -
    have m: "hemem.more t = hemem.more s"
      using t(2) by (simp add: swapped_to_def policy_same_def)
    show u: "undisturbed U E s t \<and> (scan_ok N a t \<longleftrightarrow> scan_ok N a s)"
      using t scan_ok_more(1) [OF m] swapped_to_used [OF t(2)] by (simp add: undisturbed_def swapped_to_def)
    have "scan_ok N a (snd (end_swap t)) = scan_ok N a t"
      by (cases a) (simp_all add: end_swap_def vas_ok_def)
    with u show "undisturbed U E s (snd (end_swap t)) \<and> (scan_ok N a (snd (end_swap t)) \<longleftrightarrow> scan_ok N a s)"
      by (simp add: undisturbed_def end_swap_def same_app_def used_pages_def)
  qed
  show "swap_turn E pc s \<noteq> None" if "0 < free_count s"
    using swap_page_ok(1) [OF E ok that] by (cases pc) auto
  show "undisturbed U E s s' \<and> (scan_ok N a s' \<longleftrightarrow> scan_ok N a s)" if run: "swap_turn E pc s = Some (pc', s')"
  proof (cases pc)
    case Swap_Rest
    with run e(2) [OF ok] show ?thesis by simp
  next
    case (Swapping b)
    show ?thesis
    proof (cases "b < KSWAPD_MIGRATE_RATE")
      case False
      with run Swapping have "s' = snd (end_swap s)"
        by (simp add: prod_eq_iff)
      with e(1) [OF ok] show ?thesis by simp
    next
      case True
      then obtain r t where t: "swap_page E s = Some (r, t)" and "s' = t \<or> s' = snd (end_swap t)"
        using run Swapping by (cases "swap_page E s") (auto simp: prod_eq_iff split: option.splits swap_result.splits)
      with e [of t] swap_page_ok(2) [OF E ok t] show ?thesis by auto
    qed
  qed
qed

section \<open>The system\<close>

text \<open>The threads, the fault path at a vacant address, and the unmapping of a page, in any order.\<close>

inductive lru_step :: "'k platform \<Rightarrow> scan_pc \<times> swap_pc \<times> ('k, 'a) lru_scheme \<Rightarrow> scan_pc \<times> swap_pc \<times> ('k, 'a) lru_scheme \<Rightarrow> bool"
  for E where
  thread: "lru_turn E t c = Some c' \<Longrightarrow> lru_step E c c'"
| touch: "vacant s v \<Longrightarrow> populate_page E (lru_pagefault False E) v s = Some (w, s') \<Longrightarrow> lru_step E (a, b, s) (a, b, s')"
| unmap: "unmap_page lru_remove_page v s = Some (w, s') \<Longrightarrow> lru_step E (a, b, s) (a, b, s')"

inductive_cases lru_stepE: "lru_step E c c'"

lemma lru_unmap_scanning:
  assumes "pages s v = Some p" and "p \<noteq> NULL" and "in_kscand s"
  shows "unmap_page lru_remove_page v s = None"
proof -
  have "in_kscand (remove_page p s) = in_kscand s"
    by (simp add: remove_page_def)
  with assms show ?thesis
    by (simp add: unmap_page_def find_page_def lru_remove_page_def Let_def)
qed

lemma lru_step_ok:
  assumes E: "platform_ok E" "requests_succeed E" "flags_ok E" and U: "finite U" "6 * card U \<le> 1000000"
    and step: "lru_step E (a, b, s) (a', b', s')" and ok: "lru_ok U {} E s" "scan_ok (card U) a s"
  shows "lru_ok U {} E s' \<and> scan_ok (card U) a' s'"
  using step
proof (cases rule: lru_step.cases)
  case (thread t)
  have "card (used_pages U s) \<le> card U"
    using U by (intro card_mono) (auto simp: used_pages_def)
  with thread scan_turn_ok [OF E U(1) _ U(2) ok] swap_turn_ok(2) [OF E(1,2) ok(1), of b b' s'] ok(2) show ?thesis
    by (cases t) (auto simp: bind_Some_iff undisturbed_def)
next
  case (touch v w)
  have "0 < free_count s"
  proof (rule ccontr)
    assume "\<not> 0 < free_count s"
    then have "lru_pagefault False E s = None"
      using lru_pagefault_spec(1) [OF tiers_okD(1) [OF ok(1)]] free_count_pages [of s] by simp
    with touch show False
      by (simp add: populate_page_def)
  qed
  from lru_touch_ok [OF E(1,2) ok(1) this touch(3)] touch have "lru_ok U {} E s'" "hemem.more s' = hemem.more s"
    by auto
  with touch ok(2) scan_ok_more(1) show ?thesis by blast
next
  case (unmap v w)
  show ?thesis
  proof (cases "pages s v")
    case None
    with unmap ok show ?thesis
      by (simp add: unmap_page_def find_page_def)
  next
    case (Some p)
    have "p \<noteq> NULL"
      using tiers_okD(3) [OF ok(1)] typed_listsD(3) [OF tiers_okD(1) [OF ok(1)]] Some by (auto simp: maps_ok_def)
    then have k: "\<not> in_kscand s"
      using lru_unmap_scanning [OF Some] unmap by auto
    from lru_unmap_ok [OF ok(1) k Some] unmap have "lru_ok U {} E s'" "hemem.more s' = hemem.more s"
      by auto
    with unmap ok(2) scan_ok_more(1) show ?thesis by blast
  qed
qed

lemma lru_reachable_ok:
  assumes E: "platform_ok E" "requests_succeed E" "flags_ok E" and U: "finite U" "6 * card U \<le> 1000000"
    and "(lru_step E)\<^sup>*\<^sup>* c c'" and "lru_ok U {} E (snd (snd c))" "scan_ok (card U) (fst c) (snd (snd c))"
  shows "lru_ok U {} E (snd (snd c')) \<and> scan_ok (card U) (fst c') (snd (snd c'))"
  using assms(6-8)
proof (induction rule: rtranclp_induct)
  case (step d e)
  then show ?case
    using lru_step_ok [OF E U, of "fst d" "fst (snd d)" "snd (snd d)" "fst e" "fst (snd e)" "snd (snd e)"] by simp
qed simp

lemma lru_demo_touched:
  "\<exists>s0 s. lru_init 0 lru_dc lru_nc lru_demo = Some s0 \<and> lru_step (sim True False True) (Scan_Rest, Swap_Rest, s0) (Scan_Rest, Swap_Rest, s) \<and>
     lru_ok lru_U {} (sim True False True) s \<and> \<not> in_kscand s \<and> card (used_pages lru_U s) = 1 \<and>
     populate_page (sim True False True) (lru_pagefault False (sim True False True)) (2 ^ 30) s0 = Some (2 ^ 30 + PAGE_SIZE, s)"
proof -
  let ?E = "sim True False True"
  obtain s0 where s0: "lru_init 0 lru_dc lru_nc lru_demo = Some s0" "lru_ok lru_U {} ?E s0" "\<not> in_kscand s0" "pages s0 = Map.empty"
    "devs s0 = devs lru_demo" "free_count s0 = 8" "used_pages lru_U s0 = {}"
    using lru_demo_init by blast
  have v: "vacant s0 (2 ^ 30)"
    by (rule lru_demo_vacant) (simp_all add: s0(4,5))
  obtain p s where s: "populate_page ?E (lru_pagefault False ?E) (2 ^ 30) s0 = Some (2 ^ 30 + PAGE_SIZE, s)" "lru_ok lru_U {} ?E s"
    "hemem.more s = hemem.more s0" "used_pages lru_U s = insert p (used_pages lru_U s0)"
    using lru_touch_ok [OF sim_ok sim_requests_succeed s0(2) _ v] s0(6) by auto
  have "lru_step ?E (Scan_Rest, Swap_Rest, s0) (Scan_Rest, Swap_Rest, s)"
    by (rule lru_step.touch [OF v s(1)])
  then show ?thesis
    using s0 s scan_ok_more(2) [OF s(3)] by auto
qed

lemma lru_threads_ok:
  assumes E: "platform_ok E" "requests_succeed E" "flags_ok E" and U: "finite U" "6 * N \<le> 1000000"
    and "lru_ok U {} E s" "scan_ok N a s" "card (used_pages U s) \<le> N" "used_pages U s \<noteq> U"
  shows "\<exists>a' b' s'. lru_threads E ts (a, b, s) = Some (a', b', s') \<and> undisturbed U E s s' \<and> scan_ok N a' s'"
  using assms(6-9)
proof (induction ts arbitrary: a b s)
  case Nil
  then show ?case by (simp add: undisturbed_def)
next
  case (Cons t ts)
  have "free_pages s \<noteq> {}"
    using Cons.prems(4) lru_free_pages [OF tiers_okD(1) [OF Cons.prems(1)]] by (auto simp: used_pages_def)
  then have free: "0 < free_count s"
    using free_count_pages [of s] by auto
  obtain a1 b1 s1 where s1: "lru_turn E t (a, b, s) = Some (a1, b1, s1)" "undisturbed U E s s1" "scan_ok N a1 s1"
  proof (cases t)
    case True
    with scan_turn_ok [OF E U(1) Cons.prems(3) U(2) Cons.prems(1,2)] that show thesis by auto
  next
    case False
    obtain b' s' where r: "swap_turn E b s = Some (b', s')"
      using swap_turn_ok(1) [OF E(1,2) Cons.prems(1) free, of b] by auto
    with False swap_turn_ok(2) [OF E(1,2) Cons.prems(1) r] Cons.prems(2) that show thesis by auto
  qed
  then have "lru_ok U {} E s1" "used_pages U s1 = used_pages U s"
    by (simp_all add: undisturbed_def)
  with Cons.IH [of s1 a1 b1] s1 Cons.prems(3,4) undisturbed_trans [OF s1(2)] show ?case
    by fastforce
qed

section \<open>Properties\<close>

text \<open>
  C10: the background threads of the LRU policy, interleaved page by page, never abort and cannot be
  observed. Start between two scans, with one managed frame free and at most a sixth of
  \<^verbatim>\<open>MAX_VAS\<close> pages in use, and let the scan thread and the swap thread take turns in any order, each turn treating one
  page, while the application maps and unmaps nothing. Whatever the accessed and dirty bits say,
  no turn fails an assertion (the list of remembered addresses never overflows), the invariant holds
  after every turn, and every byte of every page in use is unchanged.
\<close>

theorem lru_threads_transparent:
  assumes "platform_ok E" and "requests_succeed E" and "flags_ok E" and "lru_ok U {} E s" and "finite U" and "\<not> in_kscand s"
    and "6 * card (used_pages U s) \<le> unat MAX_VAS" and "p \<in> U" and "\<not> present (payload s p)"
  shows "\<exists>a b s'. lru_threads E turns (Scan_Rest, Swap_Rest, s) = Some (a, b, s') \<and> lru_ok U {} E s' \<and> same_app U E s s'"
proof -
  have "used_pages U s \<noteq> U"
    using assms(8,9) by (auto simp: used_pages_def)
  moreover have "6 * card (used_pages U s) \<le> 1000000" "scan_ok (card (used_pages U s)) Scan_Rest s"
    using assms(6,7) by (simp_all add: MAX_VAS_def)
  ultimately show ?thesis
    using lru_threads_ok [OF assms(1-3,5) _ assms(4) _ order_refl, of Scan_Rest turns Swap_Rest] by (auto simp: undisturbed_def)
qed

theorem lru_threads_transparent_witness:
  "\<exists>s0 s c. lru_init 0 lru_dc lru_nc lru_demo = Some s0 \<and>
     populate_page (sim True False True) (lru_pagefault False (sim True False True)) (2 ^ 30) s0 = Some (2 ^ 30 + PAGE_SIZE, s) \<and>
     lru_threads (sim True False True) [True, False, True, True, False, True] (Scan_Rest, Swap_Rest, s) = Some c \<and>
     same_app lru_U (sim True False True) s (snd (snd c))"
proof -
  let ?E = "sim True False True"
  obtain s0 s where s: "lru_init 0 lru_dc lru_nc lru_demo = Some s0" "lru_ok lru_U {} ?E s" "card (used_pages lru_U s) = 1" "\<not> in_kscand s"
    "populate_page ?E (lru_pagefault False ?E) (2 ^ 30) s0 = Some (2 ^ 30 + PAGE_SIZE, s)"
    using lru_demo_touched by blast
  have "used_pages lru_U s \<noteq> lru_U"
    using s(3) lru_demo_callocs(3) by auto
  then obtain p where p: "p \<in> lru_U" "\<not> present (payload s p)"
    by (auto simp: used_pages_def)
  have "6 * card (used_pages lru_U s) \<le> unat MAX_VAS"
    using s(3) by (simp add: MAX_VAS_def)
  from lru_threads_transparent [OF sim_ok sim_requests_succeed sim_flags_ok s(2) lru_demo_callocs(2) s(4) this p,
      of "[True, False, True, True, False, True]"] s(1,5)
  show ?thesis by force
qed

text \<open>
  C21: the invariant of the LRU policy (built without \<^verbatim>\<open>LRU_SWAP\<close>, and with at most a sixth of \<^verbatim>\<open>MAX_VAS\<close>
  frames) holds in every state that \<^verbatim>\<open>lru_init\<close> and any sequence of
  turns of the scan thread and of the swap thread, of page faults and of
  unmappings lead to, where a turn treats one page and a page fault and an unmapping are each one
  step: every descriptor is on exactly one list that fits it, every descriptor owns a
  frame of its own, the pages in use are mapped on their frames, and the table lists exactly these
  pages. In such a state the next turn of the scan thread never aborts, and that of the swap thread does not
  as long as a frame is free.
\<close>

theorem lru_reachable_invariant:
  assumes "platform_ok E" and "requests_succeed E" and "flags_ok E" and "lru_booted E s" and "callocs_ok dc nc s"
    and "6 * card (managed dc nc s) \<le> unat MAX_VAS" and "lru_init 0 dc nc s = Some s0"
    and "(lru_step E)\<^sup>*\<^sup>* (Scan_Rest, Swap_Rest, s0) (a, b, s')"
  shows "lru_ok (managed dc nc s) {} E s' \<and> scan_turn E a s' \<noteq> None \<and> (free_count s' = 0 \<or> swap_turn E b s' \<noteq> None)"
proof -
  let ?U = "managed dc nc s"
  have "lru_ok ?U {} E s0" "\<not> in_kscand s0"
    using lru_init_spec [OF assms(4,5)] assms(7) by auto
  moreover have U: "finite ?U" "6 * card ?U \<le> 1000000"
    using assms(6) by (simp_all add: managed_def dram_frames_def nvm_frames_def MAX_VAS_def)
  ultimately have ok: "lru_ok ?U {} E s'" "scan_ok (card ?U) a s'"
    using lru_reachable_ok [OF assms(1-3) U assms(8)] by simp_all
  have "card (used_pages ?U s') \<le> card ?U"
    using U by (intro card_mono) (auto simp: used_pages_def)
  with scan_turn_ok [OF assms(1-3) U(1) _ U(2) ok] swap_turn_ok(1) [OF assms(1,2) ok(1), of b] ok(1) show ?thesis
    by auto
qed

theorem lru_reachable_invariant_witness:
  "\<exists>s0 s. lru_init 0 lru_dc lru_nc lru_demo = Some s0 \<and> lru_step (sim True False True) (Scan_Rest, Swap_Rest, s0) (Scan_Rest, Swap_Rest, s) \<and>
     lru_ok lru_U {} (sim True False True) s"
proof -
  obtain s0 s where s: "lru_init 0 lru_dc lru_nc lru_demo = Some s0"
    "lru_step (sim True False True) (Scan_Rest, Swap_Rest, s0) (Scan_Rest, Swap_Rest, s)"
    using lru_demo_touched by blast
  have "6 * card lru_U \<le> unat MAX_VAS"
    by (simp add: lru_demo_callocs(3) MAX_VAS_def)
  from lru_reachable_invariant [OF sim_ok sim_requests_succeed sim_flags_ok lru_demo_booted lru_demo_callocs(1) this s(1)] s
  show ?thesis by blast
qed

end
