(* ===== verification/Jenkins_Hash.thy ===== *)
theory Jenkins_Hash
  imports Prelude
begin

text \<open>
  \<^verbatim>\<open>apps/flexkvs/server/jenkins_hash.c\<close>: the hash function of the key-value store, Bob Jenkins'
  \<^verbatim>\<open>hashlittle\<close>. The key is a region of memory, a function from addresses to bytes; the code reads it in
  32-bit, 16-bit or 8-bit chunks, depending on the alignment of its address, and the aligned variants
  read past its end. The translation follows the little-endian branch of the preprocessor (the file
  defines \<^verbatim>\<open>ENDIAN_LITTLE\<close>) without \<^verbatim>\<open>VALGRIND\<close>.
\<close>

type_synonym bytes = "u64 \<Rightarrow> u8"

section \<open>Loads\<close>

definition load16 :: "bytes \<Rightarrow> u64 \<Rightarrow> u16" where
  "load16 m p = ucast (m p) + push_bit 8 (ucast (m (p + 1)))"

definition load32 :: "bytes \<Rightarrow> u64 \<Rightarrow> u32" where
  "load32 m p = ucast (m p) + push_bit 8 (ucast (m (p + 1))) + push_bit 16 (ucast (m (p + 2))) + push_bit 24 (ucast (m (p + 3)))"

text \<open>Array accesses \<^verbatim>\<open>k[i]\<close> through pointers to the three integer types, and conversion to \<^verbatim>\<open>uint32_t\<close>.\<close>

definition at32 :: "bytes \<Rightarrow> u64 \<Rightarrow> u64 \<Rightarrow> u32" where
  "at32 m k i = load32 m (k + 4 * i)"

definition at16 :: "bytes \<Rightarrow> u64 \<Rightarrow> u64 \<Rightarrow> u32" where
  "at16 m k i = ucast (load16 m (k + 2 * i))"

definition at8 :: "bytes \<Rightarrow> u64 \<Rightarrow> u64 \<Rightarrow> u32" where
  "at8 m k i = ucast (m (k + i))"

section \<open>Mixing\<close>

definition rot :: "u32 \<Rightarrow> nat \<Rightarrow> u32" where
  "rot x k = push_bit k x XOR drop_bit (32 - k) x"

definition mix :: "u32 \<times> u32 \<times> u32 \<Rightarrow> u32 \<times> u32 \<times> u32" where
  "mix = (\<lambda>(a, b, c).
     let a = a - c; a = a XOR rot c 4; c = c + b;
         b = b - a; b = b XOR rot a 6; a = a + c;
         c = c - b; c = c XOR rot b 8; b = b + a;
         a = a - c; a = a XOR rot c 16; c = c + b;
         b = b - a; b = b XOR rot a 19; a = a + c;
         c = c - b; c = c XOR rot b 4; b = b + a
     in (a, b, c))"

definition final :: "u32 \<times> u32 \<times> u32 \<Rightarrow> u32 \<times> u32 \<times> u32" where
  "final = (\<lambda>(a, b, c).
     let c = c XOR b; c = c - rot b 14;
         a = a XOR c; a = a - rot c 11;
         b = b XOR a; b = b - rot a 25;
         c = c XOR b; c = c - rot b 16;
         a = a XOR c; a = a - rot c 4;
         b = b XOR a; b = b - rot a 14;
         c = c XOR b; c = c - rot b 24
     in (a, b, c))"

section \<open>The three readers\<close>

text \<open>
  The loops of the three branches, with the pointer and the length they leave for the last block.
\<close>

lemma shorter: "12 < (n :: u64) \<Longrightarrow> unat (n - 12) < unat n"
  by (simp add: unat_sub word_less_nat_alt word_le_nat_alt)

function loop32 :: "bytes \<Rightarrow> u64 \<Rightarrow> u64 \<Rightarrow> u32 \<times> u32 \<times> u32 \<Rightarrow> u64 \<times> u64 \<times> (u32 \<times> u32 \<times> u32)" where
  "loop32 m k len (a, b, c) =
     (if len > 12 then loop32 m (k + 12) (len - 12) (mix (a + at32 m k 0, b + at32 m k 1, c + at32 m k 2))
      else (k, len, (a, b, c)))"
  by pat_completeness auto
termination
  by (relation "measure (\<lambda>(m, k, n, abc). unat n)") (auto intro: shorter)

function loop16 :: "bytes \<Rightarrow> u64 \<Rightarrow> u64 \<Rightarrow> u32 \<times> u32 \<times> u32 \<Rightarrow> u64 \<times> u64 \<times> (u32 \<times> u32 \<times> u32)" where
  "loop16 m k len (a, b, c) =
     (if len > 12 then
        loop16 m (k + 12) (len - 12)
          (mix (a + (at16 m k 0 + push_bit 16 (at16 m k 1)), b + (at16 m k 2 + push_bit 16 (at16 m k 3)),
                c + (at16 m k 4 + push_bit 16 (at16 m k 5))))
      else (k, len, (a, b, c)))"
  by pat_completeness auto
termination
  by (relation "measure (\<lambda>(m, k, n, abc). unat n)") (auto intro: shorter)

function loop8 :: "bytes \<Rightarrow> u64 \<Rightarrow> u64 \<Rightarrow> u32 \<times> u32 \<times> u32 \<Rightarrow> u64 \<times> u64 \<times> (u32 \<times> u32 \<times> u32)" where
  "loop8 m k len (a, b, c) =
     (if len > 12 then
        (let a = a + at8 m k 0; a = a + push_bit 8 (at8 m k 1); a = a + push_bit 16 (at8 m k 2); a = a + push_bit 24 (at8 m k 3);
             b = b + at8 m k 4; b = b + push_bit 8 (at8 m k 5); b = b + push_bit 16 (at8 m k 6); b = b + push_bit 24 (at8 m k 7);
             c = c + at8 m k 8; c = c + push_bit 8 (at8 m k 9); c = c + push_bit 16 (at8 m k 10); c = c + push_bit 24 (at8 m k 11)
         in loop8 m (k + 12) (len - 12) (mix (a, b, c)))
      else (k, len, (a, b, c)))"
  by pat_completeness auto
termination
  by (relation "measure (\<lambda>(m, k, n, abc). unat n)") (auto intro: shorter)

text \<open>
  The switches on the length of the last block. \<open>None\<close> is the early return for a length of 0;
  a case that falls through is the sequence of the cases it reaches.
\<close>

definition last32 :: "bytes \<Rightarrow> u64 \<Rightarrow> u64 \<Rightarrow> u32 \<times> u32 \<times> u32 \<Rightarrow> (u32 \<times> u32 \<times> u32) option" where
  "last32 m k len = (\<lambda>(a, b, c).
     if len = 12 then Some (a + at32 m k 0, b + at32 m k 1, c + at32 m k 2)
     else if len = 11 then Some (a + at32 m k 0, b + at32 m k 1, c + (at32 m k 2 AND 0xffffff))
     else if len = 10 then Some (a + at32 m k 0, b + at32 m k 1, c + (at32 m k 2 AND 0xffff))
     else if len = 9 then Some (a + at32 m k 0, b + at32 m k 1, c + (at32 m k 2 AND 0xff))
     else if len = 8 then Some (a + at32 m k 0, b + at32 m k 1, c)
     else if len = 7 then Some (a + at32 m k 0, b + (at32 m k 1 AND 0xffffff), c)
     else if len = 6 then Some (a + at32 m k 0, b + (at32 m k 1 AND 0xffff), c)
     else if len = 5 then Some (a + at32 m k 0, b + (at32 m k 1 AND 0xff), c)
     else if len = 4 then Some (a + at32 m k 0, b, c)
     else if len = 3 then Some (a + (at32 m k 0 AND 0xffffff), b, c)
     else if len = 2 then Some (a + (at32 m k 0 AND 0xffff), b, c)
     else if len = 1 then Some (a + (at32 m k 0 AND 0xff), b, c)
     else if len = 0 then None
     else Some (a, b, c))"

definition last16 :: "bytes \<Rightarrow> u64 \<Rightarrow> u64 \<Rightarrow> u32 \<times> u32 \<times> u32 \<Rightarrow> (u32 \<times> u32 \<times> u32) option" where
  "last16 m k len = (\<lambda>(a, b, c).
     let a' = a + (at16 m k 0 + push_bit 16 (at16 m k 1));
         b' = b + (at16 m k 2 + push_bit 16 (at16 m k 3))
     in
     if len = 12 then Some (a', b', c + (at16 m k 4 + push_bit 16 (at16 m k 5)))
     else if len = 11 then Some (a', b', c + push_bit 16 (at8 m k 10) + at16 m k 4)
     else if len = 10 then Some (a', b', c + at16 m k 4)
     else if len = 9 then Some (a', b', c + at8 m k 8)
     else if len = 8 then Some (a', b', c)
     else if len = 7 then Some (a', b + push_bit 16 (at8 m k 6) + at16 m k 2, c)
     else if len = 6 then Some (a', b + at16 m k 2, c)
     else if len = 5 then Some (a', b + at8 m k 4, c)
     else if len = 4 then Some (a', b, c)
     else if len = 3 then Some (a + push_bit 16 (at8 m k 2) + at16 m k 0, b, c)
     else if len = 2 then Some (a + at16 m k 0, b, c)
     else if len = 1 then Some (a + at8 m k 0, b, c)
     else if len = 0 then None
     else Some (a, b, c))"

definition last8 :: "bytes \<Rightarrow> u64 \<Rightarrow> u64 \<Rightarrow> u32 \<times> u32 \<times> u32 \<Rightarrow> (u32 \<times> u32 \<times> u32) option" where
  "last8 m k len = (\<lambda>(a, b, c).
     if len = 0 then None
     else if len > 12 then Some (a, b, c)
     else
       let c = (if len \<ge> 12 then c + push_bit 24 (at8 m k 11) else c);
           c = (if len \<ge> 11 then c + push_bit 16 (at8 m k 10) else c);
           c = (if len \<ge> 10 then c + push_bit 8 (at8 m k 9) else c);
           c = (if len \<ge> 9 then c + at8 m k 8 else c);
           b = (if len \<ge> 8 then b + push_bit 24 (at8 m k 7) else b);
           b = (if len \<ge> 7 then b + push_bit 16 (at8 m k 6) else b);
           b = (if len \<ge> 6 then b + push_bit 8 (at8 m k 5) else b);
           b = (if len \<ge> 5 then b + at8 m k 4 else b);
           a = (if len \<ge> 4 then a + push_bit 24 (at8 m k 3) else a);
           a = (if len \<ge> 3 then a + push_bit 16 (at8 m k 2) else a);
           a = (if len \<ge> 2 then a + push_bit 8 (at8 m k 1) else a);
           a = (if len \<ge> 1 then a + at8 m k 0 else a)
       in Some (a, b, c))"

text \<open>The end of the function: the early return, or the final mixing.\<close>

definition finish_hash :: "(u32 \<times> u32 \<times> u32) option \<Rightarrow> u32 \<Rightarrow> u32" where
  "finish_hash r c = (case r of None \<Rightarrow> c | Some abc \<Rightarrow> snd (snd (final abc)))"

definition jenkins_hash :: "bytes \<Rightarrow> u64 \<Rightarrow> u64 \<Rightarrow> u32" where
  "jenkins_hash m key len =
     (let i = 0xdeadbeef + ucast len + 0 in
      if key AND 0x3 = 0 then
        (let (k, n, (a, b, c)) = loop32 m key len (i, i, i) in finish_hash (last32 m k n (a, b, c)) c)
      else if key AND 0x1 = 0 then
        (let (k, n, (a, b, c)) = loop16 m key len (i, i, i) in finish_hash (last16 m k n (a, b, c)) c)
      else
        (let (k, n, (a, b, c)) = loop8 m key len (i, i, i) in finish_hash (last8 m k n (a, b, c)) c))"

section \<open>The reference\<close>

text \<open>
  The hash of a byte string: blocks of twelve bytes, each read as three little-endian words, the last one
  padded with zeros.
\<close>

fun le32 :: "u8 list \<Rightarrow> u32" where
  "le32 [] = 0"
| "le32 (x # xs) = ucast x + push_bit 8 (le32 xs)"

definition add_block :: "u8 list \<Rightarrow> u32 \<times> u32 \<times> u32 \<Rightarrow> u32 \<times> u32 \<times> u32" where
  "add_block xs = (\<lambda>(a, b, c). (a + le32 (take 4 xs), b + le32 (take 4 (drop 4 xs)), c + le32 (take 4 (drop 8 xs))))"

function hash_blocks :: "u8 list \<Rightarrow> u32 \<times> u32 \<times> u32 \<Rightarrow> u32" where
  "hash_blocks xs abc =
     (if length xs > 12 then hash_blocks (drop 12 xs) (mix (add_block xs abc))
      else if xs = [] then snd (snd abc)
      else snd (snd (final (add_block xs abc))))"
  by pat_completeness auto
termination
  by (relation "measure (\<lambda>(xs, abc). length xs)") auto

declare loop32.simps [simp del] loop16.simps [simp del] loop8.simps [simp del] hash_blocks.simps [simp del]

definition hash_string :: "u8 list \<Rightarrow> u32" where
  "hash_string xs = (let i = 0xdeadbeef + of_nat (length xs) in hash_blocks xs (i, i, i))"

definition region :: "bytes \<Rightarrow> u64 \<Rightarrow> nat \<Rightarrow> u8 list" where
  "region m p n = map (\<lambda>i. m (p + of_nat i)) [0..<n]"

section \<open>Equivalence\<close>

lemma region_simps [simp]: "length (region m p n) = n" "region m p 0 = []"
  by (simp_all add: region_def)

lemma region_take: "take j (region m p n) = region m p (min j n)"
  by (simp add: region_def take_map take_upt min_def)

lemma region_drop: "drop j (region m p n) = region m (p + of_nat j) (n - j)"
  by (rule nth_equalityI) (auto simp: region_def algebra_simps)

lemma region_Suc: "region m p (Suc n) = m p # region m (p + 1) n"
  by (simp add: region_def upt_conv_Cons map_Suc_upt [symmetric] algebra_simps del: upt_Suc)

lemma region_numeral: "region m p (numeral n) = m p # region m (p + 1) (pred_numeral n)"
  by (simp only: numeral_eq_Suc region_Suc)

lemma le32_append: "le32 (xs @ ys) = le32 xs + push_bit (8 * length xs) (le32 ys)"
  by (induction xs) (simp_all add: push_bit_add add.commute add.left_commute)

lemma le32_bound: "length xs \<le> 3 \<Longrightarrow> unat (le32 xs) < 2 ^ (8 * length xs)"
proof (induction xs)
  case (Cons x xs)
  have x: "unat x < 256"
    using unsigned_less [of x] by simp
  have "2 ^ (8 * length xs) \<le> (2 ^ 16 :: nat)"
    using Cons.prems by (intro power_increasing) auto
  then have xs: "unat (le32 xs) < 2 ^ 16" and le: "unat (le32 xs) + 1 \<le> 2 ^ (8 * length xs)"
    using Cons by fastforce+
  have p: "unat (push_bit 8 (le32 xs)) = 256 * unat (le32 xs)"
    using xs unat_mult_lem [of "le32 xs" 256] by (simp add: push_bit_eq_mult mult.commute)
  have "unat (le32 (x # xs)) = unat x + 256 * unat (le32 xs)"
    using x xs p by (subst le32.simps, subst unat_add_lem [THEN iffD1]) (simp_all add: p unsigned_ucast_eq take_bit_nat_eq_self)
  also have "\<dots> < 256 * (unat (le32 xs) + 1)"
    using x by simp
  also have "\<dots> \<le> 256 * 2 ^ (8 * length xs)"
    using le by (rule mult_le_mono2)
  finally show ?case by (simp add: power_add)
qed simp

text \<open>Masking a word leaves the bytes before the end of the key.\<close>

lemma low_and_high: "take_bit n x AND push_bit n (y :: u32) = 0"
  by (rule bit_word_eqI) (auto simp: bit_simps)

lemma le32_mask:
  assumes "length xs \<le> 3"
  shows "le32 (xs @ ys) AND mask (8 * length xs) = le32 xs"
proof -
  have t: "take_bit (8 * length xs) (le32 xs) = le32 xs"
    using le32_bound [OF assms] by (intro word_unat_eq_iff [THEN iffD2]) (simp add: unsigned_take_bit_eq take_bit_nat_eq_self)
  then have "le32 xs AND push_bit (8 * length xs) (le32 ys) = 0"
    by (metis (no_types) low_and_high)
  then have "le32 (xs @ ys) = le32 xs OR push_bit (8 * length xs) (le32 ys)"
    by (simp add: le32_append disjunctive_add_eq_or)
  also have "\<dots> AND mask (8 * length xs) = take_bit (8 * length xs) (le32 xs)"
    by (rule bit_word_eqI) (auto simp: bit_simps)
  finally show ?thesis
    using t by simp
qed

text \<open>What the readers see at an address is a little-endian number of the bytes there.\<close>

lemma at32_le32: "at32 m k i = le32 (region m (k + 4 * i) 4)"
  by (simp add: at32_def load32_def region_numeral region_Suc push_bit_add algebra_simps)

lemma at32_mask:
  assumes "j \<le> 3"
  shows "at32 m k i AND mask (8 * j) = le32 (region m (k + 4 * i) j)"
proof -
  obtain ys where "region m (k + 4 * i) 4 = region m (k + 4 * i) j @ ys"
    using append_take_drop_id [of j "region m (k + 4 * i) 4", symmetric] assms by (simp add: region_take min_def)
  then show ?thesis
    using le32_mask [of "region m (k + 4 * i) j"] assms by (simp add: at32_le32)
qed

lemmas at32_masks = at32_mask [of 3, simplified mask_eq_exp_minus_1, simplified] at32_mask [of 2, simplified mask_eq_exp_minus_1, simplified]
  at32_mask [of 1, simplified mask_eq_exp_minus_1, simplified]

lemma ucast_load16: "(ucast (load16 m p) :: u32) = ucast (m p) + push_bit 8 (ucast (m (p + 1)))"
proof -
  have b: "unat (m q) < 256" for q
    using unsigned_less [of "m q"] by simp
  have u: "unat (ucast (m q) :: u16) = unat (m q)" "unat (ucast (m q) :: u32) = unat (m q)" for q
    using b [of q] by (simp_all add: unsigned_ucast_eq take_bit_nat_eq_self)
  have m16: "unat (push_bit 8 (ucast (m q)) :: u16) = 256 * unat (m q)" for q
    using b [of q] unat_mult_lem [of "ucast (m q) :: u16" 256] by (simp add: push_bit_eq_mult mult.commute u)
  have m32: "unat (push_bit 8 (ucast (m q)) :: u32) = 256 * unat (m q)" for q
    using b [of q] unat_mult_lem [of "ucast (m q) :: u32" 256] by (simp add: push_bit_eq_mult mult.commute u)
  have l: "unat (load16 m p) = unat (m p) + 256 * unat (m (p + 1))"
    using b [of p] b [of "p + 1"] unat_add_lem [of "ucast (m p) :: u16" "push_bit 8 (ucast (m (p + 1)))"]
    by (simp add: load16_def m16 u)
  moreover have "unat (ucast (m p) + push_bit 8 (ucast (m (p + 1))) :: u32) = unat (m p) + 256 * unat (m (p + 1))"
    using b [of p] b [of "p + 1"] unat_add_lem [of "ucast (m p) :: u32" "push_bit 8 (ucast (m (p + 1)))"]
    by (simp add: m32 u)
  ultimately show ?thesis
    by (intro word_unat_eq_iff [THEN iffD2]) (use b [of p] b [of "p + 1"] l in \<open>simp add: unsigned_ucast_eq take_bit_nat_eq_self\<close>)
qed

lemma at16_le32: "at16 m k i = le32 (region m (k + 2 * i) 2)"
  by (simp add: at16_def ucast_load16 region_numeral region_Suc)

lemma at8_le32: "at8 m k i = le32 (region m (k + i) 1)"
  by (simp add: at8_def region_Suc)

lemma small_len:
  fixes n :: u64
  assumes "n \<le> 12"
  shows "n = 12 \<or> n = 11 \<or> n = 10 \<or> n = 9 \<or> n = 8 \<or> n = 7 \<or> n = 6 \<or> n = 5 \<or> n = 4 \<or> n = 3 \<or> n = 2 \<or> n = 1 \<or> n = 0"
proof -
  have "unat n < 13"
    using assms by (simp add: word_le_nat_alt)
  then have "unat n \<in> {0..<13}" by simp
  then have "n \<in> of_nat ` {0..<13}"
    by (intro image_eqI [of _ _ "unat n"]) simp_all
  then show ?thesis
    by (auto simp: atLeastLessThan_nat_numeral)
qed

text \<open>Two adjacent halves, and single bytes with their shifts, make up a word.\<close>

lemma halves: "at16 m k i + push_bit 16 (at16 m k (i + 1)) = le32 (region m (k + 2 * i) 4)"
  by (simp add: at16_le32 region_numeral region_Suc push_bit_add algebra_simps)

lemmas halves_at = halves [of _ _ 0, simplified] halves [of _ _ 2, simplified] halves [of _ _ 4, simplified]

definition last_block :: "u8 list \<Rightarrow> u32 \<times> u32 \<times> u32 \<Rightarrow> (u32 \<times> u32 \<times> u32) option" where
  "last_block xs abc = (if xs = [] then None else Some (add_block xs abc))"

lemma add_block_region:
  "add_block (region m k n) (a, b, c) =
     (a + le32 (region m k (min 4 n)), b + le32 (region m (k + 4) (min 4 (n - 4))), c + le32 (region m (k + 8) (min 4 (n - 8))))"
  by (simp add: add_block_def region_take region_drop)

lemma region_Nil [simp]: "region m p n = [] \<longleftrightarrow> n = 0"
  by (simp add: region_def)

lemma last32_block: "n \<le> 12 \<Longrightarrow> last32 m k n (a, b, c) = last_block (region m k (unat n)) (a, b, c)"
  by (drule small_len, elim disjE; simp add: last32_def last_block_def add_block_region at32_masks; simp add: at32_le32)

text \<open>The little-endian number of up to four bytes, by its bytes and by its first half.\<close>

lemma le32_bytes:
  "le32 (region m p 1) = ucast (m p)"
  "le32 (region m p 2) = ucast (m p) + push_bit 8 (ucast (m (p + 1)))"
  "le32 (region m p 3) = ucast (m p) + (push_bit 8 (ucast (m (p + 1))) + push_bit 16 (ucast (m (p + 2))))"
  "le32 (region m p 4) = ucast (m p) + (push_bit 8 (ucast (m (p + 1))) + (push_bit 16 (ucast (m (p + 2))) + push_bit 24 (ucast (m (p + 3)))))"
  by (simp_all add: region_numeral region_Suc push_bit_add add.assoc)

lemma le32_three: "le32 (region m p 3) = le32 (region m p 2) + push_bit 16 (le32 (region m (p + 2) 1))"
  by (simp only: le32_bytes add.assoc)

lemma last16_block: "n \<le> 12 \<Longrightarrow> last16 m k n (a, b, c) = last_block (region m k (unat n)) (a, b, c)"
  by (drule small_len, elim disjE; simp add: last16_def last_block_def add_block_region halves_at Let_def;
      simp add: at16_le32 at8_le32 le32_three add.commute)

lemma at8_shift: "at8 m (k + j) i = at8 m k (j + i)"
  by (simp add: at8_def add.assoc)

lemma le32_at8:
  "le32 (region m p (Suc 0)) = at8 m p 0"
  "le32 (region m p 2) = push_bit 8 (at8 m p 1) + at8 m p 0"
  "le32 (region m p 3) = push_bit 16 (at8 m p 2) + push_bit 8 (at8 m p 1) + at8 m p 0"
  "le32 (region m p 4) = push_bit 24 (at8 m p 3) + push_bit 16 (at8 m p 2) + push_bit 8 (at8 m p 1) + at8 m p 0"
  by (simp_all add: at8_def le32_bytes [simplified] ac_simps)

lemma last8_block: "n \<le> 12 \<Longrightarrow> last8 m k n (a, b, c) = last_block (region m k (unat n)) (a, b, c)"
  unfolding last8_def Let_def
  by (drule small_len, elim disjE; hypsubst;
      simp add: last_block_def add_block_region le32_at8 at8_shift add.assoc word_le_nat_alt word_less_nat_alt)

text \<open>One round of each loop adds and mixes the next block.\<close>

lemma full_block:
  fixes n :: u64
  assumes "12 < n"
  shows "add_block (region m k (unat n)) (a, b, c) =
    (a + le32 (region m k 4), b + le32 (region m (k + 4) 4), c + le32 (region m (k + 8) 4))"
    and "drop 12 (region m k (unat n)) = region m (k + 12) (unat (n - 12))" and "12 < unat n"
proof -
  show n: "12 < unat n"
    using assms by (simp add: word_less_nat_alt)
  then show "add_block (region m k (unat n)) (a, b, c) =
    (a + le32 (region m k 4), b + le32 (region m (k + 4) 4), c + le32 (region m (k + 8) 4))"
    by (simp only: add_block_region) (simp add: min_absorb1)
  show "drop 12 (region m k (unat n)) = region m (k + 12) (unat (n - 12))"
    using n by (simp add: region_drop unat_sub word_le_nat_alt)
qed

text \<open>
  The contract of a reader: its loop consumes the key in blocks of twelve bytes, and its switch adds what is
  left. Any such reader computes the reference hash of the string in the region.
\<close>

locale block_reader =
  fixes loop :: "bytes \<Rightarrow> u64 \<Rightarrow> u64 \<Rightarrow> u32 \<times> u32 \<times> u32 \<Rightarrow> u64 \<times> u64 \<times> (u32 \<times> u32 \<times> u32)"
    and tail :: "bytes \<Rightarrow> u64 \<Rightarrow> u64 \<Rightarrow> u32 \<times> u32 \<times> u32 \<Rightarrow> (u32 \<times> u32 \<times> u32) option"
  assumes loop_block: "12 < n \<Longrightarrow> loop m k n (a, b, c) = loop m (k + 12) (n - 12) (mix (add_block (region m k (unat n)) (a, b, c)))"
    and loop_end: "n \<le> 12 \<Longrightarrow> loop m k n (a, b, c) = (k, n, (a, b, c))"
    and tail_block: "n \<le> 12 \<Longrightarrow> tail m k n (a, b, c) = last_block (region m k (unat n)) (a, b, c)"
begin

lemma reads_string:
  "(let (k', n', (a, b, c)) = loop m k n abc in finish_hash (tail m k' n' (a, b, c)) c) = hash_blocks (region m k (unat n)) abc"
proof (induction "unat n" arbitrary: n k abc rule: less_induct)
  case less
  obtain x y z where abc: "abc = (x, y, z)"
    by (cases abc)
  show ?case
  proof (cases "12 < n")
    case True
    have "hash_blocks (region m k (unat n)) abc = hash_blocks (region m (k + 12) (unat (n - 12))) (mix (add_block (region m k (unat n)) abc))"
      by (subst hash_blocks.simps) (simp add: full_block [OF True])
    then show ?thesis
      using less [OF shorter [OF True], of "k + 12" "mix (add_block (region m k (unat n)) abc)"]
      by (simp only: loop_block [OF True] abc)
  next
    case False
    then have n: "n \<le> 12"
      by (simp add: not_less)
    then have "hash_blocks (region m k (unat n)) (x, y, z) = finish_hash (last_block (region m k (unat n)) (x, y, z)) z"
      by (subst hash_blocks.simps) (simp add: last_block_def finish_hash_def word_le_nat_alt)
    then show ?thesis
      by (simp add: abc loop_end [OF n] tail_block [OF n])
  qed
qed

end

interpretation words: block_reader loop32 last32
proof
  show "loop32 m k n (a, b, c) = loop32 m (k + 12) (n - 12) (mix (add_block (region m k (unat n)) (a, b, c)))" if "12 < n" for m k n a b c
    by (subst loop32.simps) (use that in \<open>simp add: full_block(1) at32_le32\<close>)
  show "loop32 m k n (a, b, c) = (k, n, (a, b, c))" if "n \<le> 12" for m k n a b c
    by (subst loop32.simps) (use that in \<open>simp add: not_less [symmetric]\<close>)
qed (rule last32_block)

interpretation half_words: block_reader loop16 last16
proof
  show "loop16 m k n (a, b, c) = loop16 m (k + 12) (n - 12) (mix (add_block (region m k (unat n)) (a, b, c)))" if "12 < n" for m k n a b c
    by (subst loop16.simps) (use that in \<open>simp add: full_block(1) halves_at\<close>)
  show "loop16 m k n (a, b, c) = (k, n, (a, b, c))" if "n \<le> 12" for m k n a b c
    by (subst loop16.simps) (use that in \<open>simp add: not_less [symmetric]\<close>)
qed (rule last16_block)

interpretation single: block_reader loop8 last8
proof
  show "loop8 m k n (a, b, c) = loop8 m (k + 12) (n - 12) (mix (add_block (region m k (unat n)) (a, b, c)))" if "12 < n" for m k n a b c
    by (subst loop8.simps) (use that in \<open>simp add: full_block(1) le32_at8 at8_shift Let_def ac_simps\<close>)
  show "loop8 m k n (a, b, c) = (k, n, (a, b, c))" if "n \<le> 12" for m k n a b c
    by (subst loop8.simps) (use that in \<open>simp add: not_less [symmetric]\<close>)
qed (rule last8_block)

lemma jenkins_hash_eq: "jenkins_hash m key len = hash_string (region m key (unat len))"
proof -
  have "(0xdeadbeef + ucast len + 0 :: u32) = 0xdeadbeef + of_nat (unat len)"
    by (intro word_unat_eq_iff [THEN iffD2]) (simp add: unsigned_ucast_eq unat_of_nat take_bit_nat_def unat_word_ariths)
  then show ?thesis
    by (simp only: jenkins_hash_def hash_string_def Let_def [of "_ + _"] words.reads_string half_words.reads_string single.reads_string region_simps if_cancel)
qed

text \<open>
  C24: the hash of a key is the reference hash of its bytes, for every address and every length.
  So the three readers agree: neither the alignment of the key nor the bytes the aligned readers load beyond its
  end have an influence on the result.
\<close>

theorem jenkins_hash_string: "jenkins_hash m key len = hash_string (region m key (unat len))"
  by (rule jenkins_hash_eq)

section \<open>Reversibility\<close>

text \<open>A line of each macro, the three variables in the order in which the line uses them, and its inverse.\<close>

definition mix_line :: "nat \<Rightarrow> u32 \<times> u32 \<times> u32 \<Rightarrow> u32 \<times> u32 \<times> u32" where
  "mix_line k = (\<lambda>(x, y, z). (y, z + y, (x - z) XOR rot z k))"

definition final_line :: "nat \<Rightarrow> u32 \<times> u32 \<times> u32 \<Rightarrow> u32 \<times> u32 \<times> u32" where
  "final_line k = (\<lambda>(x, y, z). (z, (x XOR y) - rot y k, y))"

lemma xor_cancel: "(x XOR y) XOR y = (x :: u32)"
  by (simp add: ac_simps flip: xor.assoc)

lemma bij_mix_line: "bij (mix_line k)"
  by (rule o_bij [of "\<lambda>(y, w, v). ((v XOR rot (w - y) k) + (w - y), y, w - y)"]) (auto simp: mix_line_def fun_eq_iff xor_cancel)

lemma bij_final_line: "bij (final_line k)"
  by (rule o_bij [of "\<lambda>(z, w, y). ((w + rot y k) XOR y, y, z)"]) (auto simp: final_line_def fun_eq_iff xor_cancel)

lemma mix_lines: "mix = mix_line 4 \<circ> mix_line 19 \<circ> mix_line 16 \<circ> mix_line 8 \<circ> mix_line 6 \<circ> mix_line 4"
proof
  show "mix abc = (mix_line 4 \<circ> mix_line 19 \<circ> mix_line 16 \<circ> mix_line 8 \<circ> mix_line 6 \<circ> mix_line 4) abc" for abc
    by (cases abc) (simp only: mix_def mix_line_def o_apply Let_def prod.case)
qed

text \<open>The lines of \<^verbatim>\<open>final\<close> change \<open>c\<close>, \<open>a\<close>, \<open>b\<close> in turn, each with the variable changed before it.\<close>

lemma final_lines:
  "final (a, b, c) = (let (z, x, y) = (final_line 24 \<circ> final_line 14 \<circ> final_line 4 \<circ> final_line 16 \<circ> final_line 25 \<circ> final_line 11 \<circ> final_line 14) (c, b, a)
     in (z, y, x))"
  by (simp only: final_def final_line_def o_apply Let_def prod.case)

text \<open>
  C25: both mixing macros are permutations of the 96-bit state: no information of the key read so far
  is lost by mixing, as the comment on \<^verbatim>\<open>mix\<close> promises.
\<close>

theorem mix_reversible: "bij mix \<and> bij final"
proof
  show "bij mix"
    unfolding mix_lines by (intro bij_comp bij_mix_line)
  have eq: "final = (\<lambda>(z, x, y). (z, y, x)) \<circ> (final_line 24 \<circ> final_line 14 \<circ> final_line 4 \<circ> final_line 16 \<circ> final_line 25 \<circ> final_line 11 \<circ> final_line 14) \<circ>
    (\<lambda>(a, b, c). (c, b, a))"
    by (auto simp: fun_eq_iff final_lines Let_def split: prod.split)
  have swaps: "bij (\<lambda>(z :: u32, x :: u32, y :: u32). (z, y, x))" "bij (\<lambda>(a :: u32, b :: u32, c :: u32). (c, b, a))"
    by (rule o_bij [of "\<lambda>(z, x, y). (z, y, x)"] o_bij [of "\<lambda>(a, b, c). (c, b, a)"]; auto simp: fun_eq_iff)+
  show "bij final"
    unfolding eq by (intro bij_comp bij_final_line swaps)
qed

end
