(* ===== verification/Ialloc.thy ===== *)
theory Ialloc
  imports Jenkins_Hash Complex_Main "HOL-Library.Log_Nat"
begin

text \<open>
  \<^verbatim>\<open>apps/flexkvs/server/ialloc.c\<close> and the items of \<^verbatim>\<open>iokvs.h\<close>: the log-structured allocator of
  the key-value store. Memory is one region cut into segments; an allocator appends items to its
  current segment, counts freed bytes per segment, and a maintenance thread gives fully freed segments back and
  queues the live items of mostly freed ones for relocation.

  The functions are sequential. In the code the locks protect single list operations and the counters are updated
  with atomic instructions; what happens when a maintenance thread runs between the accesses of one call is not
  modelled. Item headers, segment headers and plain bytes are three typed heaps over the same
  address space; the theorems on fresh blocks show that no two of them overlap in the segments. The view is right for an
  address at which an item has been allocated or padding been marked, and only there; a scan that ends up elsewhere reads and writes plain bytes in the
  code, and the theorem on maintenance therefore has the layout of the scanned segment as a hypothesis. \<open>None\<close> is a
  failed assertion or a dereferenced null pointer.
\<close>

section \<open>Data\<close>

record item =
  next_item :: ptr
  hv :: u32
  vallen :: u32
  refcount :: u16
  keylen :: u16
  item_flags :: u32

record segment_header =
  seg_data :: u64
  seg_next :: ptr
  seg_offset :: u32
  seg_freed :: u32
  seg_size :: u32
  seg_flags :: u32

definition SF_INACTIVE :: u32 where [c_consts]: "SF_INACTIVE = 1"
definition SF_CLEANED :: u32 where [c_consts]: "SF_CLEANED = 4"

text \<open>The part of \<^verbatim>\<open>struct settings\<close> the store uses; \<^verbatim>\<open>clean_ratio\<close> is the value of a double.\<close>

record settings =
  segsize :: u64
  segmaxnum :: u64
  segcqsize :: u64
  clean_ratio :: rat
  valuesize :: u16
  hasht_size :: u64

text \<open>
  What the allocator asks the system for: whether \<^verbatim>\<open>mprotect\<close> of the \<open>i\<close>-th segment succeeds, and the
  result of \<^verbatim>\<open>malloc\<close> for its header.
\<close>

record segment_source =
  mprotect_ok :: "u64 \<Rightarrow> bool"
  malloc_header :: "u64 \<Rightarrow> ptr"

record segments =
  items :: "ptr \<Rightarrow> item"
  kbytes :: bytes
  segs :: "ptr \<Rightarrow> segment_header"
  free_segments :: ptr
  seg_base :: u64
  seg_headers :: "u64 \<Rightarrow> ptr"
  seg_alloced :: u64

record item_allocator =
  reserved :: ptr
  cleanup_queue :: "u64 \<Rightarrow> ptr"
  cur :: ptr
  cq_head :: u64
  cleanup_count :: u64
  oldest :: ptr
  cq_tail :: u64
  cleaning :: ptr
  clean_offset :: u64

abbreviation upd_item :: "ptr \<Rightarrow> (item \<Rightarrow> item) \<Rightarrow> 'a segments_scheme \<Rightarrow> 'a segments_scheme" where
  "upd_item p f s \<equiv> s\<lparr>items := (items s)(p := f (items s p))\<rparr>"

abbreviation upd_seg :: "ptr \<Rightarrow> (segment_header \<Rightarrow> segment_header) \<Rightarrow> 'a segments_scheme \<Rightarrow> 'a segments_scheme" where
  "upd_seg p f s \<equiv> s\<lparr>segs := (segs s)(p := f (segs s p))\<rparr>"

section \<open>Items\<close>

definition ITEM_SIZE :: u64 where [c_consts]: "ITEM_SIZE = 24"

definition item_key :: "ptr \<Rightarrow> u64" where
  "item_key it = it + ITEM_SIZE"

definition item_value :: "'a segments_scheme \<Rightarrow> ptr \<Rightarrow> u64" where
  "item_value s it = it + ITEM_SIZE + ucast (keylen (items s it))"

definition item_totalsz :: "'a segments_scheme \<Rightarrow> ptr \<Rightarrow> u64" where
  "item_totalsz s it = ITEM_SIZE + ucast (vallen (items s it)) + ucast (keylen (items s it))"

definition item_ref :: "ptr \<Rightarrow> 'a segments_scheme \<Rightarrow> 'a segments_scheme" where
  "item_ref it s = upd_item it (\<lambda>x. x\<lparr>refcount := refcount x + 1\<rparr>) s"

definition item_tryref :: "ptr \<Rightarrow> 'a segments_scheme \<Rightarrow> bool \<times> 'a segments_scheme" where
  "item_tryref it s =
     (if refcount (items s it) = 0 then (False, s)
      else (True, upd_item it (\<lambda>x. x\<lparr>refcount := refcount x + 1\<rparr>) s))"

section \<open>Segments\<close>

definition ialloc_init :: "u64 \<Rightarrow> 'a segments_scheme \<Rightarrow> 'a segments_scheme" where
  "ialloc_init base s = s\<lparr>free_segments := NULL, seg_alloced := 0, seg_base := base, seg_headers := (\<lambda>_. NULL)\<rparr>"

text \<open>The label \<^verbatim>\<open>init_h\<close>.\<close>

definition init_segment :: "ptr \<Rightarrow> 'a segments_scheme \<Rightarrow> 'a segments_scheme" where
  "init_segment h s = upd_seg h (\<lambda>x. x\<lparr>seg_offset := 0, seg_flags := 0, seg_freed := 0\<rparr>) s"

definition segment_alloc :: "settings \<Rightarrow> segment_source \<Rightarrow> 'a segments_scheme \<Rightarrow> ptr \<times> 'a segments_scheme" where
  "segment_alloc C src s =
     (if free_segments s \<noteq> NULL then
        let h = free_segments s; s = s\<lparr>free_segments := seg_next (segs s h)\<rparr> in (h, init_segment h s)
      else
        let i = seg_alloced s in
        if i \<ge> segmaxnum C then (NULL, s)
        else
          let s = s\<lparr>seg_alloced := seg_alloced s + 1\<rparr>; segsz = segsize C; data = seg_base s + segsz * i in
          if \<not> mprotect_ok src i then (NULL, s)
          else
            let h = malloc_header src i in
            if h = NULL then (NULL, s)
            else
              let s = s\<lparr>seg_headers := (seg_headers s)(i := h)\<rparr>;
                  s = upd_seg h (\<lambda>x. x\<lparr>seg_size := ucast segsz, seg_data := data\<rparr>) s
              in (h, init_segment h s))"

definition segment_from_part :: "settings \<Rightarrow> u64 \<Rightarrow> 'a segments_scheme \<Rightarrow> ptr option" where
  "segment_from_part C data s =
     (let i = (data - seg_base s) div segsize C in do { assert (segsize C \<noteq> 0); assert (i < segmaxnum C); Some (seg_headers s i) })"

definition segment_free :: "ptr \<Rightarrow> 'a segments_scheme \<Rightarrow> 'a segments_scheme" where
  "segment_free h s = (upd_seg h (\<lambda>x. x\<lparr>seg_offset := 0, seg_next := free_segments s\<rparr>) s)\<lparr>free_segments := h\<rparr>"

definition segment_item_free :: "ptr \<Rightarrow> u64 \<Rightarrow> 'a segments_scheme \<Rightarrow> 'a segments_scheme option" where
  "segment_item_free h tot s = do { assert (h \<noteq> NULL); Some (upd_seg h (\<lambda>x. x\<lparr>seg_freed := seg_freed x + ucast tot\<rparr>) s) }"

definition segment_item_alloc :: "ptr \<Rightarrow> u64 \<Rightarrow> 'a segments_scheme \<Rightarrow> (ptr \<times> 'a segments_scheme) option" where
  "segment_item_alloc h tot s = do {
     assert (h \<noteq> NULL);
     let x = segs s h;
     let it = seg_data x + ucast (seg_offset x);
     let avail = (ucast (seg_size x - seg_offset x) :: u64);
     if avail = 0 then Some (NULL, s)
     else if avail < tot then do {
       let s = (if avail \<ge> ITEM_SIZE then upd_item it (\<lambda>y. y\<lparr>refcount := 0, keylen := ucast (avail - ITEM_SIZE), vallen := 0\<rparr>) s else s);
       s \<leftarrow> segment_item_free h avail s;
       Some (NULL, upd_seg h (\<lambda>x. x\<lparr>seg_offset := seg_offset x + ucast avail\<rparr>) s)
     } else
       Some (it, upd_seg h (\<lambda>x. x\<lparr>seg_offset := seg_offset x + ucast tot\<rparr>) (upd_item it (\<lambda>y. y\<lparr>refcount := 1\<rparr>) s))
   }"

section \<open>The allocator\<close>

definition zero_allocator :: item_allocator where
  "zero_allocator = \<lparr>reserved = NULL, cleanup_queue = (\<lambda>_. NULL), cur = NULL, cq_head = 0, cleanup_count = 0,
     oldest = NULL, cq_tail = 0, cleaning = NULL, clean_offset = 0\<rparr>"

definition ialloc_init_allocator :: "settings \<Rightarrow> segment_source \<Rightarrow> 'a segments_scheme \<Rightarrow> (item_allocator \<times> 'a segments_scheme) option" where
  "ialloc_init_allocator C src s = do {
     let ia = zero_allocator;
     let (h, s) = segment_alloc C src s;
     assert (h \<noteq> NULL);
     let s = upd_seg h (\<lambda>x. x\<lparr>seg_next := NULL\<rparr>) s;
     let ia = ia\<lparr>cur := h, oldest := h\<rparr>;
     let (h, s) = segment_alloc C src s;
     assert (h \<noteq> NULL);
     let s = upd_seg h (\<lambda>x. x\<lparr>seg_next := NULL\<rparr>) s;
     Some (ia\<lparr>reserved := h, cleanup_queue := (\<lambda>_. NULL), cq_head := 0, cq_tail := 0, cleaning := NULL\<rparr>, s)
   }"

definition ialloc_alloc :: "settings \<Rightarrow> segment_source \<Rightarrow> u64 \<Rightarrow> bool \<Rightarrow> item_allocator \<Rightarrow> 'a segments_scheme \<Rightarrow>
    (ptr \<times> item_allocator \<times> 'a segments_scheme) option" where
  "ialloc_alloc C src tot cleanup ia s = do {
     assert (tot < segsize C);
     if reserved ia = NULL \<and> \<not> cleanup then Some (NULL, ia, s)
     else do {
       let old = cur ia;
       (it, s) \<leftarrow> segment_item_alloc old tot s;
       if it \<noteq> NULL then Some (it, ia, s)
       else do {
         let (h, s) = segment_alloc C src s;
         if h = NULL \<and> \<not> (cleanup \<and> reserved ia \<noteq> NULL) then Some (NULL, ia, s)
         else do {
           let (h, ia) = (if h = NULL then (reserved ia, ia\<lparr>reserved := NULL\<rparr>) else (h, ia));
           let s = upd_seg old (\<lambda>x. x\<lparr>seg_next := h\<rparr>) s;
           let s = upd_seg h (\<lambda>x. x\<lparr>seg_next := NULL\<rparr>) s;
           let s = upd_seg old (\<lambda>x. x\<lparr>seg_flags := seg_flags x OR SF_INACTIVE\<rparr>) s;
           let ia = ia\<lparr>cur := h\<rparr>;
           (it, s) \<leftarrow> segment_item_alloc h tot s;
           Some (it, ia, s)
         }
       }
     }
   }"

definition ialloc_free :: "settings \<Rightarrow> ptr \<Rightarrow> u64 \<Rightarrow> 'a segments_scheme \<Rightarrow> 'a segments_scheme option" where
  "ialloc_free C it tot s = do { h \<leftarrow> segment_from_part C it s; segment_item_free h tot s }"

definition item_unref :: "settings \<Rightarrow> ptr \<Rightarrow> 'a segments_scheme \<Rightarrow> 'a segments_scheme option" where
  "item_unref C it s = do {
     assert (refcount (items s it) > 0);
     let s = upd_item it (\<lambda>x. x\<lparr>refcount := refcount x - 1\<rparr>) s;
     if refcount (items s it) = 0 then ialloc_free C it (item_totalsz s it) s else Some s
   }"

definition ialloc_cleanup_item :: "settings \<Rightarrow> segment_source \<Rightarrow> bool \<Rightarrow> item_allocator \<Rightarrow> 'a segments_scheme \<Rightarrow>
    ptr \<times> item_allocator \<times> 'a segments_scheme" where
  "ialloc_cleanup_item C src idle ia s =
     (if \<not> idle \<and> cleanup_count ia \<ge> 32 then (NULL, ia, s)
      else
        let ia = (if \<not> idle then ia\<lparr>cleanup_count := cleanup_count ia + 1\<rparr> else ia);
            i = cq_head ia;
            it = cleanup_queue ia i;
            ia = (if it \<noteq> NULL then ia\<lparr>cleanup_queue := (cleanup_queue ia)(i := NULL), cq_head := (i + 1) mod segcqsize C\<rparr> else ia);
            (ia, s) = (if reserved ia = NULL then let (h, s) = segment_alloc C src s in (ia\<lparr>reserved := h\<rparr>, s) else (ia, s))
        in (it, ia, s))"

definition ialloc_cleanup_nextrequest :: "item_allocator \<Rightarrow> item_allocator" where
  "ialloc_cleanup_nextrequest ia = ia\<lparr>cleanup_count := 0\<rparr>"

section \<open>Maintenance\<close>

text \<open>
  The quotient of two 32-bit counts as an IEEE double, rounded to 53 bits with ties to even; dividing by zero gives
  infinity or, for \<open>0 / 0\<close>, not a number.
\<close>

datatype double = Finite rat | Infinity | NaN

fun double_le :: "double \<Rightarrow> double \<Rightarrow> bool" where
  "double_le (Finite x) (Finite y) \<longleftrightarrow> x \<le> y"
| "double_le (Finite x) Infinity \<longleftrightarrow> True"
| "double_le Infinity Infinity \<longleftrightarrow> True"
| "double_le _ _ \<longleftrightarrow> False"

fun double_less :: "double \<Rightarrow> double \<Rightarrow> bool" where
  "double_less (Finite x) (Finite y) \<longleftrightarrow> x < y"
| "double_less (Finite x) Infinity \<longleftrightarrow> True"
| "double_less _ _ \<longleftrightarrow> False"

definition double_div :: "u32 \<Rightarrow> u32 \<Rightarrow> double" where
  "double_div x y =
     (let n = unat x; d = unat y in
      if d = 0 then (if n = 0 then NaN else Infinity)
      else if n = 0 then Finite 0
      else
        let num = n * 2 ^ 85;
            e = floorlog 2 (num div d) - 53;
            unit = d * 2 ^ e;
            q = num div unit;
            r = num mod unit;
            q = (if 2 * r > unit \<or> 2 * r = unit \<and> odd q then q + 1 else q)
        in Finite (of_nat q * 2 ^ e / 2 ^ 85))"

text \<open>
  The first loop: fully freed segments leave the list, and the candidate for cleaning is the one with the highest
  ratio of freed bytes. Its variables are the cursor, the segment before it, and the candidate with its ratio.
\<close>

partial_function (option) free_scan :: "settings \<Rightarrow> ptr \<Rightarrow> ptr \<Rightarrow> ptr \<Rightarrow> double \<Rightarrow> item_allocator \<Rightarrow> 'a segments_scheme \<Rightarrow>
    (ptr \<times> item_allocator \<times> 'a segments_scheme) option" where
  "free_scan C h prev cand cand_ratio ia s =
     (if h \<noteq> NULL \<and> seg_next (segs s h) \<noteq> NULL \<and> seg_flags (segs s h) AND SF_INACTIVE = SF_INACTIVE then
        let x = segs s h; nxt = seg_next x in
        if seg_freed x = seg_size x then
          (if prev = NULL then free_scan C nxt prev cand cand_ratio (ia\<lparr>oldest := nxt\<rparr>) (segment_free h s)
           else free_scan C nxt prev cand cand_ratio ia (segment_free h (upd_seg prev (\<lambda>y. y\<lparr>seg_next := nxt\<rparr>) s)))
        else if seg_flags x AND SF_CLEANED \<noteq> SF_CLEANED then
          let ratio = double_div (seg_freed x) (seg_size x) in
          if double_le (Finite (clean_ratio C)) ratio \<and> double_less cand_ratio ratio then free_scan C nxt h h ratio ia s
          else free_scan C nxt h cand cand_ratio ia s
        else free_scan C nxt h cand cand_ratio ia s
      else Some (cand, ia, s))"

text \<open>
  The second loop: the live items of the segment from \<open>off\<close> on go to the queue, until it is full. At \<open>data + off\<close> it takes an item header for
  granted; see \<open>scannable\<close> in \<open>Ialloc_Maint\<close>.
\<close>

partial_function (option) queue_items :: "settings \<Rightarrow> u64 \<Rightarrow> u64 \<Rightarrow> u64 \<Rightarrow> u64 \<Rightarrow> (u64 \<Rightarrow> ptr) \<Rightarrow> 'a segments_scheme \<Rightarrow>
    (u64 \<times> u64 \<times> (u64 \<Rightarrow> ptr) \<times> 'a segments_scheme) option" where
  "queue_items C data sz off idx cq s =
     (if off < sz \<and> cq idx = NULL then
        let it = data + off in
        if sz - off < ITEM_SIZE then Some (idx, sz, cq, s)
        else
          let (live, s) = item_tryref it s;
              (cq, idx) = (if live then (cq(idx := it), (idx + 1) mod segcqsize C) else (cq, idx))
          in queue_items C data sz (off + item_totalsz s it) idx cq s
      else Some (idx, off, cq, s))"

definition ialloc_maintenance :: "settings \<Rightarrow> item_allocator \<Rightarrow> 'a segments_scheme \<Rightarrow> (item_allocator \<times> 'a segments_scheme) option" where
  "ialloc_maintenance C ia s = do {
     (cand, ia, s) \<leftarrow> free_scan C (oldest ia) NULL NULL (Finite 0) ia s;
     let h = cleaning ia;
     let off = clean_offset ia;
     let sz = (if h = NULL then 0 else ucast (seg_size (segs s h)) :: u64);
     let (h, off, ia, s) =
       (if h = NULL \<or> off = sz then
          (cand, 0, ia\<lparr>cleaning := cand, clean_offset := 0\<rparr>,
           if cand \<noteq> NULL then upd_seg cand (\<lambda>x. x\<lparr>seg_flags := seg_flags x OR SF_CLEANED\<rparr>) s else s)
        else (h, off, ia, s));
     if h = NULL then Some (ia, s)
     else do {
       (idx, off, cq, s) \<leftarrow> queue_items C (seg_data (segs s h)) sz off (cq_tail ia) (cleanup_queue ia) s;
       Some (ia\<lparr>cleanup_queue := cq, cq_tail := idx, clean_offset := off\<rparr>, s)
     }
   }"

end
