(* ===== verification/Ialloc_Inv.thy ===== *)
theory Ialloc_Inv
  imports Ialloc
begin

text \<open>
  The invariant of the item allocator: segment headers describe disjoint parts of the arena, the free list and the
  lists of the allocators are disjoint, and everything below a segment's offset is in use.
\<close>

section \<open>Conversions\<close>

lemma unat_upcast:
  "unat (ucast (x :: u32) :: u64) = unat x" "unat (ucast (y :: u16) :: u64) = unat y"
  using unat_less_power [of x] unat_less_power [of y] by (simp_all add: unsigned_ucast_eq take_bit_nat_eq_self)

lemma ucast_there_and_back [simp]: "(ucast (ucast (x :: u32) :: u64) :: u32) = x"
  by (rule bit_word_eqI) (auto simp: bit_simps)

section \<open>The arena\<close>

definition headers :: "'a segments_scheme \<Rightarrow> ptr set" where
  "headers s = {h. h \<noteq> NULL \<and> (\<exists>i. seg_headers s i = h)}"

definition arena_ok :: "settings \<Rightarrow> 'a segments_scheme \<Rightarrow> bool" where
  "arena_ok C s \<longleftrightarrow> 0 < segsize C \<and> unat (segsize C) < 2 ^ 32 \<and> 0 < seg_base s \<and>
     unat (seg_base s) + unat (segsize C) * unat (segmaxnum C) < 2 ^ 64"

definition seg_ok :: "settings \<Rightarrow> u64 \<Rightarrow> ptr \<Rightarrow> 'a segments_scheme \<Rightarrow> bool" where
  "seg_ok C i h s \<longleftrightarrow> unat (seg_data (segs s h)) = unat (seg_base s) + unat (segsize C) * unat i \<and>
     unat (seg_size (segs s h)) = unat (segsize C) \<and> seg_offset (segs s h) \<le> seg_size (segs s h)"

text \<open>The headers come from \<^verbatim>\<open>malloc\<close>, one for each segment, and no two at the same address.\<close>

definition segs_ok :: "settings \<Rightarrow> segment_source \<Rightarrow> 'a segments_scheme \<Rightarrow> bool" where
  "segs_ok C src s \<longleftrightarrow> arena_ok C s \<and> seg_alloced s \<le> segmaxnum C \<and> inj_on (malloc_header src) {i. malloc_header src i \<noteq> NULL} \<and>
     (\<forall>i. seg_headers s i \<noteq> NULL \<longrightarrow> i < seg_alloced s \<and> seg_headers s i = malloc_header src i \<and> seg_ok C i (seg_headers s i) s)"

fun path :: "'a segments_scheme \<Rightarrow> ptr \<Rightarrow> ptr list \<Rightarrow> bool" where
  "path s p [] \<longleftrightarrow> p = NULL"
| "path s p (h # hs) \<longleftrightarrow> p = h \<and> h \<noteq> NULL \<and> path s (seg_next (segs s h)) hs"

definition free_list :: "'a segments_scheme \<Rightarrow> ptr list \<Rightarrow> bool" where
  "free_list s fs \<longleftrightarrow> path s (free_segments s) fs \<and> distinct fs \<and> set fs \<subseteq> headers s \<and> (\<forall>h\<in>set fs. seg_offset (segs s h) = 0)"

definition inactive :: "'a segments_scheme \<Rightarrow> ptr \<Rightarrow> bool" where
  "inactive s h \<longleftrightarrow> seg_flags (segs s h) AND SF_INACTIVE = SF_INACTIVE"

text \<open>The list of an allocator, from its oldest to its current segment, and the segment it holds in reserve.\<close>

definition chain :: "item_allocator \<Rightarrow> ptr list \<Rightarrow> 'a segments_scheme \<Rightarrow> bool" where
  "chain ia L s \<longleftrightarrow> L \<noteq> [] \<and> path s (oldest ia) L \<and> last L = cur ia \<and> distinct L \<and> set L \<subseteq> headers s \<and>
     (\<forall>h\<in>set (butlast L). inactive s h) \<and>
     (reserved ia \<noteq> NULL \<longrightarrow> reserved ia \<in> headers s \<and> reserved ia \<notin> set L \<and> seg_offset (segs s (reserved ia)) = 0)"

text \<open>The allocator \<open>ia\<close> with its list \<open>L\<close>, beside segments \<open>X\<close> of other allocators.\<close>

definition alloc_ok :: "settings \<Rightarrow> segment_source \<Rightarrow> item_allocator \<Rightarrow> ptr set \<Rightarrow> ptr list \<Rightarrow> ptr list \<Rightarrow> 'a segments_scheme \<Rightarrow> bool" where
  "alloc_ok C src ia X fs L s \<longleftrightarrow> segs_ok C src s \<and> free_list s fs \<and> chain ia L s \<and> X \<subseteq> headers s \<and>
     set fs \<inter> set L = {} \<and> set fs \<inter> X = {} \<and> set L \<inter> X = {} \<and> reserved ia \<notin> set fs \<union> X"

lemma null_no_header [simp]: "NULL \<notin> headers s"
  by (simp add: headers_def)

section \<open>Bytes in use\<close>

definition block :: "ptr \<Rightarrow> nat \<Rightarrow> nat set" where
  "block p n = {unat p..<unat p + n}"

definition seg_used :: "'a segments_scheme \<Rightarrow> ptr \<Rightarrow> nat set" where
  "seg_used s h = block (seg_data (segs s h)) (unat (seg_offset (segs s h)))"

definition used :: "'a segments_scheme \<Rightarrow> nat set" where
  "used s = (\<Union>h\<in>headers s. seg_used s h)"

lemma segs_okD:
  assumes "segs_ok C src s"
  shows "arena_ok C s" and "h \<in> headers s \<Longrightarrow> \<exists>i < segmaxnum C. seg_headers s i = h \<and> seg_ok C i h s"
  using assms unfolding segs_ok_def headers_def by (auto intro: less_le_trans)

lemma seg_headers_inj:
  assumes "segs_ok C src s" and "seg_headers s i \<noteq> NULL" and "seg_headers s i = seg_headers s j"
  shows "i = j"
proof -
  have h: "seg_headers s k = malloc_header src k" if "seg_headers s k \<noteq> NULL" for k
    using assms(1) that unfolding segs_ok_def by blast
  have j: "seg_headers s j \<noteq> NULL"
    using assms(2,3) by simp
  have inj: "inj_on (malloc_header src) {i. malloc_header src i \<noteq> NULL}"
    using assms(1) unfolding segs_ok_def by blast
  show ?thesis
    by (rule inj_onD [OF inj]) (use assms(2,3) j h [OF assms(2)] h [OF j] in simp_all)
qed

text \<open>Segments are disjoint parts of the arena.\<close>

definition seg_room :: "settings \<Rightarrow> 'a segments_scheme \<Rightarrow> ptr \<Rightarrow> nat set" where
  "seg_room C s h = block (seg_data (segs s h)) (unat (segsize C))"

lemma rooms_disjoint:
  assumes "segs_ok C src s" and "h \<in> headers s" and "g \<in> headers s" and "h \<noteq> g"
  shows "seg_room C s h \<inter> seg_room C s g = {}"
proof -
  obtain i j where i: "seg_headers s i = h" "seg_ok C i h s" and j: "seg_headers s j = g" "seg_ok C j g s"
    using segs_okD(2) [OF assms(1)] assms(2,3) by blast
  have "unat i \<noteq> unat j"
    using i(1) j(1) assms(4) by (auto simp flip: word_unat_eq_iff)
  have step: "z * x + z \<le> z * y" if "x < y" for z x y :: nat
    using that mult_le_mono2 [of "Suc x" y z] by simp
  from \<open>unat i \<noteq> unat j\<close> consider "unat i < unat j" | "unat j < unat i"
    by linarith
  then show ?thesis
  proof cases
    case 1
    then show ?thesis
      using i(2) j(2) step [OF 1, of "unat (segsize C)"] by (auto simp: seg_room_def seg_ok_def block_def)
  next
    case 2
    then show ?thesis
      using i(2) j(2) step [OF 2, of "unat (segsize C)"] by (auto simp: seg_room_def seg_ok_def block_def)
  qed
qed

lemma seg_used_room:
  assumes "segs_ok C src s" and "h \<in> headers s"
  shows "seg_used s h \<subseteq> seg_room C s h"
proof -
  obtain i where "seg_ok C i h s"
    using segs_okD(2) [OF assms] by blast
  then have "unat (seg_offset (segs s h)) \<le> unat (segsize C)"
    by (simp add: seg_ok_def word_le_nat_alt)
  then show ?thesis
    by (auto simp: seg_used_def seg_room_def block_def)
qed

lemma room_arena:
  assumes "segs_ok C src s" and "h \<in> headers s"
  shows "0 < unat (seg_data (segs s h))" and "unat (seg_data (segs s h)) + unat (segsize C) < 2 ^ 64"
proof -
  obtain i where i: "seg_ok C i h s" "i < segmaxnum C"
    using segs_okD(2) [OF assms] by blast
  have a: "arena_ok C s"
    using assms(1) by (rule segs_okD)
  then show "0 < unat (seg_data (segs s h))"
    using i by (simp add: arena_ok_def seg_ok_def word_less_nat_alt)
  have "unat (segsize C) * Suc (unat i) \<le> unat (segsize C) * unat (segmaxnum C)"
    using i(2) by (intro mult_le_mono2) (simp add: word_less_nat_alt)
  then show "unat (seg_data (segs s h)) + unat (segsize C) < 2 ^ 64"
    using a i by (simp add: arena_ok_def seg_ok_def)
qed

section \<open>Frames\<close>

lemma path_cong: "(\<And>h. h \<in> set hs \<Longrightarrow> seg_next (segs s' h) = seg_next (segs s h)) \<Longrightarrow> path s' p hs = path s p hs"
  by (induction hs arbitrary: p) auto

lemma path_null: "path s NULL hs \<longleftrightarrow> hs = []"
  by (cases hs) auto

text \<open>What no operation on segments touches.\<close>

definition same_store :: "'a segments_scheme \<Rightarrow> 'a segments_scheme \<Rightarrow> bool" where
  "same_store s s' \<longleftrightarrow> items s' = items s \<and> kbytes s' = kbytes s \<and> seg_base s' = seg_base s \<and> segments.more s' = segments.more s"

lemma same_store_refl [simp]: "same_store s s"
  by (simp add: same_store_def)

lemma same_store_trans: "same_store s t \<Longrightarrow> same_store t u \<Longrightarrow> same_store s u"
  by (simp add: same_store_def)

text \<open>A change of one segment header.\<close>

lemma headers_upd [simp]: "headers (upd_seg h f s) = headers s" "headers (upd_item p g s) = headers s"
  by (simp_all add: headers_def)

lemma segs_ok_upd:
  assumes "segs_ok C src s"
    and "\<And>g. g \<in> headers s \<Longrightarrow> seg_data (segs s' g) = seg_data (segs s g) \<and> seg_size (segs s' g) = seg_size (segs s g) \<and>
      seg_offset (segs s' g) \<le> seg_size (segs s g)"
    and "seg_base s' = seg_base s" and "seg_headers s' = seg_headers s" and "seg_alloced s' = seg_alloced s"
  shows "segs_ok C src s'"
proof -
  have "seg_ok C i (seg_headers s i) s'" if "seg_headers s i \<noteq> NULL" "seg_ok C i (seg_headers s i) s" for i
  proof -
    have "seg_headers s i \<in> headers s"
      using that(1) by (auto simp: headers_def)
    from assms(2) [OF this] show ?thesis
      using that(2) assms(3) by (simp add: seg_ok_def)
  qed
  then show ?thesis
    using assms(1) unfolding segs_ok_def assms(3-5) arena_ok_def by (simp add: assms(3))
qed

lemma unat_seg_data:
  assumes "arena_ok C s" and "i < segmaxnum C"
  shows "unat (seg_base s + segsize C * i) = unat (seg_base s) + unat (segsize C) * unat i"
proof -
  have "unat (segsize C) * unat i \<le> unat (segsize C) * unat (segmaxnum C)"
    using assms(2) by (intro mult_le_mono2) (simp add: word_less_nat_alt)
  then have b: "unat (seg_base s) + unat (segsize C) * unat i < 2 ^ 64"
    using assms(1) unfolding arena_ok_def by linarith
  then have m: "unat (segsize C * i) = unat (segsize C) * unat i"
    using unat_mult_lem [of "segsize C" i] by simp
  then show ?thesis
    using b unat_add_lem [of "seg_base s" "segsize C * i"] by (simp add: m)
qed

lemma used_cong:
  assumes "headers s' = headers s" and "\<And>g. g \<in> headers s \<Longrightarrow> seg_data (segs s' g) = seg_data (segs s g) \<and> seg_offset (segs s' g) = seg_offset (segs s g)"
  shows "used s' = used s"
  using assms by (simp add: used_def seg_used_def)

text \<open>Taking a segment: it belongs to nobody, is empty, and nothing else changes.\<close>

definition taken_segment :: "ptr \<Rightarrow> item_allocator \<Rightarrow> ptr set \<Rightarrow> ptr list \<Rightarrow> ptr list \<Rightarrow> 'a segments_scheme \<Rightarrow> 'a segments_scheme \<Rightarrow> bool" where
  "taken_segment h ia X fs L s s' \<longleftrightarrow> same_store s s' \<and> used s' = used s \<and> headers s \<subseteq> headers s' \<and> (\<forall>g. g \<noteq> h \<longrightarrow> segs s' g = segs s g) \<and>
     (h \<noteq> NULL \<longrightarrow> h \<in> headers s' \<and> h \<notin> set fs \<union> set L \<union> X \<and> h \<noteq> reserved ia \<and> seg_offset (segs s' h) = 0 \<and> \<not> inactive s' h)"

lemma take_free_segment:
  assumes "alloc_ok C src ia X (h # fs) L s"
  defines "s' \<equiv> init_segment h (s\<lparr>free_segments := seg_next (segs s h)\<rparr>)"
  shows "alloc_ok C src ia X fs L s'" and "taken_segment h ia X fs L s s'"
proof -
  note a = assms(1) [unfolded alloc_ok_def free_list_def chain_def]
  have h: "h \<in> headers s" "h \<noteq> NULL" "h \<notin> set fs" "h \<notin> set L" "h \<notin> X" "h \<noteq> reserved ia" "seg_offset (segs s h) = 0"
    using a by auto
  have hd: "headers s' = headers s"
    by (simp add: s'_def init_segment_def headers_def)
  have sg: "segs s' g = (if g = h then (segs s h)\<lparr>seg_offset := 0, seg_flags := 0, seg_freed := 0\<rparr> else segs s g)" for g
    by (simp add: s'_def init_segment_def)
  have f: "free_segments s' = seg_next (segs s h)" "seg_base s' = seg_base s" "seg_headers s' = seg_headers s" "seg_alloced s' = seg_alloced s"
    by (simp_all add: s'_def init_segment_def)
  have ok: "segs_ok C src s'"
  proof (rule segs_ok_upd [of C src s])
    show "segs_ok C src s" using a by blast
    show "seg_data (segs s' g) = seg_data (segs s g) \<and> seg_size (segs s' g) = seg_size (segs s g) \<and> seg_offset (segs s' g) \<le> seg_size (segs s g)"
      if "g \<in> headers s" for g
      using segs_okD(2) [of C src s g] a that by (auto simp: sg seg_ok_def)
  qed (simp_all add: f)
  have "path s' (seg_next (segs s h)) fs" "path s' (oldest ia) L"
    using a h by (auto simp: path_cong [of fs s' s] path_cong [of L s' s] sg)
  then show "alloc_ok C src ia X fs L s'"
    using a ok h unfolding alloc_ok_def free_list_def chain_def inactive_def hd f
    by (auto simp: sg dest: in_set_butlastD)
  have "used s' = used s"
    by (rule used_cong) (use h in \<open>simp_all add: hd sg\<close>)
  then show "taken_segment h ia X fs L s s'"
    using h by (simp add: taken_segment_def hd sg same_store_def inactive_def SF_INACTIVE_def) (simp add: s'_def init_segment_def)
qed

lemma header_fresh:
  assumes "segs_ok C src s" and "malloc_header src (seg_alloced s) \<noteq> NULL"
  shows "malloc_header src (seg_alloced s) \<notin> headers s" and "seg_headers s (seg_alloced s) = NULL"
proof -
  show n: "seg_headers s (seg_alloced s) = NULL"
    using assms(1) unfolding segs_ok_def by blast
  show "malloc_header src (seg_alloced s) \<notin> headers s"
  proof
    assume "malloc_header src (seg_alloced s) \<in> headers s"
    then obtain i where i: "seg_headers s i = malloc_header src (seg_alloced s)"
      by (auto simp: headers_def)
    then have "malloc_header src i = malloc_header src (seg_alloced s)"
      using assms unfolding segs_ok_def by metis
    moreover have "inj_on (malloc_header src) {i. malloc_header src i \<noteq> NULL}"
      using assms(1) unfolding segs_ok_def by blast
    ultimately have "i = seg_alloced s"
      using assms(2) by (auto dest: inj_onD)
    then show False
      using i n assms(2) by simp
  qed
qed

lemma take_new_segment:
  assumes "alloc_ok C src ia X fs L s" and "seg_alloced s < segmaxnum C" and "malloc_header src (seg_alloced s) = h" and "h \<noteq> NULL"
  defines "s' \<equiv> init_segment h (upd_seg h (\<lambda>x. x\<lparr>seg_size := ucast (segsize C), seg_data := seg_base s + segsize C * seg_alloced s\<rparr>)
    (s\<lparr>seg_alloced := seg_alloced s + 1, seg_headers := (seg_headers s)(seg_alloced s := h)\<rparr>))"
  shows "alloc_ok C src ia X fs L s'" and "taken_segment h ia X fs L s s'"
proof -
  note a = assms(1) [unfolded alloc_ok_def free_list_def chain_def]
  have so: "segs_ok C src s" using a by blast
  have n: "h \<notin> headers s" "seg_headers s (seg_alloced s) = NULL"
    using header_fresh [OF so] assms(3,4) by auto
  have hd: "headers s' = insert h (headers s)"
  proof (rule set_eqI)
    fix g
    have "(\<exists>i. ((seg_headers s)(seg_alloced s := h)) i = g) \<longleftrightarrow> g = h \<or> (\<exists>i. seg_headers s i = g)" if "g \<noteq> NULL"
      using n(2) that by (metis fun_upd_apply)
    moreover have "seg_headers s' = (seg_headers s)(seg_alloced s := h)"
      by (simp add: s'_def init_segment_def)
    ultimately show "g \<in> headers s' \<longleftrightarrow> g \<in> insert h (headers s)"
      using assms(4) by (cases "g = NULL") (simp_all add: headers_def)
  qed
  have sg: "g \<noteq> h \<Longrightarrow> segs s' g = segs s g" for g
    by (simp add: s'_def init_segment_def)
  have sh: "seg_data (segs s' h) = seg_base s + segsize C * seg_alloced s" "seg_size (segs s' h) = ucast (segsize C)"
    "seg_offset (segs s' h) = 0" "\<not> inactive s' h"
    by (simp_all add: s'_def init_segment_def inactive_def SF_INACTIVE_def)
  have f: "free_segments s' = free_segments s" "seg_base s' = seg_base s" "seg_headers s' = (seg_headers s)(seg_alloced s := h)"
    "seg_alloced s' = seg_alloced s + 1" "same_store s s'"
    by (simp_all add: s'_def init_segment_def same_store_def)
  have ne: "g \<in> headers s \<Longrightarrow> g \<noteq> h" for g
    using n(1) by blast
  have ar: "arena_ok C s" using segs_okD(1) [OF so] .
  have new: "seg_ok C (seg_alloced s) h s'"
    using unat_seg_data [OF ar assms(2)] ar unfolding seg_ok_def sh f(2)
    by (simp add: arena_ok_def unsigned_ucast_eq take_bit_nat_eq_self)
  have nxt: "i < seg_alloced s \<Longrightarrow> i < seg_alloced s + 1" for i
    using unat_plus_1 [OF assms(2)] by (simp add: word_less_nat_alt)
  have "i < seg_alloced s' \<and> seg_headers s' i = malloc_header src i \<and> seg_ok C i (seg_headers s' i) s'" if "seg_headers s' i \<noteq> NULL" for i
  proof (cases "i = seg_alloced s")
    case True
    then show ?thesis
      using new assms(3) unat_plus_1 [OF assms(2)] by (simp add: f word_less_nat_alt)
  next
    case False
    then have i: "seg_headers s i \<noteq> NULL" using that by (simp add: f)
    then have "seg_headers s i \<noteq> h" by (auto intro!: ne simp: headers_def)
    moreover have "i < seg_alloced s" "seg_headers s i = malloc_header src i" "seg_ok C i (seg_headers s i) s"
      using so i unfolding segs_ok_def by blast+
    ultimately show ?thesis
      using False nxt by (simp add: f seg_ok_def sg)
  qed
  moreover have "seg_alloced s' \<le> segmaxnum C"
    using unat_plus_1 [OF assms(2)] assms(2) by (simp add: f word_less_nat_alt word_le_nat_alt)
  ultimately have ok: "segs_ok C src s'"
    using so f(2) unfolding segs_ok_def arena_ok_def by simp
  have "path s' (free_segments s) fs" "path s' (oldest ia) L"
    using a ne by (auto simp: path_cong [of fs s' s] path_cong [of L s' s] sg subset_iff)
  then show "alloc_ok C src ia X fs L s'"
    using a ok ne unfolding alloc_ok_def free_list_def chain_def inactive_def hd f
    by (auto simp: sg subset_iff dest: in_set_butlastD)
  have "used s' = used s \<union> seg_used s' h"
    using ne by (auto simp: used_def hd seg_used_def sg)
  then have "used s' = used s"
    by (simp add: seg_used_def block_def sh)
  moreover have "h \<notin> set fs \<union> set L \<union> X" "h \<noteq> reserved ia"
    using a n(1) assms(4) by auto
  ultimately show "taken_segment h ia X fs L s s'"
    using f(5) sh by (auto simp: taken_segment_def hd sg)
qed

text \<open>
  Whether a segment can be had: from the free list, or a new one for which the system gives the memory.
\<close>

definition segment_available :: "settings \<Rightarrow> segment_source \<Rightarrow> ptr list \<Rightarrow> 'a segments_scheme \<Rightarrow> bool" where
  "segment_available C src fs s \<longleftrightarrow> fs \<noteq> [] \<or>
     seg_alloced s < segmaxnum C \<and> mprotect_ok src (seg_alloced s) \<and> malloc_header src (seg_alloced s) \<noteq> NULL"

lemma no_segment:
  assumes "alloc_ok C src ia X fs L s" and "seg_alloced s < segmaxnum C"
  shows "alloc_ok C src ia X fs L (s\<lparr>seg_alloced := seg_alloced s + 1\<rparr>)"
    and "taken_segment NULL ia X fs L s (s\<lparr>seg_alloced := seg_alloced s + 1\<rparr>)"
proof -
  let ?s = "s\<lparr>seg_alloced := seg_alloced s + 1\<rparr>"
  have lt: "i < seg_alloced s \<Longrightarrow> i < seg_alloced s + 1" for i
    using unat_plus_1 [OF assms(2)] by (simp add: word_less_nat_alt)
  have "segs_ok C src s" using assms(1) unfolding alloc_ok_def by blast
  moreover have "seg_alloced s + 1 \<le> segmaxnum C"
    using unat_plus_1 [OF assms(2)] assms(2) by (simp add: word_less_nat_alt word_le_nat_alt)
  ultimately have "segs_ok C src ?s"
    using lt unfolding segs_ok_def arena_ok_def seg_ok_def by auto
  moreover have "headers ?s = headers s" by (simp add: headers_def)
  moreover have "path ?s p hs = path s p hs" for p hs
    by (rule path_cong) simp
  ultimately show "alloc_ok C src ia X fs L ?s"
    using assms(1) by (simp add: alloc_ok_def free_list_def chain_def inactive_def)
  show "taken_segment NULL ia X fs L s ?s"
    using \<open>headers ?s = headers s\<close> by (simp add: taken_segment_def same_store_def used_def seg_used_def)
qed

lemma segment_alloc_spec:
  assumes "alloc_ok C src ia X fs L s"
  shows "\<exists>h s' fs'. segment_alloc C src s = (h, s') \<and> alloc_ok C src ia X fs' L s' \<and> taken_segment h ia X fs' L s s' \<and>
    (segment_available C src fs s \<longleftrightarrow> h \<noteq> NULL) \<and> set fs' \<subseteq> set fs"
proof (cases fs)
  case (Cons h gs)
  then have "free_segments s = h" "h \<noteq> NULL"
    using assms by (auto simp: alloc_ok_def free_list_def)
  then show ?thesis
    using take_free_segment [OF assms [unfolded Cons]] Cons
    by (intro exI [of _ h] exI [of _ gs] exI) (auto simp: segment_alloc_def Let_def segment_available_def)
next
  case Nil
  then have f: "free_segments s = NULL"
    using assms by (simp add: alloc_ok_def free_list_def)
  consider "segmaxnum C \<le> seg_alloced s" | "seg_alloced s < segmaxnum C" "\<not> mprotect_ok src (seg_alloced s) \<or> malloc_header src (seg_alloced s) = NULL"
    | "seg_alloced s < segmaxnum C" "mprotect_ok src (seg_alloced s)" "malloc_header src (seg_alloced s) \<noteq> NULL"
    by fastforce
  then show ?thesis
  proof cases
    case 1
    have "taken_segment NULL ia X fs L s s" by (simp add: taken_segment_def)
    with 1 show ?thesis
      using f assms Nil by (auto simp: segment_alloc_def Let_def segment_available_def not_less)
  next
    case 2
    then show ?thesis
      using f no_segment [OF assms 2(1)] Nil
      by (intro exI [of _ NULL] exI [of _ "s\<lparr>seg_alloced := seg_alloced s + 1\<rparr>"] exI [of _ fs]) (auto simp: segment_alloc_def Let_def segment_available_def not_le)
  next
    case 3
    then show ?thesis
      using f take_new_segment [OF assms 3(1) refl 3(3)] Nil
      by (intro exI [of _ "malloc_header src (seg_alloced s)"] exI [of _ fs] exI) (auto simp: segment_alloc_def Let_def segment_available_def not_le)
  qed
qed

end
