(* ===== verification/Ialloc_Alloc.thy ===== *)
theory Ialloc_Alloc
  imports Ialloc_Inv
begin

text \<open>Allocating items: the blocks handed out are fresh, disjoint and inside a segment of the allocator.\<close>

section \<open>Appending to a segment\<close>

definition appended :: "ptr \<Rightarrow> ptr \<Rightarrow> nat \<Rightarrow> 'a segments_scheme \<Rightarrow> 'a segments_scheme \<Rightarrow> bool" where
  "appended h it n s s' \<longleftrightarrow> used s' = used s \<union> block it n \<and> block it n \<inter> used s = {} \<and> (n \<ge> 24 \<or> items s' = items s) \<and>
     (\<forall>p. p \<noteq> it \<longrightarrow> items s' p = items s p) \<and> kbytes s' = kbytes s \<and> seg_base s' = seg_base s \<and> segments.more s' = segments.more s \<and>
     seg_headers s' = seg_headers s \<and> seg_alloced s' = seg_alloced s \<and> free_segments s' = free_segments s \<and>
     (\<forall>g. g \<noteq> h \<longrightarrow> segs s' g = segs s g) \<and> seg_next (segs s' h) = seg_next (segs s h) \<and> seg_flags (segs s' h) = seg_flags (segs s h) \<and>
     seg_data (segs s' h) = seg_data (segs s h)"

lemma appended_headers: "appended h it n s s' \<Longrightarrow> headers s' = headers s"
  by (simp add: appended_def headers_def)

lemma alloc_ok_appended:
  assumes "alloc_ok C src ia X fs L s" and "appended h it n s s'" and "segs_ok C src s'" and "h \<notin> set fs" and "h \<noteq> reserved ia"
  shows "alloc_ok C src ia X fs L s'"
proof -
  note a = assms(1) [unfolded alloc_ok_def free_list_def chain_def]
  note p = assms(2) [unfolded appended_def]
  have hd: "headers s' = headers s" using assms(2) by (rule appended_headers)
  have nx: "seg_next (segs s' g) = seg_next (segs s g)" "inactive s' g = inactive s g" for g
    using p by (cases "g = h"; simp add: inactive_def)+
  have "path s' q hs = path s q hs" for q hs
    by (rule path_cong) (rule nx)
  moreover have "seg_offset (segs s' g) = seg_offset (segs s g)" if "g \<in> insert (reserved ia) (set fs)" for g
    using p that assms(4,5) by (cases "g = h") auto
  moreover have "free_segments s' = free_segments s"
    using p by blast
  ultimately show ?thesis
    using a assms(3) unfolding alloc_ok_def free_list_def chain_def hd nx by simp
qed

text \<open>The part of a segment that is not in use yet.\<close>

lemma seg_rest:
  assumes "segs_ok C src s" and "h \<in> headers s"
  defines "it \<equiv> seg_data (segs s h) + ucast (seg_offset (segs s h))"
    and "avail \<equiv> (ucast (seg_size (segs s h) - seg_offset (segs s h)) :: u64)"
  shows "unat it = unat (seg_data (segs s h)) + unat (seg_offset (segs s h))"
    and "unat avail = unat (segsize C) - unat (seg_offset (segs s h))"
    and "unat (seg_offset (segs s h)) \<le> unat (segsize C)" and "it \<noteq> NULL"
    and "n \<le> unat avail \<Longrightarrow> block it n \<inter> used s = {} \<and> block it n \<subseteq> seg_room C s h"
proof -
  obtain i where i: "seg_ok C i h s"
    using segs_okD(2) [OF assms(1,2)] by blast
  then show o: "unat (seg_offset (segs s h)) \<le> unat (segsize C)"
    by (simp add: seg_ok_def word_le_nat_alt)
  show it: "unat it = unat (seg_data (segs s h)) + unat (seg_offset (segs s h))"
    using room_arena(2) [OF assms(1,2)] o unat_add_lem [of "seg_data (segs s h)" "ucast (seg_offset (segs s h))"]
    by (simp add: it_def unat_upcast)
  have "unat (seg_size (segs s h) - seg_offset (segs s h)) = unat (segsize C) - unat (seg_offset (segs s h))"
    using i by (simp add: seg_ok_def unat_sub)
  then show av: "unat avail = unat (segsize C) - unat (seg_offset (segs s h))"
    by (simp add: avail_def unat_upcast)
  show "it \<noteq> NULL"
    using it room_arena(1) [OF assms(1,2)] by (auto simp: unat_eq_0)
  assume n: "n \<le> unat avail"
  have room: "block it n \<subseteq> seg_room C s h"
    using n it av o by (auto simp: block_def seg_room_def)
  have "block it n \<inter> seg_used s g = {}" if g: "g \<in> headers s" for g
  proof (cases "g = h")
    case True
    then show ?thesis using it by (auto simp: block_def seg_used_def)
  next
    case False
    then show ?thesis
      using rooms_disjoint [OF assms(1) g assms(2)] seg_used_room [OF assms(1) g] room by blast
  qed
  then show "block it n \<inter> used s = {} \<and> block it n \<subseteq> seg_room C s h"
    using room by (auto simp: used_def)
qed

text \<open>Advancing the offset of a segment.\<close>

lemma advance_offset:
  assumes "segs_ok C src s" and "h \<in> headers s" and "n \<le> unat (segsize C) - unat (seg_offset (segs s h))"
    and sh: "seg_data (segs s' h) = seg_data (segs s h)" "seg_size (segs s' h) = seg_size (segs s h)"
      "seg_offset (segs s' h) = seg_offset (segs s h) + of_nat n"
    and others: "\<And>g. g \<noteq> h \<Longrightarrow> segs s' g = segs s g"
    and rest: "seg_base s' = seg_base s" "seg_headers s' = seg_headers s" "seg_alloced s' = seg_alloced s"
  shows "segs_ok C src s'" and "used s' = used s \<union> block (seg_data (segs s h) + ucast (seg_offset (segs s h))) n"
proof -
  obtain i where i: "seg_ok C i h s"
    using segs_okD(2) [OF assms(1,2)] by blast
  note r = seg_rest [OF assms(1,2)]
  have "unat (segsize C) < 2 ^ 32"
    using segs_okD(1) [OF assms(1)] by (simp add: arena_ok_def)
  then have "unat (of_nat n :: u32) = n" "unat (seg_offset (segs s h)) + n < 2 ^ 32"
    using assms(3) r(3) by (simp_all add: unat_of_nat take_bit_nat_eq_self)
  then have o: "unat (seg_offset (segs s' h)) = unat (seg_offset (segs s h)) + n"
    using unat_add_lem [of "seg_offset (segs s h)" "of_nat n"] by (simp add: sh)
  have le: "unat (seg_offset (segs s h)) + n \<le> unat (segsize C)"
    using assms(3) r(3) by linarith
  show "segs_ok C src s'"
  proof (rule segs_ok_upd [OF assms(1)])
    show "seg_data (segs s' g) = seg_data (segs s g) \<and> seg_size (segs s' g) = seg_size (segs s g) \<and> seg_offset (segs s' g) \<le> seg_size (segs s g)"
      if g: "g \<in> headers s" for g
    proof (cases "g = h")
      case True
      then show ?thesis
        using sh i o le by (simp add: seg_ok_def word_le_nat_alt)
    next
      case False
      then show ?thesis
        using others segs_okD(2) [OF assms(1) g] by (auto simp: seg_ok_def)
    qed
  qed (rule rest)+
  have hd: "headers s' = headers s"
    by (simp add: headers_def rest)
  have "seg_used s' h = seg_used s h \<union> block (seg_data (segs s h) + ucast (seg_offset (segs s h))) n"
    by (auto simp: seg_used_def block_def sh(1) o r(1))
  moreover have "seg_used s' g = seg_used s g" if "g \<noteq> h" for g
    using others [OF that] by (simp add: seg_used_def)
  moreover have split: "\<Union> (f ` headers s) = f h \<union> \<Union> (f ` (headers s - {h}))" for f :: "ptr \<Rightarrow> nat set"
    using assms(2) by blast
  ultimately show "used s' = used s \<union> block (seg_data (segs s h) + ucast (seg_offset (segs s h))) n"
    unfolding used_def hd by (subst (1 2) split) auto
qed

lemma segment_item_alloc_fits:
  assumes ok: "segs_ok C src s" and h: "h \<in> headers s" and t: "24 \<le> unat tot"
    and fits: "unat tot \<le> unat (segsize C) - unat (seg_offset (segs s h))"
  defines "it \<equiv> seg_data (segs s h) + ucast (seg_offset (segs s h))"
  shows "\<exists>s'. segment_item_alloc h tot s = Some (it, s') \<and> appended h it (unat tot) s s' \<and> segs_ok C src s' \<and>
    block it (unat tot) \<subseteq> seg_room C s h \<and> items s' it = (items s it)\<lparr>refcount := 1\<rparr> \<and> it \<noteq> NULL"
proof -
  let ?s = "upd_seg h (\<lambda>x. x\<lparr>seg_offset := seg_offset x + ucast tot\<rparr>) (upd_item it (\<lambda>y. y\<lparr>refcount := 1\<rparr>) s)"
  note r = seg_rest [OF ok h, folded it_def]
  let ?avail = "ucast (seg_size (segs s h) - seg_offset (segs s h)) :: u64"
  have "h \<noteq> NULL" using h by (simp add: headers_def)
  moreover have "?avail \<noteq> 0" "\<not> ?avail < tot"
    using r(2) fits t by (auto simp: unat_eq_0 [symmetric] word_less_nat_alt)
  ultimately have run: "segment_item_alloc h tot s = Some (it, ?s)"
    by (simp add: segment_item_alloc_def Let_def it_def)
  have adv: "segs_ok C src ?s" "used ?s = used s \<union> block it (unat tot)"
    unfolding it_def by (rule advance_offset [OF ok h fits]; simp)+
  have "block it (unat tot) \<inter> used s = {} \<and> block it (unat tot) \<subseteq> seg_room C s h"
    by (rule r(5)) (use fits r(2) in simp)
  then show ?thesis
    using run adv r(4) t by (intro exI [of _ ?s]) (simp add: appended_def)
qed

lemma segment_item_alloc_full:
  assumes ok: "segs_ok C src s" and h: "h \<in> headers s"
    and full: "unat (segsize C) - unat (seg_offset (segs s h)) < unat tot"
  shows "\<exists>it n s'. segment_item_alloc h tot s = Some (NULL, s') \<and> appended h it n s s' \<and> segs_ok C src s' \<and>
    seg_offset (segs s' h) = seg_size (segs s h)"
proof -
  let ?it = "seg_data (segs s h) + ucast (seg_offset (segs s h))"
  let ?avail = "ucast (seg_size (segs s h) - seg_offset (segs s h)) :: u64"
  note r = seg_rest [OF ok h]
  have n: "h \<noteq> NULL" using h by (simp add: headers_def)
  have sz: "unat (seg_size (segs s h)) = unat (segsize C)"
    using segs_okD(2) [OF ok h] by (auto simp: seg_ok_def)
  have fill: "seg_offset (segs s h) + ucast ?avail = seg_size (segs s h)"
    by simp
  show ?thesis
  proof (cases "?avail = 0")
    case True
    then have "seg_offset (segs s h) = seg_size (segs s h)"
      using fill by simp
    moreover have "segment_item_alloc h tot s = Some (NULL, s)"
      using True n by (simp add: segment_item_alloc_def Let_def)
    moreover have "appended h ?it 0 s s"
      by (simp add: appended_def block_def)
    ultimately show ?thesis
      using ok by auto
  next
    case False
    define s1 where "s1 = (if ?avail \<ge> ITEM_SIZE then upd_item ?it (\<lambda>y. y\<lparr>refcount := 0, keylen := ucast (?avail - ITEM_SIZE), vallen := 0\<rparr>) s else s)"
    let ?s = "upd_seg h (\<lambda>x. x\<lparr>seg_offset := seg_offset x + ucast ?avail\<rparr>) (upd_seg h (\<lambda>x. x\<lparr>seg_freed := seg_freed x + ucast ?avail\<rparr>) s1)"
    have "?avail < tot"
      using full r(2) by (simp add: word_less_nat_alt)
    then have run: "segment_item_alloc h tot s = Some (NULL, ?s)"
      using False n by (simp add: segment_item_alloc_def segment_item_free_def Let_def s1_def)
    have s1: "segs s1 = segs s" "seg_base s1 = seg_base s" "seg_headers s1 = seg_headers s" "seg_alloced s1 = seg_alloced s"
      "kbytes s1 = kbytes s" "segments.more s1 = segments.more s" "free_segments s1 = free_segments s"
      "\<And>p. p \<noteq> ?it \<Longrightarrow> items s1 p = items s p" "unat ?avail \<ge> 24 \<or> items s1 = items s"
      by (simp_all add: s1_def word_le_nat_alt ITEM_SIZE_def)
    have le: "unat ?avail \<le> unat (segsize C) - unat (seg_offset (segs s h))"
      using r(2) by simp
    have adv: "segs_ok C src ?s" "used ?s = used s \<union> block ?it (unat ?avail)"
      by (rule advance_offset [OF ok h le]; simp add: s1)+
    moreover have "block ?it (unat ?avail) \<inter> used s = {} \<and> block ?it (unat ?avail) \<subseteq> seg_room C s h"
      by (rule r(5)) simp
    ultimately have "appended h ?it (unat ?avail) s ?s"
      unfolding appended_def using s1 by simp
    then show ?thesis
      using run adv(1) fill by (intro exI [of _ ?it] exI [of _ "unat ?avail"] exI [of _ ?s]) (simp add: s1(1))
  qed
qed

section \<open>Allocation\<close>

lemma path_snoc:
  assumes "path s p L" and "L \<noteq> []" and "distinct L" and "h \<noteq> NULL"
    and "seg_next (segs s' (last L)) = h" and "seg_next (segs s' h) = NULL"
    and "\<And>g. g \<in> set (butlast L) \<Longrightarrow> seg_next (segs s' g) = seg_next (segs s g)"
  shows "path s' p (L @ [h])"
  using assms(1,2,3,5,7)
proof (induction L arbitrary: p)
  case (Cons g L)
  show ?case
  proof (cases "L = []")
    case True
    then show ?thesis using Cons.prems assms(4,6) by simp
  next
    case False
    then have "path s' (seg_next (segs s g)) (L @ [h])"
      using Cons.prems by (intro Cons.IH) auto
    then show ?thesis
      using Cons.prems False by simp
  qed
qed simp

text \<open>The current segment is closed and \<open>h\<close>, owned by nobody, becomes the current one.\<close>

definition open_segment :: "ptr \<Rightarrow> ptr \<Rightarrow> 'a segments_scheme \<Rightarrow> 'a segments_scheme" where
  "open_segment old h s = upd_seg old (\<lambda>x. x\<lparr>seg_flags := seg_flags x OR SF_INACTIVE\<rparr>)
     (upd_seg h (\<lambda>x. x\<lparr>seg_next := NULL\<rparr>) (upd_seg old (\<lambda>x. x\<lparr>seg_next := h\<rparr>) s))"

lemma open_segment_segs:
  assumes "old \<noteq> h"
  shows "segs (open_segment old h s) g = (if g = old then (segs s old)\<lparr>seg_next := h, seg_flags := seg_flags (segs s old) OR SF_INACTIVE\<rparr>
    else if g = h then (segs s h)\<lparr>seg_next := NULL\<rparr> else segs s g)"
  using assms by (simp add: open_segment_def)

lemma open_segment_ok:
  assumes a: "alloc_ok C src ia X fs L s" and h: "h \<in> headers s" "h \<notin> set fs \<union> set L \<union> X" "seg_offset (segs s h) = 0"
    and r: "r = NULL \<or> r = reserved ia \<and> r \<noteq> h"
  defines "s' \<equiv> open_segment (cur ia) h s"
  shows "alloc_ok C src (ia\<lparr>reserved := r, cur := h\<rparr>) X fs (L @ [h]) s'" and "used s' = used s" and "same_store s s'" and "headers s' = headers s"
    and "seg_offset (segs s' h) = 0" and "g \<notin> {cur ia, h} \<Longrightarrow> segs s' g = segs s g"
proof -
  note o = a [unfolded alloc_ok_def free_list_def chain_def]
  have "last L \<in> set L"
    using o by (intro last_in_set) blast
  then have old: "cur ia \<in> set L" "cur ia \<noteq> h" "last L = cur ia" "L \<noteq> []" "h \<noteq> NULL"
    using o h by (auto simp: headers_def)
  note sg = open_segment_segs [OF old(2), of s, folded s'_def]
  have f: "free_segments s' = free_segments s" "seg_base s' = seg_base s" "seg_headers s' = seg_headers s" "seg_alloced s' = seg_alloced s"
    by (simp_all add: s'_def open_segment_def)
  show hd: "headers s' = headers s" by (simp add: headers_def f)
  show "same_store s s'" by (simp add: s'_def open_segment_def same_store_def)
  show "used s' = used s" by (rule used_cong) (simp_all add: hd sg)
  show "seg_offset (segs s' h) = 0" using h old by (simp add: sg)
  show "g \<notin> {cur ia, h} \<Longrightarrow> segs s' g = segs s g" by (simp add: sg)
  have so: "segs_ok C src s" using o by blast
  have "segs_ok C src s'"
    by (rule segs_ok_upd [OF so]) (use segs_okD(2) [OF so] in \<open>auto simp: sg f seg_ok_def\<close>)
  moreover have "path s' (free_segments s) fs"
    using o h old by (subst path_cong [of fs s' s]) (auto simp: sg)
  moreover have nl: "g \<noteq> cur ia \<and> g \<noteq> h" if "g \<in> set (butlast L)" for g
  proof -
    have "distinct (butlast L @ [cur ia])"
      using o old(3,4) by (metis append_butlast_last_id)
    then show ?thesis
      using that h(2) in_set_butlastD [OF that] by auto
  qed
  moreover have "path s' (oldest ia) (L @ [h])"
    using o old nl by (intro path_snoc [of s]) (simp_all add: sg)
  moreover have "inactive s' g" if "g \<in> set L" for g
  proof (cases "g = cur ia")
    case True
    then show ?thesis by (simp add: inactive_def sg SF_INACTIVE_def ac_simps flip: and.assoc)
  next
    case False
    moreover have "L = butlast L @ [cur ia]"
      using old(3,4) by (metis append_butlast_last_id)
    then have "g \<in> set (butlast L)"
      using False that by (metis UnE empty_iff insert_iff list.simps(15) set_append list.set(1))
    ultimately show ?thesis
      using o nl by (auto simp: inactive_def sg)
  qed
  moreover have "seg_offset (segs s' g) = seg_offset (segs s g)" for g
    using old by (simp add: sg)
  ultimately show "alloc_ok C src (ia\<lparr>reserved := r, cur := h\<rparr>) X fs (L @ [h]) s'"
    using o h r unfolding alloc_ok_def free_list_def chain_def hd f by (auto simp: butlast_append)
qed

text \<open>
  What an allocation may change: bytes in use stay in use, and their headers and contents stay as they are;
  segments of other allocators are not touched.
\<close>

definition grows :: "ptr set \<Rightarrow> 'a segments_scheme \<Rightarrow> 'a segments_scheme \<Rightarrow> bool" where
  "grows X s s' \<longleftrightarrow> used s \<subseteq> used s' \<and> (\<forall>p. unat p \<in> used s \<longrightarrow> items s' p = items s p) \<and> kbytes s' = kbytes s \<and>
     seg_base s' = seg_base s \<and> segments.more s' = segments.more s \<and> headers s \<subseteq> headers s' \<and> (\<forall>g\<in>X. segs s' g = segs s g)"

lemma grows_trans: "grows X s t \<Longrightarrow> grows X t u \<Longrightarrow> grows X s u"
  by (auto simp: grows_def)

lemma grows_same: "same_store s s' \<Longrightarrow> used s' = used s \<Longrightarrow> headers s \<subseteq> headers s' \<Longrightarrow> (\<And>g. g \<in> X \<Longrightarrow> segs s' g = segs s g) \<Longrightarrow> grows X s s'"
  by (simp add: grows_def same_store_def)

lemma grows_appended:
  assumes "appended h it n s s'" and "h \<notin> X"
  shows "grows X s s'"
proof -
  note p = assms(1) [unfolded appended_def]
  have "items s' q = items s q" if q: "unat q \<in> used s" for q
  proof (cases "n \<ge> 24")
    case True
    then have "unat it \<in> block it n" by (simp add: block_def)
    then have "q \<noteq> it" using p q by auto
    then show ?thesis using p by blast
  next
    case False
    then show ?thesis using p by auto
  qed
  moreover have "segs s' g = segs s g" if "g \<in> X" for g
    using p that assms(2) by (cases "g = h") auto
  ultimately show ?thesis
    using p appended_headers [OF assms(1)] by (auto simp: grows_def)
qed

definition fits :: "settings \<Rightarrow> u64 \<Rightarrow> ptr \<Rightarrow> 'a segments_scheme \<Rightarrow> bool" where
  "fits C tot h s \<longleftrightarrow> unat tot \<le> unat (segsize C) - unat (seg_offset (segs s h))"

definition can_alloc :: "settings \<Rightarrow> segment_source \<Rightarrow> u64 \<Rightarrow> bool \<Rightarrow> item_allocator \<Rightarrow> ptr list \<Rightarrow> 'a segments_scheme \<Rightarrow> bool" where
  "can_alloc C src tot cleanup ia fs s \<longleftrightarrow> (reserved ia \<noteq> NULL \<or> cleanup) \<and>
     (fits C tot (cur ia) s \<or> segment_available C src fs s \<or> cleanup \<and> reserved ia \<noteq> NULL)"

lemma alloc_in_new_segment:
  assumes a: "alloc_ok C src ia X fs L s" and h: "h \<in> headers s" "h \<notin> set fs \<union> set L \<union> X" "seg_offset (segs s h) = 0"
    and r: "r = NULL \<or> r = reserved ia \<and> r \<noteq> h" and t: "24 \<le> unat tot" "tot < segsize C"
  shows "\<exists>it s'. segment_item_alloc h tot (open_segment (cur ia) h s) = Some (it, s') \<and>
    alloc_ok C src (ia\<lparr>reserved := r, cur := h\<rparr>) X fs (L @ [h]) s' \<and> grows X s s' \<and>
    it \<noteq> NULL \<and> block it (unat tot) \<inter> used s = {} \<and> block it (unat tot) \<subseteq> used s' \<and> refcount (items s' it) = 1"
proof -
  let ?t = "open_segment (cur ia) h s"
  note o = open_segment_ok [OF a h r]
  have ok: "segs_ok C src ?t"
    using o(1) by (simp add: alloc_ok_def)
  have ht: "h \<in> headers ?t"
    using h o(4) by simp
  have f: "unat tot \<le> unat (segsize C) - unat (seg_offset (segs ?t h))"
    using t(2) by (simp add: o(5) word_less_nat_alt)
  let ?it = "seg_data (segs ?t h) + ucast (seg_offset (segs ?t h))"
  obtain s' where s': "segment_item_alloc h tot ?t = Some (?it, s')" "appended h ?it (unat tot) ?t s'" "segs_ok C src s'"
    "items s' ?it = (items ?t ?it)\<lparr>refcount := 1\<rparr>" "?it \<noteq> NULL"
    using segment_item_alloc_fits [OF ok ht t(1) f] by blast
  have "h \<noteq> r"
    using r h by (auto simp: headers_def)
  then have "alloc_ok C src (ia\<lparr>reserved := r, cur := h\<rparr>) X fs (L @ [h]) s'"
    using h by (intro alloc_ok_appended [OF o(1) s'(2,3)]) auto
  moreover have "cur ia \<notin> X"
    using a last_in_set [of L] by (auto simp: alloc_ok_def chain_def)
  then have "grows X s ?t"
    using h by (intro grows_same o(2,3) o(6)) (auto simp: o(4))
  then have "grows X s s'"
    using grows_appended [OF s'(2)] h by (auto intro: grows_trans)
  moreover have "block ?it (unat tot) \<inter> used s = {}" "block ?it (unat tot) \<subseteq> used s'"
    using s'(2) o(2) by (auto simp: appended_def)
  ultimately show ?thesis
    using s' by auto
qed

lemma ialloc_alloc_spec:
  assumes a: "alloc_ok C src ia X fs L s" and t: "24 \<le> unat tot" "tot < segsize C"
  shows "\<exists>it ia' s' fs' L'. ialloc_alloc C src tot cleanup ia s = Some (it, ia', s') \<and> alloc_ok C src ia' X fs' L' s' \<and> grows X s s' \<and>
    (it \<noteq> NULL \<longleftrightarrow> can_alloc C src tot cleanup ia fs s) \<and>
    (it \<noteq> NULL \<longrightarrow> block it (unat tot) \<inter> used s = {} \<and> block it (unat tot) \<subseteq> used s' \<and> refcount (items s' it) = 1) \<and>
    (\<exists>r c. ia' = ia\<lparr>reserved := r, cur := c\<rparr> \<and> (cleanup \<or> r = reserved ia))"
proof (cases "reserved ia = NULL \<and> \<not> cleanup")
  case True
  then have "ialloc_alloc C src tot cleanup ia s = Some (NULL, ia, s)" "\<not> can_alloc C src tot cleanup ia fs s"
    using t by (simp_all add: ialloc_alloc_def can_alloc_def)
  moreover have "ia = ia\<lparr>reserved := reserved ia, cur := cur ia\<rparr>" "grows X s s" by (simp_all add: grows_def)
  ultimately show ?thesis
    using a by blast
next
  case False
  have ok: "segs_ok C src s" and cur: "cur ia \<in> set L" "cur ia \<in> headers s" "cur ia \<notin> set fs" "cur ia \<noteq> reserved ia" "cur ia \<notin> X"
    using a last_in_set [of L] by (auto simp: alloc_ok_def chain_def headers_def)
  show ?thesis
  proof (cases "fits C tot (cur ia) s")
    case True
    let ?it = "seg_data (segs s (cur ia)) + ucast (seg_offset (segs s (cur ia)))"
    obtain s' where s': "segment_item_alloc (cur ia) tot s = Some (?it, s')" "appended (cur ia) ?it (unat tot) s s'" "segs_ok C src s'"
      "items s' ?it = (items s ?it)\<lparr>refcount := 1\<rparr>" "?it \<noteq> NULL"
      using segment_item_alloc_fits [OF ok cur(2) t(1) True [unfolded fits_def]] by blast
    have "alloc_ok C src ia X fs L s'" "grows X s s'"
      using alloc_ok_appended [OF a s'(2,3) cur(3,4)] grows_appended [OF s'(2) cur(5)] by auto
    moreover have "ialloc_alloc C src tot cleanup ia s = Some (?it, ia, s')"
      using False t s'(1,5) by (auto simp: ialloc_alloc_def Let_def)
    moreover have "ia = ia\<lparr>reserved := reserved ia, cur := cur ia\<rparr>" by simp
    moreover have "can_alloc C src tot cleanup ia fs s"
      using True False by (simp add: can_alloc_def)
    moreover have "block ?it (unat tot) \<inter> used s = {}" "block ?it (unat tot) \<subseteq> used s'" "refcount (items s' ?it) = 1"
      using s'(2,4) by (auto simp: appended_def)
    ultimately show ?thesis
      using s'(5) by blast
  next
    case nofit: False
    obtain it0 n s1 where s1: "segment_item_alloc (cur ia) tot s = Some (NULL, s1)" "appended (cur ia) it0 n s s1" "segs_ok C src s1"
      using segment_item_alloc_full [OF ok cur(2) nofit [unfolded fits_def not_le]] by blast
    have a1: "alloc_ok C src ia X fs L s1" and g1: "grows X s s1"
      using alloc_ok_appended [OF a s1(2,3) cur(3,4)] grows_appended [OF s1(2) cur(5)] by auto
    have av: "segment_available C src fs s1 = segment_available C src fs s"
      using s1(2) by (simp add: segment_available_def appended_def)
    obtain h s2 fs' where s2: "segment_alloc C src s1 = (h, s2)" "alloc_ok C src ia X fs' L s2" "taken_segment h ia X fs' L s1 s2"
      "segment_available C src fs s \<longleftrightarrow> h \<noteq> NULL"
      using segment_alloc_spec [OF a1] av by blast
    note tk = s2(3) [unfolded taken_segment_def]
    have "h \<notin> X"
      using tk a by (auto simp: alloc_ok_def headers_def)
    then have "segs s2 g = segs s1 g" if "g \<in> X" for g
      using tk that by metis
    then have "grows X s1 s2"
      using tk by (intro grows_same) auto
    with g1 have g2: "grows X s s2" by (rule grows_trans)
    then have u2: "used s \<subseteq> used s2" by (simp add: grows_def)
    consider "h \<noteq> NULL" | "h = NULL" "cleanup" "reserved ia \<noteq> NULL" | "h = NULL" "\<not> (cleanup \<and> reserved ia \<noteq> NULL)"
      by blast
    then show ?thesis
    proof cases
      case 1
      obtain it s' where s': "segment_item_alloc h tot (open_segment (cur ia) h s2) = Some (it, s')"
        "alloc_ok C src (ia\<lparr>reserved := reserved ia, cur := h\<rparr>) X fs' (L @ [h]) s'" "grows X s2 s'" "it \<noteq> NULL"
        "block it (unat tot) \<inter> used s2 = {}" "block it (unat tot) \<subseteq> used s'" "refcount (items s' it) = 1"
        using alloc_in_new_segment [OF s2(2) _ _ _ _ t, of h "reserved ia"] tk 1 by auto
      have "ialloc_alloc C src tot cleanup ia s = Some (it, ia\<lparr>reserved := reserved ia, cur := h\<rparr>, s')"
        using False t(2) s1(1) s2(1) 1 s'(1) by (auto simp: ialloc_alloc_def open_segment_def Let_def)
      moreover have "can_alloc C src tot cleanup ia fs s"
        using False 1 s2(4) by (simp add: can_alloc_def)
      ultimately show ?thesis
        using s' u2 grows_trans [OF g2 s'(3)] by blast
    next
      case 2
      have r: "reserved ia \<in> headers s2" "reserved ia \<notin> set fs' \<union> set L \<union> X" "seg_offset (segs s2 (reserved ia)) = 0"
        using s2(2) 2 by (auto simp: alloc_ok_def chain_def)
      obtain it s' where s': "segment_item_alloc (reserved ia) tot (open_segment (cur ia) (reserved ia) s2) = Some (it, s')"
        "alloc_ok C src (ia\<lparr>reserved := NULL, cur := reserved ia\<rparr>) X fs' (L @ [reserved ia]) s'" "grows X s2 s'" "it \<noteq> NULL"
        "block it (unat tot) \<inter> used s2 = {}" "block it (unat tot) \<subseteq> used s'" "refcount (items s' it) = 1"
        using alloc_in_new_segment [OF s2(2) r _ t, of NULL] by blast
      have "ialloc_alloc C src tot cleanup ia s = Some (it, ia\<lparr>reserved := NULL, cur := reserved ia\<rparr>, s')"
        using False t(2) s1(1) s2(1) 2 s'(1) by (auto simp: ialloc_alloc_def open_segment_def Let_def)
      moreover have "can_alloc C src tot cleanup ia fs s"
        using 2 by (simp add: can_alloc_def)
      moreover have "block it (unat tot) \<inter> used s = {}"
        using s'(5) u2 by blast
      ultimately show ?thesis
        using s'(2,4,6,7) 2(2) grows_trans [OF g2 s'(3)] by blast
    next
      case 3
      have "ialloc_alloc C src tot cleanup ia s = Some (NULL, ia, s2)"
        using False t(2) s1(1) s2(1) 3 by (auto simp: ialloc_alloc_def Let_def)
      moreover have "\<not> can_alloc C src tot cleanup ia fs s"
        using 3 nofit s2(4) by (auto simp: can_alloc_def)
      moreover have "ia = ia\<lparr>reserved := reserved ia, cur := cur ia\<rparr>" by simp
      ultimately show ?thesis
        using s2(2) g2 by blast
    qed
  qed
qed

end
