(* ===== verification/Hashtable.thy ===== *)
theory Hashtable
  imports Ialloc_Alloc
begin

text \<open>
  \<^verbatim>\<open>apps/flexkvs/server/hashtable.c\<close>: the index of the key-value store. A bucket holds five items
  directly, with their hashes beside them; further items hang off the last slot in a list through
  \<^verbatim>\<open>next\<close>. Each operation holds the lock of its bucket, so that operations on a bucket are atomic.
\<close>

section \<open>Data\<close>

definition BUCKET_NITEMS :: nat where [c_consts]: "BUCKET_NITEMS = 5"

record hash_bucket =
  slots :: "nat \<Rightarrow> ptr"
  hashes :: "nat \<Rightarrow> u32"

record kvs = segments +
  nbuckets :: u64
  buckets :: "u64 \<Rightarrow> hash_bucket"

abbreviation upd_bucket :: "u64 \<Rightarrow> (hash_bucket \<Rightarrow> hash_bucket) \<Rightarrow> 'a kvs_scheme \<Rightarrow> 'a kvs_scheme" where
  "upd_bucket b f s \<equiv> s\<lparr>buckets := (buckets s)(b := f (buckets s b))\<rparr>"

text \<open>
  \<^verbatim>\<open>round(log2(n))\<close>: the logarithm is rounded up from the middle \<open>2 ^ (k + 1/2)\<close> of
  two powers on. (The middle is irrational, and the double is exact enough to decide the comparison for every
  table that fits into memory.) The logarithm of 0 is minus infinity, whose conversion to an unsigned integer is undefined: no result.
\<close>

definition round_log2 :: "nat \<Rightarrow> nat option" where
  "round_log2 n = (if n = 0 then None else let k = floorlog 2 n - 1 in Some (if n * n \<ge> 2 ^ (2 * k + 1) then k + 1 else k))"

definition empty_table :: "nat \<Rightarrow> 'a kvs_scheme \<Rightarrow> 'a kvs_scheme" where
  "empty_table k s = s\<lparr>nbuckets := push_bit k 1, buckets := (\<lambda>_. \<lparr>slots = (\<lambda>_. NULL), hashes = (\<lambda>_. 0)\<rparr>)\<rparr>"

definition hasht_init :: "u64 \<Rightarrow> 'a kvs_scheme \<Rightarrow> 'a kvs_scheme option" where
  "hasht_init tablesize s = do {
     k \<leftarrow> round_log2 (unat (tablesize div 64));
     Some (empty_table k s)
   }"

section \<open>Operations\<close>

definition item_key_matches :: "'a segments_scheme \<Rightarrow> ptr \<Rightarrow> u64 \<Rightarrow> u64 \<Rightarrow> bool" where
  "item_key_matches s it key klen \<longleftrightarrow>
     klen = ucast (keylen (items s it)) \<and> region (kbytes s) (item_key it) (unat klen) = region (kbytes s) key (unat klen)"

definition item_hkey_matches :: "'a segments_scheme \<Rightarrow> ptr \<Rightarrow> u64 \<Rightarrow> u64 \<Rightarrow> u32 \<Rightarrow> bool" where
  "item_hkey_matches s it key klen h \<longleftrightarrow> hv (items s it) = h \<and> item_key_matches s it key klen"

text \<open>The loops along the list of a bucket: the item found, or null, and the item before it.\<close>

partial_function (option) chain_find :: "'a segments_scheme \<Rightarrow> ptr \<Rightarrow> ptr \<Rightarrow> u64 \<Rightarrow> u64 \<Rightarrow> u32 \<Rightarrow> (ptr \<times> ptr) option" where
  "chain_find s prev it key klen h =
     (if it \<noteq> NULL \<and> \<not> item_hkey_matches s it key klen h then chain_find s it (next_item (items s it)) key klen h
      else Some (prev, it))"

definition slot_matches :: "'a kvs_scheme \<Rightarrow> u64 \<Rightarrow> u64 \<Rightarrow> u64 \<Rightarrow> u32 \<Rightarrow> nat \<Rightarrow> bool" where
  "slot_matches s b key klen h i \<longleftrightarrow>
     slots (buckets s b) i \<noteq> NULL \<and> hashes (buckets s b) i = h \<and> item_key_matches s (slots (buckets s b) i) key klen"

definition hasht_get :: "u64 \<Rightarrow> u64 \<Rightarrow> u32 \<Rightarrow> 'a kvs_scheme \<Rightarrow> (ptr \<times> 'a kvs_scheme) option" where
  "hasht_get key klen h s = do {
     assert (nbuckets s \<noteq> 0);
     let b = ucast h mod nbuckets s;
     it \<leftarrow> (case find (slot_matches s b key klen h) [0..<BUCKET_NITEMS] of
         Some i \<Rightarrow> Some (slots (buckets s b) i)
       | None \<Rightarrow>
           let it = slots (buckets s b) (BUCKET_NITEMS - 1) in
           if it \<noteq> NULL then map_option snd (chain_find s it (next_item (items s it)) key klen h) else Some it);
     Some (it, if it \<noteq> NULL then item_ref it s else s)
   }"

text \<open>The first loop of \<^verbatim>\<open>hasht_put\<close>: a slot with the key, or the last free slot, if any.\<close>

fun put_scan :: "'a kvs_scheme \<Rightarrow> u64 \<Rightarrow> u64 \<Rightarrow> u64 \<Rightarrow> u32 \<Rightarrow> nat list \<Rightarrow> nat option \<Rightarrow> nat + nat option" where
  "put_scan s b key klen h [] di = Inr di"
| "put_scan s b key klen h (i # is) di =
     (if slots (buckets s b) i = NULL then put_scan s b key klen h is (Some i)
      else if hashes (buckets s b) i = h \<and> item_key_matches s (slots (buckets s b) i) key klen then Inl i
      else put_scan s b key klen h is di)"

definition hasht_put :: "settings \<Rightarrow> ptr \<Rightarrow> ptr \<Rightarrow> 'a kvs_scheme \<Rightarrow> 'a kvs_scheme option" where
  "hasht_put C nit cas s = do {
     let h = hv (items s nit);
     let key = item_key nit;
     let klen = ucast (keylen (items s nit));
     assert (nbuckets s \<noteq> 0);
     let b = ucast h mod nbuckets s;
     (case put_scan s b key klen h [0..<BUCKET_NITEMS] None of
        Inl i \<Rightarrow>
          let it = slots (buckets s b) i in
          if cas \<noteq> NULL \<and> cas \<noteq> it then Some s
          else do {
            assert (nit \<noteq> it);
            let s = item_ref nit s;
            let s = upd_item nit (\<lambda>x. x\<lparr>next_item := next_item (items s it)\<rparr>) s;
            let s = upd_bucket b (\<lambda>x. x\<lparr>slots := (slots x)(i := nit)\<rparr>) s;
            item_unref C it s
          }
      | Inr di \<Rightarrow>
          if cas \<noteq> NULL then Some s
          else do {
            let s = item_ref nit s;
            let it = slots (buckets s b) (BUCKET_NITEMS - 1);
            (prev, it) \<leftarrow> (if it \<noteq> NULL then chain_find s it (next_item (items s it)) key klen h else Some (NULL, NULL));
            if it \<noteq> NULL then do {
              let s = upd_item nit (\<lambda>x. x\<lparr>next_item := next_item (items s it)\<rparr>) s;
              let s = upd_item prev (\<lambda>x. x\<lparr>next_item := nit\<rparr>) s;
              item_unref C it s
            } else do {
              let i = (case di of Some i \<Rightarrow> i | None \<Rightarrow> BUCKET_NITEMS - 1);
              let s = upd_item nit (\<lambda>x. x\<lparr>next_item := slots (buckets s b) i\<rparr>) s;
              Some (upd_bucket b (\<lambda>x. x\<lparr>hashes := (hashes x)(i := h), slots := (slots x)(i := nit)\<rparr>) s)
            }
          })
   }"

end
