(* ===== verification/Hashtable_Map.thy ===== *)
theory Hashtable_Map
  imports Hashtable
begin

text \<open>
  The hash table is a map from keys, with their hashes, to items.
\<close>

section \<open>Representation\<close>

type_synonym key = "u32 \<times> u8 list"

definition ikey :: "'a segments_scheme \<Rightarrow> ptr \<Rightarrow> key" where
  "ikey s it = (hv (items s it), region (kbytes s) (item_key it) (unat (keylen (items s it))))"

fun ipath :: "'a segments_scheme \<Rightarrow> ptr \<Rightarrow> ptr list \<Rightarrow> bool" where
  "ipath s p [] \<longleftrightarrow> p = NULL"
| "ipath s p (x # xs) \<longleftrightarrow> p = x \<and> x \<noteq> NULL \<and> ipath s (next_item (items s x)) xs"

text \<open>A bucket, with the list \<open>xs\<close> behind its last slot.\<close>

definition bucket_ok :: "'a kvs_scheme \<Rightarrow> u64 \<Rightarrow> ptr list \<Rightarrow> bool" where
  "bucket_ok s b xs \<longleftrightarrow>
     (if slots (buckets s b) 4 = NULL then xs = [] else ipath s (next_item (items s (slots (buckets s b) 4))) xs) \<and> distinct xs \<and>
     (\<forall>i<5. slots (buckets s b) i \<noteq> NULL \<longrightarrow>
        hashes (buckets s b) i = hv (items s (slots (buckets s b) i)) \<and> slots (buckets s b) i \<notin> set xs \<and>
        (\<forall>j<5. slots (buckets s b) j = slots (buckets s b) i \<longrightarrow> j = i))"

definition members :: "'a kvs_scheme \<Rightarrow> u64 \<Rightarrow> ptr list \<Rightarrow> ptr set" where
  "members s b xs = {slots (buckets s b) i | i. i < 5 \<and> slots (buckets s b) i \<noteq> NULL} \<union> set xs"

definition entries :: "'a kvs_scheme \<Rightarrow> (u64 \<Rightarrow> ptr list) \<Rightarrow> ptr set" where
  "entries s ov = (\<Union>b\<in>{..<nbuckets s}. members s b (ov b))"

text \<open>The item lies in a segment, so that freeing it finds the segment's header.\<close>

definition item_home :: "settings \<Rightarrow> 'a segments_scheme \<Rightarrow> ptr \<Rightarrow> bool" where
  "item_home C s it \<longleftrightarrow> segsize C \<noteq> 0 \<and> (it - seg_base s) div segsize C < segmaxnum C \<and>
     seg_headers s ((it - seg_base s) div segsize C) \<noteq> NULL"

definition bucket_of :: "'a kvs_scheme \<Rightarrow> u32 \<Rightarrow> u64" where
  "bucket_of s h = ucast h mod nbuckets s"

definition entry_ok :: "settings \<Rightarrow> 'a kvs_scheme \<Rightarrow> u64 \<Rightarrow> ptr \<Rightarrow> bool" where
  "entry_ok C s b it \<longleftrightarrow> bucket_of s (hv (items s it)) = b \<and> refcount (items s it) \<noteq> 0 \<and> item_home C s it"

definition table_ok :: "settings \<Rightarrow> (u64 \<Rightarrow> ptr list) \<Rightarrow> 'a kvs_scheme \<Rightarrow> bool" where
  "table_ok C ov s \<longleftrightarrow> nbuckets s \<noteq> 0 \<and>
     (\<forall>b<nbuckets s. bucket_ok s b (ov b) \<and> (\<forall>it\<in>members s b (ov b). entry_ok C s b it)) \<and> inj_on (ikey s) (entries s ov)"

text \<open>The map a table stands for.\<close>

definition table_map :: "settings \<Rightarrow> (key \<rightharpoonup> ptr) \<Rightarrow> 'a kvs_scheme \<Rightarrow> bool" where
  "table_map C M s \<longleftrightarrow> (\<exists>ov. table_ok C ov s \<and> (\<forall>k it. M k = Some it \<longleftrightarrow> it \<in> entries s ov \<and> ikey s it = k))"

section \<open>Lookup\<close>

lemma bucket_of_less: "nbuckets s \<noteq> 0 \<Longrightarrow> bucket_of s h < nbuckets s"
  by (simp add: bucket_of_def word_mod_less_divisor word_gt_0)

lemma key_matches_iff:
  "item_key_matches s it key klen \<longleftrightarrow>
     region (kbytes s) (item_key it) (unat (keylen (items s it))) = region (kbytes s) key (unat klen)"
proof
  assume "item_key_matches s it key klen"
  then show "region (kbytes s) (item_key it) (unat (keylen (items s it))) = region (kbytes s) key (unat klen)"
    by (auto simp: item_key_matches_def unat_upcast)
next
  assume r: "region (kbytes s) (item_key it) (unat (keylen (items s it))) = region (kbytes s) key (unat klen)"
  then have "unat klen = unat (keylen (items s it))"
    by (metis region_simps(1))
  then have "klen = ucast (keylen (items s it))"
    by (intro word_unat_eq_iff [THEN iffD2]) (simp add: unat_upcast)
  then show "item_key_matches s it key klen"
    using r by (simp add: item_key_matches_def unat_upcast)
qed

lemma hkey_matches_iff: "item_hkey_matches s it key klen h \<longleftrightarrow> ikey s it = (h, region (kbytes s) key (unat klen))"
  by (simp add: item_hkey_matches_def key_matches_iff ikey_def)

lemma slot_matches_iff:
  assumes "bucket_ok s b xs" and "i < 5"
  shows "slot_matches s b key klen h i \<longleftrightarrow> slots (buckets s b) i \<noteq> NULL \<and> ikey s (slots (buckets s b) i) = (h, region (kbytes s) key (unat klen))"
  using assms by (auto simp: slot_matches_def bucket_ok_def key_matches_iff ikey_def)

text \<open>The walk along a list ends, at the first item with the key or at its end.\<close>

lemma chain_find_hit:
  assumes "ipath s p (ys @ x # zs)" and "\<And>y. y \<in> set ys \<Longrightarrow> ikey s y \<noteq> (h, region (kbytes s) key (unat klen))"
    and "ikey s x = (h, region (kbytes s) key (unat klen))"
  shows "chain_find s prev p key klen h = Some (last_or prev ys, x)"
  using assms(1,2)
proof (induction ys arbitrary: p prev)
  case Nil
  then show ?case
    using assms(3) by (simp add: chain_find.simps hkey_matches_iff)
next
  case (Cons y ys)
  then have p: "p = y" "y \<noteq> NULL" "ipath s (next_item (items s y)) (ys @ x # zs)" "ikey s y \<noteq> (h, region (kbytes s) key (unat klen))"
    by simp_all
  have "chain_find s prev p key klen h = chain_find s y (next_item (items s y)) key klen h"
    using p by (subst chain_find.simps) (simp add: hkey_matches_iff)
  also have "\<dots> = Some (last_or y ys, x)"
    using Cons p(3) by (intro Cons.IH) auto
  finally show ?case by (simp add: last_or_Cons)
qed

lemma chain_find_miss:
  assumes "ipath s p ys" and "\<And>y. y \<in> set ys \<Longrightarrow> ikey s y \<noteq> (h, region (kbytes s) key (unat klen))"
  shows "chain_find s prev p key klen h = Some (last_or prev ys, NULL)"
  using assms
proof (induction ys arbitrary: p prev)
  case Nil
  then show ?case by (simp add: chain_find.simps)
next
  case (Cons y ys)
  then have p: "p = y" "y \<noteq> NULL" "ipath s (next_item (items s y)) ys" "ikey s y \<noteq> (h, region (kbytes s) key (unat klen))"
    by simp_all
  have "chain_find s prev p key klen h = chain_find s y (next_item (items s y)) key klen h"
    using p by (subst chain_find.simps) (simp add: hkey_matches_iff)
  also have "\<dots> = Some (last_or y ys, NULL)"
    using Cons p(3) by (intro Cons.IH) auto
  finally show ?case by (simp add: last_or_Cons)
qed

lemma table_okD:
  assumes "table_ok C ov s" and "b < nbuckets s"
  shows "bucket_ok s b (ov b)" and "it \<in> members s b (ov b) \<Longrightarrow> entry_ok C s b it" and "members s b (ov b) \<subseteq> entries s ov"
  using assms by (auto simp: table_ok_def entries_def)

lemma entry_member:
  assumes "table_ok C ov s" and "it \<in> entries s ov"
  shows "it \<in> members s (bucket_of s (hv (items s it))) (ov (bucket_of s (hv (items s it))))" and "it \<noteq> NULL"
proof -
  obtain b where b: "b < nbuckets s" "it \<in> members s b (ov b)"
    using assms(2) by (auto simp: entries_def)
  then have "bucket_of s (hv (items s it)) = b"
    using table_okD(2) [OF assms(1)] by (simp add: entry_ok_def)
  with b show "it \<in> members s (bucket_of s (hv (items s it))) (ov (bucket_of s (hv (items s it))))"
    by simp
  have "x \<noteq> NULL" if "ipath s p xs" "x \<in> set xs" for x p xs
    using that by (induction xs arbitrary: p) auto
  then show "it \<noteq> NULL"
    using b(2) table_okD(1) [OF assms(1) b(1)] by (auto simp: members_def bucket_ok_def split: if_splits)
qed

lemma find_slot:
  assumes "table_ok C ov s" and "b < nbuckets s"
  shows "find (slot_matches s b key klen h) [0..<BUCKET_NITEMS] = Some i \<Longrightarrow>
      i < 5 \<and> slots (buckets s b) i \<in> entries s ov \<and> ikey s (slots (buckets s b) i) = (h, region (kbytes s) key (unat klen))"
    and "find (slot_matches s b key klen h) [0..<BUCKET_NITEMS] = None \<Longrightarrow> j < 5 \<Longrightarrow> slots (buckets s b) j \<noteq> NULL \<Longrightarrow>
      ikey s (slots (buckets s b) j) \<noteq> (h, region (kbytes s) key (unat klen))"
proof -
  note m = slot_matches_iff [OF table_okD(1) [OF assms], of _ key klen h]
  have e: "slots (buckets s b) j \<in> entries s ov" if "j < 5" "slots (buckets s b) j \<noteq> NULL" for j
    using table_okD(3) [OF assms] that by (auto simp: members_def)
  show "i < 5 \<and> slots (buckets s b) i \<in> entries s ov \<and> ikey s (slots (buckets s b) i) = (h, region (kbytes s) key (unat klen))"
    if "find (slot_matches s b key klen h) [0..<BUCKET_NITEMS] = Some i"
    using that m e by (fastforce simp: find_Some_iff BUCKET_NITEMS_def)
  show "ikey s (slots (buckets s b) j) \<noteq> (h, region (kbytes s) key (unat klen))"
    if "find (slot_matches s b key klen h) [0..<BUCKET_NITEMS] = None" "j < 5" "slots (buckets s b) j \<noteq> NULL"
    using that m by (auto simp: find_None_iff BUCKET_NITEMS_def)
qed

text \<open>The list of a bucket, searched for a key that no direct slot has.\<close>

lemma chain_search:
  assumes "table_ok C ov s" and "b < nbuckets s" and "slots (buckets s b) 4 \<noteq> NULL"
  shows "ov b = ys @ x # zs \<Longrightarrow> ikey s x = (h, region (kbytes s) key (unat klen)) \<Longrightarrow>
      chain_find s prev (next_item (items s (slots (buckets s b) 4))) key klen h = Some (last_or prev ys, x)"
    and "\<forall>x\<in>set (ov b). ikey s x \<noteq> (h, region (kbytes s) key (unat klen)) \<Longrightarrow>
      chain_find s prev (next_item (items s (slots (buckets s b) 4))) key klen h = Some (last_or prev (ov b), NULL)"
proof -
  note ok = table_okD [OF assms(1,2)]
  have p: "ipath s (next_item (items s (slots (buckets s b) 4))) (ov b)" "distinct (ov b)"
    using ok(1) assms(3) by (auto simp: bucket_ok_def)
  show "chain_find s prev (next_item (items s (slots (buckets s b) 4))) key klen h = Some (last_or prev ys, x)"
    if xs: "ov b = ys @ x # zs" and x: "ikey s x = (h, region (kbytes s) key (unat klen))"
  proof (rule chain_find_hit)
    show "ipath s (next_item (items s (slots (buckets s b) 4))) (ys @ x # zs)"
      using p xs by simp
    have e: "set (ov b) \<subseteq> entries s ov"
      using ok(3) by (auto simp: members_def)
    show "ikey s y \<noteq> (h, region (kbytes s) key (unat klen))" if "y \<in> set ys" for y
    proof
      assume "ikey s y = (h, region (kbytes s) key (unat klen))"
      then have "ikey s y = ikey s x" using x by simp
      moreover have "inj_on (ikey s) (entries s ov)" using assms(1) by (simp add: table_ok_def)
      ultimately have "y = x"
        using e xs that by (auto dest: inj_onD)
      then show False using p(2) xs that by auto
    qed
  qed (use x in simp)
  show "chain_find s prev (next_item (items s (slots (buckets s b) 4))) key klen h = Some (last_or prev (ov b), NULL)"
    if "\<forall>x\<in>set (ov b). ikey s x \<noteq> (h, region (kbytes s) key (unat klen))"
    by (rule chain_find_miss) (use p that in \<open>auto\<close>)
qed

lemma hasht_get_hit:
  assumes t: "table_ok C ov s" and it: "it \<in> entries s ov" "ikey s it = (h, region (kbytes s) key (unat klen))"
  shows "hasht_get key klen h s = Some (it, item_ref it s)"
proof -
  let ?b = "bucket_of s h"
  have n: "nbuckets s \<noteq> 0" using t by (simp add: table_ok_def)
  note b = bucket_of_less [OF n, of h]
  note ok = table_okD [OF t b]
  have inj: "x = it" if "x \<in> entries s ov" "ikey s x = ikey s it" for x
    using t it(1) that by (auto simp: table_ok_def dest: inj_onD)
  have m: "it \<in> members s ?b (ov ?b)" and nn: "it \<noteq> NULL"
    using entry_member [OF t it(1)] it(2) by (auto simp: ikey_def)
  show ?thesis
  proof (cases "find (slot_matches s ?b key klen h) [0..<BUCKET_NITEMS]")
    case (Some i)
    then have "slots (buckets s ?b) i = it"
      using find_slot(1) [OF t b Some] it(2) inj by auto
    then show ?thesis
      using Some n nn by (simp add: hasht_get_def bucket_of_def Let_def)
  next
    case None
    have "it \<in> set (ov ?b)"
      using m find_slot(2) [OF t b None] it(2) by (auto simp: members_def)
    then obtain ys zs where xs: "ov ?b = ys @ it # zs"
      by (auto dest: split_list)
    then have s4: "slots (buckets s ?b) 4 \<noteq> NULL"
      using ok(1) by (auto simp: bucket_ok_def)
    then show ?thesis
      using None n nn chain_search(1) [OF t b s4 xs it(2), of "slots (buckets s ?b) 4"]
      by (simp add: hasht_get_def bucket_of_def Let_def BUCKET_NITEMS_def)
  qed
qed

lemma hasht_get_miss:
  assumes t: "table_ok C ov s" and none: "\<And>it. it \<in> entries s ov \<Longrightarrow> ikey s it \<noteq> (h, region (kbytes s) key (unat klen))"
  shows "hasht_get key klen h s = Some (NULL, s)"
proof -
  let ?b = "bucket_of s h"
  have n: "nbuckets s \<noteq> 0" using t by (simp add: table_ok_def)
  note b = bucket_of_less [OF n, of h]
  have f: "find (slot_matches s ?b key klen h) [0..<BUCKET_NITEMS] = None"
    using find_slot(1) [OF t b] none by (metis option.exhaust)
  have "\<forall>x\<in>set (ov ?b). ikey s x \<noteq> (h, region (kbytes s) key (unat klen))"
    using none table_okD(3) [OF t b] by (auto simp: members_def)
  then show ?thesis
    using f n chain_search(2) [OF t b, where prev = "slots (buckets s ?b) 4"]
    by (simp add: hasht_get_def bucket_of_def Let_def BUCKET_NITEMS_def)
qed

section \<open>Changing one bucket\<close>

lemma ipath_cong: "(\<And>x. x \<in> set xs \<Longrightarrow> next_item (items s' x) = next_item (items s x)) \<Longrightarrow> ipath s' p xs = ipath s p xs"
  by (induction xs arbitrary: p) auto

lemma members_disjoint:
  assumes "table_ok C ov s" and "b < nbuckets s" and "c < nbuckets s" and "b \<noteq> c"
  shows "members s b (ov b) \<inter> members s c (ov c) = {}"
  using assms table_okD(2) [OF assms(1,2)] table_okD(2) [OF assms(1,3)] by (auto simp: entry_ok_def)

lemma bucket_ok_cong:
  assumes "bucket_ok s c xs" and "buckets s' c = buckets s c"
    and "\<And>p. p \<in> members s c xs \<Longrightarrow> next_item (items s' p) = next_item (items s p) \<and> hv (items s' p) = hv (items s p)"
  shows "bucket_ok s' c xs"
proof -
  have sl: "next_item (items s' (slots (buckets s c) i)) = next_item (items s (slots (buckets s c) i)) \<and>
      hv (items s' (slots (buckets s c) i)) = hv (items s (slots (buckets s c) i))" if "i < 5" "slots (buckets s c) i \<noteq> NULL" for i
    using assms(3) that by (auto simp: members_def)
  have "ipath s' q xs = ipath s q xs" for q
    using assms(3) by (intro ipath_cong) (auto simp: members_def)
  then show ?thesis
    using assms(1) sl unfolding bucket_ok_def assms(2) by (auto split: if_splits)
qed

text \<open>
  What a change of bucket \<open>b\<close> that adds the item \<open>nit\<close> leaves alone.
\<close>

definition bucket_frame :: "u64 \<Rightarrow> ptr set \<Rightarrow> 'a kvs_scheme \<Rightarrow> 'a kvs_scheme \<Rightarrow> bool" where
  "bucket_frame b P s s' \<longleftrightarrow> nbuckets s' = nbuckets s \<and> kbytes s' = kbytes s \<and> seg_base s' = seg_base s \<and> seg_headers s' = seg_headers s \<and>
     (\<forall>c. c \<noteq> b \<longrightarrow> buckets s' c = buckets s c) \<and>
     (\<forall>p. hv (items s' p) = hv (items s p) \<and> keylen (items s' p) = keylen (items s p) \<and> vallen (items s' p) = vallen (items s p)) \<and>
     (\<forall>p. p \<notin> P \<longrightarrow> next_item (items s' p) = next_item (items s p))"

lemma ikey_frame: "bucket_frame b P s s' \<Longrightarrow> ikey s' p = ikey s p"
  by (simp add: bucket_frame_def ikey_def)

lemma put_table:
  assumes t: "table_ok C ov s" and b: "b < nbuckets s" and fr: "bucket_frame b (insert nit (members s b (ov b))) s s'"
    and rc: "\<And>p. p \<in> insert nit (entries s ov - R) \<Longrightarrow> refcount (items s' p) \<noteq> 0"
    and nit: "nit \<notin> entries s ov" "bucket_of s (hv (items s nit)) = b" "item_home C s nit"
    and R: "R \<subseteq> members s b (ov b)" "\<And>p. p \<in> entries s ov - R \<Longrightarrow> ikey s p \<noteq> ikey s nit"
    and new: "bucket_ok s' b xs" "members s' b xs = insert nit (members s b (ov b) - R)"
  shows "table_ok C (ov(b := xs)) s'" and "entries s' (ov(b := xs)) = insert nit (entries s ov - R)"
proof -
  note f = fr [unfolded bucket_frame_def]
  have mc: "members s' c ys = members s c ys" if "c \<noteq> b" for c ys
    using f that by (simp add: members_def)
  have dj: "members s c (ov c) \<inter> members s b (ov b) = {}" if "c < nbuckets s" "c \<noteq> b" for c
    using members_disjoint [OF t that(1) b that(2)] .
  have ko: "members s' c ((ov(b := xs)) c) = (if c = b then insert nit (members s b (ov b) - R) else members s c (ov c))" for c
    using new(2) mc by simp
  show en: "entries s' (ov(b := xs)) = insert nit (entries s ov - R)"
  proof -
    have sp: "(\<Union>c\<in>{..<nbuckets s}. F c) = F b \<union> (\<Union>c\<in>{..<nbuckets s} - {b}. F c)" for F :: "u64 \<Rightarrow> ptr set"
      using b by blast
    have n: "nbuckets s' = nbuckets s"
      using f by blast
    define U where "U = (\<Union>c\<in>{..<nbuckets s} - {b}. members s c (ov c))"
    have "U \<inter> R = {}"
      using dj R(1) unfolding U_def by fastforce
    moreover have "entries s ov = members s b (ov b) \<union> U"
      unfolding entries_def U_def by (rule sp)
    ultimately have "entries s ov - R = (members s b (ov b) - R) \<union> U"
      by blast
    moreover have "entries s' (ov(b := xs)) = insert nit (members s b (ov b) - R) \<union> U"
      unfolding entries_def n U_def by (subst sp) (simp add: new(2) mc)
    ultimately show ?thesis by simp
  qed
  have bo: "bucket_of s' h = bucket_of s h" for h
    using f by (simp add: bucket_of_def)
  have ih: "item_home C s' p = item_home C s p" for p
    using f by (simp add: item_home_def)
  have eo: "entry_ok C s' c p" if "c < nbuckets s" "p \<in> members s' c ((ov(b := xs)) c)" for c p
  proof -
    have "p \<in> entries s' (ov(b := xs))"
      unfolding entries_def using that f by (intro UN_I [of c]) auto
    then have "refcount (items s' p) \<noteq> 0" unfolding en by (rule rc)
    moreover have "bucket_of s (hv (items s p)) = c \<and> item_home C s p"
      using that nit table_okD(2) [OF t that(1)] unfolding ko by (auto simp: entry_ok_def split: if_splits)
    ultimately show ?thesis
      using f by (simp add: entry_ok_def bo ih)
  qed
  have bk: "bucket_ok s' c ((ov(b := xs)) c)" if c: "c < nbuckets s" for c
  proof (cases "c = b")
    case True
    then show ?thesis using new(1) by simp
  next
    case False
    have "nit \<notin> members s c (ov c)"
      using nit(1) table_okD(3) [OF t c] by blast
    then have "bucket_ok s' c (ov c)"
      using dj [OF c False] f False by (intro bucket_ok_cong [OF table_okD(1) [OF t c]]) auto
    then show ?thesis using False by simp
  qed
  have "inj_on (ikey s) (entries s ov - R)"
    using t by (auto simp: table_ok_def intro: inj_on_subset)
  moreover have "ikey s nit \<notin> ikey s ` (entries s ov - R)"
    using R(2) by force
  ultimately have "inj_on (ikey s) (insert nit (entries s ov - R))"
    by (auto simp: inj_on_insert)
  moreover have "ikey s' = ikey s"
    using ikey_frame [OF fr] by (rule ext)
  ultimately show "table_ok C (ov(b := xs)) s'"
    using bk eo t f unfolding table_ok_def en by simp
qed

section \<open>Insertion\<close>

text \<open>Dropping a reference changes the count, and at the last one also the freed bytes of the segment.\<close>

definition freed_only :: "'a segments_scheme \<Rightarrow> 'a segments_scheme \<Rightarrow> bool" where
  "freed_only s s' \<longleftrightarrow> s' = s\<lparr>segs := segs s'\<rparr> \<and> (\<forall>h. segs s' h = (segs s h)\<lparr>seg_freed := seg_freed (segs s' h)\<rparr>)"

lemma freed_only_fields:
  assumes "freed_only s s'"
  shows "items s' = items s" "kbytes s' = kbytes s" "seg_base s' = seg_base s" "seg_headers s' = seg_headers s"
    "free_segments s' = free_segments s" "seg_alloced s' = seg_alloced s" "segments.more s' = segments.more s"
    "seg_data (segs s' h) = seg_data (segs s h)" "seg_size (segs s' h) = seg_size (segs s h)" "seg_offset (segs s' h) = seg_offset (segs s h)"
    "seg_next (segs s' h) = seg_next (segs s h)" "seg_flags (segs s' h) = seg_flags (segs s h)"
proof -
  have e: "s' = s\<lparr>segs := segs s'\<rparr>" and f: "segs s' h = (segs s h)\<lparr>seg_freed := seg_freed (segs s' h)\<rparr>"
    using assms by (auto simp: freed_only_def)
  show "items s' = items s" "kbytes s' = kbytes s" "seg_base s' = seg_base s" "seg_headers s' = seg_headers s"
    "free_segments s' = free_segments s" "seg_alloced s' = seg_alloced s" "segments.more s' = segments.more s"
    by (subst e, simp)+
  show "seg_data (segs s' h) = seg_data (segs s h)" "seg_size (segs s' h) = seg_size (segs s h)" "seg_offset (segs s' h) = seg_offset (segs s h)"
    "seg_next (segs s' h) = seg_next (segs s h)" "seg_flags (segs s' h) = seg_flags (segs s h)"
    by (subst f, simp)+
qed

lemma freed_only_kvs:
  fixes s s' :: "'a kvs_scheme"
  assumes "freed_only s s'"
  shows "nbuckets s' = nbuckets s" "buckets s' = buckets s" "kvs.more s' = kvs.more s"
proof -
  have e: "s' = s\<lparr>segs := segs s'\<rparr>"
    using assms by (simp add: freed_only_def)
  show "nbuckets s' = nbuckets s" "buckets s' = buckets s" "kvs.more s' = kvs.more s"
    by (subst e, simp)+
qed

lemma item_unref_spec:
  assumes "refcount (items s it) \<noteq> 0" and "item_home C s it"
  shows "\<exists>s'. item_unref C it s = Some s' \<and> freed_only (upd_item it (\<lambda>x. x\<lparr>refcount := refcount x - 1\<rparr>) s) s'"
  using assms by (auto simp: item_unref_def ialloc_free_def segment_from_part_def segment_item_free_def item_home_def freed_only_def word_gt_0 Let_def)

lemma put_scan_Inl:
  "put_scan s b key klen h is di = Inl i \<Longrightarrow> i \<in> set is \<and> slots (buckets s b) i \<noteq> NULL \<and> hashes (buckets s b) i = h \<and>
     item_key_matches s (slots (buckets s b) i) key klen"
  by (induction "is" arbitrary: di) (auto split: if_splits)

lemma put_scan_Inr:
  "put_scan s b key klen h is di = Inr d \<Longrightarrow>
     (\<forall>i\<in>set is. slots (buckets s b) i \<noteq> NULL \<longrightarrow> \<not> (hashes (buckets s b) i = h \<and> item_key_matches s (slots (buckets s b) i) key klen))"
  by (induction "is" arbitrary: di) (auto split: if_splits)

lemma put_scan_free:
  "put_scan s b key klen h is di = Inr (Some i) \<Longrightarrow> di = Some i \<or> i \<in> set is \<and> slots (buckets s b) i = NULL"
  "put_scan s b key klen h is di = Inr None \<Longrightarrow> \<forall>j\<in>set is. slots (buckets s b) j \<noteq> NULL"
proof (induction "is" arbitrary: di)
  case (Cons j js)
  {
    case 1
    then show ?case using Cons.IH(1) [of "Some j"] Cons.IH(1) [of di] by (auto split: if_splits)
  next
    case 2
    have "put_scan s b key klen h js (Some j') \<noteq> Inr None" for j'
      by (induction js arbitrary: j') auto
    then show ?case using 2 Cons.IH(2) [of di] by (auto split: if_splits)
  }
qed auto

text \<open>An item in a list is replaced by another one.\<close>

lemma ipath_replace:
  assumes "ipath s p (ys @ x # zs)" and "distinct (ys @ x # zs)" and "nit \<notin> set (ys @ x # zs)" and "nit \<noteq> NULL"
    and "next_item (items s' nit) = next_item (items s x)"
    and "\<And>y. y \<in> set (butlast ys) \<union> set zs \<Longrightarrow> next_item (items s' y) = next_item (items s y)"
    and "ys \<noteq> [] \<Longrightarrow> next_item (items s' (last ys)) = nit"
  shows "ipath s' (if ys = [] then nit else p) (ys @ nit # zs)"
  using assms(1,2,3,6,7)
proof (induction ys arbitrary: p)
  case Nil
  have "ipath s' q zs = ipath s q zs" for q
    using Nil by (intro ipath_cong) simp
  then show ?case
    using Nil assms(4,5) by simp
next
  case (Cons y ys)
  have "ipath s' (if ys = [] then nit else next_item (items s y)) (ys @ nit # zs)"
    using Cons.prems by (intro Cons.IH) (auto split: if_splits)
  then show ?case
    using Cons.prems by (cases "ys = []") auto
qed

end
