(* ===== verification/Hashtable_Put.thy ===== *)
theory Hashtable_Put
  imports Hashtable_Map
begin

text \<open>Insertion into the hash table, by the place it ends up in, and its effect on the map.\<close>

text \<open>The item is ready to go into the table: it belongs to nobody else yet.\<close>

definition insertable :: "settings \<Rightarrow> (u64 \<Rightarrow> ptr list) \<Rightarrow> ptr \<Rightarrow> 'a kvs_scheme \<Rightarrow> bool" where
  "insertable C ov nit s \<longleftrightarrow> nit \<noteq> NULL \<and> nit \<notin> entries s ov \<and> refcount (items s nit) + 1 \<noteq> 0 \<and> item_home C s nit"

text \<open>Of the segments, only the numbers of freed bytes change.\<close>

definition seg_frame :: "'a segments_scheme \<Rightarrow> 'a segments_scheme \<Rightarrow> bool" where
  "seg_frame s s' \<longleftrightarrow> free_segments s' = free_segments s \<and> seg_alloced s' = seg_alloced s \<and> seg_base s' = seg_base s \<and>
     seg_headers s' = seg_headers s \<and> (\<forall>h. segs s' h = (segs s h)\<lparr>seg_freed := seg_freed (segs s' h)\<rparr>)"

lemma seg_frame_trans:
  assumes "seg_frame s t" and "seg_frame t u"
  shows "seg_frame s u"
proof -
  have "segs u h = (segs s h)\<lparr>seg_freed := seg_freed (segs u h)\<rparr>" for h
  proof -
    have "segs u h = (segs t h)\<lparr>seg_freed := seg_freed (segs u h)\<rparr>" "segs t h = (segs s h)\<lparr>seg_freed := seg_freed (segs t h)\<rparr>"
      using assms by (auto simp: seg_frame_def)
    then show ?thesis by (metis segment_header.surjective segment_header.update_convs(4))
  qed
  then show ?thesis using assms by (simp add: seg_frame_def)
qed

lemma seg_frame_same:
  "free_segments s' = free_segments s \<Longrightarrow> seg_alloced s' = seg_alloced s \<Longrightarrow> seg_base s' = seg_base s \<Longrightarrow> seg_headers s' = seg_headers s \<Longrightarrow>
   segs s' = segs s \<Longrightarrow> seg_frame s s'"
  by (simp add: seg_frame_def)

lemma freed_only_frame:
  assumes "freed_only s s'"
  shows "seg_frame s s'"
proof -
  have "\<forall>h. segs s' h = (segs s h)\<lparr>seg_freed := seg_freed (segs s' h)\<rparr>"
    using assms unfolding freed_only_def by blast
  then show ?thesis
    unfolding seg_frame_def using freed_only_fields(3-6) [OF assms] by blast
qed

text \<open>The outcome: the item takes the place of the items \<open>R\<close> with its key, at most one.\<close>

definition put_done :: "settings \<Rightarrow> (u64 \<Rightarrow> ptr list) \<Rightarrow> ptr \<Rightarrow> ptr set \<Rightarrow> 'a kvs_scheme \<Rightarrow> 'a kvs_scheme \<Rightarrow> bool" where
  "put_done C ov nit R s s' \<longleftrightarrow> (\<exists>b xs P. table_ok C (ov(b := xs)) s' \<and> entries s' (ov(b := xs)) = insert nit (entries s ov - R) \<and> bucket_frame b P s s') \<and>
     seg_frame s s' \<and> R = {it \<in> entries s ov. ikey s it = ikey s nit} \<and>
     (\<forall>p. refcount (items s' p) = (if p = nit then refcount (items s p) + 1 else if p \<in> R then refcount (items s p) - 1 else refcount (items s p)))"

lemma slot_in_members: "i < 5 \<Longrightarrow> slots (buckets s b) i \<noteq> NULL \<Longrightarrow> slots (buckets s b) i \<in> members s b xs"
  by (auto simp: members_def)

lemma same_key_set:
  assumes "table_ok C ov s" and "it \<in> entries s ov" and "ikey s it = ikey s nit"
  shows "{x \<in> entries s ov. ikey s x = ikey s nit} = {it}"
  using assms by (auto simp: table_ok_def inj_on_def)

lemma put_replaces_slot:
  assumes t: "table_ok C ov s" and i: "insertable C ov nit s" and b: "b = bucket_of s (hv (items s nit))"
    and sl: "i < 5" "slots (buckets s b) i = it" "it \<noteq> NULL" "ikey s it = ikey s nit"
    and bk: "buckets s' = (buckets s)(b := (buckets s b)\<lparr>slots := (slots (buckets s b))(i := nit)\<rparr>)"
    and its: "items s' = (items s)(nit := (items s nit)\<lparr>refcount := refcount (items s nit) + 1, next_item := next_item (items s it)\<rparr>,
        it := (items s it)\<lparr>refcount := refcount (items s it) - 1\<rparr>)"
    and rest: "nbuckets s' = nbuckets s" "kbytes s' = kbytes s" "seg_base s' = seg_base s" "seg_headers s' = seg_headers s"
      "free_segments s' = free_segments s" "seg_alloced s' = seg_alloced s" "segs s' = segs s"
  shows "put_done C ov nit {it} s s'"
proof -
  have bn: "b < nbuckets s"
    using t bucket_of_less b by (auto simp: table_ok_def)
  note ok = table_okD [OF t bn]
  have m: "it \<in> members s b (ov b)"
    using slot_in_members [OF sl(1)] sl(2,3) by blast
  then have e: "it \<in> entries s ov" using ok(3) by blast
  have ne: "nit \<noteq> it" "nit \<notin> members s b (ov b)"
    using i e ok(3) by (auto simp: insertable_def)
  have sn: "slots (buckets s b) j \<noteq> nit" if "j < 5" for j
    using slot_in_members [OF that] i ne(2) by (auto simp: insertable_def)
  note o = ok(1) [unfolded bucket_ok_def]
  have nx: "next_item (items s' p) = (if p = nit then next_item (items s it) else next_item (items s p))" for p
    using ne by (simp add: its)
  have hv': "hv (items s' p) = hv (items s p)" for p
    by (simp add: its)
  have sl': "slots (buckets s' b) j = (if j = i then nit else slots (buckets s b) j)" for j
    by (simp add: bk)
  have u: "j = i" if "j < 5" "slots (buckets s b) j = it" for j
    using o sl that by blast
  have ixs: "it \<notin> set (ov b)" using o sl by blast
  have "ipath s' q (ov b) = ipath s q (ov b)" for q
    using ne(2) by (intro ipath_cong) (auto simp: nx members_def)
  moreover have "nit \<noteq> NULL" using i by (simp add: insertable_def)
  moreover have "nit \<notin> set (ov b)" using ne(2) by (simp add: members_def)
  moreover have "hashes (buckets s' b) j = hashes (buckets s b) j" for j by (simp add: bk)
  moreover have "hashes (buckets s b) i = hv (items s nit)"
    using o sl by (auto simp: ikey_def)
  ultimately have new: "bucket_ok s' b (ov b)"
    using o sl(1-3) sn unfolding bucket_ok_def sl' hv' by (auto simp: nx)
  have mem: "members s' b (ov b) = insert nit (members s b (ov b) - {it})"
  proof -
    have "{slots (buckets s' b) j | j. j < 5 \<and> slots (buckets s' b) j \<noteq> NULL} = insert nit ({slots (buckets s b) j | j. j < 5 \<and> slots (buckets s b) j \<noteq> NULL} - {it})"
      (is "?L = ?R")
    proof
      show "?L \<subseteq> ?R" using u unfolding sl' by auto
      show "?R \<subseteq> ?L"
      proof
        fix x assume "x \<in> ?R"
        then consider "x = nit" | j where "j < 5" "x = slots (buckets s b) j" "x \<noteq> NULL" "x \<noteq> it" by auto
        then show "x \<in> ?L"
        proof cases
          case 1
          then show ?thesis using sl(1) \<open>nit \<noteq> NULL\<close> unfolding sl' by auto
        next
          case 2
          then have "j \<noteq> i" using sl(2) by auto
          then show ?thesis using 2 unfolding sl' by auto
        qed
      qed
    qed
    then show ?thesis using ixs by (auto simp: members_def)
  qed
  have fr: "bucket_frame b (insert nit (members s b (ov b))) s s'"
    using rest by (simp add: bucket_frame_def bk its)
  have R: "{it \<in> entries s ov. ikey s it = ikey s nit} = {it}"
    using same_key_set [OF t e sl(4)] .
  have rc: "refcount (items s' p) = (if p = nit then refcount (items s p) + 1 else if p \<in> {it} then refcount (items s p) - 1 else refcount (items s p))" for p
    using ne(1) by (simp add: its)
  have live: "refcount (items s p) \<noteq> 0" if "p \<in> entries s ov" for p
    using that t by (auto simp: entries_def table_ok_def entry_ok_def)
  have "table_ok C (ov(b := ov b)) s'" "entries s' (ov(b := ov b)) = insert nit (entries s ov - {it})"
    by (rule put_table [OF t bn fr _ _ _ _ _ _ new mem]; use i b m R live rc in \<open>auto simp: insertable_def\<close>)+
  moreover have "seg_frame s s'"
    by (rule seg_frame_same) (rule rest)+
  ultimately show ?thesis
    using fr R rc unfolding put_done_def by blast
qed

lemma live_entry: "table_ok C ov s \<Longrightarrow> p \<in> entries s ov \<Longrightarrow> refcount (items s p) \<noteq> 0 \<and> item_home C s p"
  by (auto simp: entries_def table_ok_def entry_ok_def)

lemma put_replaces_link:
  assumes t: "table_ok C ov s" and i: "insertable C ov nit s" and b: "b = bucket_of s (hv (items s nit))"
    and xs: "ov b = ys @ it # zs" "slots (buckets s b) 4 \<noteq> NULL" "ikey s it = ikey s nit"
    and bk: "buckets s' = buckets s"
    and its: "items s' = (let f = (items s)(nit := (items s nit)\<lparr>refcount := refcount (items s nit) + 1, next_item := next_item (items s it)\<rparr>);
        g = f(last_or (slots (buckets s b) 4) ys := (f (last_or (slots (buckets s b) 4) ys))\<lparr>next_item := nit\<rparr>)
      in g(it := (g it)\<lparr>refcount := refcount (g it) - 1\<rparr>))"
    and rest: "nbuckets s' = nbuckets s" "kbytes s' = kbytes s" "seg_base s' = seg_base s" "seg_headers s' = seg_headers s"
      "free_segments s' = free_segments s" "seg_alloced s' = seg_alloced s" "segs s' = segs s"
  shows "put_done C ov nit {it} s s'"
proof -
  let ?prev = "last_or (slots (buckets s b) 4) ys"
  have bn: "b < nbuckets s"
    using t bucket_of_less b by (auto simp: table_ok_def)
  note ok = table_okD [OF t bn]
  note o = ok(1) [unfolded bucket_ok_def]
  have m: "set (ov b) \<subseteq> members s b (ov b)" "slots (buckets s b) 4 \<in> members s b (ov b)"
    using slot_in_members [of 4 s b] xs(2) by (auto simp: members_def)
  have e: "it \<in> entries s ov" using ok(3) m xs(1) by auto
  have nm: "nit \<notin> members s b (ov b)" "nit \<noteq> NULL"
    using i ok(3) by (auto simp: insertable_def)
  have pm: "?prev \<in> members s b (ov b)"
    using m xs(1) by (cases "ys = []") (auto simp: last_or_def)
  have s4: "slots (buckets s b) 4 \<notin> set (ov b)"
    using o xs(2) by auto
  have d: "distinct (ys @ it # zs)" using o xs(1) by simp
  have pit: "?prev \<noteq> it" "?prev \<noteq> nit" "nit \<noteq> it"
    using s4 d pm nm(1) m xs(1) by (auto simp: last_or_def)
  have nx: "next_item (items s' p) = (if p = nit then next_item (items s it) else if p = ?prev then nit else next_item (items s p))" for p
    using pit by (auto simp: its Let_def)
  have same: "hv (items s' p) = hv (items s p)" "keylen (items s' p) = keylen (items s p)" "vallen (items s' p) = vallen (items s p)" for p
    by (simp_all add: its Let_def)
  have rc: "refcount (items s' p) = (if p = nit then refcount (items s p) + 1 else if p \<in> {it} then refcount (items s p) - 1 else refcount (items s p))" for p
    using pit by (auto simp: its Let_def)
  have pth: "ipath s (next_item (items s (slots (buckets s b) 4))) (ys @ it # zs)"
    using o xs by simp
  have "ipath s' (if ys = [] then nit else next_item (items s (slots (buckets s b) 4))) (ys @ nit # zs)"
  proof (rule ipath_replace [OF pth d])
    show "nit \<notin> set (ys @ it # zs)" using nm m xs(1) by auto
    show "next_item (items s' y) = next_item (items s y)" if y: "y \<in> set (butlast ys) \<union> set zs" for y
    proof -
      have "y \<noteq> ?prev"
      proof (cases "ys = []")
        case True
        then show ?thesis using y s4 xs(1) by auto
      next
        case False
        moreover have "set ys \<inter> set zs = {}" using d by auto
        ultimately have "last ys \<notin> set (butlast ys)" "last ys \<notin> set zs"
          using d last_notin_butlast [of ys] last_in_set [OF False] by (simp, blast)
        then show ?thesis using False y d by (auto simp: last_or_def)
      qed
      moreover have "y \<noteq> nit" using y nm(1) m xs(1) in_set_butlastD by fastforce
      ultimately show ?thesis by (simp add: nx)
    qed
    show "next_item (items s' (last ys)) = nit" if "ys \<noteq> []"
      using that pit(2) by (simp add: nx last_or_def)
  qed (use nm pit in \<open>simp_all add: nx\<close>)
  moreover have "next_item (items s' (slots (buckets s b) 4)) = (if ys = [] then nit else next_item (items s (slots (buckets s b) 4)))"
    using s4 nm(1) m(2) xs(1) by (auto simp: nx last_or_def)
  moreover have "slots (buckets s b) j \<noteq> nit" if "j < 5" for j
    using slot_in_members [OF that] nm by metis
  ultimately have new: "bucket_ok s' b (ys @ nit # zs)"
    using o xs(1,2) d nm(1) m(1) unfolding bucket_ok_def bk same by auto
  have "it \<notin> {slots (buckets s b) j | j. j < 5 \<and> slots (buckets s b) j \<noteq> NULL}"
    using o xs(1) by auto
  then have mem: "members s' b (ys @ nit # zs) = insert nit (members s b (ov b) - {it})"
    using d xs(1) unfolding members_def bk by auto
  have fr: "bucket_frame b (insert nit (members s b (ov b))) s s'"
    using rest pm by (auto simp: bucket_frame_def bk same nx)
  note R = same_key_set [OF t e xs(3)]
  have "table_ok C (ov(b := ys @ nit # zs)) s'" "entries s' (ov(b := ys @ nit # zs)) = insert nit (entries s ov - {it})"
    by (rule put_table [OF t bn fr _ _ _ _ _ _ new mem]; use i b m xs(1) R live_entry [OF t] rc in \<open>auto simp: insertable_def\<close>)+
  moreover have "seg_frame s s'"
    by (rule seg_frame_same) (rule rest)+
  ultimately show ?thesis
    using fr R rc unfolding put_done_def by blast
qed

lemma put_into_slot:
  assumes t: "table_ok C ov s" and i: "insertable C ov nit s" and b: "b = bucket_of s (hv (items s nit))"
    and new_key: "\<And>p. p \<in> entries s ov \<Longrightarrow> ikey s p \<noteq> ikey s nit"
    and sl: "i < 5" "slots (buckets s b) i = NULL \<or> i = 4"
    and bk: "buckets s' = (buckets s)(b := (buckets s b)\<lparr>hashes := (hashes (buckets s b))(i := hv (items s nit)), slots := (slots (buckets s b))(i := nit)\<rparr>)"
    and its: "items s' = (items s)(nit := (items s nit)\<lparr>refcount := refcount (items s nit) + 1, next_item := slots (buckets s b) i\<rparr>)"
    and rest: "nbuckets s' = nbuckets s" "kbytes s' = kbytes s" "seg_base s' = seg_base s" "seg_headers s' = seg_headers s"
      "free_segments s' = free_segments s" "seg_alloced s' = seg_alloced s" "segs s' = segs s"
  shows "put_done C ov nit {} s s'"
proof -
  let ?old = "slots (buckets s b) i"
  let ?xs = "if ?old = NULL then ov b else ?old # ov b"
  have bn: "b < nbuckets s"
    using t bucket_of_less b by (auto simp: table_ok_def)
  note ok = table_okD [OF t bn]
  note o = ok(1) [unfolded bucket_ok_def]
  have nm: "nit \<notin> members s b (ov b)" "nit \<noteq> NULL"
    using i ok(3) by (auto simp: insertable_def)
  have nxs: "nit \<notin> set (ov b)" using nm by (simp add: members_def)
  have sn: "slots (buckets s b) j \<noteq> nit" if "j < 5" for j
    using slot_in_members [OF that] nm by metis
  have nx: "next_item (items s' p) = (if p = nit then ?old else next_item (items s p))" for p
    by (simp add: its)
  have same: "hv (items s' p) = hv (items s p)" "keylen (items s' p) = keylen (items s p)" "vallen (items s' p) = vallen (items s p)" for p
    by (simp_all add: its)
  have sl': "slots (buckets s' b) j = (if j = i then nit else slots (buckets s b) j)"
    "hashes (buckets s' b) j = (if j = i then hv (items s nit) else hashes (buckets s b) j)" for j
    by (simp_all add: bk)
  have pc: "ipath s' q (ov b) = ipath s q (ov b)" for q
    using nxs by (intro ipath_cong) (auto simp: nx)
  have new: "bucket_ok s' b ?xs"
  proof (cases "?old = NULL")
    case True
    then show ?thesis
      using o sl(1) sn nm(2) nxs unfolding bucket_ok_def sl' same by (auto simp: nx pc)
  next
    case False
    then have i4: "i = 4" using sl(2) by simp
    have "nit \<noteq> ?old" "?old \<notin> set (ov b)" using sn [OF sl(1)] sl(1) False o by auto
    then show ?thesis
      using o False sn nm(2) nxs i4 unfolding bucket_ok_def sl' same by (auto simp: nx pc)
  qed
  have mem: "members s' b ?xs = insert nit (members s b (ov b) - {})"
  proof (cases "?old = NULL")
    case True
    then show ?thesis
      using sl(1) nm(2) unfolding members_def sl' by auto
  next
    case False
    then show ?thesis
      using sl(1) nm(2) unfolding members_def sl' by auto
  qed
  have fr: "bucket_frame b (insert nit (members s b (ov b))) s s'"
    using rest by (auto simp: bucket_frame_def bk same nx)
  have rc: "refcount (items s' p) = (if p = nit then refcount (items s p) + 1 else if p \<in> {} then refcount (items s p) - 1 else refcount (items s p))" for p
    by (simp add: its)
  have "table_ok C (ov(b := ?xs)) s'" "entries s' (ov(b := ?xs)) = insert nit (entries s ov - {})"
    by (rule put_table [OF t bn fr _ _ _ _ _ _ new mem]; use i b new_key live_entry [OF t] rc in \<open>auto simp: insertable_def\<close>)+
  moreover have "{} = {it \<in> entries s ov. ikey s it = ikey s nit}"
    using new_key by auto
  moreover have "seg_frame s s'"
    by (rule seg_frame_same) (rule rest)+
  ultimately show ?thesis
    using fr rc unfolding put_done_def by blast
qed

text \<open>The table does not depend on anything but the following.\<close>

lemma table_ok_cong:
  assumes "table_ok C ov s" and "nbuckets s' = nbuckets s" "buckets s' = buckets s" "kbytes s' = kbytes s" "seg_base s' = seg_base s" "seg_headers s' = seg_headers s"
    and "\<And>p. hv (items s' p) = hv (items s p)" "\<And>p. keylen (items s' p) = keylen (items s p)" "\<And>p. next_item (items s' p) = next_item (items s p)"
    and "\<And>p. p \<in> entries s ov \<Longrightarrow> refcount (items s' p) \<noteq> 0"
  shows "table_ok C ov s'" and "entries s' ov = entries s ov" and "ikey s' = ikey s"
proof -
  have i: "ipath s' p xs = ipath s p xs" for p xs
    by (rule ipath_cong) (rule assms)
  have m: "members s' b xs = members s b xs" for b xs
    by (simp add: members_def assms(3))
  show e: "entries s' ov = entries s ov"
    by (simp add: entries_def m assms(2))
  show k: "ikey s' = ikey s"
    by (rule ext) (simp add: ikey_def assms)
  have "entry_ok C s' b p" if "b < nbuckets s" "p \<in> members s b (ov b)" for b p
    using table_okD(2,3) [OF assms(1) that(1)] assms(10) that(2) by (auto simp: entry_ok_def item_home_def bucket_of_def assms(2,5,6,7))
  then show "table_ok C ov s'"
    using assms(1) unfolding table_ok_def e k m by (auto simp: bucket_ok_def i assms)
qed

lemma table_ok_ref:
  assumes "table_ok C ov s" and "refcount (items s p) + 1 \<noteq> 0"
  shows "table_ok C ov (item_ref p s)" and "entries (item_ref p s) ov = entries s ov" and "ikey (item_ref p s) = ikey s"
  by (rule table_ok_cong [OF assms(1)]; use assms(2) live_entry [OF assms(1)] in \<open>auto simp: item_ref_def\<close>)+

lemma put_done_freed:
  assumes "put_done C ov nit R s s1" and "freed_only s1 s'"
  shows "put_done C ov nit R s s'"
proof -
  note f = freed_only_fields [OF assms(2)] freed_only_kvs [OF assms(2)]
  obtain b xs P where p: "table_ok C (ov(b := xs)) s1" "entries s1 (ov(b := xs)) = insert nit (entries s ov - R)" "bucket_frame b P s s1"
    using assms(1) by (auto simp: put_done_def)
  have "table_ok C (ov(b := xs)) s'" "entries s' (ov(b := xs)) = entries s1 (ov(b := xs))"
    by (rule table_ok_cong [OF p(1)]; use live_entry [OF p(1)] in \<open>simp add: f\<close>)+
  moreover have "bucket_frame b P s s'"
    using p(3) by (simp add: bucket_frame_def f)
  ultimately have "\<exists>b xs P. table_ok C (ov(b := xs)) s' \<and> entries s' (ov(b := xs)) = insert nit (entries s ov - R) \<and> bucket_frame b P s s'"
    using p(2) by auto
  moreover have "seg_frame s s'"
    using assms(1) freed_only_frame [OF assms(2)] by (auto simp: put_done_def intro: seg_frame_trans)
  ultimately show ?thesis
    using assms(1) unfolding put_done_def f by blast
qed

lemma nit_key: "ikey s nit = (hv (items s nit), region (kbytes s) (item_key nit) (unat (ucast (keylen (items s nit)) :: u64)))"
  by (simp add: ikey_def unat_upcast)

lemma hasht_put_slot:
  assumes t: "table_ok C ov s" and i: "insertable C ov nit s"
    and scan: "put_scan s (bucket_of s (hv (items s nit))) (item_key nit) (ucast (keylen (items s nit))) (hv (items s nit)) [0..<BUCKET_NITEMS] None = Inl j"
    and cas: "cas = NULL \<or> cas = slots (buckets s (bucket_of s (hv (items s nit)))) j"
  shows "\<exists>s'. hasht_put C nit cas s = Some s' \<and> put_done C ov nit {slots (buckets s (bucket_of s (hv (items s nit)))) j} s s'"
proof -
  let ?b = "bucket_of s (hv (items s nit))"
  let ?it = "slots (buckets s ?b) j"
  have n: "nbuckets s \<noteq> 0" using t by (simp add: table_ok_def)
  note b = bucket_of_less [OF n, of "hv (items s nit)"]
  have j: "j < 5" "?it \<noteq> NULL" "ikey s ?it = ikey s nit"
    using put_scan_Inl [OF scan] table_okD(1) [OF t b] by (auto simp: BUCKET_NITEMS_def bucket_ok_def key_matches_iff ikey_def unat_upcast)
  have e: "?it \<in> entries s ov"
    using slot_in_members [OF j(1,2)] table_okD(3) [OF t b] by blast
  have ne: "nit \<noteq> ?it" using e i by (auto simp: insertable_def)
  let ?s1 = "upd_bucket ?b (\<lambda>x. x\<lparr>slots := (slots x)(j := nit)\<rparr>)
    (upd_item nit (\<lambda>x. x\<lparr>next_item := next_item (items (item_ref nit s) ?it)\<rparr>) (item_ref nit s))"
  have "refcount (items ?s1 ?it) \<noteq> 0" "item_home C ?s1 ?it"
    using live_entry [OF t e] ne by (simp_all add: item_ref_def item_home_def)
  then obtain s' where s': "item_unref C ?it ?s1 = Some s'" "freed_only (upd_item ?it (\<lambda>x. x\<lparr>refcount := refcount x - 1\<rparr>) ?s1) s'"
    using item_unref_spec by blast
  have run: "hasht_put C nit cas s = Some s'"
    using scan n cas ne s'(1) by (auto simp: hasht_put_def Let_def bucket_of_def)
  have "put_done C ov nit {?it} s (upd_item ?it (\<lambda>x. x\<lparr>refcount := refcount x - 1\<rparr>) ?s1)"
    by (rule put_replaces_slot [OF t i refl j(1) refl j(2,3)]) (use ne in \<open>simp_all add: item_ref_def\<close>)
  with s'(2) have "put_done C ov nit {?it} s s'"
    by (rule put_done_freed [rotated])
  with run show ?thesis by blast
qed

lemma no_slot_matches:
  assumes t: "table_ok C ov s"
    and scan: "put_scan s (bucket_of s (hv (items s nit))) (item_key nit) (ucast (keylen (items s nit))) (hv (items s nit)) [0..<BUCKET_NITEMS] None = Inr d"
    and e: "it \<in> entries s ov" "ikey s it = ikey s nit"
  shows "it \<in> set (ov (bucket_of s (hv (items s nit))))"
proof -
  let ?b = "bucket_of s (hv (items s nit))"
  have n: "nbuckets s \<noteq> 0" using t by (simp add: table_ok_def)
  note ok = table_okD(1) [OF t bucket_of_less [OF n, of "hv (items s nit)"], unfolded bucket_ok_def]
  have "hv (items s it) = hv (items s nit)" using e(2) by (simp add: ikey_def)
  then have "it \<in> members s ?b (ov ?b)" using entry_member(1) [OF t e(1)] by simp
  moreover have "slots (buckets s ?b) i \<noteq> it" if "i < 5" for i
    using put_scan_Inr [OF scan] ok that e(2) entry_member(2) [OF t e(1)] \<open>hv (items s it) = hv (items s nit)\<close>
    by (auto simp: BUCKET_NITEMS_def key_matches_iff ikey_def unat_upcast)
  ultimately show ?thesis by (auto simp: members_def)
qed

lemma hasht_put_link:
  assumes t: "table_ok C ov s" and i: "insertable C ov nit s"
    and scan: "put_scan s (bucket_of s (hv (items s nit))) (item_key nit) (ucast (keylen (items s nit))) (hv (items s nit)) [0..<BUCKET_NITEMS] None = Inr d"
    and e: "it \<in> entries s ov" "ikey s it = ikey s nit"
  shows "\<exists>s'. hasht_put C nit NULL s = Some s' \<and> put_done C ov nit {it} s s'"
proof -
  let ?b = "bucket_of s (hv (items s nit))"
  have n: "nbuckets s \<noteq> 0" using t by (simp add: table_ok_def)
  note b = bucket_of_less [OF n, of "hv (items s nit)"]
  have nn: "it \<noteq> NULL" "nit \<noteq> it" using entry_member(2) [OF t e(1)] e i by (auto simp: insertable_def)
  have "it \<in> set (ov ?b)"
    by (rule no_slot_matches [OF t scan e])
  then obtain ys zs where xs: "ov ?b = ys @ it # zs" by (auto dest: split_list)
  have s4: "slots (buckets s ?b) 4 \<noteq> NULL"
    using table_okD(1) [OF t b] xs by (auto simp: bucket_ok_def)
  let ?prev = "last_or (slots (buckets s ?b) 4) ys"
  have r: "refcount (items s nit) + 1 \<noteq> 0" using i by (simp add: insertable_def)
  note t0 = table_ok_ref [OF t r]
  let ?s0 = "item_ref nit s"
  have s0: "kbytes ?s0 = kbytes s" "nbuckets ?s0 = nbuckets s" "buckets ?s0 = buckets s" "next_item (items ?s0 p) = next_item (items s p)" for p
    by (simp_all add: item_ref_def)
  have find: "chain_find ?s0 (slots (buckets s ?b) 4) (next_item (items s (slots (buckets s ?b) 4))) (item_key nit) (ucast (keylen (items s nit))) (hv (items s nit)) =
      Some (?prev, it)"
    using chain_search(1) [OF t0(1), of ?b ys it zs "hv (items s nit)" "item_key nit" "ucast (keylen (items s nit))" "slots (buckets s ?b) 4"] b s4 xs e(2)
    by (simp add: s0 t0(3) nit_key [of s nit])
  let ?s1 = "upd_item ?prev (\<lambda>x. x\<lparr>next_item := nit\<rparr>) (upd_item nit (\<lambda>x. x\<lparr>next_item := next_item (items ?s0 it)\<rparr>) ?s0)"
  have "refcount (items ?s1 it) \<noteq> 0" "item_home C ?s1 it"
    using live_entry [OF t e(1)] nn by (auto simp: item_ref_def item_home_def)
  then obtain s' where s': "item_unref C it ?s1 = Some s'" "freed_only (upd_item it (\<lambda>x. x\<lparr>refcount := refcount x - 1\<rparr>) ?s1) s'"
    using item_unref_spec by blast
  have "hasht_put C nit NULL s = Some s'"
    using scan n find nn s4 s'(1) by (simp add: hasht_put_def Let_def bucket_of_def BUCKET_NITEMS_def s0)
  moreover have "put_done C ov nit {it} s (upd_item it (\<lambda>x. x\<lparr>refcount := refcount x - 1\<rparr>) ?s1)"
    by (rule put_replaces_link [OF t i refl xs s4 e(2)]) (use nn in \<open>simp_all add: item_ref_def Let_def\<close>)
  ultimately show ?thesis
    using put_done_freed s'(2) by blast
qed

lemma last_slot: "BUCKET_NITEMS - Suc 0 = 4"
  by (simp add: BUCKET_NITEMS_def)

lemma hasht_put_new:
  assumes t: "table_ok C ov s" and i: "insertable C ov nit s"
    and new_key: "\<And>p. p \<in> entries s ov \<Longrightarrow> ikey s p \<noteq> ikey s nit"
  shows "\<exists>s'. hasht_put C nit NULL s = Some s' \<and> put_done C ov nit {} s s'"
proof -
  let ?b = "bucket_of s (hv (items s nit))"
  have n: "nbuckets s \<noteq> 0" using t by (simp add: table_ok_def)
  note b = bucket_of_less [OF n, of "hv (items s nit)"]
  note ok = table_okD [OF t b]
  have r: "refcount (items s nit) + 1 \<noteq> 0" "nit \<noteq> NULL" using i by (simp_all add: insertable_def)
  note t0 = table_ok_ref [OF t r(1)]
  let ?s0 = "item_ref nit s"
  have s0: "kbytes ?s0 = kbytes s" "nbuckets ?s0 = nbuckets s" "buckets ?s0 = buckets s" "next_item (items ?s0 p) = next_item (items s p)" for p
    by (simp_all add: item_ref_def)
  obtain d where scan: "put_scan s ?b (item_key nit) (ucast (keylen (items s nit))) (hv (items s nit)) [0..<BUCKET_NITEMS] None = Inr d"
  proof (cases "put_scan s ?b (item_key nit) (ucast (keylen (items s nit))) (hv (items s nit)) [0..<BUCKET_NITEMS] None")
    case (Inl j)
    from put_scan_Inl [OF Inl] have j: "j < 5" "slots (buckets s ?b) j \<noteq> NULL" "ikey s (slots (buckets s ?b) j) = ikey s nit"
      using ok(1) by (auto simp: BUCKET_NITEMS_def bucket_ok_def key_matches_iff ikey_def unat_upcast)
    then show ?thesis
      using new_key slot_in_members [OF j(1,2)] ok(3) by blast
  qed blast
  let ?i = "case d of Some i \<Rightarrow> i | None \<Rightarrow> BUCKET_NITEMS - 1"
  have "?i < 5 \<and> (slots (buckets s ?b) ?i = NULL \<or> ?i = 4)"
  proof (cases d)
    case (Some i)
    from put_scan_free(1) [OF scan [unfolded Some]] Some show ?thesis by (auto simp: BUCKET_NITEMS_def)
  qed (simp add: BUCKET_NITEMS_def)
  then have slot: "?i < 5" "slots (buckets s ?b) ?i = NULL \<or> ?i = 4"
    by blast+
  have find: "(if slots (buckets s ?b) 4 \<noteq> NULL then chain_find ?s0 (slots (buckets s ?b) 4) (next_item (items s (slots (buckets s ?b) 4))) (item_key nit)
      (ucast (keylen (items s nit))) (hv (items s nit)) else Some (NULL, NULL)) = Some (prev, NULL)"
    if "prev = (if slots (buckets s ?b) 4 \<noteq> NULL then last_or (slots (buckets s ?b) 4) (ov ?b) else NULL)" for prev
    using chain_search(2) [OF t0(1), of ?b "hv (items s nit)" "item_key nit" "ucast (keylen (items s nit))" "slots (buckets s ?b) 4"] b that new_key ok(3)
    by (auto simp: s0 t0(3) nit_key [of s nit] members_def)
  let ?s' = "upd_bucket ?b (\<lambda>x. x\<lparr>hashes := (hashes x)(?i := hv (items s nit)), slots := (slots x)(?i := nit)\<rparr>)
    (upd_item nit (\<lambda>x. x\<lparr>next_item := slots (buckets ?s0 ?b) ?i\<rparr>) ?s0)"
  have "hasht_put C nit NULL s = Some ?s'"
    using scan n find [OF refl]
    by (cases "slots (buckets s ?b) 4 = NULL") (simp_all add: hasht_put_def Let_def bucket_of_def last_slot s0)
  moreover have "put_done C ov nit {} s ?s'"
    by (rule put_into_slot [OF t i refl new_key slot]) (simp_all add: item_ref_def)
  ultimately show ?thesis by blast
qed

text \<open>Insertion without a compared item always succeeds.\<close>

lemma hasht_put_spec:
  assumes t: "table_ok C ov s" and i: "insertable C ov nit s"
  shows "\<exists>s' R. hasht_put C nit NULL s = Some s' \<and> put_done C ov nit R s s'"
proof (cases "\<exists>it\<in>entries s ov. ikey s it = ikey s nit")
  case True
  then obtain it where e: "it \<in> entries s ov" "ikey s it = ikey s nit" by blast
  show ?thesis
  proof (cases "put_scan s (bucket_of s (hv (items s nit))) (item_key nit) (ucast (keylen (items s nit))) (hv (items s nit)) [0..<BUCKET_NITEMS] None")
    case (Inl j)
    from hasht_put_slot [OF t i Inl, of NULL] show ?thesis by blast
  next
    case (Inr d)
    from hasht_put_link [OF t i Inr e] show ?thesis by blast
  qed
next
  case False
  then show ?thesis using hasht_put_new [OF t i] by blast
qed

section \<open>The table is a map\<close>

lemma table_mapI:
  assumes "table_ok C ov s" and "\<And>k it. M k = Some it \<longleftrightarrow> it \<in> entries s ov \<and> ikey s it = k"
  shows "table_map C M s"
  using assms by (auto simp: table_map_def)

lemma put_done_map:
  assumes "table_ok C ov s" and M: "\<And>k it. M k = Some it \<longleftrightarrow> it \<in> entries s ov \<and> ikey s it = k"
    and d: "put_done C ov nit R s s'"
  shows "table_map C (M(ikey s nit \<mapsto> nit)) s'"
proof -
  obtain b xs P where p: "table_ok C (ov(b := xs)) s'" "entries s' (ov(b := xs)) = insert nit (entries s ov - R)" "bucket_frame b P s s'"
    and R: "R = {it \<in> entries s ov. ikey s it = ikey s nit}"
    using d by (auto simp: put_done_def)
  have "ikey s' it = ikey s it" for it
    using ikey_frame [OF p(3)] .
  then show ?thesis
    by (intro table_mapI [OF p(1)]) (auto simp: M p(2) R)
qed

text \<open>A table of at least one bucket can be set up.\<close>

lemma table_rounds:
  assumes "64 \<le> (n :: u64)"
  obtains k where "round_log2 (unat (n div 64)) = Some k" "k < 64"
proof -
  let ?m = "unat (n div 64)"
  have "?m \<noteq> 0" "?m < 2 ^ 58"
    using assms unsigned_less [of n, where 'a = nat] by (simp_all add: unat_div word_le_nat_alt div_eq_0_iff)
  moreover from this(2) have "floorlog 2 ?m \<le> 58"
    by (subst floorlog_le_iff) simp_all
  ultimately have "\<exists>k<64. round_log2 ?m = Some k"
    by (auto simp: round_log2_def Let_def)
  then show thesis
    using that by blast
qed

lemma empty_table_map:
  assumes "k < 64"
  shows "table_map C Map.empty (empty_table k s)"
proof -
  let ?s = "empty_table k s"
  have n: "nbuckets ?s \<noteq> 0"
    using assms by (simp add: empty_table_def)
  have m: "members ?s b [] = {}" for b
    by (simp add: members_def empty_table_def)
  have "table_ok C (\<lambda>_. []) ?s" "entries ?s (\<lambda>_. []) = {}"
    using n by (simp_all add: table_ok_def entries_def m) (simp add: bucket_ok_def empty_table_def)
  then show ?thesis
    by (intro table_mapI) auto
qed

text \<open>
  C7: the hash table refines a map from keys to items. For a table that stands for the map \<open>M\<close>, a lookup
  returns what \<open>M\<close> has for the key, or null, and adds one reference; inserting an item that is not in the
  table yet stores it under its key, whatever the bucket looks like, and moves one reference of the table
  from the item it replaces to the new one.
\<close>

theorem hashtable_refines_map:
  assumes "table_map C M s" and "\<And>k it. M k = Some it \<Longrightarrow> refcount (items s it) + 1 \<noteq> 0"
    and "nit \<noteq> NULL" and "nit \<notin> ran M" and "refcount (items s nit) + 1 \<noteq> 0" and "item_home C s nit"
  shows "(case M (h, region (kbytes s) key (unat klen)) of
        None \<Rightarrow> hasht_get key klen h s = Some (NULL, s)
      | Some it \<Rightarrow> hasht_get key klen h s = Some (it, item_ref it s) \<and> table_map C M (item_ref it s)) \<and>
    (\<exists>s'. hasht_put C nit NULL s = Some s' \<and> table_map C (M(ikey s nit \<mapsto> nit)) s' \<and>
      (\<forall>p. refcount (items s' p) = (if p = nit then refcount (items s p) + 1
         else if M (ikey s nit) = Some p then refcount (items s p) - 1 else refcount (items s p))))"
proof -
  obtain ov where t: "table_ok C ov s" and M: "\<And>k it. M k = Some it \<longleftrightarrow> it \<in> entries s ov \<and> ikey s it = k"
    using assms(1) by (auto simp: table_map_def)
  let ?k = "(h, region (kbytes s) key (unat klen))"
  have "case M ?k of None \<Rightarrow> hasht_get key klen h s = Some (NULL, s)
      | Some it \<Rightarrow> hasht_get key klen h s = Some (it, item_ref it s) \<and> table_map C M (item_ref it s)"
  proof (cases "M ?k")
    case None
    then show ?thesis
      using hasht_get_miss [OF t] M by force
  next
    case (Some it)
    then have e: "it \<in> entries s ov" "ikey s it = ?k" using M by auto
    note r = table_ok_ref [OF t assms(2) [OF Some]]
    have "table_map C M (item_ref it s)"
      by (rule table_mapI [OF r(1)]) (simp add: r M)
    then show ?thesis
      using hasht_get_hit [OF t e] Some by simp
  qed
  moreover have "insertable C ov nit s"
    using assms(3-6) M by (auto simp: insertable_def ran_def)
  then obtain s' R where s': "hasht_put C nit NULL s = Some s'" "put_done C ov nit R s s'"
    using hasht_put_spec [OF t] by blast
  moreover have "(M (ikey s nit) = Some p) \<longleftrightarrow> p \<in> R" for p
    using s'(2) M by (auto simp: put_done_def)
  ultimately show ?thesis
    using put_done_map [OF t M s'(2)] s'(2) unfolding put_done_def by auto
qed

text \<open>
  The witness: an empty table of one bucket, and an item with a key of two bytes.
\<close>

definition demo_settings :: settings where
  "demo_settings = \<lparr>segsize = 4096, segmaxnum = 4, segcqsize = 16, clean_ratio = 4 / 5, valuesize = 8, hasht_size = 64\<rparr>"

definition demo_kvs :: kvs where
  "demo_kvs = \<lparr>items = (\<lambda>_. \<lparr>next_item = NULL, hv = 7, vallen = 8, refcount = 1, keylen = 2, item_flags = 0\<rparr>), kbytes = (\<lambda>a. ucast a),
     segs = (\<lambda>_. \<lparr>seg_data = 0, seg_next = NULL, seg_offset = 0, seg_freed = 0, seg_size = 0, seg_flags = 0\<rparr>),
     free_segments = NULL, seg_base = 2 ^ 20, seg_headers = (\<lambda>_. 16), seg_alloced = 1, nbuckets = 1,
     buckets = (\<lambda>_. \<lparr>slots = (\<lambda>_. NULL), hashes = (\<lambda>_. 0)\<rparr>)\<rparr>"

lemma round_log2_1: "round_log2 1 = Some 0"
  by code_simp

theorem hashtable_refines_map_witness:
  "\<exists>s'. (hasht_init 64 demo_kvs \<bind> hasht_put demo_settings (2 ^ 20) NULL) = Some s' \<and>
     table_map demo_settings [ikey demo_kvs (2 ^ 20) \<mapsto> 2 ^ 20] s'"
proof -
  let ?s = "empty_table 0 demo_kvs"
  have i: "hasht_init 64 demo_kvs = Some ?s"
    using round_log2_1 by (simp add: hasht_init_def)
  have m: "table_map demo_settings Map.empty ?s"
    by (rule empty_table_map) simp
  have h: "item_home demo_settings ?s (2 ^ 20)"
    by (simp add: item_home_def demo_settings_def empty_table_def demo_kvs_def)
  have "ikey ?s (2 ^ 20) = ikey demo_kvs (2 ^ 20)" "refcount (items ?s (2 ^ 20)) + 1 \<noteq> 0"
    by (simp_all add: ikey_def empty_table_def demo_kvs_def)
  then show ?thesis
    using hashtable_refines_map [OF m _ _ _ _ h] i by force
qed

end
