(* ===== verification/Kvs_Store.thy ===== *)
theory Kvs_Store
  imports Hashtable_Put
begin

text \<open>
  \<^verbatim>\<open>apps/flexkvs/bench/main.c\<close>: the benchmark that is linked with the key-value store. Its requests work on
  the store directly: \<^verbatim>\<open>set_request\<close> and \<^verbatim>\<open>get_request\<close> look up, allocate, copy and insert, and relocate the items the
  cleaner has queued. A key is a region of memory; the values are read from and written to a connection's buffer.
\<close>

section \<open>Operations\<close>

definition BUFSIZE :: u64 where [c_consts]: "BUFSIZE = 1000000"

text \<open>The sizes of the request headers of the memcached protocol.\<close>

definition SET_HEADER :: u64 where [c_consts]: "SET_HEADER = 32"
definition GET_HEADER :: u64 where [c_consts]: "GET_HEADER = 24"

record key_ref =
  key_ptr :: u64
  key_len :: u64

record connection =
  tx_len :: u32
  tx_off :: u32
  tx_buf :: u64

definition memcpy :: "u64 \<Rightarrow> u64 \<Rightarrow> u64 \<Rightarrow> 'a segments_scheme \<Rightarrow> 'a segments_scheme" where
  "memcpy dst from n s = s\<lparr>kbytes := (\<lambda>a. if a - dst < n then kbytes s (from + (a - dst)) else kbytes s a)\<rparr>"

partial_function (option) clean_loop :: "settings \<Rightarrow> segment_source \<Rightarrow> bool \<Rightarrow> u64 \<Rightarrow> item_allocator \<Rightarrow> 'a kvs_scheme \<Rightarrow>
    (u64 \<times> item_allocator \<times> 'a kvs_scheme) option" where
  "clean_loop C src idle n ia s =
     (let (it, ia, s) = ialloc_cleanup_item C src idle ia s in
      if it = NULL then Some (n, ia, s)
      else do {
        (ia, s) \<leftarrow> (if refcount (items s it) \<noteq> 1 then do {
            (nit, ia, s) \<leftarrow> ialloc_alloc C src (ITEM_SIZE + ucast (keylen (items s it)) + ucast (vallen (items s it))) True ia s;
            assert (nit \<noteq> NULL);
            let s = upd_item nit (\<lambda>x. x\<lparr>hv := hv (items s it), vallen := vallen (items s it), keylen := keylen (items s it)\<rparr>) s;
            let s = memcpy (item_key nit) (item_key it) (ucast (ucast (keylen (items s it)) + vallen (items s it) :: u32)) s;
            s \<leftarrow> hasht_put C nit it s;
            s \<leftarrow> item_unref C nit s;
            Some (ia, s)
          } else Some (ia, s));
        s \<leftarrow> item_unref C it s;
        clean_loop C src idle (n + 1) ia s
      })"

definition clean_log :: "settings \<Rightarrow> segment_source \<Rightarrow> bool \<Rightarrow> item_allocator \<Rightarrow> 'a kvs_scheme \<Rightarrow> (u64 \<times> item_allocator \<times> 'a kvs_scheme) option" where
  "clean_log C src idle ia s =
     (let ia = (if \<not> idle then ialloc_cleanup_nextrequest ia else ia) in clean_loop C src idle 0 ia s)"

text \<open>Filling in an item: the header, the key behind it and the value behind the key.\<close>

definition fill_item :: "ptr \<Rightarrow> u32 \<Rightarrow> u64 \<Rightarrow> u16 \<Rightarrow> u64 \<Rightarrow> u32 \<Rightarrow> 'a segments_scheme \<Rightarrow> 'a segments_scheme" where
  "fill_item it h key kl v vl s =
     (let s = upd_item it (\<lambda>x. x\<lparr>hv := h, vallen := vl, keylen := kl\<rparr>) s;
          s = memcpy (item_key it) key (ucast kl) s
      in memcpy (item_value s it) v (ucast vl) s)"

definition set_request :: "settings \<Rightarrow> segment_source \<Rightarrow> connection \<Rightarrow> key_ref \<Rightarrow> item_allocator \<Rightarrow> 'a kvs_scheme \<Rightarrow> (item_allocator \<times> 'a kvs_scheme) option" where
  "set_request C src co k ia s = do {
     assert (tx_off co = 0);
     assert (tx_len co = 0);
     assert (SET_HEADER + key_len k + ucast (valuesize C) \<le> BUFSIZE);
     let v = tx_buf co + SET_HEADER + key_len k;
     let kl = (ucast (key_len k) :: u16);
     let vl = (ucast (valuesize C) :: u32);
     let h = jenkins_hash (kbytes s) (key_ptr k) (ucast kl);
     (it, s) \<leftarrow> hasht_get (key_ptr k) (ucast kl) h s;
     (it, ia, s) \<leftarrow> (if it = NULL then do {
         (it, ia, s) \<leftarrow> ialloc_alloc C src (ITEM_SIZE + ucast kl + ucast vl) False ia s;
         assert (it \<noteq> NULL);
         let s = fill_item it h (key_ptr k) kl v vl s;
         s \<leftarrow> hasht_put C it NULL s;
         (it', s) \<leftarrow> hasht_get (key_ptr k) (ucast kl) h s;
         assert (it = it');
         s \<leftarrow> item_unref C it s;
         Some (it, ia, s)
       } else Some (it, ia, fill_item it h (key_ptr k) kl v vl s));
     s \<leftarrow> item_unref C it s;
     (_, ia, s) \<leftarrow> clean_log C src True ia s;
     Some (ia, s)
   }"

definition get_request :: "settings \<Rightarrow> segment_source \<Rightarrow> connection \<Rightarrow> key_ref \<Rightarrow> item_allocator \<Rightarrow> 'a kvs_scheme \<Rightarrow> (item_allocator \<times> 'a kvs_scheme) option" where
  "get_request C src co k ia s = do {
     assert (GET_HEADER + key_len k \<le> BUFSIZE);
     let kl = (ucast (key_len k) :: u16);
     let h = jenkins_hash (kbytes s) (key_ptr k) (ucast kl);
     (it, s) \<leftarrow> hasht_get (key_ptr k) (ucast kl) h s;
     if it \<noteq> NULL then do {
       let s = memcpy (tx_buf co + GET_HEADER) (item_value s it) (ucast (vallen (items s it))) s;
       s \<leftarrow> item_unref C it s;
       (_, ia, s) \<leftarrow> clean_log C src True ia s;
       Some (ia, s)
     } else Some (ia, s)
   }"

end
