(* ===== verification/Kvs_Inv.thy ===== *)
theory Kvs_Inv
  imports Kvs_Store
begin

text \<open>
  The invariant of the key-value store at rest: every item of the table is alone in its block of a segment, and
  the keys and values in these blocks are the contents of the store.
\<close>

section \<open>Regions of memory\<close>

lemma in_block:
  assumes "unat dst + unat n \<le> 2 ^ 64"
  shows "a - dst < n \<longleftrightarrow> unat a \<in> block dst (unat n)"
proof (cases "unat dst \<le> unat a")
  case True
  then have "unat (a - dst) = unat a - unat dst"
    by (simp add: unat_sub word_le_nat_alt)
  then show ?thesis
    using True by (auto simp: block_def word_less_nat_alt)
next
  case False
  then have "unat (a - dst) = 2 ^ 64 + unat a - unat dst"
    using unat_less_power [of dst] by (simp add: unat_sub_if')
  then show ?thesis
    using False assms by (auto simp: block_def word_less_nat_alt)
qed

lemma unat_offset: "unat p + n < 2 ^ 64 \<Longrightarrow> i \<le> n \<Longrightarrow> unat (p + of_nat i :: u64) = unat p + i"
  using unat_add_lem [of p "of_nat i :: u64"] by (simp add: unat_of_nat take_bit_nat_eq_self)

lemma region_cong: "(\<And>i. i < n \<Longrightarrow> m' (p + of_nat i) = m (p + of_nat i)) \<Longrightarrow> region m' p n = region m p n"
  by (simp add: region_def)

lemma region_block:
  assumes "unat p + n < 2 ^ 64" and "\<And>a. unat a \<in> block p n \<Longrightarrow> m' a = m a"
  shows "region m' p n = region m p n"
  using assms unat_offset [OF assms(1)] by (intro region_cong) (simp add: block_def)

lemma memcpy_fields [simp]:
  "items (memcpy d f n s) = items s" "segs (memcpy d f n s) = segs s" "free_segments (memcpy d f n s) = free_segments s"
  "seg_base (memcpy d f n s) = seg_base s" "seg_headers (memcpy d f n s) = seg_headers s" "seg_alloced (memcpy d f n s) = seg_alloced s"
  "segments.more (memcpy d f n s) = segments.more s"
  by (simp_all add: memcpy_def)

lemma memcpy_kvs [simp]: "nbuckets (memcpy d f n s) = nbuckets s" "buckets (memcpy d f n s) = buckets s"
  by (simp_all add: memcpy_def)

lemma memcpy_kbytes:
  assumes "unat dst + unat n \<le> 2 ^ 64"
  shows "kbytes (memcpy dst from n s) a = (if unat a \<in> block dst (unat n) then kbytes s (from + (a - dst)) else kbytes s a)"
  by (simp add: memcpy_def in_block [OF assms])

lemma memcpy_region:
  assumes "unat dst + unat n < 2 ^ 64"
  shows "region (kbytes (memcpy dst from n s)) dst (unat n) = region (kbytes s) from (unat n)"
proof -
  have "kbytes (memcpy dst from n s) (dst + of_nat i) = kbytes s (from + of_nat i)" if "i < unat n" for i
    using that assms unat_offset [OF assms, of i] by (subst memcpy_kbytes) (simp_all add: block_def)
  then show ?thesis by (simp add: region_def)
qed

section \<open>Items of the store\<close>

definition isize :: "'a segments_scheme \<Rightarrow> ptr \<Rightarrow> nat" where
  "isize s it = 24 + unat (keylen (items s it)) + unat (vallen (items s it))"

definition ikbytes :: "'a segments_scheme \<Rightarrow> ptr \<Rightarrow> u8 list" where
  "ikbytes s it = region (kbytes s) (item_key it) (unat (keylen (items s it)))"

definition ivalue :: "'a segments_scheme \<Rightarrow> ptr \<Rightarrow> u8 list" where
  "ivalue s it = region (kbytes s) (item_value s it) (unat (vallen (items s it)))"

definition item_ok :: "settings \<Rightarrow> 'a segments_scheme \<Rightarrow> ptr \<Rightarrow> bool" where
  "item_ok C s it \<longleftrightarrow> hv (items s it) = hash_string (ikbytes s it) \<and> vallen (items s it) = ucast (valuesize C) \<and>
     refcount (items s it) = 1 \<and> block it (isize s it) \<subseteq> used s"

definition blocks_apart :: "'a segments_scheme \<Rightarrow> ptr set \<Rightarrow> bool" where
  "blocks_apart s E \<longleftrightarrow> (\<forall>x\<in>E. \<forall>y\<in>E. x \<noteq> y \<longrightarrow> block x (isize s x) \<inter> block y (isize s y) = {})"

text \<open>The allocator has no item to relocate and still holds its reserved segment.\<close>

definition at_rest :: "item_allocator \<Rightarrow> bool" where
  "at_rest ia \<longleftrightarrow> cleanup_queue ia (cq_head ia) = NULL \<and> reserved ia \<noteq> NULL"

definition contents :: "(u8 list \<rightharpoonup> u8 list) \<Rightarrow> ptr set \<Rightarrow> 'a segments_scheme \<Rightarrow> bool" where
  "contents M E s \<longleftrightarrow> (\<forall>k v. M k = Some v \<longleftrightarrow> (\<exists>it\<in>E. ikbytes s it = k \<and> ivalue s it = v))"

definition store_parts :: "settings \<Rightarrow> segment_source \<Rightarrow> item_allocator \<Rightarrow> (u8 list \<rightharpoonup> u8 list) \<Rightarrow>
    ptr list \<Rightarrow> ptr list \<Rightarrow> (u64 \<Rightarrow> ptr list) \<Rightarrow> 'a kvs_scheme \<Rightarrow> bool" where
  "store_parts C src ia M fs L ov s \<longleftrightarrow> alloc_ok C src ia {} fs L s \<and> table_ok C ov s \<and> at_rest ia \<and>
     (\<forall>it\<in>entries s ov. item_ok C s it) \<and> blocks_apart s (entries s ov) \<and> contents M (entries s ov) s"

definition store_ok :: "settings \<Rightarrow> segment_source \<Rightarrow> item_allocator \<Rightarrow> (u8 list \<rightharpoonup> u8 list) \<Rightarrow> 'a kvs_scheme \<Rightarrow> bool" where
  "store_ok C src ia M s \<longleftrightarrow> (\<exists>fs L ov. store_parts C src ia M fs L ov s)"

text \<open>Memory in use belongs to a segment and has an address.\<close>

lemma used_arena:
  assumes "segs_ok C src s" and "a \<in> used s"
  shows "\<exists>i < segmaxnum C. seg_headers s i \<noteq> NULL \<and> unat (seg_base s) + unat (segsize C) * unat i \<le> a \<and>
    a < unat (seg_base s) + unat (segsize C) * unat i + unat (segsize C)"
proof -
  obtain h where h: "h \<in> headers s" "a \<in> seg_used s h"
    using assms(2) by (auto simp: used_def)
  obtain i where i: "i < segmaxnum C" "seg_headers s i = h" "seg_ok C i h s"
    using segs_okD(2) [OF assms(1) h(1)] by blast
  have "a \<in> seg_room C s h"
    using h seg_used_room [OF assms(1) h(1)] by blast
  then show ?thesis
    using i h(1) by (intro exI [of _ i]) (auto simp: seg_room_def block_def seg_ok_def headers_def)
qed

definition arena :: "settings \<Rightarrow> 'a segments_scheme \<Rightarrow> nat set" where
  "arena C s = {unat (seg_base s)..<unat (seg_base s) + unat (segsize C) * unat (segmaxnum C)}"

lemma used_in_arena: "segs_ok C src s \<Longrightarrow> used s \<subseteq> arena C s"
proof
  fix a assume s: "segs_ok C src s" and "a \<in> used s"
  then obtain i where i: "i < segmaxnum C" "unat (seg_base s) + unat (segsize C) * unat i \<le> a"
    "a < unat (seg_base s) + unat (segsize C) * unat i + unat (segsize C)"
    using used_arena by blast
  have "unat (segsize C) * Suc (unat i) \<le> unat (segsize C) * unat (segmaxnum C)"
    using i(1) by (intro mult_le_mono2) (simp add: word_less_nat_alt)
  then show "a \<in> arena C s"
    using i by (simp add: arena_def)
qed

lemma used_home:
  assumes s: "segs_ok C src s" and u: "unat it \<in> used s"
  shows "item_home C s it"
proof -
  obtain i where i: "i < segmaxnum C" "seg_headers s i \<noteq> NULL" "unat (seg_base s) + unat (segsize C) * unat i \<le> unat it"
    "unat it < unat (seg_base s) + unat (segsize C) * unat i + unat (segsize C)"
    using used_arena [OF s u] by blast
  have z: "0 < unat (segsize C)"
    using segs_okD(1) [OF s] by (simp add: arena_ok_def word_less_nat_alt)
  have "unat (it - seg_base s) = unat it - unat (seg_base s)"
    using i(3) by (simp add: unat_sub word_le_nat_alt)
  then have "unat (it - seg_base s) div unat (segsize C) = unat i"
    using i(3,4) z by (intro div_nat_eqI) (auto simp: algebra_simps)
  then have "(it - seg_base s) div segsize C = i"
    by (intro word_unat_eq_iff [THEN iffD2]) (simp add: unat_div)
  then show ?thesis
    using i z by (auto simp: item_home_def)
qed

lemma used_address: "segs_ok C src s \<Longrightarrow> block p n \<subseteq> used s \<Longrightarrow> 0 < n \<Longrightarrow> unat p + n < 2 ^ 64 \<and> unat p \<in> used s \<and> p \<noteq> NULL"
proof -
  assume s: "segs_ok C src s" and b: "block p n \<subseteq> used s" and n: "0 < n"
  then have m: "unat p \<in> used s" "unat p + n - 1 \<in> used s"
    by (auto simp: block_def)
  then have "unat p + n - 1 \<in> arena C s" "unat p \<in> arena C s"
    using used_in_arena [OF s] by blast+
  then show "unat p + n < 2 ^ 64 \<and> unat p \<in> used s \<and> p \<noteq> NULL"
    using segs_okD(1) [OF s] n m(1) by (auto simp: arena_def arena_ok_def word_less_nat_alt)
qed

section \<open>Filling in an item\<close>

lemma unat_item_parts:
  assumes "unat it + (24 + unat (kl :: u16) + n) < 2 ^ 64"
  shows "unat (item_key it) = unat it + 24" and "unat (it + ITEM_SIZE + ucast kl) = unat it + 24 + unat kl"
proof -
  have e: "item_key it = it + of_nat 24" "it + ITEM_SIZE + ucast kl = it + of_nat (24 + unat kl)"
    by (simp_all add: item_key_def ITEM_SIZE_def)
  show "unat (item_key it) = unat it + 24" "unat (it + ITEM_SIZE + ucast kl) = unat it + 24 + unat kl"
    unfolding e using unat_offset [OF assms, of 24] unat_offset [OF assms, of "24 + unat kl"] by simp_all
qed

lemma fill_item_fields:
  "items (fill_item it h key kl v vl s) = (items s)(it := (items s it)\<lparr>hv := h, vallen := vl, keylen := kl\<rparr>)"
  "segs (fill_item it h key kl v vl s) = segs s" "free_segments (fill_item it h key kl v vl s) = free_segments s"
  "seg_base (fill_item it h key kl v vl s) = seg_base s" "seg_headers (fill_item it h key kl v vl s) = seg_headers s"
  "seg_alloced (fill_item it h key kl v vl s) = seg_alloced s" "segments.more (fill_item it h key kl v vl s) = segments.more s"
  by (simp_all add: fill_item_def Let_def)

lemma fill_item_kvs:
  "nbuckets (fill_item it h key kl v vl s) = nbuckets s" "buckets (fill_item it h key kl v vl s) = buckets s"
  by (simp_all add: fill_item_def Let_def)

lemma fill_item_bytes:
  assumes b: "unat it + (24 + unat kl + unat vl) < 2 ^ 64"
    and v: "unat v + unat vl < 2 ^ 64" "block v (unat vl) \<inter> block it (24 + unat kl + unat vl) = {}"
    and s'_def: "s' = fill_item it h key kl v vl s"
  shows "ikbytes s' it = region (kbytes s) key (unat kl)" and "ivalue s' it = region (kbytes s) v (unat vl)"
    and "unat a \<notin> block it (24 + unat kl + unat vl) \<Longrightarrow> kbytes s' a = kbytes s a"
proof -
  note p = unat_item_parts [OF b]
  let ?s1 = "upd_item it (\<lambda>x. x\<lparr>hv := h, vallen := vl, keylen := kl\<rparr>) s"
  let ?s2 = "memcpy (item_key it) key (ucast kl) ?s1"
  let ?val = "it + ITEM_SIZE + ucast kl"
  have s': "s' = memcpy ?val v (ucast vl) ?s2"
    by (simp add: s'_def fill_item_def item_value_def Let_def)
  have kb: "unat (item_key it) + unat (ucast kl :: u64) < 2 ^ 64" and vb: "unat ?val + unat (ucast vl :: u64) < 2 ^ 64"
    using b by (simp_all add: p unat_upcast)
  note k2 = memcpy_kbytes [OF less_imp_le [OF kb], of key ?s1] and k3 = memcpy_kbytes [OF less_imp_le [OF vb], of v ?s2]
  have "region (kbytes s') (item_key it) (unat kl) = region (kbytes ?s2) (item_key it) (unat kl)"
  proof (rule region_block)
    show "unat (item_key it) + unat kl < 2 ^ 64" using kb by (simp add: unat_upcast)
    show "kbytes s' a = kbytes ?s2 a" if "unat a \<in> block (item_key it) (unat kl)" for a
      using that unfolding s' k3 by (simp add: block_def p)
  qed
  also have "\<dots> = region (kbytes s) key (unat kl)"
    using memcpy_region [OF kb, of key ?s1] by (simp add: unat_upcast)
  finally show "ikbytes s' it = region (kbytes s) key (unat kl)"
    by (simp add: ikbytes_def s')
  have "region (kbytes s') ?val (unat vl) = region (kbytes ?s2) v (unat vl)"
    using memcpy_region [OF vb, of v ?s2] by (simp add: s' unat_upcast)
  also have "\<dots> = region (kbytes s) v (unat vl)"
  proof (rule region_block [OF v(1)])
    show "kbytes ?s2 a = kbytes s a" if "unat a \<in> block v (unat vl)" for a
    proof -
      have "unat a \<notin> block (item_key it) (unat kl)"
        using that v(2) by (auto simp: block_def p)
      then show ?thesis unfolding k2 by (simp add: unat_upcast)
    qed
  qed
  finally show "ivalue s' it = region (kbytes s) v (unat vl)"
    by (simp add: ivalue_def item_value_def s')
  show "kbytes s' a = kbytes s a" if "unat a \<notin> block it (24 + unat kl + unat vl)"
  proof -
    have "unat a \<notin> block (item_key it) (unat kl)" "unat a \<notin> block ?val (unat vl)"
      using that by (auto simp: block_def p)
    then show ?thesis unfolding s' k3 k2 by (simp add: unat_upcast)
  qed
qed

text \<open>Keys and values of other items stay as they are.\<close>

lemma item_bytes_same:
  assumes "unat it + isize s it < 2 ^ 64" and "items s' it = items s it"
    and "\<And>a. unat a \<in> block it (isize s it) \<Longrightarrow> kbytes s' a = kbytes s a"
  shows "ikbytes s' it = ikbytes s it" and "ivalue s' it = ivalue s it"
proof -
  have b: "unat it + (24 + unat (keylen (items s it)) + unat (vallen (items s it))) < 2 ^ 64"
    using assms(1) by (simp add: isize_def)
  note p = unat_item_parts [OF b]
  show "ikbytes s' it = ikbytes s it"
    unfolding ikbytes_def assms(2)
    by (rule region_block) (use b in \<open>auto simp: p block_def isize_def intro!: assms(3)\<close>)
  show "ivalue s' it = ivalue s it"
    unfolding ivalue_def item_value_def assms(2)
    by (rule region_block) (use b in \<open>auto simp: p block_def isize_def intro!: assms(3)\<close>)
qed

lemma ikey_ikbytes: "ikey s it = (hv (items s it), ikbytes s it)"
  by (simp add: ikey_def ikbytes_def)

end
