(* ===== verification/Kvs_Requests.thy ===== *)
theory Kvs_Requests
  imports Kvs_Inv
begin

text \<open>The requests of the benchmark implement a map from keys to values.\<close>

section \<open>Frames\<close>

lemma path_upd: "segs s' = segs s \<Longrightarrow> path s' p hs = path s p hs"
  by (rule path_cong) simp

lemma seg_frame_fields:
  assumes "seg_frame s s'"
  shows "seg_data (segs s' h) = seg_data (segs s h)" "seg_size (segs s' h) = seg_size (segs s h)" "seg_offset (segs s' h) = seg_offset (segs s h)"
    "seg_next (segs s' h) = seg_next (segs s h)" "seg_flags (segs s' h) = seg_flags (segs s h)"
proof -
  have f: "segs s' h = (segs s h)\<lparr>seg_freed := seg_freed (segs s' h)\<rparr>"
    using assms by (simp add: seg_frame_def)
  show "seg_data (segs s' h) = seg_data (segs s h)" "seg_size (segs s' h) = seg_size (segs s h)" "seg_offset (segs s' h) = seg_offset (segs s h)"
    "seg_next (segs s' h) = seg_next (segs s h)" "seg_flags (segs s' h) = seg_flags (segs s h)"
    by (subst f, simp)+
qed

lemma seg_frame_alloc:
  assumes "seg_frame s s'"
  shows "alloc_ok C src ia X fs L s' \<longleftrightarrow> alloc_ok C src ia X fs L s" and "used s' = used s" and "arena C s' = arena C s"
    and "segs_ok C src s' \<longleftrightarrow> segs_ok C src s" and "item_home C s' it \<longleftrightarrow> item_home C s it"
proof -
  note f = seg_frame_fields [OF assms]
  have g: "free_segments s' = free_segments s" "seg_alloced s' = seg_alloced s" "seg_base s' = seg_base s" "seg_headers s' = seg_headers s"
    using assms by (simp_all add: seg_frame_def)
  have p: "path s' p hs = path s p hs" for p hs
    by (rule path_cong) (rule f)
  have h: "headers s' = headers s"
    by (simp add: headers_def g)
  show so: "segs_ok C src s' \<longleftrightarrow> segs_ok C src s"
    by (simp add: segs_ok_def arena_ok_def seg_ok_def g f)
  show "alloc_ok C src ia X fs L s' \<longleftrightarrow> alloc_ok C src ia X fs L s"
    by (simp add: alloc_ok_def so free_list_def chain_def inactive_def p g f h)
  show "used s' = used s"
    by (simp add: used_def seg_used_def h f)
  show "arena C s' = arena C s" "item_home C s' it \<longleftrightarrow> item_home C s it"
    by (simp_all add: arena_def item_home_def g)
qed

lemma table_ok_keys:
  assumes t: "table_ok C ov s" and f: "nbuckets s' = nbuckets s" "buckets s' = buckets s"
    and e: "\<And>p. p \<in> entries s ov \<Longrightarrow> hv (items s' p) = hv (items s p) \<and> next_item (items s' p) = next_item (items s p) \<and>
      refcount (items s' p) \<noteq> 0 \<and> ikey s' p = ikey s p \<and> item_home C s' p"
  shows "table_ok C ov s'" and "entries s' ov = entries s ov"
proof -
  have m: "members s' b xs = members s b xs" for b xs
    by (simp add: members_def f)
  show en: "entries s' ov = entries s ov"
    by (simp add: entries_def m f)
  have "bucket_ok s' b (ov b) \<and> (\<forall>p\<in>members s b (ov b). entry_ok C s' b p)" if b: "b < nbuckets s" for b
  proof
    show "bucket_ok s' b (ov b)"
      by (rule bucket_ok_cong [OF table_okD(1) [OF t b]]) (use table_okD(3) [OF t b] e f in auto)
    show "\<forall>p\<in>members s b (ov b). entry_ok C s' b p"
    proof
      fix p assume p: "p \<in> members s b (ov b)"
      then have "entry_ok C s b p" "p \<in> entries s ov"
        using table_okD(2,3) [OF t b] by auto
      then show "entry_ok C s' b p"
        using e f by (simp add: entry_ok_def bucket_of_def)
    qed
  qed
  moreover have "inj_on (ikey s') (entries s ov)"
    using t e by (auto simp: table_ok_def inj_on_def)
  ultimately show "table_ok C ov s'"
    using t by (simp add: table_ok_def f m en)
qed

section \<open>Requests\<close>

lemma clean_log_at_rest: "at_rest ia \<Longrightarrow> clean_log C src True ia s = Some (0, ia, s)"
  by (simp add: clean_log_def at_rest_def clean_loop.simps ialloc_cleanup_item_def Let_def)

definition outside :: "settings \<Rightarrow> u64 \<Rightarrow> nat \<Rightarrow> 'a segments_scheme \<Rightarrow> bool" where
  "outside C p n s \<longleftrightarrow> unat p + n < 2 ^ 64 \<and> block p n \<inter> arena C s = {}"

text \<open>The key and the value of a request, in memory outside the segments.\<close>

definition key_bytes :: "key_ref \<Rightarrow> 'a segments_scheme \<Rightarrow> u8 list" where
  "key_bytes k s = region (kbytes s) (key_ptr k) (unat (key_len k))"

definition value_ptr :: "connection \<Rightarrow> key_ref \<Rightarrow> u64" where
  "value_ptr co k = tx_buf co + SET_HEADER + key_len k"

definition set_value :: "settings \<Rightarrow> connection \<Rightarrow> key_ref \<Rightarrow> 'a segments_scheme \<Rightarrow> u8 list" where
  "set_value C co k s = region (kbytes s) (value_ptr co k) (unat (valuesize C))"

definition request_ok :: "settings \<Rightarrow> connection \<Rightarrow> key_ref \<Rightarrow> 'a segments_scheme \<Rightarrow> bool" where
  "request_ok C co k s \<longleftrightarrow> tx_off co = 0 \<and> tx_len co = 0 \<and> unat (key_len k) < 2 ^ 16 \<and>
     24 + unat (key_len k) + unat (valuesize C) < unat (segsize C) \<and>
     outside C (key_ptr k) (unat (key_len k)) s \<and> outside C (value_ptr co k) (unat (valuesize C)) s"

lemma ucast_twice [simp]: "(ucast (ucast (x :: u16) :: u32) :: u64) = ucast x"
  by (rule bit_word_eqI) (auto simp: bit_simps dest: bit_imp_le_length)

lemma request_lengths:
  assumes "request_ok C co k s"
  shows "unat (ucast (key_len k) :: u16) = unat (key_len k)" and "(ucast (ucast (key_len k) :: u16) :: u64) = key_len k"
    and "SET_HEADER + key_len k + ucast (valuesize C) \<le> BUFSIZE" and "GET_HEADER + key_len k \<le> BUFSIZE"
    and "unat (ucast (valuesize C) :: u32) = unat (valuesize C)" and "unat (ucast (valuesize C) :: u64) = unat (valuesize C)"
    and "unat (ITEM_SIZE + key_len k + ucast (valuesize C)) = 24 + unat (key_len k) + unat (valuesize C)"
proof -
  have l: "unat (key_len k) < 2 ^ 16" "unat (valuesize C) < 2 ^ 16"
    using assms unat_less_power [of "valuesize C"] by (simp_all add: request_ok_def)
  show k: "unat (ucast (key_len k) :: u16) = unat (key_len k)"
    using l by (simp add: unsigned_ucast_eq take_bit_nat_eq_self)
  show "(ucast (ucast (key_len k) :: u16) :: u64) = key_len k"
    by (intro word_unat_eq_iff [THEN iffD2]) (simp only: unat_upcast k)
  show v: "unat (ucast (valuesize C) :: u32) = unat (valuesize C)" "unat (ucast (valuesize C) :: u64) = unat (valuesize C)"
    using l by (simp_all add: unsigned_ucast_eq take_bit_nat_eq_self)
  have a: "unat (32 + key_len k) = 32 + unat (key_len k)" "unat (24 + key_len k) = 24 + unat (key_len k)"
    using l unat_add_lem [of 32 "key_len k"] unat_add_lem [of 24 "key_len k"] by simp_all
  have "unat (32 + key_len k + ucast (valuesize C)) = 32 + unat (key_len k) + unat (valuesize C)"
    using l unat_add_lem [of "32 + key_len k" "ucast (valuesize C)"] by (simp add: a v)
  moreover have "unat (24 + key_len k + ucast (valuesize C)) = 24 + unat (key_len k) + unat (valuesize C)"
    using l unat_add_lem [of "24 + key_len k" "ucast (valuesize C)"] by (simp add: a v)
  ultimately show "unat (ITEM_SIZE + key_len k + ucast (valuesize C)) = 24 + unat (key_len k) + unat (valuesize C)"
    "SET_HEADER + key_len k + ucast (valuesize C) \<le> BUFSIZE" "GET_HEADER + key_len k \<le> BUFSIZE"
    using l a by (simp_all add: c_consts word_le_nat_alt)
qed

lemma contents_upd:
  assumes "contents M E s" and "\<And>x. x \<in> E - {it} \<Longrightarrow> ikbytes s' x = ikbytes s x \<and> ivalue s' x = ivalue s x \<and> ikbytes s x \<noteq> K"
    and "ikbytes s' it = K" and "ivalue s' it = V" and "it \<in> E \<Longrightarrow> ikbytes s it = K"
  shows "contents (M(K \<mapsto> V)) (insert it E) s'"
  unfolding contents_def
proof (intro allI)
  fix k v
  show "(M(K \<mapsto> V)) k = Some v \<longleftrightarrow> (\<exists>x\<in>insert it E. ikbytes s' x = k \<and> ivalue s' x = v)"
  proof (cases "k = K")
    case True
    have "x = it" if "x \<in> insert it E" "ikbytes s' x = K" for x
      using that assms(2) by (metis Diff_iff insert_iff singletonD)
    then show ?thesis using True assms(3,4) by auto
  next
    case False
    then have "(\<exists>x\<in>insert it E. ikbytes s' x = k \<and> ivalue s' x = v) \<longleftrightarrow> (\<exists>x\<in>E. ikbytes s x = k \<and> ivalue s x = v)"
      using assms(2,3,5) by (metis Diff_iff insert_iff singletonD)
    then show ?thesis
      using assms(1) False by (simp add: contents_def)
  qed
qed

lemma store_partsD:
  assumes "store_parts C src ia M fs L ov s"
  shows "alloc_ok C src ia {} fs L s" "table_ok C ov s" "at_rest ia" "\<And>it. it \<in> entries s ov \<Longrightarrow> item_ok C s it"
    "blocks_apart s (entries s ov)" "contents M (entries s ov) s" "segs_ok C src s"
    "\<And>it. it \<in> entries s ov \<Longrightarrow> unat it + isize s it < 2 ^ 64 \<and> unat it \<in> used s"
proof -
  note p = assms [unfolded store_parts_def]
  show "alloc_ok C src ia {} fs L s" "table_ok C ov s" "at_rest ia" "\<And>it. it \<in> entries s ov \<Longrightarrow> item_ok C s it"
    "blocks_apart s (entries s ov)" "contents M (entries s ov) s"
    using p by blast+
  show so: "segs_ok C src s"
    using p by (simp add: alloc_ok_def)
  show "unat it + isize s it < 2 ^ 64 \<and> unat it \<in> used s" if "it \<in> entries s ov" for it
    using used_address [OF so, of it "isize s it"] p that by (auto simp: item_ok_def isize_def)
qed

lemma same_bytes_same_item:
  assumes "store_parts C src ia M fs L ov s" and "x \<in> entries s ov" and "y \<in> entries s ov" and "ikbytes s x = ikbytes s y"
  shows "x = y"
proof -
  have "ikey s x = ikey s y"
    using store_partsD(4) [OF assms(1)] assms(2-4) by (simp add: ikey_ikbytes item_ok_def)
  moreover have "inj_on (ikey s) (entries s ov)"
    using store_partsD(2) [OF assms(1)] by (simp add: table_ok_def)
  ultimately show ?thesis
    using assms(2,3) by (simp add: inj_on_def)
qed

lemma request_hash: "jenkins_hash (kbytes s) (key_ptr k) (key_len k) = hash_string (key_bytes k s)"
  by (simp add: jenkins_hash_eq key_bytes_def)

text \<open>
  What a set request does to the store, for any code that performs it: the item with the key is overwritten, or a new
  one is allocated, filled in and inserted; then the request's reference to it is dropped.
\<close>

definition set_steps :: "settings \<Rightarrow> segment_source \<Rightarrow> connection \<Rightarrow> key_ref \<Rightarrow> item_allocator \<Rightarrow> 'a kvs_scheme \<Rightarrow>
    ptr \<Rightarrow> item_allocator \<Rightarrow> 'a kvs_scheme \<Rightarrow> bool" where
  "set_steps C src co k ia s it ia' s' \<longleftrightarrow>
     (let h = hash_string (key_bytes k s); vl = (ucast (valuesize C) :: u32);
          write = fill_item it h (key_ptr k) (ucast (key_len k)) (value_ptr co k) vl
      in it \<noteq> NULL \<and>
        (hasht_get (key_ptr k) (key_len k) h s = Some (it, item_ref it s) \<and> ia' = ia \<and> item_unref C it (write (item_ref it s)) = Some s' \<or>
         (\<exists>s1 s2. hasht_get (key_ptr k) (key_len k) h s = Some (NULL, s) \<and>
            ialloc_alloc C src (ITEM_SIZE + key_len k + ucast (valuesize C)) False ia s = Some (it, ia', s1) \<and>
            hasht_put C it NULL (write s1) = Some s2 \<and> item_unref C it s2 = Some s')))"

text \<open>The invariant after an item has been overwritten in place.\<close>

lemma store_parts_overwrite:
  assumes sp: "store_parts C src ia M fs L ov s" and it: "it \<in> entries s ov" "ikbytes s it = K"
    and fr: "seg_frame s s'" and i: "items s' = items s" "nbuckets s' = nbuckets s" "buckets s' = buckets s"
    and new: "ikbytes s' it = K" "ivalue s' it = V" and out: "\<And>a. unat a \<notin> block it (isize s it) \<Longrightarrow> kbytes s' a = kbytes s a"
  shows "store_parts C src ia (M(K \<mapsto> V)) fs L ov s'" and "entries s' ov = entries s ov"
proof -
  note p = store_partsD [OF sp] and sf = seg_frame_alloc [OF fr]
  have oth: "ikbytes s' x = ikbytes s x \<and> ivalue s' x = ivalue s x" if x: "x \<in> entries s ov" "x \<noteq> it" for x
  proof -
    have "block x (isize s x) \<inter> block it (isize s it) = {}"
      using p(5) x it(1) by (simp add: blocks_apart_def)
    then show ?thesis
      using p(8) [OF x(1)] out by (intro conjI item_bytes_same) (auto simp: i)
  qed
  have ik: "ikbytes s' x = ikbytes s x" if "x \<in> entries s ov" for x
    using oth that new(1) it(2) by (cases "x = it") auto
  have t: "table_ok C ov s'" and en: "entries s' ov = entries s ov"
    by (rule table_ok_keys [OF p(2) i(2,3)]; use live_entry [OF p(2)] ik sf(5) in \<open>simp add: ikey_ikbytes i(1)\<close>)+
  have "item_ok C s' x" if "x \<in> entries s ov" for x
    using p(4) [OF that] ik [OF that] sf(2) by (auto simp: item_ok_def i(1) isize_def)
  moreover have "contents (M(K \<mapsto> V)) (insert it (entries s ov)) s'"
  proof (rule contents_upd [OF p(6) _ new])
    show "ikbytes s' x = ikbytes s x \<and> ivalue s' x = ivalue s x \<and> ikbytes s x \<noteq> K" if "x \<in> entries s ov - {it}" for x
      using that oth [of x] same_bytes_same_item [OF sp _ it(1), of x] it(2) by auto
  qed (rule it(2))
  then have "contents (M(K \<mapsto> V)) (entries s ov) s'"
    using it(1) by (simp add: insert_absorb)
  moreover have "blocks_apart s' (entries s ov)"
    using p(5) by (simp add: blocks_apart_def isize_def i(1))
  ultimately show "store_parts C src ia (M(K \<mapsto> V)) fs L ov s'"
    using p(1,3) t en sf(1) by (simp add: store_parts_def)
  show "entries s' ov = entries s ov"
    by (rule en)
qed

lemma set_existing:
  assumes sp: "store_parts C src ia M fs L ov s" and r: "request_ok C co k s"
    and it: "it \<in> entries s ov" "ikbytes s it = key_bytes k s"
  shows "\<exists>s'. set_request C src co k ia s = Some (ia, s') \<and>
    store_parts C src ia (M(key_bytes k s \<mapsto> set_value C co k s)) fs L ov s' \<and> seg_frame s s' \<and>
    set_steps C src co k ia s it ia s' \<and> entries s' ov = entries s ov \<and>
    (\<forall>a. unat a \<notin> arena C s \<longrightarrow> kbytes s' a = kbytes s a)"
proof -
  note p = store_partsD [OF sp] and l = request_lengths [OF r]
  let ?K = "key_bytes k s" and ?V = "set_value C co k s"
  define h where "h = hash_string ?K"
  let ?kl = "ucast (key_len k) :: u16" and ?vl = "ucast (valuesize C) :: u32"
  have io: "hv (items s it) = h" "vallen (items s it) = ?vl" "refcount (items s it) = 1" "block it (isize s it) \<subseteq> used s"
    using p(4) [OF it(1)] it(2) by (simp_all add: item_ok_def h_def)
  have "unat (keylen (items s it)) = unat ?kl"
    using arg_cong [OF it(2), of length] by (simp add: ikbytes_def key_bytes_def l)
  then have kl: "keylen (items s it) = ?kl"
    by (rule word_unat_eq_iff [THEN iffD2])
  have get: "hasht_get (key_ptr k) (key_len k) h s = Some (it, item_ref it s)"
    by (rule hasht_get_hit [OF p(2) it(1)]) (simp add: ikey_ikbytes io it(2) l key_bytes_def)
  have hh: "jenkins_hash (kbytes s) (key_ptr k) (key_len k) = h"
    by (simp add: request_hash h_def)
  have nn: "it \<noteq> NULL" using entry_member(2) [OF p(2) it(1)] .
  let ?s2 = "fill_item it h (key_ptr k) ?kl (value_ptr co k) ?vl (item_ref it s)"
  define s3 where "s3 = upd_item it (\<lambda>x. x\<lparr>refcount := refcount x - 1\<rparr>) ?s2"
  have it2: "items ?s2 = (items s)(it := (items s it)\<lparr>refcount := 2\<rparr>)"
    using io kl by (auto simp: fill_item_fields item_ref_def fun_eq_iff)
  have it3: "items s3 = items s"
    using io by (auto simp: s3_def it2 fun_eq_iff)
  have unref: "item_unref C it ?s2 = Some s3"
    by (simp add: item_unref_def it2 s3_def)
  have run: "set_request C src co k ia s = Some (ia, s3)"
    using r l get nn unref
    by (simp add: clean_log_at_rest [OF p(3)] set_request_def hh request_ok_def value_ptr_def Let_def)
  have fr: "seg_frame s s3"
    by (rule seg_frame_same) (simp_all add: s3_def fill_item_fields item_ref_def)
  have f3: "nbuckets s3 = nbuckets s" "buckets s3 = buckets s" "seg_base s3 = seg_base s" "seg_headers s3 = seg_headers s" "kbytes s3 = kbytes ?s2"
    by (simp_all add: s3_def fill_item_fields fill_item_kvs item_ref_def)
  have isz: "isize s it = 24 + unat ?kl + unat ?vl"
    by (simp add: isize_def kl io)
  have b: "unat it + (24 + unat ?kl + unat ?vl) < 2 ^ 64"
    using p(8) [OF it(1)] by (simp add: isz)
  have ia: "block it (isize s it) \<subseteq> arena C s"
    using io(4) used_in_arena [OF p(7)] by blast
  have v: "unat (value_ptr co k) + unat ?vl < 2 ^ 64" "block (value_ptr co k) (unat ?vl) \<inter> block it (24 + unat ?kl + unat ?vl) = {}"
    using r ia by (auto simp: request_ok_def outside_def l isz)
  have kb: "kbytes (item_ref it s) = kbytes s" by (simp add: item_ref_def)
  note fb = fill_item_bytes [where h = h and key = "key_ptr k" and s = "item_ref it s", OF b v refl, unfolded kb]
  have b3: "ikbytes s3 it = ?K" "ivalue s3 it = ?V"
    using fb(1,2) by (simp_all add: ikbytes_def ivalue_def item_value_def key_bytes_def set_value_def l it2 it3 f3)
  have out: "kbytes s3 a = kbytes s a" if "unat a \<notin> block it (isize s it)" for a
    using fb(3) that by (simp add: isz f3)
  have i3: "nbuckets s3 = nbuckets s" "buckets s3 = buckets s"
    by (simp_all add: f3)
  note t = store_parts_overwrite [OF sp it fr it3 i3 b3 out]
  have "set_steps C src co k ia s it ia s3"
    using get nn unref by (simp add: set_steps_def Let_def h_def)
  then show ?thesis
    using run fr out ia t by blast
qed

text \<open>Dropping one of several references.\<close>

lemma item_unref_shared:
  assumes "refcount (items s it) \<noteq> 0" and "refcount (items s it) \<noteq> 1"
  shows "item_unref C it s = Some (upd_item it (\<lambda>x. x\<lparr>refcount := refcount x - 1\<rparr>) s)"
  using assms by (simp add: item_unref_def word_gt_0 Let_def)

text \<open>A new item, allocated and filled in, beside the items of the store.\<close>

lemma new_item_filled:
  assumes sp: "store_parts C src ia M fs L ov s" and r: "request_ok C co k s"
    and al: "alloc_ok C src ia' {} fs' L' s1" "grows {} s s1" "it \<noteq> NULL" "refcount (items s1 it) = 1"
      "block it (24 + unat (key_len k) + unat (valuesize C)) \<inter> used s = {}" "block it (24 + unat (key_len k) + unat (valuesize C)) \<subseteq> used s1"
  defines "s2 \<equiv> fill_item it (hash_string (key_bytes k s)) (key_ptr k) (ucast (key_len k)) (value_ptr co k) (ucast (valuesize C)) s1"
  shows "table_ok C ov s2" "entries s2 ov = entries s ov" "alloc_ok C src ia' {} fs' L' s2" "insertable C ov it s2"
    "ikbytes s2 it = key_bytes k s" "ivalue s2 it = set_value C co k s" "isize s2 it = 24 + unat (key_len k) + unat (valuesize C)"
    "hv (items s2 it) = hash_string (key_bytes k s)" "vallen (items s2 it) = ucast (valuesize C)" "refcount (items s2 it) = 1"
    "\<And>x. x \<in> entries s ov \<Longrightarrow> items s2 x = items s x \<and> ikbytes s2 x = ikbytes s x \<and> ivalue s2 x = ivalue s x"
    "used s \<subseteq> used s2" "block it (isize s2 it) \<subseteq> used s2" "block it (isize s2 it) \<inter> used s = {}" "arena C s2 = arena C s"
    "\<And>a. unat a \<notin> arena C s \<Longrightarrow> kbytes s2 a = kbytes s a"
proof -
  note p = store_partsD [OF sp] and l = request_lengths [OF r]
  let ?n = "24 + unat (key_len k) + unat (valuesize C)"
  let ?kl = "ucast (key_len k) :: u16" and ?vl = "ucast (valuesize C) :: u32"
  have g: "used s \<subseteq> used s1" "\<And>q. unat q \<in> used s \<Longrightarrow> items s1 q = items s q" "kbytes s1 = kbytes s" "seg_base s1 = seg_base s"
    "segments.more s1 = segments.more s" "headers s \<subseteq> headers s1"
    using al(2) by (auto simp: grows_def)
  have kv: "nbuckets s1 = nbuckets s" "buckets s1 = buckets s"
    using g(5) by (cases s; cases s1; simp)+
  have fr: "seg_frame s1 s2"
    by (rule seg_frame_same) (simp_all add: s2_def fill_item_fields)
  note sf = seg_frame_alloc [OF fr]
  have so1: "segs_ok C src s1" using al(1) by (simp add: alloc_ok_def)
  show a2: "alloc_ok C src ia' {} fs' L' s2" using al(1) sf(1) by blast
  have u2: "used s2 = used s1" by (rule sf(2))
  show "arena C s2 = arena C s" by (simp add: arena_def s2_def fill_item_fields g)
  have b: "unat it + (24 + unat ?kl + unat ?vl) < 2 ^ 64" "unat it \<in> used s1"
    using used_address [OF so1 al(6)] by (simp_all add: l)
  have ar: "block it ?n \<subseteq> arena C s"
    using al(6) used_in_arena [OF so1] by (auto simp: arena_def g)
  have v: "unat (value_ptr co k) + unat ?vl < 2 ^ 64" "block (value_ptr co k) (unat ?vl) \<inter> block it (24 + unat ?kl + unat ?vl) = {}"
    using r ar by (auto simp: request_ok_def outside_def l)
  note fb = fill_item_bytes [OF b(1) v, OF meta_eq_to_obj_eq [OF s2_def], unfolded g(3)]
  show "ikbytes s2 it = key_bytes k s" "ivalue s2 it = set_value C co k s"
    using fb(1,2) by (simp_all add: key_bytes_def set_value_def l)
  have i2: "items s2 it = (items s1 it)\<lparr>hv := hash_string (key_bytes k s), vallen := ?vl, keylen := ?kl\<rparr>" "\<And>x. x \<noteq> it \<Longrightarrow> items s2 x = items s1 x"
    by (simp_all add: s2_def fill_item_fields)
  show "isize s2 it = ?n" "hv (items s2 it) = hash_string (key_bytes k s)" "vallen (items s2 it) = ?vl" "refcount (items s2 it) = 1"
    using al(4) by (simp_all add: isize_def i2 l)
  then show "block it (isize s2 it) \<subseteq> used s2" "block it (isize s2 it) \<inter> used s = {}" "used s \<subseteq> used s2"
    using al(5,6) g(1) u2 by auto
  have out: "kbytes s2 a = kbytes s a" if "unat a \<notin> block it ?n" for a
    using fb(3) that by (simp add: l)
  then show "\<And>a. unat a \<notin> arena C s \<Longrightarrow> kbytes s2 a = kbytes s a"
    using ar by blast
  have "unat it \<in> block it ?n"
    by (simp add: block_def)
  then have itn: "unat it \<notin> used s"
    using al(5) by blast
  have ie: "x \<noteq> it" if "x \<in> entries s ov" for x
    using p(8) [OF that] itn by auto
  show oth: "items s2 x = items s x \<and> ikbytes s2 x = ikbytes s x \<and> ivalue s2 x = ivalue s x" if x: "x \<in> entries s ov" for x
  proof -
    have "items s2 x = items s x"
      using i2(2) [OF ie [OF x]] g(2) p(8) [OF x] by simp
    moreover have "block x (isize s x) \<inter> block it ?n = {}"
      using p(4) [OF x] al(5) by (auto simp: item_ok_def)
    ultimately show ?thesis
      using p(8) [OF x] out by (intro conjI item_bytes_same) auto
  qed
  have sh: "seg_base s2 = seg_base s"
    by (simp add: s2_def fill_item_fields g)
  have home: "item_home C s2 x" if "unat x \<in> used s1" for x
    using used_home [OF so1 that] sf(5) by blast
  have keep: "refcount (items s2 x) \<noteq> 0 \<and> item_home C s2 x" if "x \<in> entries s ov" for x
    using live_entry [OF p(2) that] oth [OF that] home p(8) [OF that] g(1) by auto
  have kv2: "nbuckets s2 = nbuckets s" "buckets s2 = buckets s"
    by (simp_all add: s2_def fill_item_kvs kv)
  show t: "table_ok C ov s2" and e: "entries s2 ov = entries s ov"
    by (rule table_ok_keys [OF p(2) kv2]; use oth keep in \<open>simp add: ikey_ikbytes\<close>)+
  show "insertable C ov it s2"
    using al(3,4) home [OF b(2)] ie by (auto simp: insertable_def e i2)
qed

text \<open>How a request for a new item changes the segments: by one allocation.\<close>

definition fresh_item :: "settings \<Rightarrow> segment_source \<Rightarrow> key_ref \<Rightarrow> item_allocator \<Rightarrow> 'a segments_scheme \<Rightarrow> item_allocator \<Rightarrow> 'a segments_scheme \<Rightarrow> bool" where
  "fresh_item C src k ia s ia' s' \<longleftrightarrow> (\<exists>it s1. it \<noteq> NULL \<and>
     ialloc_alloc C src (ITEM_SIZE + key_len k + ucast (valuesize C)) False ia s = Some (it, ia', s1) \<and> seg_frame s1 s')"

text \<open>The new item is linked into the table; then the reference a lookup takes and the one of the request are dropped.\<close>

lemma insert_and_release:
  assumes t: "table_ok C ov s" and ins: "insertable C ov it s" and rc: "refcount (items s it) = 1" and nn: "it \<noteq> NULL"
    and new: "\<And>x. x \<in> entries s ov \<Longrightarrow> ikey s x \<noteq> ikey s it" and key: "ikey s it = (h, region (kbytes s) p (unat n))"
  obtains s1 s2 s3 s' ov' where "hasht_put C it NULL s = Some s1" "hasht_get p n h s1 = Some (it, s2)"
    "item_unref C it s2 = Some s3" "item_unref C it s3 = Some s'" "item_unref C it s1 = Some s'"
    "table_ok C ov' s'" "entries s' ov' = insert it (entries s ov)" "seg_frame s s'" "kbytes s' = kbytes s"
    "\<And>q. hv (items s' q) = hv (items s q) \<and> keylen (items s' q) = keylen (items s q) \<and> vallen (items s' q) = vallen (items s q) \<and>
      refcount (items s' q) = refcount (items s q)"
proof -
  obtain s1 where s1: "hasht_put C it NULL s = Some s1" "put_done C ov it {} s s1"
    using hasht_put_new [OF t ins new] by blast
  obtain b xs P where d: "table_ok C (ov(b := xs)) s1" "entries s1 (ov(b := xs)) = insert it (entries s ov)" "bucket_frame b P s s1" "seg_frame s s1"
    and rc1: "\<And>q. refcount (items s1 q) = (if q = it then refcount (items s q) + 1 else refcount (items s q))"
    using s1(2) by (auto simp: put_done_def)
  have e1: "kbytes s1 = kbytes s" "\<And>q. hv (items s1 q) = hv (items s q) \<and> keylen (items s1 q) = keylen (items s q) \<and> vallen (items s1 q) = vallen (items s q)"
    using d(3) by (auto simp: bucket_frame_def)
  have r1: "refcount (items s1 it) = 2"
    using rc1 [of it] rc by simp
  have get: "hasht_get p n h s1 = Some (it, item_ref it s1)"
    by (rule hasht_get_hit [OF d(1)]) (use key ikey_frame [OF d(3), of it] in \<open>simp_all add: d(2) e1\<close>)
  let ?s2 = "item_ref it s1"
  let ?s3 = "upd_item it (\<lambda>x. x\<lparr>refcount := refcount x - 1\<rparr>) ?s2"
  define s' where "s' = upd_item it (\<lambda>x. x\<lparr>refcount := refcount x - 1\<rparr>) ?s3"
  have u: "item_unref C it ?s2 = Some ?s3" "item_unref C it ?s3 = Some s'"
    unfolding s'_def by (rule item_unref_shared; simp add: item_ref_def r1)+
  have "s' = upd_item it (\<lambda>x. x\<lparr>refcount := refcount x - 1\<rparr>) s1"
    by (auto simp: s'_def item_ref_def fun_eq_iff intro!: segments.equality)
  then have u1: "item_unref C it s1 = Some s'"
    using item_unref_shared [of s1 it C] r1 by simp
  have i': "items s' = (items s1)(it := (items s1 it)\<lparr>refcount := 1\<rparr>)" and k': "kbytes s' = kbytes s1"
    and t': "nbuckets s' = nbuckets s1" "buckets s' = buckets s1" "seg_base s' = seg_base s1" "seg_headers s' = seg_headers s1"
    by (simp_all add: s'_def item_ref_def r1)
  have fr: "seg_frame s s'"
    by (rule seg_frame_trans [OF d(4)], rule seg_frame_same) (simp_all add: s'_def item_ref_def)
  have "hv (items s' q) = hv (items s1 q) \<and> next_item (items s' q) = next_item (items s1 q) \<and> refcount (items s' q) \<noteq> 0 \<and>
      ikey s' q = ikey s1 q \<and> item_home C s' q" if "q \<in> entries s1 (ov(b := xs))" for q
    using live_entry [OF d(1) that] by (auto simp: i' ikey_def k' item_home_def t')
  then have tab: "table_ok C (ov(b := xs)) s'" "entries s' (ov(b := xs)) = insert it (entries s ov)"
    using table_ok_keys [OF d(1) t'(1,2)] d(2) by auto
  have "hv (items s' q) = hv (items s q) \<and> keylen (items s' q) = keylen (items s q) \<and> vallen (items s' q) = vallen (items s q) \<and>
      refcount (items s' q) = refcount (items s q)" for q
    using e1(2) [of q] rc1 [of q] rc by (auto simp: i')
  then show thesis
    using k' e1(1) by (intro that [OF s1(1) get u u1 tab fr]) auto
qed

text \<open>The invariant after a new item has been inserted.\<close>

lemma blocks_apart_insert:
  assumes "blocks_apart s E" and "\<And>x. x \<in> E \<Longrightarrow> block x (isize s x) \<inter> block it (isize s it) = {}"
  shows "blocks_apart s (insert it E)"
  unfolding blocks_apart_def
proof (intro ballI impI)
  fix x y assume "x \<in> insert it E" "y \<in> insert it E" "x \<noteq> y"
  then show "block x (isize s x) \<inter> block y (isize s y) = {}"
    using assms unfolding blocks_apart_def by (metis Int_commute insertE)
qed

lemma store_parts_insert:
  assumes sp: "store_parts C src ia M fs L ov s" and nk: "\<And>x. x \<in> entries s ov \<Longrightarrow> ikbytes s x \<noteq> K"
    and al: "at_rest ia'" "alloc_ok C src ia' {} fs' L' s1"
    and it: "ikbytes s1 it = K" "ivalue s1 it = V" "hv (items s1 it) = hash_string K" "vallen (items s1 it) = ucast (valuesize C)" "refcount (items s1 it) = 1"
    and old: "\<And>x. x \<in> entries s ov \<Longrightarrow> items s1 x = items s x \<and> ikbytes s1 x = ikbytes s x \<and> ivalue s1 x = ivalue s x"
    and u: "used s \<subseteq> used s1" "block it (isize s1 it) \<subseteq> used s1" "block it (isize s1 it) \<inter> used s = {}"
    and fr: "seg_frame s1 s'" "kbytes s' = kbytes s1" and t: "table_ok C ov' s'" "entries s' ov' = insert it (entries s ov)"
    and same: "\<And>q. hv (items s' q) = hv (items s1 q) \<and> keylen (items s' q) = keylen (items s1 q) \<and> vallen (items s' q) = vallen (items s1 q) \<and>
      refcount (items s' q) = refcount (items s1 q)"
  shows "store_parts C src ia' (M(K \<mapsto> V)) fs' L' ov' s'"
proof -
  note p = store_partsD [OF sp] and sf = seg_frame_alloc [OF fr(1)]
  have bytes: "ikbytes s' q = ikbytes s1 q" "ivalue s' q = ivalue s1 q" "isize s' q = isize s1 q" for q
    using same [of q] by (simp_all add: ikbytes_def ivalue_def item_value_def isize_def fr(2))
  have sz: "isize s1 x = isize s x" if "x \<in> entries s ov" for x
    using old [OF that] by (simp add: isize_def)
  have io: "item_ok C s' x" if "x \<in> insert it (entries s ov)" for x
  proof (cases "x = it")
    case True
    then show ?thesis
      using it u(2) same [of it] by (simp add: item_ok_def bytes sf(2))
  next
    case False
    then have x: "x \<in> entries s ov" using that by simp
    then show ?thesis
      using p(4) [OF x] old [OF x] u(1) same [of x] by (auto simp: item_ok_def bytes sf(2) sz [OF x])
  qed
  have "contents (M(K \<mapsto> V)) (insert it (entries s ov)) s'"
    by (rule contents_upd [OF p(6)]) (use it old nk in \<open>auto simp: bytes\<close>)
  moreover have "blocks_apart s' (insert it (entries s ov))"
  proof (rule blocks_apart_insert)
    show "blocks_apart s' (entries s ov)"
      using p(5) by (simp add: blocks_apart_def bytes sz)
    show "block x (isize s' x) \<inter> block it (isize s' it) = {}" if "x \<in> entries s ov" for x
      using p(4) [OF that] u(3) by (auto simp: item_ok_def bytes sz [OF that])
  qed
  ultimately show ?thesis
    using al(1) iffD2 [OF sf(1) al(2)] t io by (simp add: store_parts_def)
qed

lemma set_new:
  assumes sp: "store_parts C src ia M fs L ov s" and r: "request_ok C co k s"
    and nk: "\<And>x. x \<in> entries s ov \<Longrightarrow> ikbytes s x \<noteq> key_bytes k s"
    and room: "can_alloc C src (ITEM_SIZE + key_len k + ucast (valuesize C)) False ia fs s"
  shows "\<exists>ia' s' fs' L' ov' it. set_request C src co k ia s = Some (ia', s') \<and>
    store_parts C src ia' (M(key_bytes k s \<mapsto> set_value C co k s)) fs' L' ov' s' \<and> arena C s' = arena C s \<and>
    set_steps C src co k ia s it ia' s' \<and> it \<in> entries s' ov' \<and>
    (\<forall>a. unat a \<notin> arena C s \<longrightarrow> kbytes s' a = kbytes s a) \<and> fresh_item C src k ia s ia' s'"
proof -
  note p = store_partsD [OF sp] and l = request_lengths [OF r]
  let ?K = "key_bytes k s" and ?V = "set_value C co k s" and ?n = "24 + unat (key_len k) + unat (valuesize C)"
  define h where "h = hash_string ?K"
  let ?tot = "ITEM_SIZE + key_len k + ucast (valuesize C)"
  let ?kl = "ucast (key_len k) :: u16" and ?vl = "ucast (valuesize C) :: u32"
  note n = l(7)
  have tot: "24 \<le> unat ?tot" "?tot < segsize C"
    using r by (simp_all add: n word_less_nat_alt request_ok_def)
  obtain it ia1 s1 fs1 L1 where al: "ialloc_alloc C src ?tot False ia s = Some (it, ia1, s1)" "alloc_ok C src ia1 {} fs1 L1 s1" "grows {} s s1" "it \<noteq> NULL"
      "block it ?n \<inter> used s = {}" "block it ?n \<subseteq> used s1" "refcount (items s1 it) = 1" and ia1: "\<exists>c. ia1 = ia\<lparr>reserved := reserved ia, cur := c\<rparr>"
    using ialloc_alloc_spec [OF p(1) tot, of False] room unfolding n by blast
  have rest: "at_rest ia1"
    using ia1 p(3) by (auto simp: at_rest_def)
  define s2 where "s2 = fill_item it h (key_ptr k) ?kl (value_ptr co k) ?vl s1"
  note f = new_item_filled [OF sp r al(2-4,7,5,6), folded h_def, folded s2_def]
  have key2: "region (kbytes s2) (key_ptr k) (unat (key_len k)) = ?K"
    unfolding key_bytes_def by (rule region_block) (use r f(16) in \<open>auto simp: request_ok_def outside_def\<close>)
  then have k2: "ikey s2 it = (h, region (kbytes s2) (key_ptr k) (unat (key_len k)))"
    by (simp add: ikey_ikbytes f)
  have "ikey s2 x \<noteq> ikey s2 it" if "x \<in> entries s2 ov" for x
  proof -
    have "x \<in> entries s ov" using that f(2) by simp
    then show ?thesis
      using f(11) [of x] nk [of x] unfolding k2 key2 by (simp add: ikey_ikbytes)
  qed
  from insert_and_release [OF f(1,4,10) al(4) this k2] obtain s3 s4 s5 s6 ov' where s3: "hasht_put C it NULL s2 = Some s3"
    "hasht_get (key_ptr k) (key_len k) h s3 = Some (it, s4)" "item_unref C it s4 = Some s5" "item_unref C it s5 = Some s6" "item_unref C it s3 = Some s6"
    and t: "table_ok C ov' s6" "entries s6 ov' = insert it (entries s ov)" and fr: "seg_frame s2 s6" "kbytes s6 = kbytes s2"
    and same: "\<And>q. hv (items s6 q) = hv (items s2 q) \<and> keylen (items s6 q) = keylen (items s2 q) \<and> vallen (items s6 q) = vallen (items s2 q) \<and>
      refcount (items s6 q) = refcount (items s2 q)"
    unfolding f(2) by blast
  have miss: "hasht_get (key_ptr k) (key_len k) h s = Some (NULL, s)"
    by (rule hasht_get_miss [OF p(2)]) (use nk in \<open>simp add: ikey_ikbytes key_bytes_def\<close>)
  have "jenkins_hash (kbytes s) (key_ptr k) (key_len k) = h"
    by (simp add: request_hash h_def)
  then have "set_request C src co k ia s = Some (ia1, s6)"
    using r l miss al(1,4) s3(1-4)
    by (simp add: clean_log_at_rest [OF rest] set_request_def request_ok_def value_ptr_def Let_def s2_def)
  moreover have "store_parts C src ia1 (M(?K \<mapsto> ?V)) fs1 L1 ov' s6"
    by (rule store_parts_insert [OF sp nk rest f(3) f(5,6) f(8) [unfolded h_def] f(9,10,11-14) fr t same])
  moreover have "seg_frame s1 s2"
    by (rule seg_frame_same) (simp_all add: s2_def fill_item_fields)
  then have "fresh_item C src k ia s ia1 s6"
    unfolding fresh_item_def using al(1,4) seg_frame_trans [OF _ fr(1)] by blast
  moreover have "set_steps C src co k ia s it ia1 s6"
    using al(1,4) s3(1,5) miss by (auto simp: set_steps_def Let_def h_def s2_def)
  moreover have "arena C s6 = arena C s" "it \<in> entries s6 ov'" "\<forall>a. unat a \<notin> arena C s \<longrightarrow> kbytes s6 a = kbytes s a"
    using seg_frame_alloc(3) [OF fr(1)] f(15,16) t(2) by (simp_all add: fr(2))
  ultimately show ?thesis
    by blast
qed

text \<open>Writing outside the segments does not concern the store.\<close>

lemma store_parts_outside:
  assumes sp: "store_parts C src ia M fs L ov s" and fr: "seg_frame s s'" and i: "items s' = items s" "nbuckets s' = nbuckets s" "buckets s' = buckets s"
    and kb: "\<And>a. unat a \<in> arena C s \<Longrightarrow> kbytes s' a = kbytes s a"
  shows "store_parts C src ia M fs L ov s'"
proof -
  note p = store_partsD [OF sp] and sf = seg_frame_alloc [OF fr]
  have same: "ikbytes s' x = ikbytes s x \<and> ivalue s' x = ivalue s x" if x: "x \<in> entries s ov" for x
  proof -
    have "block x (isize s x) \<subseteq> arena C s"
      using p(4) [OF x] used_in_arena [OF p(7)] by (auto simp: item_ok_def)
    then show ?thesis
      using p(8) [OF x] kb by (intro conjI item_bytes_same) (auto simp: i)
  qed
  have sz: "isize s' x = isize s x" for x
    by (simp add: isize_def i)
  have t: "table_ok C ov s'" "entries s' ov = entries s ov"
    by (rule table_ok_keys [OF p(2) i(2,3)]; use same live_entry [OF p(2)] sf(5) in \<open>simp add: i ikey_ikbytes\<close>)+
  have "item_ok C s' x" if "x \<in> entries s ov" for x
    using p(4) [OF that] same [OF that] by (simp add: item_ok_def i sz sf(2))
  moreover have "contents M (entries s ov) s'"
    using p(6) same by (simp add: contents_def)
  ultimately show ?thesis
    using p(1,3,5) sf(1) t by (simp add: store_parts_def blocks_apart_def sz)
qed

text \<open>Where a lookup copies the value to.\<close>

definition get_buffer :: "connection \<Rightarrow> u64" where
  "get_buffer co = tx_buf co + GET_HEADER"

lemma get_existing:
  assumes sp: "store_parts C src ia M fs L ov s" and r: "request_ok C co k s" and buf: "outside C (get_buffer co) (unat (valuesize C)) s"
    and it: "it \<in> entries s ov" "ikbytes s it = key_bytes k s"
  shows "\<exists>s'. get_request C src co k ia s = Some (ia, s') \<and> store_parts C src ia M fs L ov s' \<and> seg_frame s s' \<and>
    region (kbytes s') (get_buffer co) (unat (valuesize C)) = ivalue s it \<and>
    (\<forall>a. unat a \<notin> block (get_buffer co) (unat (valuesize C)) \<longrightarrow> kbytes s' a = kbytes s a)"
proof -
  note p = store_partsD [OF sp] and l = request_lengths [OF r]
  define h where "h = hash_string (key_bytes k s)"
  have io: "hv (items s it) = h" "vallen (items s it) = ucast (valuesize C)" "refcount (items s it) = 1"
    using p(4) [OF it(1)] it(2) by (simp_all add: item_ok_def h_def)
  have get: "hasht_get (key_ptr k) (key_len k) h s = Some (it, item_ref it s)"
    by (rule hasht_get_hit [OF p(2) it(1)]) (simp add: ikey_ikbytes io it(2) key_bytes_def)
  have nn: "it \<noteq> NULL" using entry_member(2) [OF p(2) it(1)] .
  have hh: "jenkins_hash (kbytes s) (key_ptr k) (key_len k) = h"
    by (simp add: request_hash h_def)
  let ?s2 = "memcpy (get_buffer co) (item_value (item_ref it s) it) (ucast (valuesize C)) (item_ref it s)"
  define s3 where "s3 = upd_item it (\<lambda>x. x\<lparr>refcount := refcount x - 1\<rparr>) ?s2"
  have unref: "item_unref C it ?s2 = Some s3"
    unfolding s3_def by (rule item_unref_shared) (simp_all add: item_ref_def io)
  have ref: "items (item_ref it s) it = (items s it)\<lparr>refcount := 2\<rparr>" "kbytes (item_ref it s) = kbytes s"
    "item_value (item_ref it s) it = item_value s it"
    by (simp_all add: item_ref_def io item_value_def)
  have run: "get_request C src co k ia s = Some (ia, s3)"
    using l get nn unref
    by (simp add: clean_log_at_rest [OF p(3)] get_request_def hh get_buffer_def Let_def ref io)
  have fr: "seg_frame s s3"
    by (rule seg_frame_same) (simp_all add: s3_def item_ref_def)
  have i3: "items s3 = items s" "nbuckets s3 = nbuckets s" "buckets s3 = buckets s" "kbytes s3 = kbytes ?s2"
    using io by (auto simp: s3_def item_ref_def fun_eq_iff)
  have b: "unat (get_buffer co) + unat (ucast (valuesize C) :: u64) < 2 ^ 64"
    using buf by (simp add: outside_def l)
  have kb: "kbytes s3 a = kbytes s a" if "unat a \<notin> block (get_buffer co) (unat (valuesize C))" for a
    using that by (simp add: i3 memcpy_kbytes [OF less_imp_le [OF b]] l ref)
  have "region (kbytes s3) (get_buffer co) (unat (valuesize C)) = ivalue s it"
    using memcpy_region [OF b, of "item_value s it" "item_ref it s"] by (simp add: i3 ivalue_def ref l io)
  moreover have "store_parts C src ia M fs L ov s3"
    by (rule store_parts_outside [OF sp fr i3(1-3)]) (use buf kb in \<open>auto simp: outside_def\<close>)
  ultimately show ?thesis
    using run fr kb by blast
qed

lemma get_missing:
  assumes sp: "store_parts C src ia M fs L ov s" and r: "request_ok C co k s"
    and nk: "\<And>x. x \<in> entries s ov \<Longrightarrow> ikbytes s x \<noteq> key_bytes k s"
  shows "get_request C src co k ia s = Some (ia, s)"
proof -
  note p = store_partsD [OF sp] and l = request_lengths [OF r]
  have "hasht_get (key_ptr k) (key_len k) (hash_string (key_bytes k s)) s = Some (NULL, s)"
    by (rule hasht_get_miss [OF p(2)]) (use nk in \<open>simp add: ikey_ikbytes key_bytes_def\<close>)
  then show ?thesis
    using l by (simp add: get_request_def request_hash Let_def)
qed

section \<open>The store is a map\<close>

lemma contents_lookup:
  assumes sp: "store_parts C src ia M fs L ov s"
  shows "(\<exists>it\<in>entries s ov. ikbytes s it = K) \<longleftrightarrow> M K \<noteq> None" and "it \<in> entries s ov \<Longrightarrow> M (ikbytes s it) = Some (ivalue s it)"
  using store_partsD(6) [OF sp] by (auto simp: contents_def)

text \<open>There is room for a new item: in the current segment or in a segment that can still be had.\<close>

definition has_room :: "settings \<Rightarrow> segment_source \<Rightarrow> key_ref \<Rightarrow> item_allocator \<Rightarrow> 'a kvs_scheme \<Rightarrow> bool" where
  "has_room C src k ia s \<longleftrightarrow> fits C (ITEM_SIZE + key_len k + ucast (valuesize C)) (cur ia) s \<or> free_segments s \<noteq> NULL \<or>
     seg_alloced s < segmaxnum C \<and> mprotect_ok src (seg_alloced s) \<and> malloc_header src (seg_alloced s) \<noteq> NULL"

lemma has_room_alloc:
  assumes "store_parts C src ia M fs L ov s"
  shows "can_alloc C src (ITEM_SIZE + key_len k + ucast (valuesize C)) False ia fs s \<longleftrightarrow> has_room C src k ia s"
proof -
  have "free_list s fs" "reserved ia \<noteq> NULL"
    using store_partsD(1,3) [OF assms] by (simp_all add: alloc_ok_def at_rest_def)
  then have "fs \<noteq> [] \<longleftrightarrow> free_segments s \<noteq> NULL"
    by (cases fs) (auto simp: free_list_def)
  then show ?thesis
    using \<open>reserved ia \<noteq> NULL\<close> by (auto simp: can_alloc_def has_room_def segment_available_def)
qed

lemma set_request_steps:
  assumes ok: "store_ok C src ia M s" and r: "request_ok C co k s" and room: "M (key_bytes k s) \<noteq> None \<or> has_room C src k ia s"
  obtains it ia' s' fs L ov where "set_request C src co k ia s = Some (ia', s')" "set_steps C src co k ia s it ia' s'"
    "store_parts C src ia' (M(key_bytes k s \<mapsto> set_value C co k s)) fs L ov s'" "it \<in> entries s' ov" "arena C s' = arena C s"
    "\<And>a. unat a \<notin> arena C s \<Longrightarrow> kbytes s' a = kbytes s a"
    "if M (key_bytes k s) = None then fresh_item C src k ia s ia' s' else ia' = ia \<and> seg_frame s s'"
proof -
  obtain fs L ov where sp: "store_parts C src ia M fs L ov s"
    using ok by (auto simp: store_ok_def)
  show thesis
  proof (cases "\<exists>it\<in>entries s ov. ikbytes s it = key_bytes k s")
    case True
    then obtain it where it: "it \<in> entries s ov" "ikbytes s it = key_bytes k s" by blast
    have old: "M (key_bytes k s) \<noteq> None"
      using contents_lookup(2) [OF sp it(1)] it(2) by simp
    from set_existing [OF sp r it] obtain s' where s': "set_request C src co k ia s = Some (ia, s')"
      "store_parts C src ia (M(key_bytes k s \<mapsto> set_value C co k s)) fs L ov s'" "seg_frame s s'"
      "set_steps C src co k ia s it ia s'" "entries s' ov = entries s ov" "\<And>a. unat a \<notin> arena C s \<Longrightarrow> kbytes s' a = kbytes s a"
      by blast
    show thesis
      by (rule that [OF s'(1,4,2)]) (use s' old it seg_frame_alloc(3) [OF s'(3), of C] in auto)
  next
    case False
    then have new: "M (key_bytes k s) = None"
      using contents_lookup(1) [OF sp] by blast
    from False have "can_alloc C src (ITEM_SIZE + key_len k + ucast (valuesize C)) False ia fs s"
      using room contents_lookup(1) [OF sp] has_room_alloc [OF sp] by blast
    with set_new [OF sp r] False obtain ia' s' fs' L' ov' it where "set_request C src co k ia s = Some (ia', s')"
      "store_parts C src ia' (M(key_bytes k s \<mapsto> set_value C co k s)) fs' L' ov' s'" "arena C s' = arena C s"
      "set_steps C src co k ia s it ia' s'" "it \<in> entries s' ov'" "\<And>a. unat a \<notin> arena C s \<Longrightarrow> kbytes s' a = kbytes s a"
      "fresh_item C src k ia s ia' s'"
      by blast
    then show thesis
      using new by (intro that) auto
  qed
qed

lemma set_request_spec:
  assumes ok: "store_ok C src ia M s" and r: "request_ok C co k s" and room: "M (key_bytes k s) \<noteq> None \<or> has_room C src k ia s"
  shows "\<exists>ia' s'. set_request C src co k ia s = Some (ia', s') \<and> store_ok C src ia' (M(key_bytes k s \<mapsto> set_value C co k s)) s' \<and>
    arena C s' = arena C s \<and> (\<forall>a. unat a \<notin> arena C s \<longrightarrow> kbytes s' a = kbytes s a) \<and>
    (if M (key_bytes k s) = None then fresh_item C src k ia s ia' s' else ia' = ia \<and> seg_frame s s')"
  using set_request_steps [OF assms] unfolding store_ok_def by metis

lemma get_request_spec:
  assumes ok: "store_ok C src ia M s" and r: "request_ok C co k s" and buf: "outside C (get_buffer co) (unat (valuesize C)) s"
  shows "\<exists>s'. get_request C src co k ia s = Some (ia, s') \<and> store_ok C src ia M s' \<and> arena C s' = arena C s \<and>
    (case M (key_bytes k s) of None \<Rightarrow> s' = s | Some v \<Rightarrow> region (kbytes s') (get_buffer co) (unat (valuesize C)) = v) \<and>
    (\<forall>a. unat a \<notin> block (get_buffer co) (unat (valuesize C)) \<longrightarrow> kbytes s' a = kbytes s a)"
proof -
  obtain fs L ov where sp: "store_parts C src ia M fs L ov s"
    using ok by (auto simp: store_ok_def)
  show ?thesis
  proof (cases "\<exists>it\<in>entries s ov. ikbytes s it = key_bytes k s")
    case True
    then obtain it where it: "it \<in> entries s ov" "ikbytes s it = key_bytes k s" by blast
    then have "M (key_bytes k s) = Some (ivalue s it)"
      using contents_lookup(2) [OF sp it(1)] by simp
    then show ?thesis
      using get_existing [OF sp r buf it] seg_frame_alloc(3) unfolding store_ok_def by fastforce
  next
    case False
    then have "M (key_bytes k s) = None"
      using contents_lookup(1) [OF sp] by blast
    moreover have "get_request C src co k ia s = Some (ia, s)"
      using get_missing [OF sp r] False by blast
    ultimately show ?thesis
      using ok by auto
  qed
qed

end
