(* ===== verification/Kvs_Start.thy ===== *)
theory Kvs_Start
  imports Kvs_Requests
begin

text \<open>Start-up of the key-value store, and the properties of its requests from there on.\<close>

section \<open>Start-up\<close>

definition kvs_init :: "settings \<Rightarrow> segment_source \<Rightarrow> u64 \<Rightarrow> 'a kvs_scheme \<Rightarrow> (item_allocator \<times> 'a kvs_scheme) option" where
  "kvs_init C src base s = do {
     s \<leftarrow> hasht_init (hasht_size C) s;
     ialloc_init_allocator C src (ialloc_init base s)
   }"

text \<open>
  What start-up needs: segments of at most 4 GB that fit into the address space, two of which the system gives out,
  and a table that has room for at least one bucket of 64 bytes.
\<close>

definition startable :: "settings \<Rightarrow> segment_source \<Rightarrow> u64 \<Rightarrow> bool" where
  "startable C src base \<longleftrightarrow> 0 < segsize C \<and> unat (segsize C) < 2 ^ 32 \<and> 0 < base \<and>
     unat base + unat (segsize C) * unat (segmaxnum C) < 2 ^ 64 \<and> 1 < segmaxnum C \<and>
     mprotect_ok src 0 \<and> mprotect_ok src 1 \<and> malloc_header src 0 \<noteq> NULL \<and> malloc_header src 1 \<noteq> NULL \<and>
     inj_on (malloc_header src) {i. malloc_header src i \<noteq> NULL} \<and> 64 \<le> hasht_size C"

text \<open>The next segment, taken for the first time.\<close>

definition next_segment :: "settings \<Rightarrow> ptr \<Rightarrow> 'a segments_scheme \<Rightarrow> 'a segments_scheme" where
  "next_segment C h s = (let i = seg_alloced s; s = s\<lparr>seg_alloced := i + 1, seg_headers := (seg_headers s)(i := h)\<rparr> in
     s\<lparr>segs := (segs s)(h := \<lparr>seg_data = seg_base s + segsize C * i, seg_next = NULL, seg_offset = 0, seg_freed = 0,
       seg_size = ucast (segsize C), seg_flags = 0\<rparr>)\<rparr>)"

lemma next_segment_frame [simp]:
  "free_segments (next_segment C h s) = free_segments s" "seg_base (next_segment C h s) = seg_base s"
  "seg_alloced (next_segment C h s) = seg_alloced s + 1" "seg_headers (next_segment C h s) = (seg_headers s)(seg_alloced s := h)"
  "kbytes (next_segment C h s) = kbytes s"
  "segs (next_segment C h s) = (segs s)(h := \<lparr>seg_data = seg_base s + segsize C * seg_alloced s, seg_next = NULL, seg_offset = 0,
    seg_freed = 0, seg_size = ucast (segsize C), seg_flags = 0\<rparr>)"
  by (simp_all add: next_segment_def Let_def)

lemma next_segment_table [simp]: "nbuckets (next_segment C h s) = nbuckets s" "buckets (next_segment C h s) = buckets s"
  by (simp_all add: next_segment_def Let_def)

lemma ialloc_init_frame: "kbytes (ialloc_init b s) = kbytes s" "nbuckets (ialloc_init b s) = nbuckets s" "buckets (ialloc_init b s) = buckets s"
  by (simp_all add: ialloc_init_def)

lemma empty_table_frame: "kbytes (empty_table k s) = kbytes s"
  by (simp add: empty_table_def)

definition table_bits :: "settings \<Rightarrow> nat" where
  "table_bits C = the (round_log2 (unat (hasht_size C div 64)))"

lemma hasht_init_table:
  assumes "64 \<le> hasht_size C"
  shows "hasht_init (hasht_size C) s = Some (empty_table (table_bits C) s)" "table_bits C < 64"
proof -
  obtain k where "round_log2 (unat (hasht_size C div 64)) = Some k" "k < 64"
    by (rule table_rounds [OF assms])
  then show "hasht_init (hasht_size C) s = Some (empty_table (table_bits C) s)" "table_bits C < 64"
    by (simp_all add: hasht_init_def table_bits_def)
qed

lemma next_segment_alloc:
  assumes "free_segments s = NULL" and "seg_alloced s < segmaxnum C" and "mprotect_ok src (seg_alloced s)"
    and "malloc_header src (seg_alloced s) = h" and "h \<noteq> NULL"
  shows "\<exists>s'. segment_alloc C src s = (h, s') \<and> upd_seg h (\<lambda>x. x\<lparr>seg_next := NULL\<rparr>) s' = next_segment C h s"
  using assms by (cases "segs s h") (simp add: segment_alloc_def init_segment_def next_segment_def Let_def not_le)

text \<open>
  The allocator and the store at the end of start-up. The offset of the current segment is left open: items that are
  allocated and never linked into the table move it, and change nothing else.
\<close>

definition start_allocator :: "segment_source \<Rightarrow> item_allocator" where
  "start_allocator src = zero_allocator\<lparr>cur := malloc_header src 0, oldest := malloc_header src 0, reserved := malloc_header src 1,
     cleanup_queue := (\<lambda>_. NULL), cq_head := 0, cq_tail := 0, cleaning := NULL\<rparr>"

definition start_store :: "settings \<Rightarrow> segment_source \<Rightarrow> u64 \<Rightarrow> u32 \<Rightarrow> 'a kvs_scheme \<Rightarrow> 'a kvs_scheme" where
  "start_store C src base off s = upd_seg (malloc_header src 0) (\<lambda>x. x\<lparr>seg_offset := off\<rparr>)
     (next_segment C (malloc_header src 1) (next_segment C (malloc_header src 0) (ialloc_init base (empty_table (table_bits C) s))))"

lemma start_store_frame:
  "free_segments (start_store C src base off s) = NULL" "seg_base (start_store C src base off s) = base"
  "seg_alloced (start_store C src base off s) = 2" "kbytes (start_store C src base off s) = kbytes s"
  "seg_headers (start_store C src base off s) i = (if i = 1 then malloc_header src 1 else if i = 0 then malloc_header src 0 else NULL)"
  "nbuckets (start_store C src base off s) = nbuckets (empty_table (table_bits C) s)"
  "buckets (start_store C src base off s) = buckets (empty_table (table_bits C) s)"
  by (simp_all add: start_store_def ialloc_init_def ialloc_init_frame empty_table_frame)

lemma start_store_segs:
  assumes "malloc_header src 0 \<noteq> malloc_header src 1"
  shows "segs (start_store C src base off s) (malloc_header src 0) = \<lparr>seg_data = base, seg_next = NULL, seg_offset = off,
      seg_freed = 0, seg_size = ucast (segsize C), seg_flags = 0\<rparr>"
    and "segs (start_store C src base off s) (malloc_header src 1) = \<lparr>seg_data = base + segsize C, seg_next = NULL, seg_offset = 0,
      seg_freed = 0, seg_size = ucast (segsize C), seg_flags = 0\<rparr>"
  using assms by (simp_all add: start_store_def ialloc_init_def)

lemma startableD:
  assumes "startable C src base"
  shows "malloc_header src 0 \<noteq> NULL" "malloc_header src 1 \<noteq> NULL" "malloc_header src 0 \<noteq> malloc_header src 1"
    and "0 < segsize C" "unat (segsize C) < 2 ^ 32" "0 < base" "unat base + unat (segsize C) * unat (segmaxnum C) < 2 ^ 64"
    and "inj_on (malloc_header src) {i. malloc_header src i \<noteq> NULL}" "64 \<le> hasht_size C"
    and "0 < segmaxnum C" "1 < segmaxnum C" "mprotect_ok src 0" "mprotect_ok src 1"
proof -
  note st = assms [unfolded startable_def]
  show "malloc_header src 0 \<noteq> NULL" "malloc_header src 1 \<noteq> NULL" "0 < segsize C" "unat (segsize C) < 2 ^ 32" "0 < base"
    "unat base + unat (segsize C) * unat (segmaxnum C) < 2 ^ 64"
    "inj_on (malloc_header src) {i. malloc_header src i \<noteq> NULL}" "64 \<le> hasht_size C"
    "1 < segmaxnum C" "mprotect_ok src 0" "mprotect_ok src 1"
    using st by blast+
  show "malloc_header src 0 \<noteq> malloc_header src 1"
    using st by (auto dest: inj_onD)
  show "0 < segmaxnum C"
    using st by (auto simp: word_less_nat_alt)
qed

lemma start_segs_ok:
  assumes st: "startable C src base" and off: "off \<le> ucast (segsize C)"
  shows "segs_ok C src (start_store C src base off s)"
proof -
  note D = startableD [OF st]
  define s' where "s' = start_store C src base off s"
  note f = start_store_frame [of C src base off s, folded s'_def] and g = start_store_segs [OF D(3), of C base off s, folded s'_def]
  have ar: "arena_ok C s'"
    using D by (simp add: arena_ok_def f)
  have sz: "unat (ucast (segsize C) :: u32) = unat (segsize C)"
    using D by (simp add: unsigned_ucast_eq take_bit_nat_eq_self)
  have sd: "unat (base + segsize C) = unat base + unat (segsize C)"
    using unat_seg_data [OF ar D(11)] by (simp add: f)
  have sk: "seg_ok C 0 (malloc_header src 0) s'" "seg_ok C 1 (malloc_header src 1) s'"
    using off by (simp_all add: seg_ok_def g f sz sd)
  have sm: "seg_alloced s' \<le> segmaxnum C"
    using D(11) by (simp add: f word_less_nat_alt word_le_nat_alt)
  have "seg_headers s' i \<noteq> NULL \<longrightarrow> i < seg_alloced s' \<and> seg_headers s' i = malloc_header src i \<and> seg_ok C i (seg_headers s' i) s'" for i
    using sk by (cases "i = 1"; cases "i = 0") (simp_all add: f word_less_nat_alt)
  then show ?thesis
    using ar sm D(8) by (simp add: segs_ok_def s'_def)
qed

lemma start_table_ok:
  assumes "startable C src base"
  shows "table_ok C (\<lambda>_. []) (start_store C src base off s)" "entries (start_store C src base off s) (\<lambda>_. []) = {}"
proof -
  define s' where "s' = start_store C src base off s"
  note r = start_store_frame(6,7) [of C src base off s, folded s'_def]
  have bu: "buckets s' b = \<lparr>slots = (\<lambda>_. NULL), hashes = (\<lambda>_. 0)\<rparr>" for b
    by (simp add: r empty_table_def)
  have mem: "members s' b [] = {}" for b
    by (simp add: members_def bu)
  have nb: "nbuckets s' \<noteq> 0"
    using hasht_init_table(2) [OF startableD(9) [OF assms]] by (simp add: r empty_table_def push_bit_eq_0_iff)
  have en: "entries s' (\<lambda>_. []) = {}"
    by (simp add: entries_def mem)
  show "table_ok C (\<lambda>_. []) (start_store C src base off s)" "entries (start_store C src base off s) (\<lambda>_. []) = {}"
    using nb en by (simp_all add: table_ok_def mem bucket_ok_def bu flip: s'_def)
qed

lemma start_ok:
  assumes st: "startable C src base" and off: "off \<le> ucast (segsize C)"
  shows "store_ok C src (start_allocator src) Map.empty (start_store C src base off s)"
proof -
  note D = startableD [OF st]
  define s' where "s' = start_store C src base off s"
  note f = start_store_frame [of C src base off s, folded s'_def] and g = start_store_segs [OF D(3), of C base off s, folded s'_def]
    and so = start_segs_ok [OF st off, of s, folded s'_def] and t = start_table_ok [OF st, of off s, folded s'_def]
  have hd: "malloc_header src 0 \<in> headers s'" "malloc_header src 1 \<in> headers s'"
    using D(1,2) f(5) [of 0] f(5) [of 1] by (auto simp: headers_def)
  have "alloc_ok C src (start_allocator src) {} [] [malloc_header src 0] s'"
    using so D(1-3) hd by (simp add: alloc_ok_def free_list_def chain_def f(1) start_allocator_def g)
  then have "store_parts C src (start_allocator src) Map.empty [] [malloc_header src 0] (\<lambda>_. []) s'"
    using t D(2) by (simp add: store_parts_def at_rest_def start_allocator_def blocks_apart_def contents_def)
  then show ?thesis
    unfolding store_ok_def s'_def by blast
qed

lemma kvs_init_run:
  assumes st: "startable C src base"
  shows "kvs_init C src base s = Some (start_allocator src, start_store C src base 0 s)"
proof -
  note D = startableD [OF st]
  let ?h0 = "malloc_header src 0" and ?h1 = "malloc_header src 1"
  let ?s0 = "ialloc_init base (empty_table (table_bits C) s)"
  define s1 where "s1 = next_segment C ?h0 ?s0"
  define s' where "s' = next_segment C ?h1 s1"
  have s0: "free_segments ?s0 = NULL" "seg_alloced ?s0 = 0"
    by (simp_all add: ialloc_init_def)
  have "\<exists>t. segment_alloc C src ?s0 = (?h0, t) \<and> upd_seg ?h0 (\<lambda>x. x\<lparr>seg_next := NULL\<rparr>) t = s1"
    unfolding s1_def by (rule next_segment_alloc) (use D s0 in \<open>simp_all\<close>)
  then obtain t1 where t1: "segment_alloc C src ?s0 = (?h0, t1)" "upd_seg ?h0 (\<lambda>x. x\<lparr>seg_next := NULL\<rparr>) t1 = s1"
    by blast
  have s1: "free_segments s1 = NULL" "seg_alloced s1 = 1"
    by (simp_all add: s1_def s0)
  have "\<exists>t. segment_alloc C src s1 = (?h1, t) \<and> upd_seg ?h1 (\<lambda>x. x\<lparr>seg_next := NULL\<rparr>) t = s'"
    unfolding s'_def by (rule next_segment_alloc) (use D s1 in \<open>simp_all\<close>)
  then obtain t2 where t2: "segment_alloc C src s1 = (?h1, t2)" "upd_seg ?h1 (\<lambda>x. x\<lparr>seg_next := NULL\<rparr>) t2 = s'"
    by blast
  have "s' = start_store C src base 0 s"
    using D(3) by (simp add: start_store_def s'_def s1_def fun_upd_idem)
  then show ?thesis
    using t1 t2 D(1,2) by (simp add: kvs_init_def hasht_init_table(1) [OF D(9)] ialloc_init_allocator_def Let_def start_allocator_def)
qed

section \<open>A small store\<close>

definition small_settings :: "u64 \<Rightarrow> u64 \<Rightarrow> settings" where
  "small_settings sz n = \<lparr>segsize = sz, segmaxnum = n, segcqsize = 16, clean_ratio = 4 / 5, valuesize = 8, hasht_size = 64\<rparr>"

definition small_source :: segment_source where
  "small_source = \<lparr>mprotect_ok = (\<lambda>_. True), malloc_header = (\<lambda>i. if i < 2 then 16 * (i + 1) else NULL)\<rparr>"

definition small_key :: key_ref where "small_key = \<lparr>key_ptr = 4096, key_len = 4\<rparr>"

definition small_connection :: connection where "small_connection = \<lparr>tx_len = 0, tx_off = 0, tx_buf = 8192\<rparr>"

lemma less_2_word: "(i :: u64) < 2 \<longleftrightarrow> i = 0 \<or> i = 1"
proof -
  have "unat i < 2 \<longleftrightarrow> unat i = 0 \<or> unat i = 1"
    by auto
  then show ?thesis
    by (simp add: word_less_nat_alt word_unat_eq_iff)
qed

lemma small_startable:
  assumes "sz = 4096 \<and> n = 4 \<or> sz = 64 \<and> n = 2"
  shows "startable (small_settings sz n) small_source (2 ^ 20)"
proof -
  have "inj_on (malloc_header small_source) {i. malloc_header small_source i \<noteq> NULL}"
    by (auto simp: inj_on_def small_source_def less_2_word split: if_splits)
  then show ?thesis
    using assms unfolding startable_def
    by (elim disjE conjE) (simp_all add: small_settings_def small_source_def word_less_nat_alt)
qed

lemma small_request:
  assumes "sz = 4096 \<and> n = 4 \<or> sz = 64 \<and> n = 2" and "seg_base s = 2 ^ 20"
  shows "request_ok (small_settings sz n) small_connection small_key s"
    and "outside (small_settings sz n) (get_buffer small_connection) (unat (valuesize (small_settings sz n))) s"
  using assms(1)
  by (auto simp: request_ok_def outside_def small_settings_def small_connection_def small_key_def arena_def block_def
      value_ptr_def get_buffer_def assms(2) c_consts)

definition small_store :: "u64 \<Rightarrow> u64 \<Rightarrow> u32 \<Rightarrow> kvs" where
  "small_store sz n off = start_store (small_settings sz n) small_source (2 ^ 20) off demo_kvs"

lemma small_store_ok:
  assumes "sz = 4096 \<and> n = 4 \<or> sz = 64 \<and> n = 2" and "off \<le> ucast sz"
  shows "store_ok (small_settings sz n) small_source (start_allocator small_source) Map.empty (small_store sz n off)"
  unfolding small_store_def
  by (rule start_ok [OF small_startable [OF assms(1)]]) (use assms(2) in \<open>simp add: small_settings_def\<close>)

lemma small_store_frame: "seg_base (small_store sz n off) = 2 ^ 20" "free_segments (small_store sz n off) = NULL"
  "seg_alloced (small_store sz n off) = 2" "seg_offset (segs (small_store sz n off) (cur (start_allocator small_source))) = off"
proof -
  have "malloc_header small_source 0 \<noteq> malloc_header small_source 1" and c: "cur (start_allocator small_source) = malloc_header small_source 0"
    by (simp_all add: small_source_def start_allocator_def)
  note g = start_store_segs(1) [OF this(1)]
  show "seg_offset (segs (small_store sz n off) (cur (start_allocator small_source))) = off"
    unfolding c small_store_def g by simp
qed (simp_all add: small_store_def start_store_frame)

lemma small_room: "has_room (small_settings 4096 4) small_source small_key (start_allocator small_source) (small_store 4096 4 0)"
  by (simp add: has_room_def fits_def small_store_frame small_settings_def small_key_def c_consts word_le_nat_alt)

lemma small_full: "\<not> has_room (small_settings 64 2) small_source small_key (start_allocator small_source) (small_store 64 2 64)"
  by (simp add: has_room_def fits_def small_store_frame small_settings_def small_key_def c_consts word_le_nat_alt)

section \<open>Properties\<close>

lemma request_ok_arena: "arena C s' = arena C s \<Longrightarrow> request_ok C co k s' = request_ok C co k s" "arena C s' = arena C s \<Longrightarrow> outside C p n s' = outside C p n s"
  by (simp_all add: request_ok_def outside_def)

lemma key_bytes_outside:
  assumes "request_ok C co k s" and "\<And>a. unat a \<notin> arena C s \<Longrightarrow> kbytes s' a = kbytes s a"
  shows "key_bytes k s' = key_bytes k s"
  unfolding key_bytes_def
  by (rule region_block) (use assms in \<open>auto simp: request_ok_def outside_def\<close>)

text \<open>
  C26: start-up makes an empty store. With two segments to start from, \<^verbatim>\<open>ialloc_init\<close>, \<^verbatim>\<open>hasht_init\<close> and
  \<^verbatim>\<open>ialloc_init_allocator\<close> succeed, keep the memory, and establish the invariant of the store for the
  empty map.
\<close>

theorem kvs_starts_empty:
  assumes "startable C src base"
  shows "\<exists>ia s'. kvs_init C src base s = Some (ia, s') \<and> store_ok C src ia Map.empty s' \<and> kbytes s' = kbytes s \<and> seg_base s' = base"
  using kvs_init_run [OF assms, of s] start_ok [OF assms, of 0 s] start_store_frame(2,4) [of C src base 0 s] by simp

theorem kvs_starts_empty_witness:
  "\<exists>ia s'. kvs_init (small_settings 4096 4) small_source (2 ^ 20) demo_kvs = Some (ia, s') \<and>
     store_ok (small_settings 4096 4) small_source ia Map.empty s'"
  using kvs_starts_empty [OF small_startable [of 4096 4], of demo_kvs] by auto

text \<open>
  C4: the key-value store implements a map from keys to values. In a store that stands for the map \<open>M\<close>, a
  \<^verbatim>\<open>get_request\<close> returns, leaves the map alone and copies the value of the key into the buffer of the
  connection, if the key has one; a \<^verbatim>\<open>set_request\<close> returns, provided there is room for a new item, and the store then
  stands for \<open>M\<close> with the new value at the key. Neither writes to memory outside the segments, but for
  the buffer.
\<close>

theorem kvs_refines_map:
  assumes "store_ok C src ia M s" and "request_ok C co k s" and "outside C (get_buffer co) (unat (valuesize C)) s"
    and "M (key_bytes k s) \<noteq> None \<or> has_room C src k ia s"
  shows "(\<exists>s'. get_request C src co k ia s = Some (ia, s') \<and> store_ok C src ia M s' \<and>
      (case M (key_bytes k s) of None \<Rightarrow> s' = s | Some v \<Rightarrow> region (kbytes s') (get_buffer co) (unat (valuesize C)) = v) \<and>
      (\<forall>a. unat a \<notin> block (get_buffer co) (unat (valuesize C)) \<longrightarrow> kbytes s' a = kbytes s a)) \<and>
    (\<exists>ia' s'. set_request C src co k ia s = Some (ia', s') \<and> store_ok C src ia' (M(key_bytes k s \<mapsto> set_value C co k s)) s' \<and>
      (\<forall>a. unat a \<notin> arena C s \<longrightarrow> kbytes s' a = kbytes s a))"
  using get_request_spec [OF assms(1-3)] set_request_spec [OF assms(1,2,4)] by blast

theorem kvs_refines_map_witness:
  "\<exists>ia' s'. set_request (small_settings 4096 4) small_source small_connection small_key (start_allocator small_source)
       (small_store 4096 4 0) = Some (ia', s') \<and>
     store_ok (small_settings 4096 4) small_source ia' [key_bytes small_key (small_store 4096 4 0) \<mapsto>
       set_value (small_settings 4096 4) small_connection small_key (small_store 4096 4 0)] s'"
proof -
  have c: "4096 = 4096 \<and> 4 = 4 \<or> 4096 = 64 \<and> 4 = (2 :: u64)"
    by simp
  note b = small_store_frame(1) [of 4096 4 0]
  show ?thesis
    using kvs_refines_map [OF small_store_ok [OF c] small_request [OF c b]] small_room by simp blast
qed

text \<open>
  C27: what has been set is what is found. After a \<^verbatim>\<open>set_request\<close> a \<^verbatim>\<open>get_request\<close>, on any connection, delivers
  the new value for the same key, and for every other key what was stored there before.
\<close>

theorem kvs_get_after_set:
  assumes "store_ok C src ia M s" and "request_ok C co k s" and "M (key_bytes k s) \<noteq> None \<or> has_room C src k ia s"
    and "request_ok C co' k' s" and "outside C (get_buffer co') (unat (valuesize C)) s"
  shows "\<exists>ia' s1 s2. set_request C src co k ia s = Some (ia', s1) \<and> get_request C src co' k' ia' s1 = Some (ia', s2) \<and>
    (key_bytes k' s = key_bytes k s \<longrightarrow> region (kbytes s2) (get_buffer co') (unat (valuesize C)) = set_value C co k s) \<and>
    (key_bytes k' s \<noteq> key_bytes k s \<longrightarrow>
       (case M (key_bytes k' s) of None \<Rightarrow> s2 = s1 | Some v \<Rightarrow> region (kbytes s2) (get_buffer co') (unat (valuesize C)) = v))"
proof -
  let ?M = "M(key_bytes k s \<mapsto> set_value C co k s)"
  obtain ia' s1 where s1: "set_request C src co k ia s = Some (ia', s1)" "store_ok C src ia' ?M s1" "arena C s1 = arena C s"
    "\<And>a. unat a \<notin> arena C s \<Longrightarrow> kbytes s1 a = kbytes s a"
    using set_request_spec [OF assms(1-3)] by blast
  have "request_ok C co' k' s1" "outside C (get_buffer co') (unat (valuesize C)) s1"
    using assms(4,5) by (simp_all add: request_ok_arena [OF s1(3)])
  from get_request_spec [OF s1(2) this] obtain s2 where s2: "get_request C src co' k' ia' s1 = Some (ia', s2)"
    "case ?M (key_bytes k' s1) of None \<Rightarrow> s2 = s1 | Some v \<Rightarrow> region (kbytes s2) (get_buffer co') (unat (valuesize C)) = v"
    by blast
  have "key_bytes k' s1 = key_bytes k' s"
    by (rule key_bytes_outside [OF assms(4) s1(4)])
  then show ?thesis
    using s1(1) s2 by (cases "key_bytes k' s = key_bytes k s") auto
qed

theorem kvs_get_after_set_witness:
  "\<exists>ia' s1 s2. set_request (small_settings 4096 4) small_source small_connection small_key (start_allocator small_source)
       (small_store 4096 4 0) = Some (ia', s1) \<and>
     get_request (small_settings 4096 4) small_source small_connection small_key ia' s1 = Some (ia', s2) \<and>
     region (kbytes s2) (get_buffer small_connection) 8 =
       set_value (small_settings 4096 4) small_connection small_key (small_store 4096 4 0)"
proof -
  have c: "4096 = 4096 \<and> 4 = 4 \<or> 4096 = 64 \<and> 4 = (2 :: u64)"
    by simp
  have v: "unat (valuesize (small_settings 4096 4)) = 8"
    by (simp add: small_settings_def)
  note b = small_store_frame(1) [of 4096 4 0]
  show ?thesis
    using kvs_get_after_set [OF small_store_ok [OF c] small_request(1) [OF c b] _ small_request [OF c b]] small_room
    unfolding v by simp
qed

text \<open>
  C28: a full store kills the benchmark. When the key is new, the item does not fit into the current segment and no
  segment is left, the allocator returns null and \<^verbatim>\<open>set_request\<close> writes through the null pointer: the call does not
  return.
\<close>

theorem kvs_full_crashes:
  assumes "store_ok C src ia M s" and "request_ok C co k s" and "M (key_bytes k s) = None" and "\<not> has_room C src k ia s"
  shows "set_request C src co k ia s = None"
proof -
  obtain fs L ov where sp: "store_parts C src ia M fs L ov s"
    using assms(1) by (auto simp: store_ok_def)
  note p = store_partsD [OF sp] and l = request_lengths [OF assms(2)]
  let ?tot = "ITEM_SIZE + key_len k + ucast (valuesize C)"
  have tot: "24 \<le> unat ?tot" "?tot < segsize C"
    using assms(2) by (simp_all add: l word_less_nat_alt request_ok_def)
  obtain ia' s' where al: "ialloc_alloc C src ?tot False ia s = Some (NULL, ia', s')"
    using ialloc_alloc_spec [OF p(1) tot, of False] has_room_alloc [OF sp] assms(4) by blast
  have "ikbytes s x \<noteq> key_bytes k s" if "x \<in> entries s ov" for x
    using contents_lookup(1) [OF sp] assms(3) that by blast
  then have "hasht_get (key_ptr k) (key_len k) (hash_string (key_bytes k s)) s = Some (NULL, s)"
    by (intro hasht_get_miss [OF p(2)]) (simp add: ikey_ikbytes key_bytes_def)
  then show ?thesis
    using l al by (simp add: set_request_def request_hash Let_def)
qed

theorem kvs_full_crashes_witness:
  "set_request (small_settings 64 2) small_source small_connection small_key (start_allocator small_source) (small_store 64 2 64) = None"
proof -
  have c: "64 = 4096 \<and> 2 = 4 \<or> 64 = 64 \<and> 2 = (2 :: u64)"
    by simp
  show ?thesis
    by (rule kvs_full_crashes [OF small_store_ok [OF c] small_request(1) [OF c] _ small_full]) (simp_all add: small_store_frame)
qed

end
