(* ===== verification/Ialloc_Room.thy ===== *)
theory Ialloc_Room
  imports Ialloc_Alloc
begin

text \<open>
  How much the item allocator can hold: as long as no segment has been freed and the system gives out every
  segment, an allocation of a fixed size uses up exactly one of a known number of places.
\<close>

definition all_segments :: "settings \<Rightarrow> segment_source \<Rightarrow> 'a segments_scheme \<Rightarrow> bool" where
  "all_segments C src s \<longleftrightarrow> free_segments s = NULL \<and> (\<forall>i < segmaxnum C. mprotect_ok src i \<and> malloc_header src i \<noteq> NULL)"

definition places :: "settings \<Rightarrow> nat \<Rightarrow> item_allocator \<Rightarrow> 'a segments_scheme \<Rightarrow> nat" where
  "places C n ia s = (unat (segsize C) - unat (seg_offset (segs s (cur ia)))) div n +
     (unat (segmaxnum C) - unat (seg_alloced s)) * (unat (segsize C) div n)"

lemma segment_item_alloc_offset:
  assumes "segment_item_alloc h tot s = Some (it, s')"
  shows "free_segments s' = free_segments s" "seg_alloced s' = seg_alloced s"
    and "it \<noteq> NULL \<Longrightarrow> seg_offset (segs s' h) = seg_offset (segs s h) + ucast tot"
  using assms by (auto simp: segment_item_alloc_def segment_item_free_def Let_def split: if_splits Option.bind_splits)

lemma segment_alloc_new:
  assumes "segment_alloc C src s = (h, s')" and "h \<noteq> NULL" and "free_segments s = NULL"
  shows "free_segments s' = NULL" "seg_alloced s < segmaxnum C" "seg_alloced s' = seg_alloced s + 1" "seg_offset (segs s' h) = 0"
  using assms by (auto simp: segment_alloc_def init_segment_def Let_def not_le split: if_splits)

lemma open_segment_offset: "seg_offset (segs (open_segment c h s) h) = seg_offset (segs s h)"
  "free_segments (open_segment c h s) = free_segments s" "seg_alloced (open_segment c h s) = seg_alloced s"
  by (simp_all add: open_segment_def)

text \<open>Taking \<open>n\<close> bytes from a segment takes one place of it.\<close>

lemma offset_places:
  fixes off :: u32 and tot :: u64
  assumes "unat off + unat tot \<le> z" and "z < 2 ^ 32" and "0 < unat tot"
  shows "(z - unat off) div unat tot = Suc ((z - unat (off + ucast tot)) div unat tot)"
proof -
  have "unat (off + ucast tot) = unat off + unat tot"
    using assms by (simp add: unat_word_ariths unsigned_ucast_eq take_bit_nat_eq_self)
  moreover have "(z - unat off) div unat tot = Suc ((z - unat off - unat tot) div unat tot)"
    using assms by (simp add: le_div_geq)
  ultimately show ?thesis
    by simp
qed

lemma seg_offset_bound:
  assumes "segs_ok C src s" and "h \<in> headers s"
  shows "unat (seg_offset (segs s h)) \<le> unat (segsize C)" "unat (segsize C) < 2 ^ 32"
  using assms segs_okD(2) [OF assms] by (auto simp: seg_ok_def segs_ok_def arena_ok_def word_le_nat_alt)

lemma ialloc_alloc_places:
  assumes a: "alloc_ok C src ia X fs L s" and t: "24 \<le> unat tot" "tot < segsize C" and all: "all_segments C src s"
    and run: "ialloc_alloc C src tot False ia s = Some (it, ia', s')" and it: "it \<noteq> NULL"
  shows "places C (unat tot) ia s = Suc (places C (unat tot) ia' s')" "all_segments C src s'"
proof -
  have ok: "segs_ok C src s" and cur: "cur ia \<in> headers s"
    using a last_in_set [of L] by (auto simp: alloc_ok_def chain_def)
  note off = seg_offset_bound [OF ok cur]
  have fr: "free_segments s = NULL"
    using all by (simp add: all_segments_def)
  have tz: "unat tot < unat (segsize C)"
    using t(2) by (simp add: word_less_nat_alt)
  obtain it0 s1 where 1: "segment_item_alloc (cur ia) tot s = Some (it0, s1)"
    and r: "reserved ia \<noteq> NULL"
    using run it by (auto simp: ialloc_alloc_def Let_def split: if_splits Option.bind_splits)
  note o1 = segment_item_alloc_offset [OF 1]
  have "(places C (unat tot) ia s = Suc (places C (unat tot) ia' s')) \<and> all_segments C src s'"
  proof (cases "fits C tot (cur ia) s")
    case True
    then have "it0 \<noteq> NULL"
      using segment_item_alloc_fits [OF ok cur t(1)] 1 by (auto simp: fits_def)
    moreover from this have "ia' = ia" "s' = s1"
      using run r 1 t(2) by (simp_all add: ialloc_alloc_def Let_def)
    moreover have "unat (seg_offset (segs s (cur ia))) + unat tot \<le> unat (segsize C)"
      using True t(1) by (simp add: fits_def)
    ultimately show ?thesis
      using offset_places [OF _ off(2), of "seg_offset (segs s (cur ia))" tot] o1 all t(1)
      by (simp add: places_def all_segments_def)
  next
    case False
    then have "it0 = NULL"
      using segment_item_alloc_full [OF ok cur, of tot] 1 by (auto simp: fits_def not_le)
    obtain h s2 where 2: "segment_alloc C src s1 = (h, s2)"
      by (cases "segment_alloc C src s1")
    have h: "h \<noteq> NULL" and 3: "segment_item_alloc h tot (open_segment (cur ia) h s2) = Some (it, s')" "ia' = ia\<lparr>cur := h\<rparr>"
      using run r it 1 2 \<open>it0 = NULL\<close> by (auto simp: ialloc_alloc_def open_segment_def Let_def split: Option.bind_splits if_splits)
    note n = segment_alloc_new [OF 2 h o1(1) [unfolded fr]]
    note o2 = segment_item_alloc_offset [OF 3(1), unfolded open_segment_offset]
    define m where "m = unat (segmaxnum C) - Suc (unat (seg_alloced s))"
    define d where "d = (unat (segsize C) - unat (0 + ucast tot :: u32)) div unat tot"
    have "unat (seg_alloced s + 1) = Suc (unat (seg_alloced s))" "unat (seg_alloced s) < unat (segmaxnum C)"
      using n(2) o1(2) unat_plus_1 [of "seg_alloced s" "segmaxnum C"] by (auto simp: word_less_nat_alt)
    moreover have s': "seg_offset (segs s' h) = 0 + ucast tot" "seg_alloced s' = seg_alloced s + 1" "free_segments s' = NULL"
      using o1 o2 n it fr by simp_all
    ultimately have mm: "unat (segmaxnum C) - unat (seg_alloced s) = Suc m" "unat (segmaxnum C) - unat (seg_alloced s') = m"
      by (simp_all add: m_def)
    have z: "(unat (segsize C) - unat (seg_offset (segs s (cur ia)))) div unat tot = 0"
      using False by (simp add: fits_def)
    have dd: "unat (segsize C) div unat tot = Suc d"
      using offset_places [OF _ off(2), of 0 tot] tz t(1) by (simp add: d_def)
    have "places C (unat tot) ia s = Suc m * Suc d"
      unfolding places_def mm z dd by simp
    moreover have "places C (unat tot) ia' s' = d + m * Suc d"
      unfolding places_def mm dd 3(2) by (simp add: s' d_def)
    ultimately show ?thesis
      using all s'(3) by (simp add: all_segments_def)
  qed
  then show "places C (unat tot) ia s = Suc (places C (unat tot) ia' s')" "all_segments C src s'"
    by blast+
qed

lemma places_frame:
  assumes "free_segments s' = free_segments s" and "seg_alloced s' = seg_alloced s" and "\<And>h. seg_offset (segs s' h) = seg_offset (segs s h)"
  shows "places C n ia s' = places C n ia s" "all_segments C src s' = all_segments C src s"
  using assms by (simp_all add: places_def all_segments_def)

text \<open>A place is all an allocation needs.\<close>

lemma places_can_alloc:
  assumes "all_segments C src s" and "0 < places C (unat tot) ia s" and "0 < unat tot" and "reserved ia \<noteq> NULL"
  shows "fits C tot (cur ia) s \<or> seg_alloced s < segmaxnum C \<and> mprotect_ok src (seg_alloced s) \<and> malloc_header src (seg_alloced s) \<noteq> NULL"
proof (cases "fits C tot (cur ia) s")
  case False
  then have "seg_alloced s < segmaxnum C"
    using assms(2,3) by (simp add: places_def fits_def word_less_nat_alt)
  then show ?thesis
    using assms(1) by (simp add: all_segments_def)
qed simp

end
