(* ===== verification/Workload.thy ===== *)
theory Workload
  imports Kvs_Inv
begin

text \<open>
  \<^verbatim>\<open>apps/flexkvs/bench/rng.c\<close> and the part of \<^verbatim>\<open>apps/flexkvs/bench/workload.c\<close> that makes keys and picks
  requests: a linear congruential generator of 48 bits, the keys it generates, and the binary search that
  draws a key by its cumulative probability.
\<close>

section \<open>The random number generator\<close>

type_synonym rng = u64

definition rng_a :: u64 where "rng_a = 0x5deece66d"
definition rng_c :: u64 where "rng_c = 0xb"
definition rng_m :: u64 where "rng_m = push_bit 48 1"

definition rng_init :: "u64 \<Rightarrow> rng" where
  "rng_init sd = (sd XOR rng_a) mod rng_m"

definition rng_gen32 :: "rng \<Rightarrow> u32 \<times> rng" where
  "rng_gen32 sd = (let nxt = (rng_a * sd + rng_c) mod rng_m in (ucast (drop_bit 16 nxt), nxt))"

text \<open>
  Where an expression calls the generator twice, C leaves the order of the calls open; \<open>lr\<close> tells whether the
  compiler evaluates the left operand first.
\<close>

definition draw_pair :: "bool \<Rightarrow> rng \<Rightarrow> u32 \<times> u32 \<times> rng" where
  "draw_pair lr sd = (let (x, sd) = rng_gen32 sd; (y, sd) = rng_gen32 sd in if lr then (x, y, sd) else (y, x, sd))"

text \<open>The quotient is below 1 with at most 53 significant bits, so that the double is exact.\<close>

definition rng_gend :: "bool \<Rightarrow> rng \<Rightarrow> rat \<times> rng" where
  "rng_gend lr sd =
     (let (hi, lo, sd) = draw_pair lr sd; x = push_bit 27 (ucast (drop_bit 6 hi) :: u64) + ucast (drop_bit 5 lo)
      in (of_nat (unat x) / 2 ^ 53, sd))"

definition store32 :: "u64 \<Rightarrow> u32 \<Rightarrow> bytes \<Rightarrow> bytes" where
  "store32 p x m = m(p := ucast x, p + 1 := ucast (drop_bit 8 x), p + 2 := ucast (drop_bit 16 x), p + 3 := ucast (drop_bit 24 x))"

lemma four_less: "4 \<le> (n :: u64) \<Longrightarrow> unat (n - 4) < unat n"
  by (simp add: unat_sub word_le_nat_alt)

function gen_words :: "rng \<Rightarrow> u64 \<Rightarrow> u64 \<Rightarrow> bytes \<Rightarrow> rng \<times> u64 \<times> u64 \<times> bytes" where
  "gen_words sd buf sz m =
     (if sz \<ge> 4 then let (x, sd) = rng_gen32 sd in gen_words sd (buf + 4) (sz - 4) (store32 buf x m)
      else (sd, buf, sz, m))"
  by pat_completeness auto
termination
  by (relation "measure (\<lambda>(sd, buf, n, m). unat n)") (auto intro: four_less)

function gen_bytes :: "u32 \<Rightarrow> u64 \<Rightarrow> u64 \<Rightarrow> bytes \<Rightarrow> bytes" where
  "gen_bytes x buf sz m = (if sz > 0 then gen_bytes (push_bit 8 x) (buf + 1) (sz - 1) (m(buf := ucast (drop_bit 24 x))) else m)"
  by pat_completeness auto
termination
  by (relation "measure (\<lambda>(x, buf, n, m). unat n)") (auto simp: unat_sub word_le_nat_alt word_less_nat_alt)

definition rng_gen :: "rng \<Rightarrow> u64 \<Rightarrow> u64 \<Rightarrow> bytes \<Rightarrow> rng \<times> bytes" where
  "rng_gen sd buf sz m =
     (let (sd, buf, sz, m) = gen_words sd buf sz m; (x, sd) = rng_gen32 sd in (sd, gen_bytes x buf sz m))"

section \<open>The workload\<close>

record workload_key = key_ref +
  cdf :: rat

datatype workload_op_kind = WL_OP_GET | WL_OP_SET | WL_OP_DELETE

text \<open>The loop of \<^verbatim>\<open>generate_keys\<close>; the keys go to the memory behind the array of structures.\<close>

fun generate_keys :: "rng \<Rightarrow> nat \<Rightarrow> u64 \<Rightarrow> u64 \<Rightarrow> bytes \<Rightarrow> key_ref list \<times> rng \<times> bytes" where
  "generate_keys sd 0 keysz keys m = ([], sd, m)"
| "generate_keys sd (Suc n) keysz keys m =
     (let (sd, m) = rng_gen sd keys keysz m; (ks, sd, m) = generate_keys sd n keysz (keys + keysz) m
      in (\<lparr>key_ptr = keys, key_len = keysz\<rparr> # ks, sd, m))"

definition key_in_range :: "(u64 \<Rightarrow> 'a workload_key_scheme) \<Rightarrow> u64 \<Rightarrow> u64 \<Rightarrow> rat \<Rightarrow> int" where
  "key_in_range keys n i x =
     (if x < cdf (keys i) then if i = 0 then 0 else if x \<le> cdf (keys (i - 1)) then -1 else 0
      else if x > cdf (keys i) then if i = n - 1 then 0 else 1
      else 0)"

partial_function (option) draw_loop :: "(u64 \<Rightarrow> 'a workload_key_scheme) \<Rightarrow> u64 \<Rightarrow> rat \<Rightarrow> u64 \<Rightarrow> u64 \<Rightarrow> u64 \<Rightarrow> u64 option" where
  "draw_loop keys n x l r mid =
     (if l < r then
        let mid = (l + r) div 2; res = key_in_range keys n mid x in
        if res < 0 then draw_loop keys n x l (mid - 1) mid
        else if res > 0 then draw_loop keys n x (mid + 1) r mid
        else Some mid
      else Some mid)"

definition draw_key :: "bool \<Rightarrow> (u64 \<Rightarrow> 'a workload_key_scheme) \<Rightarrow> u64 \<Rightarrow> rng \<Rightarrow> (u64 \<times> rng) option" where
  "draw_key lr keys n sd = do { let (x, sd) = rng_gend lr sd; i \<leftarrow> draw_loop keys n x 0 (n - 1) 0; Some (i, sd) }"

definition workload_core_init :: "bool \<Rightarrow> rng \<Rightarrow> rng \<times> rng" where
  "workload_core_init lr op_rng =
     (let (x, y, op_rng) = draw_pair lr op_rng in (rng_init (push_bit 16 (ucast x) XOR ucast y), op_rng))"

definition workload_op :: "bool \<Rightarrow> rat \<Rightarrow> (u64 \<Rightarrow> 'a workload_key_scheme) \<Rightarrow> u64 \<Rightarrow> rng \<Rightarrow> (workload_op_kind \<times> u64 \<times> rng) option" where
  "workload_op lr get_prob keys n sd = do {
     let (x, sd) = rng_gend lr sd;
     let op = (if x \<le> get_prob then WL_OP_GET else WL_OP_SET);
     (k, sd) \<leftarrow> draw_key lr keys n sd;
     Some (op, k, sd)
   }"

section \<open>The period of the generator\<close>

text \<open>Over the numbers the generator is an affine map; \<open>geo\<close> is the geometric sum of its multiplier.\<close>

definition geo :: "nat \<Rightarrow> nat \<Rightarrow> nat" where "geo a n = (\<Sum>i<n. a ^ i)"

lemma geo_simps [simp]: "geo a 0 = 0" "geo a (Suc n) = 1 + a * geo a n"
proof -
  show "geo a (Suc n) = 1 + a * geo a n"
    by (simp only: geo_def sum.lessThan_Suc_shift) (simp add: sum_distrib_left)
qed (simp add: geo_def)

lemma geo_add: "geo a (m + n) = geo a m + a ^ m * geo a n"
  by (induction m) (simp_all add: algebra_simps)

lemma geo_power: "Suc b ^ n = 1 + b * geo (Suc b) n"
  by (induction n) (simp_all add: algebra_simps)

lemma odd_geo: "odd a \<Longrightarrow> odd (geo a n) \<longleftrightarrow> odd n"
  by (induction n) auto

lemma power_mod_4: "a mod 4 = 1 \<Longrightarrow> a ^ m mod 4 = (1 :: nat)"
  by (induction m) (simp_all add: mod_mult_left_eq flip: mod_mult_right_eq [of _ "_ ^ _"])

text \<open>For a multiplier that is 1 modulo 4, the sum of \<open>n\<close> powers has the same powers of two as \<open>n\<close>.\<close>

lemma geo_dvd:
  assumes a: "a mod 4 = 1"
  shows "2 ^ k dvd geo a n \<longleftrightarrow> 2 ^ k dvd n"
proof (induction n arbitrary: k rule: less_induct)
  case (less n)
  have odd_a: "odd a"
    using a by presburger
  show ?case
  proof (cases "odd n")
    case True
    then show ?thesis
      using odd_geo [OF odd_a, of n] by (cases k) (auto dest: dvd_mult_left)
  next
    case False
    then obtain m where n: "n = m + m"
      by (metis evenE mult_2)
    have g: "geo a n = geo a m * (1 + a ^ m)"
      by (simp add: n geo_add algebra_simps)
    have "(1 + a ^ m) mod 4 = 2"
      using power_mod_4 [OF a, of m] by presburger
    then obtain q where q: "1 + a ^ m = 2 * q" "odd q"
      by (intro that [of "(1 + a ^ m) div 2"]) presburger+
    show ?thesis
    proof (cases k)
      case (Suc j)
      have c: "coprime (2 ^ j) q"
        using q(2) by simp
      have "2 ^ k dvd geo a n \<longleftrightarrow> 2 ^ j dvd geo a m * q"
        by (simp only: Suc g q(1) mult.left_commute [of _ 2] power_Suc) simp
      also have "\<dots> \<longleftrightarrow> 2 ^ j dvd geo a m"
        by (rule coprime_dvd_mult_left_iff [OF c])
      also have "\<dots> \<longleftrightarrow> 2 ^ j dvd m"
        using less.IH [of m j] by (cases "m = 0") (simp_all add: n)
      also have "\<dots> \<longleftrightarrow> 2 ^ k dvd n"
        by (simp add: Suc n flip: mult_2)
      finally show ?thesis .
    qed simp
  qed
qed

text \<open>The \<open>n\<close>-th iterate of the affine map.\<close>

definition lcg :: "nat \<Rightarrow> nat \<Rightarrow> nat \<Rightarrow> nat \<Rightarrow> nat" where "lcg a c n x = a ^ n * x + c * geo a n"

lemma lcg_Suc: "lcg a c (Suc n) x = a * lcg a c n x + c"
  by (simp add: lcg_def algebra_simps)

lemma lcg_closed: "lcg (Suc b) c n x = x + geo (Suc b) n * (b * x + c)"
  unfolding lcg_def geo_power by (simp add: algebra_simps)

lemma lcg_add: "lcg (Suc b) c (m + n) x = lcg (Suc b) c m x + Suc b ^ m * geo (Suc b) n * (b * x + c)"
  by (simp only: lcg_closed geo_add) (simp add: algebra_simps)

text \<open>The theorem of Hull and Dobell for a modulus that is a power of two.\<close>

lemma lcg_inj:
  assumes b: "b mod 4 = 0" and c: "odd c"
  shows "inj_on (\<lambda>n. lcg (Suc b) c n x mod 2 ^ k) {..<2 ^ k}"
proof -
  have "m = n" if le: "m \<le> n" "n < 2 ^ k" and eq: "lcg (Suc b) c m x mod 2 ^ k = lcg (Suc b) c n x mod 2 ^ k" for m n
  proof -
    have "even b"
      using b by presburger
    then have "coprime (2 ^ k) (Suc b ^ m)" "coprime (2 ^ k) (b * x + c)"
      using c by simp_all
    note odd_factors = coprime_dvd_mult_right_iff [OF this(1)] coprime_dvd_mult_left_iff [OF this(2)]
    have "lcg (Suc b) c m x \<le> lcg (Suc b) c (m + (n - m)) x"
      by (simp only: lcg_add)
    from mod_eq_dvd_iff_nat [OF this, of "2 ^ k"] have "2 ^ k dvd lcg (Suc b) c (m + (n - m)) x - lcg (Suc b) c m x"
      using eq le by simp
    then have "2 ^ k dvd Suc b ^ m * geo (Suc b) (n - m) * (b * x + c)"
      by (simp add: lcg_add)
    then have "2 ^ k dvd geo (Suc b) (n - m)"
      using odd_factors by blast
    moreover have "Suc b mod 4 = 1"
      using b by presburger
    ultimately have "2 ^ k dvd n - m"
      by (simp add: geo_dvd)
    then show "m = n"
      using le by (auto dest: dvd_imp_le)
  qed
  then show ?thesis
    by (intro inj_onI) (metis lessThan_iff nle_le)
qed

lemma lcg_surj:
  assumes "b mod 4 = 0" and "odd c" and "y < 2 ^ k"
  shows "\<exists>!n. n < 2 ^ k \<and> lcg (Suc b) c n x mod 2 ^ k = y"
proof -
  let ?f = "\<lambda>n. lcg (Suc b) c n x mod 2 ^ k"
  note inj = lcg_inj [OF assms(1,2), of x k]
  have "?f ` {..<2 ^ k} = {..<2 ^ k}"
    by (rule endo_inj_surj) (auto intro: inj)
  with assms(3) have "y \<in> ?f ` {..<2 ^ k}"
    by simp
  then have "\<exists>n<2 ^ k. ?f n = y"
    by blast
  then show ?thesis
    using inj by (auto dest: inj_onD)
qed

text \<open>The generator computes this map.\<close>

definition rng_next :: "rng \<Rightarrow> rng" where "rng_next sd = snd (rng_gen32 sd)"

lemma unat_rng_m: "unat rng_m = 2 ^ 48"
  by (simp add: rng_m_def push_bit_eq_mult)

lemma mod_2p48: "(x :: nat) mod 2 ^ 64 mod 2 ^ 48 = x mod 2 ^ 48"
  by (rule mod_mod_cancel) (rule le_imp_power_dvd, simp)

lemma rng_next_lcg: "unat (rng_next sd) = (0x5deece66d * unat sd + 0xb) mod 2 ^ 48"
proof -
  have "unat (rng_a * sd + rng_c) = (0x5deece66d * unat sd + 0xb) mod 2 ^ 64"
    by (simp add: unat_word_ariths rng_a_def rng_c_def mod_simps)
  then show ?thesis
    by (simp only: rng_next_def rng_gen32_def Let_def snd_conv unat_mod unat_rng_m mod_2p48)
qed

lemma affine_mod: "(a * (x mod m) + c) mod m = (a * x + c :: nat) mod m"
  by (metis mod_add_left_eq mod_mult_right_eq)

lemma rng_iterate: "unat sd < 2 ^ 48 \<Longrightarrow> unat ((rng_next ^^ n) sd) = lcg 0x5deece66d 0xb n (unat sd) mod 2 ^ 48"
proof (induction n)
  case 0
  then show ?case by (simp add: lcg_def)
next
  case (Suc n)
  then show ?case
    by (simp only: funpow.simps comp_apply rng_next_lcg lcg_Suc affine_mod)
qed

lemma rng_init_bound: "unat (rng_init sd) < 2 ^ 48"
  by (simp add: rng_init_def unat_mod unat_rng_m)

text \<open>
  C29: the generator has full period. From any seed that \<^verbatim>\<open>rng_init\<close> makes, every one of the \<open>2 ^ 48\<close>
  states is reached after exactly one number of steps below \<open>2 ^ 48\<close>.
\<close>

theorem rng_full_period:
  assumes "unat st < 2 ^ 48"
  shows "\<exists>!n. n < 2 ^ 48 \<and> (rng_next ^^ n) (rng_init sd) = st"
proof -
  have "\<exists>!n. n < 2 ^ 48 \<and> lcg (Suc 0x5deece66c) 0xb n (unat (rng_init sd)) mod 2 ^ 48 = unat st"
    by (rule lcg_surj) (use assms in simp_all)
  then show ?thesis
    by (simp add: word_unat_eq_iff rng_iterate [OF rng_init_bound])
qed

theorem rng_full_period_witness: "\<exists>!n. n < 2 ^ 48 \<and> (rng_next ^^ n) (rng_init 42) = 7"
  by (rule rng_full_period) simp

section \<open>Numbers between 0 and 1\<close>

lemma unat_u32: "unat (x :: u32) < 2 ^ 32"
  using unsigned_less [of x, where 'a = nat] by simp

text \<open>
  C30: \<^verbatim>\<open>rng_gend\<close> returns a multiple of \<open>2 ^ -53\<close> that is at least 0 and below 1, whatever the order in
  which its two operands are evaluated, and advances the generator by two steps.
\<close>

theorem rng_gend_unit:
  "\<exists>q < 2 ^ 53. rng_gend lr sd = (of_nat q / 2 ^ 53, rng_next (rng_next sd))"
proof -
  obtain hi lo where p: "draw_pair lr sd = (hi, lo, rng_next (rng_next sd))"
    by (cases lr; cases "rng_gen32 sd"; cases "rng_gen32 (snd (rng_gen32 sd))") (auto simp: draw_pair_def rng_next_def)
  let ?x = "push_bit 27 (ucast (drop_bit 6 hi) :: u64) + ucast (drop_bit 5 lo)"
  have hi: "unat (drop_bit 6 hi) < 2 ^ 26" and lo: "unat (drop_bit 5 lo) < 2 ^ 27"
    using unat_u32 [of hi] unat_u32 [of lo] by (simp_all add: unat_drop_bit_eq drop_bit_eq_div unat_div less_mult_imp_div_less)
  have "unat (push_bit 27 (ucast (drop_bit 6 hi) :: u64)) = 2 ^ 27 * unat (drop_bit 6 hi)"
    using hi by (simp add: push_bit_eq_mult unat_word_ariths unsigned_ucast_eq take_bit_nat_eq_self)
  then have "unat ?x = 2 ^ 27 * unat (drop_bit 6 hi) + unat (drop_bit 5 lo)"
    using hi lo by (simp add: unat_word_ariths unsigned_ucast_eq take_bit_nat_eq_self)
  then have "unat ?x < 2 ^ 53"
    using hi lo by simp
  then show ?thesis
    by (intro exI [of _ "unat ?x"]) (simp add: rng_gend_def p Let_def)
qed

section \<open>Drawing a key\<close>

text \<open>The key a number falls on: the first whose cumulative probability reaches it, or else the last.\<close>

definition falls_on :: "(u64 \<Rightarrow> 'a workload_key_scheme) \<Rightarrow> nat \<Rightarrow> rat \<Rightarrow> nat \<Rightarrow> bool" where
  "falls_on keys n x i \<longleftrightarrow> i < n \<and> (\<forall>j<i. cdf (keys (word_of_nat j)) < x) \<and> (i < n - 1 \<longrightarrow> x \<le> cdf (keys (word_of_nat i)))"

definition increasing :: "(u64 \<Rightarrow> 'a workload_key_scheme) \<Rightarrow> nat \<Rightarrow> bool" where
  "increasing keys n \<longleftrightarrow> (\<forall>i j. i < j \<longrightarrow> j < n \<longrightarrow> cdf (keys (word_of_nat i)) < cdf (keys (word_of_nat j)))"

lemma increasingD: "increasing keys n \<Longrightarrow> i < j \<Longrightarrow> j < n \<Longrightarrow> cdf (keys (word_of_nat i)) < cdf (keys (word_of_nat j))"
  unfolding increasing_def by blast

lemma increasing_le:
  assumes "increasing keys n" and "i \<le> j" and "j < n"
  shows "cdf (keys (word_of_nat i)) \<le> cdf (keys (word_of_nat j))"
proof (cases "i = j")
  case False
  then show ?thesis
    using increasingD [OF assms(1), of i j] assms(2,3) by linarith
qed simp

lemma key_in_range_falls_on:
  assumes inc: "increasing keys n" and f: "falls_on keys n x i" and m: "m < n" and n: "n \<le> 2 ^ 60"
  shows "key_in_range keys (word_of_nat n) (word_of_nat m) x = (if m = i then 0 else if m < i then 1 else -1)"
proof -
  let ?w = "word_of_nat :: nat \<Rightarrow> u64"
  have w: "?w a = ?w b \<longleftrightarrow> a = b" if "a < 2 ^ 60" "b < 2 ^ 60" for a b
    using that by (auto simp: word_of_nat_eq_iff take_bit_nat_eq_self)
  have z: "?w m = 0 \<longleftrightarrow> m = 0"
    using w [of m 0] m n by simp
  have p: "?w m - 1 = ?w (m - 1)" if "0 < m"
    using that by (simp add: of_nat_diff)
  have l: "?w m = ?w n - 1 \<longleftrightarrow> m = n - 1"
    using w [of m "n - 1"] m n by (simp add: of_nat_diff)
  consider (lt) "m < i" | (eq) "m = i" | (gt) "i < m"
    by linarith
  then show ?thesis
  proof cases
    case lt
    then have "cdf (keys (?w m)) < x" "m \<noteq> n - 1"
      using f by (auto simp: falls_on_def)
    then show ?thesis
      using lt by (simp add: key_in_range_def l)
  next
    case eq
    have "m \<noteq> 0 \<Longrightarrow> cdf (keys (?w m - 1)) < x"
      using f p eq by (simp del: of_nat_diff add: falls_on_def)
    moreover have "m \<noteq> n - 1 \<Longrightarrow> x \<le> cdf (keys (?w m))"
      using f m eq by (simp add: falls_on_def)
    ultimately show ?thesis
      unfolding key_in_range_def z l by (cases "m = 0"; cases "m = n - 1") (auto simp: eq)
  next
    case gt
    then have "i < n - 1" "i \<le> m - 1" "m - 1 < m" and m0: "0 < m"
      using m by linarith+
    then have "x \<le> cdf (keys (?w i))"
      using f unfolding falls_on_def by blast
    moreover have "cdf (keys (?w i)) \<le> cdf (keys (?w (m - 1)))"
      by (rule increasing_le [OF inc \<open>i \<le> m - 1\<close>]) (use m in simp)
    moreover have "cdf (keys (?w (m - 1))) < cdf (keys (?w m))"
      by (rule increasingD [OF inc]) (use gt m in simp_all)
    ultimately have "x \<le> cdf (keys (?w (m - 1)))" "x < cdf (keys (?w m))"
      by linarith+
    then show ?thesis
      using gt m0 unfolding key_in_range_def z p [OF m0] by simp
  qed
qed

text \<open>The loop over the indices as natural numbers: no sum wraps around for an array that fits into memory.\<close>

lemma draw_loop_nat:
  assumes "l \<le> 2 ^ 60" and "r \<le> 2 ^ 60"
  shows "draw_loop keys n x (word_of_nat l) (word_of_nat r) mid =
    (if l < r then
       let m = (l + r) div 2; res = key_in_range keys n (word_of_nat m) x in
       if res < 0 then draw_loop keys n x (word_of_nat l) (word_of_nat m - 1) (word_of_nat m)
       else if res > 0 then draw_loop keys n x (word_of_nat (Suc m)) (word_of_nat r) (word_of_nat m)
       else Some (word_of_nat m)
     else Some mid)"
proof -
  let ?w = "word_of_nat :: nat \<Rightarrow> u64"
  have u: "unat (?w k) = k" if "k \<le> 2 ^ 61" for k
    using that by (simp add: unsigned_of_nat take_bit_nat_eq_self)
  have l: "?w l < ?w r \<longleftrightarrow> l < r"
    using u [of l] u [of r] assms by (simp add: word_less_nat_alt)
  have "unat (?w l + ?w r) = l + r"
    using u [of l] u [of r] assms by (simp add: unat_word_ariths)
  then have "unat ((?w l + ?w r) div 2) = unat (?w ((l + r) div 2))"
    using u [of "(l + r) div 2"] assms by (simp add: unat_div)
  then have m: "(?w l + ?w r) div 2 = ?w ((l + r) div 2)"
    by (simp only: word_unat_eq_iff)
  show ?thesis
    by (subst draw_loop.simps) (simp add: l m Let_def add.commute)
qed

lemma key_in_range_left: "key_in_range keys n (word_of_nat m) x < 0 \<Longrightarrow> 0 < m"
  by (cases m) (simp_all add: key_in_range_def split: if_splits)

lemma draw_loop_total:
  assumes "l \<le> 2 ^ 60" and "r \<le> 2 ^ 60"
  shows "\<exists>i. draw_loop keys n x (word_of_nat l) (word_of_nat r) (word_of_nat mid) = Some (word_of_nat i) \<and> (i = mid \<or> i < r)"
  using assms
proof (induction "r - l" arbitrary: l r mid rule: less_induct)
  case less
  note unf = draw_loop_nat [OF less.prems]
  show ?case
  proof (cases "l < r")
    case True
    define m where "m = (l + r) div 2"
    define res where "res = key_in_range keys n (word_of_nat m) x"
    have m: "l \<le> m" "m < r"
      using True by (auto simp: m_def)
    consider "res < 0" | "0 < res" | "res = 0"
      by linarith
    then show ?thesis
    proof cases
      case 1
      then have m0: "0 < m"
        unfolding res_def by (rule key_in_range_left)
      have "m - 1 - l < r - l" "m - 1 \<le> 2 ^ 60"
        using m less.prems by linarith+
      from less.hyps [OF this(1) less.prems(1) this(2), of m] obtain i where
        "draw_loop keys n x (word_of_nat l) (word_of_nat (m - 1)) (word_of_nat m) = Some (word_of_nat i)" "i = m \<or> i < m - 1"
        by blast
      then show ?thesis
        using 1 m m0 True unfolding unf Let_def m_def [symmetric] res_def [symmetric]
        by (intro exI [of _ i]) (auto simp: of_nat_diff)
    next
      case 2
      have "r - Suc m < r - l" "Suc m \<le> 2 ^ 60"
        using m less.prems by linarith+
      from less.hyps [OF this less.prems(2), of m] obtain i where
        "draw_loop keys n x (word_of_nat (Suc m)) (word_of_nat r) (word_of_nat m) = Some (word_of_nat i)" "i = m \<or> i < r"
        by blast
      then show ?thesis
        using 2 m True unfolding unf Let_def m_def [symmetric] res_def [symmetric]
        by (intro exI [of _ i]) auto
    next
      case 3
      then show ?thesis
        using m True unfolding unf Let_def m_def [symmetric] res_def [symmetric]
        by (intro exI [of _ m]) auto
    qed
  next
    case False
    then show ?thesis
      unfolding unf by auto
  qed
qed

lemma draw_loop_near:
  assumes inc: "increasing keys n" and f: "falls_on keys n x i" and n: "n \<le> 2 ^ 60"
    and "l \<le> i" and "i \<le> r" and "r < n"
  shows "\<exists>j. draw_loop keys (word_of_nat n) x (word_of_nat l) (word_of_nat r) (word_of_nat mid) = Some (word_of_nat j) \<and>
    (if l < r then j \<le> Suc i \<and> i \<le> Suc j else j = mid)"
  using assms(4-)
proof (induction "r - l" arbitrary: l r mid rule: less_induct)
  case less
  have "l \<le> 2 ^ 60" "r \<le> 2 ^ 60"
    using less.prems n by linarith+
  note unf = draw_loop_nat [OF this]
  show ?case
  proof (cases "l < r")
    case True
    define m where "m = (l + r) div 2"
    have m: "l \<le> m" "m < r" "m < n"
      using True less.prems by (auto simp: m_def)
    note res = key_in_range_falls_on [OF inc f m(3) n]
    consider (gt) "i < m" | (lt) "m < i" | (eq) "m = i"
      by linarith
    then show ?thesis
    proof cases
      case gt
      then have a: "m - 1 - l < r - l" "i \<le> m - 1" "m - 1 < n" "m = Suc (m - 1)"
        using m by linarith+
      from less.hyps [OF a(1) less.prems(1) a(2,3), of m] obtain j where
        j: "draw_loop keys (word_of_nat n) x (word_of_nat l) (word_of_nat (m - 1)) (word_of_nat m) = Some (word_of_nat j)"
        "if l < m - 1 then j \<le> Suc i \<and> i \<le> Suc j else j = m"
        by blast
      have "j \<le> Suc i \<and> i \<le> Suc j"
        using j(2) a less.prems by (cases "l < m - 1") auto
      then show ?thesis
        using gt True j(1) a(4) unfolding unf Let_def m_def [symmetric] res
        by (intro exI [of _ j]) (auto simp: of_nat_diff)
    next
      case lt
      then have a: "r - Suc m < r - l" "Suc m \<le> i"
        using m by linarith+
      from less.hyps [OF a less.prems(2,3), of m] obtain j where
        j: "draw_loop keys (word_of_nat n) x (word_of_nat (Suc m)) (word_of_nat r) (word_of_nat m) = Some (word_of_nat j)"
        "if Suc m < r then j \<le> Suc i \<and> i \<le> Suc j else j = m"
        by blast
      have "j \<le> Suc i \<and> i \<le> Suc j"
        using j(2) a less.prems by (cases "Suc m < r") auto
      then show ?thesis
        using lt True j(1) unfolding unf Let_def m_def [symmetric] res
        by (intro exI [of _ j]) auto
    next
      case eq
      then show ?thesis
        using True unfolding unf Let_def m_def [symmetric] res
        by (intro exI [of _ m]) auto
    qed
  next
    case False
    then show ?thesis
      unfolding unf by auto
  qed
qed

lemma word_nat: "word_of_nat (unat n) = (n :: u64)" "n \<noteq> 0 \<Longrightarrow> word_of_nat (unat n - 1) = n - 1"
proof -
  show w: "word_of_nat (unat n) = n" for n :: u64
    by simp
  assume "n \<noteq> 0"
  then have "unat n - 1 = unat (n - 1)"
    by (simp add: unat_minus_one)
  then show "word_of_nat (unat n - 1) = n - 1"
    by (simp only: w)
qed

lemma falls_on_exists:
  assumes "0 < n"
  shows "\<exists>i. falls_on keys n x i"
proof -
  let ?P = "\<lambda>i. i = n - 1 \<or> x \<le> cdf (keys (word_of_nat i))"
  define i where "i = (LEAST i. ?P i)"
  have "?P i"
    unfolding i_def by (rule LeastI [of ?P "n - 1"]) simp
  moreover have "i \<le> n - 1"
    unfolding i_def by (rule Least_le) simp
  moreover have "\<not> ?P j" if "j < i" for j
    using that unfolding i_def by (rule not_less_Least)
  ultimately show ?thesis
    using assms by (intro exI [of _ i]) (auto simp: falls_on_def not_le)
qed

lemma word_of_nat_below: "i < unat n \<Longrightarrow> word_of_nat i < (n :: u64)"
  using unsigned_less [of n, where 'a = nat] by (simp add: word_less_nat_alt unsigned_of_nat take_bit_nat_eq_self)

lemma draw_key_index:
  assumes "0 < n" and "n \<le> 2 ^ 60"
  shows "\<exists>i. draw_key lr keys n sd = Some (word_of_nat i, rng_next (rng_next sd)) \<and> (i = 0 \<or> i < unat n - 1)"
proof -
  obtain x where x: "rng_gend lr sd = (x, rng_next (rng_next sd))"
    using rng_gend_unit by blast
  have n: "n \<noteq> 0" "unat n - 1 \<le> 2 ^ 60"
    using assms by (auto simp: word_le_nat_alt)
  have "\<exists>i. draw_loop keys n x 0 (n - 1) 0 = Some (word_of_nat i) \<and> (i = 0 \<or> i < unat n - 1)"
    using draw_loop_total [OF _ n(2), of 0 keys n x 0] unfolding word_nat(2) [OF n(1)] semiring_1_class.of_nat_0 by simp
  then obtain i where "draw_loop keys n x 0 (n - 1) 0 = Some (word_of_nat i)" "i = 0 \<or> i < unat n - 1"
    by blast
  then show ?thesis
    using x by (intro exI [of _ i]) (simp add: draw_key_def)
qed

text \<open>
  C31: drawing a key terminates and stays inside the array, for any contents of the array: no bound of the binary
  search leaves it and no index wraps around, as long as there is a key and the array fits into memory.
\<close>

theorem draw_key_returns:
  assumes "0 < n" and "n \<le> 2 ^ 60"
  shows "\<exists>i < n. draw_key lr keys n sd = Some (i, rng_next (rng_next sd))"
proof -
  have "0 < unat n"
    using assms(1) by (simp add: word_less_nat_alt)
  then show ?thesis
    using draw_key_index [OF assms, of lr keys sd] by (auto intro!: word_of_nat_below)
qed

theorem draw_key_returns_witness: "\<exists>i < 5. draw_key True (\<lambda>_. \<lparr>key_ptr = 0, key_len = 8, cdf = 1\<rparr>) 5 7 = Some (i, rng_next (rng_next 7))"
  by (rule draw_key_returns) (simp_all add: word_le_nat_alt word_less_nat_alt)

text \<open>
  C32: with at least two keys the last one is never drawn, whatever the distribution says: the loop returns the
  last middle it looked at and not the bound it converged to, and a middle is always below the right end.
\<close>

theorem last_key_never_drawn:
  assumes "2 \<le> n" and "n \<le> 2 ^ 60"
  shows "\<exists>i < n - 1. draw_key lr keys n sd = Some (i, rng_next (rng_next sd))"
proof -
  have n: "0 < n" "1 < unat n" "unat (n - 1) = unat n - 1"
    using assms(1) by (auto simp: word_le_nat_alt word_less_nat_alt unat_sub)
  obtain i where i: "draw_key lr keys n sd = Some (word_of_nat i, rng_next (rng_next sd))" "i = 0 \<or> i < unat n - 1"
    using draw_key_index [OF n(1) assms(2)] by blast
  then have "i < unat (n - 1)"
    using n by auto
  from word_of_nat_below [OF this] i(1) show ?thesis
    by blast
qed

theorem last_key_never_drawn_witness:
  "\<exists>i < 1. draw_key True (\<lambda>i. \<lparr>key_ptr = 8 * i, key_len = 8, cdf = (if i = 0 then 1 / 2 else 1)\<rparr>) 2 42 = Some (i, rng_next (rng_next 42))"
  using last_key_never_drawn [of 2 True _ 42] by (simp add: word_le_nat_alt)

text \<open>
  C33: the key drawn is the right one or a neighbour of it. If the cumulative probabilities increase, the index that
  is returned differs by at most one from that of the key the random number falls on.
\<close>

theorem draw_key_near:
  assumes "0 < n" and "n \<le> 2 ^ 60" and "increasing keys (unat n)"
  shows "\<exists>i j. falls_on keys (unat n) (fst (rng_gend lr sd)) i \<and> draw_key lr keys n sd = Some (word_of_nat j, rng_next (rng_next sd)) \<and>
    j \<le> Suc i \<and> i \<le> Suc j"
proof -
  obtain x where x: "rng_gend lr sd = (x, rng_next (rng_next sd))"
    using rng_gend_unit by blast
  have n: "n \<noteq> 0" "unat n \<le> 2 ^ 60" "0 < unat n"
    using assms by (auto simp: word_le_nat_alt word_less_nat_alt)
  obtain i where i: "falls_on keys (unat n) x i"
    using falls_on_exists [OF n(3)] by blast
  then have "i \<le> unat n - 1"
    by (auto simp: falls_on_def)
  then have "\<exists>j. draw_loop keys n x 0 (n - 1) 0 = Some (word_of_nat j) \<and> (if 0 < unat n - 1 then j \<le> Suc i \<and> i \<le> Suc j else j = 0)"
    using draw_loop_near [OF assms(3) i n(2), of 0 "unat n - 1" 0] n(3)
    unfolding word_nat(1) word_nat(2) [OF n(1)] semiring_1_class.of_nat_0 by simp
  then obtain j where
    j: "draw_loop keys n x 0 (n - 1) 0 = Some (word_of_nat j)" "if 0 < unat n - 1 then j \<le> Suc i \<and> i \<le> Suc j else j = 0"
    by blast
  have "j \<le> Suc i \<and> i \<le> Suc j"
    using j(2) \<open>i \<le> unat n - 1\<close> by (cases "0 < unat n - 1") auto
  then show ?thesis
    using x i j(1) by (auto simp: draw_key_def)
qed

definition two_keys :: "u64 \<Rightarrow> workload_key" where
  "two_keys i = \<lparr>key_ptr = 8 * i, key_len = 8, cdf = (if i = 0 then 1 / 2 else 1)\<rparr>"

theorem draw_key_near_witness:
  "\<exists>i j. falls_on two_keys (unat (2 :: u64)) (fst (rng_gend True 42)) i \<and>
     draw_key True two_keys 2 42 = Some (word_of_nat j, rng_next (rng_next 42)) \<and> j \<le> Suc i \<and> i \<le> Suc j"
proof (rule draw_key_near)
  have less: "cdf (two_keys (word_of_nat 0)) < cdf (two_keys (word_of_nat 1))"
    by (simp add: two_keys_def)
  show "increasing two_keys (unat (2 :: u64))"
    unfolding increasing_def
  proof (intro allI impI)
    fix i j :: nat
    assume "i < j" "j < unat (2 :: u64)"
    then have "i = 0" "j = 1"
      by auto
    with less show "cdf (two_keys (word_of_nat i)) < cdf (two_keys (word_of_nat j))"
      by (simp only:)
  qed
qed (simp_all add: word_le_nat_alt word_less_nat_alt)

section \<open>Generating keys\<close>

text \<open>What the generator writes: full words in little-endian order, and the rest from the top of one more word.\<close>

fun rng_string :: "nat \<Rightarrow> rng \<Rightarrow> u8 list" where
  "rng_string n sd = (let (x, sd') = rng_gen32 sd in
     if 4 \<le> n then [ucast x, ucast (drop_bit 8 x), ucast (drop_bit 16 x), ucast (drop_bit 24 x)] @ rng_string (n - 4) sd'
     else take n [ucast (drop_bit 24 x), ucast (drop_bit 16 x), ucast (drop_bit 8 x)])"

declare rng_string.simps [simp del]

definition written :: "u64 \<Rightarrow> u64 \<Rightarrow> bytes \<Rightarrow> u8 list \<Rightarrow> bytes \<Rightarrow> bool" where
  "written buf sz m xs m' \<longleftrightarrow> region m' buf (unat sz) = xs \<and> (\<forall>a. sz \<le> a - buf \<longrightarrow> m' a = m a)"

lemma rng_gen_step: "rng_gen sd buf sz m =
    (let (x, sd') = rng_gen32 sd in
     if 4 \<le> sz then rng_gen sd' (buf + 4) (sz - 4) (store32 buf x m) else (sd', gen_bytes x buf sz m))"
  by (cases "rng_gen32 sd") (simp add: rng_gen_def gen_words.simps [of sd])

lemma byte_shift: "(ucast (drop_bit 24 (push_bit 8 x)) :: u8) = ucast (drop_bit 16 x)"
  "(ucast (drop_bit 24 (push_bit 16 x)) :: u8) = ucast (drop_bit 8 (x :: u32))"
  by (rule bit_word_eqI; auto simp: bit_simps)+

declare gen_bytes.simps [simp del] gen_words.simps [simp del]

lemma gen_bytes_written:
  assumes "\<not> 4 \<le> sz"
  shows "written buf sz m (take (unat sz) [ucast (drop_bit 24 x), ucast (drop_bit 16 x), ucast (drop_bit 8 x)]) (gen_bytes x buf sz m)"
proof -
  have "unat sz = 0 \<or> unat sz = 1 \<or> unat sz = 2 \<or> unat sz = 3"
    using assms by (auto simp: word_le_nat_alt)
  then have "sz = 0 \<or> sz = 1 \<or> sz = 2 \<or> sz = 3"
    by (auto simp: word_unat_eq_iff)
  then show ?thesis
    by (elim disjE)
      (auto simp: written_def gen_bytes.simps byte_shift region_numeral region_Suc word_less_nat_alt word_le_nat_alt)
qed

lemma written_word:
  assumes "written (buf + 4) (sz - 4) (store32 buf x m) xs m'" and "4 \<le> sz"
  shows "written buf sz m ([ucast x, ucast (drop_bit 8 x), ucast (drop_bit 16 x), ucast (drop_bit 24 x)] @ xs) m'"
proof -
  have n: "unat sz = 4 + unat (sz - 4)"
    using assms(2) by (simp add: word_le_nat_alt unat_sub)
  have low: "sz - 4 \<le> i - 4" if "i < 4" for i :: u64
    using that assms(2) unsigned_less [of sz, where 'a = nat]
    by (simp add: word_le_nat_alt word_less_nat_alt unat_sub unat_sub_if')
  have high: "sz - 4 \<le> a - (buf + 4)" "store32 buf x m a = m a" if "sz \<le> a - buf" for a
  proof -
    have "4 \<le> a - buf"
      using that assms(2) by simp
    then show "sz - 4 \<le> a - (buf + 4)"
      using that assms(2) by (simp add: word_le_nat_alt unat_sub diff_diff_add flip: diff_diff_add)
    show "store32 buf x m a = m a"
      using \<open>4 \<le> a - buf\<close> by (auto simp: store32_def word_le_nat_alt)
  qed
  have out: "m' a = store32 buf x m a" if "sz - 4 \<le> a - (buf + 4)" for a
    using assms(1) that by (simp add: written_def)
  have "m' (buf + i) = store32 buf x m (buf + i)" if "i < 4" for i
    by (rule out) (use low [OF that] in \<open>simp add: algebra_simps\<close>)
  from this [of 0] this [of 1] this [of 2] this [of 3]
  have "m' buf = ucast x" "m' (buf + 1) = ucast (drop_bit 8 x)" "m' (buf + 2) = ucast (drop_bit 16 x)" "m' (buf + 3) = ucast (drop_bit 24 x)"
    by (simp_all add: store32_def)
  moreover have "region m' buf 4 = [m' buf, m' (buf + 1), m' (buf + 2), m' (buf + 3)]"
    by (simp add: region_numeral region_Suc add.commute)
  ultimately have "region m' buf 4 = [ucast x, ucast (drop_bit 8 x), ucast (drop_bit 16 x), ucast (drop_bit 24 x)]"
    by (simp only:)
  moreover have "region m' buf (unat sz) = region m' buf 4 @ region m' (buf + 4) (unat (sz - 4))"
    using append_take_drop_id [of 4 "region m' buf (unat sz)"] by (simp add: region_take region_drop n)
  ultimately show ?thesis
    using assms(1) high out by (simp add: written_def)
qed

lemma rng_gen_written:
  "\<exists>m'. rng_gen sd buf sz m = ((rng_next ^^ Suc (unat sz div 4)) sd, m') \<and> written buf sz m (rng_string (unat sz) sd) m'"
proof (induction "unat sz" arbitrary: sd buf sz m rule: less_induct)
  case less
  obtain x where x: "rng_gen32 sd = (x, rng_next sd)"
    by (cases "rng_gen32 sd") (simp add: rng_next_def)
  show ?case
  proof (cases "4 \<le> sz")
    case True
    from less [OF four_less [OF True], of "rng_next sd" "buf + 4" "store32 buf x m"] obtain m' where
      r: "rng_gen (rng_next sd) (buf + 4) (sz - 4) (store32 buf x m) = ((rng_next ^^ Suc (unat (sz - 4) div 4)) (rng_next sd), m')"
      "written (buf + 4) (sz - 4) (store32 buf x m) (rng_string (unat (sz - 4)) (rng_next sd)) m'"
      by blast
    have n: "4 \<le> unat sz" "unat (sz - 4) = unat sz - 4"
      using True by (simp_all add: word_le_nat_alt unat_sub)
    then have "unat sz div 4 = Suc (unat (sz - 4) div 4)"
      by (simp add: le_div_geq)
    then show ?thesis
      using r(1) written_word [OF r(2) True] True n
      by (simp add: rng_gen_step [of sd] rng_string.simps [of _ sd] x funpow_swap1)
  next
    case False
    then show ?thesis
      using gen_bytes_written [OF False, of buf m x] by (simp add: rng_gen_step rng_string.simps x word_le_nat_alt)
  qed
qed

text \<open>The keys one after the other, each with one draw more than it has full words.\<close>

fun rng_strings :: "nat \<Rightarrow> nat \<Rightarrow> rng \<Rightarrow> u8 list list" where
  "rng_strings 0 z sd = []"
| "rng_strings (Suc n) z sd = rng_string z sd # rng_strings n z ((rng_next ^^ Suc (z div 4)) sd)"

lemma generate_keys_written:
  assumes "n * unat keysz < 2 ^ 64"
  shows "\<exists>ks sd' m'. generate_keys sd n keysz keys m = (ks, sd', m') \<and>
    map (\<lambda>k. region m' (key_ptr k) (unat (key_len k))) ks = rng_strings n (unat keysz) sd \<and>
    map key_ptr ks = map (\<lambda>i. keys + of_nat i * keysz) [0..<n] \<and> (\<forall>a. n * unat keysz \<le> unat (a - keys) \<longrightarrow> m' a = m a)"
  using assms
proof (induction n arbitrary: sd keys m)
  case 0
  then show ?case by simp
next
  case (Suc n)
  obtain m1 where m1: "rng_gen sd keys keysz m = ((rng_next ^^ Suc (unat keysz div 4)) sd, m1)"
    "written keys keysz m (rng_string (unat keysz) sd) m1"
    using rng_gen_written by blast
  define sd1 where "sd1 = (rng_next ^^ Suc (unat keysz div 4)) sd"
  have "n * unat keysz < 2 ^ 64"
    using Suc.prems by simp
  from Suc.IH [OF this, of sd1 "keys + keysz" m1] obtain ks sd' m' where
    r: "generate_keys sd1 n keysz (keys + keysz) m1 = (ks, sd', m')"
    and s: "map (\<lambda>k. region m' (key_ptr k) (unat (key_len k))) ks = rng_strings n (unat keysz) sd1"
    and p: "map key_ptr ks = map (\<lambda>i. keys + keysz + of_nat i * keysz) [0..<n]"
    and o: "\<And>a. n * unat keysz \<le> unat (a - (keys + keysz)) \<Longrightarrow> m' a = m1 a"
    by blast
  have first: "m' (keys + of_nat i) = m1 (keys + of_nat i)" if "i < unat keysz" for i
  proof (rule o)
    have "unat (of_nat i - keysz :: u64) = 2 ^ 64 + i - unat keysz"
      using that unsigned_less [of keysz, where 'a = nat]
      by (simp add: unat_sub_if' unsigned_of_nat take_bit_nat_eq_self)
    then show "n * unat keysz \<le> unat (keys + of_nat i - (keys + keysz))"
      using Suc.prems by simp
  qed
  have "region m' keys (unat keysz) = rng_string (unat keysz) sd"
    using m1(2) first by (simp add: written_def cong: region_cong)
  moreover have "m' a = m a" if "Suc n * unat keysz \<le> unat (a - keys)" for a
  proof -
    have k: "keysz \<le> a - keys"
      using that by (simp add: word_le_nat_alt)
    have "a - (keys + keysz) = a - keys - keysz"
      by simp
    then have "unat (a - (keys + keysz)) = unat (a - keys) - unat keysz"
      using k by (simp only: unat_sub)
    then have "n * unat keysz \<le> unat (a - (keys + keysz))"
      using that by simp
    from o [OF this] show ?thesis
      using m1(2) k by (simp add: written_def)
  qed
  moreover have "keys # map (\<lambda>i. keys + keysz + of_nat i * keysz) [0..<n] = map (\<lambda>i. keys + of_nat i * keysz) [0..<Suc n]"
    by (simp add: upt_conv_Cons map_Suc_upt [symmetric] algebra_simps del: upt_Suc)
  ultimately show ?case
    using s p m1(1) r unfolding sd1_def
    by (intro exI [of _ "\<lparr>key_ptr = keys, key_len = keysz\<rparr> # ks"] exI [of _ sd'] exI [of _ m']) (simp del: upt_Suc)
qed

text \<open>
  C34: the keys of a workload. \<^verbatim>\<open>generate_keys\<close> lays \<open>n\<close> keys out one behind the other and fills each
  with the string the generator draws for it, of which the keys written later leave every byte alone; nothing outside
  the \<open>n * keysize\<close> bytes is written.
\<close>

theorem generate_keys_strings:
  assumes "n * unat keysz < 2 ^ 64"
  shows "\<exists>ks sd' m'. generate_keys sd n keysz keys m = (ks, sd', m') \<and>
    map (\<lambda>k. region m' (key_ptr k) (unat (key_len k))) ks = rng_strings n (unat keysz) sd \<and>
    map key_ptr ks = map (\<lambda>i. keys + of_nat i * keysz) [0..<n] \<and> (\<forall>a. n * unat keysz \<le> unat (a - keys) \<longrightarrow> m' a = m a)"
  by (rule generate_keys_written [OF assms])

theorem generate_keys_strings_witness:
  "\<exists>ks sd' m'. generate_keys 1 2 6 4096 (\<lambda>_. 0) = (ks, sd', m') \<and> map key_ptr ks = [4096, 4102] \<and>
     map (\<lambda>k. region m' (key_ptr k) (unat (key_len k))) ks = rng_strings 2 6 1 \<and> m' 4108 = 0"
  using generate_keys_strings [of 2 6 1 4096 "\<lambda>_. 0"] by (auto simp: upt_rec)

end
