(* ===== verification/Kvs_Bench.thy ===== *)
theory Kvs_Bench
  imports Kvs_Start Ialloc_Room Workload
begin

text \<open>
  The threads of \<^verbatim>\<open>apps/flexkvs/bench/main.c\<close>: loading the keys, the requests they send, and the statistics
  they keep. A thread works on its own allocator and on its first connection.
\<close>

section \<open>State and operations\<close>

definition HIST_START_US :: u64 where [c_consts]: "HIST_START_US = 0"
definition HIST_BUCKET_US :: u64 where [c_consts]: "HIST_BUCKET_US = 1"
definition HIST_BUCKETS :: u64 where [c_consts]: "HIST_BUCKETS = 4096"

record core =
  tx_get :: u64
  tx_set :: u64
  rx_get :: u64
  rx_set :: u64
  rx_success :: u64
  hist :: "u64 \<Rightarrow> u32"
  wlc :: rng

definition record_latency :: "u64 \<Rightarrow> core \<Rightarrow> core" where
  "record_latency nanos c =
     (let bucket = (nanos div 1000 - HIST_START_US) div HIST_BUCKET_US;
          bucket = (if bucket \<ge> HIST_BUCKETS then HIST_BUCKETS - 1 else bucket)
      in c\<lparr>hist := (hist c)(bucket := hist c bucket + 1)\<rparr>)"

definition hist_value :: "u64 \<Rightarrow> int" where
  "hist_value i = (if i = HIST_BUCKETS - 1 then -1 else sint (ucast (i * HIST_BUCKET_US + HIST_START_US) :: 32 word))"

definition read_cnt :: "u64 \<Rightarrow> u64 \<times> u64" where
  "read_cnt p = (let v = p in (v, p - v))"

partial_function (option) load_keys :: "settings \<Rightarrow> segment_source \<Rightarrow> u16 \<Rightarrow> connection \<Rightarrow> (u64 \<Rightarrow> 'k workload_key_scheme) \<Rightarrow> u64 \<Rightarrow>
    u64 \<Rightarrow> item_allocator \<Rightarrow> 'a kvs_scheme \<Rightarrow> (item_allocator \<times> 'a kvs_scheme) option" where
  "load_keys C src threads co keys n i ia s =
     (if i < n then do {
        (ia, s) \<leftarrow> set_request C src co (key_ref.truncate (keys i)) ia s;
        load_keys C src threads co keys n (i + ucast threads) ia s
      } else Some (ia, s))"

text \<open>
  The second workload, for the phase in which the hot set changes: the same keys with the probabilities \<open>hot\<close>, which
  \<^verbatim>\<open>distribute_hot\<close> computes.
\<close>

record 'k workload =
  wl_keys :: "u64 \<Rightarrow> 'k workload_key_scheme"
  wl_keys_num :: u64

definition workload_init_dyn :: "(u64 \<Rightarrow> rat) \<Rightarrow> 'k workload \<Rightarrow> 'k workload" where
  "workload_init_dyn hot w = w\<lparr>wl_keys := (\<lambda>i. (wl_keys w i)\<lparr>cdf := hot i\<rparr>)\<rparr>"

text \<open>
  A request; \<open>dyn\<close> tells whether \<^verbatim>\<open>phase\<close> is \<^verbatim>\<open>BENCHMARK_DYN_HOTSET\<close>. The times \<open>t0\<close> and \<open>t1\<close>
  are what \<^verbatim>\<open>get_nanos\<close> returns before and after it.
\<close>

definition send_pending :: "settings \<Rightarrow> segment_source \<Rightarrow> bool \<Rightarrow> rat \<Rightarrow> connection \<Rightarrow> 'k workload \<Rightarrow> 'k workload \<Rightarrow>
    bool \<Rightarrow> u64 \<Rightarrow> u64 \<Rightarrow> core \<Rightarrow> item_allocator \<Rightarrow> 'a kvs_scheme \<Rightarrow> (core \<times> item_allocator \<times> 'a kvs_scheme) option" where
  "send_pending C src lr get_prob co workload1 workload2 dyn t0 t1 c ia s = do {
     let w = (if \<not> dyn then workload1 else workload2);
     (op, i, r) \<leftarrow> workload_op lr get_prob (wl_keys w) (wl_keys_num w) (wlc c);
     let c = c\<lparr>wlc := r\<rparr>;
     let k = key_ref.truncate (wl_keys w i);
     let tm = (ucast t0 :: u32);
     (c, ia, s) \<leftarrow> (if op = WL_OP_GET then do {
         (ia, s) \<leftarrow> get_request C src co k ia s;
         Some (c\<lparr>tx_get := tx_get c + 1, rx_get := rx_get c + 1\<rparr>, ia, s)
       } else do {
         (ia, s) \<leftarrow> set_request C src co k ia s;
         Some (c\<lparr>tx_set := tx_set c + 1, rx_set := rx_set c + 1\<rparr>, ia, s)
       });
     let c = c\<lparr>rx_success := rx_success c + 1\<rparr>;
     let c = record_latency (ucast ((ucast t1 :: u32) - tm)) c;
     Some (c, ia, s)
   }"

text \<open>
  The loop of \<^verbatim>\<open>thread_run\<close>, for the requests that go out before the cool-down. Between two requests the main thread
  may take the number of successes and clear the histogram; the first result is what it has read.
\<close>

datatype bench_event = Request bool u64 u64 | Read_stats

fun send_requests :: "settings \<Rightarrow> segment_source \<Rightarrow> bool \<Rightarrow> rat \<Rightarrow> connection \<Rightarrow> 'k workload \<Rightarrow> 'k workload \<Rightarrow>
    bench_event list \<Rightarrow> core \<Rightarrow> item_allocator \<Rightarrow> 'a kvs_scheme \<Rightarrow> (u64 list \<times> core \<times> item_allocator \<times> 'a kvs_scheme) option" where
  "send_requests C src lr get_prob co workload1 workload2 [] c ia s = Some ([], c, ia, s)"
| "send_requests C src lr get_prob co workload1 workload2 (Request dyn t0 t1 # es) c ia s = do {
     (c, ia, s) \<leftarrow> send_pending C src lr get_prob co workload1 workload2 dyn t0 t1 c ia s;
     send_requests C src lr get_prob co workload1 workload2 es c ia s
   }"
| "send_requests C src lr get_prob co workload1 workload2 (Read_stats # es) c ia s = do {
     let (tp, r) = read_cnt (rx_success c);
     let c = c\<lparr>rx_success := r, hist := (\<lambda>_. 0)\<rparr>;
     (tps, c, ia, s) \<leftarrow> send_requests C src lr get_prob co workload1 workload2 es c ia s;
     Some (tp # tps, c, ia, s)
   }"

definition requests :: "bench_event list \<Rightarrow> nat" where
  "requests es = length (filter (\<lambda>e. e \<noteq> Read_stats) es)"

section \<open>The keys of the workload\<close>

text \<open>Keys and buffers lie outside the segments, and the buffer of a response does not overlap a key.\<close>

definition workload_ready :: "settings \<Rightarrow> connection \<Rightarrow> (u64 \<Rightarrow> 'k workload_key_scheme) \<Rightarrow> u64 \<Rightarrow> 'a segments_scheme \<Rightarrow> bool" where
  "workload_ready C co keys n s \<longleftrightarrow> outside C (get_buffer co) (unat (valuesize C)) s \<and>
     (\<forall>i < n. request_ok C co (key_ref.truncate (keys i)) s \<and>
        block (get_buffer co) (unat (valuesize C)) \<inter> block (key_ptr (keys i)) (unat (key_len (keys i))) = {})"

definition workload_string :: "(u64 \<Rightarrow> 'k workload_key_scheme) \<Rightarrow> 'a segments_scheme \<Rightarrow> u64 \<Rightarrow> u8 list" where
  "workload_string keys s i = key_bytes (key_ref.truncate (keys i)) s"

text \<open>What the operations leave alone.\<close>

definition same_keys :: "settings \<Rightarrow> (u64 \<Rightarrow> 'k workload_key_scheme) \<Rightarrow> u64 \<Rightarrow> 'a segments_scheme \<Rightarrow> 'a segments_scheme \<Rightarrow> bool" where
  "same_keys C keys n s s' \<longleftrightarrow> arena C s' = arena C s \<and> (\<forall>i < n. workload_string keys s' i = workload_string keys s i)"

lemma same_keys_trans: "same_keys C keys n s t \<Longrightarrow> same_keys C keys n t u \<Longrightarrow> same_keys C keys n s u"
  by (simp add: same_keys_def)

lemma same_keys_ready:
  assumes "same_keys C keys n s s'" and "workload_ready C co keys n s"
  shows "workload_ready C co keys n s'"
proof -
  have "arena C s' = arena C s"
    using assms(1) by (simp add: same_keys_def)
  note a = request_ok_arena [OF this]
  show ?thesis
    using assms(2) by (simp add: workload_ready_def a)
qed

lemma workload_readyD:
  assumes "workload_ready C co keys n s" and "i < n"
  shows "request_ok C co (key_ref.truncate (keys i)) s" "outside C (get_buffer co) (unat (valuesize C)) s"
  using assms by (auto simp: workload_ready_def)

lemma same_keysI:
  assumes "workload_ready C co keys n s" and "arena C s' = arena C s"
    and "\<And>a. unat a \<notin> arena C s \<Longrightarrow> unat a \<notin> block (get_buffer co) (unat (valuesize C)) \<Longrightarrow> kbytes s' a = kbytes s a"
  shows "same_keys C keys n s s'"
proof -
  have "workload_string keys s' i = workload_string keys s i" if i: "i < n" for i
    unfolding workload_string_def key_bytes_def
  proof (rule region_block)
    show "unat (key_ptr (key_ref.truncate (keys i))) + unat (key_len (key_ref.truncate (keys i))) < 2 ^ 64"
      using workload_readyD(1) [OF assms(1) i] by (auto simp: request_ok_def outside_def)
    fix a :: u64
    assume "unat a \<in> block (key_ptr (key_ref.truncate (keys i))) (unat (key_len (key_ref.truncate (keys i))))"
    moreover have "block (get_buffer co) (unat (valuesize C)) \<inter> block (key_ptr (keys i)) (unat (key_len (keys i))) = {}"
      using assms(1) i by (simp add: workload_ready_def)
    ultimately show "kbytes s' a = kbytes s a"
      using workload_readyD(1) [OF assms(1) i] by (intro assms(3)) (auto simp: request_ok_def outside_def key_ref.defs)
  qed
  then show ?thesis
    using assms(2) by (simp add: same_keys_def)
qed

section \<open>Loading\<close>

text \<open>Every key has the length \<open>len\<close>, as \<^verbatim>\<open>generate_keys\<close> makes them.\<close>

definition item_places :: "settings \<Rightarrow> u64 \<Rightarrow> item_allocator \<Rightarrow> 'a segments_scheme \<Rightarrow> nat" where
  "item_places C len ia s = places C (24 + unat len + unat (valuesize C)) ia s"

lemma store_okE:
  assumes "store_ok C src ia M s"
  obtains fs L where "alloc_ok C src ia {} fs L s" "reserved ia \<noteq> NULL"
  using assms by (auto simp: store_ok_def store_parts_def at_rest_def)

lemma seg_frame_places:
  assumes f: "seg_frame s s'"
  shows "places C n ia s' = places C n ia s" "all_segments C src s' = all_segments C src s"
proof -
  have off: "seg_offset (segs s' h) = seg_offset (segs s h)" for h
  proof -
    have "segs s' h = (segs s h)\<lparr>seg_freed := seg_freed (segs s' h)\<rparr>"
      using f unfolding seg_frame_def by blast
    from arg_cong [where f = seg_offset, OF this] show ?thesis
      by simp
  qed
  have e: "free_segments s' = free_segments s" "seg_alloced s' = seg_alloced s"
    using f unfolding seg_frame_def by blast+
  show "places C n ia s' = places C n ia s" "all_segments C src s' = all_segments C src s"
    by (rule places_frame [OF e off])+
qed

lemma places_room:
  assumes ok: "store_ok C src ia M s" and r: "request_ok C co k s" and all: "all_segments C src s" and p: "0 < item_places C (key_len k) ia s"
  shows "has_room C src k ia s"
proof -
  obtain fs L where a: "alloc_ok C src ia {} fs L s" "reserved ia \<noteq> NULL"
    using store_okE [OF ok] by blast
  let ?tot = "ITEM_SIZE + key_len k + ucast (valuesize C)"
  have n: "unat ?tot = 24 + unat (key_len k) + unat (valuesize C)" and t: "24 \<le> unat ?tot"
    using request_lengths [OF r] by simp_all
  show ?thesis
    using places_can_alloc [OF all, of ?tot ia] p a(2) t unfolding has_room_def item_places_def n by auto
qed

lemma set_places:
  assumes ok: "store_ok C src ia M s" and r: "request_ok C co k s" and all: "all_segments C src s"
    and f: "if new then fresh_item C src k ia s ia' s' else ia' = ia \<and> seg_frame s s'"
  shows "all_segments C src s'" "item_places C (key_len k) ia s \<le> Suc (item_places C (key_len k) ia' s')"
proof -
  obtain fs L where a: "alloc_ok C src ia {} fs L s"
    using store_okE [OF ok] by blast
  let ?tot = "ITEM_SIZE + key_len k + ucast (valuesize C)"
  have n: "unat ?tot = 24 + unat (key_len k) + unat (valuesize C)" and t: "24 \<le> unat ?tot" "?tot < segsize C"
    using request_lengths [OF r] r by (simp_all add: word_less_nat_alt request_ok_def)
  have "all_segments C src s' \<and> item_places C (key_len k) ia s \<le> Suc (item_places C (key_len k) ia' s')"
  proof (cases new)
    case True
    then obtain it s1 where f: "it \<noteq> NULL" "ialloc_alloc C src ?tot False ia s = Some (it, ia', s1)" "seg_frame s1 s'"
      using f by (auto simp: fresh_item_def)
    show ?thesis
      using ialloc_alloc_places [OF a t all f(2,1)] seg_frame_places [OF f(3)] by (simp add: item_places_def n)
  next
    case False
    then show ?thesis
      using f seg_frame_places [of s s'] all by (simp add: item_places_def)
  qed
  then show "all_segments C src s'" "item_places C (key_len k) ia s \<le> Suc (item_places C (key_len k) ia' s')"
    by blast+
qed

lemma set_request_places:
  assumes ok: "store_ok C src ia M s" and r: "request_ok C co k s" and all: "all_segments C src s" and p: "0 < item_places C (key_len k) ia s"
  shows "\<exists>ia' s'. set_request C src co k ia s = Some (ia', s') \<and> store_ok C src ia' (M(key_bytes k s \<mapsto> set_value C co k s)) s' \<and>
    arena C s' = arena C s \<and> (\<forall>a. unat a \<notin> arena C s \<longrightarrow> kbytes s' a = kbytes s a) \<and>
    all_segments C src s' \<and> item_places C (key_len k) ia s \<le> Suc (item_places C (key_len k) ia' s')"
proof -
  obtain ia' s' where s': "set_request C src co k ia s = Some (ia', s')" "store_ok C src ia' (M(key_bytes k s \<mapsto> set_value C co k s)) s'"
    "arena C s' = arena C s" "\<And>a. unat a \<notin> arena C s \<Longrightarrow> kbytes s' a = kbytes s a"
    "if M (key_bytes k s) = None then fresh_item C src k ia s ia' s' else ia' = ia \<and> seg_frame s s'"
    using set_request_spec [OF ok r] places_room [OF assms] by blast
  then show ?thesis
    using set_places [OF ok r all s'(5)] by blast
qed

lemma less_Suc_word:
  fixes i j n :: u64
  assumes "i < n"
  shows "j < i + 1 \<longleftrightarrow> j < i \<or> j = i" "unat (n - i) = Suc (unat (n - (i + 1)))" "i + 1 \<le> n"
proof -
  have s: "unat (i + 1) = Suc (unat i)"
    using unat_plus_1 [OF assms] by simp
  show "j < i + 1 \<longleftrightarrow> j < i \<or> j = i"
    by (auto simp: word_less_nat_alt s less_Suc_eq word_unat_eq_iff)
  show le: "i + 1 \<le> n"
    using assms by (simp add: word_le_nat_alt s word_less_nat_alt)
  have "unat (n - (i + 1)) = unat n - Suc (unat i)" "unat (n - i) = unat n - unat i"
    using le assms by (simp_all add: unat_sub s)
  then show "unat (n - i) = Suc (unat (n - (i + 1)))"
    using assms by (simp add: word_less_nat_alt)
qed

lemma load_keys_run:
  assumes "store_ok C src ia M s" and "workload_ready C co keys n s" and "all_segments C src s"
    and "\<And>j. j < n \<Longrightarrow> key_len (keys j) = len" and "unat (n - i) \<le> item_places C len ia s" and "i \<le> n"
  shows "\<exists>ia' s' M'. load_keys C src 1 co keys n i ia s = Some (ia', s') \<and> store_ok C src ia' M' s' \<and> same_keys C keys n s s' \<and>
    dom M' = dom M \<union> {workload_string keys s j | j. i \<le> j \<and> j < n}"
  using assms
proof (induction "unat (n - i)" arbitrary: i ia s M)
  case 0
  then have "i = n"
    by (simp add: unat_eq_0)
  then show ?case
    using "0.prems"(1) by (subst load_keys.simps) (auto simp: same_keys_def)
next
  case (Suc d)
  then have i: "i < n"
    by (cases "i = n") (auto simp: order_less_le)
  let ?k = "key_ref.truncate (keys i)"
  note r = workload_readyD(1) [OF Suc.prems(2) i]
  have kl: "key_len ?k = len"
    using Suc.prems(4) [OF i] by (simp add: key_ref.defs)
  have pl: "0 < item_places C (key_len ?k) ia s"
    using Suc.hyps(2) Suc.prems(5) by (simp add: kl)
  from set_request_places [OF Suc.prems(1) r Suc.prems(3) pl, unfolded kl] obtain ia1 s1 where
    1: "set_request C src co ?k ia s = Some (ia1, s1)" "store_ok C src ia1 (M(key_bytes ?k s \<mapsto> set_value C co ?k s)) s1"
    "arena C s1 = arena C s" "\<And>a. unat a \<notin> arena C s \<Longrightarrow> kbytes s1 a = kbytes s a" "all_segments C src s1"
    "item_places C len ia s \<le> Suc (item_places C len ia1 s1)"
    by blast
  have sk: "same_keys C keys n s s1"
    by (rule same_keysI [OF Suc.prems(2) 1(3)]) (rule 1(4))
  note w = less_Suc_word [OF i]
  have d: "d = unat (n - (i + 1))" and le: "unat (n - (i + 1)) \<le> item_places C len ia1 s1"
    using Suc.hyps(2) Suc.prems(5) 1(6) w(2) by linarith+
  from Suc.hyps(1) [OF d 1(2) same_keys_ready [OF sk Suc.prems(2)] 1(5) Suc.prems(4) le w(3)] obtain ia' s' M' where
    2: "load_keys C src 1 co keys n (i + 1) ia1 s1 = Some (ia', s')" "store_ok C src ia' M' s'" "same_keys C keys n s1 s'"
    "dom M' = dom (M(key_bytes ?k s \<mapsto> set_value C co ?k s)) \<union> {workload_string keys s1 j | j. i + 1 \<le> j \<and> j < n}"
    by blast
  have "load_keys C src 1 co keys n i ia s = Some (ia', s')"
    by (subst load_keys.simps) (simp add: i 1(1) 2(1))
  moreover have "dom M' = dom M \<union> {workload_string keys s j | j. i \<le> j \<and> j < n}"
  proof -
    have st: "workload_string keys s1 j = workload_string keys s j" if "j < n" for j
      using sk that by (simp add: same_keys_def)
    have "{workload_string keys s1 j | j. i + 1 \<le> j \<and> j < n} = {workload_string keys s j | j. i + 1 \<le> j \<and> j < n}"
      by (intro Collect_cong ex_cong1) (use st in auto)
    moreover have ij: "i \<le> j \<longleftrightarrow> j = i \<or> i + 1 \<le> j" for j
      using w(1) [of j] by (metis not_less order_less_le)
    have "{workload_string keys s j | j. i \<le> j \<and> j < n} = insert (workload_string keys s i) {workload_string keys s j | j. i + 1 \<le> j \<and> j < n}"
      using i by (auto simp: ij)
    ultimately show ?thesis
      using 2(4) by (simp add: workload_string_def)
  qed
  ultimately show ?case
    using 2(2) same_keys_trans [OF sk 2(3)] by blast
qed

section \<open>Requests\<close>

lemma record_latency_frame: "rx_success (record_latency t c) = rx_success c" "tx_get (record_latency t c) = tx_get c"
  "tx_set (record_latency t c) = tx_set c"
  by (simp_all add: record_latency_def Let_def)

text \<open>One request on a key of the store.\<close>

lemma send_pending_step:
  assumes ok: "store_ok C src ia M s" and w: "workload_ready C co keys n s" and n: "0 < n" "n \<le> 2 ^ 60"
    and all: "\<And>i. i < n \<Longrightarrow> M (workload_string keys s i) \<noteq> None"
    and w1: "w1 = \<lparr>wl_keys = keys, wl_keys_num = n\<rparr>" and w2: "w2 = workload_init_dyn hot w1"
  shows "\<exists>c' ia' s' M'. send_pending C src lr gp co w1 w2 dyn t0 t1 c ia s = Some (c', ia', s') \<and> store_ok C src ia' M' s' \<and>
    dom M' = dom M \<and> same_keys C keys n s s' \<and> rx_success c' = rx_success c + 1 \<and>
    tx_get c' + tx_set c' = tx_get c + tx_set c + 1"
proof -
  define w where "w = (if \<not> dyn then w1 else w2)"
  have wn: "wl_keys_num w = n" and wk: "key_ref.truncate (wl_keys w j) = key_ref.truncate (keys j)" for j
    by (simp_all add: w_def w1 w2 workload_init_dyn_def key_ref.truncate_def)
  obtain i where i: "i < n" "draw_key lr (wl_keys w) n (rng_next (rng_next (wlc c))) = Some (i, rng_next (rng_next (rng_next (rng_next (wlc c)))))"
    using draw_key_returns [OF n] by blast
  obtain x where x: "rng_gend lr (wlc c) = (x, rng_next (rng_next (wlc c)))"
    using rng_gend_unit by blast
  define op where "op = (if x \<le> gp then WL_OP_GET else WL_OP_SET)"
  define r where "r = rng_next (rng_next (rng_next (rng_next (wlc c))))"
  have op: "workload_op lr gp (wl_keys w) (wl_keys_num w) (wlc c) = Some (op, i, r)"
    using i(2) x by (simp add: workload_op_def op_def r_def wn)
  note rk = workload_readyD [OF w i(1)]
  let ?k = "key_ref.truncate (keys i)"
  let ?s = "workload_string keys s i"
  show ?thesis
  proof (cases "op = WL_OP_GET")
    case True
    from get_request_spec [OF ok rk] obtain s' where s': "get_request C src co ?k ia s = Some (ia, s')" "store_ok C src ia M s'"
      "arena C s' = arena C s" "\<And>a. unat a \<notin> block (get_buffer co) (unat (valuesize C)) \<Longrightarrow> kbytes s' a = kbytes s a"
      by blast
    have "same_keys C keys n s s'"
      by (rule same_keysI [OF w s'(3)]) (rule s'(4))
    define c1 where "c1 = record_latency (ucast ((ucast t1 :: u32) - ucast t0))
      (c\<lparr>wlc := r, tx_get := tx_get c + 1, rx_get := rx_get c + 1, rx_success := rx_success c + 1\<rparr>)"
    have "send_pending C src lr gp co w1 w2 dyn t0 t1 c ia s = Some (c1, ia, s')"
      using s'(1) True by (simp add: send_pending_def op c1_def Let_def wk flip: w_def)
    moreover have "rx_success c1 = rx_success c + 1" "tx_get c1 + tx_set c1 = tx_get c + tx_set c + 1"
      by (simp_all add: c1_def record_latency_frame)
    ultimately show ?thesis
      using s'(2) \<open>same_keys C keys n s s'\<close> by blast
  next
    case False
    have "M (key_bytes ?k s) \<noteq> None \<or> has_room C src ?k ia s"
      using all [OF i(1)] by (simp add: workload_string_def)
    from set_request_spec [OF ok rk(1) this] obtain ia' s' where s': "set_request C src co ?k ia s = Some (ia', s')"
      "store_ok C src ia' (M(?s \<mapsto> set_value C co ?k s)) s'" "arena C s' = arena C s" "\<And>a. unat a \<notin> arena C s \<Longrightarrow> kbytes s' a = kbytes s a"
      by (auto simp: workload_string_def)
    have sk: "same_keys C keys n s s'"
      by (rule same_keysI [OF w s'(3)]) (rule s'(4))
    have d: "dom (M(?s \<mapsto> set_value C co ?k s)) = dom M"
      using all [OF i(1)] by auto
    define c1 where "c1 = record_latency (ucast ((ucast t1 :: u32) - ucast t0))
      (c\<lparr>wlc := r, tx_set := tx_set c + 1, rx_set := rx_set c + 1, rx_success := rx_success c + 1\<rparr>)"
    have "send_pending C src lr gp co w1 w2 dyn t0 t1 c ia s = Some (c1, ia', s')"
      using s'(1) False by (simp add: send_pending_def op c1_def Let_def wk flip: w_def)
    moreover have "rx_success c1 = rx_success c + 1" "tx_get c1 + tx_set c1 = tx_get c + tx_set c + 1"
      by (simp_all add: c1_def record_latency_frame)
    ultimately show ?thesis
      using s'(2) sk d by blast
  qed
qed

lemma send_requests_run:
  assumes "store_ok C src ia M s" and "workload_ready C co keys n s" and "0 < n" "n \<le> 2 ^ 60"
    and "\<And>i. i < n \<Longrightarrow> M (workload_string keys s i) \<noteq> None"
    and w1: "w1 = \<lparr>wl_keys = keys, wl_keys_num = n\<rparr>" and w2: "w2 = workload_init_dyn hot w1"
  shows "\<exists>tps c' ia' s' M'. send_requests C src lr gp co w1 w2 es c ia s = Some (tps, c', ia', s') \<and> store_ok C src ia' M' s' \<and>
    dom M' = dom M \<and> sum_list tps + rx_success c' = rx_success c + of_nat (requests es) \<and>
    tx_get c' + tx_set c' = tx_get c + tx_set c + of_nat (requests es)"
  using assms(1-5)
proof (induction es arbitrary: c ia s M)
  case Nil
  then show ?case by (auto simp: requests_def)
next
  case (Cons e es)
  show ?case
  proof (cases e)
    case Read_stats
    from Cons.IH [OF Cons.prems, of "c\<lparr>rx_success := 0, hist := (\<lambda>_. 0)\<rparr>"] obtain tps c' ia' s' M' where
      "send_requests C src lr gp co w1 w2 es (c\<lparr>rx_success := 0, hist := (\<lambda>_. 0)\<rparr>) ia s = Some (tps, c', ia', s')" "store_ok C src ia' M' s'"
      "dom M' = dom M" "sum_list tps + rx_success c' = of_nat (requests es)" "tx_get c' + tx_set c' = tx_get c + tx_set c + of_nat (requests es)"
      by auto
    then show ?thesis
      by (intro exI [of _ "rx_success c # tps"] exI [of _ c'] exI [of _ ia'] exI [of _ s'] exI [of _ M'])
        (simp add: Read_stats read_cnt_def requests_def algebra_simps)
  next
    case (Request dyn t0 t1)
    from send_pending_step [OF Cons.prems w1 w2, of lr gp dyn t0 t1 c] obtain c1 ia1 s1 M1 where
      1: "send_pending C src lr gp co w1 w2 dyn t0 t1 c ia s = Some (c1, ia1, s1)" "store_ok C src ia1 M1 s1" "dom M1 = dom M"
      "same_keys C keys n s s1" "rx_success c1 = rx_success c + 1" "tx_get c1 + tx_set c1 = tx_get c + tx_set c + 1"
      by blast
    have "M1 (workload_string keys s1 i) \<noteq> None" if "i < n" for i
    proof -
      have "workload_string keys s i \<in> dom M1"
        unfolding 1(3) using Cons.prems(5) [OF that] by blast
      then show ?thesis
        using 1(4) that by (auto simp: same_keys_def)
    qed
    from Cons.IH [OF 1(2) same_keys_ready [OF 1(4) Cons.prems(2)] Cons.prems(3,4) this, of c1] 1 obtain tps c' ia' s' M' where
      "send_requests C src lr gp co w1 w2 es c1 ia1 s1 = Some (tps, c', ia', s')" "store_ok C src ia' M' s'" "dom M' = dom M1"
      "sum_list tps + rx_success c' = rx_success c1 + of_nat (requests es)" "tx_get c' + tx_set c' = tx_get c1 + tx_set c1 + of_nat (requests es)"
      by blast
    then show ?thesis
      using 1 by (auto simp: Request requests_def algebra_simps)
  qed
qed

section \<open>A whole run\<close>

lemma start_places:
  assumes "startable C src base" and "\<forall>i < segmaxnum C. mprotect_ok src i \<and> malloc_header src i \<noteq> NULL"
  shows "all_segments C src (start_store C src base 0 s)"
    and "item_places C len (start_allocator src) (start_store C src base 0 s) =
      (unat (segmaxnum C) - 1) * (unat (segsize C) div (24 + unat len + unat (valuesize C)))"
proof -
  note D = startableD [OF assms(1)] and f = start_store_frame [of C src base 0 s]
  show "all_segments C src (start_store C src base 0 s)"
    using assms(2) by (simp add: all_segments_def f)
  have c: "cur (start_allocator src) = malloc_header src 0"
    by (simp add: start_allocator_def)
  define d where "d = unat (segsize C) div (24 + unat len + unat (valuesize C))"
  have "unat (segmaxnum C) - 1 = Suc (unat (segmaxnum C) - 2)"
    using D(11) by (simp add: word_less_nat_alt)
  then show "item_places C len (start_allocator src) (start_store C src base 0 s) =
      (unat (segmaxnum C) - 1) * (unat (segsize C) div (24 + unat len + unat (valuesize C)))"
    by (simp add: item_places_def places_def c start_store_segs(1) [OF D(3)] f flip: d_def)
qed

text \<open>
  C5: a run of the benchmark with one thread does not fail. If the system gives out all segments, and one less than
  these have room for the items of all keys, then start-up, loading and any number of requests return, whenever the hot set
  changes and whenever the main thread reads the statistics between two requests; at the end
  the store holds exactly the keys of the workload, and each request is counted once, in what the main thread has
  read or in what is left.
\<close>

theorem benchmark_completes:
  assumes "startable C src base" and "\<forall>i < segmaxnum C. mprotect_ok src i \<and> malloc_header src i \<noteq> NULL"
    and "workload_ready C co keys n (s\<lparr>seg_base := base\<rparr>)" and "0 < n" "n \<le> 2 ^ 60" and "\<forall>i < n. key_len (keys i) = len"
    and "unat n \<le> (unat (segmaxnum C) - 1) * (unat (segsize C) div (24 + unat len + unat (valuesize C)))"
    and "w = \<lparr>wl_keys = keys, wl_keys_num = n\<rparr>"
  shows "\<exists>ia1 s1 ia2 s2 tps c' ia' s' M. kvs_init C src base s = Some (ia1, s1) \<and> load_keys C src 1 co keys n 0 ia1 s1 = Some (ia2, s2) \<and>
    send_requests C src lr gp co w (workload_init_dyn hot w) es c ia2 s2 = Some (tps, c', ia', s') \<and> store_ok C src ia' M s' \<and>
    dom M = workload_string keys s ` {..<n} \<and> sum_list tps + rx_success c' = rx_success c + of_nat (requests es) \<and>
    tx_get c' + tx_set c' = tx_get c + tx_set c + of_nat (requests es)"
proof -
  let ?s1 = "start_store C src base 0 s" and ?ia1 = "start_allocator src"
  note p = start_places [OF assms(1,2), where s = s]
  have ok: "store_ok C src ?ia1 Map.empty ?s1"
    by (rule start_ok [OF assms(1)]) simp
  have ar: "arena C ?s1 = arena C (s\<lparr>seg_base := base\<rparr>)"
    by (simp add: arena_def start_store_frame)
  have w: "workload_ready C co keys n ?s1"
    using assms(3) unfolding workload_ready_def request_ok_arena [OF ar] .
  have pl: "unat (n - 0) \<le> item_places C len ?ia1 ?s1"
    using assms(7) by (simp add: p(2))
  have st: "workload_string keys ?s1 i = workload_string keys s i" for i
    by (simp add: workload_string_def key_bytes_def start_store_frame)
  from load_keys_run [OF ok w p(1) _ pl] assms(6) obtain ia2 s2 M where
    l: "load_keys C src 1 co keys n 0 ?ia1 ?s1 = Some (ia2, s2)" "store_ok C src ia2 M s2" "same_keys C keys n ?s1 s2"
    and d: "dom M = {workload_string keys ?s1 j | j. 0 \<le> j \<and> j < n}"
    by auto
  have dm: "dom M = workload_string keys s ` {..<n}"
    unfolding d st by auto
  have "M (workload_string keys s2 i) \<noteq> None" if "i < n" for i
  proof -
    have "workload_string keys s2 i = workload_string keys s i"
      using l(3) that by (simp add: same_keys_def st)
    then have "workload_string keys s2 i \<in> dom M"
      using that unfolding dm by simp
    then show ?thesis
      by blast
  qed
  from send_requests_run [OF l(2) same_keys_ready [OF l(3) w] assms(4,5) this assms(8) refl, of lr gp hot es c] show ?thesis
    using kvs_init_run [OF assms(1), of s] l(1) unfolding dm [symmetric] by blast
qed

definition one_key :: "u64 \<Rightarrow> workload_key" where "one_key i = \<lparr>key_ptr = 4096, key_len = 4, cdf = 1\<rparr>"

definition one_workload :: "unit workload" where "one_workload = \<lparr>wl_keys = one_key, wl_keys_num = 1\<rparr>"

definition idle_core :: core where
  "idle_core = \<lparr>tx_get = 0, tx_set = 0, rx_get = 0, rx_set = 0, rx_success = 0, hist = (\<lambda>_. 0), wlc = rng_init 42\<rparr>"

theorem benchmark_completes_witness:
  "\<exists>ia1 s1 ia2 s2 tps c' ia' s' M. kvs_init (small_settings 64 2) small_source (2 ^ 20) demo_kvs = Some (ia1, s1) \<and>
     load_keys (small_settings 64 2) small_source 1 small_connection one_key 1 0 ia1 s1 = Some (ia2, s2) \<and>
     send_requests (small_settings 64 2) small_source True (1 / 2) small_connection one_workload (workload_init_dyn (\<lambda>_. 1) one_workload)
       [Request False 0 1000, Read_stats, Request True 5 7] idle_core ia2 s2 = Some (tps, c', ia', s') \<and>
     store_ok (small_settings 64 2) small_source ia' M s' \<and> sum_list tps + rx_success c' = 2"
proof -
  let ?C = "small_settings 64 2" and ?s = "demo_kvs\<lparr>seg_base := 2 ^ 20\<rparr>"
  have c: "(64 :: u64) = 4096 \<and> 2 = (4 :: u64) \<or> (64 :: u64) = 64 \<and> 2 = (2 :: u64)"
    by simp
  have st: "startable ?C small_source (2 ^ 20)"
    by (rule small_startable [OF c])
  have src: "\<forall>i < segmaxnum ?C. mprotect_ok small_source i \<and> malloc_header small_source i \<noteq> NULL"
    by (auto simp: small_settings_def small_source_def less_2_word)
  have k: "key_ref.truncate (one_key i) = small_key" "key_ptr (one_key i) = 4096" "key_len (one_key i) = 4" for i
    by (simp_all add: one_key_def small_key_def key_ref.defs)
  have "seg_base ?s = 2 ^ 20"
    by simp
  note r = small_request [OF c this]
  have w: "workload_ready ?C small_connection one_key 1 ?s"
    using r unfolding workload_ready_def k
    by (auto simp: block_def get_buffer_def small_connection_def small_settings_def c_consts)
  have room: "unat (1 :: u64) \<le> (unat (segmaxnum ?C) - 1) * (unat (segsize ?C) div (24 + unat (4 :: u64) + unat (valuesize ?C)))"
    by (simp add: small_settings_def)
  show ?thesis
    using benchmark_completes [OF st src w _ _ _ room one_workload_def, of True "1 / 2" "\<lambda>_. 1" "[Request False 0 1000, Read_stats, Request True 5 7]" idle_core] k(3)
    by (auto simp: word_le_nat_alt idle_core_def requests_def)
qed

end
