(* ===== verification/Kvs_Server.thy ===== *)
theory Kvs_Server
  imports Kvs_Bench
begin

text \<open>
  \<^verbatim>\<open>apps/flexkvs/server/main.c\<close>: the server that offers the key-value store on sockets, with the binary protocol of
  memcached (\<^verbatim>\<open>common/include/protocol_binary.h\<close>). A connection has a buffer for requests and one for responses, both
  in the memory of the process; an event of \<^verbatim>\<open>epoll\<close> makes the server read, work off the complete requests and write.

  The socket is the environment. What its reads deliver and its writes accept is given by the two lists
  \<open>to_read\<close> and \<open>to_write\<close>. A read fails with \<^verbatim>\<open>EAGAIN\<close> at every \<open>Would_block\<close> of the list, which may stand
  anywhere, also between two pieces of a request, and when the list is used up; a write when its list is used up.
\<close>

section \<open>Constants of the protocol\<close>

definition MAX_MSGSIZE :: u64 where [c_consts]: "MAX_MSGSIZE = 1000000"
definition PROTOCOL_BINARY_REQ :: u8 where [c_consts]: "PROTOCOL_BINARY_REQ = 0x80"
definition PROTOCOL_BINARY_RES :: u8 where [c_consts]: "PROTOCOL_BINARY_RES = 0x81"
definition PROTOCOL_BINARY_CMD_GET :: u8 where [c_consts]: "PROTOCOL_BINARY_CMD_GET = 0x00"
definition PROTOCOL_BINARY_CMD_SET :: u8 where [c_consts]: "PROTOCOL_BINARY_CMD_SET = 0x01"
definition PROTOCOL_BINARY_CMD_DELETE :: u8 where [c_consts]: "PROTOCOL_BINARY_CMD_DELETE = 0x04"
definition RESPONSE_SUCCESS :: u16 where [c_consts]: "RESPONSE_SUCCESS = 0x00"
definition RESPONSE_KEY_ENOENT :: u16 where [c_consts]: "RESPONSE_KEY_ENOENT = 0x01"
definition RESPONSE_ENOMEM :: u16 where [c_consts]: "RESPONSE_ENOMEM = 0x82"

text \<open>The sizes of the response packets.\<close>

definition RESPONSE_HEADER :: u32 where [c_consts]: "RESPONSE_HEADER = 24"
definition GET_RESPONSE :: u32 where [c_consts]: "GET_RESPONSE = 28"

section \<open>Memory\<close>

text \<open>\<^verbatim>\<open>ntohs\<close> and \<^verbatim>\<open>ntohl\<close> of what lies in memory, and the bytes \<^verbatim>\<open>htons\<close> and \<^verbatim>\<open>htonl\<close> put there.\<close>

definition be16 :: "bytes \<Rightarrow> u64 \<Rightarrow> u16" where
  "be16 m p = push_bit 8 (ucast (m p)) OR ucast (m (p + 1))"

definition be32 :: "bytes \<Rightarrow> u64 \<Rightarrow> u32" where
  "be32 m p = push_bit 16 (ucast (be16 m p)) OR ucast (be16 m (p + 2))"

definition be16_bytes :: "u16 \<Rightarrow> u8 list" where
  "be16_bytes w = [ucast (drop_bit 8 w), ucast w]"

definition be32_bytes :: "u32 \<Rightarrow> u8 list" where
  "be32_bytes w = be16_bytes (ucast (drop_bit 16 w)) @ be16_bytes (ucast w)"

definition put_bytes :: "u64 \<Rightarrow> u8 list \<Rightarrow> 'a segments_scheme \<Rightarrow> 'a segments_scheme" where
  "put_bytes dst xs s = s\<lparr>kbytes := (\<lambda>a. if unat (a - dst) < length xs then xs ! unat (a - dst) else kbytes s a)\<rparr>"

section \<open>Connections\<close>

record server_connection =
  c_it :: ptr
  c_rx_len :: u16
  c_rx_off :: u16
  c_tx_len :: u16
  c_tx_off :: u16
  c_epoll_wr :: bool
  c_req_done :: bool
  c_rx_buf :: u64
  c_tx_buf :: u64

text \<open>
  \<^verbatim>\<open>Bytes []\<close> is the end of the stream, \<open>Would_block\<close> a read for which nothing has arrived yet, \<open>Accepts 0\<close> the end for writing. The connection watches its socket either for
  data to read or, if \<open>watch_out\<close> is set, for room to write.
\<close>

datatype recv_result = Bytes "u8 list" | Would_block | Recv_failed
datatype send_result = Accepts nat | Send_failed

record socket =
  to_read :: "recv_result list"
  to_write :: "send_result list"
  sent :: "u8 list"
  watch_out :: bool
  is_open :: bool
  epoll_ok :: bool

datatype 'r io = Got 'r | Again | Failed

fun ss_read :: "nat \<Rightarrow> socket \<Rightarrow> u8 list io \<times> socket" where
  "ss_read n k = (case to_read k of
     [] \<Rightarrow> (Again, k)
   | Bytes xs # r \<Rightarrow> (Got (take n xs), k\<lparr>to_read := (if length xs \<le> n then r else Bytes (drop n xs) # r)\<rparr>)
   | Would_block # r \<Rightarrow> (Again, k\<lparr>to_read := r\<rparr>)
   | Recv_failed # r \<Rightarrow> (Failed, k\<lparr>to_read := r\<rparr>))"

fun ss_write :: "u8 list \<Rightarrow> socket \<Rightarrow> nat io \<times> socket" where
  "ss_write xs k = (case to_write k of
     [] \<Rightarrow> (Again, k)
   | Accepts m # r \<Rightarrow> (Got (min m (length xs)), k\<lparr>to_write := r, sent := sent k @ take m xs\<rparr>)
   | Send_failed # r \<Rightarrow> (Failed, k\<lparr>to_write := r\<rparr>))"

definition conn_close :: "settings \<Rightarrow> server_connection \<Rightarrow> socket \<Rightarrow> 'a segments_scheme \<Rightarrow> (socket \<times> 'a segments_scheme) option" where
  "conn_close C c k s = do {
     let k = k\<lparr>is_open := False\<rparr>;
     s \<leftarrow> (if c_it c \<noteq> NULL then item_unref C (c_it c) s else Some s);
     Some (k, s)
   }"

definition conn_upepoll :: "bool \<Rightarrow> server_connection \<Rightarrow> socket \<Rightarrow> (server_connection \<times> socket) option" where
  "conn_upepoll wr c k =
     (if c_epoll_wr c = wr then Some (c, k)
      else do {
        assert (epoll_ok k);
        Some (c\<lparr>c_epoll_wr := wr\<rparr>, k\<lparr>watch_out := wr\<rparr>)
      })"

definition conn_req_iscomp :: "bytes \<Rightarrow> server_connection \<Rightarrow> bool" where
  "conn_req_iscomp m c =
     (let req = c_rx_buf c + ucast (c_rx_off c);
          avail = c_rx_len c - c_rx_off c
      in if (ucast avail :: u64) < GET_HEADER then False
         else if (ucast avail :: u64) < GET_HEADER + ucast (be32 m (req + 8)) then False
         else True)"

partial_function (option) conn_recv :: "settings \<Rightarrow> server_connection \<Rightarrow> socket \<Rightarrow> 'a segments_scheme \<Rightarrow>
    (int \<times> server_connection \<times> socket \<times> 'a segments_scheme) option" where
  "conn_recv C c k s =
     (case ss_read (unat (MAX_MSGSIZE - ucast (c_rx_len c))) k of
        (Got xs, k) \<Rightarrow>
          if xs = [] then do {
            (k, s) \<leftarrow> conn_close C c k s;
            Some (- 1, c, k, s)
          } else
            let s = put_bytes (c_rx_buf c + ucast (c_rx_len c)) xs s;
                c = c\<lparr>c_rx_len := c_rx_len c + of_nat (length xs)\<rparr>
            in if \<not> conn_req_iscomp (kbytes s) c then conn_recv C c k s else Some (0, c, k, s)
      | (Again, k) \<Rightarrow> do {
          (c, k) \<leftarrow> conn_upepoll False c k;
          Some (1, c, k, s)
        }
      | (Failed, k) \<Rightarrow> do {
          (k, s) \<leftarrow> conn_close C c k s;
          Some (- 1, c, k, s)
        })"

partial_function (option) conn_send :: "settings \<Rightarrow> server_connection \<Rightarrow> socket \<Rightarrow> 'a segments_scheme \<Rightarrow>
    (int \<times> server_connection \<times> socket \<times> 'a segments_scheme) option" where
  "conn_send C c k s =
     (case ss_write (region (kbytes s) (c_tx_buf c + ucast (c_tx_off c)) (unat (ucast (c_tx_len c) - ucast (c_tx_off c) :: u64))) k of
        (Got n, k) \<Rightarrow>
          if n = 0 then do {
            (k, s) \<leftarrow> conn_close C c k s;
            Some (- 1, c, k, s)
          } else
            let c = c\<lparr>c_tx_off := c_tx_off c + of_nat n\<rparr>
            in if c_tx_off c < c_tx_len c then conn_send C c k s
               else Some (0, c\<lparr>c_tx_off := 0, c_tx_len := 0\<rparr>, k, s)
      | (Again, k) \<Rightarrow> do {
          (c, k) \<leftarrow> conn_upepoll True c k;
          Some (1, c, k, s)
        }
      | (Failed, k) \<Rightarrow> do {
          (k, s) \<leftarrow> conn_close C c k s;
          Some (- 1, c, k, s)
        })"

section \<open>Requests\<close>

definition response_header :: "u64 \<Rightarrow> u8 \<Rightarrow> u8 \<Rightarrow> u16 \<Rightarrow> u32 \<Rightarrow> u64 \<Rightarrow> 'a segments_scheme \<Rightarrow> 'a segments_scheme" where
  "response_header res opcode extlen status bodylen req s =
     (let s = put_bytes res ([PROTOCOL_BINARY_RES, opcode] @ be16_bytes 0 @ [extlen, 0] @ be16_bytes status @ be32_bytes bodylen) s
      in memcpy (res + 12) (req + 12) 4 s)"

text \<open>
  Giving back the memory of a deleted item. The effect of \<^verbatim>\<open>madvise\<close> on the memory of the process is
  the parameter \<open>dont_need\<close>.
\<close>

definition ialloc_free_dont_need :: "settings \<Rightarrow> (u64 \<Rightarrow> u64 \<Rightarrow> 'a segments_scheme \<Rightarrow> 'a segments_scheme) \<Rightarrow> ptr \<Rightarrow> u64 \<Rightarrow>
    'a segments_scheme \<Rightarrow> 'a segments_scheme option" where
  "ialloc_free_dont_need C dont_need it tot s = do {
     h \<leftarrow> segment_from_part C it s;
     s \<leftarrow> segment_item_free h tot s;
     Some (dont_need it (item_totalsz s it) s)
   }"

text \<open>The three commands: what they do when they run for the first time, and their responses.\<close>

definition do_get :: "u64 \<Rightarrow> u16 \<Rightarrow> server_connection \<Rightarrow> 'a kvs_scheme \<Rightarrow> (server_connection \<times> 'a kvs_scheme) option" where
  "do_get req kl c s =
     (if \<not> c_req_done c then do {
        let k = req + GET_HEADER;
        let h = jenkins_hash (kbytes s) k (ucast kl);
        (it, s) \<leftarrow> hasht_get k (ucast kl) h s;
        Some (c\<lparr>c_it := it, c_req_done := True\<rparr>, s)
      } else Some (c, s))"

definition do_set :: "settings \<Rightarrow> segment_source \<Rightarrow> u64 \<Rightarrow> u16 \<Rightarrow> u32 \<Rightarrow> item_allocator \<Rightarrow> server_connection \<Rightarrow> 'a kvs_scheme \<Rightarrow>
    (item_allocator \<times> server_connection \<times> 'a kvs_scheme) option" where
  "do_set C src req kl vl ia c s =
     (if \<not> c_req_done c then do {
        let k = req + SET_HEADER;
        let v = k + ucast kl;
        let h = jenkins_hash (kbytes s) k (ucast kl);
        (it, s) \<leftarrow> hasht_get k (ucast kl) h s;
        (it, ia, s) \<leftarrow> (if it = NULL then do {
            (it, ia, s) \<leftarrow> ialloc_alloc C src (ITEM_SIZE + ucast kl + ucast vl) False ia s;
            assert (it \<noteq> NULL);
            let s = fill_item it h k kl v vl s;
            s \<leftarrow> hasht_put C it NULL s;
            Some (it, ia, s)
          } else Some (it, ia, fill_item it h k kl v vl s));
        s \<leftarrow> item_unref C it s;
        Some (ia, c\<lparr>c_it := it, c_req_done := True\<rparr>, s)
      } else Some (ia, c, s))"

definition do_delete :: "settings \<Rightarrow> (u64 \<Rightarrow> u64 \<Rightarrow> 'a kvs_scheme \<Rightarrow> 'a kvs_scheme) \<Rightarrow> u64 \<Rightarrow> u16 \<Rightarrow> server_connection \<Rightarrow>
    'a kvs_scheme \<Rightarrow> (bool \<times> server_connection \<times> 'a kvs_scheme) option" where
  "do_delete C dont_need req kl c s =
     (if \<not> c_req_done c then do {
        let k = req + GET_HEADER;
        let h = jenkins_hash (kbytes s) k (ucast kl);
        (it, s) \<leftarrow> hasht_get k (ucast kl) h s;
        (success, s) \<leftarrow> (if it \<noteq> NULL then do {
            s \<leftarrow> ialloc_free_dont_need C dont_need it (item_totalsz s it) s;
            Some (True, s)
          } else Some (False, s));
        Some (success, c\<lparr>c_it := it, c_req_done := True\<rparr>, s)
      } else Some (False, c, s))"

definition request_done :: "u32 \<Rightarrow> u32 \<Rightarrow> server_connection \<Rightarrow> server_connection" where
  "request_done rql rsl c =
     c\<lparr>c_rx_off := c_rx_off c + ucast rql, c_tx_len := c_tx_len c + ucast rsl, c_req_done := False\<rparr>"

definition conn_req_process :: "settings \<Rightarrow> segment_source \<Rightarrow> (u64 \<Rightarrow> u64 \<Rightarrow> 'a kvs_scheme \<Rightarrow> 'a kvs_scheme) \<Rightarrow> item_allocator \<Rightarrow>
    server_connection \<Rightarrow> socket \<Rightarrow> 'a kvs_scheme \<Rightarrow> (int \<times> item_allocator \<times> server_connection \<times> socket \<times> 'a kvs_scheme) option" where
  "conn_req_process C src dont_need ia c k s = do {
     let req = c_rx_buf c + ucast (c_rx_off c);
     let res = c_tx_buf c + ucast (c_tx_len c);
     let opcode = kbytes s (req + 1);
     let kl = be16 (kbytes s) (req + 2);
     let extlen = kbytes s (req + 4);
     let bl = be32 (kbytes s) (req + 8);
     let room = (ucast MAX_MSGSIZE - ucast (c_tx_len c) :: u32);
     if kbytes s req \<noteq> PROTOCOL_BINARY_REQ then do {
       (k, s) \<leftarrow> conn_close C c k s;
       Some (- 1, ia, c, k, s)
     } else do {
       let rql = ucast GET_HEADER + bl;
       if opcode = PROTOCOL_BINARY_CMD_GET then do {
         (c, s) \<leftarrow> do_get req kl c s;
         let it = c_it c;
         let rsl = GET_RESPONSE + (if it \<noteq> NULL then vallen (items s it) else 0);
         if room < rsl then Some (1, ia, c, k, s)
         else do {
           let s = (if it \<noteq> NULL then response_header res PROTOCOL_BINARY_CMD_GET 4 RESPONSE_SUCCESS (4 + vallen (items s it)) req s
                    else response_header res PROTOCOL_BINARY_CMD_GET 4 RESPONSE_KEY_ENOENT 4 req s);
           let s = put_bytes (res + 24) (be32_bytes 0) s;
           s \<leftarrow> (if it \<noteq> NULL then item_unref C it (memcpy (res + ucast GET_RESPONSE) (item_value s it) (ucast (vallen (items s it))) s)
                 else Some s);
           Some (0, ia, request_done rql rsl c, k, s)
         }
       } else if opcode = PROTOCOL_BINARY_CMD_SET then do {
         (ia, c, s) \<leftarrow> do_set C src req kl (bl - ucast kl - ucast extlen) ia c s;
         let rsl = RESPONSE_HEADER;
         if room < rsl then Some (1, ia, c, k, s)
         else do {
           let s = response_header res PROTOCOL_BINARY_CMD_SET 0 (if c_it c \<noteq> NULL then RESPONSE_SUCCESS else RESPONSE_ENOMEM) 0 req s;
           Some (0, ia, request_done rql rsl c, k, s)
         }
       } else if opcode = PROTOCOL_BINARY_CMD_DELETE then do {
         (success, c, s) \<leftarrow> do_delete C dont_need req kl c s;
         let rsl = RESPONSE_HEADER;
         if room < rsl then Some (1, ia, c, k, s)
         else do {
           let s = response_header res PROTOCOL_BINARY_CMD_DELETE 4 (if success then RESPONSE_SUCCESS else RESPONSE_KEY_ENOENT) 0 req s;
           Some (0, ia, request_done rql rsl c, k, s)
         }
       } else do {
         (k, s) \<leftarrow> conn_close C c k s;
         Some (- 1, ia, c, k, s)
       }
     }
   }"

section \<open>Events\<close>

text \<open>The loop over the complete requests; the boolean is false when \<^verbatim>\<open>conn_events\<close> returns from within.\<close>

partial_function (option) process_requests :: "settings \<Rightarrow> segment_source \<Rightarrow> (u64 \<Rightarrow> u64 \<Rightarrow> 'a kvs_scheme \<Rightarrow> 'a kvs_scheme) \<Rightarrow>
    item_allocator \<Rightarrow> server_connection \<Rightarrow> socket \<Rightarrow> 'a kvs_scheme \<Rightarrow>
    (bool \<times> item_allocator \<times> server_connection \<times> socket \<times> 'a kvs_scheme) option" where
  "process_requests C src dont_need ia c k s =
     (if conn_req_iscomp (kbytes s) c then do {
        (ret, ia, c, k, s) \<leftarrow> conn_req_process C src dont_need ia c k s;
        if ret = - 1 then Some (False, ia, c, k, s)
        else if c_tx_len c \<noteq> 0 then do {
          (r, c, k, s) \<leftarrow> conn_send C c k s;
          if r \<noteq> 0 then Some (False, ia, c, k, s) else process_requests C src dont_need ia c k s
        }
        else process_requests C src dont_need ia c k s
      } else Some (True, ia, c, k, s))"

definition move_up :: "server_connection \<Rightarrow> 'a segments_scheme \<Rightarrow> server_connection \<times> 'a segments_scheme" where
  "move_up c s =
     (if c_rx_off c \<noteq> 0 then
        let (c, s) = (if c_rx_off c = c_rx_len c then (c\<lparr>c_rx_len := 0\<rparr>, s)
              else (c\<lparr>c_rx_len := c_rx_len c - c_rx_off c\<rparr>,
                    memcpy (c_rx_buf c) (c_rx_buf c + ucast (c_rx_off c)) (ucast (c_rx_len c) - ucast (c_rx_off c)) s))
        in (c\<lparr>c_rx_off := 0\<rparr>, s)
      else (c, s))"

definition SS_EPOLLIN :: u32 where [c_consts]: "SS_EPOLLIN = 1"
definition SS_EPOLLOUT :: u32 where [c_consts]: "SS_EPOLLOUT = 4"

definition conn_events :: "settings \<Rightarrow> segment_source \<Rightarrow> (u64 \<Rightarrow> u64 \<Rightarrow> 'a kvs_scheme \<Rightarrow> 'a kvs_scheme) \<Rightarrow> u32 \<Rightarrow> item_allocator \<Rightarrow>
    server_connection \<Rightarrow> socket \<Rightarrow> 'a kvs_scheme \<Rightarrow> (item_allocator \<times> server_connection \<times> socket \<times> 'a kvs_scheme) option" where
  "conn_events C src dont_need events ia c k s =
     (if events AND NOT (SS_EPOLLIN OR SS_EPOLLOUT) \<noteq> 0 then do {
        (k, s) \<leftarrow> conn_close C c k s;
        Some (ia, c, k, s)
      } else do {
        (r, c, k, s) \<leftarrow>
          (if events AND SS_EPOLLIN = SS_EPOLLIN then conn_recv C c k s
           else if events AND SS_EPOLLOUT = SS_EPOLLOUT then do {
             assert (c_tx_off c < c_tx_len c);
             conn_send C c k s
           } else Some (0, c, k, s));
        if r \<noteq> 0 then Some (ia, c, k, s)
        else do {
          (live, ia, c, k, s) \<leftarrow> process_requests C src dont_need ia c k s;
          if \<not> live then Some (ia, c, k, s)
          else do {
            let (c, s) = move_up c s;
            (c, k) \<leftarrow> conn_upepoll False c k;
            Some (ia, c, k, s)
          }
        }
      })"

text \<open>
  One round of a processing thread: the events \<^verbatim>\<open>epoll\<close> reports, each for one connection, and the relocation of the
  items in the cleanup queue, by \<^verbatim>\<open>clean_log\<close>, which is the same function as in the benchmark.
\<close>

fun serve_events :: "settings \<Rightarrow> segment_source \<Rightarrow> (u64 \<Rightarrow> u64 \<Rightarrow> 'a kvs_scheme \<Rightarrow> 'a kvs_scheme) \<Rightarrow> (nat \<times> u32) list \<Rightarrow> item_allocator \<Rightarrow>
    (nat \<Rightarrow> server_connection \<times> socket) \<Rightarrow> 'a kvs_scheme \<Rightarrow> (item_allocator \<times> (nat \<Rightarrow> server_connection \<times> socket) \<times> 'a kvs_scheme) option" where
  "serve_events C src dont_need [] ia cs s = Some (ia, cs, s)"
| "serve_events C src dont_need ((i, events) # evs) ia cs s = do {
     (ia, c, k, s) \<leftarrow> conn_events C src dont_need events ia (fst (cs i)) (snd (cs i)) s;
     serve_events C src dont_need evs ia (cs(i := (c, k))) s
   }"

definition processing_turn :: "settings \<Rightarrow> segment_source \<Rightarrow> (u64 \<Rightarrow> u64 \<Rightarrow> 'a kvs_scheme \<Rightarrow> 'a kvs_scheme) \<Rightarrow> (nat \<times> u32) list \<Rightarrow> item_allocator \<Rightarrow>
    (nat \<Rightarrow> server_connection \<times> socket) \<Rightarrow> 'a kvs_scheme \<Rightarrow> (item_allocator \<times> (nat \<Rightarrow> server_connection \<times> socket) \<times> 'a kvs_scheme) option" where
  "processing_turn C src dont_need evs ia cs s = do {
     (ia, cs, s) \<leftarrow> serve_events C src dont_need evs ia cs s;
     (_, ia, s) \<leftarrow> clean_log C src True ia s;
     Some (ia, cs, s)
   }"

text \<open>The loop of a processing thread, for as many rounds as there are lists of events.\<close>

fun serve_turns :: "settings \<Rightarrow> segment_source \<Rightarrow> (u64 \<Rightarrow> u64 \<Rightarrow> 'a kvs_scheme \<Rightarrow> 'a kvs_scheme) \<Rightarrow> (nat \<times> u32) list list \<Rightarrow> item_allocator \<Rightarrow>
    (nat \<Rightarrow> server_connection \<times> socket) \<Rightarrow> 'a kvs_scheme \<Rightarrow> (item_allocator \<times> (nat \<Rightarrow> server_connection \<times> socket) \<times> 'a kvs_scheme) option" where
  "serve_turns C src dont_need [] ia cs s = Some (ia, cs, s)"
| "serve_turns C src dont_need (evs # turns) ia cs s = do {
     (ia, cs, s) \<leftarrow> processing_turn C src dont_need evs ia cs s;
     serve_turns C src dont_need turns ia cs s
   }"

end
