(* ===== verification/Kvs_Protocol.thy ===== *)
theory Kvs_Protocol
  imports Kvs_Server
begin

text \<open>
  The protocol of the server as a specification, and one request of it: what a message looks like as a string of
  bytes, and that the server answers each request as the map of keys to values demands.
\<close>

section \<open>Bytes in memory\<close>

definition sees :: "bytes \<Rightarrow> u64 \<Rightarrow> u8 list \<Rightarrow> bool" where
  "sees m p xs \<longleftrightarrow> region m p (length xs) = xs"

lemma region_plus: "region m p (a + b) = region m p a @ region m (p + of_nat a) b"
proof -
  have "take a (region m p (a + b)) = region m p a" "drop a (region m p (a + b)) = region m (p + of_nat a) b"
    by (simp_all add: region_take region_drop)
  then show ?thesis
    by (metis append_take_drop_id)
qed

lemma sees_append: "sees m p (xs @ ys) \<longleftrightarrow> sees m p xs \<and> sees m (p + of_nat (length xs)) ys"
  by (simp add: sees_def region_plus)

lemma sees_Cons: "sees m p (x # xs) \<longleftrightarrow> m p = x \<and> sees m (p + 1) xs"
  by (simp add: sees_def region_Suc)

lemma sees_Nil [simp]: "sees m p []"
  by (simp add: sees_def)

lemma sees_cong: "unat p + length xs < 2 ^ 64 \<Longrightarrow> (\<And>a. unat a \<in> block p (length xs) \<Longrightarrow> m' a = m a) \<Longrightarrow> sees m' p xs = sees m p xs"
  unfolding sees_def by (simp add: region_block [of p "length xs" m' m])

lemma be_bytes_length [simp]: "length (be16_bytes a) = 2" "length (be32_bytes b) = 4"
  by (simp_all add: be16_bytes_def be32_bytes_def)

lemma be16_read: "sees m p (be16_bytes w) \<Longrightarrow> be16 m p = w"
  by (auto simp: sees_Cons be16_bytes_def be16_def intro!: bit_word_eqI simp: bit_simps)

lemma be32_read: "sees m p (be32_bytes w) \<Longrightarrow> be32 m p = w"
proof -
  assume "sees m p (be32_bytes w)"
  then have "sees m p (be16_bytes (ucast (drop_bit 16 w)))" "sees m (p + 2) (be16_bytes (ucast w))"
    by (simp_all add: be32_bytes_def sees_append)
  then have "be16 m p = ucast (drop_bit 16 w)" "be16 m (p + 2) = ucast w"
    by (simp_all only: be16_read)
  then show ?thesis
    by (auto simp: be32_def intro!: bit_word_eqI simp: bit_simps)
qed

section \<open>Messages\<close>

text \<open>A request carries four bytes the server returns as they are.\<close>

datatype request = Get_key "u8 list" "u8 list" | Set_key "u8 list" "u8 list" "u8 list"

text \<open>
  The packet of a request. The server ignores the data type and the reserved field, \<open>f\<close>, the field \<^verbatim>\<open>cas\<close>,
  \<open>g\<close>, and the flags and the expiration of a set request, \<open>e\<close>.
\<close>

definition request_header :: "u8 \<Rightarrow> nat \<Rightarrow> u8 \<Rightarrow> u8 list \<Rightarrow> nat \<Rightarrow> u8 list \<Rightarrow> u8 list \<Rightarrow> u8 list" where
  "request_header opcode kl extlen f bl opq g =
     [PROTOCOL_BINARY_REQ, opcode] @ be16_bytes (of_nat kl) @ [extlen] @ f @ be32_bytes (of_nat bl) @ opq @ g"

fun encode :: "u8 list \<Rightarrow> u8 list \<Rightarrow> u8 list \<Rightarrow> request \<Rightarrow> u8 list" where
  "encode f g e (Get_key opq key) =
     request_header PROTOCOL_BINARY_CMD_GET (length key) 0 f (length key) opq g @ key"
| "encode f g e (Set_key opq key val) =
     request_header PROTOCOL_BINARY_CMD_SET (length key) 8 f (8 + length key + length val) opq g @ e @ key @ val"

definition on_wire :: "request \<Rightarrow> u8 list \<Rightarrow> bool" where
  "on_wire r xs \<longleftrightarrow> (\<exists>f g e. length f = 3 \<and> length g = 8 \<and> length e = 8 \<and> xs = encode f g e r)"

definition response :: "u8 \<Rightarrow> u8 \<Rightarrow> u16 \<Rightarrow> u8 list \<Rightarrow> u8 list \<Rightarrow> u8 list \<Rightarrow> bool" where
  "response opcode extlen status body opq xs \<longleftrightarrow> (\<exists>g. length g = 8 \<and>
     xs = [PROTOCOL_BINARY_RES, opcode] @ be16_bytes 0 @ [extlen, 0] @ be16_bytes status @ be32_bytes (of_nat (length body)) @ opq @ g @ body)"

text \<open>The specification of the server: the answer to a request and its effect on the map.\<close>

fun answers :: "(u8 list \<rightharpoonup> u8 list) \<Rightarrow> request \<Rightarrow> u8 list \<Rightarrow> bool" where
  "answers M (Get_key opq key) xs \<longleftrightarrow> (case M key of
     Some v \<Rightarrow> response PROTOCOL_BINARY_CMD_GET 4 RESPONSE_SUCCESS (be32_bytes 0 @ v) opq xs
   | None \<Rightarrow> response PROTOCOL_BINARY_CMD_GET 4 RESPONSE_KEY_ENOENT (be32_bytes 0) opq xs)"
| "answers M (Set_key opq key val) xs \<longleftrightarrow> response PROTOCOL_BINARY_CMD_SET 0 RESPONSE_SUCCESS [] opq xs"

fun effect :: "(u8 list \<rightharpoonup> u8 list) \<Rightarrow> request \<Rightarrow> (u8 list \<rightharpoonup> u8 list)" where
  "effect M (Get_key opq key) = M"
| "effect M (Set_key opq key val) = M(key \<mapsto> val)"

fun request_size :: "request \<Rightarrow> nat" where
  "request_size (Get_key opq key) = 24 + length key"
| "request_size (Set_key opq key val) = 32 + length key + length val"

text \<open>Requests a store with values of one size can serve.\<close>

fun servable :: "settings \<Rightarrow> request \<Rightarrow> bool" where
  "servable C (Get_key opq key) \<longleftrightarrow> length opq = 4 \<and> length key < 2 ^ 16 \<and> 28 + unat (valuesize C) < 2 ^ 16"
| "servable C (Set_key opq key val) \<longleftrightarrow> length opq = 4 \<and> length key < 2 ^ 16 \<and> 28 + unat (valuesize C) < 2 ^ 16 \<and>
     length val = unat (valuesize C) \<and> 24 + length key + length val < unat (segsize C)"

lemma on_wire_length: "on_wire r xs \<Longrightarrow> servable C r \<Longrightarrow> length xs = request_size r"
  by (cases r) (auto simp: on_wire_def request_header_def)

lemma get_packet:
  assumes "on_wire (Get_key opq key) xs" and "length opq = 4" and "sees m p xs"
  shows "m p = PROTOCOL_BINARY_REQ" "m (p + 1) = PROTOCOL_BINARY_CMD_GET" "be16 m (p + 2) = of_nat (length key)"
    "be32 m (p + 8) = of_nat (length key)" "sees m (p + 12) opq" "sees m (p + GET_HEADER) key"
  using assms
  by (auto simp: on_wire_def request_header_def sees_append sees_Cons add.assoc c_consts intro: be16_read be32_read)

lemma set_packet:
  assumes "on_wire (Set_key opq key val) xs" and "length opq = 4" and "sees m p xs"
  shows "m p = PROTOCOL_BINARY_REQ" "m (p + 1) = PROTOCOL_BINARY_CMD_SET" "be16 m (p + 2) = of_nat (length key)"
    "m (p + 4) = 8" "be32 m (p + 8) = of_nat (8 + length key + length val)" "sees m (p + 12) opq"
    "sees m (p + SET_HEADER) key" "sees m (p + SET_HEADER + of_nat (length key)) val"
  using assms
  by (auto simp: on_wire_def request_header_def sees_append sees_Cons add.assoc c_consts intro: be16_read be32_read)

section \<open>Writing a response\<close>

lemma put_bytes_fields [simp]:
  "items (put_bytes d xs s) = items s" "segs (put_bytes d xs s) = segs s" "free_segments (put_bytes d xs s) = free_segments s"
  "seg_base (put_bytes d xs s) = seg_base s" "seg_headers (put_bytes d xs s) = seg_headers s" "seg_alloced (put_bytes d xs s) = seg_alloced s"
  "nbuckets (put_bytes d xs t) = nbuckets t" "buckets (put_bytes d xs t) = buckets t"
  by (simp_all add: put_bytes_def)

lemma put_bytes_kbytes:
  assumes "unat d + length xs < 2 ^ 64"
  shows "kbytes (put_bytes d xs s) a = (if unat a \<in> block d (length xs) then xs ! (unat a - unat d) else kbytes s a)"
proof -
  have n: "unat (of_nat (length xs) :: u64) = length xs"
    using assms by (simp add: unat_of_nat take_bit_nat_eq_self)
  then have "unat (a - d) < length xs \<longleftrightarrow> unat a \<in> block d (length xs)"
    using in_block [of d "of_nat (length xs)" a] assms by (simp add: word_less_nat_alt)
  moreover have "unat (a - d) = unat a - unat d" if "unat a \<in> block d (length xs)"
    using that by (simp add: block_def unat_sub word_le_nat_alt)
  ultimately show ?thesis
    by (auto simp: put_bytes_def)
qed

lemma put_bytes_sees:
  assumes "unat d + length xs < 2 ^ 64"
  shows "sees (kbytes (put_bytes d xs s)) d xs"
  unfolding sees_def
  by (rule nth_equalityI) (use assms unat_offset [OF assms] in \<open>auto simp: region_def put_bytes_kbytes block_def\<close>)

text \<open>Writing into a buffer beside the segments leaves the store alone.\<close>

lemma store_ok_outside:
  assumes "store_ok C src ia M s" and "seg_frame s s'" and "items s' = items s" "nbuckets s' = nbuckets s" "buckets s' = buckets s"
    and "\<And>a. unat a \<in> arena C s \<Longrightarrow> kbytes s' a = kbytes s a"
  shows "store_ok C src ia M s'"
  using assms store_parts_outside unfolding store_ok_def by meson

lemma response_header_fields:
  "items (response_header res opc ext st bl req s) = items s" "segs (response_header res opc ext st bl req s) = segs s"
  "free_segments (response_header res opc ext st bl req s) = free_segments s" "seg_base (response_header res opc ext st bl req s) = seg_base s"
  "seg_headers (response_header res opc ext st bl req s) = seg_headers s" "seg_alloced (response_header res opc ext st bl req s) = seg_alloced s"
  "nbuckets (response_header res opc ext st bl req t) = nbuckets t" "buckets (response_header res opc ext st bl req t) = buckets t"
  by (simp_all add: response_header_def Let_def)

lemma response_header_bytes:
  assumes b: "unat res + 16 < 2 ^ 64" "unat req + 16 < 2 ^ 64" and d: "block res 16 \<inter> block req 16 = {}"
    and o: "sees (kbytes s) (req + 12) opq" "length opq = 4" and s': "s' = response_header res opc ext st bl req s"
  shows "sees (kbytes s') res ([PROTOCOL_BINARY_RES, opc] @ be16_bytes 0 @ [ext, 0] @ be16_bytes st @ be32_bytes bl @ opq)"
    and "\<And>a. unat a \<notin> block res 16 \<Longrightarrow> kbytes s' a = kbytes s a"
proof -
  define xs where "xs = [PROTOCOL_BINARY_RES, opc] @ be16_bytes 0 @ [ext, 0] @ be16_bytes st @ be32_bytes bl"
  define s1 where "s1 = put_bytes res xs s"
  have n: "length xs = 12" by (simp add: xs_def)
  have s'_eq: "s' = memcpy (res + 12) (req + 12) 4 s1"
    by (simp add: s' response_header_def s1_def xs_def Let_def)
  have u: "unat (res + 12) = unat res + 12" "unat (req + 12) = unat req + 12"
    using unat_offset [of res 15 12] unat_offset [of req 15 12] b by simp_all
  note k1 = put_bytes_kbytes [of res xs s, folded s1_def, unfolded n]
  have m: "kbytes s' a = (if unat a \<in> block (res + 12) 4 then kbytes s1 (req + 12 + (a - (res + 12))) else kbytes s1 a)" for a
    using memcpy_kbytes [of "res + 12" 4 "req + 12" s1 a] b by (simp add: s'_eq u)
  have "sees (kbytes s') res xs"
    using put_bytes_sees [of res xs s, folded s1_def] b n
    by (subst sees_cong [where m = "kbytes s1"]) (auto simp: m block_def u)
  moreover have "sees (kbytes s') (res + 12) opq"
  proof -
    have "region (kbytes s1) (req + 12) 4 = region (kbytes s) (req + 12) 4"
      using d b by (intro region_block) (auto simp: u block_def k1)
    then show ?thesis
      using memcpy_region [of "res + 12" 4 "req + 12" s1] b o by (simp add: s'_eq u sees_def)
  qed
  ultimately show "sees (kbytes s') res ([PROTOCOL_BINARY_RES, opc] @ be16_bytes 0 @ [ext, 0] @ be16_bytes st @ be32_bytes bl @ opq)"
    using n by (simp add: sees_append xs_def sees_Cons add.assoc)
  show "kbytes s' a = kbytes s a" if "unat a \<notin> block res 16" for a
    using that b by (auto simp: m k1 block_def u)
qed

lemma response_written:
  assumes "sees m res ([PROTOCOL_BINARY_RES, opc] @ be16_bytes 0 @ [ext, 0] @ be16_bytes st @ be32_bytes (of_nat (length body)) @ opq)"
    and "sees m (res + 24) body" and "length opq = 4"
  shows "response opc ext st body opq (region m res (24 + length body))"
proof -
  let ?hd = "[PROTOCOL_BINARY_RES, opc] @ be16_bytes 0 @ [ext, 0] @ be16_bytes st @ be32_bytes (of_nat (length body)) @ opq"
  have "region m res (24 + length body) = region m res 16 @ region m (res + 16) 8 @ region m (res + 24) (length body)"
    using region_plus [of m res 16 "8 + length body"] region_plus [of m "res + 16" 8 "length body"] by (simp add: add.commute add.left_commute)
  moreover have "region m res 16 = ?hd" "region m (res + 24) (length body) = body"
    using assms by (simp_all add: sees_def)
  ultimately show ?thesis
    unfolding response_def by (intro exI [of _ "region m (res + 16) 8"]) simp
qed

section \<open>Looking a key up\<close>

lemma lookup_miss:
  assumes sp: "store_parts C src ia M fs L ov s" and K: "region (kbytes s) p (unat n) = K" "M K = None"
  shows "hasht_get p n (hash_string K) s = Some (NULL, s)"
proof (rule hasht_get_miss)
  show "table_ok C ov s"
    using store_partsD(2) [OF sp] .
  show "ikey s x \<noteq> (hash_string K, region (kbytes s) p (unat n))" if "x \<in> entries s ov" for x
    using contents_lookup(2) [OF sp that] K by (auto simp: ikey_ikbytes)
qed

lemma lookup_hit:
  assumes sp: "store_parts C src ia M fs L ov s" and K: "region (kbytes s) p (unat n) = K" "M K = Some v"
  obtains it where "it \<in> entries s ov" "ikbytes s it = K" "hasht_get p n (hash_string K) s = Some (it, item_ref it s)" "it \<noteq> NULL"
    "vallen (items s it) = ucast (valuesize C)" "refcount (items s it) = 1" "ivalue s it = v"
    "block it (isize s it) \<subseteq> arena C s" "unat it + isize s it < 2 ^ 64"
proof -
  note p = store_partsD [OF sp]
  obtain it where it: "it \<in> entries s ov" "ikbytes s it = K" "ivalue s it = v"
    using p(6) K(2) by (auto simp: contents_def)
  have io: "hv (items s it) = hash_string K" "vallen (items s it) = ucast (valuesize C)" "refcount (items s it) = 1" "block it (isize s it) \<subseteq> used s"
    using p(4) [OF it(1)] it(2) by (simp_all add: item_ok_def)
  have "hasht_get p n (hash_string K) s = Some (it, item_ref it s)"
    by (rule hasht_get_hit [OF p(2) it(1)]) (simp add: ikey_ikbytes io it(2) K(1))
  moreover have "block it (isize s it) \<subseteq> arena C s"
    using io(4) used_in_arena [OF p(7)] by blast
  ultimately show thesis
    using that [OF it(1,2) _ entry_member(2) [OF p(2) it(1)] io(2,3) it(3)] p(8) [OF it(1)] by blast
qed

section \<open>One request\<close>

text \<open>The buffers of a connection lie beside the segments and beside each other.\<close>

definition buffers_ok :: "settings \<Rightarrow> server_connection \<Rightarrow> 'a segments_scheme \<Rightarrow> bool" where
  "buffers_ok C c s \<longleftrightarrow> outside C (c_rx_buf c) 1000000 s \<and> outside C (c_tx_buf c) 1000000 s \<and>
     block (c_rx_buf c) 1000000 \<inter> block (c_tx_buf c) 1000000 = {}"

lemma hash_at: "sees (kbytes s) p key \<Longrightarrow> length key < 2 ^ 16 \<Longrightarrow>
  jenkins_hash (kbytes s) p (ucast (of_nat (length key) :: u16)) = hash_string key"
  by (simp add: jenkins_hash_eq sees_def unsigned_ucast_eq take_bit_nat_eq_self unat_of_nat unat_upcast)

text \<open>The state of a connection between two requests.\<close>

definition idle :: "server_connection \<Rightarrow> bool" where
  "idle c \<longleftrightarrow> c_tx_len c = 0 \<and> c_tx_off c = 0 \<and> \<not> c_req_done c"

text \<open>What a request leaves behind: its answer in the response buffer, and all other memory beside the segments.\<close>

definition answered :: "settings \<Rightarrow> (u8 list \<rightharpoonup> u8 list) \<Rightarrow> request \<Rightarrow> server_connection \<Rightarrow> 'a kvs_scheme \<Rightarrow>
    server_connection \<Rightarrow> 'a kvs_scheme \<Rightarrow> bool" where
  "answered C M r c s c' s' \<longleftrightarrow>
     c' = c\<lparr>c_it := c_it c', c_rx_off := c_rx_off c + of_nat (request_size r), c_tx_len := c_tx_len c'\<rparr> \<and>
     0 < c_tx_len c' \<and> unat (c_tx_len c') \<le> 28 + unat (valuesize C) \<and> answers M r (region (kbytes s') (c_tx_buf c) (unat (c_tx_len c'))) \<and> arena C s' = arena C s \<and>
     (\<forall>a. unat a \<notin> arena C s \<and> unat a \<notin> block (c_tx_buf c) 65536 \<longrightarrow> kbytes s' a = kbytes s a)"

text \<open>The two blocks a request works on: the packet, and the first bytes of the response buffer.\<close>

lemma buffer_parts:
  assumes b: "buffers_ok C c s" and n: "unat (c_rx_off c) + n < 2 ^ 16" and req: "req = c_rx_buf c + ucast (c_rx_off c)"
  shows "unat req + n < 2 ^ 64" "unat (c_tx_buf c) + 65536 < 2 ^ 64" "block (c_tx_buf c) 65536 \<inter> block req n = {}"
    "block req n \<inter> arena C s = {}" "block (c_tx_buf c) 65536 \<inter> arena C s = {}"
proof -
  have o: "outside C (c_rx_buf c) 1000000 s" "outside C (c_tx_buf c) 1000000 s" "block (c_rx_buf c) 1000000 \<inter> block (c_tx_buf c) 1000000 = {}"
    using b by (auto simp: buffers_ok_def)
  have "req = c_rx_buf c + of_nat (unat (c_rx_off c))"
    by (simp add: req)
  then have u: "unat req = unat (c_rx_buf c) + unat (c_rx_off c)"
    using unat_offset [of "c_rx_buf c" 1000000 "unat (c_rx_off c)"] o(1) n by (simp add: outside_def)
  have sub: "block req n \<subseteq> block (c_rx_buf c) 1000000" "block (c_tx_buf c) 65536 \<subseteq> block (c_tx_buf c) 1000000"
    using n by (auto simp: block_def u)
  show "unat req + n < 2 ^ 64" "unat (c_tx_buf c) + 65536 < 2 ^ 64"
    using o n by (simp_all add: outside_def u)
  show "block (c_tx_buf c) 65536 \<inter> block req n = {}" "block req n \<inter> arena C s = {}" "block (c_tx_buf c) 65536 \<inter> arena C s = {}"
    using o sub by (auto simp: outside_def)
qed

text \<open>The response to a get request, written around the value of an item.\<close>

definition write_get :: "u64 \<Rightarrow> u64 \<Rightarrow> u16 \<Rightarrow> u32 \<Rightarrow> u64 \<Rightarrow> u32 \<Rightarrow> 'a segments_scheme \<Rightarrow> 'a segments_scheme" where
  "write_get res req st bl from n s =
     memcpy (res + 28) from (ucast n) (put_bytes (res + 24) (be32_bytes 0) (response_header res PROTOCOL_BINARY_CMD_GET 4 st bl req s))"

lemma write_get_spec:
  assumes b: "unat res + 65536 < 2 ^ 64" "unat req + 16 < 2 ^ 64" "block res 65536 \<inter> block req 16 = {}"
    and o: "sees (kbytes s) (req + 12) opq" "length opq = 4"
    and v: "region (kbytes s) from (unat n) = v" "unat from + unat n < 2 ^ 64" "block res 65536 \<inter> block from (unat n) = {}"
    and n: "28 + unat n < 65536" "bl = of_nat (4 + unat n)" and s': "s' = write_get res req st bl from n s"
  shows "response PROTOCOL_BINARY_CMD_GET 4 st (be32_bytes 0 @ v) opq (region (kbytes s') res (28 + unat n))"
    and "\<And>a. unat a \<notin> block res 65536 \<Longrightarrow> kbytes s' a = kbytes s a"
proof -
  define s1 where "s1 = response_header res PROTOCOL_BINARY_CMD_GET 4 st bl req s"
  define s2 where "s2 = put_bytes (res + 24) (be32_bytes 0) s1"
  have s'2: "s' = memcpy (res + 28) from (ucast n) s2"
    by (simp add: s' write_get_def s1_def s2_def)
  have u: "unat (res + 24) = unat res + 24" "unat (res + 28) = unat res + 28"
    using unat_offset [of res 65535 24] unat_offset [of res 65535 28] b(1) by simp_all
  have b16: "unat res + 16 < 2 ^ 64" and d16: "block res 16 \<inter> block req 16 = {}"
    using b by (auto simp: block_def)
  note h = response_header_bytes [OF b16 b(2) d16 o s1_def]
  have k2: "kbytes s2 a = (if unat a \<in> block (res + 24) 4 then be32_bytes 0 ! (unat a - unat (res + 24)) else kbytes s1 a)" for a
    using put_bytes_kbytes [of "res + 24" "be32_bytes 0" s1] b(1) by (simp add: s2_def u)
  have k3: "kbytes s' a = (if unat a \<in> block (res + 28) (unat n) then kbytes s2 (from + (a - (res + 28))) else kbytes s2 a)" for a
    using memcpy_kbytes [of "res + 28" "ucast n" "from" s2 a] b(1) n by (simp add: s'2 u unat_upcast)
  show rest: "kbytes s' a = kbytes s a" if "unat a \<notin> block res 65536" for a
  proof -
    have "unat a \<notin> block (res + 28) (unat n)" "unat a \<notin> block (res + 24) 4" "unat a \<notin> block res 16"
      using that n by (auto simp: block_def u)
    then show ?thesis
      using h(2) by (simp add: k2 k3)
  qed
  have hd: "sees (kbytes s') res ([PROTOCOL_BINARY_RES, PROTOCOL_BINARY_CMD_GET] @ be16_bytes 0 @ [4, 0] @ be16_bytes st @ be32_bytes bl @ opq)"
    using h(1) b16 o(2) by (subst sees_cong [where m = "kbytes s1"]) (auto simp: k2 k3 block_def u)
  have z: "sees (kbytes s') (res + 24) (be32_bytes 0)"
    using put_bytes_sees [of "res + 24" "be32_bytes 0" s1] b(1)
    by (subst sees_cong [where m = "kbytes s2"]) (auto simp: k3 block_def u s2_def)
  have "region (kbytes s2) from (unat n) = region (kbytes s) from (unat n)"
  proof (rule region_block [OF v(2)])
    fix a :: u64 assume "unat a \<in> block from (unat n)"
    then have "unat a \<notin> block res 65536"
      using v(3) by blast
    then have "unat a \<notin> block (res + 24) 4" "unat a \<notin> block res 16"
      by (auto simp: block_def u)
    then show "kbytes s2 a = kbytes s a"
      using h(2) by (simp add: k2)
  qed
  then have "region (kbytes s') (res + 28) (unat n) = v"
    using memcpy_region [of "res + 28" "ucast n" "from" s2] b(1) n v(1) by (simp add: s'2 u unat_upcast)
  then have "sees (kbytes s') (res + 28) v"
    using v(1) by (auto simp: sees_def)
  then have "sees (kbytes s') (res + 24) (be32_bytes 0 @ v)"
    using z by (simp add: sees_append add.assoc)
  moreover have "length (be32_bytes 0 @ v) = 4 + unat n"
    using v(1) by auto
  ultimately show "response PROTOCOL_BINARY_CMD_GET 4 st (be32_bytes 0 @ v) opq (region (kbytes s') res (28 + unat n))"
    using response_written [of "kbytes s'" res PROTOCOL_BINARY_CMD_GET 4 st "be32_bytes 0 @ v" opq] hd o(2) n(2) by simp
qed

lemma memcpy_nothing: "memcpy d from 0 s = s"
  by (simp add: memcpy_def)

lemma packet_start: "on_wire r xs \<Longrightarrow> servable C r \<Longrightarrow> 24 \<le> length xs"
  using on_wire_length by (cases r) auto

lemma written_item: "items (response_header res opc ext st bl req s) it = items s it"
  "item_value (put_bytes d xs (response_header res opc ext st bl req s)) it = item_value s it"
  by (simp_all add: response_header_fields item_value_def)

lemma write_get_frame:
  "seg_frame t (write_get res req st bl from n t)" "items (write_get res req st bl from n t) = items t"
  "nbuckets (write_get res req st bl from n t) = nbuckets t" "buckets (write_get res req st bl from n t) = buckets t"
  for t :: "'a kvs_scheme"
proof -
  show "seg_frame t (write_get res req st bl from n t)"
    by (rule seg_frame_same) (simp_all add: write_get_def response_header_fields)
qed (simp_all add: write_get_def response_header_fields)

lemma u32_small: "n < 2 ^ 16 \<Longrightarrow> unat (of_nat n :: u32) = n"
  by (simp add: unat_of_nat take_bit_nat_eq_self)

lemma ucast_of_nat16: "(ucast (of_nat k :: u32) :: u16) = of_nat k"
  by (rule word_unat_eq_iff [THEN iffD2]) (simp add: unsigned_ucast_eq unsigned_of_nat take_bit_take_bit)

lemma request_done_fields:
  assumes "idle c"
  shows "request_done (of_nat m) (of_nat n) (c\<lparr>c_it := it, c_req_done := True\<rparr>) =
    c\<lparr>c_it := it, c_rx_off := c_rx_off c + of_nat m, c_tx_len := of_nat n\<rparr>"
  using assms by (simp add: request_done_def idle_def ucast_of_nat16)

text \<open>What is left to show of a request once its writes to the response buffer are known.\<close>

lemma answeredI:
  assumes "idle c" and "answers M r (region (kbytes s') (c_tx_buf c) n)" and "0 < n" "n < 2 ^ 16" "n \<le> 28 + unat (valuesize C)"
    and "arena C s' = arena C s" and "\<And>a. unat a \<notin> arena C s \<Longrightarrow> unat a \<notin> block (c_tx_buf c) 65536 \<Longrightarrow> kbytes s' a = kbytes s a"
  shows "answered C M r c s (request_done (of_nat (request_size r)) (of_nat n) (c\<lparr>c_it := it, c_req_done := True\<rparr>)) s'"
proof -
  have "unat (of_nat n :: u16) = n"
    using assms(4) by (simp add: unat_of_nat take_bit_nat_eq_self)
  then show ?thesis
    using assms by (simp add: answered_def request_done_fields word_gt_0 unat_gt_0 flip: unat_gt_0)
qed

text \<open>A get request: what it leaves, as a relation between the states before and after.\<close>

definition get_done :: "settings \<Rightarrow> segment_source \<Rightarrow> (u64 \<Rightarrow> u64 \<Rightarrow> 'a kvs_scheme \<Rightarrow> 'a kvs_scheme) \<Rightarrow> (u8 list \<Rightarrow> u8 list option) \<Rightarrow>
    u8 list \<Rightarrow> u8 list \<Rightarrow> item_allocator \<Rightarrow> server_connection \<Rightarrow> socket \<Rightarrow> 'a kvs_scheme \<Rightarrow> server_connection \<Rightarrow> 'a kvs_scheme \<Rightarrow> bool" where
  "get_done C src D M opq key ia c k s c' s' \<longleftrightarrow>
     conn_req_process C src D ia c k s = Some (0, ia, c', k, s') \<and> store_ok C src ia M s' \<and> seg_frame s s' \<and>
     answered C M (Get_key opq key) c s c' s' \<and> items s' = items s \<and> nbuckets s' = nbuckets s \<and> buckets s' = buckets s \<and>
     (\<forall>a. unat a \<notin> block (c_tx_buf c) 65536 \<longrightarrow> kbytes s' a = kbytes s a) \<and>
     (M key \<noteq> None \<longrightarrow> hasht_get (c_rx_buf c + ucast (c_rx_off c) + GET_HEADER) (ucast (of_nat (length key) :: u16)) (hash_string key) s =
        Some (c_it c', item_ref (c_it c') s))"

lemma get_doneI:
  assumes ok: "store_ok C src ia M s" and b: "buffers_ok C c s" and c: "idle c" and nb: "28 + n < 2 ^ 16" "n \<le> unat (valuesize C)"
    and run: "conn_req_process C src D ia c k s =
      Some (0, ia, request_done (of_nat (24 + length key)) (of_nat (28 + n)) (c\<lparr>c_it := it, c_req_done := True\<rparr>), k, s')"
    and fr: "seg_frame s s'" and i: "items s' = items s" "nbuckets s' = nbuckets s" "buckets s' = buckets s"
    and kb: "\<And>a. unat a \<notin> block (c_tx_buf c) 65536 \<Longrightarrow> kbytes s' a = kbytes s a"
    and ans: "answers M (Get_key opq key) (region (kbytes s') (c_tx_buf c) (28 + n))"
    and found: "M key \<noteq> None \<Longrightarrow>
      hasht_get (c_rx_buf c + ucast (c_rx_off c) + GET_HEADER) (ucast (of_nat (length key) :: u16)) (hash_string key) s = Some (it, item_ref it s)"
  shows "\<exists>c' s'. get_done C src D M opq key ia c k s c' s'"
proof -
  have "block (c_tx_buf c) 65536 \<subseteq> block (c_tx_buf c) 1000000" "block (c_tx_buf c) 1000000 \<inter> arena C s = {}"
    using b by (auto simp: buffers_ok_def outside_def block_def)
  then have tx: "block (c_tx_buf c) 65536 \<inter> arena C s = {}"
    by blast
  have "store_ok C src ia M s'"
    by (rule store_ok_outside [OF ok fr]) (use tx kb i in auto)
  moreover have "answered C M (Get_key opq key) c s
      (request_done (of_nat (24 + length key)) (of_nat (28 + n)) (c\<lparr>c_it := it, c_req_done := True\<rparr>)) s'"
    using answeredI [OF c ans, of C s it] nb kb seg_frame_alloc(3) [OF fr, of C] by simp
  moreover have "c_it (request_done (of_nat (24 + length key)) (of_nat (28 + n)) (c\<lparr>c_it := it, c_req_done := True\<rparr>)) = it"
    by (simp add: request_done_def)
  ultimately show ?thesis
    using run fr i kb found unfolding get_done_def by metis
qed

text \<open>The packet of a get request in the receive buffer.\<close>

lemma get_in_buffer:
  assumes b: "buffers_ok C c s" and w: "on_wire (Get_key opq key) xs" and sv: "servable C (Get_key opq key)" and req: "req = c_rx_buf c + ucast (c_rx_off c)"
    and m: "sees (kbytes s) req xs" and n: "unat (c_rx_off c) + length xs < 2 ^ 16"
  shows "region (kbytes s) (req + GET_HEADER) (unat (ucast (of_nat (length key) :: u16) :: u64)) = key"
    and "jenkins_hash (kbytes s) (req + GET_HEADER) (ucast (of_nat (length key) :: u16)) = hash_string key"
    and "unat (c_rx_off c) + 16 < 2 ^ 16"
proof -
  have l: "length opq = 4" "length key < 2 ^ 16"
    using sv by simp_all
  note p = get_packet(6) [OF w l(1) m]
  have kl: "unat (ucast (of_nat (length key) :: u16) :: u64) = length key"
    using l(2) by (simp add: unat_upcast unat_of_nat take_bit_nat_eq_self)
  show "region (kbytes s) (req + GET_HEADER) (unat (ucast (of_nat (length key) :: u16) :: u64)) = key"
    using p unfolding kl by (simp add: sees_def)
  show "jenkins_hash (kbytes s) (req + GET_HEADER) (ucast (of_nat (length key) :: u16)) = hash_string key"
    by (rule hash_at [OF p l(2)])
  show "unat (c_rx_off c) + 16 < 2 ^ 16"
    using n packet_start [OF w sv] by simp
qed

lemma process_get_miss:
  assumes ok: "store_ok C src ia M s" and b: "buffers_ok C c s" and c: "idle c" and w: "on_wire (Get_key opq key) xs" and sv: "servable C (Get_key opq key)"
    and req: "req = c_rx_buf c + ucast (c_rx_off c)" and m: "sees (kbytes s) req xs" and n: "unat (c_rx_off c) + length xs < 2 ^ 16" and new: "M key = None"
  shows "\<exists>c' s'. get_done C src D M opq key ia c k s c' s'"
proof -
  let ?tx = "c_tx_buf c"
  obtain fs L ov where sp: "store_parts C src ia M fs L ov s"
    using ok by (auto simp: store_ok_def)
  have l: "length opq = 4"
    using sv by simp
  note g = get_in_buffer [OF b w sv req m n] and p = get_packet [OF w l m]
  note bp = buffer_parts [OF b g(3) req]
  define s' where "s' = write_get ?tx req RESPONSE_KEY_ENOENT 4 0 0 s"
  have r: "response PROTOCOL_BINARY_CMD_GET 4 RESPONSE_KEY_ENOENT (be32_bytes 0 @ []) opq (region (kbytes s') ?tx (28 + unat (0 :: u32)))"
    and kb: "\<And>a. unat a \<notin> block ?tx 65536 \<Longrightarrow> kbytes s' a = kbytes s a"
    by (rule write_get_spec [OF bp(2,1,3) p(5) l _ _ _ _ _ s'_def]; simp add: block_def)+
  have run: "conn_req_process C src D ia c k s =
      Some (0, ia, request_done (of_nat (24 + length key)) (of_nat 28) (c\<lparr>c_it := NULL, c_req_done := True\<rparr>), k, s')"
    using c lookup_miss [OF sp g(1) new] g(2)
    by (simp add: conn_req_process_def do_get_def idle_def Let_def p g(1) flip: req) (simp add: s'_def write_get_def memcpy_nothing c_consts)
  show ?thesis
    by (rule get_doneI [OF ok b c, of 0]) (use run r kb new in \<open>simp_all add: s'_def write_get_frame\<close>)
qed

text \<open>The value that is copied into the response.\<close>

lemma item_value_parts:
  assumes "vallen (items s it) = ucast z" "unat it + isize s it < 2 ^ 64" "block it (isize s it) \<subseteq> A" and z: "unat (ucast z :: u32) = unat z"
  shows "unat (item_value s it) + unat z < 2 ^ 64" "block (item_value s it) (unat z) \<subseteq> A"
proof -
  have "unat (item_value s it) = unat it + 24 + unat (keylen (items s it))" "isize s it = 24 + unat (keylen (items s it)) + unat z"
    using unat_item_parts(2) [of it "keylen (items s it)" "unat z"] assms by (simp_all add: item_value_def isize_def)
  then show "unat (item_value s it) + unat z < 2 ^ 64" "block (item_value s it) (unat z) \<subseteq> A"
    using assms(2,3) by (auto simp: block_def subset_iff)
qed

lemma response_size:
  assumes "28 + unat z < 2 ^ 16" and "unat (ucast z :: u32) = unat z"
  shows "4 + ucast z = (of_nat (4 + unat z) :: u32)" "GET_RESPONSE + ucast z = (of_nat (28 + unat z) :: u32)"
    "\<not> ucast MAX_MSGSIZE < (of_nat (28 + unat z) :: u32)"
proof -
  show "4 + ucast z = (of_nat (4 + unat z) :: u32)" "GET_RESPONSE + ucast z = (of_nat (28 + unat z) :: u32)"
    using assms by (auto intro!: word_unat_eq_iff [THEN iffD2] simp: c_consts unat_word_ariths unat_of_nat take_bit_nat_eq_self)
  show "\<not> ucast MAX_MSGSIZE < (of_nat (28 + unat z) :: u32)"
    unfolding word_less_nat_alt u32_small [OF assms(1)] using assms(1) by (simp add: c_consts)
qed

lemma process_get_hit:
  assumes ok: "store_ok C src ia M s" and b: "buffers_ok C c s" and c: "idle c" and w: "on_wire (Get_key opq key) xs" and sv: "servable C (Get_key opq key)"
    and req: "req = c_rx_buf c + ucast (c_rx_off c)" and m: "sees (kbytes s) req xs" and n: "unat (c_rx_off c) + length xs < 2 ^ 16" and old: "M key = Some v"
  shows "\<exists>c' s'. get_done C src D M opq key ia c k s c' s'"
proof -
  let ?tx = "c_tx_buf c" and ?z = "valuesize C" and ?kl = "ucast (of_nat (length key) :: u16) :: u64"
  obtain fs L ov where sp: "store_parts C src ia M fs L ov s"
    using ok by (auto simp: store_ok_def)
  have l: "length opq = 4" "28 + unat ?z < 2 ^ 16"
    using sv by simp_all
  note g = get_in_buffer [OF b w sv req m n] and p = get_packet [OF w l(1) m]
  note bp = buffer_parts [OF b g(3) req]
  from lookup_hit [OF sp g(1) old] obtain it where it: "hasht_get (req + GET_HEADER) ?kl (hash_string key) s = Some (it, item_ref it s)"
    "it \<noteq> NULL" "vallen (items s it) = ucast ?z" "refcount (items s it) = 1" "ivalue s it = v"
    "block it (isize s it) \<subseteq> arena C s" "unat it + isize s it < 2 ^ 64"
    by metis
  define s1 where "s1 = item_ref it s"
  define s2 where "s2 = write_get ?tx req RESPONSE_SUCCESS (4 + ucast ?z) (item_value s it) (ucast ?z) s1"
  define s' where "s' = upd_item it (\<lambda>x. x\<lparr>refcount := refcount x - 1\<rparr>) s2"
  have z: "unat (ucast ?z :: u32) = unat ?z"
    using l(2) by (simp add: unsigned_ucast_eq take_bit_nat_eq_self)
  have i1: "items s1 it = (items s it)\<lparr>refcount := 2\<rparr>" "kbytes s1 = kbytes s"
    by (simp_all add: s1_def item_ref_def it)
  note vb = item_value_parts [OF it(3,7,6) z] and rs = response_size [OF l(2) z]
  have "block ?tx 65536 \<inter> block (item_value s it) (unat ?z) = {}"
    using vb(2) bp(5) by blast
  then have W: "sees (kbytes s1) (req + 12) opq" "region (kbytes s1) (item_value s it) (unat (ucast ?z :: u32)) = v"
    "unat (item_value s it) + unat (ucast ?z :: u32) < 2 ^ 64" "block ?tx 65536 \<inter> block (item_value s it) (unat (ucast ?z :: u32)) = {}"
    "28 + unat (ucast ?z :: u32) < 65536" "4 + ucast ?z = (of_nat (4 + unat (ucast ?z :: u32)) :: u32)"
    using p(5) it(3,5) vb(1) l(2) rs(1) unfolding i1(2) z by (simp_all add: ivalue_def z)
  have r: "response PROTOCOL_BINARY_CMD_GET 4 RESPONSE_SUCCESS (be32_bytes 0 @ v) opq (region (kbytes s2) ?tx (28 + unat ?z))"
    and kb: "\<And>a. unat a \<notin> block ?tx 65536 \<Longrightarrow> kbytes s2 a = kbytes s a"
    using write_get_spec [OF bp(2,1,3) W(1) l(1) W(2-6) s2_def] unfolding i1(2) z by blast+
  have i2: "items s' = items s" "kbytes s' = kbytes s2" "nbuckets s' = nbuckets s" "buckets s' = buckets s"
    by (auto simp: s'_def s2_def write_get_frame s1_def item_ref_def it fun_eq_iff)
  have unref: "item_unref C it s2 = Some s'"
    unfolding s'_def by (rule item_unref_shared) (simp_all add: s2_def write_get_frame i1)
  have vs: "vallen (items s1 it) = ucast ?z" "item_value s1 it = item_value s it"
    by (simp_all add: i1 it(3) item_value_def)
  have hdr: "memcpy (?tx + ucast GET_RESPONSE) (item_value s it) (ucast (ucast ?z :: u32))
      (put_bytes (?tx + 24) (be32_bytes 0) (response_header ?tx PROTOCOL_BINARY_CMD_GET 4 RESPONSE_SUCCESS (4 + ucast ?z) req s1)) = s2"
    by (simp add: s2_def write_get_def c_consts)
  have run: "conn_req_process C src D ia c k s =
      Some (0, ia, request_done (of_nat (24 + length key)) (of_nat (28 + unat ?z)) (c\<lparr>c_it := it, c_req_done := True\<rparr>), k, s')"
    using unref rs(2,3) vs hdr c it(1,2) g(2)
    by (simp add: conn_req_process_def do_get_def idle_def Let_def p g(1) flip: req s1_def)
      (simp add: vs written_item hdr GET_HEADER_def)
  have fr: "seg_frame s s'"
    by (rule seg_frame_same) (simp_all add: s'_def s2_def write_get_def response_header_fields s1_def item_ref_def)
  show ?thesis
    by (rule get_doneI [OF ok b c l(2) order_refl run fr i2(1,3,4)]) (use kb r old it(1) in \<open>simp_all add: i2(2) flip: req\<close>)
qed

lemma process_get:
  assumes "store_ok C src ia M s" and "buffers_ok C c s" and "idle c" and "on_wire (Get_key opq key) xs" and "servable C (Get_key opq key)"
    and "sees (kbytes s) (c_rx_buf c + ucast (c_rx_off c)) xs" and "unat (c_rx_off c) + length xs < 2 ^ 16"
  shows "\<exists>c' s'. get_done C src D M opq key ia c k s c' s'"
  using process_get_miss [OF assms(1-5) refl assms(6,7)] process_get_hit [OF assms(1-5) refl assms(6,7)] by (cases "M key") auto

text \<open>A set request of the protocol, as the benchmark would make it from the same memory.\<close>

definition packet_key :: "u64 \<Rightarrow> nat \<Rightarrow> key_ref" where
  "packet_key req n = \<lparr>key_ptr = req + SET_HEADER, key_len = of_nat n\<rparr>"

definition packet_buffer :: "u64 \<Rightarrow> connection" where
  "packet_buffer req = \<lparr>tx_len = 0, tx_off = 0, tx_buf = req\<rparr>"

lemma packet_request:
  assumes w: "on_wire (Set_key opq key val) xs" and sv: "servable C (Set_key opq key val)" and m: "sees (kbytes s) req xs"
    and b: "unat req + length xs < 2 ^ 64" "block req (length xs) \<inter> arena C s = {}"
  shows "request_ok C (packet_buffer req) (packet_key req (length key)) s"
    and "key_bytes (packet_key req (length key)) s = key" and "set_value C (packet_buffer req) (packet_key req (length key)) s = val"
proof -
  have l: "length opq = 4" "length key < 2 ^ 16" "length val = unat (valuesize C)" "24 + length key + length val < unat (segsize C)"
    using sv by simp_all
  have n: "length xs = 32 + length key + length val"
    using on_wire_length [OF w sv] by simp
  have k: "unat (of_nat (length key) :: u64) = length key"
    using l(2) by (simp add: unat_of_nat take_bit_nat_eq_self)
  have u: "unat (req + SET_HEADER) = unat req + 32" "unat (req + SET_HEADER + of_nat (length key)) = unat req + 32 + length key"
    using unat_offset [OF b(1), of 32] unat_offset [OF b(1), of "32 + length key"] n by (simp_all add: c_consts add.assoc)
  have "block (req + SET_HEADER) (length key) \<subseteq> block req (length xs)"
    "block (req + SET_HEADER + of_nat (length key)) (length val) \<subseteq> block req (length xs)"
    by (auto simp: block_def u n)
  then show "request_ok C (packet_buffer req) (packet_key req (length key)) s"
    using b l by (auto simp: request_ok_def packet_buffer_def packet_key_def outside_def value_ptr_def k u n)
  show "key_bytes (packet_key req (length key)) s = key" "set_value C (packet_buffer req) (packet_key req (length key)) s = val"
    using set_packet(7,8) [OF w l(1) m] l(3)
    by (simp_all add: key_bytes_def set_value_def value_ptr_def packet_key_def packet_buffer_def k sees_def)
qed

lemma do_set_steps:
  assumes st: "set_steps C src (packet_buffer req) (packet_key req n) ia s it ia' s'" and c: "\<not> c_req_done c" and n: "n < 2 ^ 16"
    and kb: "key_bytes (packet_key req n) s = key" and vl: "vl = ucast (valuesize C)" "unat (valuesize C) < 2 ^ 16"
  shows "do_set C src req (of_nat n) vl ia c s = Some (ia', c\<lparr>c_it := it, c_req_done := True\<rparr>, s')"
proof -
  have k: "(ucast (of_nat n :: u16) :: u64) = of_nat n"
    by (rule word_unat_eq_iff [THEN iffD2]) (use n in \<open>simp add: unat_upcast unat_of_nat take_bit_nat_eq_self\<close>)
  have k2: "(ucast (of_nat n :: u64) :: u16) = of_nat n"
    by (rule word_unat_eq_iff [THEN iffD2]) (simp add: unsigned_ucast_eq unsigned_of_nat take_bit_take_bit)
  have v: "(ucast (ucast (valuesize C) :: u32) :: u64) = ucast (valuesize C)"
    by (rule word_unat_eq_iff [THEN iffD2]) (use vl(2) in \<open>simp add: unsigned_ucast_eq take_bit_nat_eq_self\<close>)
  have h: "jenkins_hash (kbytes s) (req + SET_HEADER) (of_nat n) = hash_string key"
    using request_hash [of s "packet_key req n"] kb by (simp add: packet_key_def)
  note set_steps_def [unfolded Let_def, of C src "packet_buffer req" "packet_key req n" ia s it ia' s', unfolded kb]
  then show ?thesis
    using st c unfolding do_set_def Let_def
    by (auto simp: packet_key_def packet_buffer_def value_ptr_def k k2 v h vl(1))
qed

lemma response_header_frame: "seg_frame t (response_header res opc ext st bl req t)" for t :: "'a kvs_scheme"
  by (rule seg_frame_same) (simp_all add: response_header_fields)

lemma set_lengths:
  assumes "length key < 2 ^ 16" and "length val = unat (valuesize C)" "unat (valuesize C) < 2 ^ 16"
  shows "of_nat (8 + length key + length val) - ucast (of_nat (length key) :: u16) - ucast (8 :: u8) = (ucast (valuesize C) :: u32)"
proof -
  have "(ucast (of_nat (length key) :: u16) :: u32) = of_nat (length key)"
    by (rule word_unat_eq_iff [THEN iffD2]) (use assms(1) in \<open>simp add: unsigned_ucast_eq unsigned_of_nat take_bit_nat_eq_self\<close>)
  moreover have "(of_nat (length val) :: u32) = ucast (valuesize C)"
    by (rule word_unat_eq_iff [THEN iffD2]) (use assms(2,3) in \<open>simp add: unat_of_nat unsigned_ucast_eq\<close>)
  ultimately show ?thesis
    by simp
qed

text \<open>The header of a response, written when memory has changed inside the segments only.\<close>

lemma set_response:
  assumes b: "buffers_ok C c s" and n: "unat (c_rx_off c) + n < 2 ^ 16" "16 \<le> n" and req: "req = c_rx_buf c + ucast (c_rx_off c)"
    and o: "sees (kbytes s) (req + 12) opq" "length opq = 4" and k1: "\<And>a. unat a \<notin> arena C s \<Longrightarrow> kbytes s1 a = kbytes s a"
    and s': "s' = response_header (c_tx_buf c) opc ext st 0 req s1"
  shows "response opc ext st [] opq (region (kbytes s') (c_tx_buf c) 24)"
    and "\<And>a. unat a \<notin> block (c_tx_buf c) 65536 \<Longrightarrow> kbytes s' a = kbytes s1 a"
proof -
  let ?tx = "c_tx_buf c"
  note bp = buffer_parts [OF b n(1) req]
  have d16: "unat ?tx + 16 < 2 ^ 64" "unat req + 16 < 2 ^ 64" "block ?tx 16 \<inter> block req 16 = {}"
    using bp n(2) by (auto simp: block_def)
  have "sees (kbytes s1) (req + 12) opq"
  proof (subst sees_cong [where m = "kbytes s"])
    have u: "unat (req + 12) = unat req + 12"
      using unat_offset [OF bp(1), of 12] n(2) by simp
    then show "unat (req + 12) + length opq < 2 ^ 64"
      using bp(1) n(2) o(2) by simp
    show "kbytes s1 a = kbytes s a" if "unat a \<in> block (req + 12) (length opq)" for a
    proof (rule k1)
      have "unat a \<in> block req n"
        using that n(2) o(2) by (auto simp: block_def u)
      then show "unat a \<notin> arena C s"
        using bp(4) by blast
    qed
  qed (rule o(1))
  note h = response_header_bytes [OF d16 this o(2) s']
  show "response opc ext st [] opq (region (kbytes s') ?tx 24)"
    using response_written [of "kbytes s'" ?tx opc ext st "[]" opq] h(1) o(2) by simp
  show "kbytes s' a = kbytes s1 a" if "unat a \<notin> block ?tx 65536" for a
    using h(2) that by (auto simp: block_def)
qed

lemma process_set:
  assumes ok: "store_ok C src ia M s" and b: "buffers_ok C c s" and c: "idle c" and w: "on_wire (Set_key opq key val) xs"
    and sv: "servable C (Set_key opq key val)"
    and m: "sees (kbytes s) (c_rx_buf c + ucast (c_rx_off c)) xs" and n: "unat (c_rx_off c) + length xs < 2 ^ 16"
    and room: "M key \<noteq> None \<or> has_room C src (packet_key (c_rx_buf c + ucast (c_rx_off c)) (length key)) ia s"
  shows "\<exists>ia' c' s'. conn_req_process C src D ia c k s = Some (0, ia', c', k, s') \<and> store_ok C src ia' (M(key \<mapsto> val)) s' \<and>
    answered C M (Set_key opq key val) c s c' s' \<and>
    (if M key = None then fresh_item C src (packet_key (c_rx_buf c + ucast (c_rx_off c)) (length key)) ia s ia' s' else ia' = ia \<and> seg_frame s s')"
proof -
  define req where "req = c_rx_buf c + ucast (c_rx_off c)"
  let ?tx = "c_tx_buf c" and ?k = "packet_key req (length key)" and ?co = "packet_buffer req"
  have l: "length opq = 4" "length key < 2 ^ 16" "length val = unat (valuesize C)" "unat (valuesize C) < 2 ^ 16"
    using sv by simp_all
  have xs: "length xs = 32 + length key + length val"
    using on_wire_length [OF w sv] by simp
  note bp = buffer_parts [OF b n req_def]
  note p = set_packet [OF w l(1) m, folded req_def]
  note q = packet_request [OF w sv m [folded req_def] bp(1,4)]
  from set_request_steps [OF ok q(1), unfolded q(2,3)] room [folded req_def] obtain it ia' s1 fs L ov where
    st: "set_steps C src ?co ?k ia s it ia' s1" "store_parts C src ia' (M(key \<mapsto> val)) fs L ov s1" "arena C s1 = arena C s"
    and k1: "\<And>a. unat a \<notin> arena C s \<Longrightarrow> kbytes s1 a = kbytes s a"
    and pl: "if M key = None then fresh_item C src ?k ia s ia' s1 else ia' = ia \<and> seg_frame s s1"
    by metis
  have nn: "it \<noteq> NULL"
    using st(1) by (simp add: set_steps_def Let_def)
  have vl: "be32 (kbytes s) (req + 8) - ucast (of_nat (length key) :: u16) - ucast (8 :: u8) = (ucast (valuesize C) :: u32)"
    unfolding p(5) by (rule set_lengths [OF l(2-4)])
  have ds: "do_set C src req (of_nat (length key)) (ucast (valuesize C)) ia c s = Some (ia', c\<lparr>c_it := it, c_req_done := True\<rparr>, s1)"
    by (rule do_set_steps [OF st(1) _ l(2) q(2) refl l(4)]) (use c in \<open>simp add: idle_def\<close>)
  define s' where "s' = response_header ?tx PROTOCOL_BINARY_CMD_SET 0 RESPONSE_SUCCESS 0 req s1"
  have run: "conn_req_process C src D ia c k s =
      Some (0, ia', request_done (of_nat (request_size (Set_key opq key val))) (of_nat 24) (c\<lparr>c_it := it, c_req_done := True\<rparr>), k, s')"
    using c nn ds p(1-4) vl
    by (simp add: conn_req_process_def idle_def Let_def c_consts(1) flip: req_def) (simp add: p(5) s'_def c_consts add.assoc)
  note w' = set_response [OF b n _ req_def p(6) l(1) k1 s'_def]
  have fr: "seg_frame s1 s'"
    unfolding s'_def by (rule response_header_frame)
  have "store_ok C src ia' (M(key \<mapsto> val)) s'"
  proof (rule store_ok_outside [OF _ fr])
    show "store_ok C src ia' (M(key \<mapsto> val)) s1"
      using st(2) by (auto simp: store_ok_def)
    show "kbytes s' a = kbytes s1 a" if "unat a \<in> arena C s1" for a
      using that bp(5) st(3) by (intro w'(2)) (auto simp: xs)
  qed (simp_all add: s'_def response_header_fields)
  moreover have "answered C M (Set_key opq key val) c s
      (request_done (of_nat (request_size (Set_key opq key val))) (of_nat 24) (c\<lparr>c_it := it, c_req_done := True\<rparr>)) s'"
  proof (rule answeredI [OF c])
    show "answers M (Set_key opq key val) (region (kbytes s') ?tx 24)"
      using w'(1) xs by simp
    show "arena C s' = arena C s"
      using seg_frame_alloc(3) [OF fr] st(3) by simp
    show "kbytes s' a = kbytes s a" if "unat a \<notin> arena C s" "unat a \<notin> block ?tx 65536" for a
      using that w'(2) k1 xs by simp
  qed simp_all
  moreover have "if M key = None then fresh_item C src ?k ia s ia' s' else ia' = ia \<and> seg_frame s s'"
    using pl seg_frame_trans [OF _ fr] by (auto simp: fresh_item_def)
  ultimately show ?thesis
    using run unfolding req_def by blast
qed

end
