(* ===== verification/Kvs_Stream.thy ===== *)
theory Kvs_Stream
  imports Kvs_Protocol
begin

text \<open>
  Streams of requests: the server cuts the bytes it receives into requests, however they are split over reads,
  and sends the answers in order, however they are split over writes.
\<close>

section \<open>Any request\<close>

definition is_set :: "request \<Rightarrow> bool" where
  "is_set r \<longleftrightarrow> (\<exists>opq key val. r = Set_key opq key val)"

text \<open>The set requests have keys of one length, for which the free places of the store can be counted.\<close>

definition key_length :: "nat \<Rightarrow> request \<Rightarrow> bool" where
  "key_length len r \<longleftrightarrow> (\<forall>opq key val. r = Set_key opq key val \<longrightarrow> length key = len)"

text \<open>A store with room for \<open>n\<close> new items.\<close>

definition store_for :: "settings \<Rightarrow> segment_source \<Rightarrow> nat \<Rightarrow> nat \<Rightarrow> item_allocator \<Rightarrow> (u8 list \<rightharpoonup> u8 list) \<Rightarrow> 'a kvs_scheme \<Rightarrow> bool" where
  "store_for C src len n ia M s \<longleftrightarrow> store_ok C src ia M s \<and> all_segments C src s \<and> n \<le> item_places C (of_nat len) ia s"

definition sets :: "request list \<Rightarrow> nat" where
  "sets rs = length (filter is_set rs)"

lemma sets_simps [simp]: "sets [] = 0" "sets (Get_key opq key # rs) = sets rs" "sets (Set_key opq key val # rs) = Suc (sets rs)"
  "sets (rs @ rs') = sets rs + sets rs'"
  by (simp_all add: sets_def is_set_def)

lemma process_request:
  assumes st: "store_for C src len (sets [r] + n) ia M s" and b: "buffers_ok C c s" and c: "idle c" and w: "on_wire r xs"
    and sv: "servable C r" "key_length len r"
    and m: "sees (kbytes s) (c_rx_buf c + ucast (c_rx_off c)) xs" and off: "unat (c_rx_off c) + length xs < 2 ^ 16"
  shows "\<exists>ia' c' s'. conn_req_process C src D ia c k s = Some (0, ia', c', k, s') \<and> store_for C src len n ia' (effect M r) s' \<and>
    answered C M r c s c' s'"
proof (cases r)
  case (Get_key opq key)
  from process_get [OF _ b c w [unfolded Get_key] sv(1) [unfolded Get_key] m off, of src ia M D k] st obtain c' s' where
    s': "conn_req_process C src D ia c k s = Some (0, ia, c', k, s')" "store_ok C src ia M s'" "seg_frame s s'" "answered C M r c s c' s'"
    unfolding store_for_def Get_key get_done_def by blast
  have "store_for C src len n ia M s'"
    using st s'(2) seg_frame_places [OF s'(3)] by (simp add: store_for_def Get_key item_places_def)
  then show ?thesis
    using s' Get_key by auto
next
  case (Set_key opq key val)
  define req where "req = c_rx_buf c + ucast (c_rx_off c)"
  let ?k = "packet_key req (length key)"
  have st': "store_ok C src ia M s" "all_segments C src s" "Suc n \<le> item_places C (key_len ?k) ia s"
    using st sv(2) by (simp_all add: store_for_def Set_key key_length_def packet_key_def)
  note q = packet_request [OF w [unfolded Set_key] sv(1) [unfolded Set_key] m buffer_parts(1,4) [OF b off refl], folded req_def]
  have "has_room C src ?k ia s"
    using places_room [OF st'(1) q(1) st'(2)] st'(3) by simp
  then obtain ia' c' s' where
    s': "conn_req_process C src D ia c k s = Some (0, ia', c', k, s')" "store_ok C src ia' (M(key \<mapsto> val)) s'" "answered C M r c s c' s'"
    and f: "if M key = None then fresh_item C src ?k ia s ia' s' else ia' = ia \<and> seg_frame s s'"
    using process_set [OF st'(1) b c w [unfolded Set_key] sv(1) [unfolded Set_key] m off, of D k] unfolding req_def Set_key by blast
  have "store_for C src len n ia' (effect M r) s'"
    using s'(2) set_places [OF st'(1) q(1) st'(2) f] st'(3) sv(2) by (simp add: store_for_def Set_key key_length_def packet_key_def)
  then show ?thesis
    using s' by blast
qed

section \<open>Sending\<close>

text \<open>The peer takes at least one byte in each of the next \<open>n\<close> writes.\<close>

definition willing :: "nat \<Rightarrow> socket \<Rightarrow> bool" where
  "willing n k \<longleftrightarrow> n \<le> length (to_write k) \<and> (\<forall>w\<in>set (to_write k). \<exists>m>0. w = Accepts m)"

text \<open>What \<open>xs\<close>, sent in some number of writes, does to the socket.\<close>

definition sent_off :: "u8 list \<Rightarrow> socket \<Rightarrow> socket \<Rightarrow> bool" where
  "sent_off xs k k' \<longleftrightarrow> (\<exists>w \<le> length xs. k' = k\<lparr>to_write := drop w (to_write k), sent := sent k @ xs\<rparr>)"

lemma sent_off_trans: "sent_off xs k k' \<Longrightarrow> sent_off ys k' k'' \<Longrightarrow> sent_off (xs @ ys) k k''"
  unfolding sent_off_def by (elim exE conjE, rule_tac x = "w + wa" in exI) (simp add: add.commute)

lemma sent_off_willing: "sent_off xs k k' \<Longrightarrow> willing (length xs + n) k \<Longrightarrow> willing n k'"
  unfolding sent_off_def willing_def by (elim exE conjE) (auto dest!: in_set_dropD)

lemma conn_send_all:
  assumes "region (kbytes s) (c_tx_buf c + ucast (c_tx_off c)) (unat (c_tx_len c) - unat (c_tx_off c)) = xs"
    and "c_tx_off c < c_tx_len c" and "willing (length xs) k"
  shows "\<exists>k'. conn_send C c k s = Some (0, c\<lparr>c_tx_off := 0, c_tx_len := 0\<rparr>, k', s) \<and> sent_off xs k k'"
  using assms
proof (induction "length xs" arbitrary: c k xs rule: less_induct)
  case less
  let ?n = "unat (c_tx_len c) - unat (c_tx_off c)"
  have lt: "unat (c_tx_off c) < unat (c_tx_len c)" "unat (c_tx_len c) < 2 ^ 16"
    using less.prems(2) unsigned_less [of "c_tx_len c", where 'a = nat] by (simp_all add: word_less_nat_alt)
  have len: "length xs = ?n" "0 < length xs"
    using less.prems(1) lt by auto
  have n: "unat (ucast (c_tx_len c) - ucast (c_tx_off c) :: u64) = ?n"
    using lt by (subst unat_sub) (simp_all add: word_le_nat_alt unat_upcast)
  obtain m ws where w: "to_write k = Accepts m # ws" "0 < m"
    using less.prems(3) len(2) by (cases "to_write k") (auto simp: willing_def)
  define j where "j = min m (length xs)"
  define c1 where "c1 = c\<lparr>c_tx_off := c_tx_off c + of_nat j\<rparr>"
  define k1 where "k1 = k\<lparr>to_write := ws, sent := sent k @ take j xs\<rparr>"
  have j: "0 < j" "j \<le> length xs"
    using w(2) len(2) by (simp_all add: j_def)
  have tj: "take m xs = take j xs"
    by (simp add: j_def min_def)
  have off: "unat (c_tx_off c1) = unat (c_tx_off c) + j"
    using j len lt by (simp add: c1_def unat_word_ariths unat_of_nat take_bit_nat_eq_self)
  have run: "conn_send C c k s = (if c_tx_off c1 < c_tx_len c1 then conn_send C c1 k1 s else Some (0, c1\<lparr>c_tx_off := 0, c_tx_len := 0\<rparr>, k1, s))"
    using j tj by (subst conn_send.simps) (simp add: less.prems(1) n w(1) Let_def c1_def k1_def flip: j_def)
  have k1: "sent_off (take j xs) k k1"
    unfolding sent_off_def by (intro exI [of _ 1]) (use j in \<open>simp add: k1_def w(1)\<close>)
  show ?case
  proof (cases "j < length xs")
    case False
    then have "take j xs = xs" "\<not> c_tx_off c1 < c_tx_len c1"
      using j off len lt by (simp_all add: word_less_nat_alt c1_def)
    then show ?thesis
      using run k1 by (simp add: c1_def)
  next
    case True
    have "region (kbytes s) (c_tx_buf c1 + ucast (c_tx_off c1)) (unat (c_tx_len c1) - unat (c_tx_off c1)) = drop j xs"
    proof -
      have "(ucast (c_tx_off c1) :: u64) = ucast (c_tx_off c) + of_nat j"
        by (rule word_unat_eq_iff [THEN iffD2])
          (use off lt j len in \<open>simp add: unat_upcast unat_word_ariths unat_of_nat take_bit_nat_eq_self\<close>)
      then show ?thesis
        unfolding less.prems(1) [symmetric] region_drop off by (simp add: c1_def add.assoc)
    qed
    moreover have "c_tx_off c1 < c_tx_len c1"
      using True off len lt by (simp add: word_less_nat_alt c1_def)
    moreover have "willing (length (drop j xs)) k1"
      using less.prems(3) j sent_off_willing [OF k1, of "length xs - j"] by simp
    moreover have "length (drop j xs) < length xs"
      using j True by simp
    ultimately obtain k' where "conn_send C c1 k1 s = Some (0, c1\<lparr>c_tx_off := 0, c_tx_len := 0\<rparr>, k', s)" "sent_off (drop j xs) k1 k'"
      using less.hyps [of "drop j xs" c1 k1] by blast
    then show ?thesis
      using run sent_off_trans [OF k1, of "drop j xs" k'] \<open>c_tx_off c1 < c_tx_len c1\<close> by (simp add: c1_def)
  qed
qed

section \<open>A buffer full of requests\<close>

fun replies :: "(u8 list \<rightharpoonup> u8 list) \<Rightarrow> request list \<Rightarrow> u8 list \<Rightarrow> bool" where
  "replies M [] ys \<longleftrightarrow> ys = []"
| "replies M (r # rs) ys \<longleftrightarrow> (\<exists>xs zs. ys = xs @ zs \<and> answers M r xs \<and> replies (effect M r) rs zs)"

lemma replies_append: "replies M (rs @ rs') ys \<longleftrightarrow> (\<exists>xs zs. ys = xs @ zs \<and> replies M rs xs \<and> replies (foldl effect M rs) rs' zs)"
proof (induction rs arbitrary: M ys)
  case (Cons r rs)
  show ?case
  proof
    assume "replies M ((r # rs) @ rs') ys"
    then obtain a b c where "ys = a @ b @ c" "answers M r a" "replies (effect M r) rs b" "replies (foldl effect (effect M r) rs) rs' c"
      using Cons.IH by auto
    then show "\<exists>xs zs. ys = xs @ zs \<and> replies M (r # rs) xs \<and> replies (foldl effect M (r # rs)) rs' zs"
      by (intro exI [of _ "a @ b"] exI [of _ c]) auto
  next
    assume "\<exists>xs zs. ys = xs @ zs \<and> replies M (r # rs) xs \<and> replies (foldl effect M (r # rs)) rs' zs"
    then obtain a b c where "ys = a @ b @ c" "answers M r a" "replies (effect M r) rs b" "replies (foldl effect (effect M r) rs) rs' c"
      by auto
    then show "replies M ((r # rs) @ rs') ys"
      using Cons.IH by auto
  qed
qed simp

text \<open>The beginning of a packet that has not arrived in full.\<close>

definition incomplete :: "u8 list \<Rightarrow> bool" where
  "incomplete ys \<longleftrightarrow> (\<forall>m p. sees m p ys \<longrightarrow> length ys < 24 \<or> length ys < 24 + unat (be32 m (p + 8)))"

lemma iscomp_iff:
  assumes "unat (c_rx_off c) + n = unat (c_rx_len c)"
  shows "conn_req_iscomp m c \<longleftrightarrow> 24 \<le> n \<and> 24 + unat (be32 m (c_rx_buf c + ucast (c_rx_off c) + 8)) \<le> n"
proof -
  let ?b = "be32 m (c_rx_buf c + ucast (c_rx_off c) + 8)"
  have "unat (c_rx_len c - c_rx_off c) = n"
    using assms by (simp add: unat_sub word_le_nat_alt)
  then have a: "unat (ucast (c_rx_len c - c_rx_off c) :: u64) = n"
    by (simp add: unat_upcast)
  have "unat ?b < 2 ^ 32"
    using unsigned_less [of ?b, where 'a = nat] by simp
  then have "unat (24 + ucast ?b :: u64) = 24 + unat ?b"
    by (simp add: unat_word_ariths unsigned_ucast_eq take_bit_nat_eq_self)
  then show ?thesis
    by (auto simp: conn_req_iscomp_def Let_def c_consts word_less_nat_alt a)
qed

lemma packet_body:
  assumes "on_wire r xs" and "servable C r" and "sees m p xs"
  shows "24 + unat (be32 m (p + 8)) = length xs"
proof (cases r)
  case (Get_key opq key)
  then show ?thesis
    using get_packet(4) [of opq key xs m p] on_wire_length [OF assms(1,2)] assms by (simp add: unat_of_nat take_bit_nat_eq_self)
next
  case (Set_key opq key val)
  have "8 + length key + length val < 2 ^ 32"
    using assms(2) unfolding Set_key by simp
  then have "unat (of_nat (8 + length key + length val) :: u32) = 8 + length key + length val"
    by (simp only: unat_of_nat take_bit_nat_eq_self len_num1 len_bit0 mult_2) simp
  then show ?thesis
    using set_packet(5) [of opq key val xs m p] on_wire_length [OF assms(1,2)] assms by (simp add: Set_key)
qed

lemma willing_mono: "willing n k \<Longrightarrow> n' \<le> n \<Longrightarrow> willing n' k"
  by (auto simp: willing_def)

lemma buffers_ok_cong: "buffers_ok C c s \<Longrightarrow> c_rx_buf c' = c_rx_buf c \<Longrightarrow> c_tx_buf c' = c_tx_buf c \<Longrightarrow> arena C s' = arena C s \<Longrightarrow> buffers_ok C c' s'"
  by (simp add: buffers_ok_def outside_def)

text \<open>
  The state between two requests: the buffer holds \<open>ys\<close>, from its read offset on, and nothing is waiting to be
  sent.
\<close>

definition ready :: "settings \<Rightarrow> server_connection \<Rightarrow> u8 list \<Rightarrow> 'a segments_scheme \<Rightarrow> bool" where
  "ready C c ys s \<longleftrightarrow> buffers_ok C c s \<and> idle c \<and> sees (kbytes s) (c_rx_buf c + ucast (c_rx_off c)) ys \<and>
     unat (c_rx_off c) + length ys = unat (c_rx_len c)"

text \<open>The memory that working on a connection may change: the segments and the beginning of its buffers.\<close>

definition touches :: "settings \<Rightarrow> server_connection \<Rightarrow> 'a segments_scheme \<Rightarrow> 'a segments_scheme \<Rightarrow> bool" where
  "touches C c s s' \<longleftrightarrow> arena C s' = arena C s \<and>
     (\<forall>a. unat a \<notin> arena C s \<and> unat a \<notin> block (c_rx_buf c) 65536 \<and> unat a \<notin> block (c_tx_buf c) 65536 \<longrightarrow> kbytes s' a = kbytes s a)"

lemma touches_refl [simp]: "touches C c s s"
  by (simp add: touches_def)

lemma touches_trans: "touches C c s t \<Longrightarrow> touches C c t u \<Longrightarrow> touches C c s u"
  by (simp add: touches_def)

lemma touches_cong: "c_rx_buf c' = c_rx_buf c \<Longrightarrow> c_tx_buf c' = c_tx_buf c \<Longrightarrow> touches C c' s s' \<longleftrightarrow> touches C c s s'"
  by (simp add: touches_def)

lemma request_served:
  assumes st: "store_for C src len (sets [r] + n) ia M s" and rd: "ready C c (xs @ ys) s" and w: "on_wire r xs"
    and sv: "servable C r" "key_length len r" and k: "willing (28 + unat (valuesize C) + wn) k"
  shows "\<exists>ia' c' k' s' out. process_requests C src D ia c k s = process_requests C src D ia' c' k' s' \<and>
    store_for C src len n ia' (effect M r) s' \<and> ready C c' ys s' \<and> answers M r out \<and> sent_off out k k' \<and> willing wn k' \<and>
    c' = c\<lparr>c_it := c_it c', c_rx_off := c_rx_off c'\<rparr> \<and> touches C c s s'"
proof -
  define req where "req = c_rx_buf c + ucast (c_rx_off c)"
  have b: "buffers_ok C c s" and c: "idle c" and m: "sees (kbytes s) req (xs @ ys)" and l: "unat (c_rx_off c) + length (xs @ ys) = unat (c_rx_len c)"
    using rd by (simp_all add: ready_def req_def)
  have l16: "unat (c_rx_off c) + length (xs @ ys) < 2 ^ 16" "unat (c_rx_off c) + length xs < 2 ^ 16"
    using l unsigned_less [of "c_rx_len c", where 'a = nat] by simp_all
  have mx: "sees (kbytes s) req xs"
    using m by (simp add: sees_append)
  from process_request [OF st b c w sv mx [unfolded req_def] l16(2), of D k] obtain ia' c1 s' where
    1: "conn_req_process C src D ia c k s = Some (0, ia', c1, k, s')" "store_for C src len n ia' (effect M r) s'" "answered C M r c s c1 s'"
    by blast
  define out where "out = region (kbytes s') (c_tx_buf c) (unat (c_tx_len c1))"
  define c' where "c' = c1\<lparr>c_tx_off := 0, c_tx_len := 0\<rparr>"
  have c1: "c1 = c\<lparr>c_it := c_it c1, c_rx_off := c_rx_off c + of_nat (request_size r), c_tx_len := c_tx_len c1\<rparr>" "0 < c_tx_len c1"
    "unat (c_tx_len c1) \<le> 28 + unat (valuesize C)" "answers M r out" "arena C s' = arena C s"
    "\<And>a. unat a \<notin> arena C s \<Longrightarrow> unat a \<notin> block (c_tx_buf c) 65536 \<Longrightarrow> kbytes s' a = kbytes s a"
    using 1(3) unfolding answered_def out_def by blast+
  obtain it off tl where c1_eq: "c1 = c\<lparr>c_it := it, c_rx_off := off, c_tx_len := tl\<rparr>" "off = c_rx_off c + of_nat (request_size r)"
    using c1(1) by metis
  have c': "c' = c\<lparr>c_it := c_it c', c_rx_off := c_rx_off c'\<rparr>" "c_rx_off c' = c_rx_off c + of_nat (length xs)" "c_rx_buf c' = c_rx_buf c"
    "c_tx_buf c' = c_tx_buf c" "c_rx_len c' = c_rx_len c" "idle c'"
    using c on_wire_length [OF w sv(1)] by (simp_all add: c'_def c1_eq idle_def)
  have "24 + unat (be32 (kbytes s) (req + 8)) = length xs"
    by (rule packet_body [OF w sv(1) mx])
  then have "conn_req_iscomp (kbytes s) c"
    using iscomp_iff [OF l, of "kbytes s"] packet_start [OF w sv(1)] by (simp add: req_def)
  moreover have "region (kbytes s') (c_tx_buf c1 + ucast (c_tx_off c1)) (unat (c_tx_len c1) - unat (c_tx_off c1)) = out" "c_tx_off c1 < c_tx_len c1"
    using c c1(2) by (simp_all add: c1_eq idle_def out_def)
  moreover have lo: "length out \<le> 28 + unat (valuesize C)"
    using c1(3) by (simp add: out_def)
  ultimately obtain k' where k': "conn_send C c1 k s' = Some (0, c', k', s')" "sent_off out k k'"
    using conn_send_all [of s' c1 out k C] willing_mono [OF k, of "length out"] unfolding c'_def by fastforce
  have run: "process_requests C src D ia c k s = process_requests C src D ia' c' k' s'"
    by (subst process_requests.simps) (use \<open>conn_req_iscomp (kbytes s) c\<close> c1(2) in \<open>simp add: 1(1) k'(1) word_gt_0\<close>)
  have off: "unat (c_rx_off c') = unat (c_rx_off c) + length xs"
    using l16(2) by (simp add: c'(2) unat_word_ariths unat_of_nat take_bit_nat_eq_self)
  have "ready C c' ys s'"
  proof -
    have "(ucast (c_rx_off c') :: u64) = ucast (c_rx_off c) + of_nat (length xs)"
      by (rule word_unat_eq_iff [THEN iffD2])
        (use off l16(2) in \<open>simp add: unat_upcast unat_word_ariths unat_of_nat take_bit_nat_eq_self\<close>)
    then have e: "c_rx_buf c' + ucast (c_rx_off c') = req + of_nat (length xs)"
      by (simp add: c'(3) req_def add.assoc)
    note bp = buffer_parts [OF b l16(1) req_def]
    have "sees (kbytes s') req (xs @ ys)"
    proof (subst sees_cong [where m = "kbytes s"])
      show "kbytes s' a = kbytes s a" if "unat a \<in> block req (length (xs @ ys))" for a
        using that bp(3,4) by (intro c1(6)) blast+
    qed (use bp(1) m in simp_all)
    then have "sees (kbytes s') (c_rx_buf c' + ucast (c_rx_off c')) ys"
      unfolding e by (simp add: sees_append)
    moreover have "buffers_ok C c' s'"
      by (rule buffers_ok_cong [OF b c'(3,4) c1(5)])
    ultimately show ?thesis
      using c'(5,6) l off by (simp add: ready_def)
  qed
  moreover have "willing wn k'"
    by (rule sent_off_willing [OF k'(2)]) (rule willing_mono [OF k], use lo in simp)
  ultimately show ?thesis
    using run 1(2) c1(4-6) k'(2) c'(1) unfolding touches_def by blast
qed

lemma process_ends:
  assumes rd: "ready C c ys s" and i: "incomplete ys"
  shows "process_requests C src D ia c k s = Some (True, ia, c, k, s)"
proof -
  have "\<not> conn_req_iscomp (kbytes s) c"
  proof -
    let ?b = "be32 (kbytes s) (c_rx_buf c + ucast (c_rx_off c) + 8)"
    have "length ys < 24 \<or> length ys < 24 + unat ?b" "unat (c_rx_off c) + length ys = unat (c_rx_len c)"
      using rd i unfolding ready_def incomplete_def by blast+
    then show ?thesis
      using iscomp_iff [of c "length ys" "kbytes s"] by auto
  qed
  then show ?thesis
    by (subst process_requests.simps) simp
qed

lemma requests_served:
  assumes "store_for C src len (sets rs + n) ia M s" and "ready C c (concat xss @ ys) s" and "list_all2 on_wire rs xss" and "incomplete ys"
    and "\<forall>r\<in>set rs. servable C r \<and> key_length len r" and "willing (length rs * (28 + unat (valuesize C)) + wn) k"
  shows "\<exists>ia' c' k' s' out. process_requests C src D ia c k s = Some (True, ia', c', k', s') \<and>
    store_for C src len n ia' (foldl effect M rs) s' \<and> ready C c' ys s' \<and> replies M rs out \<and> sent_off out k k' \<and>
    willing wn k' \<and> c' = c\<lparr>c_it := c_it c', c_rx_off := c_rx_off c'\<rparr> \<and> touches C c s s'"
  using assms
proof (induction rs arbitrary: xss ia M c k s)
  case Nil
  then have "process_requests C src D ia c k s = Some (True, ia, c, k, s)"
    by (intro process_ends) simp_all
  then show ?case
    using Nil by (auto simp: sent_off_def intro: exI [of _ 0])
next
  case (Cons r rs)
  let ?B = "28 + unat (valuesize C)"
  obtain xs xss' where x: "xss = xs # xss'" "on_wire r xs" "list_all2 on_wire rs xss'"
    using Cons.prems(3) by (auto simp: list_all2_Cons1)
  have "sets (r # rs) = sets [r] + sets rs"
    using sets_simps(4) [of "[r]" rs] by (simp only: append.simps)
  then have st: "store_for C src len (sets [r] + (sets rs + n)) ia M s"
    using Cons.prems(1) by (simp only: add.assoc)
  have rd: "ready C c (xs @ concat xss' @ ys) s" and sv: "servable C r" "key_length len r"
    using Cons.prems(2,5) by (simp_all add: x(1))
  have w: "willing (?B + (length rs * ?B + wn)) k"
    using Cons.prems(6) by (simp add: algebra_simps)
  from request_served [OF st rd x(2) sv w, of D] obtain ia1 c1 k1 s1 out1 where
    1: "process_requests C src D ia c k s = process_requests C src D ia1 c1 k1 s1" "store_for C src len (sets rs + n) ia1 (effect M r) s1"
      "ready C c1 (concat xss' @ ys) s1" "answers M r out1" "sent_off out1 k k1" "willing (length rs * ?B + wn) k1"
    and c1: "c1 = c\<lparr>c_it := c_it c1, c_rx_off := c_rx_off c1\<rparr>" and t1: "touches C c s s1"
    by blast
  from Cons.IH [OF 1(2,3) x(3) Cons.prems(4) _ 1(6)] Cons.prems(5) obtain ia' c' k' s' out where
    2: "process_requests C src D ia1 c1 k1 s1 = Some (True, ia', c', k', s')" "store_for C src len n ia' (foldl effect (effect M r) rs) s'"
      "ready C c' ys s'" "replies (effect M r) rs out" "sent_off out k1 k'" "willing wn k'"
    and c': "c' = c1\<lparr>c_it := c_it c', c_rx_off := c_rx_off c'\<rparr>" and t2: "touches C c1 s1 s'"
    by auto
  obtain a b where ab: "c1 = c\<lparr>c_it := a, c_rx_off := b\<rparr>"
    using c1 by metis
  then have "c' = c\<lparr>c_it := c_it c', c_rx_off := c_rx_off c'\<rparr>"
    using c' by simp
  moreover have "touches C c s1 s'"
    using t2 ab by (simp add: touches_def)
  then have "touches C c s s'"
    by (rule touches_trans [OF t1])
  moreover have "replies M (r # rs) (out1 @ out)"
    using 1(4) 2(4) by auto
  ultimately show ?case
    using 1(1) 2 sent_off_trans [OF 1(5) 2(5)] by auto
qed

section \<open>Cutting the stream\<close>

lemma incomplete_prefix:
  assumes w: "on_wire r (ys @ zs)" "servable C r" and z: "zs \<noteq> []"
  shows "incomplete ys"
  unfolding incomplete_def
proof (intro allI impI)
  fix m p
  assume m: "sees m p ys"
  show "length ys < 24 \<or> length ys < 24 + unat (be32 m (p + 8))"
  proof (cases "length ys < 24")
    case False
    define xs where "xs = ys @ zs"
    define m' where "m' = (\<lambda>a. if unat (a - p) < length ys then m a else xs ! unat (a - p))"
    have len: "length xs < 2 ^ 64"
      using on_wire_length [OF w] w(2) by (cases r) (simp_all add: xs_def)
    have n: "unat (p + of_nat i - p) = i" if "i < length xs" for i
      using that len by (simp add: unat_of_nat take_bit_nat_eq_self)
    have "region m p (length ys) = ys"
      using m by (simp add: sees_def)
    then have y: "m (p + of_nat i) = ys ! i" if "i < length ys" for i
      using that arg_cong [where f = "\<lambda>l. l ! i", of "region m p (length ys)" ys] nth_map [of i "[0..<length ys]" "\<lambda>i. m (p + of_nat i)"]
      by (simp add: region_def del: nth_map)
    have "sees m' p xs"
      unfolding sees_def
    proof (rule nth_equalityI)
      fix i assume "i < length (region m' p (length xs))"
      then have i: "i < length xs" by simp
      have "m' (p + of_nat i) = xs ! i"
        using n [OF i] y [of i] by (auto simp: m'_def xs_def nth_append)
      then show "region m' p (length xs) ! i = xs ! i"
        using i by (simp add: region_def)
    qed simp
    then have "24 + unat (be32 m' (p + 8)) = length xs"
      using packet_body w unfolding xs_def by blast
    moreover have "be32 m' (p + 8) = be32 m (p + 8)"
    proof -
      have "m' (p + 8 + of_nat i) = m (p + 8 + of_nat i)" if "i < 4" for i
      proof -
        have "unat (p + 8 + of_nat i - p) = 8 + i"
          using n [of "8 + i"] that False by (simp add: xs_def add.assoc)
        then show ?thesis
          using that False by (simp add: m'_def)
      qed
      from this [of 0] this [of 1] this [of 2] this [of 3] show ?thesis
        by (simp add: be32_def be16_def add.assoc)
    qed
    ultimately show ?thesis
      using z by (simp add: xs_def)
  qed simp
qed

lemma incomplete_Nil: "incomplete []"
  by (simp add: incomplete_def)

text \<open>What has arrived of a stream: some requests in full, and the beginning of the next.\<close>

lemma cut_stream:
  assumes "list_all2 on_wire rs xss" and "\<forall>r\<in>set rs. servable C r" and "concat xss = buf @ later"
  obtains rs1 rs2 xss1 xss2 ys where "rs = rs1 @ rs2" "list_all2 on_wire rs1 xss1" "list_all2 on_wire rs2 xss2" "buf = concat xss1 @ ys"
    "concat xss2 = ys @ later" "incomplete ys" "ys = [] \<or> xss2 \<noteq> [] \<and> length ys < length (hd xss2)"
  using assms
proof (induction rs arbitrary: xss buf thesis)
  case Nil
  then show ?case
    by (intro Nil(1) [of "[]" "[]" "[]" "[]" "[]"]) (auto simp: incomplete_Nil)
next
  case (Cons r rs)
  obtain xs xss' where x: "xss = xs # xss'" "on_wire r xs" "list_all2 on_wire rs xss'"
    using Cons.prems(2) by (auto simp: list_all2_Cons1)
  show ?case
  proof (cases "length xs \<le> length buf")
    case True
    then obtain buf' where buf: "buf = xs @ buf'"
      using Cons.prems(4) by (auto simp: x(1) append_eq_append_conv2)
    then have rest: "concat xss' = buf' @ later"
      using Cons.prems(4) by (simp add: x(1))
    have sv: "\<forall>r\<in>set rs. servable C r"
      using Cons.prems(3) by simp
    obtain rs1 rs2 xss1 xss2 ys where
      "rs = rs1 @ rs2" "list_all2 on_wire rs1 xss1" "list_all2 on_wire rs2 xss2" "buf' = concat xss1 @ ys"
      "concat xss2 = ys @ later" "incomplete ys" "ys = [] \<or> xss2 \<noteq> [] \<and> length ys < length (hd xss2)"
      by (rule Cons.IH [OF _ x(3) sv rest])
    then show ?thesis
      using x(2) buf by (intro Cons.prems(1) [of "r # rs1" rs2 "xs # xss1" xss2 ys]) auto
  next
    case False
    then obtain zs where zs: "xs = buf @ zs" "zs \<noteq> []"
      using Cons.prems(4) by (auto simp: x(1) append_eq_append_conv2)
    then have "incomplete buf"
      using incomplete_prefix x(2) Cons.prems(3) by auto
    then show ?thesis
      using Cons.prems(2,4) False x by (intro Cons.prems(1) [of "[]" "r # rs" "[]" xss buf]) auto
  qed
qed

section \<open>Receiving\<close>

text \<open>
  The reads deliver chunks that fit into the buffer behind an incomplete request. An empty chunk stands for a moment at which
  nothing has arrived, so that the read fails with \<^verbatim>\<open>EAGAIN\<close>.
\<close>

definition arrival :: "u8 list \<Rightarrow> recv_result" where
  "arrival ys = (if ys = [] then Would_block else Bytes ys)"

lemma arrival_bytes: "ys \<noteq> [] \<Longrightarrow> arrival ys = Bytes ys"
  by (simp add: arrival_def)

definition chunks_ok :: "u8 list list \<Rightarrow> bool" where
  "chunks_ok css \<longleftrightarrow> (\<forall>ys\<in>set css. length ys < 2 ^ 15)"

definition received :: "server_connection \<Rightarrow> u8 list \<Rightarrow> 'a segments_scheme \<Rightarrow> 'a segments_scheme \<Rightarrow> bool" where
  "received c buf s s' \<longleftrightarrow> (\<exists>m. s' = s\<lparr>kbytes := m\<rparr>) \<and> sees (kbytes s') (c_rx_buf c) buf \<and> length buf < 2 ^ 16 \<and>
     (\<forall>a. unat a \<notin> block (c_rx_buf c) 65536 \<longrightarrow> kbytes s' a = kbytes s a)"

lemma append_received:
  assumes b: "buffers_ok C c s" and buf: "sees (kbytes s) (c_rx_buf c) buf" "unat (c_rx_len c) = length buf" "length buf + length ys < 2 ^ 16"
  shows "received c (buf @ ys) s (put_bytes (c_rx_buf c + ucast (c_rx_len c)) ys s)"
    and "unat (c_rx_len c + of_nat (length ys)) = length (buf @ ys)"
proof -
  let ?p = "c_rx_buf c + of_nat (length buf)"
  have "outside C (c_rx_buf c) 1000000 s"
    using b by (simp add: buffers_ok_def)
  then have b64: "unat (c_rx_buf c) + 1000000 < 2 ^ 64"
    by (simp add: outside_def)
  have u: "unat ?p = unat (c_rx_buf c) + length buf"
    using unat_offset [OF b64] buf(3) by simp
  have e: "(ucast (c_rx_len c) :: u64) = of_nat (length buf)"
    by (rule word_unat_eq_iff [THEN iffD2]) (use buf in \<open>simp add: unat_upcast unat_of_nat take_bit_nat_eq_self\<close>)
  have l: "unat ?p + length ys < 2 ^ 64"
    using b64 buf(3) u by simp
  note k = put_bytes_kbytes [OF l, of s]
  have "sees (kbytes (put_bytes ?p ys s)) (c_rx_buf c) buf"
    using buf b64 by (subst sees_cong [where m = "kbytes s"]) (auto simp: k block_def u)
  moreover have "kbytes (put_bytes ?p ys s) a = kbytes s a" if "unat a \<notin> block (c_rx_buf c) 65536" for a
    using that buf(3) by (auto simp: k block_def u)
  ultimately show "received c (buf @ ys) s (put_bytes (c_rx_buf c + ucast (c_rx_len c)) ys s)"
    unfolding e received_def using put_bytes_sees [OF l, of s] buf(3) by (auto simp: sees_append put_bytes_def)
  show "unat (c_rx_len c + of_nat (length ys)) = length (buf @ ys)"
    using buf(2,3) by (simp add: unat_word_ariths unat_of_nat take_bit_nat_eq_self)
qed

lemma received_trans: "received c xs s t \<Longrightarrow> received c ys t u \<Longrightarrow> received c ys s u"
  unfolding received_def by (elim conjE exE) auto

lemma received_arena: "received c xs s t \<Longrightarrow> arena C t = arena C s"
  by (auto simp: received_def arena_def)

text \<open>A read that would block ends the event; what has been received so far stays in the buffer.\<close>

lemma conn_recv_blocks:
  assumes "\<not> c_epoll_wr c" and "to_read k = map arrival ([] # css)"
  shows "conn_recv C c k s = Some (1, c, k\<lparr>to_read := map arrival css\<rparr>, s)"
  using assms by (subst conn_recv.simps) (simp add: arrival_def conn_upepoll_def)

text \<open>
  The server reads until the first request is complete (0) or a read would block (1); then it is still
  incomplete, and all that has arrived is in the buffer.
\<close>

lemma conn_recv_chunks:
  assumes "buffers_ok C c s" and "c_rx_off c = 0" and "sees (kbytes s) (c_rx_buf c) buf" "unat (c_rx_len c) = length buf"
    and "to_read k = map arrival css" "chunks_ok css" and "concat (xs # xss) = buf @ concat css" and "on_wire r xs" "servable C r"
    and "length xs \<le> 2 ^ 15" "length buf < length xs" and "\<not> c_epoll_wr c"
  shows "\<exists>css1 css2 e c' s'. css = css1 @ css2 \<and> css1 \<noteq> [] \<and> conn_recv C c k s = Some (e, c', k\<lparr>to_read := map arrival css2\<rparr>, s') \<and>
    (e = 0 \<or> e = 1 \<and> length (buf @ concat css1) < length xs) \<and>
    c' = c\<lparr>c_rx_len := c_rx_len c'\<rparr> \<and> unat (c_rx_len c') = length (buf @ concat css1) \<and> received c (buf @ concat css1) s s'"
  using assms
proof (induction css arbitrary: c k s buf)
  case Nil
  then show ?case by auto
next
  case (Cons ys css)
  show ?case
  proof (cases "ys = []")
    case True
    have "received c buf s s"
      using Cons.prems(3,10,11) by (auto simp: received_def intro!: exI [of _ "kbytes s"])
    then show ?thesis
      using conn_recv_blocks [of c k css C s] Cons.prems True
      by (intro exI [of _ "[[]]"] exI [of _ css] exI [of _ 1] exI [of _ c] exI [of _ s]) simp
  next
    case ne: False
    let ?buf = "buf @ ys"
    have ys: "ys \<noteq> []" "length ys < 2 ^ 15" "chunks_ok css"
      using Cons.prems(6) ne by (simp_all add: chunks_ok_def)
    have lb: "length buf + length ys < 2 ^ 16"
      using Cons.prems(10,11) ys(2) by simp
    define s1 where "s1 = put_bytes (c_rx_buf c + ucast (c_rx_len c)) ys s"
    define c1 where "c1 = c\<lparr>c_rx_len := c_rx_len c + of_nat (length ys)\<rparr>"
    define k1 where "k1 = k\<lparr>to_read := map arrival css\<rparr>"
    note ap = append_received [OF Cons.prems(1,3,4) lb, folded s1_def]
    have "unat (1000000 - ucast (c_rx_len c) :: u64) = 1000000 - length buf"
      using Cons.prems(4) lb by (subst unat_sub) (simp_all add: word_le_nat_alt unat_upcast)
    then have full: "length ys \<le> unat (MAX_MSGSIZE - ucast (c_rx_len c))"
      using lb by (simp add: c_consts)
    have run: "conn_recv C c k s = (if \<not> conn_req_iscomp (kbytes s1) c1 then conn_recv C c1 k1 s1 else Some (0, c1, k1, s1))"
      using ys(1) full by (subst conn_recv.simps) (simp add: Cons.prems(5) Let_def s1_def c1_def k1_def arrival_bytes)
    have off: "unat (c_rx_off c1) + length ?buf = unat (c_rx_len c1)" and len: "unat (c_rx_len c1) = length ?buf"
      using ap(2) Cons.prems(2) by (simp_all add: c1_def)
    have m: "sees (kbytes s1) (c_rx_buf c1 + ucast (c_rx_off c1)) ?buf"
      using ap(1) Cons.prems(2) by (simp add: received_def c1_def)
    note ic = iscomp_iff [OF off, of "kbytes s1"]
    have st: "xs @ concat xss = ?buf @ concat css"
      using Cons.prems(7) by simp
    show ?thesis
    proof (cases "length xs \<le> length ?buf")
      case True
      then have "xs = take (length xs) ?buf"
        using st by (simp add: append_eq_append_conv_if del: append_assoc)
      then obtain zs where "?buf = xs @ zs"
        by (metis append_take_drop_id)
      then have "sees (kbytes s1) (c_rx_buf c1 + ucast (c_rx_off c1)) xs"
        using m by (simp add: sees_append)
      then have "conn_req_iscomp (kbytes s1) c1"
        using packet_body [OF Cons.prems(8,9)] packet_start [OF Cons.prems(8,9)] True ic by simp
      then show ?thesis
        using run ap len by (intro exI [of _ "[ys]"] exI [of _ css] exI [of _ 0] exI [of _ c1] exI [of _ s1]) (simp add: k1_def c1_def)
    next
      case False
      then obtain zs where zs: "xs = ?buf @ zs" "zs \<noteq> []"
        using st by (auto simp: append_eq_append_conv2)
      have "length ?buf < 24 \<or> length ?buf < 24 + unat (be32 (kbytes s1) (c_rx_buf c1 + ucast (c_rx_off c1) + 8))"
        using incomplete_prefix [OF Cons.prems(8,9) [unfolded zs(1)] zs(2)] m unfolding incomplete_def by blast
      then have nc: "\<not> conn_req_iscomp (kbytes s1) c1"
        unfolding ic by auto
      have b1: "buffers_ok C c1 s1"
        by (rule buffers_ok_cong [OF Cons.prems(1)]) (simp_all add: c1_def received_arena [OF ap(1)])
      have "\<exists>css1 css2 e c' s'. css = css1 @ css2 \<and> css1 \<noteq> [] \<and> conn_recv C c1 k1 s1 = Some (e, c', k1\<lparr>to_read := map arrival css2\<rparr>, s') \<and>
          (e = 0 \<or> e = 1 \<and> length (?buf @ concat css1) < length xs) \<and>
          c' = c1\<lparr>c_rx_len := c_rx_len c'\<rparr> \<and> unat (c_rx_len c') = length (?buf @ concat css1) \<and> received c1 (?buf @ concat css1) s1 s'"
        by (rule Cons.IH [OF b1]) (use Cons.prems m len ys(3) False in \<open>simp_all add: c1_def k1_def\<close>)
      then obtain css1 css2 e c' s' where 2: "css = css1 @ css2" "conn_recv C c1 k1 s1 = Some (e, c', k1\<lparr>to_read := map arrival css2\<rparr>, s')"
          "c' = c1\<lparr>c_rx_len := c_rx_len c'\<rparr>" "unat (c_rx_len c') = length (?buf @ concat css1)" "received c1 (?buf @ concat css1) s1 s'"
          "e = 0 \<or> e = 1 \<and> length (?buf @ concat css1) < length xs"
        by blast
      have "received c (buf @ concat (ys # css1)) s s'"
        using received_trans [OF ap(1), of "?buf @ concat css1" s'] 2(5) by (simp add: received_def c1_def)
      moreover have "c' = c\<lparr>c_rx_len := c_rx_len c'\<rparr>"
        by (subst 2(3)) (simp add: c1_def)
      ultimately show ?thesis
        using run nc 2(1,2,4,6) by (intro exI [of _ "ys # css1"] exI [of _ css2] exI [of _ e] exI [of _ c'] exI [of _ s']) (simp add: k1_def)
    qed
  qed
qed

section \<open>Events\<close>

text \<open>Changes of the receive buffer alone concern neither the store nor its room.\<close>

lemma store_for_received:
  assumes st: "store_for C src len n ia M s" and b: "buffers_ok C c s" and s': "s' = s\<lparr>kbytes := m\<rparr>"
    and k: "\<And>a. unat a \<notin> block (c_rx_buf c) 65536 \<Longrightarrow> m a = kbytes s a"
  shows "store_for C src len n ia M s'"
proof -
  have fr: "seg_frame s s'"
    by (rule seg_frame_same) (simp_all add: s')
  have "block (c_rx_buf c) 65536 \<subseteq> block (c_rx_buf c) 1000000"
    by (simp add: block_def)
  then have "block (c_rx_buf c) 65536 \<inter> arena C s = {}"
    using b by (auto simp: buffers_ok_def outside_def)
  then have "store_ok C src ia M s'"
    using st k by (intro store_ok_outside [OF _ fr]) (auto simp: s' store_for_def)
  then show ?thesis
    using st seg_frame_places [OF fr] by (simp add: store_for_def item_places_def)
qed

lemma move_up_ready:
  assumes rd: "ready C c ys s"
  obtains c' m where "move_up c s = (c', s\<lparr>kbytes := m\<rparr>)" "ready C c' ys (s\<lparr>kbytes := m\<rparr>)" "c_rx_off c' = 0"
    "c' = c\<lparr>c_rx_len := c_rx_len c', c_rx_off := 0\<rparr>" "\<And>a. unat a \<notin> block (c_rx_buf c) 65536 \<Longrightarrow> m a = kbytes s a"
proof -
  define c' where "c' = c\<lparr>c_rx_len := c_rx_len c - c_rx_off c, c_rx_off := 0\<rparr>"
  define s' where "s' = memcpy (c_rx_buf c) (c_rx_buf c + ucast (c_rx_off c)) (ucast (c_rx_len c) - ucast (c_rx_off c)) s"
  have b: "buffers_ok C c s" and m: "sees (kbytes s) (c_rx_buf c + ucast (c_rx_off c)) ys" and l: "unat (c_rx_off c) + length ys = unat (c_rx_len c)"
    using rd by (simp_all add: ready_def)
  have le: "c_rx_off c \<le> c_rx_len c"
    using l by (simp add: word_le_nat_alt)
  have n: "unat (c_rx_len c - c_rx_off c) = length ys" "unat (ucast (c_rx_len c) - ucast (c_rx_off c) :: u64) = length ys"
    using l le by (simp_all add: unat_sub word_le_nat_alt unat_upcast)
  have lt: "length ys < 65536" "unat (c_rx_buf c) + 65536 < 2 ^ 64"
    using l unsigned_less [of "c_rx_len c", where 'a = nat] b by (simp_all add: buffers_ok_def outside_def)
  have k: "kbytes s' a = kbytes s a" if "unat a \<notin> block (c_rx_buf c) 65536" for a
  proof -
    have "unat a \<notin> block (c_rx_buf c) (length ys)"
      using that lt(1) by (auto simp: block_def)
    then show ?thesis
      using lt memcpy_kbytes [of "c_rx_buf c" "ucast (c_rx_len c) - ucast (c_rx_off c)" "c_rx_buf c + ucast (c_rx_off c)" s a]
      by (simp add: s'_def n)
  qed
  have "sees (kbytes s') (c_rx_buf c) ys"
    using memcpy_region [of "c_rx_buf c" "ucast (c_rx_len c) - ucast (c_rx_off c)" _ s] m lt by (simp add: s'_def n sees_def)
  then have rd': "ready C c' ys s'"
    using rd n by (simp add: ready_def c'_def idle_def buffers_ok_cong s'_def arena_def buffers_ok_def outside_def)
  have s': "s' = s\<lparr>kbytes := kbytes s'\<rparr>"
    by (simp add: s'_def memcpy_def)
  consider "c_rx_off c = 0" | "c_rx_off c \<noteq> 0" "c_rx_off c = c_rx_len c" | "c_rx_off c \<noteq> 0" "c_rx_off c \<noteq> c_rx_len c"
    by blast
  then show thesis
  proof cases
    case 1
    then have "c' = c" by (simp add: c'_def)
    then show thesis
      using 1 rd by (intro that [of c "kbytes s"]) (simp_all add: move_up_def)
  next
    case 2
    then have "c' = c\<lparr>c_rx_len := 0, c_rx_off := 0\<rparr>" "ys = []"
      using n(1) by (simp_all add: c'_def)
    then show thesis
      using 2 rd' rd by (intro that [of c' "kbytes s"]) (simp_all add: move_up_def ready_def buffers_ok_def outside_def arena_def)
  next
    case 3
    then have "move_up c s = (c', s')"
      by (simp add: move_up_def c'_def s'_def)
    then show thesis
      using rd' k s' by (intro that [of c' "kbytes s'"]) (simp_all add: c'_def)
  qed
qed

end
