(* ===== verification/Kvs_Clients.thy ===== *)
theory Kvs_Clients
  imports Kvs_Stream
begin

text \<open>
  The clients of the server: each is answered as if it were alone with a map it shares with the others, which all requests change in one order.
\<close>

section \<open>Events\<close>

text \<open>
  A connection on which the requests \<open>rs\<close> are still to be answered, in part received, in part to come in chunks. What has been received
  of the first of them is in the buffer.
\<close>

definition waiting :: "settings \<Rightarrow> nat \<Rightarrow> request list \<Rightarrow> u8 list list \<Rightarrow> server_connection \<Rightarrow> socket \<Rightarrow> 'a kvs_scheme \<Rightarrow> bool" where
  "waiting C len rs css c k s \<longleftrightarrow> (\<exists>xss buf. ready C c buf s \<and> c_rx_off c = 0 \<and> \<not> c_epoll_wr c \<and>
     list_all2 on_wire rs xss \<and> concat xss = buf @ concat css \<and> (buf = [] \<or> xss \<noteq> [] \<and> length buf < length (hd xss)) \<and>
     (\<forall>r\<in>set rs. servable C r \<and> key_length len r \<and> request_size r \<le> 2 ^ 15) \<and> chunks_ok css \<and> to_read k = map arrival css \<and>
     willing (length rs * (28 + unat (valuesize C))) k)"

text \<open>Nothing waits on a connection whose chunks have all been read.\<close>

lemma waiting_none:
  assumes "waiting C len rs [] c k s"
  shows "rs = []" "to_read k = []"
proof -
  obtain xss buf where p: "list_all2 on_wire rs xss" "concat xss = buf" "buf = [] \<or> xss \<noteq> [] \<and> length buf < length (hd xss)"
    "\<forall>r\<in>set rs. servable C r"
    using assms unfolding waiting_def by auto
  have "xss = []"
  proof (cases xss)
    case (Cons xs xss')
    then obtain r rs' where "rs = r # rs'" "on_wire r xs"
      using p(1) by (auto simp: list_all2_Cons2)
    then have "24 \<le> length xs"
      using packet_start [of r xs C] p(4) by simp
    then show ?thesis
      using p(2,3) Cons by auto
  qed simp
  then show "rs = []"
    using p(1) by simp
  show "to_read k = []"
    using assms by (auto simp: waiting_def)
qed

lemma received_touches: "received c buf s s' \<Longrightarrow> touches C c s s'"
  by (auto simp: received_def touches_def arena_def)

text \<open>The server reads until the first request is complete or nothing more has arrived.\<close>

lemma recv_event:
  assumes st: "store_for C src len n ia M s" and wt: "waiting C len rs css c k s" and css: "css \<noteq> []"
  obtains css1 css2 e l s1 buf xss where "css = css1 @ css2" "css1 \<noteq> []"
    "conn_recv C c k s = Some (e, c\<lparr>c_rx_len := l\<rparr>, k\<lparr>to_read := map arrival css2\<rparr>, s1)"
    "store_for C src len n ia M s1" "ready C (c\<lparr>c_rx_len := l\<rparr>) buf s1" "touches C c s s1"
    "list_all2 on_wire rs xss" "concat xss = buf @ concat css2"
    "e = 0 \<or> e = 1 \<and> (buf = [] \<or> xss \<noteq> [] \<and> length buf < length (hd xss))"
proof (cases "hd css = []")
  case True
  then obtain css2 where c2: "css = [] # css2"
    using css by (cases css) auto
  obtain xss buf where rd: "ready C c buf s" "\<not> c_epoll_wr c" "list_all2 on_wire rs xss" "concat xss = buf @ concat css"
    "buf = [] \<or> xss \<noteq> [] \<and> length buf < length (hd xss)" "to_read k = map arrival css"
    using wt unfolding waiting_def by blast
  have "touches C c s s"
    by (simp add: touches_def)
  then show thesis
    using that [of "[[]]" css2 1 "c_rx_len c" s buf xss] st rd conn_recv_blocks [OF rd(2) rd(6) [unfolded c2], of C s] by (simp add: c2)
next
  case ne: False
  obtain xss buf where rd: "ready C c buf s" and c0: "c_rx_off c = 0"
    and w: "list_all2 on_wire rs xss" and stream: "concat xss = buf @ concat css" and buf: "buf = [] \<or> xss \<noteq> [] \<and> length buf < length (hd xss)"
    and sv: "\<forall>r\<in>set rs. servable C r \<and> key_length len r \<and> request_size r \<le> 2 ^ 15" and ch: "chunks_ok css" and tr: "to_read k = map arrival css"
    and wr: "\<not> c_epoll_wr c"
    using wt unfolding waiting_def by blast
  have "concat css \<noteq> []"
    using css ne by (cases css) auto
  then obtain xs xss' where xss: "xss = xs # xss'"
    using stream by (cases xss) auto
  then obtain r rs' where rs: "rs = r # rs'" "on_wire r xs"
    using w by (auto simp: list_all2_Cons2)
  have r: "servable C r" "length xs \<le> 2 ^ 15"
    using sv on_wire_length [OF rs(2)] rs(1) by auto
  have lb: "length buf < length xs"
    using buf packet_start [OF rs(2) r(1)] by (auto simp: xss)
  have b: "buffers_ok C c s" "sees (kbytes s) (c_rx_buf c) buf" "unat (c_rx_len c) = length buf" "idle c"
    using rd c0 by (simp_all add: ready_def)
  from conn_recv_chunks [OF b(1) c0 b(2,3) tr ch stream [unfolded xss] rs(2) r lb wr] obtain css1 css2 e c1 s1 where
    1: "css = css1 @ css2" "css1 \<noteq> []" "conn_recv C c k s = Some (e, c1, k\<lparr>to_read := map arrival css2\<rparr>, s1)"
      "e = 0 \<or> e = 1 \<and> length (buf @ concat css1) < length xs"
    and c1: "c1 = c\<lparr>c_rx_len := c_rx_len c1\<rparr>" "unat (c_rx_len c1) = length (buf @ concat css1)" and s1: "received c (buf @ concat css1) s s1"
    by blast
  obtain l where c1': "c1 = c\<lparr>c_rx_len := l\<rparr>"
    using c1(1) by metis
  obtain m where m: "s1 = s\<lparr>kbytes := m\<rparr>" "\<And>a. unat a \<notin> block (c_rx_buf c) 65536 \<Longrightarrow> m a = kbytes s a"
    using s1 by (auto simp: received_def)
  have st1: "store_for C src len n ia M s1"
    by (rule store_for_received [OF st b(1) m])
  have b1: "buffers_ok C c1 s1"
    by (rule buffers_ok_cong [OF b(1)]) (simp_all add: c1' received_arena [OF s1])
  have rd1: "ready C c1 (buf @ concat css1) s1"
    using b1 b(4) c0 c1(2) s1 by (simp add: ready_def received_def c1' idle_def)
  show thesis
    using that [OF 1(1,2) 1(3) [unfolded c1'] st1 rd1 [unfolded c1'] received_touches [OF s1] w] stream 1(4) by (auto simp: 1(1) xss)
qed

text \<open>An event on which something arrives: the complete requests are answered.\<close>

lemma waiting_event:
  assumes st: "store_for C src len (sets rs + n) ia M s" and wt: "waiting C len rs css c k s" and css: "css \<noteq> []"
  shows "\<exists>rs1 rs2 css1 css2 out ia' c' k' s'. rs = rs1 @ rs2 \<and> css = css1 @ css2 \<and> css1 \<noteq> [] \<and>
    conn_events C src D SS_EPOLLIN ia c k s = Some (ia', c', k', s') \<and> store_for C src len (sets rs2 + n) ia' (foldl effect M rs1) s' \<and>
    waiting C len rs2 css2 c' k' s' \<and> c_rx_buf c' = c_rx_buf c \<and> c_tx_buf c' = c_tx_buf c \<and> touches C c s s' \<and>
    replies M rs1 out \<and> sent k' = sent k @ out"
proof -
  let ?B = "28 + unat (valuesize C)"
  from recv_event [OF assms] obtain css1 css2 e l s1 buf xss where 1: "css = css1 @ css2" "css1 \<noteq> []"
    "conn_recv C c k s = Some (e, c\<lparr>c_rx_len := l\<rparr>, k\<lparr>to_read := map arrival css2\<rparr>, s1)" "store_for C src len (sets rs + n) ia M s1"
    "ready C (c\<lparr>c_rx_len := l\<rparr>) buf s1" "touches C c s s1" "list_all2 on_wire rs xss" "concat xss = buf @ concat css2"
    and e: "e = 0 \<or> e = 1 \<and> (buf = [] \<or> xss \<noteq> [] \<and> length buf < length (hd xss))"
    by blast
  have sv: "\<forall>r\<in>set rs. servable C r \<and> key_length len r \<and> request_size r \<le> 2 ^ 15" and ch: "chunks_ok css"
    and wl: "willing (length rs * ?B) k" and c0: "\<not> c_epoll_wr c" and off0: "c_rx_off c = 0"
    using wt unfolding waiting_def by blast+
  define k1 where "k1 = k\<lparr>to_read := map arrival css2\<rparr>"
  show ?thesis
  proof (cases "e = 0")
    case False
    then have "conn_events C src D SS_EPOLLIN ia c k s = Some (ia, c\<lparr>c_rx_len := l\<rparr>, k1, s1)"
      using 1(3) e by (simp add: conn_events_def c_consts k1_def)
    moreover have "waiting C len rs css2 (c\<lparr>c_rx_len := l\<rparr>) k1 s1"
      unfolding waiting_def using 1(5,7,8) e False off0 c0 sv ch wl
      by (intro exI [of _ xss] exI [of _ buf]) (auto simp: 1(1) k1_def chunks_ok_def willing_def)
    ultimately show ?thesis
      using 1(1,2,4,6)
      by (intro exI [of _ "[]"] exI [of _ rs] exI [of _ css1] exI [of _ css2] exI [of _ "[]"] exI [of _ ia] exI [of _ "c\<lparr>c_rx_len := l\<rparr>"] exI [of _ k1] exI [of _ s1])
        (simp add: k1_def)
  next
    case e0: True
    have svs: "\<forall>r\<in>set rs. servable C r"
      using sv by blast
    obtain rs1 rs2 xss1 xss2 ys where cut: "rs = rs1 @ rs2" "list_all2 on_wire rs1 xss1" "list_all2 on_wire rs2 xss2"
      "buf = concat xss1 @ ys" "concat xss2 = ys @ concat css2" "incomplete ys" "ys = [] \<or> xss2 \<noteq> [] \<and> length ys < length (hd xss2)"
      by (rule cut_stream [OF 1(7) svs 1(8)])
    have sv1: "\<forall>r\<in>set rs1. servable C r \<and> key_length len r" and wl1: "willing (length rs1 * ?B + length rs2 * ?B) k1"
      and st1: "store_for C src len (sets rs1 + (sets rs2 + n)) ia M s1"
      using sv wl 1(4) by (simp_all add: cut(1) k1_def willing_def add_mult_distrib add.assoc)
    from requests_served [OF st1 1(5) [unfolded cut(4)] cut(2,6) sv1 wl1, of D] obtain ia' c2 k' s2 out where
      2: "process_requests C src D ia (c\<lparr>c_rx_len := l\<rparr>) k1 s1 = Some (True, ia', c2, k', s2)" "store_for C src len (sets rs2 + n) ia' (foldl effect M rs1) s2"
        "ready C c2 ys s2" "replies M rs1 out" "sent_off out k1 k'" "willing (length rs2 * ?B) k'"
      and c2: "c2 = c\<lparr>c_rx_len := l\<rparr>\<lparr>c_it := c_it c2, c_rx_off := c_rx_off c2\<rparr>" and t2: "touches C (c\<lparr>c_rx_len := l\<rparr>) s1 s2"
      by blast
    obtain it off where c2': "c2 = c\<lparr>c_rx_len := l, c_it := it, c_rx_off := off\<rparr>"
      using c2 by metis
    obtain c3 m3 where 3: "move_up c2 s2 = (c3, s2\<lparr>kbytes := m3\<rparr>)" "ready C c3 ys (s2\<lparr>kbytes := m3\<rparr>)" "c_rx_off c3 = 0"
      and c3: "c3 = c2\<lparr>c_rx_len := c_rx_len c3, c_rx_off := 0\<rparr>" and m3: "\<And>a. unat a \<notin> block (c_rx_buf c2) 65536 \<Longrightarrow> m3 a = kbytes s2 a"
      by (rule move_up_ready [OF 2(3)]) blast
    have f3: "\<not> c_epoll_wr c3" "c_rx_buf c3 = c_rx_buf c" "c_tx_buf c3 = c_tx_buf c"
      using c0 by (subst c3, simp add: c2')+
    have run: "conn_events C src D SS_EPOLLIN ia c k s = Some (ia', c3, k', s2\<lparr>kbytes := m3\<rparr>)"
      using 1(3) 2(1) 3(1) f3(1) e0 by (simp add: conn_events_def c_consts k1_def conn_upepoll_def)
    have k': "to_read k' = map arrival css2" "sent k' = sent k @ out"
      using 2(5) by (auto simp: sent_off_def k1_def)
    have b2: "buffers_ok C c2 s2"
      using 2(3) unfolding ready_def by blast
    have "store_for C src len (sets rs2 + n) ia' (foldl effect M rs1) (s2\<lparr>kbytes := m3\<rparr>)"
      by (rule store_for_received [OF 2(2) b2 refl m3])
    moreover have "touches C c s (s2\<lparr>kbytes := m3\<rparr>)"
    proof (rule touches_trans [OF touches_trans [OF 1(6)]])
      show "touches C c s1 s2"
        using t2 by (simp add: touches_def)
      show "touches C c s2 (s2\<lparr>kbytes := m3\<rparr>)"
        using m3 by (simp add: touches_def arena_def c2')
    qed
    moreover have "waiting C len rs2 css2 c3 k' (s2\<lparr>kbytes := m3\<rparr>)"
      unfolding waiting_def using 3(2,3) f3(1) cut(3,5,7) sv ch k'(1) 2(6)
      by (intro exI [of _ xss2] exI [of _ ys]) (auto simp: cut(1) 1(1) chunks_ok_def)
    ultimately show ?thesis
      using cut(1) 1(1,2) run 2(4) k'(2) f3(2,3) by blast
  qed
qed

text \<open>An event on which nothing arrives.\<close>

lemma idle_event:
  assumes "waiting C len rs [] c k s"
  shows "conn_events C src D SS_EPOLLIN ia c k s = Some (ia, c, k, s)"
proof -
  have "to_read k = []" "\<not> c_epoll_wr c"
    using waiting_none(2) [OF assms] assms unfolding waiting_def by blast+
  then show ?thesis
    by (simp add: conn_events_def c_consts conn_upepoll_def conn_recv.simps)
qed

section \<open>Several clients\<close>

text \<open>The buffers of two connections do not overlap.\<close>

definition buffer_area :: "server_connection \<Rightarrow> nat set" where
  "buffer_area c = block (c_rx_buf c) 1000000 \<union> block (c_tx_buf c) 1000000"

lemma waiting_elsewhere:
  assumes wt: "waiting C len rs css d k s" and t: "touches C c s s'" and a: "buffer_area c \<inter> buffer_area d = {}"
  shows "waiting C len rs css d k s'"
proof -
  have "ready C d buf s'" if rd: "ready C d buf s" and off: "c_rx_off d = 0" for buf
  proof -
    have b: "outside C (c_rx_buf d) 1000000 s" and m: "sees (kbytes s) (c_rx_buf d) buf" and l: "length buf < 2 ^ 16"
      using rd off unsigned_less [of "c_rx_len d", where 'a = nat] by (auto simp: ready_def buffers_ok_def)
    have "sees (kbytes s') (c_rx_buf d) buf"
    proof (subst sees_cong [where m = "kbytes s"])
      show "unat (c_rx_buf d) + length buf < 2 ^ 64"
        using b l by (simp add: outside_def)
      show "kbytes s' a = kbytes s a" if "unat a \<in> block (c_rx_buf d) (length buf)" for a
      proof -
        have "unat a \<in> block (c_rx_buf d) 1000000"
          using that l by (auto simp: block_def)
        then have "unat a \<notin> arena C s" "unat a \<notin> buffer_area c"
          using b a by (auto simp: outside_def buffer_area_def)
        then show ?thesis
          using t by (auto simp: touches_def buffer_area_def block_def)
      qed
    qed (rule m)
    moreover have "buffers_ok C d s'"
      by (rule buffers_ok_cong) (use rd t in \<open>auto simp: ready_def touches_def\<close>)
    ultimately show ?thesis
      using rd off by (simp add: ready_def)
  qed
  then show ?thesis
    using wt unfolding waiting_def by blast
qed

text \<open>
  The connections in \<open>I\<close>, with the requests and the chunks that are still to come on each, and a store with
  room for all their new items.
\<close>

definition clients :: "settings \<Rightarrow> segment_source \<Rightarrow> nat \<Rightarrow> nat set \<Rightarrow> (nat \<Rightarrow> request list) \<Rightarrow> (nat \<Rightarrow> u8 list list) \<Rightarrow> item_allocator \<Rightarrow>
    (u8 list \<rightharpoonup> u8 list) \<Rightarrow> (nat \<Rightarrow> server_connection \<times> socket) \<Rightarrow> 'a kvs_scheme \<Rightarrow> bool" where
  "clients C src len I rs css ia M cs s \<longleftrightarrow> store_for C src len (\<Sum>i\<in>I. sets (rs i)) ia M s \<and>
     (\<forall>i\<in>I. waiting C len (rs i) (css i) (fst (cs i)) (snd (cs i)) s) \<and>
     (\<forall>i\<in>I. \<forall>j\<in>I. i \<noteq> j \<longrightarrow> buffer_area (fst (cs i)) \<inter> buffer_area (fst (cs j)) = {})"

lemma clients_event:
  assumes I: "finite I" "i \<in> I" and cl: "clients C src len I rs css ia M cs s"
  shows "\<exists>ia' c' k' s' rs1 rs2 css2 out. conn_events C src D SS_EPOLLIN ia (fst (cs i)) (snd (cs i)) s = Some (ia', c', k', s') \<and>
    clients C src len I (rs(i := rs2)) (css(i := css2)) ia' (foldl effect M rs1) (cs(i := (c', k'))) s' \<and>
    rs i = rs1 @ rs2 \<and> length css2 \<le> length (css i) - 1 \<and> replies M rs1 out \<and> sent k' = sent (snd (cs i)) @ out"
proof -
  define n where "n = (\<Sum>j\<in>I - {i}. sets (rs j))"
  have st: "store_for C src len (sets (rs i) + n) ia M s" and wt: "waiting C len (rs i) (css i) (fst (cs i)) (snd (cs i)) s"
    using cl I by (simp_all add: clients_def n_def sum.remove)
  show ?thesis
  proof (cases "css i = []")
    case True
    have "conn_events C src D SS_EPOLLIN ia (fst (cs i)) (snd (cs i)) s = Some (ia, fst (cs i), snd (cs i), s)"
      by (rule idle_event) (use wt True in simp)
    moreover have "rs i = []"
      using waiting_none(1) wt True by simp
    then have "rs(i := []) = rs" "css(i := []) = css"
      using True by (simp_all add: fun_upd_idem)
    ultimately show ?thesis
      using cl True \<open>rs i = []\<close> by (intro exI [of _ ia] exI [of _ "fst (cs i)"] exI [of _ "snd (cs i)"] exI [of _ s] exI [of _ "[]"]) simp
  next
    case False
    from waiting_event [OF st wt False, of D] obtain rs1 rs2 css1 css2 out ia' c' k' s' where
      e: "rs i = rs1 @ rs2" "css i = css1 @ css2" "css1 \<noteq> []" "conn_events C src D SS_EPOLLIN ia (fst (cs i)) (snd (cs i)) s = Some (ia', c', k', s')"
        "store_for C src len (sets rs2 + n) ia' (foldl effect M rs1) s'" "waiting C len rs2 css2 c' k' s'"
        "c_rx_buf c' = c_rx_buf (fst (cs i))" "c_tx_buf c' = c_tx_buf (fst (cs i))" "touches C (fst (cs i)) s s'"
        "replies M rs1 out" "sent k' = sent (snd (cs i)) @ out"
      by blast
    have area: "buffer_area c' = buffer_area (fst (cs i))"
      using e(7,8) by (simp add: buffer_area_def)
    have ap: "buffer_area (fst (cs p)) \<inter> buffer_area (fst (cs q)) = {}" if "p \<in> I" "q \<in> I" "p \<noteq> q" for p q
      using cl that by (simp add: clients_def)
    have "(\<Sum>j\<in>I. sets ((rs(i := rs2)) j)) = sets rs2 + n"
      using I by (simp add: n_def sum.remove)
    moreover have "waiting C len ((rs(i := rs2)) j) ((css(i := css2)) j) (fst ((cs(i := (c', k'))) j)) (snd ((cs(i := (c', k'))) j)) s'" if j: "j \<in> I" for j
    proof (cases "j = i")
      case False
      then show ?thesis
        using waiting_elsewhere [OF _ e(9) ap [OF I(2) j]] cl j by (simp add: clients_def)
    qed (use e(6) in simp)
    moreover have "buffer_area (fst ((cs(i := (c', k'))) p)) \<inter> buffer_area (fst ((cs(i := (c', k'))) q)) = {}" if "p \<in> I" "q \<in> I" "p \<noteq> q" for p q
      using ap [OF that] by (auto simp: area)
    ultimately have "clients C src len I (rs(i := rs2)) (css(i := css2)) ia' (foldl effect M rs1) (cs(i := (c', k'))) s'"
      using e(5) by (simp add: clients_def)
    moreover have "length css2 \<le> length (css i) - 1"
      using e(2,3) by (cases css1) auto
    ultimately show ?thesis
      using e by blast
  qed
qed

text \<open>
  A log of requests, each with its client. Its answers are those of the map with the requests in the order of the log; \<open>out\<close> is what
  each of the clients gets of them.
\<close>

fun serialized :: "(u8 list \<rightharpoonup> u8 list) \<Rightarrow> (nat \<times> request) list \<Rightarrow> (nat \<Rightarrow> u8 list) \<Rightarrow> bool" where
  "serialized M [] out \<longleftrightarrow> (\<forall>i. out i = [])"
| "serialized M ((i, r) # lg) out \<longleftrightarrow> (\<exists>xs out'. answers M r xs \<and> serialized (effect M r) lg out' \<and> out = out'(i := xs @ out' i))"

definition of_client :: "nat \<Rightarrow> (nat \<times> request) list \<Rightarrow> request list" where
  "of_client i lg = map snd (filter (\<lambda>x. fst x = i) lg)"

lemma of_client_simps [simp]: "of_client i [] = []" "of_client i (lg @ lg') = of_client i lg @ of_client i lg'"
  "of_client i (map (Pair j) rs) = (if i = j then rs else [])"
  by (auto simp: of_client_def filter_map comp_def)

lemma serialized_append:
  "serialized M lg out \<Longrightarrow> serialized (foldl effect M (map snd lg)) lg' out' \<Longrightarrow> serialized M (lg @ lg') (\<lambda>i. out i @ out' i)"
proof (induction M lg out rule: serialized.induct)
  case (2 M i r lg out)
  then obtain xs o1 where o1: "answers M r xs" "serialized (effect M r) lg o1" "out = o1(i := xs @ o1 i)"
    by auto
  then have "serialized (effect M r) (lg @ lg') (\<lambda>i. o1 i @ out' i)"
    using 2 by simp
  then show ?case
    using o1 by (auto intro!: exI [of _ xs] exI [of _ "\<lambda>i. o1 i @ out' i"])
qed simp

lemma serialized_one: "replies M rs out \<Longrightarrow> serialized M (map (Pair i) rs) ((\<lambda>_. [])(i := out))"
proof (induction rs arbitrary: M out)
  case (Cons r rs)
  then obtain xs zs where x: "out = xs @ zs" "answers M r xs" "replies (effect M r) rs zs"
    by auto
  show ?case
    unfolding list.map serialized.simps
    by (intro exI [of _ xs] exI [of _ "(\<lambda>_. [])(i := zs)"] conjI, rule x(2), rule Cons.IH [OF x(3)]) (simp add: x(1))
qed simp

lemma serialized_replies: "serialized M lg out \<Longrightarrow> set (map fst lg) \<subseteq> {i} \<Longrightarrow> replies M (of_client i lg) (out i)"
proof (induction M lg out rule: serialized.induct)
  case (2 M j r lg out)
  then obtain xs o1 where o1: "answers M r xs" "serialized (effect M r) lg o1" "out = o1(j := xs @ o1 j)"
    by auto
  then have "replies (effect M r) (of_client i lg) (o1 i)"
    using 2 by simp
  then show ?case
    using o1 2(3) by (auto simp: of_client_def)
qed simp

text \<open>From one state of the clients to a later one, with the events in between.\<close>

definition progress :: "nat set \<Rightarrow> (u8 list \<rightharpoonup> u8 list) \<Rightarrow> (nat \<Rightarrow> request list) \<Rightarrow> (nat \<Rightarrow> u8 list list) \<Rightarrow> (nat \<Rightarrow> server_connection \<times> socket) \<Rightarrow>
    (nat \<times> request) list \<Rightarrow> (nat \<Rightarrow> u8 list) \<Rightarrow> nat list \<Rightarrow> (nat \<Rightarrow> request list) \<Rightarrow> (nat \<Rightarrow> u8 list list) \<Rightarrow> (nat \<Rightarrow> server_connection \<times> socket) \<Rightarrow> bool" where
  "progress I M rs css cs lg out evs rs' css' cs' \<longleftrightarrow> serialized M lg out \<and> set (map fst lg) \<subseteq> I \<and> (\<forall>i. i \<notin> I \<longrightarrow> cs' i = cs i) \<and>
     (\<forall>i\<in>I. rs i = of_client i lg @ rs' i \<and> length (css' i) \<le> length (css i) - count_list evs i \<and> sent (snd (cs' i)) = sent (snd (cs i)) @ out i)"

lemma progress_trans:
  assumes "progress I M rs css cs lg out evs rs1 css1 cs1" and "progress I (foldl effect M (map snd lg)) rs1 css1 cs1 lg' out' evs' rs2 css2 cs2"
  shows "progress I M rs css cs (lg @ lg') (\<lambda>i. out i @ out' i) (evs @ evs') rs2 css2 cs2"
proof -
  have "length (css2 i) \<le> length (css i) - count_list (evs @ evs') i" if "i \<in> I" for i
  proof -
    have "length (css2 i) \<le> length (css1 i) - count_list evs' i" "length (css1 i) \<le> length (css i) - count_list evs i"
      using assms that by (simp_all add: progress_def)
    then show ?thesis
      by simp
  qed
  then show ?thesis
    using assms serialized_append unfolding progress_def by auto
qed

definition from_clients :: "nat set \<Rightarrow> (nat \<times> u32) list \<Rightarrow> bool" where
  "from_clients I evs \<longleftrightarrow> (\<forall>e\<in>set evs. fst e \<in> I \<and> snd e = SS_EPOLLIN)"

lemma serve_events_clients:
  assumes "finite I" and "clients C src len I rs css ia M cs s" and "from_clients I evs"
  shows "\<exists>ia' cs' s' lg out rs' css'. serve_events C src D evs ia cs s = Some (ia', cs', s') \<and>
    clients C src len I rs' css' ia' (foldl effect M (map snd lg)) cs' s' \<and> progress I M rs css cs lg out (map fst evs) rs' css' cs'"
  using assms(2,3)
proof (induction evs arbitrary: rs css ia M cs s)
  case Nil
  then show ?case
    by (auto simp: progress_def intro!: exI [of _ "[] :: (nat \<times> request) list"] exI [of _ "\<lambda>_. []"] exI [of _ rs] exI [of _ css])
next
  case (Cons e evs)
  obtain i where e: "e = (i, SS_EPOLLIN)" "i \<in> I" "from_clients I evs"
    using Cons.prems(2) by (cases e) (auto simp: from_clients_def)
  from clients_event [OF assms(1) e(2) Cons.prems(1), of D] obtain ia1 c1 k1 s1 rs1 rs2 css2 out1 where
    1: "conn_events C src D SS_EPOLLIN ia (fst (cs i)) (snd (cs i)) s = Some (ia1, c1, k1, s1)"
      "clients C src len I (rs(i := rs2)) (css(i := css2)) ia1 (foldl effect M rs1) (cs(i := (c1, k1))) s1"
      "rs i = rs1 @ rs2" "length css2 \<le> length (css i) - 1" "replies M rs1 out1" "sent k1 = sent (snd (cs i)) @ out1"
    by blast
  let ?lg = "map (Pair i) rs1"
  have lg: "map snd ?lg = rs1"
    by (simp add: comp_def)
  have p1: "progress I M rs css cs ?lg ((\<lambda>_. [])(i := out1)) [i] (rs(i := rs2)) (css(i := css2)) (cs(i := (c1, k1)))"
    using 1(3,4,6) e(2) serialized_one [OF 1(5), of i] by (auto simp: progress_def)
  from Cons.IH [OF 1(2) e(3)] obtain ia' cs' s' lg' out' rs' css' where
    2: "serve_events C src D evs ia1 (cs(i := (c1, k1))) s1 = Some (ia', cs', s')"
      "clients C src len I rs' css' ia' (foldl effect (foldl effect M rs1) (map snd lg')) cs' s'"
      "progress I (foldl effect M rs1) (rs(i := rs2)) (css(i := css2)) (cs(i := (c1, k1))) lg' out' (map fst evs) rs' css' cs'"
    by blast
  have "progress I M rs css cs (?lg @ lg') (\<lambda>j. ((\<lambda>_. [])(i := out1)) j @ out' j) ([i] @ map fst evs) rs' css' cs'"
    by (rule progress_trans [OF p1]) (use 2(3) in \<open>simp only: lg\<close>)
  moreover have "serve_events C src D (e # evs) ia cs s = Some (ia', cs', s')"
    using 1(1) 2(1) by (simp add: e(1))
  moreover have "map snd (?lg @ lg') = rs1 @ map snd lg'"
    by (simp add: comp_def)
  ultimately show ?case
    using 2(2) e(1) by (intro exI conjI) (assumption, simp_all)
qed

lemma serve_turns_clients:
  assumes "finite I" and "clients C src len I rs css ia M cs s" and "\<forall>evs\<in>set turns. from_clients I evs"
  shows "\<exists>ia' cs' s' lg out rs' css'. serve_turns C src D turns ia cs s = Some (ia', cs', s') \<and>
    clients C src len I rs' css' ia' (foldl effect M (map snd lg)) cs' s' \<and> progress I M rs css cs lg out (map fst (concat turns)) rs' css' cs'"
  using assms(2,3)
proof (induction turns arbitrary: rs css ia M cs s)
  case Nil
  then show ?case
    by (auto simp: progress_def intro!: exI [of _ "[] :: (nat \<times> request) list"] exI [of _ "\<lambda>_. []"] exI [of _ rs] exI [of _ css])
next
  case (Cons evs turns)
  from serve_events_clients [OF assms(1) Cons.prems(1), of evs D] Cons.prems(2) obtain ia1 cs1 s1 lg out rs1 css1 where
    1: "serve_events C src D evs ia cs s = Some (ia1, cs1, s1)" "clients C src len I rs1 css1 ia1 (foldl effect M (map snd lg)) cs1 s1"
      "progress I M rs css cs lg out (map fst evs) rs1 css1 cs1"
    by auto
  have "at_rest ia1"
    using 1(2) by (auto simp: clients_def store_for_def store_ok_def store_parts_def)
  then have turn: "processing_turn C src D evs ia cs s = Some (ia1, cs1, s1)"
    using 1(1) by (simp add: processing_turn_def clean_log_at_rest)
  from Cons.IH [OF 1(2)] Cons.prems(2) obtain ia' cs' s' lg' out' rs' css' where
    2: "serve_turns C src D turns ia1 cs1 s1 = Some (ia', cs', s')"
      "clients C src len I rs' css' ia' (foldl effect (foldl effect M (map snd lg)) (map snd lg')) cs' s'"
      "progress I (foldl effect M (map snd lg)) rs1 css1 cs1 lg' out' (map fst (concat turns)) rs' css' cs'"
    by auto
  have "serve_turns C src D (evs # turns) ia cs s = Some (ia', cs', s')"
    using turn 2(1) by simp
  moreover have "clients C src len I rs' css' ia' (foldl effect M (map snd (lg @ lg'))) cs' s'"
    using 2(2) by simp
  ultimately show ?case
    using progress_trans [OF 1(3) 2(3)] by (intro exI conjI) (assumption, assumption, simp)
qed

text \<open>A connection as \<^verbatim>\<open>accept_connections\<close> sets it up.\<close>

definition fresh_connection :: "server_connection \<Rightarrow> bool" where
  "fresh_connection c \<longleftrightarrow> idle c \<and> c_rx_len c = 0 \<and> c_rx_off c = 0 \<and> \<not> c_epoll_wr c"

text \<open>
  A client that sends the requests \<open>rs\<close> cut into \<open>chunks\<close>, with a read that blocks at each empty one, and takes the answers in pieces of any size.
\<close>

definition client_sends :: "settings \<Rightarrow> nat \<Rightarrow> request list \<Rightarrow> u8 list list \<Rightarrow> socket \<Rightarrow> bool" where
  "client_sends C len rs chunks k \<longleftrightarrow> (\<exists>packets. list_all2 on_wire rs packets \<and> concat packets = concat chunks) \<and> chunks_ok chunks \<and>
     to_read k = map arrival chunks \<and> (\<forall>r\<in>set rs. servable C r \<and> key_length len r \<and> request_size r \<le> 2 ^ 15) \<and>
     willing (length rs * (28 + unat (valuesize C))) k"

lemma fresh_waiting:
  assumes "buffers_ok C c s" and "fresh_connection c" and "client_sends C len rs chunks k"
  shows "waiting C len rs chunks c k s"
proof -
  have "ready C c [] s"
    using assms(1,2) by (simp add: ready_def fresh_connection_def)
  moreover obtain packets where "list_all2 on_wire rs packets" "concat packets = concat chunks"
    using assms(3) unfolding client_sends_def by blast
  ultimately show ?thesis
    using assms(2,3) unfolding waiting_def client_sends_def fresh_connection_def by (intro exI [of _ packets] exI [of _ "[]"]) auto
qed

section \<open>The server answers\<close>

lemma of_client_all: "set (map fst lg) \<subseteq> {i} \<Longrightarrow> of_client i lg = map snd lg"
  by (induction lg) (auto simp: of_client_def)

text \<open>
  C6: a processing thread serializes its clients. Any number of clients send get and set requests of at most \<open>2\<^sup>1\<^sup>5\<close> bytes, each stream cut into
  chunks of fewer than \<open>2\<^sup>1\<^sup>5\<close> bytes in any way, also with reads that block between two chunks of one request, and the
  events arrive in any order, with any number of them in a round and also when there is nothing to read. The clients always take
  some of what is written, the keys have one length, the values the size of the store, and there is a free place for each set request;
  no other processing thread and no maintenance runs in between. Then all rounds return, and there is one order of
  the requests served, in which the requests of each client are in the order it has sent them, such that what each client
  receives are the answers of a single map of keys to values to its requests, and the store holds the map that
  results. A client that has had as many events as there are chunks and blocked reads has all its answers.
\<close>

theorem server_serializes:
  assumes "finite I" and "store_for C src len (\<Sum>i\<in>I. sets (rs i)) ia M s"
    and "\<forall>i\<in>I. buffers_ok C (fst (cs i)) s \<and> fresh_connection (fst (cs i)) \<and> client_sends C len (rs i) (chunks i) (snd (cs i))"
    and "\<forall>i\<in>I. \<forall>j\<in>I. i \<noteq> j \<longrightarrow> buffer_area (fst (cs i)) \<inter> buffer_area (fst (cs j)) = {}"
    and "\<forall>evs\<in>set turns. from_clients I evs"
  shows "\<exists>ia' cs' s' lg out. serve_turns C src D turns ia cs s = Some (ia', cs', s') \<and> store_ok C src ia' (foldl effect M (map snd lg)) s' \<and>
    serialized M lg out \<and> (\<forall>i\<in>I. sent (snd (cs' i)) = sent (snd (cs i)) @ out i \<and> (\<exists>rest. rs i = of_client i lg @ rest) \<and>
      (length (chunks i) \<le> count_list (map fst (concat turns)) i \<longrightarrow> of_client i lg = rs i))"
proof -
  have "clients C src len I rs chunks ia M cs s"
    using assms(2-4) by (simp add: clients_def fresh_waiting)
  from serve_turns_clients [OF assms(1) this assms(5), of D] obtain ia' cs' s' lg out rs' css' where
    1: "serve_turns C src D turns ia cs s = Some (ia', cs', s')" "clients C src len I rs' css' ia' (foldl effect M (map snd lg)) cs' s'"
      "progress I M rs chunks cs lg out (map fst (concat turns)) rs' css' cs'"
    by blast
  have "of_client i lg = rs i" if i: "i \<in> I" and n: "length (chunks i) \<le> count_list (map fst (concat turns)) i" for i
  proof -
    have "css' i = []" "rs i = of_client i lg @ rs' i"
      using 1(3) i n by (auto simp: progress_def)
    moreover have "waiting C len (rs' i) (css' i) (fst (cs' i)) (snd (cs' i)) s'"
      using 1(2) i by (simp add: clients_def)
    ultimately show ?thesis
      using waiting_none(1) by fastforce
  qed
  moreover have "store_ok C src ia' (foldl effect M (map snd lg)) s'"
    using 1(2) by (simp add: clients_def store_for_def)
  moreover have "serialized M lg out" "\<forall>i\<in>I. sent (snd (cs' i)) = sent (snd (cs i)) @ out i \<and> (\<exists>rest. rs i = of_client i lg @ rest)"
    using 1(3) by (auto simp: progress_def)
  ultimately show ?thesis
    using 1(1) by (intro exI [of _ ia'] exI [of _ cs'] exI [of _ s'] exI [of _ lg] exI [of _ out]) blast
qed

text \<open>
  C37: the server answers every request. One processing thread serves a client that sends get and set requests of at most \<open>2\<^sup>1\<^sup>5\<close> bytes, cut into chunks of
  fewer than \<open>2\<^sup>1\<^sup>5\<close> bytes in any way, also with reads that block in the middle of a request, and that always takes some
  of what is written. After one event per chunk and blocked read the client has received the answers of the map
  of keys to values, one for each request and in their order; then nothing is left to read, other connections are as they were, and the store holds the resulting map.
  The set requests have to fit: values of the size of the store, keys of one length, and as many free places as requests; maintenance does not run.
\<close>

theorem server_answers_stream:
  assumes "store_for C src len (sets rs) ia M s" and "buffers_ok C c s" and "fresh_connection c" and "cs i = (c, k)"
    and "client_sends C len rs chunks k"
  shows "\<exists>ia' c' k' s' out. serve_turns C src D (replicate (length chunks) [(i, SS_EPOLLIN)]) ia cs s = Some (ia', cs(i := (c', k')), s') \<and>
    to_read k' = [] \<and> sent k' = sent k @ out \<and> replies M rs out \<and> store_ok C src ia' (foldl effect M rs) s'"
proof -
  let ?turns = "replicate (length chunks) [(i, SS_EPOLLIN)]"
  have "clients C src len {i} (\<lambda>_. rs) (\<lambda>_. chunks) ia M cs s"
    using assms by (simp add: clients_def fresh_waiting)
  moreover have "\<forall>evs\<in>set ?turns. from_clients {i} evs"
    by (simp add: from_clients_def)
  ultimately obtain ia' cs' s' lg out rs' css' where
    1: "serve_turns C src D ?turns ia cs s = Some (ia', cs', s')" "clients C src len {i} rs' css' ia' (foldl effect M (map snd lg)) cs' s'"
      "progress {i} M (\<lambda>_. rs) (\<lambda>_. chunks) cs lg out (map fst (concat ?turns)) rs' css' cs'"
    using serve_turns_clients [of "{i}" C src len "\<lambda>_. rs" "\<lambda>_. chunks" ia M cs s ?turns D] by blast
  have "count_list (map fst (concat (replicate n [(i, SS_EPOLLIN)]))) i = n" for n
    by (induction n) simp_all
  then have css: "css' i = []" and lg: "set (map fst lg) \<subseteq> {i}" and other: "\<forall>j. j \<noteq> i \<longrightarrow> cs' j = cs j"
    and out: "rs = of_client i lg @ rs' i" "sent (snd (cs' i)) = sent k @ out i" "serialized M lg out"
    using 1(3) assms(4) by (simp_all add: progress_def)
  have w: "waiting C len (rs' i) [] (fst (cs' i)) (snd (cs' i)) s'"
    using 1(2) css by (simp add: clients_def)
  have all: "of_client i lg = rs" "map snd lg = rs"
    using waiting_none(1) [OF w] out(1) of_client_all [OF lg] by simp_all
  have "cs' = cs(i := (fst (cs' i), snd (cs' i)))"
    using other by auto
  moreover have "replies M rs (out i)"
    using serialized_replies [OF out(3) lg] all(1) by simp
  moreover have "store_ok C src ia' (foldl effect M rs) s'"
    using 1(2) all(2) by (simp add: clients_def store_for_def)
  ultimately show ?thesis
    using 1(1) waiting_none(2) [OF w] out(2)
    by (intro exI [of _ ia'] exI [of _ "fst (cs' i)"] exI [of _ "snd (cs' i)"] exI [of _ s'] exI [of _ "out i"]) auto
qed

text \<open>A set request and a get request for the same key; in the middle of the first packet a read blocks.\<close>

definition demo_requests :: "request list" where
  "demo_requests = [Set_key [0, 0, 0, 1] [97, 98, 99, 100] [1, 2, 3, 4, 5, 6, 7, 8], Get_key [0, 0, 0, 2] [97, 98, 99, 100]]"

definition demo_packets :: "u8 list list" where
  "demo_packets = map (encode (replicate 3 0) (replicate 8 0) (replicate 8 0)) demo_requests"

definition demo_chunks :: "u8 list list" where
  "demo_chunks = [take 10 (concat demo_packets), [], drop 10 (concat demo_packets)]"

definition demo_connection :: server_connection where
  "demo_connection = \<lparr>c_it = NULL, c_rx_len = 0, c_rx_off = 0, c_tx_len = 0, c_tx_off = 0, c_epoll_wr = False, c_req_done = False,
     c_rx_buf = 2 ^ 32, c_tx_buf = 2 ^ 33\<rparr>"

definition demo_socket :: "u8 list list \<Rightarrow> socket" where
  "demo_socket chunks = \<lparr>to_read = map arrival chunks, to_write = replicate 72 (Accepts 7), sent = [], watch_out = False, is_open = True, epoll_ok = True\<rparr>"

lemma demo_store: "store_for (small_settings 64 2) small_source 4 1 (start_allocator small_source) Map.empty (small_store 64 2 0)"
proof -
  have "store_ok (small_settings 64 2) small_source (start_allocator small_source) Map.empty (small_store 64 2 0)"
    by (rule small_store_ok) simp_all
  moreover have "all_segments (small_settings 64 2) small_source (small_store 64 2 0)"
    by (simp add: all_segments_def small_store_frame small_settings_def small_source_def less_2_word)
  moreover have "1 \<le> item_places (small_settings 64 2) 4 (start_allocator small_source) (small_store 64 2 0)"
    by (simp add: item_places_def places_def small_store_frame small_settings_def)
  ultimately show ?thesis
    by (simp add: store_for_def)
qed

lemma demo_buffers: "buffers_ok (small_settings 64 2) demo_connection (small_store 64 2 0)"
  by (auto simp: buffers_ok_def outside_def demo_connection_def arena_def block_def small_store_frame small_settings_def)

lemma demo_stream: "list_all2 on_wire demo_requests demo_packets" "concat demo_packets = concat demo_chunks" "chunks_ok demo_chunks"
proof -
  show "list_all2 on_wire demo_requests demo_packets"
    unfolding demo_packets_def list_all2_map2 by (rule list_all2_refl) (unfold on_wire_def, intro exI conjI, simp_all)
  show "concat demo_packets = concat demo_chunks"
    by (simp only: demo_chunks_def concat.simps append_Nil append_Nil2 append_take_drop_id)
  define w where "w = concat demo_packets"
  have l: "length w = 72"
    by (simp add: w_def demo_packets_def demo_requests_def request_header_def)
  then show "chunks_ok demo_chunks"
    unfolding chunks_ok_def demo_chunks_def by (simp flip: w_def)
qed

lemma demo_client: "client_sends (small_settings 64 2) 4 demo_requests demo_chunks (demo_socket demo_chunks)"
  unfolding client_sends_def
proof (intro conjI exI)
  show "\<forall>r\<in>set demo_requests. servable (small_settings 64 2) r \<and> key_length 4 r \<and> request_size r \<le> 2 ^ 15"
    by (simp add: demo_requests_def key_length_def small_settings_def)
  show "willing (length demo_requests * (28 + unat (valuesize (small_settings 64 2)))) (demo_socket demo_chunks)"
    by (simp add: willing_def demo_socket_def demo_requests_def small_settings_def)
qed (rule demo_stream, rule demo_stream, rule demo_stream, simp add: demo_socket_def)

lemma demo_fresh: "fresh_connection demo_connection"
  by (simp add: fresh_connection_def idle_def demo_connection_def)

theorem server_answers_stream_witness:
  "\<exists>ia' c' k' s' out. serve_turns (small_settings 64 2) small_source (\<lambda>_ _ s. s) (replicate 3 [(0, SS_EPOLLIN)]) (start_allocator small_source)
       (\<lambda>_. (demo_connection, demo_socket demo_chunks)) (small_store 64 2 0) =
       Some (ia', (\<lambda>_. (demo_connection, demo_socket demo_chunks))(0 := (c', k')), s') \<and>
     sent k' = out \<and> replies Map.empty demo_requests out"
proof -
  have "sets demo_requests = 1" "length demo_chunks = 3" "sent (demo_socket demo_chunks) = []"
    by (simp_all add: demo_requests_def demo_chunks_def demo_socket_def)
  note n = this
  have "store_for (small_settings 64 2) small_source 4 (sets demo_requests) (start_allocator small_source) Map.empty (small_store 64 2 0)"
    unfolding n(1) by (rule demo_store)
  from server_answers_stream [OF this demo_buffers demo_fresh refl demo_client, where D = "\<lambda>_ _ s. s" and i = 0]
  show ?thesis
    unfolding n append_Nil by blast
qed

text \<open>A second connection, and the two requests on one connection each.\<close>

definition demo_part :: "nat \<Rightarrow> request list" where
  "demo_part i = (if i = 0 then take 1 demo_requests else drop 1 demo_requests)"

definition demo_part_chunks :: "nat \<Rightarrow> u8 list list" where
  "demo_part_chunks i = (let p = demo_packets ! i in [take 10 p, [], drop 10 p])"

definition demo_connections :: "nat \<Rightarrow> server_connection \<times> socket" where
  "demo_connections i =
     (if i = 0 then demo_connection else demo_connection\<lparr>c_rx_buf := 2 ^ 34, c_tx_buf := 2 ^ 35\<rparr>, demo_socket (demo_part_chunks i))"

lemma demo_part_client: "i < 2 \<Longrightarrow> client_sends (small_settings 64 2) 4 (demo_part i) (demo_part_chunks i) (snd (demo_connections i))"
  unfolding client_sends_def
proof (intro conjI exI)
  assume i: "i < 2"
  define p where "p = demo_packets ! i"
  have d: "demo_part i = [demo_requests ! i]" "length p = (if i = 0 then 44 else 28)"
    using i by (auto simp: less_2_cases_iff demo_part_def demo_requests_def p_def demo_packets_def request_header_def)
  show "list_all2 on_wire (demo_part i) [demo_packets ! i]"
    using demo_stream(1) i by (simp add: d(1) list_all2_conv_all_nth demo_requests_def)
  show "concat [demo_packets ! i] = concat (demo_part_chunks i)"
    by (simp add: demo_part_chunks_def Let_def)
  show "chunks_ok (demo_part_chunks i)"
  proof -
    have "length p < 2 ^ 15"
      using d(2) by (auto split: if_splits)
    then show ?thesis
      by (auto simp: chunks_ok_def demo_part_chunks_def Let_def min_def simp flip: p_def)
  qed
  show "to_read (snd (demo_connections i)) = map arrival (demo_part_chunks i)"
    by (simp add: demo_connections_def demo_socket_def)
  show "\<forall>r\<in>set (demo_part i). servable (small_settings 64 2) r \<and> key_length 4 r \<and> request_size r \<le> 2 ^ 15"
    by (simp add: demo_part_def demo_requests_def key_length_def small_settings_def)
  show "willing (length (demo_part i) * (28 + unat (valuesize (small_settings 64 2)))) (snd (demo_connections i))"
    by (simp add: d(1) willing_def demo_connections_def demo_socket_def small_settings_def)
qed

lemma demo_parts_apart: "i < 2 \<Longrightarrow> j < 2 \<Longrightarrow> i \<noteq> j \<Longrightarrow> buffer_area (fst (demo_connections i)) \<inter> buffer_area (fst (demo_connections j)) = {}"
  by (auto simp: less_2_cases_iff demo_connections_def buffer_area_def block_def demo_connection_def)

lemma demo_parts_buffers: "i < 2 \<Longrightarrow> buffers_ok (small_settings 64 2) (fst (demo_connections i)) (small_store 64 2 0)"
  using demo_buffers
  by (auto simp: demo_connections_def buffers_ok_def outside_def demo_connection_def arena_def block_def small_store_frame small_settings_def)

theorem server_serializes_witness:
  "\<exists>ia' cs' s' lg out. serve_turns (small_settings 64 2) small_source (\<lambda>_ _ s. s) [[(0, SS_EPOLLIN), (1, SS_EPOLLIN)], [(1, SS_EPOLLIN), (0, SS_EPOLLIN)], [(0, SS_EPOLLIN), (1, SS_EPOLLIN)]]
       (start_allocator small_source) demo_connections (small_store 64 2 0) = Some (ia', cs', s') \<and>
     serialized Map.empty lg out \<and> (\<forall>i<2. sent (snd (cs' i)) = out i \<and> of_client i lg = demo_part i)"
proof -
  let ?turns = "[[(0, SS_EPOLLIN), (1, SS_EPOLLIN)], [(1, SS_EPOLLIN), (0, SS_EPOLLIN)], [(0, SS_EPOLLIN), (1, SS_EPOLLIN)]] :: (nat \<times> u32) list list"
  have "(\<Sum>i\<in>{..<2}. sets (demo_part i)) = 1"
    by (simp add: numeral_2_eq_2 demo_part_def demo_requests_def)
  then have st: "store_for (small_settings 64 2) small_source 4 (\<Sum>i\<in>{..<2}. sets (demo_part i)) (start_allocator small_source) Map.empty (small_store 64 2 0)"
    using demo_store by simp
  have fresh: "fresh_connection (fst (demo_connections i))" for i
    by (simp add: demo_connections_def fresh_connection_def idle_def demo_connection_def)
  have cl: "\<forall>i\<in>{..<2}. buffers_ok (small_settings 64 2) (fst (demo_connections i)) (small_store 64 2 0) \<and> fresh_connection (fst (demo_connections i)) \<and>
      client_sends (small_settings 64 2) 4 (demo_part i) (demo_part_chunks i) (snd (demo_connections i))"
    using demo_parts_buffers fresh demo_part_client by simp
  have ap: "\<forall>i\<in>{..<2}. \<forall>j\<in>{..<2}. i \<noteq> j \<longrightarrow> buffer_area (fst (demo_connections i)) \<inter> buffer_area (fst (demo_connections j)) = {}"
    using demo_parts_apart by simp
  have ev: "\<forall>evs\<in>set ?turns. from_clients {..<2} evs"
    by (simp add: from_clients_def)
  have n: "length (demo_part_chunks i) = 3" "sent (snd (demo_connections i)) = []" for i
    by (simp_all add: demo_part_chunks_def Let_def demo_connections_def demo_socket_def)
  have c: "count_list (map fst (concat ?turns)) i = 3" if "i < 2" for i
    using that by (auto simp: less_2_cases_iff)
  from server_serializes [OF finite_lessThan st cl ap ev, where D = "\<lambda>_ _ s. s"] obtain ia' cs' s' lg out where
    "serve_turns (small_settings 64 2) small_source (\<lambda>_ _ s. s) ?turns (start_allocator small_source) demo_connections (small_store 64 2 0) = Some (ia', cs', s')"
    "serialized Map.empty lg out" "\<forall>i\<in>{..<2}. sent (snd (cs' i)) = [] @ out i \<and> (3 \<le> count_list (map fst (concat ?turns)) i \<longrightarrow> of_client i lg = demo_part i)"
    unfolding n by blast
  moreover from this(3) have "\<forall>i<2. sent (snd (cs' i)) = out i \<and> of_client i lg = demo_part i"
    using c by simp
  ultimately show ?thesis
    by blast
qed

end
