(* ===== verification/Kvs_Faults.thy ===== *)
theory Kvs_Faults
  imports Kvs_Clients
begin

text \<open>
  What the server does wrong: a connection that is closed drops a reference it no longer holds, a deleted key stays
  in the table, and a malformed request stops the process.
\<close>

section \<open>Lookups do not depend on counters\<close>

definition same_table :: "'a kvs_scheme \<Rightarrow> 'a kvs_scheme \<Rightarrow> bool" where
  "same_table s s' \<longleftrightarrow> nbuckets s' = nbuckets s \<and> buckets s' = buckets s \<and> kbytes s' = kbytes s \<and>
     (\<forall>p. \<exists>n. items s' p = (items s p)\<lparr>refcount := n\<rparr>)"

lemma same_table_items:
  assumes "same_table s s'"
  shows "hv (items s' p) = hv (items s p)" "keylen (items s' p) = keylen (items s p)" "vallen (items s' p) = vallen (items s p)"
    "next_item (items s' p) = next_item (items s p)"
proof -
  obtain n where n: "items s' p = (items s p)\<lparr>refcount := n\<rparr>"
    using assms by (auto simp: same_table_def)
  show "hv (items s' p) = hv (items s p)" "keylen (items s' p) = keylen (items s p)" "vallen (items s' p) = vallen (items s p)"
    "next_item (items s' p) = next_item (items s p)"
    by (simp_all add: n)
qed

lemma same_table_matches:
  assumes "same_table s s'"
  shows "item_key_matches s' = item_key_matches s" "item_hkey_matches s' = item_hkey_matches s" "slot_matches s' = slot_matches s"
proof -
  have kb: "kbytes s' = kbytes s" and bu: "buckets s' = buckets s"
    using assms by (simp_all add: same_table_def)
  show k: "item_key_matches s' = item_key_matches s"
    by (intro ext) (simp add: item_key_matches_def same_table_items [OF assms] kb)
  show "item_hkey_matches s' = item_hkey_matches s" "slot_matches s' = slot_matches s"
    by (intro ext; simp add: item_hkey_matches_def slot_matches_def same_table_items [OF assms] k bu)+
qed

lemma chain_find_same:
  assumes "chain_find s prev it key klen h = Some r" and "same_table s s'"
  shows "chain_find s' prev it key klen h = Some r"
proof (rule chain_find.raw_induct [where P = "\<lambda>s prev it key klen h r. same_table s s' \<longrightarrow> chain_find s' prev it key klen h = Some r", THEN mp, OF _ assms])
  fix find s prev it key klen h r
  assume IH: "\<And>s prev it key klen h r. find s prev it key klen h = Some r \<Longrightarrow> same_table s s' \<longrightarrow> chain_find s' prev it key klen h = Some r"
    and f: "(if it \<noteq> NULL \<and> \<not> item_hkey_matches s it key klen h then find s it (next_item (items s it)) key klen h else Some (prev, it)) = Some r"
  show "same_table s s' \<longrightarrow> chain_find s' prev it key klen h = Some r"
  proof
    assume st: "same_table s s'"
    then show "chain_find s' prev it key klen h = Some r"
      using IH f by (subst chain_find.simps) (auto simp: same_table_matches [OF st] same_table_items [OF st] split: if_splits)
  qed
qed

lemma hasht_get_same:
  assumes g: "hasht_get key klen h s = Some (it, t)" and st: "same_table s s'"
  shows "hasht_get key klen h s' = Some (it, if it \<noteq> NULL then item_ref it s' else s')"
proof -
  have f: "nbuckets s' = nbuckets s" "buckets s' = buckets s"
    using st by (simp_all add: same_table_def)
  note st' = same_table_matches [OF st] same_table_items [OF st]
  show ?thesis
    using g chain_find_same [OF _ st]
    by (auto simp: hasht_get_def Let_def f st' assert_def split: option.splits if_splits Option.bind_splits)
qed

section \<open>Closing a connection\<close>

text \<open>Writing a response does not touch the key of a packet.\<close>

lemma packet_key_kept:
  assumes b: "buffers_ok C c s" and n: "unat (c_rx_off c) + (24 + k) < 2 ^ 16" and req: "req = c_rx_buf c + ucast (c_rx_off c)"
    and kb: "\<And>a. unat a \<notin> block (c_tx_buf c) 65536 \<Longrightarrow> m' a = m a"
  shows "region m' (req + GET_HEADER) k = region m (req + GET_HEADER) k"
proof (rule region_block)
  note bp = buffer_parts [OF b n req]
  have u: "unat (req + GET_HEADER) = unat req + 24"
    using unat_offset [OF bp(1), of 24] by (simp add: c_consts)
  then show "unat (req + GET_HEADER) + k < 2 ^ 64"
    using bp(1) by simp
  show "m' a = m a" if "unat a \<in> block (req + GET_HEADER) k" for a
  proof (rule kb)
    have "unat a \<in> block req (24 + k)"
      using that by (auto simp: block_def u)
    then show "unat a \<notin> block (c_tx_buf c) 65536"
      using bp(3) by blast
  qed
qed

text \<open>A get request that finds its key leaves the connection with a pointer to the item, whose reference it has dropped.\<close>

lemma get_keeps_pointer:
  assumes ok: "store_ok C src ia M s" and b: "buffers_ok C c s" and c: "idle c" and w: "on_wire (Get_key opq key) xs" and sv: "servable C (Get_key opq key)"
    and m: "sees (kbytes s) (c_rx_buf c + ucast (c_rx_off c)) xs" and n: "unat (c_rx_off c) + length xs < 2 ^ 16" and key: "M key = Some v"
  obtains c' s' fs L ov where "conn_req_process C src D ia c k s = Some (0, ia, c', k, s')" "store_parts C src ia M fs L ov s'"
    "c_it c' \<in> entries s' ov" "ikbytes s' (c_it c') = key"
    "region (kbytes s') (c_rx_buf c + ucast (c_rx_off c) + GET_HEADER) (unat (ucast (of_nat (length key) :: u16) :: u64)) = key"
proof -
  define req where "req = c_rx_buf c + ucast (c_rx_off c)"
  define kl where "kl = (ucast (of_nat (length key) :: u16) :: u64)"
  obtain fs L ov where sp: "store_parts C src ia M fs L ov s"
    using ok by (auto simp: store_ok_def)
  from process_get [OF ok b c w sv m n, of D k] key obtain c' s' where
    p: "conn_req_process C src D ia c k s = Some (0, ia, c', k, s')" and fr: "seg_frame s s'"
      and i: "items s' = items s" "nbuckets s' = nbuckets s" "buckets s' = buckets s"
      and kb: "\<And>a. unat a \<notin> block (c_tx_buf c) 65536 \<Longrightarrow> kbytes s' a = kbytes s a"
      and g: "hasht_get (req + GET_HEADER) kl (hash_string key) s = Some (c_it c', item_ref (c_it c') s)"
    unfolding req_def kl_def get_done_def by blast
  note bp = buffer_parts [OF b n req_def]
  have len: "length key < 2 ^ 16" "length opq = 4" "length xs = 24 + length key"
    using sv on_wire_length [OF w sv] by simp_all
  have kl: "unat kl = length key"
    using len(1) by (simp add: kl_def unat_upcast unat_of_nat take_bit_nat_eq_self)
  have K: "region (kbytes s) (req + GET_HEADER) (unat kl) = key"
    using get_packet(6) [OF w len(2) m] by (simp add: kl sees_def req_def)
  have in_arena: "kbytes s' a = kbytes s a" if "unat a \<in> arena C s" for a
    using that bp(5) by (intro kb) auto
  have sp': "store_parts C src ia M fs L ov s'"
    by (rule store_parts_outside [OF sp fr i in_arena])
  have en: "entries s' ov = entries s ov"
    by (simp add: entries_def members_def i)
  obtain it where it: "it \<in> entries s ov" "ikbytes s it = key" "hasht_get (req + GET_HEADER) kl (hash_string key) s = Some (it, item_ref it s)"
    "block it (isize s it) \<subseteq> arena C s" "unat it + isize s it < 2 ^ 64"
    by (rule lookup_hit [OF sp K key]) blast
  have cit: "c_it c' = it"
    using g it(3) by simp
  have "ikbytes s' it = key"
    using item_bytes_same(1) [OF it(5), of s'] in_arena it(2,4) i(1) by auto
  moreover have "region (kbytes s') (req + GET_HEADER) (unat kl) = region (kbytes s) (req + GET_HEADER) (unat kl)"
    by (rule packet_key_kept [OF b _ req_def kb]) (use n len(3) kl in simp)
  ultimately show thesis
    using that [OF p sp'] it(1) en cit K unfolding req_def kl_def by simp
qed

text \<open>
  C38: closing a connection after a get request takes an item out of the store's hands. After the request has been answered, the
  connection still points to the item; \<^verbatim>\<open>conn_close\<close> drops a reference the connection does not have. The item's
  count is then 0 and its bytes are counted as freed, so that maintenance may give away the memory, but lookups still find it; and when another connection
  that has read the same key is closed, the process aborts.
\<close>

theorem close_drops_stored_item:
  assumes "store_ok C src ia M s" and "buffers_ok C c s" and "idle c" and "on_wire (Get_key opq key) packet" and "servable C (Get_key opq key)"
    and "sees (kbytes s) (c_rx_buf c + ucast (c_rx_off c)) packet" and "unat (c_rx_off c) + length packet < 2 ^ 16" and "M key = Some v"
  shows "\<exists>c' s' s2 h. conn_req_process C src D ia c k s = Some (0, ia, c', k, s') \<and> conn_close C c' k s' = Some (k\<lparr>is_open := False\<rparr>, s2) \<and>
    refcount (items s2 (c_it c')) = 0 \<and> seg_freed (segs s2 h) = seg_freed (segs s' h) + ucast (item_totalsz s' (c_it c')) \<and>
    segment_from_part C (c_it c') s' = Some h \<and>
    hasht_get (c_rx_buf c + ucast (c_rx_off c) + GET_HEADER) (ucast (of_nat (length key) :: u16)) (hash_string key) s2 =
      Some (c_it c', item_ref (c_it c') s2) \<and>
    (\<forall>c2 k2. c_it c2 = c_it c' \<longrightarrow> conn_close C c2 k2 s2 = None)"
proof -
  let ?p = "c_rx_buf c + ucast (c_rx_off c) + GET_HEADER" and ?kl = "ucast (of_nat (length key) :: u16) :: u64"
  obtain c' s' fs L ov where 1: "conn_req_process C src D ia c k s = Some (0, ia, c', k, s')" and sp: "store_parts C src ia M fs L ov s'"
    and it: "c_it c' \<in> entries s' ov" "ikbytes s' (c_it c') = key" and K: "region (kbytes s') ?p (unat ?kl) = key"
    by (rule get_keeps_pointer [OF assms])
  let ?it = "c_it c'"
  note p = store_partsD [OF sp]
  have rc: "refcount (items s' ?it) = 1"
    using p(4) [OF it(1)] by (simp add: item_ok_def)
  have nn: "?it \<noteq> NULL"
    using entry_member(2) [OF p(2) it(1)] .
  obtain it' where it': "it' \<in> entries s' ov" "ikbytes s' it' = key" "hasht_get ?p ?kl (hash_string key) s' = Some (it', item_ref it' s')"
    by (rule lookup_hit [OF sp K assms(8)]) blast
  have "it' = ?it"
    by (rule same_bytes_same_item [OF sp it'(1) it(1)]) (simp add: it'(2) it(2))
  with it'(3) have g: "hasht_get ?p ?kl (hash_string key) s' = Some (?it, item_ref ?it s')"
    by simp
  define s1 where "s1 = upd_item ?it (\<lambda>x. x\<lparr>refcount := 0\<rparr>) s'"
  have "item_home C s' ?it"
    using used_home [OF p(7)] p(8) [OF it(1)] by blast
  then obtain h where h: "segment_from_part C ?it s' = Some h" "h \<noteq> NULL"
    by (auto simp: item_home_def segment_from_part_def Let_def)
  define s2 where "s2 = upd_seg h (\<lambda>x. x\<lparr>seg_freed := seg_freed x + ucast (item_totalsz s' ?it)\<rparr>) s1"
  have t: "item_totalsz s1 ?it = item_totalsz s' ?it" "segment_from_part C ?it s1 = segment_from_part C ?it s'"
    by (simp_all add: s1_def item_totalsz_def segment_from_part_def Let_def)
  have "refcount (items s1 ?it) = 0"
    by (simp add: s1_def)
  then have "item_unref C ?it s' = Some s2"
    using h t rc by (simp add: item_unref_def ialloc_free_def segment_item_free_def s2_def flip: s1_def)
  then have close: "conn_close C c' k s' = Some (k\<lparr>is_open := False\<rparr>, s2)"
    using nn by (simp add: conn_close_def)
  have st: "same_table s' s2"
  proof -
    have "items s2 p = (items s' p)\<lparr>refcount := refcount (items s2 p)\<rparr>" for p
      by (simp add: s2_def s1_def)
    then have "\<forall>p. \<exists>n. items s2 p = (items s' p)\<lparr>refcount := n\<rparr>"
      by blast
    then show ?thesis
      by (simp add: same_table_def s2_def s1_def)
  qed
  have rc2: "refcount (items s2 ?it) = 0" "seg_freed (segs s2 h) = seg_freed (segs s' h) + ucast (item_totalsz s' ?it)"
    by (simp_all add: s2_def s1_def)
  have "conn_close C c2 k2 s2 = None" if "c_it c2 = ?it" for c2 k2
    using that nn rc2(1) by (simp add: conn_close_def item_unref_def)
  then show ?thesis
    using 1 close rc2 h(1) hasht_get_same [OF g st] nn by auto
qed

section \<open>Deleting a key\<close>

text \<open>Lookups in a state whose memory differs beside the segments.\<close>

lemma lookup_elsewhere:
  assumes sp: "store_parts C src ia M fs L ov s" and it: "it \<in> entries s ov" "ikbytes s it = K" and v: "M K = Some v"
    and K: "region m p (unat n) = K" and kb: "\<And>a. unat a \<in> arena C s \<Longrightarrow> m a = kbytes s a"
  shows "hasht_get p n (hash_string K) (s\<lparr>kbytes := m\<rparr>) = Some (it, item_ref it (s\<lparr>kbytes := m\<rparr>))" and "ivalue (s\<lparr>kbytes := m\<rparr>) it = v"
proof -
  let ?s = "s\<lparr>kbytes := m\<rparr>"
  have fr: "seg_frame s ?s"
    by (rule seg_frame_same) simp_all
  have sp': "store_parts C src ia M fs L ov ?s"
    by (rule store_parts_outside [OF sp fr]) (use kb in simp_all)
  have en: "entries ?s ov = entries s ov"
    by (simp add: entries_def members_def)
  have "block it (isize s it) \<subseteq> arena C s"
    using store_partsD(4) [OF sp it(1)] used_in_arena [OF store_partsD(7) [OF sp]] by (auto simp: item_ok_def)
  then have ik: "ikbytes ?s it = K"
    using item_bytes_same(1) [of it s ?s] store_partsD(8) [OF sp it(1)] kb it(2) by auto
  obtain it' where it': "it' \<in> entries ?s ov" "ikbytes ?s it' = K" "hasht_get p n (hash_string K) ?s = Some (it', item_ref it' ?s)" "ivalue ?s it' = v"
    by (rule lookup_hit [OF sp' _ v]) (use K in simp, blast)
  have "it' = it"
    by (rule same_bytes_same_item [OF sp' it'(1)]) (simp_all add: en it(1) it'(2) ik)
  then show "hasht_get p n (hash_string K) ?s = Some (it, item_ref it ?s)" "ivalue ?s it = v"
    using it'(3,4) by simp_all
qed

text \<open>A delete request that finds an item takes a reference to it and counts its bytes as freed, and that is all.\<close>

definition counted_freed :: "ptr \<Rightarrow> ptr \<Rightarrow> 'a kvs_scheme \<Rightarrow> 'a kvs_scheme" where
  "counted_freed it h s = upd_seg h (\<lambda>x. x\<lparr>seg_freed := seg_freed x + ucast (item_totalsz s it)\<rparr>) (item_ref it s)"

lemma counted_freed_fields [simp]:
  "kbytes (counted_freed it h s) = kbytes s" "nbuckets (counted_freed it h s) = nbuckets s" "buckets (counted_freed it h s) = buckets s"
  "refcount (items (counted_freed it h s) it) = refcount (items s it) + 1"
  "seg_freed (segs (counted_freed it h s) h) = seg_freed (segs s h) + ucast (item_totalsz s it)"
  by (simp_all add: counted_freed_def item_ref_def)

lemma counted_freed_item: "items (counted_freed it h s) p = (items s p)\<lparr>refcount := refcount (items (counted_freed it h s) p)\<rparr>"
  by (simp add: counted_freed_def item_ref_def)

lemma do_delete_found:
  assumes sp: "store_parts C src ia M fs L ov s" and it: "it \<in> entries s ov" "it \<noteq> NULL" and c: "idle c" and key: "sees (kbytes s) (req + GET_HEADER) key"
    and len: "length key < 2 ^ 16"
    and found: "hasht_get (req + GET_HEADER) (ucast (of_nat (length key) :: u16)) (hash_string key) s = Some (it, item_ref it s)"
    and page: "it AND 4095 \<noteq> 0" and refuse: "\<And>p k u. p AND 4095 \<noteq> 0 \<Longrightarrow> dont_need p k u = u"
  obtains h where "do_delete C dont_need req (of_nat (length key)) c s = Some (True, c\<lparr>c_it := it, c_req_done := True\<rparr>, counted_freed it h s)"
    "segment_from_part C it s = Some h"
proof -
  have "item_home C s it"
    using used_home [OF store_partsD(7) [OF sp]] store_partsD(8) [OF sp it(1)] by blast
  then obtain h where sg: "segment_from_part C it s = Some h" "h \<noteq> NULL"
    by (auto simp: item_home_def segment_from_part_def Let_def)
  have t: "item_totalsz (item_ref it s) it = item_totalsz s it" "segment_from_part C it (item_ref it s) = segment_from_part C it s"
    by (simp_all add: item_ref_def item_totalsz_def segment_from_part_def Let_def)
  have "ialloc_free_dont_need C dont_need it (item_totalsz (item_ref it s) it) (item_ref it s) = Some (counted_freed it h s)"
    using sg by (simp add: ialloc_free_dont_need_def t segment_item_free_def refuse [OF page] flip: counted_freed_def)
  then have "do_delete C dont_need req (of_nat (length key)) c s = Some (True, c\<lparr>c_it := it, c_req_done := True\<rparr>, counted_freed it h s)"
    using c it(2) found by (simp add: do_delete_def idle_def Let_def hash_at [OF key len])
  then show thesis
    using sg(1) by (rule that)
qed

lemma response_on_counted:
  assumes "s' = response_header tx opcode ext st bl req (counted_freed it h s)"
  shows "same_table (s\<lparr>kbytes := kbytes s'\<rparr>) s'" and "ivalue s' it = ivalue (s\<lparr>kbytes := kbytes s'\<rparr>) it"
    and "refcount (items s' it) = refcount (items s it) + 1" "seg_freed (segs s' h) = seg_freed (segs s h) + ucast (item_totalsz s it)"
proof -
  have i: "items s' = items (counted_freed it h s)"
    by (simp add: assms response_header_fields)
  have "items s' p = (items s p)\<lparr>refcount := refcount (items s' p)\<rparr>" for p
    unfolding i by (rule counted_freed_item)
  then have "\<forall>p. \<exists>n. items s' p = (items s p)\<lparr>refcount := n\<rparr>"
    by blast
  then show st: "same_table (s\<lparr>kbytes := kbytes s'\<rparr>) s'"
    by (simp add: same_table_def assms response_header_fields)
  show "ivalue s' it = ivalue (s\<lparr>kbytes := kbytes s'\<rparr>) it"
    using same_table_items [OF st, of it] by (simp add: ivalue_def item_value_def)
  show "refcount (items s' it) = refcount (items s it) + 1" "seg_freed (segs s' h) = seg_freed (segs s h) + ucast (item_totalsz s it)"
    by (simp_all add: i) (simp add: assms response_header_fields)
qed

lemma lookup_found:
  assumes "store_parts C src ia M fs L ov s" and "region (kbytes s) p (unat n) = K" "M K = Some v" and "hasht_get p n (hash_string K) s = Some (it, t)"
  shows "it \<in> entries s ov" "ikbytes s it = K" "hasht_get p n (hash_string K) s = Some (it, item_ref it s)" "it \<noteq> NULL" "refcount (items s it) = 1"
  using assms(4) by (auto intro: lookup_hit [OF assms(1-3)])

text \<open>
  C39: a key that has been deleted stays. The server answers a delete request with success, but the item is still
  in the table: a lookup finds it with its value, for as long as the item does not start a page, where
  \<^verbatim>\<open>madvise\<close> refuses to do anything. Its bytes are counted as freed all the same, and the
  reference the request has taken is never dropped.
\<close>

theorem deleted_key_stays:
  assumes ok: "store_ok C src ia M s" and b: "buffers_ok C c s" and c: "idle c" and n: "unat (c_rx_off c) + 24 + length key < 2 ^ 16"
    and req: "req = c_rx_buf c + ucast (c_rx_off c)" and hd: "kbytes s req = PROTOCOL_BINARY_REQ" "kbytes s (req + 1) = PROTOCOL_BINARY_CMD_DELETE"
      "be16 (kbytes s) (req + 2) = of_nat (length key)" "sees (kbytes s) (req + 12) opq" "length opq = 4" "sees (kbytes s) (req + GET_HEADER) key"
    and key: "M key = Some v"
    and found: "hasht_get (req + GET_HEADER) (ucast (of_nat (length key) :: u16)) (hash_string key) s = Some (it, t)"
    and page: "it AND 4095 \<noteq> 0" and refuse: "\<And>p k u. p AND 4095 \<noteq> 0 \<Longrightarrow> dont_need p k u = u"
  shows "\<exists>c' s' h. conn_req_process C src dont_need ia c k s = Some (0, ia, c', k, s') \<and>
    response PROTOCOL_BINARY_CMD_DELETE 4 RESPONSE_SUCCESS [] opq (region (kbytes s') (c_tx_buf c) 24) \<and>
    hasht_get (req + GET_HEADER) (ucast (of_nat (length key) :: u16)) (hash_string key) s' = Some (it, item_ref it s') \<and> ivalue s' it = v \<and>
    refcount (items s' it) = 2 \<and> segment_from_part C it s = Some h \<and> seg_freed (segs s' h) = seg_freed (segs s h) + ucast (item_totalsz s it)"
proof -
  let ?tx = "c_tx_buf c" and ?kl = "ucast (of_nat (length key) :: u16) :: u64"
  obtain fs L ov where sp: "store_parts C src ia M fs L ov s"
    using ok by (auto simp: store_ok_def)
  have n': "unat (c_rx_off c) + (24 + length key) < 2 ^ 16" and len: "length key < 2 ^ 16"
    using n by simp_all
  note bp = buffer_parts [OF b n' req]
  have kl: "unat ?kl = length key"
    using len by (simp add: unat_upcast unat_of_nat take_bit_nat_eq_self)
  have K: "region (kbytes s) (req + GET_HEADER) (unat ?kl) = key"
    using hd(6) unfolding kl by (simp add: sees_def)
  have it: "it \<in> entries s ov" "ikbytes s it = key" "hasht_get (req + GET_HEADER) ?kl (hash_string key) s = Some (it, item_ref it s)" "it \<noteq> NULL"
    "refcount (items s it) = 1"
    by (rule lookup_found [OF sp K key found])+
  obtain h where del: "do_delete C dont_need req (of_nat (length key)) c s = Some (True, c\<lparr>c_it := it, c_req_done := True\<rparr>, counted_freed it h s)"
    and sg: "segment_from_part C it s = Some h"
    by (rule do_delete_found [OF sp it(1,4) c hd(6) len it(3) page refuse])
  define s' where "s' = response_header ?tx PROTOCOL_BINARY_CMD_DELETE 4 RESPONSE_SUCCESS 0 req (counted_freed it h s)"
  have run: "conn_req_process C src dont_need ia c k s =
      Some (0, ia, request_done (ucast GET_HEADER + be32 (kbytes s) (req + 8)) RESPONSE_HEADER (c\<lparr>c_it := it, c_req_done := True\<rparr>), k, s')"
    using c hd(1-3) del by (simp add: conn_req_process_def idle_def Let_def s'_def c_consts flip: req)
  have d16: "unat ?tx + 16 < 2 ^ 64" "unat req + 16 < 2 ^ 64" "block ?tx 16 \<inter> block req 16 = {}"
    using bp by (auto simp: block_def)
  note w = response_header_bytes [OF d16 _ hd(5) s'_def, unfolded counted_freed_fields, OF hd(4)]
  have kb: "kbytes s' a = kbytes s a" if "unat a \<notin> block ?tx 65536" for a
    using w(2) that by (auto simp: block_def)
  have r: "response PROTOCOL_BINARY_CMD_DELETE 4 RESPONSE_SUCCESS [] opq (region (kbytes s') ?tx 24)"
    using response_written [of "kbytes s'" ?tx PROTOCOL_BINARY_CMD_DELETE 4 RESPONSE_SUCCESS "[]" opq] w(1) hd(5) by simp
  have key': "region (kbytes s') (req + GET_HEADER) (unat ?kl) = key"
    using K by (simp add: kl packet_key_kept [OF b n' req, of "kbytes s'", OF kb])
  have "kbytes s' a = kbytes s a" if "unat a \<in> arena C s" for a
    using that bp(5) by (intro kb) auto
  note lk = lookup_elsewhere [OF sp it(1,2) key key' this] and rc = response_on_counted [OF s'_def]
  show ?thesis
    using run r hasht_get_same [OF lk(1) rc(1)] lk(2) rc(2-4) it(4,5) sg by auto
qed

section \<open>Malformed requests\<close>

text \<open>
  C40: a set request for a key that is not stored, whose body is shorter than its key and its extras, aborts the server whose segments have at
  most 2 GB. The length of the value is computed as a difference of unsigned numbers and wraps around to almost 4 GB; the new item is then larger
  than a segment, which the allocator asserts it is not. (For a stored key the allocator is not asked; the code then copies
  the wrapped number of bytes over the stored value, which the theorem does not speak about.)
\<close>

theorem short_set_aborts:
  assumes ok: "store_ok C src ia M s" and c: "\<not> c_req_done c" and req: "req = c_rx_buf c + ucast (c_rx_off c)"
    and hd: "kbytes s req = PROTOCOL_BINARY_REQ" "kbytes s (req + 1) = PROTOCOL_BINARY_CMD_SET"
    and short: "unat (be32 (kbytes s) (req + 8)) < unat (be16 (kbytes s) (req + 2)) + unat (kbytes s (req + 4))"
    and new: "M (region (kbytes s) (req + SET_HEADER) (unat (be16 (kbytes s) (req + 2)))) = None"
    and seg: "unat (segsize C) \<le> 2 ^ 31"
  shows "conn_req_process C src dont_need ia c k s = None"
proof -
  define kl bl ext where "kl = be16 (kbytes s) (req + 2)" and "bl = be32 (kbytes s) (req + 8)" and "ext = kbytes s (req + 4)"
  define vl where "vl = bl - ucast kl - ucast ext"
  define K where "K = region (kbytes s) (req + SET_HEADER) (unat (ucast kl :: u64))"
  obtain fs L ov where sp: "store_parts C src ia M fs L ov s"
    using ok by (auto simp: store_ok_def)
  have u: "unat (ucast kl :: u32) = unat kl" "unat (ucast ext :: u32) = unat ext" "unat kl < 2 ^ 16" "unat ext < 2 ^ 8"
    using unsigned_less [of kl, where 'a = nat] unsigned_less [of ext, where 'a = nat] by (simp_all add: unsigned_ucast_eq take_bit_nat_eq_self)
  have s: "unat (ucast kl + ucast ext :: u32) = unat kl + unat ext"
    using u by (simp add: unat_word_ariths)
  have "unat vl = 2 ^ 32 + unat bl - (unat kl + unat ext)"
    using short unsigned_less [of bl, where 'a = nat] u(3,4)
    unfolding vl_def diff_diff_eq kl_def [symmetric] bl_def [symmetric] ext_def [symmetric]
    by (simp add: unat_sub_if' s)
  then have big: "2 ^ 31 \<le> unat kl + unat vl" "unat kl + unat vl < 2 ^ 33"
    using u(3,4) short unsigned_less [of vl, where 'a = nat] by simp_all
  have "unat (ITEM_SIZE + ucast kl + ucast vl) = 24 + unat kl + unat vl"
    using big by (simp add: c_consts unat_word_ariths unsigned_ucast_eq take_bit_nat_eq_self)
  then have "ialloc_alloc C src (ITEM_SIZE + ucast kl + ucast vl) False ia s = None"
    using big seg by (simp add: ialloc_alloc_def word_less_nat_alt)
  moreover have "hasht_get (req + SET_HEADER) (ucast kl) (hash_string K) s = Some (NULL, s)"
    by (rule lookup_miss [OF sp K_def [symmetric]]) (use new in \<open>simp add: K_def kl_def unat_upcast\<close>)
  moreover have "jenkins_hash (kbytes s) (req + SET_HEADER) (ucast kl) = hash_string K"
    by (simp add: jenkins_hash_eq K_def)
  ultimately have "do_set C src req kl vl ia c s = None"
    using c by (simp add: do_set_def Let_def)
  then show ?thesis
    using hd by (simp add: conn_req_process_def Let_def c_consts flip: req kl_def bl_def ext_def vl_def)
qed

section \<open>A store to try this on\<close>

text \<open>Two segments of 64 bytes, which do not start at a page, and a connection that has received the bytes \<open>xs\<close>.\<close>

definition try_store :: kvs where
  "try_store = start_store (small_settings 64 2) small_source (2 ^ 20 + 16) 0 demo_kvs"

definition try_state :: "u8 list \<Rightarrow> kvs" where
  "try_state xs = put_bytes (2 ^ 32) xs try_store"

definition try_connection :: "u8 list \<Rightarrow> server_connection" where
  "try_connection xs = demo_connection\<lparr>c_rx_len := of_nat (length xs)\<rparr>"

lemma try_received:
  assumes "length xs < 2 ^ 16"
  shows "store_for (small_settings 64 2) small_source 4 1 (start_allocator small_source) Map.empty (try_state xs)"
    and "ready (small_settings 64 2) (try_connection xs) xs (try_state xs)"
proof -
  let ?C = "small_settings 64 2"
  have su: "startable ?C small_source (2 ^ 20 + 16)"
    using small_startable [of 64 2] by (simp add: startable_def small_settings_def)
  have ok: "store_ok ?C small_source (start_allocator small_source) Map.empty try_store"
    unfolding try_store_def by (rule start_ok [OF su]) simp
  have f: "seg_base try_store = 2 ^ 20 + 16" "free_segments try_store = NULL" "seg_alloced try_store = 2"
    by (simp_all add: try_store_def start_store_frame)
  have "seg_offset (segs try_store (cur (start_allocator small_source))) = 0"
    using start_store_segs(1) [of small_source ?C "2 ^ 20 + 16" 0 demo_kvs] by (simp add: try_store_def start_allocator_def small_source_def)
  then have st: "store_for ?C small_source 4 1 (start_allocator small_source) Map.empty try_store"
    using ok by (simp add: store_for_def all_segments_def item_places_def places_def f small_settings_def small_source_def less_2_word)
  have b: "buffers_ok ?C demo_connection try_store"
    by (auto simp: buffers_ok_def outside_def demo_connection_def arena_def block_def f small_settings_def)
  have r: "received demo_connection xs try_store (try_state xs)" "unat (of_nat (length xs) :: u16) = length xs"
    using append_received [OF b, of "[]" xs] assms by (simp_all add: try_state_def demo_connection_def)
  obtain m where m: "try_state xs = try_store\<lparr>kbytes := m\<rparr>" "\<And>a. unat a \<notin> block (c_rx_buf demo_connection) 65536 \<Longrightarrow> m a = kbytes try_store a"
    using r(1) by (auto simp: received_def)
  show "store_for ?C small_source 4 1 (start_allocator small_source) Map.empty (try_state xs)"
    by (rule store_for_received [OF st b m])
  have "buffers_ok ?C (try_connection xs) (try_state xs)"
    by (rule buffers_ok_cong [OF b]) (simp_all add: try_connection_def received_arena [OF r(1)])
  then show "ready ?C (try_connection xs) xs (try_state xs)"
    using r by (simp add: ready_def received_def try_connection_def idle_def) (simp add: demo_connection_def)
qed

definition try_key :: "u8 list" where "try_key = [97, 98, 99, 100]"
definition try_value :: "u8 list" where "try_value = [1, 2, 3, 4, 5, 6, 7, 8]"

definition try_set :: request where "try_set = Set_key [0, 0, 0, 1] try_key try_value"

definition try_packet :: "request \<Rightarrow> u8 list" where
  "try_packet r = encode (replicate 3 0) (replicate 8 0) (replicate 8 0) r"

lemma try_on_wire: "on_wire r (try_packet r)"
  unfolding on_wire_def try_packet_def by (intro exI conjI) simp_all

text \<open>After the set request, with further bytes in the buffer.\<close>

lemma try_loaded:
  assumes "length xs < 2 ^ 15"
  obtains ia c and s :: kvs where "store_ok (small_settings 64 2) small_source ia [try_key \<mapsto> try_value] s" "ready (small_settings 64 2) c xs s"
    "arena (small_settings 64 2) s = {2 ^ 20 + 16..<2 ^ 20 + 144}"
proof -
  let ?C = "small_settings 64 2"
  define ys where "ys = try_packet try_set @ xs"
  have "length (try_packet try_set) = 44"
    by (simp add: try_packet_def try_set_def try_key_def try_value_def request_header_def)
  then have l: "length ys < 2 ^ 16"
    using assms by (simp add: ys_def)
  note r = try_received [OF l]
  have st: "store_for ?C small_source 4 (sets [try_set] + 0) (start_allocator small_source) Map.empty (try_state ys)"
    using r(1) by (simp add: try_set_def)
  have sv: "servable ?C try_set" "key_length 4 try_set"
    by (simp_all add: try_set_def try_key_def try_value_def small_settings_def key_length_def)
  have w: "willing (28 + unat (valuesize ?C) + 0) (demo_socket [])"
    by (simp add: willing_def demo_socket_def small_settings_def)
  have rd: "ready ?C (try_connection ys) (try_packet try_set @ xs) (try_state ys)"
    using r(2) by (simp add: ys_def)
  obtain ia c and s :: kvs where 1: "store_for ?C small_source 4 0 ia (effect Map.empty try_set) s" "ready ?C c xs s" "touches ?C (try_connection ys) (try_state ys) s"
    using request_served [OF st rd try_on_wire sv w, where D = "\<lambda>_ _ s. s"] by (elim exE conjE) (rule that, assumption+)
  have "arena ?C (try_state ys) = {2 ^ 20 + 16..<2 ^ 20 + 144}"
    by (simp add: arena_def try_state_def try_store_def start_store_frame small_settings_def)
  then show thesis
    using that [of ia s c] 1 by (simp add: store_for_def try_set_def touches_def)
qed

lemma ready_buffer:
  assumes "ready C c xs s"
  shows "buffers_ok C c s" "idle c" "sees (kbytes s) (c_rx_buf c + ucast (c_rx_off c)) xs" "unat (c_rx_off c) + length xs < 2 ^ 16"
  using assms unsigned_less [of "c_rx_len c", where 'a = nat] by (simp_all add: ready_def)

definition try_get :: request where "try_get = Get_key [0, 0, 0, 2] try_key"

theorem close_drops_stored_item_witness:
  "\<exists>ia c (s :: kvs) c' s' s2. store_ok (small_settings 64 2) small_source ia [try_key \<mapsto> try_value] s \<and>
     conn_req_process (small_settings 64 2) small_source (\<lambda>_ _ s. s) ia c (demo_socket []) s = Some (0, ia, c', demo_socket [], s') \<and>
     conn_close (small_settings 64 2) c' (demo_socket []) s' = Some ((demo_socket [])\<lparr>is_open := False\<rparr>, s2) \<and>
     conn_close (small_settings 64 2) c' (demo_socket []) s2 = None"
proof -
  let ?C = "small_settings 64 2"
  have "length (try_packet try_get) < 2 ^ 15"
    by (simp add: try_packet_def try_get_def try_key_def request_header_def)
  then obtain ia c and s :: kvs where l: "store_ok ?C small_source ia [try_key \<mapsto> try_value] s" "ready ?C c (try_packet try_get) s"
    by (rule try_loaded)
  note rd = ready_buffer [OF l(2)]
  have sv: "servable ?C (Get_key [0, 0, 0, 2] try_key)" and key: "[try_key \<mapsto> try_value] try_key = Some try_value"
    by (simp_all add: try_key_def small_settings_def)
  show ?thesis
    using close_drops_stored_item [OF l(1) rd(1,2) try_on_wire sv rd(3,4) [unfolded try_get_def] key, of "\<lambda>_ _ s. s" "demo_socket []"] l(1) by blast
qed

definition delete_packet :: "u8 list" where
  "delete_packet = request_header PROTOCOL_BINARY_CMD_DELETE 4 0 [0, 0, 0] 4 [0, 0, 0, 3] (replicate 8 0) @ try_key"

lemma not_at_page:
  fixes a :: u64
  assumes "2 ^ 20 + 16 \<le> unat a" and "unat a < 2 ^ 20 + 144"
  shows "a AND 4095 \<noteq> 0"
proof
  assume "a AND 4095 = 0"
  moreover have "a AND 4095 = take_bit 12 a"
    by (simp add: take_bit_eq_mask mask_eq_exp_minus_1)
  ultimately have "unat a mod 2 ^ 12 = 0"
    by (metis take_bit_eq_mod unat_0 unsigned_take_bit_eq)
  then obtain k where "unat a = 4096 * k"
    by auto
  then show False
    using assms by (cases "k \<le> 256") simp_all
qed

theorem deleted_key_stays_witness:
  "\<exists>ia c (s :: kvs) c' s' it. store_ok (small_settings 64 2) small_source ia [try_key \<mapsto> try_value] s \<and>
     conn_req_process (small_settings 64 2) small_source (\<lambda>_ _ s. s) ia c (demo_socket []) s = Some (0, ia, c', demo_socket [], s') \<and>
     response PROTOCOL_BINARY_CMD_DELETE 4 RESPONSE_SUCCESS [] [0, 0, 0, 3] (region (kbytes s') (c_tx_buf c) 24) \<and> ivalue s' it = try_value"
proof -
  let ?C = "small_settings 64 2"
  have len: "length delete_packet = 28"
    by (simp add: delete_packet_def try_key_def request_header_def)
  then have "length delete_packet < 2 ^ 15"
    by simp
  then obtain ia c and s :: kvs where l: "store_ok ?C small_source ia [try_key \<mapsto> try_value] s" "ready ?C c delete_packet s"
    and ar: "arena ?C s = {2 ^ 20 + 16..<2 ^ 20 + 144}"
    by (rule try_loaded)
  note rd = ready_buffer [OF l(2)]
  define req where "req = c_rx_buf c + ucast (c_rx_off c)"
  have k4: "length try_key = 4"
    by (simp add: try_key_def)
  have m: "sees (kbytes s) req delete_packet"
    using rd(3) by (simp add: req_def)
  then have hd: "kbytes s req = PROTOCOL_BINARY_REQ" "kbytes s (req + 1) = PROTOCOL_BINARY_CMD_DELETE" "be16 (kbytes s) (req + 2) = of_nat (length try_key)"
    "sees (kbytes s) (req + 12) [0, 0, 0, 3]" "sees (kbytes s) (req + GET_HEADER) try_key"
    using be16_read [of "kbytes s" "req + 2" 4]
    by (simp_all add: delete_packet_def request_header_def sees_append sees_Cons add.assoc c_consts k4)
  obtain fs L ov where sp: "store_parts ?C small_source ia [try_key \<mapsto> try_value] fs L ov s"
    using l(1) by (auto simp: store_ok_def)
  have K: "region (kbytes s) (req + GET_HEADER) (unat (ucast (of_nat (length try_key) :: u16) :: u64)) = try_key"
    using hd(5) by (simp add: sees_def k4)
  obtain it where it: "hasht_get (req + GET_HEADER) (ucast (of_nat (length try_key) :: u16)) (hash_string try_key) s = Some (it, item_ref it s)"
    "block it (isize s it) \<subseteq> arena ?C s"
    by (rule lookup_hit [OF sp K, of try_value]) (simp, blast)
  have "unat it \<in> arena ?C s"
    using it(2) by (auto simp: block_def isize_def)
  then have page: "it AND 4095 \<noteq> 0"
    unfolding ar by (intro not_at_page) simp_all
  have "unat (c_rx_off c) + 24 + length try_key < 2 ^ 16" "length [0 :: u8, 0, 0, 3] = 4" "[try_key \<mapsto> try_value] try_key = Some try_value"
    using rd(4) by (simp_all add: len k4)
  from deleted_key_stays [OF l(1) rd(1,2) this(1) req_def hd(1-4) this(2) hd(5) this(3) it(1) page, where dont_need = "\<lambda>_ _ s. s" and k = "demo_socket []"]
  show ?thesis
    using l(1) by blast
qed

text \<open>A set request with a key of four bytes, extras of eight bytes and no body.\<close>

definition short_packet :: "u8 list" where
  "short_packet = request_header PROTOCOL_BINARY_CMD_SET 4 8 [0, 0, 0] 0 [0, 0, 0, 4] (replicate 8 0) @ replicate 12 0"

theorem short_set_aborts_witness:
  "conn_req_process (small_settings 64 2) small_source (\<lambda>_ _ s. s) (start_allocator small_source) (try_connection short_packet) (demo_socket [])
     (try_state short_packet) = None"
proof -
  have len: "length short_packet < 2 ^ 16"
    by (simp add: short_packet_def request_header_def)
  note r = try_received [OF len]
  note rd = ready_buffer [OF r(2)]
  define req where "req = c_rx_buf (try_connection short_packet) + ucast (c_rx_off (try_connection short_packet))"
  have m: "sees (kbytes (try_state short_packet)) req short_packet"
    using rd(3) by (simp add: req_def)
  have b: "be32 (kbytes (try_state short_packet)) (req + 8) = 0" "be16 (kbytes (try_state short_packet)) (req + 2) = 4"
    using m be16_read [of "kbytes (try_state short_packet)" "req + 2" 4] be32_read [of "kbytes (try_state short_packet)" "req + 8" 0]
    by (simp_all add: short_packet_def request_header_def sees_append sees_Cons add.assoc)
  show ?thesis
  proof (rule short_set_aborts [OF _ _ req_def])
    show "store_ok (small_settings 64 2) small_source (start_allocator small_source) Map.empty (try_state short_packet)"
      using r(1) by (simp add: store_for_def)
    show "\<not> c_req_done (try_connection short_packet)"
      using rd(2) by (simp add: idle_def)
    show "kbytes (try_state short_packet) req = PROTOCOL_BINARY_REQ" "kbytes (try_state short_packet) (req + 1) = PROTOCOL_BINARY_CMD_SET"
      using m by (simp_all add: short_packet_def request_header_def sees_Cons)
    show "unat (be32 (kbytes (try_state short_packet)) (req + 8)) < unat (be16 (kbytes (try_state short_packet)) (req + 2)) + unat (kbytes (try_state short_packet) (req + 4))"
      by (simp add: b)
  qed (simp_all add: small_settings_def)
qed

end
