(* ===== verification/Paging.thy ===== *)
theory Paging
  imports Lru
begin

text \<open>
  \<^verbatim>\<open>policies/paging.c\<close>: the walk over the x86 page tables in physical memory, which is mapped page by page from
  \<^verbatim>\<open>/dev/mem\<close>. The walk writes text files; their lines are collected in the order in which they are written.
  (The functions between \<^verbatim>\<open>#if 0\<close> and \<^verbatim>\<open>#endif\<close>, and those for \<^verbatim>\<open>EXAMINE_PGTABLES\<close>, are not compiled.)
\<close>

section \<open>Constants\<close>

definition ADDRESS_MASK :: u64 where "ADDRESS_MASK = 0x00000ffffffff000"
definition FLAGS_MASK :: u64 where "FLAGS_MASK = 0xfff"
definition HEMEM_PRESENT_FLAG :: u64 where "HEMEM_PRESENT_FLAG = 0x1"
definition HEMEM_WRITE_FLAG :: u64 where "HEMEM_WRITE_FLAG = 0x2"
definition HEMEM_USER_FLAG :: u64 where "HEMEM_USER_FLAG = 0x4"
definition HEMEM_PWT_FLAG :: u64 where "HEMEM_PWT_FLAG = 0x8"
definition HEMEM_PCD_FLAG :: u64 where "HEMEM_PCD_FLAG = 0x10"
definition HEMEM_HUGEPAGE_FLAG :: u64 where "HEMEM_HUGEPAGE_FLAG = 0x80"

definition HEMEM_PAGE_WALK_FLAGS :: u64 where
  "HEMEM_PAGE_WALK_FLAGS = HEMEM_PRESENT_FLAG OR HEMEM_WRITE_FLAG OR HEMEM_USER_FLAG OR HEMEM_ACCESSED_FLAG OR HEMEM_DIRTY_FLAG"

definition HEMEM_PWTPCD_FLAGS :: u64 where
  "HEMEM_PWTPCD_FLAGS = HEMEM_PWT_FLAG OR HEMEM_PCD_FLAG"

lemmas flag_defs = ADDRESS_MASK_def FLAGS_MASK_def HEMEM_PRESENT_FLAG_def HEMEM_WRITE_FLAG_def HEMEM_USER_FLAG_def HEMEM_PWT_FLAG_def
  HEMEM_PCD_FLAG_def HEMEM_HUGEPAGE_FLAG_def HEMEM_PAGE_WALK_FLAGS_def HEMEM_PWTPCD_FLAGS_def

section \<open>Walks\<close>

datatype table_level = Pml4e | Pdtpe | Pde | Pte

text \<open>A line of the dump of one level, or of the file of valid entries.\<close>

datatype log_line = Dump table_level u64 | Valid table_level nat u64

text \<open>What the walk depends on: physical memory, the mappings of it and the files that can be had, and the register \<^verbatim>\<open>cr3\<close>.\<close>

record machine =
  phys :: "u64 \<Rightarrow> u64"
  devmem_ok :: "u64 \<Rightarrow> bool"
  fopen_ok :: "string \<Rightarrow> bool"
  cr3 :: u64

definition table_entry :: "machine \<Rightarrow> u64 \<Rightarrow> nat \<Rightarrow> u64" where
  "table_entry E table i = phys E (table + 8 * of_nat i)"

fun for_each :: "('i \<Rightarrow> 's \<Rightarrow> 's option) \<Rightarrow> 'i list \<Rightarrow> 's \<Rightarrow> 's option" where
  "for_each f [] s = Some s"
| "for_each f (i # is) s = do { s \<leftarrow> f i s; for_each f is s }"

text \<open>The test in front of each entry the walk follows.\<close>

definition walkable :: "u64 \<Rightarrow> bool" where
  "walkable e \<longleftrightarrow> (e AND FLAGS_MASK) AND HEMEM_PAGE_WALK_FLAGS = HEMEM_PAGE_WALK_FLAGS \<and> (e AND FLAGS_MASK) AND HEMEM_PWTPCD_FLAGS = 0"

definition scan_fourth_level :: "machine \<Rightarrow> u64 \<Rightarrow> bool \<Rightarrow> u64 \<Rightarrow> log_line list \<Rightarrow> log_line list option" where
  "scan_fourth_level E pde clear_flag flag out = do {
     let table = pde AND ADDRESS_MASK;
     assert (devmem_ok E table);
     for_each (\<lambda>i out.
       let pte = table_entry E table i;
           out = out @ [Dump Pte pte]
       in if walkable pte then
            let out = out @ [Valid Pte i pte];
                pte = (if clear_flag then pte AND NOT flag else pte)
            in Some out
          else Some out) [0..<512] out
   }"

definition scan_third_level :: "machine \<Rightarrow> u64 \<Rightarrow> bool \<Rightarrow> u64 \<Rightarrow> log_line list \<Rightarrow> log_line list option" where
  "scan_third_level E pdtpe clear_flag flag out = do {
     let table = pdtpe AND ADDRESS_MASK;
     assert (devmem_ok E table);
     for_each (\<lambda>i out.
       let pde = table_entry E table i;
           out = out @ [Dump Pde pde]
       in if walkable pde then scan_fourth_level E pde clear_flag flag (out @ [Valid Pde i pde]) else Some out) [0..<512] out
   }"

definition scan_second_level :: "machine \<Rightarrow> u64 \<Rightarrow> bool \<Rightarrow> u64 \<Rightarrow> log_line list \<Rightarrow> log_line list option" where
  "scan_second_level E pml4e clear_flag flag out = do {
     let table = pml4e AND ADDRESS_MASK;
     assert (devmem_ok E table);
     for_each (\<lambda>i out.
       let pdtpe = table_entry E table i;
           out = out @ [Dump Pdtpe pdtpe]
       in if walkable pdtpe then scan_third_level E pdtpe clear_flag flag (out @ [Valid Pdtpe i pdtpe]) else Some out) [0..<512] out
   }"

definition scan_pagetable_flag :: "machine \<Rightarrow> bool \<Rightarrow> u64 \<Rightarrow> log_line list option" where
  "scan_pagetable_flag E clear_flag flag = do {
     assert (fopen_ok E ''logs/pml4es.txt'');
     assert (fopen_ok E ''logs/pdtpes.txt'');
     assert (fopen_ok E ''logs/pdes.txt'');
     assert (fopen_ok E ''logs/ptes.txt'');
     assert (fopen_ok E ''logs/valid.txt'');
     let table = cr3 E AND ADDRESS_MASK;
     assert (devmem_ok E table);
     for_each (\<lambda>i out.
       let pml4e = table_entry E table i;
           out = out @ [Dump Pml4e pml4e]
       in if walkable pml4e then scan_second_level E pml4e clear_flag flag (out @ [Valid Pml4e i pml4e]) else Some out) [0..<512] []
   }"

definition scan_pagetable :: "machine \<Rightarrow> log_line list option" where
  "scan_pagetable E = scan_pagetable_flag E False 0"

section \<open>What the walk finds\<close>

text \<open>A step that only adds lines adds, over a loop, the lines of all indices.\<close>

lemma for_each_append:
  assumes "\<And>i out. i \<in> set is \<Longrightarrow> f i out = Some (out @ g i)"
  shows "for_each f is out = Some (out @ concat (map g is))"
  using assms by (induction "is" arbitrary: out) auto

definition step_to :: "machine \<Rightarrow> u64 \<Rightarrow> nat \<Rightarrow> u64 \<Rightarrow> bool" where
  "step_to E e i e' \<longleftrightarrow> i < 512 \<and> e' = table_entry E (e AND ADDRESS_MASK) i \<and> walkable e'"

text \<open>The lines below an entry, for the four levels.\<close>

definition level_lines :: "table_level \<Rightarrow> (u64 \<Rightarrow> log_line list) \<Rightarrow> machine \<Rightarrow> u64 \<Rightarrow> log_line list" where
  "level_lines L below E e = concat (map (\<lambda>i. let x = table_entry E (e AND ADDRESS_MASK) i in
     Dump L x # (if walkable x then Valid L i x # below x else [])) [0..<512])"

abbreviation lines4 :: "machine \<Rightarrow> u64 \<Rightarrow> log_line list" where "lines4 \<equiv> level_lines Pte (\<lambda>_. [])"
abbreviation lines3 :: "machine \<Rightarrow> u64 \<Rightarrow> log_line list" where "lines3 E \<equiv> level_lines Pde (lines4 E) E"
abbreviation lines2 :: "machine \<Rightarrow> u64 \<Rightarrow> log_line list" where "lines2 E \<equiv> level_lines Pdtpe (lines3 E) E"
abbreviation lines1 :: "machine \<Rightarrow> u64 \<Rightarrow> log_line list" where "lines1 E \<equiv> level_lines Pml4e (lines2 E) E"

lemma scan_lines:
  assumes "\<And>a. devmem_ok E a"
  shows "scan_fourth_level E e c f out = Some (out @ lines4 E e)"
    and "scan_third_level E e c f out = Some (out @ lines3 E e)"
    and "scan_second_level E e c f out = Some (out @ lines2 E e)"
proof -
  show 4: "scan_fourth_level E e c f out = Some (out @ lines4 E e)" for e out
    unfolding scan_fourth_level_def level_lines_def
    by (simp add: assms Let_def) (rule for_each_append, simp)
  show 3: "scan_third_level E e c f out = Some (out @ lines3 E e)" for e out
    unfolding scan_third_level_def level_lines_def [of Pde]
    by (simp add: assms Let_def) (rule for_each_append, simp add: 4)
  show "scan_second_level E e c f out = Some (out @ lines2 E e)"
    unfolding scan_second_level_def level_lines_def [of Pdtpe]
    by (simp add: assms Let_def) (rule for_each_append, simp add: 3)
qed

lemma valid_line:
  "Valid K i x \<in> set (level_lines L below E e) \<longleftrightarrow>
     (K = L \<and> step_to E e i x) \<or> (\<exists>j y. step_to E e j y \<and> Valid K i x \<in> set (below y))"
  by (auto simp: level_lines_def step_to_def Let_def)

text \<open>
  C35: the walk reports what is mapped. If the files can be opened and physical memory be mapped, the walk ends, and a page
  table entry is listed as valid exactly if a path of four entries that pass the test leads to it from \<^verbatim>\<open>cr3\<close>. The
  argument \<^verbatim>\<open>clear_flag\<close> makes no difference to what is reported.
\<close>

theorem scan_reports_mapped:
  assumes "\<And>a. devmem_ok E a" and "\<And>p. fopen_ok E p"
  shows "\<exists>out. scan_pagetable_flag E clear_flag flag = Some out \<and> scan_pagetable E = Some out \<and>
    (\<forall>i e. Valid Pte i e \<in> set out \<longleftrightarrow>
       (\<exists>i1 e1 i2 e2 i3 e3. step_to E (cr3 E) i1 e1 \<and> step_to E e1 i2 e2 \<and> step_to E e2 i3 e3 \<and> step_to E e3 i e))"
proof -
  have run: "scan_pagetable_flag E c f = Some (lines1 E (cr3 E))" for c f
    unfolding scan_pagetable_flag_def level_lines_def [of Pml4e]
    by (simp add: assms Let_def) (subst for_each_append; simp add: scan_lines [OF assms(1)])
  show ?thesis
    unfolding scan_pagetable_def run by (auto simp: valid_line)
qed

text \<open>A machine whose only table, at physical address 4096, points to itself with its entry 3.\<close>

definition loop_machine :: machine where
  "loop_machine = \<lparr>phys = (\<lambda>a. if a = 4096 + 24 then 4096 OR 0x67 else 0), devmem_ok = (\<lambda>_. True), fopen_ok = (\<lambda>_. True), cr3 = 4096\<rparr>"

theorem scan_reports_mapped_witness:
  "\<exists>out. scan_pagetable_flag loop_machine True HEMEM_ACCESSED_FLAG = Some out \<and> scan_pagetable loop_machine = Some out \<and>
     Valid Pte 3 (4096 OR 0x67) \<in> set out"
proof -
  have "step_to loop_machine e 3 (4096 OR 0x67)" if "e AND ADDRESS_MASK = 4096" for e
    using that by (simp add: step_to_def table_entry_def loop_machine_def walkable_def flag_defs c_consts)
  then have "step_to loop_machine (cr3 loop_machine) 3 (4096 OR 0x67)" "step_to loop_machine (4096 OR 0x67) 3 (4096 OR 0x67)"
    by (simp_all add: loop_machine_def flag_defs)
  moreover have "devmem_ok loop_machine a" "fopen_ok loop_machine p" for a p
    by (simp_all add: loop_machine_def)
  ultimately show ?thesis
    using scan_reports_mapped [of loop_machine True HEMEM_ACCESSED_FLAG] by blast
qed

end
