(* ===== verification/Ialloc_Maint.thy ===== *)
theory Ialloc_Maint
  imports Kvs_Start
begin

text \<open>
  The maintenance of the item allocator: which segments it gives back, and which items it puts into the cleanup
  queue.
\<close>

section \<open>Unlinking a segment\<close>

lemma path_unlink:
  assumes "path s p (P @ x # T)" and "T \<noteq> []" and "distinct (P @ x # T)"
    and "\<And>g. g \<in> set (P @ T) \<Longrightarrow> P = [] \<or> g \<noteq> last P \<Longrightarrow> seg_next (segs s' g) = seg_next (segs s g)"
    and "P \<noteq> [] \<Longrightarrow> seg_next (segs s' (last P)) = hd T"
  shows "path s' (if P = [] then hd T else p) (P @ T)"
  using assms
proof (induction P arbitrary: p)
  case Nil
  have "path s' (hd T) T = path s (hd T) T"
    by (rule path_cong) (use Nil.prems(4) in simp)
  then show ?case
    using Nil.prems(1,2) by (cases T) auto
next
  case (Cons a P)
  show ?case
  proof (cases "P = []")
    case True
    have "path s' (hd T) T = path s (hd T) T"
      by (rule path_cong) (use Cons.prems(3,4) True in auto)
    then show ?thesis
      using Cons.prems(1,2,5) True by (cases T) auto
  next
    case False
    have "path s (seg_next (segs s a)) (P @ x # T)" and a: "p = a" "a \<noteq> NULL"
      using Cons.prems(1) by auto
    moreover have "a \<noteq> last P"
      using Cons.prems(3) last_in_set [OF False] by (cases "a = last P") simp_all
    then have "seg_next (segs s' a) = seg_next (segs s a)"
      using Cons.prems(4) [of a] False by simp
    moreover have "path s' (if P = [] then hd T else seg_next (segs s a)) (P @ T)"
      using Cons.prems False by (intro Cons.IH) auto
    ultimately show ?thesis
      using False by simp
  qed
qed

definition unlink :: "ptr list \<Rightarrow> ptr \<Rightarrow> ptr \<Rightarrow> 'a segments_scheme \<Rightarrow> 'a segments_scheme" where
  "unlink P x y s = segment_free x (if P = [] then s else upd_seg (last P) (\<lambda>h. h\<lparr>seg_next := y\<rparr>) s)"

lemma unlink_segs:
  assumes "x \<notin> set P"
  shows "segs (unlink P x y s) g = (if g = x then (segs s x)\<lparr>seg_offset := 0, seg_next := free_segments s\<rparr>
      else if P \<noteq> [] \<and> g = last P then (segs s g)\<lparr>seg_next := y\<rparr> else segs s g)"
  using assms last_in_set [of P] by (auto simp: unlink_def segment_free_def)

lemma unlink_frame:
  "free_segments (unlink P x y s) = x" "seg_headers (unlink P x y s) = seg_headers s" "seg_alloced (unlink P x y s) = seg_alloced s"
  "same_store s (unlink P x y s)" "headers (unlink P x y s) = headers s" "seg_base (unlink P x y s) = seg_base s"
  by (simp_all add: unlink_def segment_free_def same_store_def headers_def)

lemma unlink_ok:
  assumes a: "alloc_ok C src ia X fs (P @ x # T) s" and T: "T \<noteq> []"
  shows "alloc_ok C src (if P = [] then ia\<lparr>oldest := hd T\<rparr> else ia) X (x # fs) (P @ T) (unlink P x (hd T) s)"
proof -
  let ?s = "unlink P x (hd T) s" and ?ia = "if P = [] then ia\<lparr>oldest := hd T\<rparr> else ia"
  note a' = a [unfolded alloc_ok_def free_list_def chain_def]
  have d: "distinct (P @ x # T)" "x \<notin> set P" "x \<notin> set T" and xh: "x \<in> headers s" "x \<noteq> NULL" "x \<notin> set fs"
    using a' by (auto simp: headers_def)
  note sg = unlink_segs [OF d(2), of "hd T" s] and fr = unlink_frame [where P = P and x = x and y = "hd T" and s = s]
  have nx: "seg_next (segs ?s g) = seg_next (segs s g)" if "g \<noteq> x" "P = [] \<or> g \<noteq> last P" for g
    using that by (auto simp: sg)
  have lP: "last P \<notin> set fs" "last P \<noteq> reserved ia" if "P \<noteq> []"
    using a' last_in_set [OF that] by (auto simp: headers_def)
  have "path ?s (if P = [] then hd T else oldest ia) (P @ T)"
    by (rule path_unlink) (use a' T d nx in \<open>auto simp: sg\<close>)
  then have "path ?s (oldest ?ia) (P @ T)"
    by (cases "P = []") simp_all
  moreover have "path ?s (free_segments ?s) (x # fs)"
  proof -
    have "path ?s (free_segments s) fs = path s (free_segments s) fs"
    proof (rule path_cong)
      fix h
      assume "h \<in> set fs"
      then show "seg_next (segs ?s h) = seg_next (segs s h)"
        using xh(3) lP(1) by (intro nx) auto
    qed
    then show ?thesis
      using a' xh(2) by (simp add: fr sg)
  qed
  moreover have "segs_ok C src ?s"
  proof -
    have so: "segs_ok C src s"
      using a' by blast
    have "seg_ok C i h s \<Longrightarrow> seg_ok C i h ?s" for i h
      by (auto simp: seg_ok_def fr sg)
    then show ?thesis
      using so by (simp add: segs_ok_def arena_ok_def fr)
  qed
  moreover have "\<forall>h\<in>set (x # fs). seg_offset (segs ?s h) = 0"
    using a' by (auto simp: sg)
  moreover have "\<forall>h\<in>set (butlast (P @ T)). inactive ?s h"
    using a' T d by (auto simp: inactive_def sg butlast_append dest: in_set_butlastD)
  moreover have "reserved ia \<noteq> NULL \<longrightarrow> seg_offset (segs ?s (reserved ia)) = 0"
    using a' by (auto simp: sg)
  moreover have "last (P @ T) = cur ?ia" "reserved ?ia = reserved ia"
    using a' T by auto
  ultimately show ?thesis
    using a' d xh T unfolding alloc_ok_def free_list_def chain_def fr by auto
qed

section \<open>The first loop\<close>

lemma path_next: "path s p (P @ x # T) \<Longrightarrow> x \<noteq> NULL \<and> seg_next (segs s x) = (if T = [] then NULL else hd T)"
  by (induction P arbitrary: p) (cases T; auto)+

text \<open>All bytes ever handed out from the segment have been freed.\<close>

definition drained :: "'a segments_scheme \<Rightarrow> ptr \<Rightarrow> bool" where
  "drained s h \<longleftrightarrow> seg_freed (segs s h) = seg_size (segs s h)"

text \<open>What the loop keeps: all but the links, and the offsets of the segments it frees.\<close>

definition reclaimed :: "ptr set \<Rightarrow> 'a segments_scheme \<Rightarrow> 'a segments_scheme \<Rightarrow> bool" where
  "reclaimed F s s' \<longleftrightarrow> same_store s s' \<and> seg_headers s' = seg_headers s \<and> seg_alloced s' = seg_alloced s \<and>
     (\<forall>g. seg_freed (segs s' g) = seg_freed (segs s g) \<and> seg_size (segs s' g) = seg_size (segs s g) \<and>
        seg_data (segs s' g) = seg_data (segs s g) \<and> seg_flags (segs s' g) = seg_flags (segs s g) \<and>
        (g \<notin> F \<longrightarrow> seg_offset (segs s' g) = seg_offset (segs s g)))"

lemma reclaimed_refl: "reclaimed F s s"
  by (simp add: reclaimed_def)

lemma reclaimed_trans: "reclaimed F s t \<Longrightarrow> reclaimed G t u \<Longrightarrow> reclaimed (F \<union> G) s u"
  by (auto simp: reclaimed_def same_store_def)

lemma unlink_reclaimed: "x \<notin> set P \<Longrightarrow> reclaimed {x} s (unlink P x y s)"
  by (auto simp: reclaimed_def unlink_frame unlink_segs)

lemma reclaimed_drained: "reclaimed F s s' \<Longrightarrow> drained s' = drained s"
  by (auto simp: reclaimed_def drained_def)

lemma free_scan_spec:
  assumes "alloc_ok C src ia X fs (P @ R) s" and "R \<noteq> []"
  defines "keep \<equiv> filter (\<lambda>h. \<not> drained s h) (butlast R)" and "gone \<equiv> filter (drained s) (butlast R)"
  shows "\<exists>cand' ia' s'. free_scan C (hd R) (if P = [] then NULL else last P) cand ratio ia s = Some (cand', ia', s') \<and>
    alloc_ok C src ia' X (rev gone @ fs) (P @ keep @ [last R]) s' \<and> (cand' = cand \<or> cand' \<in> set keep) \<and>
    ia' = ia\<lparr>oldest := oldest ia'\<rparr> \<and> reclaimed (set gone) s s'"
  using assms(1,2) unfolding keep_def gone_def
proof (induction R arbitrary: P fs ia s cand ratio)
  case Nil
  then show ?case by simp
next
  case (Cons x T)
  let ?prev = "if P = [] then NULL else last P"
  note a = Cons.prems(1) [unfolded alloc_ok_def chain_def]
  have nx: "x \<noteq> NULL" "seg_next (segs s x) = (if T = [] then NULL else hd T)"
    using a path_next by blast+
  show ?case
  proof (cases "T = []")
    case True
    then show ?thesis
      using nx Cons.prems(1) by (subst free_scan.simps) (simp add: reclaimed_refl)
  next
    case False
    have "path s (oldest ia) ((P @ [x]) @ T)"
      using a by simp
    then have "hd T \<noteq> NULL"
      using False path_next [of s "oldest ia" "P @ [x]" "hd T" "tl T"] by simp
    moreover have "x \<in> set (butlast (P @ x # T))"
      using False by (simp add: butlast_append)
    then have "seg_flags (segs s x) AND SF_INACTIVE = SF_INACTIVE"
      using a by (simp add: inactive_def)
    ultimately have go: "x \<noteq> NULL \<and> seg_next (segs s x) \<noteq> NULL \<and> seg_flags (segs s x) AND SF_INACTIVE = SF_INACTIVE" "seg_next (segs s x) = hd T"
      using nx False by simp_all
    have xP: "x \<notin> set P"
      using a by simp
    have PN: "last P \<noteq> NULL" if "P \<noteq> []"
    proof -
      have "last P \<in> headers s"
        using a last_in_set [OF that] by auto
      then show ?thesis
        using null_no_header [of s] by metis
    qed
    show ?thesis
    proof (cases "drained s x")
      case True
      let ?s = "unlink P x (hd T) s" and ?ia = "if P = [] then ia\<lparr>oldest := hd T\<rparr> else ia"
      have sc: "reclaimed {x} s ?s"
        by (rule unlink_reclaimed [OF xP])
      note dr = reclaimed_drained [OF sc]
      from Cons.IH [OF unlink_ok [OF Cons.prems(1) False] False, of cand ratio] obtain cand' ia' s' where
        r: "free_scan C (hd T) ?prev cand ratio ?ia ?s = Some (cand', ia', s')"
        and ok: "alloc_ok C src ia' X (rev (filter (drained s) (butlast T)) @ x # fs) (P @ filter (\<lambda>h. \<not> drained s h) (butlast T) @ [last T]) s'"
        and c: "cand' = cand \<or> cand' \<in> set (filter (\<lambda>h. \<not> drained s h) (butlast T))"
        and o: "ia' = ?ia\<lparr>oldest := oldest ia'\<rparr>" and sc': "reclaimed (set (filter (drained s) (butlast T))) ?s s'"
        unfolding dr by blast
      have "free_scan C x ?prev cand ratio ia s = Some (cand', ia', s')"
        using r go True PN by (subst free_scan.simps) (simp add: Let_def drained_def unlink_def split: if_splits)
      moreover have "ia' = ia\<lparr>oldest := oldest ia'\<rparr>"
        using o by (cases "P = []") simp_all
      ultimately show ?thesis
        using ok c reclaimed_trans [OF sc sc'] True False by simp
    next
      case False
      note nd = this
      have "alloc_ok C src ia X fs ((P @ [x]) @ T) s"
        using Cons.prems(1) by simp
      note IH = Cons.IH [OF this \<open>T \<noteq> []\<close>]
      define rx where "rx = double_div (seg_freed (segs s x)) (seg_size (segs s x))"
      define better where "better \<longleftrightarrow> seg_flags (segs s x) AND SF_CLEANED \<noteq> SF_CLEANED \<and> double_le (Finite (clean_ratio C)) rx \<and> double_less ratio rx"
      define c r where "c = (if better then x else cand)" and "r = (if better then rx else ratio)"
      have step: "free_scan C x ?prev cand ratio ia s = free_scan C (hd T) x c r ia s"
        using go False unfolding c_def r_def better_def
        by (subst free_scan.simps) (simp add: Let_def drained_def rx_def)
      have cx: "c = cand \<or> c = x"
        by (simp add: c_def)
      from IH [of c r] obtain cand' ia' s' where
        r: "free_scan C (hd T) x c r ia s = Some (cand', ia', s')"
        and ok: "alloc_ok C src ia' X (rev (filter (drained s) (butlast T)) @ fs) (P @ x # filter (\<lambda>h. \<not> drained s h) (butlast T) @ [last T]) s'"
        and c: "cand' = c \<or> cand' \<in> set (filter (\<lambda>h. \<not> drained s h) (butlast T))"
        and o: "ia' = ia\<lparr>oldest := oldest ia'\<rparr>" and sc': "reclaimed (set (filter (drained s) (butlast T))) s s'"
        by auto
      show ?thesis
        using step cx r ok c o sc' nd \<open>T \<noteq> []\<close> by auto
    qed
  qed
qed

section \<open>The second loop\<close>

definition refs_only :: "'a segments_scheme \<Rightarrow> 'a segments_scheme \<Rightarrow> bool" where
  "refs_only s s' \<longleftrightarrow> (\<exists>f. s' = s\<lparr>items := (\<lambda>p. (items s p)\<lparr>refcount := f p\<rparr>)\<rparr> \<and> (\<forall>p. refcount (items s p) = 0 \<longrightarrow> f p = 0))"

lemma refs_only_trans: "refs_only s t \<Longrightarrow> refs_only t u \<Longrightarrow> refs_only s u"
  by (auto simp: refs_only_def)

lemma refs_onlyD:
  assumes "refs_only s s'"
  shows "segs s' = segs s" "kbytes s' = kbytes s" "free_segments s' = free_segments s" "seg_base s' = seg_base s" "seg_headers s' = seg_headers s"
    "seg_alloced s' = seg_alloced s" "refcount (items s p) = 0 \<Longrightarrow> refcount (items s' p) = 0"
  using assms by (auto simp: refs_only_def)

lemma tryref_only: "refs_only s (snd (item_tryref it s))"
proof (cases "refcount (items s it) = 0")
  case True
  then show ?thesis
    unfolding refs_only_def by (intro exI [of _ "\<lambda>p. refcount (items s p)"]) (simp add: item_tryref_def)
next
  case False
  then show ?thesis
    unfolding refs_only_def
    by (intro exI [of _ "(\<lambda>p. refcount (items s p))(it := refcount (items s it) + 1)"]) (auto simp: item_tryref_def fun_eq_iff intro!: segments.equality)
qed

text \<open>Occupied slots of the queue stay.\<close>

definition pending_kept :: "(u64 \<Rightarrow> ptr) \<Rightarrow> (u64 \<Rightarrow> ptr) \<Rightarrow> bool" where
  "pending_kept cq cq' \<longleftrightarrow> (\<forall>j. cq j \<noteq> NULL \<longrightarrow> cq' j = cq j)"

lemma item_totalsz_range: "24 \<le> unat (item_totalsz s it)" "unat (item_totalsz s it) < 2 ^ 33"
proof -
  have b: "unat (vallen (items s it)) < 2 ^ 32" "unat (keylen (items s it)) < 2 ^ 16"
    using unsigned_less [of "vallen (items s it)", where 'a = nat] unsigned_less [of "keylen (items s it)", where 'a = nat] by simp_all
  have "unat (item_totalsz s it) = 24 + unat (vallen (items s it)) + unat (keylen (items s it))"
    using b by (simp add: item_totalsz_def c_consts unat_word_ariths unsigned_ucast_eq take_bit_nat_eq_self)
  then show "24 \<le> unat (item_totalsz s it)" "unat (item_totalsz s it) < 2 ^ 33"
    using b by simp_all
qed

lemma queue_items_total:
  assumes "unat sz < 2 ^ 32"
  shows "\<exists>idx' off' cq' s'. queue_items C data sz off idx cq s = Some (idx', off', cq', s') \<and> refs_only s s' \<and> pending_kept cq cq'"
proof (induction "unat sz - unat off" arbitrary: off idx cq s rule: less_induct)
  case less
  have refl: "refs_only s s"
    unfolding refs_only_def by (intro exI [of _ "\<lambda>p. refcount (items s p)"]) simp
  have same: "pending_kept cq cq"
    by (simp add: pending_kept_def)
  show ?case
  proof (cases "off < sz \<and> cq idx = NULL \<and> \<not> sz - off < ITEM_SIZE")
    case False
    then show ?thesis
      using refl same by (subst queue_items.simps) (auto simp: Let_def)
  next
    case True
    let ?it = "data + off"
    define live where "live = fst (item_tryref ?it s)"
    define s1 where "s1 = snd (item_tryref ?it s)"
    define cq1 where "cq1 = (if live then cq(idx := ?it) else cq)"
    define idx1 where "idx1 = (if live then (idx + 1) mod segcqsize C else idx)"
    define off1 where "off1 = off + item_totalsz s1 ?it"
    have r1: "refs_only s s1"
      unfolding s1_def by (rule tryref_only)
    have "unat off1 = unat off + unat (item_totalsz s1 ?it)"
      using True assms item_totalsz_range(2) [of s1 ?it] by (simp add: off1_def unat_word_ariths word_less_nat_alt)
    then have "unat sz - unat off1 < unat sz - unat off"
      using True item_totalsz_range(1) [of s1 ?it] by (auto simp: word_less_nat_alt)
    from less [OF this, of idx1 cq1 s1] obtain idx' off' cq' s' where
      r: "queue_items C data sz off1 idx1 cq1 s1 = Some (idx', off', cq', s')" "refs_only s1 s'" "pending_kept cq1 cq'"
      by blast
    have "queue_items C data sz off idx cq s = Some (idx', off', cq', s')"
      using r(1) True
      by (subst queue_items.simps) (simp add: Let_def split_def cq1_def idx1_def off1_def s1_def live_def split: if_splits)
    moreover have "pending_kept cq cq'"
      using r(3) True by (auto simp: pending_kept_def cq1_def split: if_splits)
    ultimately show ?thesis
      using refs_only_trans [OF r1 r(2)] by blast
  qed
qed

text \<open>
  The items of a segment from an offset on, one behind the other up to fewer bytes than a header takes.
  Padding at the end of a segment has the header of an item nobody uses.
\<close>

fun laid_out :: "'a segments_scheme \<Rightarrow> u64 \<Rightarrow> u64 \<Rightarrow> u64 \<Rightarrow> ptr list \<Rightarrow> bool" where
  "laid_out s data sz off [] \<longleftrightarrow> unat off \<le> unat sz \<and> unat sz < unat off + 24"
| "laid_out s data sz off (it # its) \<longleftrightarrow> data + off = it \<and> unat off + unat (item_totalsz s it) \<le> unat sz \<and>
     laid_out s data sz (off + item_totalsz s it) its"

definition in_use :: "'a segments_scheme \<Rightarrow> ptr \<Rightarrow> bool" where
  "in_use s it \<longleftrightarrow> refcount (items s it) \<noteq> 0"

definition referenced :: "ptr set \<Rightarrow> 'a segments_scheme \<Rightarrow> 'a segments_scheme" where
  "referenced Q s = s\<lparr>items := (\<lambda>p. if p \<in> Q then (items s p)\<lparr>refcount := refcount (items s p) + 1\<rparr> else items s p)\<rparr>"

text \<open>Items that go into the queue, one slot after the other.\<close>

fun place_items :: "u64 \<Rightarrow> ptr list \<Rightarrow> u64 \<times> (u64 \<Rightarrow> ptr) \<Rightarrow> u64 \<times> (u64 \<Rightarrow> ptr)" where
  "place_items n [] q = q"
| "place_items n (it # its) (idx, cq) = place_items n its ((idx + 1) mod n, cq(idx := it))"

lemma item_totalsz_same:
  assumes "vallen (items s' it) = vallen (items s it)" and "keylen (items s' it) = keylen (items s it)"
  shows "item_totalsz s' it = item_totalsz s it"
  using assms by (simp add: item_totalsz_def)

lemma laid_out_cong:
  assumes "\<And>it. item_totalsz s' it = item_totalsz s it"
  shows "laid_out s' data sz off its = laid_out s data sz off its"
  using assms by (induction its arbitrary: off) auto

lemma referenced_frame [simp]:
  "segs (referenced Q s) = segs s" "free_segments (referenced Q s) = free_segments s" "seg_base (referenced Q s) = seg_base s"
  "seg_headers (referenced Q s) = seg_headers s" "seg_alloced (referenced Q s) = seg_alloced s" "referenced {} s = s"
  "item_totalsz (referenced Q s) it = item_totalsz s it"
  by (simp_all add: referenced_def item_totalsz_def)

lemma tryref_referenced: "item_tryref it s = (in_use s it, referenced (if in_use s it then {it} else {}) s)"
  by (auto simp: item_tryref_def in_use_def referenced_def fun_upd_def fun_eq_iff intro!: segments.equality)

lemma laid_out_unique: "laid_out s data sz off its \<Longrightarrow> laid_out s data sz off its' \<Longrightarrow> its = its'"
proof (induction its arbitrary: off its')
  case Nil
  then show ?case
    using item_totalsz_range(1) [of s "hd its'"] by (cases its') auto
next
  case (Cons it its)
  then show ?case
    using item_totalsz_range(1) [of s it] by (cases its') auto
qed

lemma laid_out_from:
  assumes "laid_out s data sz off its" and "it \<in> set its"
  shows "unat off \<le> unat (it - data)"
  using assms
proof (induction its arbitrary: off)
  case (Cons x its)
  show ?case
  proof (cases "it = x")
    case False
    have "unat off + unat (item_totalsz s x) < 2 ^ 64"
      using Cons.prems(1) unsigned_less [of sz, where 'a = nat] by auto
    then have "unat (off + item_totalsz s x) = unat off + unat (item_totalsz s x)"
      by (simp add: unat_word_ariths)
    then show ?thesis
      using Cons.IH [of "off + item_totalsz s x"] Cons.prems False by simp
  qed (use Cons.prems in auto)
qed simp

text \<open>
  The second loop goes through the items of the segment in their order and queues those in use, until there is no
  item left or the next slot of the queue is occupied; it can go on from where it has stopped.
\<close>

lemma queue_items_spec:
  assumes "laid_out s data sz off its"
  shows "\<exists>scanned rest off' idx' cq'. its = scanned @ rest \<and>
    queue_items C data sz off idx cq s = Some (idx', off', cq', referenced (set (filter (in_use s) scanned)) s) \<and>
    (idx', cq') = place_items (segcqsize C) (filter (in_use s) scanned) (idx, cq) \<and>
    (rest = [] \<or> cq' idx' \<noteq> NULL) \<and> laid_out s data sz off' rest"
  using assms
proof (induction its arbitrary: off idx cq s)
  case Nil
  define o1 where "o1 = (if off < sz \<and> cq idx = NULL then sz else off)"
  have "sz - off < ITEM_SIZE" if "off < sz"
    using that Nil by (simp add: word_less_nat_alt unat_sub word_le_nat_alt c_consts)
  then have "queue_items C data sz off idx cq s = Some (idx, o1, cq, s)"
    by (subst queue_items.simps) (auto simp: o1_def)
  moreover have "laid_out s data sz o1 []"
    using Nil by (simp add: o1_def)
  ultimately show ?case
    by (intro exI [of _ "[]"]) (auto simp: referenced_def)
next
  case (Cons it its)
  show ?case
  proof (cases "cq idx = NULL")
    case False
    then have "queue_items C data sz off idx cq s = Some (idx, off, cq, s)"
      by (subst queue_items.simps) simp
    then show ?thesis
      using Cons.prems False by (intro exI [of _ "[]"] exI [of _ "it # its"]) auto
  next
    case True
    let ?t = "item_totalsz s it"
    have t: "24 \<le> unat ?t" "unat off + unat ?t \<le> unat sz" "data + off = it" "laid_out s data sz (off + ?t) its"
      using Cons.prems item_totalsz_range(1) [of s it] by simp_all
    define s1 where "s1 = referenced (if in_use s it then {it} else {}) s"
    define idx1 cq1 where "idx1 = (if in_use s it then (idx + 1) mod segcqsize C else idx)" and "cq1 = (if in_use s it then cq(idx := it) else cq)"
    have "off < sz" "\<not> sz - off < ITEM_SIZE"
      using t by (simp_all add: word_less_nat_alt unat_sub word_le_nat_alt c_consts)
    then have run: "queue_items C data sz off idx cq s = queue_items C data sz (off + ?t) idx1 cq1 s1"
      using True t(3) by (subst queue_items.simps) (simp add: tryref_referenced s1_def idx1_def cq1_def)
    have "laid_out s1 data sz (off + ?t) its"
      using t(4) by (subst laid_out_cong [where s = s]) (simp_all add: s1_def)
    from Cons.IH [OF this, of idx1 cq1] obtain scanned rest off' idx' cq' where
      2: "its = scanned @ rest" "queue_items C data sz (off + ?t) idx1 cq1 s1 = Some (idx', off', cq', referenced (set (filter (in_use s1) scanned)) s1)"
        "(idx', cq') = place_items (segcqsize C) (filter (in_use s1) scanned) (idx1, cq1)" "rest = [] \<or> cq' idx' \<noteq> NULL" "laid_out s1 data sz off' rest"
      by blast
    have "unat off < unat (p - data)" if "p \<in> set its" for p
    proof -
      have "unat (off + ?t) = unat off + unat ?t"
        using t(2) unsigned_less [of sz, where 'a = nat] by (simp add: unat_word_ariths)
      then show ?thesis
        using laid_out_from [OF t(4) that] t(1) by simp
    qed
    then have "unat off < unat (it - data)" if "it \<in> set scanned"
      using that by (simp add: 2(1))
    moreover have "it - data = off"
      by (simp flip: t(3))
    ultimately have it: "it \<notin> set scanned"
      by auto
    then have use: "filter (in_use s1) scanned = filter (in_use s) scanned"
      by (intro filter_cong) (auto simp: s1_def in_use_def referenced_def)
    have "referenced (set (filter (in_use s) scanned)) s1 = referenced (set (filter (in_use s) (it # scanned))) s"
      using it by (auto simp: s1_def referenced_def fun_eq_iff intro!: segments.equality)
    moreover have "laid_out s data sz off' rest"
      using 2(5) by (subst (asm) laid_out_cong [where s = s]) (simp_all add: s1_def)
    moreover have "(idx', cq') = place_items (segcqsize C) (filter (in_use s) (it # scanned)) (idx, cq)"
      using 2(3) by (simp add: use idx1_def cq1_def)
    ultimately show ?thesis
      using run 2(1,2,4) unfolding use by (intro exI [of _ "it # scanned"] exI [of _ rest] exI [of _ off'] exI [of _ idx'] exI [of _ cq']) simp
  qed
qed

section \<open>Maintenance\<close>

lemma alloc_ok_same:
  assumes a: "alloc_ok C src ia X fs L s"
    and f: "free_segments s' = free_segments s" "seg_headers s' = seg_headers s" "seg_alloced s' = seg_alloced s" "seg_base s' = seg_base s"
    and g: "\<And>g. seg_next (segs s' g) = seg_next (segs s g) \<and> seg_offset (segs s' g) = seg_offset (segs s g) \<and>
      seg_size (segs s' g) = seg_size (segs s g) \<and> seg_data (segs s' g) = seg_data (segs s g) \<and> (inactive s g \<longrightarrow> inactive s' g)"
    and i: "oldest ia' = oldest ia" "cur ia' = cur ia" "reserved ia' = reserved ia"
  shows "alloc_ok C src ia' X fs L s'"
proof -
  have p: "path s' q hs = path s q hs" for q hs
    by (rule path_cong) (simp add: g)
  have "headers s' = headers s" "segs_ok C src s' = segs_ok C src s"
    by (simp_all add: headers_def segs_ok_def arena_ok_def seg_ok_def f g)
  then show ?thesis
    using a g unfolding alloc_ok_def free_list_def chain_def p f i by auto
qed

text \<open>The items of a segment from an offset on.\<close>

definition seg_items :: "'a segments_scheme \<Rightarrow> ptr \<Rightarrow> u64 \<Rightarrow> ptr list \<Rightarrow> bool" where
  "seg_items s h off its \<longleftrightarrow> laid_out s (seg_data (segs s h)) (ucast (seg_size (segs s h))) off its"

text \<open>
  What the scan relies on: the used-up segments of the list hold items one behind the other, and the segment that is being
  cleaned does so from the offset on that has been reached.
\<close>

definition scannable :: "item_allocator \<Rightarrow> ptr list \<Rightarrow> 'a segments_scheme \<Rightarrow> bool" where
  "scannable ia L s \<longleftrightarrow> (\<forall>h\<in>set (butlast L). \<exists>its. seg_items s h 0 its) \<and>
     (cleaning ia \<noteq> NULL \<longrightarrow> cleaning ia \<in> headers s \<and> (\<exists>its. seg_items s (cleaning ia) (clean_offset ia) its))"

text \<open>
  Segment \<open>h\<close> has been scanned from \<open>off\<close> on: its items in use have got a reference and a slot of the queue each, in their order,
  as far as the queue has room, and the rest follows the new offset.
\<close>

definition scanned_from :: "settings \<Rightarrow> ptr \<Rightarrow> u64 \<Rightarrow> item_allocator \<Rightarrow> 'a segments_scheme \<Rightarrow> item_allocator \<Rightarrow> 'a segments_scheme \<Rightarrow> bool" where
  "scanned_from C h off ia s ia' s' \<longleftrightarrow> cleaning ia' = h \<and> (\<exists>scanned rest. seg_items s h off (scanned @ rest) \<and>
     (cq_tail ia', cleanup_queue ia') = place_items (segcqsize C) (filter (in_use s) scanned) (cq_tail ia, cleanup_queue ia) \<and>
     items s' = items (referenced (set (filter (in_use s) scanned)) s) \<and>
     (rest = [] \<or> cleanup_queue ia' (cq_tail ia') \<noteq> NULL) \<and> seg_items s' h (clean_offset ia') rest)"

definition nothing_queued :: "item_allocator \<Rightarrow> 'a segments_scheme \<Rightarrow> item_allocator \<Rightarrow> 'a segments_scheme \<Rightarrow> bool" where
  "nothing_queued ia s ia' s' \<longleftrightarrow> cq_tail ia' = cq_tail ia \<and> cleanup_queue ia' = cleanup_queue ia \<and> items s' = items s"

text \<open>
  The second part of maintenance: a scan that is under way goes on. When there is none, or it is at its end, a segment \<open>h\<close> of \<open>H\<close> is
  chosen, if there is a candidate; the one after a finished scan is scanned at once, the first one by the next call.
\<close>

definition maintained :: "settings \<Rightarrow> ptr set \<Rightarrow> item_allocator \<Rightarrow> 'a segments_scheme \<Rightarrow> item_allocator \<Rightarrow> 'a segments_scheme \<Rightarrow> bool" where
  "maintained C H ia s ia' s' \<longleftrightarrow>
     (if cleaning ia = NULL then nothing_queued ia s ia' s' \<and> (cleaning ia' = NULL \<or> cleaning ia' \<in> H \<and> clean_offset ia' = 0)
      else if clean_offset ia \<noteq> ucast (seg_size (segs s (cleaning ia))) then scanned_from C (cleaning ia) (clean_offset ia) ia s ia' s'
      else cleaning ia' = NULL \<and> nothing_queued ia s ia' s' \<or> cleaning ia' \<in> H \<and> scanned_from C (cleaning ia') 0 ia s ia' s')"

lemma header_sizes:
  assumes "segs_ok C src s" and "g \<in> headers s" and "h \<in> headers s"
  shows "seg_size (segs s g) = seg_size (segs s h)"
proof -
  have "unat (seg_size (segs s x)) = unat (segsize C)" if "x \<in> headers s" for x
    using assms(1) that by (auto simp: segs_ok_def headers_def seg_ok_def)
  then show ?thesis
    using assms(2,3) by (simp add: word_unat_eq_iff)
qed

lemma seg_items_cong:
  assumes "\<And>it. item_totalsz s' it = item_totalsz s it" and "seg_data (segs s' h) = seg_data (segs s h)" "seg_size (segs s' h) = seg_size (segs s h)"
  shows "seg_items s' h off its = seg_items s h off its"
  unfolding seg_items_def assms(2,3) by (rule laid_out_cong [OF assms(1)])

text \<open>The scan of the segment \<open>h\<close>, which is the one being cleaned or a candidate, from \<open>off\<close> on.\<close>

lemma maintenance_scan:
  assumes ok: "alloc_ok C src ia X fs L s" and cand: "cand = NULL \<or> cand \<in> set (butlast L)" and sc: "scannable ia L s"
    and h: "h = (if cleaning ia = NULL \<or> clean_offset ia = sz then cand else cleaning ia)" "h \<noteq> NULL"
    and off: "off = (if cleaning ia = NULL \<or> clean_offset ia = sz then 0 else clean_offset ia)"
    and sz: "sz = (if cleaning ia = NULL then 0 else ucast (seg_size (segs s (cleaning ia))))"
    and s2: "items s2 = items s" "headers s2 = headers s" "\<And>g. seg_data (segs s2 g) = seg_data (segs s g)" "\<And>g. seg_size (segs s2 g) = seg_size (segs s g)"
    and q: "queue_items C (seg_data (segs s h)) sz off (cq_tail ia) (cleanup_queue ia) s2 = Some (idx', off', cq', s')"
    and ia': "cleaning ia' = h" "clean_offset ia' = off'" "cleanup_queue ia' = cq'" "cq_tail ia' = idx'"
  shows "maintained C (set (butlast L)) ia s ia' s' \<and> scannable ia' L s'"
proof -
  have t2: "item_totalsz s2 p = item_totalsz s p" for p
    by (simp add: item_totalsz_def s2(1))
  have it2: "seg_items s2 g o1 its = seg_items s g o1 its" for g o1 its
    by (rule seg_items_cong) (simp_all add: s2 t2)
  have hh: "h \<in> headers s" "cleaning ia \<noteq> NULL \<Longrightarrow> cleaning ia \<in> headers s"
    using ok cand sc h by (auto simp: alloc_ok_def chain_def scannable_def dest: in_set_butlastD split: if_splits)
  show ?thesis
  proof (cases "cleaning ia = NULL")
    case True
    then have "queue_items C (seg_data (segs s h)) sz off (cq_tail ia) (cleanup_queue ia) s2 = Some (cq_tail ia, 0, cleanup_queue ia, s2)"
      using sz off by (subst queue_items.simps) simp
    then have r: "idx' = cq_tail ia" "off' = 0" "cq' = cleanup_queue ia" "s' = s2"
      using q by simp_all
    have hL: "h \<in> set (butlast L)"
      using True h cand by auto
    then show ?thesis
      using True sc ia' r hh s2 h(2) by (simp add: maintained_def nothing_queued_def scannable_def it2)
  next
    case False
    have szh: "sz = ucast (seg_size (segs s h))"
      using False sz header_sizes [of C src s "cleaning ia" h] hh ok by (simp add: alloc_ok_def)
    obtain its where its: "seg_items s h off its"
      using sc h cand False off by (auto simp: scannable_def split: if_splits)
    then have "laid_out s2 (seg_data (segs s h)) sz off its"
      using it2 by (simp add: seg_items_def szh s2)
    from queue_items_spec [OF this, of C "cq_tail ia" "cleanup_queue ia"] q obtain scanned rest where
      1: "its = scanned @ rest" "s' = referenced (set (filter (in_use s2) scanned)) s2"
        "(idx', cq') = place_items (segcqsize C) (filter (in_use s2) scanned) (cq_tail ia, cleanup_queue ia)" "rest = [] \<or> cq' idx' \<noteq> NULL"
        "laid_out s2 (seg_data (segs s h)) sz off' rest"
      by auto
    have use: "in_use s2 = in_use s"
      by (simp add: in_use_def s2 fun_eq_iff)
    have it': "seg_items s' g o1 ps = seg_items s g o1 ps" for g o1 ps
      by (rule seg_items_cong) (simp_all add: 1(2) s2 t2)
    have rest: "seg_items s h off' rest"
      using 1(5) laid_out_cong [of s2 s, OF t2] by (simp add: seg_items_def szh)
    have "items s' = items (referenced (set (filter (in_use s) scanned)) s)"
      unfolding 1(2) use by (simp add: referenced_def s2(1) cong: if_cong)
    then have "scanned_from C h off ia s ia' s'"
      unfolding scanned_from_def ia' it' using its 1(3,4) rest unfolding 1(1) use by blast
    then have "maintained C (set (butlast L)) ia s ia' s'"
      using False h off cand sz ia'(1) by (auto simp: maintained_def)
    moreover have "headers s' = headers s"
      using s2(2) by (simp add: 1(2) headers_def)
    then have "scannable ia' L s'"
      using sc hh(1) ia' rest by (auto simp: scannable_def it')
    ultimately show ?thesis
      by blast
  qed
qed

text \<open>What follows the first loop: a segment is chosen, and its items are queued.\<close>

lemma maintenance_queues:
  assumes scan: "free_scan C (oldest ia) NULL NULL (Finite 0) ia s = Some (cand, ia1, s1)" and ok1: "alloc_ok C src ia1 X fs L s1"
    and cand: "cand = NULL \<or> cand \<in> set (butlast L)"
  shows "\<exists>ia' s'. ialloc_maintenance C ia s = Some (ia', s') \<and> alloc_ok C src ia' X fs L s' \<and>
    (\<forall>p. refcount (items s1 p) = 0 \<longrightarrow> refcount (items s' p) = 0) \<and> pending_kept (cleanup_queue ia1) (cleanup_queue ia') \<and>
    (scannable ia1 L s1 \<longrightarrow> maintained C (set (butlast L)) ia1 s1 ia' s' \<and> scannable ia' L s')"
proof -
  define sz where "sz = (if cleaning ia1 = NULL then 0 else ucast (seg_size (segs s1 (cleaning ia1))) :: u64)"
  have szb: "unat sz < 2 ^ 32"
    using unsigned_less [of "seg_size (segs s1 (cleaning ia1))", where 'a = nat] by (simp add: sz_def unsigned_ucast_eq take_bit_nat_eq_self)
  define again where "again \<longleftrightarrow> cleaning ia1 = NULL \<or> clean_offset ia1 = sz"
  define h where "h = (if again then cand else cleaning ia1)"
  define off where "off = (if again then 0 else clean_offset ia1)"
  define ia2 where "ia2 = (if again then ia1\<lparr>cleaning := cand, clean_offset := 0\<rparr> else ia1)"
  define s2 where "s2 = (if again \<and> cand \<noteq> NULL then upd_seg cand (\<lambda>x. x\<lparr>seg_flags := seg_flags x OR SF_CLEANED\<rparr>) s1 else s1)"
  have run: "ialloc_maintenance C ia s = (if h = NULL then Some (ia2, s2) else do {
       (idx, off, cq, s) \<leftarrow> queue_items C (seg_data (segs s2 h)) sz off (cq_tail ia2) (cleanup_queue ia2) s2;
       Some (ia2\<lparr>cleanup_queue := cq, cq_tail := idx, clean_offset := off\<rparr>, s)})"
  proof (cases again)
    case True
    then have "cleaning ia1 = NULL \<or> clean_offset ia1 = sz"
      by (simp add: again_def)
    with True show ?thesis
      by (simp add: ialloc_maintenance_def scan Let_def h_def off_def ia2_def s2_def sz_def)
  next
    case False
    then have "cleaning ia1 \<noteq> NULL" "clean_offset ia1 \<noteq> ucast (seg_size (segs s1 (cleaning ia1)))"
      by (simp_all add: again_def sz_def split: if_splits)
    with False show ?thesis
      by (simp add: ialloc_maintenance_def scan Let_def h_def off_def ia2_def s2_def sz_def)
  qed
  have fl: "(a OR SF_CLEANED) AND SF_INACTIVE = SF_INACTIVE" if "a AND SF_INACTIVE = SF_INACTIVE" for a :: u32
    using that by (simp add: bit.conj_disj_distrib2 c_consts)
  have ok2: "alloc_ok C src ia2 X fs L s2"
    by (rule alloc_ok_same [OF ok1]) (auto simp: s2_def ia2_def inactive_def fl)
  have s2: "items s2 = items s1" "cleanup_queue ia2 = cleanup_queue ia1" "cq_tail ia2 = cq_tail ia1" "headers s2 = headers s1" "cleaning ia2 = h"
    by (simp_all add: s2_def ia2_def h_def headers_def)
  have sg: "seg_data (segs s2 g) = seg_data (segs s1 g)" "seg_size (segs s2 g) = seg_size (segs s1 g)" for g
    by (simp_all add: s2_def)
  have it2: "seg_items s2 g o1 its = seg_items s1 g o1 its" for g o1 its
    by (rule seg_items_cong) (simp_all add: sg s2 item_totalsz_def)
  show ?thesis
  proof (cases "h = NULL")
    case True
    then have "again" "cand = NULL"
      by (auto simp: h_def again_def split: if_splits)
    then have "maintained C (set (butlast L)) ia1 s1 ia2 s2"
      using True by (auto simp: maintained_def nothing_queued_def s2 again_def sz_def)
    moreover have "scannable ia1 L s1 \<Longrightarrow> scannable ia2 L s2"
      using True by (simp add: scannable_def it2 s2)
    ultimately show ?thesis
      using run ok2 s2 True by (simp add: pending_kept_def)
  next
    case False
    obtain idx' off' cq' s' where q: "queue_items C (seg_data (segs s2 h)) sz off (cq_tail ia2) (cleanup_queue ia2) s2 = Some (idx', off', cq', s')"
      "refs_only s2 s'" "pending_kept (cleanup_queue ia2) cq'"
      using queue_items_total [OF szb] by blast
    define ia3 where "ia3 = ia2\<lparr>cleanup_queue := cq', cq_tail := idx', clean_offset := off'\<rparr>"
    note r = refs_onlyD [OF q(2)]
    have q1: "queue_items C (seg_data (segs s1 h)) sz off (cq_tail ia1) (cleanup_queue ia1) s2 = Some (idx', off', cq', s')"
      using q(1) by (simp add: sg s2)
    have "maintained C (set (butlast L)) ia1 s1 ia3 s' \<and> scannable ia3 L s'" if sc: "scannable ia1 L s1"
      by (rule maintenance_scan [OF ok1 cand sc _ _ _ _ _ _ _ _ q1]) (use False in \<open>simp_all add: h_def off_def again_def sz_def ia3_def s2 sg it2\<close>)
    moreover have "alloc_ok C src ia3 X fs L s'"
      by (rule alloc_ok_same [OF ok2]) (simp_all add: r ia3_def inactive_def)
    moreover have "ialloc_maintenance C ia s = Some (ia3, s')"
      using run False q(1) by (simp add: ia3_def)
    moreover have "pending_kept (cleanup_queue ia1) (cleanup_queue ia3)"
      using q(3) by (simp add: ia3_def s2)
    ultimately show ?thesis
      using r(7) by (auto simp: s2)
  qed
qed

text \<open>
  C36: maintenance gives back the segments whose items have all been freed, and queues the live items of the segment it cleans.
  A call returns and leaves the allocator in
  order: of the segments before the current one exactly those that are drained have moved to the free list,
  the others are still linked in their order; a freed item stays freed, and no
  pending entry of the cleanup queue is lost. If the segments hold items one behind the other, a scan that is under way goes on where it had stopped: the items in use
  get a reference and the next slots of the queue, in their order, the others are passed over, and the scan
  stops at the end of the segment or when the queue is full; the segments are then still in order for the next call.
\<close>

theorem maintenance_reclaims:
  assumes "alloc_ok C src ia X fs L s"
  defines "L' \<equiv> filter (\<lambda>h. \<not> drained s h) (butlast L) @ [last L]"
  shows "\<exists>ia' s'. ialloc_maintenance C ia s = Some (ia', s') \<and> alloc_ok C src ia' X (rev (filter (drained s) (butlast L)) @ fs) L' s' \<and>
    (\<forall>p. refcount (items s p) = 0 \<longrightarrow> refcount (items s' p) = 0) \<and> pending_kept (cleanup_queue ia) (cleanup_queue ia') \<and>
    (scannable ia L s \<longrightarrow> maintained C (set (butlast L')) ia s ia' s' \<and> scannable ia' L' s')"
proof -
  let ?fs = "rev (filter (drained s) (butlast L)) @ fs"
  have L: "L \<noteq> []" "oldest ia = hd L"
    using assms by (cases L; simp add: alloc_ok_def chain_def)+
  from free_scan_spec [of C src ia X fs "[]" L s NULL "Finite 0"] assms L obtain cand ia1 s1 where
    1: "free_scan C (oldest ia) NULL NULL (Finite 0) ia s = Some (cand, ia1, s1)" "alloc_ok C src ia1 X ?fs L' s1"
    and c: "cand = NULL \<or> cand \<in> set (butlast L')" and o: "ia1 = ia\<lparr>oldest := oldest ia1\<rparr>" and rc: "reclaimed (set (filter (drained s) (butlast L))) s s1"
    by auto
  have i: "cleanup_queue ia1 = cleanup_queue ia" "cq_tail ia1 = cq_tail ia" "cleaning ia1 = cleaning ia" "clean_offset ia1 = clean_offset ia"
    by (subst o, simp)+
  have s1: "items s1 = items s" "headers s1 = headers s" and sg: "seg_data (segs s1 g) = seg_data (segs s g)" "seg_size (segs s1 g) = seg_size (segs s g)" for g
    using rc by (simp_all add: reclaimed_def same_store_def headers_def)
  have it: "seg_items s1 g off its = seg_items s g off its" for g off its
    by (rule seg_items_cong) (simp_all add: sg s1 item_totalsz_def)
  have use: "in_use s1 = in_use s"
    by (simp add: in_use_def s1 fun_eq_iff)
  have sf: "scanned_from C h off ia1 s1 ia' s' = scanned_from C h off ia s ia' s'" for h off ia' and s' :: "'a segments_scheme"
    by (simp add: scanned_from_def it use i referenced_def s1 cong: if_cong)
  have "maintained C H ia1 s1 ia' s' = maintained C H ia s ia' s'" for H ia' and s' :: "'a segments_scheme"
    by (simp add: maintained_def nothing_queued_def sf i s1 sg)
  moreover have "scannable ia L s \<Longrightarrow> scannable ia1 L' s1"
    by (auto simp: scannable_def it i s1 L'_def)
  ultimately show ?thesis
    using maintenance_queues [OF 1 c] by (simp add: i s1) blast
qed

text \<open>
  A store of three segments: the first one has been used up and freed again, the second one is being cleaned and holds a freed item of 2000
  bytes and one of 2096 bytes in use.
\<close>

definition worn_source :: segment_source where
  "worn_source = \<lparr>mprotect_ok = (\<lambda>_. True), malloc_header = (\<lambda>i. if i < 3 then 16 * (i + 1) else NULL)\<rparr>"

definition worn_segment :: "u64 \<Rightarrow> ptr \<Rightarrow> u32 \<Rightarrow> segment_header" where
  "worn_segment data nxt freed = \<lparr>seg_data = data, seg_next = nxt, seg_offset = 4096, seg_freed = freed, seg_size = 4096, seg_flags = SF_INACTIVE\<rparr>"

definition worn_store :: kvs where
  "worn_store = demo_kvs\<lparr>
     items := (\<lambda>p. \<lparr>next_item = NULL, hv = 7, vallen = (if p = 2 ^ 20 \<or> p = 2 ^ 20 + 4096 then 1974 else 2070),
       refcount = (if p = 2 ^ 20 + 6096 then 1 else 0), keylen = 2, item_flags = 0\<rparr>),
     segs := (\<lambda>h. if h = 16 then worn_segment (2 ^ 20) 32 4096 else if h = 32 then worn_segment (2 ^ 20 + 4096) 48 2000
       else worn_segment (2 ^ 20 + 8192) NULL 0),
     free_segments := NULL, seg_base := 2 ^ 20, seg_headers := malloc_header worn_source, seg_alloced := 3\<rparr>"

definition worn_allocator :: item_allocator where
  "worn_allocator = (start_allocator worn_source)\<lparr>reserved := NULL, cur := 48, cleaning := 32, clean_offset := 0\<rparr>"

lemma less_3_word: "(i :: u64) < 3 \<longleftrightarrow> i = 0 \<or> i = 1 \<or> i = 2"
proof -
  have "unat i < 3 \<longleftrightarrow> unat i = 0 \<or> unat i = 1 \<or> unat i = 2"
    by auto
  then show ?thesis
    by (simp add: word_less_nat_alt word_unat_eq_iff)
qed

lemma worn_headers: "headers worn_store = {16, 32, 48}"
  by (auto simp: headers_def worn_store_def worn_source_def less_3_word split: if_splits intro: exI [of _ 0] exI [of _ 1] exI [of _ 2])

lemma worn_ok: "alloc_ok (small_settings 4096 4) worn_source worn_allocator {} [] [16, 32, 48] worn_store"
proof -
  have "inj_on (malloc_header worn_source) {i. malloc_header worn_source i \<noteq> NULL}"
    by (auto simp: inj_on_def worn_source_def less_3_word split: if_splits)
  moreover have "seg_ok (small_settings 4096 4) i (malloc_header worn_source i) worn_store" "i < 3" if "malloc_header worn_source i \<noteq> NULL" for i
    using that by (auto simp: worn_source_def less_3_word seg_ok_def worn_store_def worn_segment_def small_settings_def split: if_splits)
  ultimately have "segs_ok (small_settings 4096 4) worn_source worn_store"
    by (simp add: segs_ok_def arena_ok_def worn_store_def small_settings_def)
  then show ?thesis
    by (simp add: alloc_ok_def free_list_def chain_def worn_headers inactive_def)
      (simp add: worn_store_def worn_segment_def worn_allocator_def start_allocator_def worn_source_def)
qed

lemma worn_items: "seg_items worn_store 32 0 [2 ^ 20 + 4096, 2 ^ 20 + 6096]"
  by (simp add: seg_items_def worn_store_def worn_segment_def item_totalsz_def c_consts)

lemma worn_scannable: "scannable worn_allocator [16, 32, 48] worn_store"
proof -
  have "seg_items worn_store 16 0 [2 ^ 20, 2 ^ 20 + 2000]"
    by (simp add: seg_items_def worn_store_def worn_segment_def item_totalsz_def c_consts)
  then show ?thesis
    using worn_items by (auto simp: scannable_def worn_headers worn_allocator_def)
qed

theorem maintenance_reclaims_witness:
  "\<exists>ia' s'. ialloc_maintenance (small_settings 4096 4) worn_allocator worn_store = Some (ia', s') \<and>
     alloc_ok (small_settings 4096 4) worn_source ia' {} [16] [32, 48] s' \<and> cleanup_queue ia' 0 = 2 ^ 20 + 6096 \<and>
     refcount (items s' (2 ^ 20 + 6096)) = 2"
proof -
  have d: "drained worn_store 16" "\<not> drained worn_store 32"
    by (simp_all add: drained_def worn_store_def worn_segment_def)
  from maintenance_reclaims [OF worn_ok] obtain ia' s' where
    1: "ialloc_maintenance (small_settings 4096 4) worn_allocator worn_store = Some (ia', s')"
      "alloc_ok (small_settings 4096 4) worn_source ia' {} [16] [32, 48] s'"
      "maintained (small_settings 4096 4) {32} worn_allocator worn_store ia' s'"
    using worn_scannable by (auto simp: d)
  have "cleaning worn_allocator = 32" "clean_offset worn_allocator = 0" "seg_size (segs worn_store 32) = 4096"
    by (simp_all add: worn_allocator_def worn_store_def worn_segment_def)
  with 1(3) have "scanned_from (small_settings 4096 4) 32 0 worn_allocator worn_store ia' s'"
    by (simp add: maintained_def)
  then obtain scanned rest where
    2: "seg_items worn_store 32 0 (scanned @ rest)"
      "(cq_tail ia', cleanup_queue ia') = place_items 16 (filter (in_use worn_store) scanned) (0, \<lambda>_. NULL)"
      "items s' = items (referenced (set (filter (in_use worn_store) scanned)) worn_store)" "rest = [] \<or> cleanup_queue ia' (cq_tail ia') \<noteq> NULL"
    by (auto simp: scanned_from_def small_settings_def worn_allocator_def start_allocator_def)
  have u: "\<not> in_use worn_store (2 ^ 20 + 4096)" "in_use worn_store (2 ^ 20 + 6096)"
    by (simp_all add: in_use_def worn_store_def)
  have "scanned @ rest = [2 ^ 20 + 4096, 2 ^ 20 + 6096]"
    using laid_out_unique 2(1) worn_items unfolding seg_items_def by blast
  then have "rest = [] \<and> scanned = [2 ^ 20 + 4096, 2 ^ 20 + 6096] \<or> rest \<noteq> [] \<and> (scanned = [] \<or> scanned = [2 ^ 20 + 4096])"
    by (cases scanned; cases "tl scanned") auto
  then have "scanned = [2 ^ 20 + 4096, 2 ^ 20 + 6096]"
    using 2(2,4) u by auto
  then have "cleanup_queue ia' 0 = 2 ^ 20 + 6096" "refcount (items s' (2 ^ 20 + 6096)) = 2"
    using 2(2,3) u by (simp_all add: referenced_def worn_store_def)
  with 1(1,2) show ?thesis by blast
qed

end
