(* ===== verification/Spec2Isabelle.thy ===== *)
theory Spec2Isabelle
  imports Ring_Threads Pebs_Mmap Pebs_Threads Simple Lru_Threads Kvs_Faults Paging Ialloc_Maint
begin

text \<open>
  A verification library for HeMem, a user-level manager of tiered memory, and for FlexKVS, the key-value store
  the repository carries as its application. Paths are relative to the root of the repository.

  \<^bold>\<open>The program.\<close> HeMem is a shared library. It hooks the system calls of a process (\<^verbatim>\<open>src/interpose.c\<close>), takes over
  large anonymous mappings (\<^verbatim>\<open>src/hemem.c\<close>) and backs each of their 2 MB pages with a frame of DRAM or of NVM, two
  device files. Which device is decided by a policy that is linked in: sampling with PEBS (\<^verbatim>\<open>src/pebs.c\<close>, the default),
  active and inactive lists from the accessed bits (\<^verbatim>\<open>src/policies/lru.c\<close>), or DRAM as long as there is some
  (\<^verbatim>\<open>src/policies/simple.c\<close>). Pages move between the devices while the application runs. The parts share page
  descriptors (\<^verbatim>\<open>src/hemem.h\<close>) on doubly linked lists (\<^verbatim>\<open>src/fifo.c\<close>) and talk through ring buffers
  (\<^verbatim>\<open>src/spsc-ring.c\<close>). FlexKVS (\<^verbatim>\<open>apps/flexkvs\<close>) is a log-structured store: a hash table over items in segments.

  \<^bold>\<open>Common ground.\<close> \<open>Prelude\<close> has the machine integers, which are words of their width, and the monad: a C function that may
  abort is a function into an option type, and \<open>None\<close> means that a call does not come back, because an
  assertion fails, a null pointer is followed, or it spins on something only another thread can change. State is passed
  explicitly, in records that extend each other as the components build on each other: \<open>memory\<close>, \<open>hemem\<close>, then the
  globals of one policy; for the store \<open>segments\<close>, then \<open>kvs\<close>. \<open>Platform\<close> is what lies below the library: system calls and
  \<^verbatim>\<open>ioctl\<close>s of a modified kernel that the repository does not contain. They are a record of functions, a parameter of
  the model, and \<open>platform_ok\<close> is the behaviour relied upon; \<open>sim\<close> is a concrete platform that has it, on which
  the witnesses run.

  \<^bold>\<open>Theories.\<close>

  \<^item> \<open>Hemem_Page\<close>, \<open>Fifo\<close>, \<open>Queue_Interface\<close>: descriptors and lists. The locale \<open>linked_queues\<close> is the contract of
    intrusive queues, \<open>Fifo\<close> interprets it with the pointer operations of \<^verbatim>\<open>fifo.c\<close>, and the policies use
    the queues through it only. \<open>Typed_Lists\<close> and \<open>Boot_Lists\<close> hold what the policies share on top: which
    pages a list may hold, and the free lists at start-up.
  \<^item> \<open>Spsc_Ring\<close>: the ring buffer and its contract as the locale \<open>overwriting_queue\<close>, for sequences of whole operations.
    \<open>Ring_Threads\<close> has one producer and one consumer at the grain of their memory accesses: which interleavings are
    harmless, and one that is not.
  \<^item> \<open>Hemem\<close>, \<open>Migration\<close>, \<open>Placement\<close>, \<open>Tiers\<close>: the memory manager, one definition for each C function; what migrations, page
    faults and unmapping do to memory as the application sees it; and the exchange of frames between the devices.
  \<^item> \<open>Policy_Interface\<close>: the contract between the manager and a policy as the locale \<open>page_policy\<close>, with the lemma that any
    sequence of faults and removals is served exactly if it never needs more frames at a time than there are, freed ones being used again;
    interpreted for the simple and the LRU
    policy. In the sampling policy a freed page comes back only with a turn of the policy thread, so its
    requests are treated with its threads, in \<open>Pebs_System\<close> and \<open>Pebs_Threads\<close>.
  \<^item> \<open>Pebs\<close> models \<^verbatim>\<open>pebs.c\<close>; \<open>Pebs_Lists\<close> and \<open>Pebs_Inv\<close> state its invariant, \<open>Pebs_Policy\<close>, \<open>Pebs_Turn\<close>, \<open>Pebs_Calls\<close> and
    \<open>Pebs_Boot\<close> prove that migrating, cooling, allocating, freeing and start-up keep it. \<open>Pebs_System\<close> has the properties of the single
    operations; \<open>Pebs_Threads\<close> cuts the policy thread into turns of one page or ring entry each, shows that an iteration is
    a run of turns, and composes the threads to a transition system. \<open>Interpose\<close> is the hook, \<open>Pebs_Mmap\<close> follows an allocation from the hook down.
  \<^item> \<open>Simple\<close> is \<^verbatim>\<open>simple.c\<close> with its properties. \<open>Lru\<close> is \<^verbatim>\<open>lru.c\<close>, \<open>Lru_Inv\<close> its scan thread, \<open>Lru_Swap\<close> its swap thread,
    \<open>Lru_System\<close> allocation and removal, \<open>Lru_Threads\<close> the two threads with turns of one page each. \<open>Paging\<close> is the page table walk of \<^verbatim>\<open>paging.c\<close>.
  \<^item> \<open>Jenkins_Hash\<close>: the hash function; its three readers, for three alignments, interpret the locale \<open>block_reader\<close>.
  \<^item> \<open>Ialloc\<close> models \<^verbatim>\<open>ialloc.c\<close> and the items of \<^verbatim>\<open>iokvs.h\<close>; \<open>Ialloc_Inv\<close>, \<open>Ialloc_Alloc\<close>, \<open>Ialloc_Room\<close> and \<open>Ialloc_Maint\<close> hold the
    invariant, allocation, the capacity, and maintenance. \<open>Hashtable\<close> models \<^verbatim>\<open>hashtable.c\<close>; \<open>Hashtable_Map\<close> and \<open>Hashtable_Put\<close> show
    that it is a map. \<open>Kvs_Store\<close> has the requests of \<^verbatim>\<open>bench/main.c\<close>, \<open>Kvs_Inv\<close> the invariant of the store,
    \<open>Kvs_Requests\<close> and \<open>Kvs_Start\<close> the refinement of a map from strings to strings, from start-up on. \<open>Workload\<close> is
    \<^verbatim>\<open>bench/rng.c\<close> and the drawing of keys of \<^verbatim>\<open>bench/workload.c\<close>, \<open>Kvs_Bench\<close> the benchmark threads.
  \<^item> \<open>Kvs_Server\<close> models \<^verbatim>\<open>server/main.c\<close>: connections, buffers, requests in the binary protocol of memcached, and the events
    of a processing thread; the two ends of a socket are lists of results, and what \<^verbatim>\<open>madvise\<close> does to memory is a
    parameter. \<open>Kvs_Protocol\<close> relates packets to requests and serves one request, \<open>Kvs_Stream\<close> a buffer full of them,
    \<open>Kvs_Clients\<close> any number of clients, and \<open>Kvs_Faults\<close> has the errors of the server.

  \<^bold>\<open>What is shown.\<close> For the library: the abstract specification of a memory manager is that the application cannot notice
  it. Migration changes no byte the application can read, and neither does a turn of the policy, the scan or the swap thread;
  from start-up on, the interleavings described below keep the invariant, so that no two pages share a frame and
  every descriptor is on the list its state says; turns of the policy thread return and trip no assertion
  as long as a frame is free; a page that is sampled often enough is found to be hot; an accepted \<^verbatim>\<open>mmap\<close> delivers its region and an
  unmapped page becomes free again. For the store: the hash table refines a finite map, and the requests refine a map from keys to values, for as long
  as there is room, which is counted; a benchmark run within that capacity completes, and a processing thread of
  the server answers any number of clients as one map does to which their requests go in some order, wherever
  their streams are cut and reads block (requests up to \<open>2\<^sup>1\<^sup>5\<close> bytes, no maintenance in between); maintenance
  gives back drained segments and queues the live items of the segment it cleans; the hash depends on
  the bytes of the key alone; the random generator has full period. The statements that are known to fail
  are proved as such: the aborts with full memory, the abort after an unmapping that comes late, the entry a ring invents, the hint for DRAM no int can give, the crash of a full
  store, the key that is never drawn, the reference a closed connection takes along, the key that stays
  after it has been deleted, the malformed request that stops the server.

  \<^bold>\<open>Configuration.\<close> \<^verbatim>\<open>USE_DMA\<close>, \<^verbatim>\<open>LLAMA\<close> and \<^verbatim>\<open>ALLOC_LRU\<close> are fields of the platform record and both their variants are modelled;
  \<^verbatim>\<open>LRU_SWAP\<close> is a parameter of the LRU policy. \<^verbatim>\<open>COOL_IN_PLACE\<close> is on, as in the source. The machine is x86-64:
  little endian, and the hash uses the variant for it.

  \<^bold>\<open>Loops and atomicity.\<close> Loops over a structure or with a constant bound recurse over it. The others, among them the
  migration loops of the policies, the walks over the links of the store and the binary search of the workload, are partial functions
  into the option type, where a loop that never ends has the value \<open>None\<close>; that they return is
  part of the theorems about them, and no fuel is used. The bounds in the definitions are those of the source: the two attempts of a migration,
  the requests taken from a ring in one turn, the pages cooled in one turn. Time stamps and log
  output are left out.

  A step of a transition system is smaller than an iteration of a thread, but larger than a memory access. In
  \<open>Pebs_Threads\<close> it is one sample record, one page or ring entry of the policy thread, one page fault, one page
  unmapped; in \<open>Lru_Threads\<close> one page of the scan or the swap thread, one page fault, one removal. The code takes
  locks for single list operations only, so these steps are not all atomic in it. What is left out, and known to be
  wrong in the code: unmapping a page while the policy thread of \<^verbatim>\<open>pebs.c\<close> has it, or a request for it, in its
  hands (the steps therefore unmap only while that thread sleeps or works off the free ring; an abort outside of
  this is proved), the fault of \<^verbatim>\<open>lru.c\<close>, which gives up its lock before the page is mapped, and the wait of its
  removal for the end of a scan. The rings between the threads are whole operations there; their accesses are
  treated in \<open>Ring_Threads\<close>. Memory is sequentially consistent. The key-value store is sequential: one thread
  works on it, and maintenance does not run in between.

  \<^bold>\<open>Not modelled.\<close> The vendored \<^verbatim>\<open>uthash.h\<close> (the page table is a finite map); \<^verbatim>\<open>hemem-mmgr.c\<close>, which no target builds; opening of devices, perf events
  and threads in the start-up code, which are calls of the system only; the printing of statistics; \<^verbatim>\<open>timer.c\<close>; command line parsing; setting up and accepting sockets; the servers
  and the benchmark for network stacks that are not in the repository; the cumulative probabilities of
  \<^verbatim>\<open>workload.c\<close> and the percentiles of \<^verbatim>\<open>bench/main.c\<close>, which are sums of rounded floating point numbers; the microbenchmarks.
\<close>

end
